(* ===== verification/Prelude.thy ===== *)
theory Prelude
  imports Main "HOL-Library.Word" "HOL-Library.Monad_Syntax" "HOL-Library.Multiset"
begin

section \<open>Shared vocabulary of the kernel model\<close>

text \<open>
  Types, helpers and lemmas every component of the model uses.

  \<^item> A kernel operation that can fail an \<open>assert\<close>, follow a NULL pointer or spin on a lock
    nobody will release returns \<open>'a option\<close>: \<open>None\<close> is "this call does not return
    normally" (\<open>assert\<close> in \<open>include/assert.h\<close> halts the machine).
  \<^item> C's \<open>unsigned int\<close> and \<open>uint64_t\<close> are words; \<open>int\<close> values are HOL integers, and
    the places where the code's arithmetic can leave the 32-bit range wrap with
    \<open>wrap32\<close>.
  \<^item> A C array is a function from indices; its first \<open>n\<close> entries as a list are
    \<open>arr_list a n\<close>. The array loops that several files share (search, close a gap,
    open a gap) are defined here once, with their list readings.
\<close>

named_theorems arr_simps \<open>list readings of the array loops\<close>
named_theorems kernel_defs \<open>definitions that unfold when a kernel operation is run\<close>

type_synonym byte = "8 word"
type_synonym u32 = "32 word"
type_synonym u64 = "64 word"
type_synonym addr = nat \<comment> \<open>the identity of a heap object (the value of a pointer)\<close>

subsection \<open>Signed 32-bit arithmetic\<close>

definition wrap32 :: "int \<Rightarrow> int" where
  "wrap32 x = (x + 2 ^ 31) mod 2 ^ 32 - 2 ^ 31"

lemma wrap32_id [simp]: "- (2 ^ 31) \<le> x \<Longrightarrow> x < 2 ^ 31 \<Longrightarrow> wrap32 x = x"
  by (simp add: wrap32_def)

lemma wrap32_bounds: "- (2 ^ 31) \<le> wrap32 x" "wrap32 x < 2 ^ 31"
  by (simp_all add: wrap32_def)

text \<open>C's remainder rounds towards zero: the sign of the result is that of the dividend.\<close>

definition c_rem :: "int \<Rightarrow> int \<Rightarrow> int" where
  "c_rem a b = (if a < 0 then - ((- a) mod \<bar>b\<bar>) else a mod \<bar>b\<bar>)"

lemma c_rem_nonneg [simp]: "0 \<le> a \<Longrightarrow> 0 < b \<Longrightarrow> c_rem a b = a mod b"
  by (simp add: c_rem_def)

text \<open>C's division rounds towards zero as well.\<close>

definition c_div :: "int \<Rightarrow> int \<Rightarrow> int" where
  "c_div a b = sgn a * sgn b * (\<bar>a\<bar> div \<bar>b\<bar>)"

lemma c_div_nonneg [simp]: "0 \<le> a \<Longrightarrow> 0 < b \<Longrightarrow> c_div a b = a div b"
  by (cases "a = 0") (simp_all add: c_div_def)

lemma unat_add_one:
  fixes x y :: "'a::len word"
  assumes "unat x < unat y"
  shows "unat (x + 1) = Suc (unat x)"
proof -
  have "unat y < 2 ^ LENGTH('a)" by (rule unsigned_less)
  with assms have "Suc (unat x) < 2 ^ LENGTH('a)" by linarith
  then show ?thesis by (simp add: unat_word_ariths)
qed

subsection \<open>Assertions\<close>

definition assert :: "bool \<Rightarrow> unit option" where
  "assert b = (if b then Some () else None)"

lemma assert_True [simp]: "assert True = Some ()"
  and assert_False [simp]: "assert False = None"
  by (simp_all add: assert_def)

lemma assert_bind [simp]: "(assert b \<bind> f) = (if b then f () else None)"
  by (simp add: assert_def)

lemma bind_eq_Some: "(m \<bind> f) = Some y \<longleftrightarrow> (\<exists>x. m = Some x \<and> f x = Some y)"
  by (cases m) auto

subsection \<open>Arrays\<close>

definition arr_list :: "(nat \<Rightarrow> 'a) \<Rightarrow> nat \<Rightarrow> 'a list" where
  "arr_list a n = map a [0..<n]"

lemma length_arr_list [simp]: "length (arr_list a n) = n"
  by (simp add: arr_list_def)

lemma nth_arr_list [simp]: "i < n \<Longrightarrow> arr_list a n ! i = a i"
  by (simp add: arr_list_def)

lemma arr_list_0 [simp]: "arr_list a 0 = []"
  by (simp add: arr_list_def)

lemma arr_list_Suc: "arr_list a (Suc n) = arr_list a n @ [a n]"
  by (simp add: arr_list_def)

lemma set_arr_list: "set (arr_list a n) = a ` {..<n}"
  by (simp add: arr_list_def atLeast0LessThan)

lemma in_arr_list: "x \<in> set (arr_list a n) \<longleftrightarrow> (\<exists>i<n. a i = x)"
  by (auto simp: set_arr_list)

lemma arr_list_cong: "(\<And>i. i < n \<Longrightarrow> a i = b i) \<Longrightarrow> arr_list a n = arr_list b n"
  by (simp add: arr_list_def)

lemma arr_list_upd_beyond [simp]: "n \<le> i \<Longrightarrow> arr_list (a(i := x)) n = arr_list a n"
  by (rule arr_list_cong) simp

lemma arr_list_upd: "i < n \<Longrightarrow> arr_list (a(i := x)) n = (arr_list a n)[i := x]"
  by (rule nth_equalityI) (auto simp: nth_list_update)

lemma arr_list_append_last [arr_simps]:
  "arr_list (a(n := x)) (Suc n) = arr_list a n @ [x]"
  by (simp add: arr_list_Suc)

lemma take_arr_list: "m \<le> n \<Longrightarrow> take m (arr_list a n) = arr_list a m"
  by (rule nth_equalityI) auto

lemma drop_arr_list: "drop m (arr_list a n) = arr_list (\<lambda>i. a (m + i)) (n - m)"
  by (rule nth_equalityI) auto

text \<open>\<open>for ( pos = lo; pos < n; pos++ ) if ( p( pos ) ) break;\<close>\<close>

function arr_find :: "(nat \<Rightarrow> bool) \<Rightarrow> nat \<Rightarrow> nat \<Rightarrow> nat" where
  "arr_find p n i = (if i < n then (if p i then i else arr_find p n (Suc i)) else n)"
  by pat_completeness auto
termination
  by (relation "measure (\<lambda>(p, n, i). n - i)") auto

declare arr_find.simps [simp del]

lemma arr_find_le: "i \<le> n \<Longrightarrow> arr_find p n i \<le> n"
  by (induction p n i rule: arr_find.induct) (subst arr_find.simps, simp)

lemma arr_find_ge: "i \<le> n \<Longrightarrow> i \<le> arr_find p n i"
proof (induction p n i rule: arr_find.induct)
  case (1 p n i)
  then show ?case
    by (subst arr_find.simps) (auto intro: Suc_leD)
qed

lemma arr_find_hit: "arr_find p n i < n \<Longrightarrow> p (arr_find p n i)"
proof (induction p n i rule: arr_find.induct)
  case (1 p n i)
  then show ?case
    by (cases "i < n"; cases "p i") (simp_all add: arr_find.simps [of p n i])
qed

lemma arr_find_before: "i \<le> j \<Longrightarrow> j < arr_find p n i \<Longrightarrow> \<not> p j"
proof (induction p n i rule: arr_find.induct)
  case (1 p n i)
  show ?case
  proof (cases "i < n \<and> \<not> p i")
    case True
    with 1 show ?thesis
      by (cases "i = j") (auto simp: arr_find.simps [of p n i])
  next
    case False
    with 1 show ?thesis
      by (cases "i < n") (auto simp: arr_find.simps [of p n i] arr_find.simps)
  qed
qed

lemma arr_find_miss: "arr_find p n i = n \<Longrightarrow> i \<le> j \<Longrightarrow> j < n \<Longrightarrow> \<not> p j"
  using arr_find_before [of i j p n] by simp

lemma arr_find_eqI:
  assumes "i \<le> k" "k < n" "p k" "\<And>j. i \<le> j \<Longrightarrow> j < k \<Longrightarrow> \<not> p j"
  shows "arr_find p n i = k"
proof (rule ccontr)
  assume ne: "arr_find p n i \<noteq> k"
  have "\<not> arr_find p n i < k"
    using assms(4) [of "arr_find p n i"] arr_find_ge [of i n p] arr_find_hit [of p n i] assms(1,2)
    by auto
  with ne have "k < arr_find p n i" by simp
  then show False using arr_find_before [of i k p n] assms(1,3) by simp
qed

lemma arr_find_noneI: "(\<And>j. i \<le> j \<Longrightarrow> j < n \<Longrightarrow> \<not> p j) \<Longrightarrow> i \<le> n \<Longrightarrow> arr_find p n i = n"
  using arr_find_hit [of p n i] arr_find_ge [of i n p] arr_find_le [of i n p] by fastforce

text \<open>\<open>for ( i = pos; i < n - 1; i++ ) a[i] = a[i+1];\<close>\<close>

function shift_down :: "(nat \<Rightarrow> 'a) \<Rightarrow> nat \<Rightarrow> nat \<Rightarrow> (nat \<Rightarrow> 'a)" where
  "shift_down a i n = (if i < n - 1 then shift_down (a(i := a (i + 1))) (i + 1) n else a)"
  by pat_completeness auto
termination
  by (relation "measure (\<lambda>(a, i, n). n - i)") auto

declare shift_down.simps [simp del]

lemma shift_down_apply:
  "shift_down a i n j = (if i \<le> j \<and> j < n - 1 then a (j + 1) else a j)"
proof (induction a i n rule: shift_down.induct)
  case (1 a i n)
  show ?case
  proof (cases "i < n - 1")
    case True
    then have "shift_down a i n j = shift_down (a(i := a (i + 1))) (i + 1) n j"
      by (simp add: shift_down.simps [of a i n])
    also note "1.IH" [OF True]
    finally show ?thesis using True by auto
  next
    case False
    then show ?thesis
      by (auto simp: shift_down.simps [of a i n])
  qed
qed

lemma arr_list_shift_down [arr_simps]:
  "i < n \<Longrightarrow> arr_list (shift_down a i n) (n - 1) = take i (arr_list a n) @ drop (Suc i) (arr_list a n)"
  by (rule nth_equalityI) (auto simp: shift_down_apply nth_append)

text \<open>\<open>for ( i = n; i > pos; i-- ) a[i] = a[i-1];\<close>\<close>

fun shift_up :: "(nat \<Rightarrow> 'a) \<Rightarrow> nat \<Rightarrow> nat \<Rightarrow> (nat \<Rightarrow> 'a)" where
  "shift_up a pos 0 = a"
| "shift_up a pos (Suc i) = (if pos \<le> i then shift_up (a(Suc i := a i)) pos i else a)"

lemma shift_up_apply:
  "shift_up a pos n j = (if pos < j \<and> j \<le> n then a (j - 1) else a j)"
proof (induction a pos n rule: shift_up.induct)
  case (2 a pos i)
  show ?case
  proof (cases "pos \<le> i")
    case True
    then have "shift_up a pos (Suc i) j = shift_up (a(Suc i := a i)) pos i j" by simp
    also note "2.IH" [OF True]
    finally show ?thesis using True by auto
  qed auto
qed auto

lemma arr_list_shift_up_insert [arr_simps]:
  "pos \<le> n \<Longrightarrow> arr_list ((shift_up a pos n)(pos := x)) (Suc n) =
     take pos (arr_list a n) @ x # drop pos (arr_list a n)"
  by (rule nth_equalityI)
    (auto simp: shift_up_apply nth_append nth_Cons' intro!: arg_cong [of _ _ a])

lemma arr_list_shift_up_front [arr_simps]:
  "pos < n \<Longrightarrow> arr_list ((shift_up a 0 pos)(0 := x)) n =
     x # take pos (arr_list a n) @ drop (Suc pos) (arr_list a n)"
  by (rule nth_equalityI) (auto simp: shift_up_apply nth_append nth_Cons split: nat.splits)

text \<open>\<open>for ( i = lo; i < n; i++ ) a[i] = a[i+d];\<close>\<close>

function copy_down :: "(nat \<Rightarrow> 'a) \<Rightarrow> nat \<Rightarrow> nat \<Rightarrow> nat \<Rightarrow> (nat \<Rightarrow> 'a)" where
  "copy_down a i n d = (if i < n then copy_down (a(i := a (i + d))) (i + 1) n d else a)"
  by pat_completeness auto
termination
  by (relation "measure (\<lambda>(a, i, n, d). n - i)") auto

declare copy_down.simps [simp del]

lemma copy_down_apply:
  "copy_down a i n d j = (if i \<le> j \<and> j < n then a (j + d) else a j)"
proof (induction a i n d rule: copy_down.induct)
  case (1 a i n d)
  show ?case
  proof (cases "i < n")
    case True
    then have "copy_down a i n d j = copy_down (a(i := a (i + d))) (i + 1) n d j"
      by (simp add: copy_down.simps [of a i n])
    also note "1.IH" [OF True]
    finally show ?thesis using True by auto
  next
    case False
    then show ?thesis by (auto simp: copy_down.simps [of a i n])
  qed
qed

lemma arr_list_copy_down [arr_simps]: "arr_list (copy_down a 0 n d) n = drop d (arr_list a (n + d))"
  by (rule nth_equalityI) (auto simp: copy_down_apply add.commute)

text \<open>The entry a search stops at, and the list with it removed.\<close>

lemma remove1_arr_list:
  assumes "arr_find (\<lambda>i. a i = x) n 0 = i" "i < n"
  shows "take i (arr_list a n) @ drop (Suc i) (arr_list a n) = remove1 x (arr_list a n)"
proof -
  have hit: "a i = x" using arr_find_hit [of "\<lambda>i. a i = x" n 0] assms by simp
  have "x \<notin> set (take i (arr_list a n))"
    using arr_find_before [of 0 _ "\<lambda>i. a i = x" n] assms by (auto simp: take_arr_list in_arr_list)
  moreover have "arr_list a n = take i (arr_list a n) @ x # drop (Suc i) (arr_list a n)"
    using assms(2) hit id_take_nth_drop [of i "arr_list a n"] by simp
  ultimately show ?thesis
    by (metis remove1.simps(2) remove1_append)
qed

lemma arr_find_in:
  "x \<in> set (arr_list a n) \<longleftrightarrow> arr_find (\<lambda>i. a i = x) n 0 < n"
proof
  assume "x \<in> set (arr_list a n)"
  then show "arr_find (\<lambda>i. a i = x) n 0 < n"
    using arr_find_miss [of "\<lambda>i. a i = x" n 0] arr_find_le [of 0 n "\<lambda>i. a i = x"]
    by (fastforce simp: in_arr_list)
next
  assume "arr_find (\<lambda>i. a i = x) n 0 < n"
  then show "x \<in> set (arr_list a n)"
    using arr_find_hit [of "\<lambda>i. a i = x" n 0] by (auto simp: in_arr_list)
qed

text \<open>A search and an association list read the same table.\<close>

lemma arr_find_Suc:
  "arr_find p (Suc n) 0 = (if arr_find p n 0 < n then arr_find p n 0 else if p n then n else Suc n)"
proof (cases "arr_find p n 0 < n")
  case True
  then show ?thesis
    using arr_find_hit [OF True] arr_find_before [of 0 _ p n] by (auto intro!: arr_find_eqI)
next
  case False
  then have "arr_find p n 0 = n" using arr_find_le [of 0 n p] by simp
  then have "\<not> p j" if "j < n" for j using that arr_find_miss [of p n 0 j] by simp
  then show ?thesis
    using False by (auto intro!: arr_find_eqI arr_find_noneI simp: less_Suc_eq)
qed

lemma arr_find_0 [simp]: "arr_find p 0 i = 0"
  by (subst arr_find.simps) simp

lemma arr_find_cong: "(\<And>i. i < n \<Longrightarrow> p i = q i) \<Longrightarrow> arr_find p n 0 = arr_find q n 0"
  by (induction n) (simp_all add: arr_find_Suc)

lemma map_of_arr:
  "map_of (map f (arr_list a n)) k =
     (let i = arr_find (\<lambda>i. fst (f (a i)) = k) n 0 in if i < n then Some (snd (f (a i))) else None)"
proof (induction n)
  case (Suc n)
  show ?case
    using arr_find_le [of 0 n "\<lambda>i. fst (f (a i)) = k"] Suc
    by (cases "f (a n)") (auto simp: arr_list_Suc arr_find_Suc map_add_def Let_def split: option.splits if_splits)
qed simp

end
