(* ===== verification/Aqueue.thy ===== *)
theory Aqueue
  imports Prelude
begin

section \<open>The paged FIFO queue (kernel/src/ds/aqueue.c)\<close>

text \<open>
  A \<open>struct ds_aqueue\<close> keeps its objects in a chain of pages of \<open>obj_count\<close> slots.
  The chain from \<open>page\<close> to \<open>last_page\<close> is the list \<open>aq_page\<close>; a page is an array of
  slots, \<open>None\<close> where \<open>malloc\<close> has left the memory uninitialised. The operations hand
  out pointers into a page; here such a pointer is a location: the page's index in the
  chain and the slot's index in the page. The positions and the page count are 32-bit
  words, as in the code. \<open>malloc\<close> is an argument: whether the call succeeds.

  Shown: an invariant every operation keeps; that \<open>aqueue_new\<close>, the caller's writes and
  \<open>aqueue_save\<close> append to the queue's contents and \<open>aqueue_next\<close> removes its head
  (the \<open>fifo\<close> interface); that \<open>aqueue_get\<close> returns the head unless the read position
  stands on a page boundary, and that there it returns an object read before; and that
  discarding a staged object can lose the next one.
\<close>

type_synonym loc = "nat \<times> nat"

record 'a aqueue =
  aq_lock :: bool
  aq_pages :: u32
  aq_obj_size :: u32
  aq_obj_count :: u32
  aq_position :: u32
  aq_last_position :: u32
  aq_staging :: u32
  aq_page :: "(nat \<Rightarrow> 'a option) list"

definition aqueue_init :: "u32 \<Rightarrow> u32 \<Rightarrow> 'a aqueue" where
  "aqueue_init osize ocount =
     \<lparr>aq_lock = False, aq_pages = 0, aq_obj_size = osize, aq_obj_count = ocount,
      aq_position = 0, aq_last_position = 0, aq_staging = 0, aq_page = []\<rparr>"

text \<open>The loop of \<open>aqueue_reset\<close> frees the pages one after the other.\<close>

fun aqueue_free_pages :: "'a aqueue \<Rightarrow> 'a aqueue" where
  "aqueue_free_pages aq = aq\<lparr>aq_page := (case aq_page aq of [] \<Rightarrow> [] | p # ps \<Rightarrow> ps)\<rparr>"

function aqueue_free_all :: "'a aqueue \<Rightarrow> 'a aqueue" where
  "aqueue_free_all aq = (if aq_page aq \<noteq> [] then aqueue_free_all (aqueue_free_pages aq) else aq)"
  by pat_completeness auto
termination
  by (relation "measure (\<lambda>aq. length (aq_page aq))") (auto simp: neq_Nil_conv)

declare aqueue_free_all.simps [simp del]

definition aqueue_reset :: "'a aqueue \<Rightarrow> 'a aqueue" where
  "aqueue_reset aq =
     (let aq' = aqueue_free_all aq in aqueue_init (aq_obj_size aq') (aq_obj_count aq'))"

definition aqueue_size :: "'a aqueue \<Rightarrow> u32" where
  "aqueue_size aq = aq_last_position aq - aq_position aq"

text \<open>Taking a lock that is already held spins for ever: \<open>None\<close>.\<close>

definition aqueue_lock :: "'a aqueue \<Rightarrow> 'a aqueue option" where
  "aqueue_lock aq = (if aq_lock aq then None else Some (aq\<lparr>aq_lock := True\<rparr>))"

definition aqueue_unlock :: "'a aqueue \<Rightarrow> 'a aqueue" where
  "aqueue_unlock aq = aq\<lparr>aq_staging := 0, aq_lock := False\<rparr>"

text \<open>The divisions trap when \<open>obj_count\<close> is 0.\<close>

definition aqueue_new :: "bool \<Rightarrow> 'a aqueue \<Rightarrow> (loc option \<times> 'a aqueue) option" where
  "aqueue_new mem aq = do {
     assert (aq_obj_count aq \<noteq> 0);
     let page_div = aq_last_position aq div aq_obj_count aq;
     let page_mod = aq_last_position aq mod aq_obj_count aq;
     if page_mod = 0 \<and> aq_pages aq \<le> page_div
     then
       if \<not> mem then Some (None, aq)
       else Some (Some (length (aq_page aq), unat page_mod),
                  aq\<lparr>aq_pages := aq_pages aq + 1, aq_page := aq_page aq @ [\<lambda>_. None],
                     aq_staging := 1\<rparr>)
     else Some (Some (length (aq_page aq) - 1, unat page_mod), aq\<lparr>aq_staging := 1\<rparr>)
   }"

definition aqueue_save :: "'a aqueue \<Rightarrow> 'a aqueue" where
  "aqueue_save aq =
     (if aq_staging aq \<noteq> 1 then aq
      else aq\<lparr>aq_last_position := aq_last_position aq + 1, aq_staging := 0\<rparr>)"

definition aqueue_get :: "'a aqueue \<Rightarrow> loc option option" where
  "aqueue_get aq =
     (if aq_position aq = aq_last_position aq then Some None
      else do {
        assert (aq_obj_count aq \<noteq> 0);
        Some (Some (0, unat (aq_position aq mod aq_obj_count aq)))
      })"

text \<open>The loop that removes the pages already read; a NULL \<open>page\<close> is dereferenced.\<close>

fun aqueue_drop_pages :: "nat \<Rightarrow> 'a aqueue \<Rightarrow> 'a aqueue option" where
  "aqueue_drop_pages 0 aq = Some aq"
| "aqueue_drop_pages (Suc n) aq =
     (case aq_page aq of
        [] \<Rightarrow> None
      | _ # ps \<Rightarrow> aqueue_drop_pages n
          (aq\<lparr>aq_page := ps,
              aq_last_position := aq_last_position aq - aq_obj_count aq,
              aq_position := aq_position aq - aq_obj_count aq,
              aq_pages := aq_pages aq - 1\<rparr>))"

definition aqueue_next :: "'a aqueue \<Rightarrow> (loc option \<times> 'a aqueue) option" where
  "aqueue_next aq =
     (if aq_position aq = aq_last_position aq
      then Some (None, aq\<lparr>aq_position := 0, aq_last_position := 0\<rparr>)
      else do {
        assert (aq_obj_count aq \<noteq> 0);
        let page_div = aq_position aq div aq_obj_count aq;
        let page_mod = aq_position aq mod aq_obj_count aq;
        aq' \<leftarrow> aqueue_drop_pages (nat (sint page_div)) aq;
        Some (Some (0, unat page_mod), aq'\<lparr>aq_position := aq_position aq' + 1\<rparr>)
      })"

text \<open>What a caller does with a location: read the object there, or write all of it.\<close>

definition aq_read :: "'a aqueue \<Rightarrow> loc \<Rightarrow> 'a option" where
  "aq_read aq l = (if fst l < length (aq_page aq) then (aq_page aq ! fst l) (snd l) else None)"

definition aq_write :: "'a aqueue \<Rightarrow> loc \<Rightarrow> 'a \<Rightarrow> 'a aqueue option" where
  "aq_write aq l x =
     (if fst l < length (aq_page aq)
      then Some (aq\<lparr>aq_page := (aq_page aq)[fst l := (aq_page aq ! fst l)(snd l := Some x)]\<rparr>)
      else None)"

subsection \<open>Invariant and contents\<close>

text \<open>
  Objects are numbered from the start of the first page. The invariant holds between
  calls: the pages are exactly those the saved objects need, except that an emptied queue
  may keep one page.
\<close>

definition aq_slot :: "'a aqueue \<Rightarrow> nat \<Rightarrow> 'a option" where
  "aq_slot aq i = aq_read aq (i div unat (aq_obj_count aq), i mod unat (aq_obj_count aq))"

definition aq_inv :: "'a aqueue \<Rightarrow> bool" where
  "aq_inv aq \<longleftrightarrow>
     (let c = unat (aq_obj_count aq); p = unat (aq_position aq);
          l = unat (aq_last_position aq); n = length (aq_page aq) in
      0 < c \<and> n * c < 2 ^ 31 \<and> unat (aq_pages aq) = n \<and> p \<le> l \<and> p \<le> c \<and>
      l \<le> n * c \<and> (n * c < l + c \<or> l = 0 \<and> n = 1) \<and>
      (\<forall>i\<in>{p..<l}. aq_slot aq i \<noteq> None))"

definition aq_contents :: "'a aqueue \<Rightarrow> 'a list" where
  "aq_contents aq =
     map (\<lambda>i. the (aq_slot aq i)) [unat (aq_position aq)..<unat (aq_last_position aq)]"

text \<open>\<open>k\<close> more objects fit: their pages keep the positions inside 31 bits.\<close>

definition aq_room :: "nat \<Rightarrow> 'a aqueue \<Rightarrow> bool" where
  "aq_room k aq \<longleftrightarrow> unat (aq_last_position aq) + k + unat (aq_obj_count aq) \<le> 2 ^ 31"

lemma aq_slot_upd [simp]:
  "aq_slot (aq\<lparr>aq_lock := b\<rparr>) i = aq_slot aq i"
  "aq_slot (aq\<lparr>aq_staging := s\<rparr>) i = aq_slot aq i"
  "aq_slot (aq\<lparr>aq_position := p\<rparr>) i = aq_slot aq i"
  "aq_slot (aq\<lparr>aq_last_position := p\<rparr>) i = aq_slot aq i"
  by (simp_all add: aq_slot_def aq_read_def)

lemma aq_contents_upd [simp]:
  "aq_contents (aq\<lparr>aq_lock := b\<rparr>) = aq_contents aq"
  "aq_contents (aq\<lparr>aq_staging := s\<rparr>) = aq_contents aq"
  by (simp_all add: aq_contents_def)

lemma aq_inv_upd [simp]:
  "aq_inv (aq\<lparr>aq_lock := b\<rparr>) = aq_inv aq"
  "aq_inv (aq\<lparr>aq_staging := s\<rparr>) = aq_inv aq"
  by (simp_all add: aq_inv_def Let_def)

lemma aqueue_init_inv: "0 < ocount \<Longrightarrow> aq_inv (aqueue_init osize ocount)"
  by (simp add: aq_inv_def aqueue_init_def unat_gt_0 word_gt_0_no word_neq_0_conv)

lemma aqueue_init_contents [simp]: "aq_contents (aqueue_init osize ocount) = []"
  by (simp add: aq_contents_def aqueue_init_def)

lemma aqueue_free_all_fields [simp]:
  "aq_page (aqueue_free_all aq) = []"
  "aq_obj_size (aqueue_free_all aq) = aq_obj_size aq"
  "aq_obj_count (aqueue_free_all aq) = aq_obj_count aq"
  by (induction aq rule: aqueue_free_all.induct; subst aqueue_free_all.simps; simp)+

lemma aqueue_reset_eq: "aqueue_reset aq = aqueue_init (aq_obj_size aq) (aq_obj_count aq)"
  by (simp add: aqueue_reset_def Let_def)

lemma aqueue_size_contents: "aq_inv aq \<Longrightarrow> unat (aqueue_size aq) = length (aq_contents aq)"
  by (auto simp: aq_inv_def Let_def aqueue_size_def aq_contents_def unat_sub word_le_nat_alt)

lemma aq_invD:
  assumes "aq_inv aq"
  shows "0 < unat (aq_obj_count aq)" "aq_obj_count aq \<noteq> 0"
    "length (aq_page aq) * unat (aq_obj_count aq) < 2 ^ 31"
    "unat (aq_pages aq) = length (aq_page aq)"
    "unat (aq_position aq) \<le> unat (aq_last_position aq)"
    "unat (aq_position aq) \<le> unat (aq_obj_count aq)"
    "unat (aq_last_position aq) \<le> length (aq_page aq) * unat (aq_obj_count aq)"
    "length (aq_page aq) * unat (aq_obj_count aq) < unat (aq_last_position aq) + unat (aq_obj_count aq) \<or>
     unat (aq_last_position aq) = 0 \<and> length (aq_page aq) = 1"
    "\<And>i. unat (aq_position aq) \<le> i \<Longrightarrow> i < unat (aq_last_position aq) \<Longrightarrow> aq_slot aq i \<noteq> None"
  using assms by (auto simp: aq_inv_def Let_def)

lemma aq_empty_iff: "aq_inv aq \<Longrightarrow> aq_contents aq = [] \<longleftrightarrow> aq_position aq = aq_last_position aq"
  using aq_invD(5) [of aq] by (simp add: aq_contents_def word_unat_eq_iff) linarith

subsection \<open>Appending\<close>

text \<open>The number of pages that \<open>l\<close> objects need.\<close>

lemma pages_of_count:
  assumes "0 < c" "l \<le> n * c" "n * c < l + (c::nat)"
  shows "n = l div c + (if l mod c = 0 then 0 else 1)"
proof -
  define q r where "q = l div c" and "r = l mod c"
  have l: "l = q * c + r" "r < c" using assms(1) by (simp_all add: q_def r_def)
  show ?thesis
  proof (cases "r = 0")
    case True
    with assms l have "q * c \<le> n * c" "n * c < Suc q * c" by simp_all
    then have "n = q" using assms(1) by (metis less_Suc_eq_le mult_le_cancel2 mult_less_cancel2 le_antisym)
    with True show ?thesis by (simp add: q_def r_def)
  next
    case False
    with assms l have "q * c < n * c" by linarith
    moreover from assms l have "n * c < Suc (Suc q) * c" by simp
    ultimately
    have "q < n" "n < Suc (Suc q)" using mult_less_cancel2 by blast+
    with False show ?thesis by (simp add: q_def r_def)
  qed
qed

lemma aq_next_slot_page:
  assumes "aq_inv aq"
  shows "length (aq_page aq) =
    unat (aq_last_position aq) div unat (aq_obj_count aq) +
    (if unat (aq_last_position aq) mod unat (aq_obj_count aq) = 0 \<and>
        length (aq_page aq) \<le> unat (aq_last_position aq) div unat (aq_obj_count aq) then 0 else 1)"
proof -
  note inv = aq_invD [OF assms]
  from inv(8) show ?thesis
  proof
    assume "length (aq_page aq) * unat (aq_obj_count aq)
      < unat (aq_last_position aq) + unat (aq_obj_count aq)"
    then show ?thesis using pages_of_count [OF inv(1,7)] by auto
  qed auto
qed

lemma aq_slot_append:
  "i div unat (aq_obj_count aq) < length (aq_page aq) \<Longrightarrow>
   aq_slot (aq\<lparr>aq_page := aq_page aq @ ps\<rparr>) i = aq_slot aq i"
  by (simp add: aq_slot_def aq_read_def nth_append)

lemma aq_slot_write:
  assumes "aq_write aq (i div unat (aq_obj_count aq), i mod unat (aq_obj_count aq)) x = Some aq'"
  shows "aq_slot aq' j = (if j = i then Some x else aq_slot aq j)"
  using assms
  by (auto simp: aq_write_def aq_slot_def aq_read_def nth_list_update split: if_splits)
    (metis div_mult_mod_eq)+

text \<open>A write into the first free slot, saved: one more object.\<close>

lemma aq_write_save:
  assumes inv: "0 < c" "n * c < 2 ^ 31" "l + 1 \<le> n * c" "n * c < l + 1 + c" "p \<le> l" "p \<le> c"
    and vars: "c = unat (aq_obj_count aq)" "n = length (aq_page aq)" "p = unat (aq_position aq)"
      "l = unat (aq_last_position aq)" "unat (aq_pages aq) = n"
    and slots: "\<And>i. p \<le> i \<Longrightarrow> i < l \<Longrightarrow> aq_slot aq i \<noteq> None"
    and stage: "aq_staging aq = 1"
  shows "\<exists>aq'. aq_write aq (l div c, l mod c) x = Some aq' \<and> aq_inv (aqueue_save aq') \<and>
           aq_contents (aqueue_save aq') = aq_contents aq @ [x] \<and>
           aq_lock (aqueue_save aq') = aq_lock aq \<and>
           aq_obj_count (aqueue_save aq') = aq_obj_count aq \<and>
           unat (aq_last_position (aqueue_save aq')) = l + 1"
proof -
  have "l div c < n" using inv(1,3) by (simp add: less_mult_imp_div_less)
  then obtain aq' where w: "aq_write aq (l div c, l mod c) x = Some aq'"
    by (simp add: aq_write_def vars)
  then have same: "aq_obj_count aq' = aq_obj_count aq" "aq_position aq' = aq_position aq"
    "aq_last_position aq' = aq_last_position aq" "aq_pages aq' = aq_pages aq"
    "aq_staging aq' = 1" "length (aq_page aq') = n" "aq_lock aq' = aq_lock aq"
    by (auto simp: aq_write_def vars stage split: if_splits)
  have sl: "aq_slot aq' j = (if j = l then Some x else aq_slot aq j)" for j
    using w aq_slot_write [of aq l x aq' j] by (simp add: vars)
  have last: "unat (aq_last_position aq + 1) = l + 1"
    using inv(2,3) by (simp add: unat_word_ariths vars [symmetric])
  have "aq_inv (aqueue_save aq')"
    using inv slots by (auto simp: aq_inv_def Let_def aqueue_save_def same last sl vars less_Suc_eq)
  moreover have "aq_contents (aqueue_save aq') = aq_contents aq @ [x]"
    using inv(5) by (auto simp: aq_contents_def aqueue_save_def same last sl vars [symmetric])
  ultimately show ?thesis
    using w by (auto simp: aqueue_save_def same last)
qed

lemma next_page_bounds:
  fixes c :: nat
  assumes "0 < c"
  shows "(l div c + 1) * c < l + 1 + c" "l + 1 \<le> (l div c + 1) * c"
  using div_mult_mod_eq [of l c] mod_less_divisor [OF assms, of l]
  unfolding add_mult_distrib by linarith+

text \<open>
  \<open>aqueue_new\<close> hands out the slot of the first free number, on the last page of the chain,
  which it allocates if it is not there, and touches nothing else.
\<close>

lemma aqueue_new_ok:
  assumes inv: "aq_inv aq"
  shows "\<exists>aq1. aqueue_new True aq =
      Some (Some (unat (aq_last_position aq) div unat (aq_obj_count aq),
                  unat (aq_last_position aq) mod unat (aq_obj_count aq)), aq1) \<and>
      length (aq_page aq1) = unat (aq_last_position aq) div unat (aq_obj_count aq) + 1 \<and>
      unat (aq_pages aq1) = length (aq_page aq1) \<and> aq_staging aq1 = 1 \<and>
      aq_obj_count aq1 = aq_obj_count aq \<and> aq_position aq1 = aq_position aq \<and>
      aq_last_position aq1 = aq_last_position aq \<and> aq_lock aq1 = aq_lock aq \<and>
      (\<forall>i < unat (aq_last_position aq). aq_slot aq1 i = aq_slot aq i)"
proof -
  note I = aq_invD [OF inv]
  let ?c = "unat (aq_obj_count aq)" and ?l = "unat (aq_last_position aq)"
  let ?n = "length (aq_page aq)"
  let ?grow = "?l mod ?c = 0 \<and> ?n \<le> ?l div ?c"
  let ?aq1 = "if ?grow
    then aq\<lparr>aq_pages := aq_pages aq + 1, aq_page := aq_page aq @ [\<lambda>_. None], aq_staging := 1\<rparr>
    else aq\<lparr>aq_staging := 1\<rparr>"
  note n = aq_next_slot_page [OF inv]
  have "?n \<le> ?n * ?c" using I(1) by simp
  then have "?n < 2 ^ 31" using I(3) by (rule le_less_trans)
  then have "unat (aq_pages aq + 1) = ?n + 1" by (simp add: unat_word_ariths I(4))
  moreover have "aqueue_new True aq = Some (Some (?l div ?c, ?l mod ?c), ?aq1)"
    using n by (auto simp: aqueue_new_def Let_def I(1,2,4) word_le_nat_alt unat_div unat_mod word_unat_eq_iff)
  moreover have "aq_slot ?aq1 i = aq_slot aq i" if "i < ?l" for i
  proof -
    have "i div ?c < ?n" using that I(7) by (simp add: less_mult_imp_div_less)
    then show ?thesis by (auto simp: aq_slot_def aq_read_def nth_append)
  qed
  ultimately show ?thesis
    using n I(4) by (intro exI [of _ ?aq1]) auto
qed

text \<open>\<open>aqueue_new\<close>, the caller's write and \<open>aqueue_save\<close>, on a queue with room.\<close>

lemma aqueue_new_write_save:
  assumes inv: "aq_inv aq" and room: "aq_room (Suc k) aq"
  shows "\<exists>l aq1 aq2. aqueue_new True aq = Some (Some l, aq1) \<and> aq_write aq1 l x = Some aq2 \<and>
           aq_inv (aqueue_save aq2) \<and> aq_contents (aqueue_save aq2) = aq_contents aq @ [x] \<and>
           aq_lock (aqueue_save aq2) = aq_lock aq \<and> aq_room k (aqueue_save aq2)"
proof -
  note I = aq_invD [OF inv]
  let ?c = "unat (aq_obj_count aq)" and ?l = "unat (aq_last_position aq)"
  obtain aq1 where new: "aqueue_new True aq = Some (Some (?l div ?c, ?l mod ?c), aq1)"
    and aq1: "length (aq_page aq1) = ?l div ?c + 1" "unat (aq_pages aq1) = length (aq_page aq1)"
      "aq_staging aq1 = 1" "aq_obj_count aq1 = aq_obj_count aq" "aq_position aq1 = aq_position aq"
      "aq_last_position aq1 = aq_last_position aq" "aq_lock aq1 = aq_lock aq"
    and same: "\<And>i. i < ?l \<Longrightarrow> aq_slot aq1 i = aq_slot aq i"
    using aqueue_new_ok [OF inv] by auto
  note b = next_page_bounds [OF I(1), of ?l]
  have "(?l div ?c + 1) * ?c < 2 ^ 31"
    using b(1) room by (simp add: aq_room_def)
  have "\<exists>aq2. aq_write aq1 (?l div ?c, ?l mod ?c) x = Some aq2 \<and> aq_inv (aqueue_save aq2) \<and>
      aq_contents (aqueue_save aq2) = aq_contents aq1 @ [x] \<and>
      aq_lock (aqueue_save aq2) = aq_lock aq1 \<and>
      aq_obj_count (aqueue_save aq2) = aq_obj_count aq1 \<and>
      unat (aq_last_position (aqueue_save aq2)) = ?l + 1"
    by (rule aq_write_save [OF I(1) \<open>(?l div ?c + 1) * ?c < 2 ^ 31\<close> b(2,1) I(5,6)])
      (simp_all only: aq1 same I(9) not_False_eq_True)
  then obtain aq2 where "aq_write aq1 (?l div ?c, ?l mod ?c) x = Some aq2"
    "aq_inv (aqueue_save aq2)" "aq_contents (aqueue_save aq2) = aq_contents aq1 @ [x]"
    "aq_lock (aqueue_save aq2) = aq_lock aq" "aq_obj_count (aqueue_save aq2) = aq_obj_count aq"
    "unat (aq_last_position (aqueue_save aq2)) = ?l + 1"
    by (auto simp: aq1)
  moreover have "aq_contents aq1 = aq_contents aq"
    by (auto simp: aq_contents_def aq1 same)
  ultimately show ?thesis
    using new room by (auto simp: aq_room_def)
qed

subsection \<open>Removing\<close>

lemma aq_contents_Cons:
  assumes "aq_inv aq" "aq_contents aq = x # xs"
  shows "unat (aq_position aq) < unat (aq_last_position aq)"
    "aq_slot aq (unat (aq_position aq)) = Some x"
    "xs = map (\<lambda>i. the (aq_slot aq i)) [Suc (unat (aq_position aq))..<unat (aq_last_position aq)]"
proof -
  show lt: "unat (aq_position aq) < unat (aq_last_position aq)"
    using assms(2) by (simp add: aq_contents_def split: if_splits) (metis Cons_eq_map_D upt_eq_Cons_conv)
  then show "aq_slot aq (unat (aq_position aq)) = Some x"
    "xs = map (\<lambda>i. the (aq_slot aq i)) [Suc (unat (aq_position aq))..<unat (aq_last_position aq)]"
    using assms(2) aq_invD(9) [OF assms(1) order_refl] by (auto simp: aq_contents_def upt_conv_Cons)
qed

text \<open>Advancing the read position inside the first page.\<close>

lemma aq_advance:
  assumes inv: "aq_inv aq" and cons: "aq_contents aq = x # xs"
    and inside: "unat (aq_position aq) < unat (aq_obj_count aq)"
  shows "aq_read aq (0, unat (aq_position aq)) = Some x"
    "aq_inv (aq\<lparr>aq_position := aq_position aq + 1\<rparr>)"
    "aq_contents (aq\<lparr>aq_position := aq_position aq + 1\<rparr>) = xs"
proof -
  note I = aq_invD [OF inv] and C = aq_contents_Cons [OF inv cons]
  have "unat (aq_position aq + 1) = Suc (unat (aq_position aq))"
    using C(1) by (rule unat_add_one)
  then show "aq_inv (aq\<lparr>aq_position := aq_position aq + 1\<rparr>)"
    "aq_contents (aq\<lparr>aq_position := aq_position aq + 1\<rparr>) = xs"
    using I C inside by (auto simp: aq_inv_def Let_def aq_contents_def)
  show "aq_read aq (0, unat (aq_position aq)) = Some x"
    using C(2) inside by (simp add: aq_slot_def)
qed

text \<open>Dropping the first page once every object of it has been read.\<close>

lemma aq_drop_page:
  assumes inv: "aq_inv aq" and ne: "aq_position aq \<noteq> aq_last_position aq"
    and boundary: "unat (aq_position aq) = unat (aq_obj_count aq)"
  shows "\<exists>aq'. aqueue_drop_pages 1 aq = Some aq' \<and> aq_inv aq' \<and> aq_contents aq' = aq_contents aq \<and>
    aq_position aq' = 0 \<and> aq_obj_count aq' = aq_obj_count aq \<and> aq_lock aq' = aq_lock aq \<and>
    unat (aq_last_position aq') \<le> unat (aq_last_position aq)"
proof -
  note I = aq_invD [OF inv]
  let ?c = "unat (aq_obj_count aq)" and ?l = "unat (aq_last_position aq)"
  have lt: "?c < ?l" using I(5) ne boundary by (simp add: word_unat_eq_iff)
  obtain p ps where ps: "aq_page aq = p # ps" using lt I(7) by (cases "aq_page aq") auto
  define aq' where "aq' = aq\<lparr>aq_page := ps, aq_last_position := aq_last_position aq - aq_obj_count aq,
    aq_position := aq_position aq - aq_obj_count aq, aq_pages := aq_pages aq - 1\<rparr>"
  have u: "unat (aq_last_position aq') = ?l - ?c" "aq_position aq' = 0"
      "unat (aq_pages aq') = length ps"
    using lt boundary I(4) ps
    by (simp_all add: aq'_def unat_sub word_le_nat_alt word_unat_eq_iff unat_sub_if')
  have slot: "aq_slot aq' i = aq_slot aq (i + ?c)" for i
    using I(1) by (simp add: aq_slot_def aq_read_def aq'_def ps div_add_self2)
  have sz: "length ps * ?c + ?c = length (aq_page aq) * ?c" by (simp add: ps)
  have "aq_inv aq'"
    unfolding aq_inv_def Let_def
    using I(1,3,7,8) lt sz I(9) boundary by (auto simp: u slot) (auto simp: aq'_def)
  moreover have "aq_contents aq' = aq_contents aq"
  proof -
    have "[?c..<?l] = map (\<lambda>i. i + ?c) [0..<?l - ?c]"
      using lt map_add_upt [of ?c "?l - ?c"] by (simp add: add.commute)
    then show ?thesis by (simp add: aq_contents_def u slot boundary)
  qed
  moreover have "aqueue_drop_pages 1 aq = Some aq'"
    by (simp add: ps aq'_def)
  ultimately show ?thesis
    using u by (intro exI [of _ aq']) (auto simp: aq'_def)
qed

lemma aqueue_next_ok:
  assumes inv: "aq_inv aq" and cons: "aq_contents aq = x # xs"
  shows "\<exists>l aq'. aqueue_next aq = Some (Some l, aq') \<and> aq_read aq' l = Some x \<and> aq_inv aq' \<and>
    aq_contents aq' = xs \<and> aq_lock aq' = aq_lock aq \<and> (aq_room k aq \<longrightarrow> aq_room k aq')"
proof -
  note I = aq_invD [OF inv] and C = aq_contents_Cons [OF inv cons]
  let ?c = "unat (aq_obj_count aq)" and ?p = "unat (aq_position aq)"
  have ne: "aq_position aq \<noteq> aq_last_position aq" using C(1) by auto
  show ?thesis
  proof (cases "?p = ?c")
    case False
    then have lt: "?p < ?c" using I(6) by simp
    then have "aq_position aq div aq_obj_count aq = 0" "aq_position aq mod aq_obj_count aq = aq_position aq"
      by (simp_all add: word_unat_eq_iff unat_div unat_mod)
    then show ?thesis
      using aq_advance [OF inv cons lt] ne I(2)
      by (auto simp: aqueue_next_def aq_read_def aq_room_def)
  next
    case True
    then have "aq_position aq div aq_obj_count aq = 1" "aq_position aq mod aq_obj_count aq = 0"
      using I(1) by (simp_all add: word_unat_eq_iff unat_div unat_mod)
    moreover obtain aq1 where d: "aqueue_drop_pages 1 aq = Some aq1" and inv1: "aq_inv aq1"
      and c1: "aq_contents aq1 = x # xs" and p1: "aq_position aq1 = 0"
      and k1: "aq_obj_count aq1 = aq_obj_count aq" "aq_lock aq1 = aq_lock aq"
      "unat (aq_last_position aq1) \<le> unat (aq_last_position aq)"
      using aq_drop_page [OF inv ne True] cons by auto
    moreover have "unat (aq_position aq1) < unat (aq_obj_count aq1)" using p1 k1 I(1) by simp
    note aq_advance [OF inv1 c1 this]
    ultimately show ?thesis
      using ne I(2) by (auto simp: aqueue_next_def aq_read_def aq_room_def)
  qed
qed

lemma aqueue_next_empty:
  assumes inv: "aq_inv aq" and nil: "aq_contents aq = []"
  shows "\<exists>aq'. aqueue_next aq = Some (None, aq') \<and> aq_inv aq' \<and> aq_contents aq' = [] \<and>
    aq_lock aq' = aq_lock aq \<and> (aq_room k aq \<longrightarrow> aq_room k aq')"
proof -
  note I = aq_invD [OF inv]
  let ?c = "unat (aq_obj_count aq)" and ?n = "length (aq_page aq)"
  have eq: "aq_position aq = aq_last_position aq" using nil aq_empty_iff [OF inv] by simp
  have "?n * ?c < 2 * ?c" using I(8)
  proof
    assume "?n * ?c < unat (aq_last_position aq) + ?c"
    then show ?thesis using I(6) [unfolded eq] by linarith
  qed (use I(1) in simp)
  then have "?n < 2" using mult_less_cancel2 by blast
  then have "aq_inv (aq\<lparr>aq_position := 0, aq_last_position := 0\<rparr>)"
    using I by (auto simp: aq_inv_def Let_def less_2_cases_iff)
  then show ?thesis
    using eq by (auto simp: aqueue_next_def aq_contents_def aq_room_def)
qed

subsection \<open>The interface its clients use\<close>

text \<open>
  The pulse and message code uses a queue in two ways: lock, \<open>aqueue_new\<close>, fill the
  object in, \<open>aqueue_save\<close>, unlock; and lock, \<open>aqueue_next\<close>, read the object, unlock.
  The locale states what such a pair of operations promises, for any number of objects.
\<close>

text \<open>Repeating a put over a list of objects, and a pop a number of times.\<close>

fun put_all :: "('a \<Rightarrow> 'q \<Rightarrow> 'q option) \<Rightarrow> 'a list \<Rightarrow> 'q \<Rightarrow> 'q option" where
  "put_all put [] q = Some q"
| "put_all put (x # xs) q = do { q' \<leftarrow> put x q; put_all put xs q' }"

fun pop_all :: "('q \<Rightarrow> ('a option \<times> 'q) option) \<Rightarrow> nat \<Rightarrow> 'q \<Rightarrow> ('a option list \<times> 'q) option" where
  "pop_all pop 0 q = Some ([], q)"
| "pop_all pop (Suc n) q =
     do { (x, q') \<leftarrow> pop q; (xs, q'') \<leftarrow> pop_all pop n q'; Some (x # xs, q'') }"

lemma pop_all_numeral [simp]:
  "pop_all pop (numeral v) q =
     do { (x, q') \<leftarrow> pop q; (xs, q'') \<leftarrow> pop_all pop (pred_numeral v) q'; Some (x # xs, q'') }"
  by (simp add: numeral_eq_Suc)

locale fifo =
  fixes put :: "'a \<Rightarrow> 'q \<Rightarrow> 'q option"
    and pop :: "'q \<Rightarrow> ('a option \<times> 'q) option"
    and contents :: "'q \<Rightarrow> 'a list"
    and inv :: "'q \<Rightarrow> bool"
    and room :: "nat \<Rightarrow> 'q \<Rightarrow> bool"
  assumes put_ok: "inv q \<Longrightarrow> room (Suc k) q \<Longrightarrow>
      \<exists>q'. put x q = Some q' \<and> inv q' \<and> contents q' = contents q @ [x] \<and> room k q'"
    and pop_ok: "inv q \<Longrightarrow> contents q = x # xs \<Longrightarrow>
      \<exists>q'. pop q = Some (Some x, q') \<and> inv q' \<and> contents q' = xs \<and> (room k q \<longrightarrow> room k q')"
    and pop_empty: "inv q \<Longrightarrow> contents q = [] \<Longrightarrow>
      \<exists>q'. pop q = Some (None, q') \<and> inv q' \<and> contents q' = [] \<and> (room k q \<longrightarrow> room k q')"
begin

lemma put_all_ok:
  "inv q \<Longrightarrow> room (length xs) q \<Longrightarrow>
   \<exists>q'. put_all put xs q = Some q' \<and> inv q' \<and> contents q' = contents q @ xs"
proof (induction xs arbitrary: q)
  case (Cons x xs)
  then obtain q1 where "put x q = Some q1" "inv q1" "contents q1 = contents q @ [x]" "room (length xs) q1"
    using put_ok [of q "length xs" x] by auto
  with Cons.IH [of q1] show ?case by auto
qed simp

lemma pop_all_ok:
  "inv q \<Longrightarrow> contents q = xs @ ys \<Longrightarrow>
   \<exists>q'. pop_all pop (length xs) q = Some (map Some xs, q') \<and> inv q' \<and> contents q' = ys"
proof (induction xs arbitrary: q)
  case (Cons x xs)
  then obtain q1 where "pop q = Some (Some x, q1)" "inv q1" "contents q1 = xs @ ys"
    using pop_ok [of q x "xs @ ys"] by auto
  with Cons.IH [of q1] show ?case by auto
qed simp

text \<open>First in, first out: what was waiting comes out first, then the new objects in order.\<close>

lemma fifo_order:
  assumes "inv q" "room (length xs) q"
  shows "\<exists>q' q''. put_all put xs q = Some q' \<and>
    pop_all pop (length (contents q) + length xs) q' = Some (map Some (contents q @ xs), q'') \<and>
    inv q'' \<and> contents q'' = []"
proof -
  obtain q' where "put_all put xs q = Some q'" "inv q'" "contents q' = contents q @ xs"
    using put_all_ok assms by blast
  then show ?thesis using pop_all_ok [of q' "contents q @ xs" "[]"] by auto
qed

end

text \<open>The two sequences over the queue's own operations.\<close>

definition aq_put :: "bool \<Rightarrow> 'a \<Rightarrow> 'a aqueue \<Rightarrow> (bool \<times> 'a aqueue) option" where
  "aq_put mem x aq = do {
     aq1 \<leftarrow> aqueue_lock aq;
     (l, aq2) \<leftarrow> aqueue_new mem aq1;
     (case l of
        None \<Rightarrow> Some (False, aqueue_unlock aq2)
      | Some l \<Rightarrow> do {
          aq3 \<leftarrow> aq_write aq2 l x;
          Some (True, aqueue_unlock (aqueue_save aq3))
        })
   }"

abbreviation aq_append :: "'a \<Rightarrow> 'a aqueue \<Rightarrow> 'a aqueue option" where
  "aq_append x q \<equiv> map_option snd (aq_put True x q)"

definition aq_pop :: "'a aqueue \<Rightarrow> ('a option \<times> 'a aqueue) option" where
  "aq_pop aq = do {
     aq1 \<leftarrow> aqueue_lock aq;
     (l, aq2) \<leftarrow> aqueue_next aq1;
     (case l of
        None \<Rightarrow> Some (None, aqueue_unlock aq2)
      | Some l \<Rightarrow> do {
          x \<leftarrow> aq_read aq2 l;
          Some (Some x, aqueue_unlock aq2)
        })
   }"

definition aq_peek :: "'a aqueue \<Rightarrow> ('a option \<times> 'a aqueue) option" where
  "aq_peek aq = do {
     aq1 \<leftarrow> aqueue_lock aq;
     l \<leftarrow> aqueue_get aq1;
     (case l of
        None \<Rightarrow> Some (None, aqueue_unlock aq1)
      | Some l \<Rightarrow> do {
          x \<leftarrow> aq_read aq1 l;
          Some (Some x, aqueue_unlock aq1)
        })
   }"

text \<open>A queue at rest: the invariant holds and nobody is inside.\<close>

definition aq_ready :: "'a aqueue \<Rightarrow> bool" where
  "aq_ready aq \<longleftrightarrow> aq_inv aq \<and> \<not> aq_lock aq"

lemma aqueue_unlock_simps [simp]:
  "aq_lock (aqueue_unlock aq) = False"
  "aq_inv (aqueue_unlock aq) = aq_inv aq"
  "aq_contents (aqueue_unlock aq) = aq_contents aq"
  "aq_room k (aqueue_unlock aq) = aq_room k aq"
  "aq_room k (aq\<lparr>aq_lock := b\<rparr>) = aq_room k aq"
  by (simp_all add: aqueue_unlock_def aq_room_def)

lemma aq_put_ok:
  assumes "aq_ready aq" "aq_room (Suc k) aq"
  shows "\<exists>aq'. aq_put True x aq = Some (True, aq') \<and> aq_ready aq' \<and>
    aq_contents aq' = aq_contents aq @ [x] \<and> aq_room k aq'"
  using aqueue_new_write_save [of "aq\<lparr>aq_lock := True\<rparr>" k x] assms
  by (auto simp: aq_put_def aqueue_lock_def aq_ready_def)

lemma aq_pop_ok:
  assumes "aq_ready aq" "aq_contents aq = x # xs"
  shows "\<exists>aq'. aq_pop aq = Some (Some x, aq') \<and> aq_ready aq' \<and> aq_contents aq' = xs \<and>
    (aq_room k aq \<longrightarrow> aq_room k aq')"
  using aqueue_next_ok [of "aq\<lparr>aq_lock := True\<rparr>" x xs k] assms
  by (auto simp: aq_pop_def aqueue_lock_def aq_ready_def)

lemma aq_pop_empty:
  assumes "aq_ready aq" "aq_contents aq = []"
  shows "\<exists>aq'. aq_pop aq = Some (None, aq') \<and> aq_ready aq' \<and> aq_contents aq' = [] \<and>
    (aq_room k aq \<longrightarrow> aq_room k aq')"
  using aqueue_next_empty [of "aq\<lparr>aq_lock := True\<rparr>" k] assms
  by (auto simp: aq_pop_def aqueue_lock_def aq_ready_def)

interpretation aq: fifo aq_append aq_pop aq_contents aq_ready aq_room
proof unfold_locales
  fix q :: "'a aqueue" and k x
  assume "aq_ready q" "aq_room (Suc k) q"
  then show "\<exists>q'. aq_append x q = Some q' \<and> aq_ready q' \<and>
      aq_contents q' = aq_contents q @ [x] \<and> aq_room k q'"
    using aq_put_ok [of q k x] by auto
qed (simp_all add: aq_pop_ok aq_pop_empty)

lemma aq_read_lock [simp]: "aq_read (q\<lparr>aq_lock := b\<rparr>) l = aq_read q l"
  by (simp add: aq_read_def)

lemma aq_unlocked: "\<not> aq_lock q \<Longrightarrow> q\<lparr>aq_staging := s, aq_lock := False\<rparr> = q\<lparr>aq_staging := s\<rparr>"
  by (cases q) simp

lemma aqueue_init_ready: "0 < ocount \<Longrightarrow> aq_ready (aqueue_init osize ocount)"
  by (simp add: aq_ready_def aqueue_init_inv) (simp add: aqueue_init_def)

lemma aqueue_init_room: "k + unat ocount \<le> 2 ^ 31 \<Longrightarrow> aq_room k (aqueue_init osize ocount)"
  by (simp add: aq_room_def aqueue_init_def)

subsection \<open>Properties\<close>

text \<open>
  C15. FIFO order. After any sequence of sends to a queue at rest, receiving as many objects
  as were waiting and sent returns exactly those, the older ones first, in the order they
  were put in, across page boundaries; the queue is then empty and at rest again.
\<close>

theorem aqueue_fifo_order:
  assumes "aq_ready q" "aq_room (length xs) q"
  shows "\<exists>q' q''. put_all aq_append xs q = Some q' \<and>
    pop_all aq_pop (length (aq_contents q) + length xs) q' = Some (map Some (aq_contents q @ xs), q'') \<and>
    aq_ready q'' \<and> aq_contents q'' = []"
  using assms by (rule aq.fifo_order)

theorem aqueue_fifo_order_witness:
  "\<exists>q' q''. put_all aq_append [7, 8, 9::nat] (aqueue_init 20 2) = Some q' \<and>
    pop_all aq_pop 3 q' = Some ([Some 7, Some 8, Some 9], q'') \<and> aq_ready q'' \<and> aq_contents q'' = []"
  using aqueue_fifo_order [OF aqueue_init_ready aqueue_init_room, of 2 "[7, 8, 9::nat]" 20]
  by simp

text \<open>
  Each single operation on a queue at rest: a put with memory appends the object, a pop
  removes and returns the head or reports an empty queue, \<open>aqueue_size\<close> is the number of
  objects, and \<open>aqueue_reset\<close> empties the queue; all of them leave it at rest.
\<close>

theorem aqueue_operations:
  assumes "aq_ready q" "aq_room 1 q"
  shows "(\<exists>q'. aq_put True x q = Some (True, q') \<and> aq_ready q' \<and> aq_contents q' = aq_contents q @ [x]) \<and>
    (\<exists>q'. aq_pop q = Some (case aq_contents q of [] \<Rightarrow> None | y # ys \<Rightarrow> Some y, q') \<and>
       aq_ready q' \<and> aq_contents q' = tl (aq_contents q)) \<and>
    unat (aqueue_size q) = length (aq_contents q) \<and>
    aq_ready (aqueue_reset q) \<and> aq_contents (aqueue_reset q) = []"
proof -
  have "aq_inv q" using assms(1) by (simp add: aq_ready_def)
  then have "unat (aqueue_size q) = length (aq_contents q)" "0 < aq_obj_count q"
    by (simp_all add: aqueue_size_contents aq_invD(2) word_gt_0)
  moreover have "\<exists>q'. aq_pop q = Some (case aq_contents q of [] \<Rightarrow> None | y # ys \<Rightarrow> Some y, q') \<and>
      aq_ready q' \<and> aq_contents q' = tl (aq_contents q)"
    using aq_pop_ok [OF assms(1)] aq_pop_empty [OF assms(1)] by (cases "aq_contents q") fastforce+
  ultimately show ?thesis
    using aq_put_ok [of q 0 x] assms
    by (auto simp: aqueue_reset_eq aq_ready_def aqueue_init_inv) (simp add: aqueue_init_def)
qed

theorem aqueue_operations_witness:
  "\<exists>q'. aq_put True (5::nat) (aqueue_init 20 2) = Some (True, q') \<and> aq_contents q' = [5]"
  using aqueue_operations [OF aqueue_init_ready aqueue_init_room, of 2 "5::nat"] by auto

lemma aq_peek_head:
  assumes "aq_ready q" "aq_contents q = x # xs" "aq_position q < aq_obj_count q"
  shows "aq_peek q = Some (Some x, q\<lparr>aq_staging := 0\<rparr>)"
proof -
  have inv: "aq_inv q" "\<not> aq_lock q" using assms(1) by (simp_all add: aq_ready_def)
  have "aq_position q \<noteq> aq_last_position q" using aq_contents_Cons [OF inv(1) assms(2)] by auto
  moreover have "aq_position q mod aq_obj_count q = aq_position q"
    using assms(3) by (simp add: word_unat_eq_iff unat_mod word_less_nat_alt)
  moreover have "aq_read q (0, unat (aq_position q)) = Some x"
    using aq_advance [OF inv(1) assms(2)] assms(3) by (simp add: word_less_nat_alt)
  ultimately show ?thesis
    using inv aq_invD(2) [OF inv(1)]
    by (simp add: aq_peek_def aqueue_lock_def aqueue_get_def aqueue_unlock_def aq_unlocked)
qed

text \<open>
  Looking without removing (\<open>aqueue_get\<close>) returns the head of the queue as long as the
  read position is inside the first page, and leaves the queue as it was.
\<close>

theorem aqueue_get_head:
  assumes "aq_ready q" "aq_contents q = x # xs" "aq_position q < aq_obj_count q"
  shows "aq_peek q = Some (Some x, q\<lparr>aq_staging := 0\<rparr>)"
  using assms by (rule aq_peek_head)

definition aq_example :: "nat aqueue" where
  "aq_example = the (put_all aq_append [10, 20, 30] (aqueue_init 20 2))"

lemma aq_example_eq:
  "aq_example = \<lparr>aq_lock = False, aq_pages = 2, aq_obj_size = 20, aq_obj_count = 2, aq_position = 0,
     aq_last_position = 3, aq_staging = 0,
     aq_page = [(\<lambda>_. None)(0 := Some 10, 1 := Some 20), (\<lambda>_. None)(0 := Some 30)]\<rparr>"
  by (simp add: aq_example_def aq_put_def aqueue_lock_def aqueue_new_def aqueue_init_def
      aq_write_def aqueue_save_def aqueue_unlock_def)

lemma aq_example_ready: "aq_ready aq_example" "aq_contents aq_example = [10, 20, 30]"
  by (simp_all add: aq_ready_def aq_inv_def aq_example_eq aq_slot_def aq_read_def aq_contents_def upt_rec
      atLeastLessThan_nat_numeral)

theorem aqueue_get_head_witness:
  "aq_position aq_example < aq_obj_count aq_example \<and>
   aq_peek aq_example = Some (Some 10, aq_example\<lparr>aq_staging := 0\<rparr>)"
  using aqueue_get_head [OF aq_example_ready] by (simp add: aq_example_eq)

text \<open>
  On a page boundary it does not: when exactly the objects of the first page have been
  removed and more are waiting, \<open>aqueue_get\<close> returns object 0 of the first page, which was
  removed long before, while the head of the queue is object \<open>obj_count\<close>.
\<close>

theorem aqueue_get_stale:
  assumes "aq_ready q" "aq_contents q = x # xs" "aq_position q = aq_obj_count q"
  shows "aqueue_get q = Some (Some (0, 0)) \<and> aq_read q (0, 0) = aq_slot q 0 \<and>
    aq_slot q (unat (aq_obj_count q)) = Some x"
proof -
  have inv: "aq_inv q" using assms(1) by (simp add: aq_ready_def)
  have "aq_position q \<noteq> aq_last_position q" using aq_contents_Cons [OF inv assms(2)] by auto
  moreover have "aq_position q mod aq_obj_count q = 0" using assms(3) by simp
  ultimately show ?thesis
    using aq_invD(2) [OF inv] aq_contents_Cons(2) [OF inv assms(2)] assms(3)
    by (simp add: aqueue_get_def aq_slot_def)
qed

definition aq_example_read :: "nat aqueue" where
  "aq_example_read = snd (the (pop_all aq_pop 2 aq_example))"

lemma aq_example_read_eq:
  "aq_example_read = aq_example\<lparr>aq_position := 2\<rparr>"
  by (simp add: aq_example_read_def aq_example_eq aq_pop_def aqueue_lock_def
      aqueue_next_def aq_read_def aqueue_unlock_def)

theorem aqueue_get_stale_witness:
  "aq_contents aq_example_read = [30] \<and> aqueue_get aq_example_read = Some (Some (0, 0)) \<and>
   aq_read aq_example_read (0, 0) = Some 10"
proof -
  have "aq_ready aq_example_read" "aq_contents aq_example_read = [30]"
    "aq_position aq_example_read = aq_obj_count aq_example_read"
    by (simp_all add: aq_ready_def aq_inv_def aq_example_read_eq aq_example_eq aq_slot_def aq_read_def
      aq_contents_def upt_rec atLeastLessThan_nat_numeral)
  from aqueue_get_stale [OF this] this(2) show ?thesis
    by (simp add: aq_slot_def aq_read_def aq_example_read_eq aq_example_eq)
qed

definition aq_discard :: "nat aqueue \<Rightarrow> nat aqueue option" where
  "aq_discard q = do {
     q1 \<leftarrow> aqueue_lock q; (l, q2) \<leftarrow> aqueue_new True q1; Some (aqueue_unlock q2) }"

text \<open>
  Discarding a staged object is not safe. The queue below has a full page; a new object
  is staged and discarded by unlocking, which leaves its page behind; the queue is drained.
  The next object put in is written to the second page, and the pop that should return it
  returns the first object of the first page again.
\<close>

theorem aqueue_discard_unsafe:
  "do { q1 \<leftarrow> put_all aq_append [10, 20] (aqueue_init 20 2);
        q2 \<leftarrow> aq_discard q1;
        (old, q3) \<leftarrow> pop_all aq_pop 3 q2;
        q4 \<leftarrow> aq_append 30 q3;
        (r, q5) \<leftarrow> aq_pop q4;
        Some (old, unat (aqueue_size q4), r) } = Some ([Some 10, Some 20, None], 1, Some 10)"
  by (simp add: aq_discard_def aq_put_def aqueue_lock_def aqueue_new_def aqueue_init_def
      aq_write_def aqueue_save_def aqueue_unlock_def aq_pop_def aqueue_next_def
      aq_read_def aqueue_size_def)

end
