(* ===== verification/Htable.thy ===== *)
theory Htable
  imports Prelude
begin

section \<open>The hash table (kernel/src/ds/htable.c)\<close>

text \<open>
  An open-addressing table of pointers with linear probing. The table's \<open>key\<close> and
  \<open>compare\<close> functions read the objects the pointers name, so they are arguments here: a
  key for the entries (\<open>'a\<close>), a key for a sample (\<open>'b\<close>) and a comparison of an entry
  with a sample. The array \<open>table\<close> is a function from indices, \<open>None\<close> for NULL.

  \<open>htable_insert\<close> and \<open>htable_rehash\<close> call each other. The recursion is bounded by fuel;
  with \<open>percent\<close> at least 50 (both tables of the kernel use 75) a rehash never nests, so
  fuel 2 always gives the result (\<open>htable_insert_grows\<close>). \<open>malloc\<close> is an argument:
  whether the allocation of the new array succeeds.

  Shown: insertion, removal and rehashing keep the entries as a multiset; a lookup finds a
  matching entry exactly when there is one; \<open>htable_get\<close> enumerates the entries.
\<close>

record 'a htable =
  ht_total :: int
  ht_size :: int
  ht_percent :: int
  ht_table :: "nat \<Rightarrow> 'a option"

text \<open>
  \<open>None\<close>: the array could not be allocated and the code writes through the NULL pointer.
  \<open>Some None\<close>: the table could not be allocated and NULL is returned.
\<close>

definition init_htable :: "bool \<Rightarrow> bool \<Rightarrow> int \<Rightarrow> int \<Rightarrow> 'a htable option option" where
  "init_htable mem mem_array sz percent =
     (if \<not> mem then Some None
      else let sz' = (if sz \<le> 0 then 32 else sz) in
        if \<not> mem_array then None
        else Some (Some \<lparr>ht_total = 0, ht_size = sz', ht_percent = percent, ht_table = (\<lambda>_. None)\<rparr>))"

text \<open>
  The probe loop of the insert, remove and retrieve operations: where it stops, or that it
  ran through the whole table. \<open>None\<close> is the failed assertion \<open>position >= 0\<close> (and, in
  \<open>htable_remove\<close>, a read before the array).
\<close>

function ht_scan :: "(nat \<Rightarrow> bool) \<Rightarrow> int \<Rightarrow> int \<Rightarrow> nat \<Rightarrow> nat option option" where
  "ht_scan stop key sz i =
     (if int i < sz then
        let position = c_rem (wrap32 (int i + key)) sz in
        if position < 0 then None
        else if stop (nat position) then Some (Some (nat position))
        else ht_scan stop key sz (Suc i)
      else Some None)"
  by pat_completeness auto
termination
  by (relation "measure (\<lambda>(stop, key, sz, i). nat sz - i)") auto

declare ht_scan.simps [simp del]

text \<open>\<open>key = table->key( data ); if ( key < 0 ) key = -key;\<close>\<close>

definition ht_abs_key :: "int \<Rightarrow> int" where
  "ht_abs_key k = (if k < 0 then wrap32 (- k) else k)"

text \<open>The non-NULL entries in index order, which is the order the rehash loop visits them.\<close>

definition ht_list :: "'a htable \<Rightarrow> 'a list" where
  "ht_list t = List.map_filter (\<lambda>x. x) (arr_list (ht_table t) (nat (ht_size t)))"

text \<open>\<open>current_percent = (entries * 100) / table->size\<close>\<close>

definition current_percent :: "int \<Rightarrow> int \<Rightarrow> int" where
  "current_percent entries sz = c_div (wrap32 (entries * 100)) sz"

lemma current_percent_eq [simp]:
  "0 \<le> n \<Longrightarrow> n \<le> 2 ^ 24 \<Longrightarrow> 0 < sz \<Longrightarrow> current_percent n sz = n * 100 div sz"
  by (simp add: current_percent_def)

definition htable_rehash_with ::
    "('a htable \<Rightarrow> 'a \<Rightarrow> (int \<times> 'a htable) option) \<Rightarrow> bool \<Rightarrow> 'a htable \<Rightarrow> int \<Rightarrow>
     (int \<times> 'a htable) option" where
  "htable_rehash_with ins mem t new_size =
     (if \<not> mem then Some (-1, t)
      else do {
        let t0 = t\<lparr>ht_size := new_size, ht_total := 0, ht_table := (\<lambda>_. None)\<rparr>;
        t' \<leftarrow> foldl (\<lambda>acc x. do { t \<leftarrow> acc; (_, t') \<leftarrow> ins t x; Some t' }) (Some t0) (ht_list t);
        Some (0, t')
      })"

fun htable_insert_fuel ::
    "nat \<Rightarrow> bool \<Rightarrow> ('a \<Rightarrow> int) \<Rightarrow> 'a htable \<Rightarrow> 'a \<Rightarrow> (int \<times> 'a htable) option" where
  "htable_insert_fuel 0 mem key t data = None"
| "htable_insert_fuel (Suc fuel) mem key t data =
     (if ht_total t = ht_size t then Some (-1, t)
      else do {
        t \<leftarrow> (if current_percent (ht_total t + 1) (ht_size t) > ht_percent t
             then map_option snd
               (htable_rehash_with (\<lambda>t x. htable_insert_fuel fuel mem key t x) mem t (ht_size t * 2))
             else Some t);
        r \<leftarrow> ht_scan (\<lambda>p. ht_table t p = None) (ht_abs_key (key data)) (ht_size t) 0;
        (case r of
           None \<Rightarrow> Some (0, t)
         | Some p \<Rightarrow> Some (0, t\<lparr>ht_table := (ht_table t)(p := Some data),
                               ht_total := ht_total t + 1\<rparr>))
      })"

declare htable_insert_fuel.simps [simp del]

definition htable_insert ::
    "bool \<Rightarrow> ('a \<Rightarrow> int) \<Rightarrow> 'a htable \<Rightarrow> 'a \<Rightarrow> (int \<times> 'a htable) option" where
  "htable_insert mem key t data = htable_insert_fuel 2 mem key t data"

definition htable_rehash ::
    "bool \<Rightarrow> ('a \<Rightarrow> int) \<Rightarrow> 'a htable \<Rightarrow> int \<Rightarrow> (int \<times> 'a htable) option" where
  "htable_rehash mem key t new_size = htable_rehash_with (htable_insert mem key) mem t new_size"

definition htable_remove ::
    "bool \<Rightarrow> ('a \<Rightarrow> int) \<Rightarrow> 'a htable \<Rightarrow> 'a \<Rightarrow> (int \<times> 'a htable) option" where
  "htable_remove mem key t data =
     (if ht_total t = 0 then Some (-1, t)
      else do {
        t \<leftarrow> (if current_percent (ht_total t - 1) (ht_size t) < c_div (ht_percent t) 4 \<and> ht_size t > 32
             then map_option snd (htable_rehash mem key t (c_div (ht_size t) 2))
             else Some t);
        r \<leftarrow> ht_scan (\<lambda>p. ht_table t p = Some data) (ht_abs_key (key data)) (ht_size t) 0;
        (case r of
           None \<Rightarrow> Some (0, t)
         | Some p \<Rightarrow> Some (0, t\<lparr>ht_table := (ht_table t)(p := None),
                               ht_total := ht_total t - 1\<rparr>))
      })"

definition htable_retrieve ::
    "('b \<Rightarrow> int) \<Rightarrow> ('a \<Rightarrow> 'b \<Rightarrow> int) \<Rightarrow> 'a htable \<Rightarrow> 'b \<Rightarrow> 'a option option" where
  "htable_retrieve key compare t sample =
     (if ht_total t = 0 then Some None
      else do {
        r \<leftarrow> ht_scan (\<lambda>p. case ht_table t p of None \<Rightarrow> False | Some x \<Rightarrow> compare x sample = 0)
               (ht_abs_key (key sample)) (ht_size t) 0;
        Some (case r of None \<Rightarrow> None | Some p \<Rightarrow> ht_table t p)
      })"

text \<open>The loop of \<open>htable_get\<close>: \<open>cnt\<close> non-NULL entries have been passed.\<close>

function ht_get_from :: "'a htable \<Rightarrow> int \<Rightarrow> nat \<Rightarrow> int \<Rightarrow> 'a option" where
  "ht_get_from t num i cnt =
     (if int i < ht_size t then
        (case ht_table t i of
           None \<Rightarrow> ht_get_from t num (Suc i) cnt
         | Some x \<Rightarrow> if cnt = num then Some x else ht_get_from t num (Suc i) (cnt + 1))
      else None)"
  by pat_completeness auto
termination
  by (relation "measure (\<lambda>(t, num, i, cnt). nat (ht_size t) - i)") auto

declare ht_get_from.simps [simp del]

definition htable_get :: "'a htable \<Rightarrow> int \<Rightarrow> 'a option" where
  "htable_get t num =
     (if ht_total t = 0 then None
      else if num \<ge> ht_total t then None
      else ht_get_from t num 0 0)"

subsection \<open>Invariant\<close>

definition ht_inv :: "'a htable \<Rightarrow> bool" where
  "ht_inv t \<longleftrightarrow> 0 < ht_size t \<and> ht_total t = int (length (ht_list t)) \<and>
     50 \<le> ht_percent t \<and> ht_percent t < 100"

text \<open>
  Sizes and keys for which the code's \<open>int\<close> arithmetic does not overflow, also after the
  table has doubled.
\<close>

definition ht_fits :: "'a htable \<Rightarrow> bool" where
  "ht_fits t \<longleftrightarrow> ht_size t \<le> 2 ^ 23"

definition key_fits :: "int \<Rightarrow> int \<Rightarrow> bool" where
  "key_fits k sz \<longleftrightarrow> 0 \<le> ht_abs_key k \<and> ht_abs_key k + 2 * sz < 2 ^ 31"

lemma map_filter_append: "List.map_filter f (xs @ ys) = List.map_filter f xs @ List.map_filter f ys"
  by (simp add: List.map_filter_def)

lemma length_ht_list: "length (ht_list t) \<le> nat (ht_size t)"
  unfolding ht_list_def List.map_filter_def
  by (metis length_arr_list length_filter_le length_map)

lemma set_ht_list: "x \<in> set (ht_list t) \<longleftrightarrow> (\<exists>p < nat (ht_size t). ht_table t p = Some x)"
  by (auto simp: ht_list_def List.map_filter_def in_arr_list image_iff)

lemma ht_inv_total: "ht_inv t \<Longrightarrow> 0 \<le> ht_total t \<and> ht_total t \<le> ht_size t"
  using length_ht_list [of t] by (auto simp: ht_inv_def)

subsection \<open>The probe sequence\<close>

lemma ht_scan_from:
  assumes "0 \<le> key" "key + sz < 2 ^ 31" "0 < sz"
  shows "\<exists>r. ht_scan stop key sz i = Some r \<and>
    (case r of
       None \<Rightarrow> \<forall>i'\<ge>i. int i' < sz \<longrightarrow> \<not> stop (nat ((int i' + key) mod sz))
     | Some p \<Rightarrow> int p < sz \<and> stop p)"
  using assms
proof (induction stop key sz i rule: ht_scan.induct)
  case (1 stop key sz i)
  show ?case
  proof (cases "int i < sz")
    case True
    let ?p = "(int i + key) mod sz"
    have p: "c_rem (wrap32 (int i + key)) sz = ?p" "0 \<le> ?p" "?p < sz" "\<not> ?p < 0"
      using True 1 by (simp_all add: not_less)
    show ?thesis
    proof (cases "stop (nat ?p)")
      case False
      with 1(1) [OF True p(1) [symmetric]] 1(2-) p obtain r where
        "ht_scan stop key sz (Suc i) = Some r"
        "case r of None \<Rightarrow> \<forall>i'\<ge>Suc i. int i' < sz \<longrightarrow> \<not> stop (nat ((int i' + key) mod sz))
         | Some p \<Rightarrow> int p < sz \<and> stop p"
        by auto
      with True False p show ?thesis
        by (subst ht_scan.simps)
          (auto simp: Let_def le_less_Suc_eq split: option.splits dest: le_neq_implies_less)
    qed (use True p in \<open>subst ht_scan.simps, auto simp: Let_def\<close>)
  qed (simp add: ht_scan.simps [of stop key sz i])
qed

lemma residue_hit: "0 < sz \<Longrightarrow> int j < sz \<Longrightarrow> \<exists>i. int i < sz \<and> nat ((int i + key) mod sz) = j"
  by (rule exI [of _ "nat ((int j - key) mod sz)"]) (simp add: mod_simps)

text \<open>The loop looks at every index: it stops at one if there is one to stop at.\<close>

lemma ht_scan_stop: "ht_scan stop key sz i = Some (Some p) \<Longrightarrow> stop p \<and> int p < sz"
proof (induction stop key sz i rule: ht_scan.induct)
  case (1 stop key sz i)
  have "c_rem x sz < sz" if "0 < sz" for x using that by (auto simp: c_rem_def) (smt (verit) pos_mod_sign)
  with 1 show ?case by (auto simp: ht_scan.simps [of stop key sz i] Let_def split: if_splits)
qed

text \<open>Whatever the keys, only entries of the table that compare equal are found.\<close>

lemma htable_retrieve_sound: "htable_retrieve key cmp t s = Some (Some x) \<Longrightarrow> x \<in> set (ht_list t) \<and> cmp x s = 0"
proof -
  assume "htable_retrieve key cmp t s = Some (Some x)"
  then obtain p where p: "ht_scan (\<lambda>p. case ht_table t p of None \<Rightarrow> False | Some x \<Rightarrow> cmp x s = 0) (ht_abs_key (key s)) (ht_size t) 0 = Some (Some p)"
    "ht_table t p = Some x"
    by (auto simp: htable_retrieve_def split: if_splits option.splits bind_splits)
  from ht_scan_stop [OF p(1)] p(2) show ?thesis by (auto simp: set_ht_list intro!: exI [of _ p])
qed

lemma ht_scan_spec:
  assumes "0 \<le> key" "key + sz < 2 ^ 31" "0 < sz"
  obtains p where "ht_scan stop key sz 0 = Some (Some p)" "p < nat sz" "stop p"
  | "ht_scan stop key sz 0 = Some None" "\<And>p. p < nat sz \<Longrightarrow> \<not> stop p"
proof -
  obtain r where r: "ht_scan stop key sz 0 = Some r"
    "case r of None \<Rightarrow> \<forall>i'\<ge>0. int i' < sz \<longrightarrow> \<not> stop (nat ((int i' + key) mod sz))
     | Some p \<Rightarrow> int p < sz \<and> stop p"
    using ht_scan_from [OF assms, of stop 0] by auto
  show thesis
  proof (cases r)
    case None
    have "\<not> stop p" if "p < nat sz" for p
      using residue_hit [of sz p key] that r(2) None assms(3)
      by (auto simp: zless_nat_eq_int_zless)
    with r None show ?thesis using that(2) by auto
  next
    case (Some p)
    with r show ?thesis using that(1) by auto
  qed
qed

subsection \<open>One entry more, one entry less\<close>

lemma ht_list_split:
  assumes "p < nat (ht_size t)"
  shows "ht_list t = List.map_filter (\<lambda>x. x) (arr_list (ht_table t) p) @
    List.map_filter (\<lambda>x. x) [ht_table t p] @
    List.map_filter (\<lambda>x. x) (drop (Suc p) (arr_list (ht_table t) (nat (ht_size t))))"
proof -
  have "arr_list (ht_table t) (nat (ht_size t)) =
      arr_list (ht_table t) p @ [ht_table t p] @ drop (Suc p) (arr_list (ht_table t) (nat (ht_size t)))"
    using id_take_nth_drop [of p "arr_list (ht_table t) (nat (ht_size t))"] assms
    by (simp add: take_arr_list)
  then show ?thesis unfolding ht_list_def by (metis map_filter_append)
qed

lemma mset_ht_list_upd:
  assumes "p < nat (ht_size t)"
  shows "mset (ht_list (t\<lparr>ht_table := (ht_table t)(p := v), ht_total := n\<rparr>)) +
      (case ht_table t p of None \<Rightarrow> {#} | Some x \<Rightarrow> {#x#}) =
    mset (ht_list t) + (case v of None \<Rightarrow> {#} | Some x \<Rightarrow> {#x#})"
proof -
  let ?t = "t\<lparr>ht_table := (ht_table t)(p := v), ht_total := n\<rparr>"
  have "drop (Suc p) (arr_list (ht_table ?t) (nat (ht_size t))) =
      drop (Suc p) (arr_list (ht_table t) (nat (ht_size t)))"
    by (simp add: drop_arr_list)
  then show ?thesis
    using ht_list_split [of p t] ht_list_split [of p ?t] assms
    by (simp add: List.map_filter_simps split: option.splits)
qed

lemma ht_free_slot:
  assumes "ht_inv t" "ht_total t < ht_size t"
  shows "\<exists>p < nat (ht_size t). ht_table t p = None"
proof (rule ccontr)
  assume "\<not> ?thesis"
  then have "filter (\<lambda>x. x \<noteq> None) (arr_list (ht_table t) (nat (ht_size t))) =
      arr_list (ht_table t) (nat (ht_size t))"
    by (auto simp: filter_id_conv in_arr_list)
  then have "length (ht_list t) = nat (ht_size t)"
    by (simp add: ht_list_def List.map_filter_def)
  with assms show False by (auto simp: ht_inv_def)
qed

text \<open>The last part of \<open>htable_insert\<close>: place the entry in a table that is not full.\<close>

lemma ht_place_ok:
  assumes inv: "ht_inv t" and free: "ht_total t < ht_size t"
    and k: "0 \<le> k" "k + ht_size t < 2 ^ 31"
  shows "\<exists>p. ht_scan (\<lambda>p. ht_table t p = None) k (ht_size t) 0 = Some (Some p) \<and>
    ht_inv (t\<lparr>ht_table := (ht_table t)(p := Some x), ht_total := ht_total t + 1\<rparr>) \<and>
    mset (ht_list (t\<lparr>ht_table := (ht_table t)(p := Some x), ht_total := ht_total t + 1\<rparr>)) =
      add_mset x (mset (ht_list t))"
proof -
  have "0 < ht_size t" using inv by (simp add: ht_inv_def)
  from k this obtain p where p: "ht_scan (\<lambda>p. ht_table t p = None) k (ht_size t) 0 = Some (Some p)"
      "p < nat (ht_size t)" "ht_table t p = None"
    by (rule ht_scan_spec [of k "ht_size t" "\<lambda>p. ht_table t p = None"])
      (use ht_free_slot [OF inv free] in blast)+
  let ?t = "t\<lparr>ht_table := (ht_table t)(p := Some x), ht_total := ht_total t + 1\<rparr>"
  have m: "mset (ht_list ?t) = add_mset x (mset (ht_list t))"
    using mset_ht_list_upd [OF p(2), of "ht_total t + 1" "Some x"] p(3) by simp
  then have "length (ht_list ?t) = Suc (length (ht_list t))"
    by (metis size_add_mset size_mset)
  with inv m p(1) show ?thesis by (auto simp: ht_inv_def)
qed

lemma ht_remove_slot:
  assumes inv: "ht_inv t" and p: "p < nat (ht_size t)" "ht_table t p = Some x"
  shows "ht_inv (t\<lparr>ht_table := (ht_table t)(p := None), ht_total := ht_total t - 1\<rparr>)"
    "mset (ht_list (t\<lparr>ht_table := (ht_table t)(p := None), ht_total := ht_total t - 1\<rparr>)) =
      mset (ht_list t) - {#x#}"
proof -
  let ?t = "t\<lparr>ht_table := (ht_table t)(p := None), ht_total := ht_total t - 1\<rparr>"
  have m: "add_mset x (mset (ht_list ?t)) = mset (ht_list t)"
    using mset_ht_list_upd [OF p(1), of "ht_total t - 1" None] p(2) by simp
  then show "mset (ht_list ?t) = mset (ht_list t) - {#x#}" by (metis add_mset_remove_trivial)
  from m have "Suc (length (ht_list ?t)) = length (ht_list t)" by (metis size_add_mset size_mset)
  with inv show "ht_inv ?t" by (auto simp: ht_inv_def)
qed

subsection \<open>Insertion and rehashing\<close>

lemma int_div_less_mult: "0 < b \<Longrightarrow> a div b < c \<Longrightarrow> a < c * (b::int)"
  using zdiv_mono1 [of "c * b" a b] by (cases "c * b \<le> a") auto

text \<open>Where the next entry fits the load limit, insertion does not rehash.\<close>

lemma insert_below_limit:
  assumes inv: "ht_inv t" and sz: "ht_size t \<le> 2 ^ 24"
    and load: "(ht_total t + 1) * 100 div ht_size t \<le> ht_percent t"
    and key: "0 \<le> ht_abs_key (key x)" "ht_abs_key (key x) + ht_size t < 2 ^ 31"
  shows "\<exists>t'. htable_insert_fuel (Suc fuel) mem key t x = Some (0, t') \<and> ht_inv t' \<and>
    mset (ht_list t') = add_mset x (mset (ht_list t)) \<and> ht_size t' = ht_size t \<and>
    ht_percent t' = ht_percent t \<and> ht_total t' = ht_total t + 1"
proof -
  have pos: "0 < ht_size t" "0 \<le> ht_total t" "ht_total t \<le> ht_size t" "ht_percent t < 100"
    using ht_inv_total [OF inv] inv by (auto simp: ht_inv_def)
  have lt: "ht_total t < ht_size t"
    using int_div_less_mult [of "ht_size t" "(ht_total t + 1) * 100" 100] load pos by simp
  then have cp: "\<not> ht_percent t < current_percent (ht_total t + 1) (ht_size t)"
    using load pos sz by simp
  show ?thesis
    using ht_place_ok [OF inv lt key, of x] lt cp
    by (auto simp: htable_insert_fuel.simps simp del: current_percent_eq)
qed

lemma refill_ok:
  assumes "ht_inv t" "ht_size t \<le> 2 ^ 24"
    and "(ht_total t + int (length xs)) * 100 div ht_size t \<le> ht_percent t"
    and "\<And>x. x \<in> set xs \<Longrightarrow> 0 \<le> ht_abs_key (key x) \<and> ht_abs_key (key x) + ht_size t < 2 ^ 31"
  shows "\<exists>t'. foldl (\<lambda>acc x. do { t \<leftarrow> acc; (_, t') \<leftarrow> htable_insert_fuel (Suc fuel) mem key t x; Some t' })
      (Some t) xs = Some t' \<and> ht_inv t' \<and> mset (ht_list t') = mset (ht_list t) + mset xs \<and>
    ht_size t' = ht_size t \<and> ht_percent t' = ht_percent t"
  using assms
proof (induction xs arbitrary: t)
  case (Cons x xs)
  have "0 < ht_size t" using Cons.prems(1) by (simp add: ht_inv_def)
  then have "(ht_total t + 1) * 100 div ht_size t \<le> (ht_total t + int (length (x # xs))) * 100 div ht_size t"
    by (intro zdiv_mono1) auto
  then have load: "(ht_total t + 1) * 100 div ht_size t \<le> ht_percent t" using Cons.prems(3) by simp
  obtain t1 where t1: "htable_insert_fuel (Suc fuel) mem key t x = Some (0, t1)" "ht_inv t1"
    "mset (ht_list t1) = add_mset x (mset (ht_list t))" "ht_size t1 = ht_size t"
    "ht_percent t1 = ht_percent t" "ht_total t1 = ht_total t + 1"
    using insert_below_limit [OF Cons.prems(1,2) load, of key x fuel mem] Cons.prems(4) by auto
  have "\<exists>t'. foldl (\<lambda>acc x. do { t \<leftarrow> acc; (_, t') \<leftarrow> htable_insert_fuel (Suc fuel) mem key t x; Some t' })
      (Some t1) xs = Some t' \<and> ht_inv t' \<and> mset (ht_list t') = mset (ht_list t1) + mset xs \<and>
    ht_size t' = ht_size t1 \<and> ht_percent t' = ht_percent t1"
    using Cons.prems t1 by (intro Cons.IH) (auto simp: algebra_simps)
  with t1 show ?case by (auto)
qed simp

lemma empty_table_inv:
  "0 < n \<Longrightarrow> ht_inv t \<Longrightarrow> ht_inv (t\<lparr>ht_size := n, ht_total := 0, ht_table := (\<lambda>_. None)\<rparr>)"
  "ht_list (t\<lparr>ht_size := n, ht_total := 0, ht_table := (\<lambda>_. None)\<rparr>) = []"
proof -
  show nil: "ht_list (t\<lparr>ht_size := n, ht_total := 0, ht_table := (\<lambda>_. None)\<rparr>) = []"
    by (simp add: ht_list_def List.map_filter_def filter_empty_conv in_arr_list)
  show "0 < n \<Longrightarrow> ht_inv t \<Longrightarrow> ht_inv (t\<lparr>ht_size := n, ht_total := 0, ht_table := (\<lambda>_. None)\<rparr>)"
    by (simp add: ht_inv_def nil)
qed

lemma rehash_ok:
  assumes "ht_inv t" "0 < n" "n \<le> 2 ^ 24" "ht_total t * 100 div n \<le> ht_percent t"
    and "\<And>x. x \<in> set (ht_list t) \<Longrightarrow> 0 \<le> ht_abs_key (key x) \<and> ht_abs_key (key x) + n < 2 ^ 31"
  shows "\<exists>t'. htable_rehash_with (\<lambda>t x. htable_insert_fuel (Suc fuel) mem key t x) True t n = Some (0, t') \<and>
    ht_inv t' \<and> mset (ht_list t') = mset (ht_list t) \<and> ht_size t' = n \<and> ht_percent t' = ht_percent t"
proof -
  let ?t0 = "t\<lparr>ht_size := n, ht_total := 0, ht_table := (\<lambda>_. None)\<rparr>"
  have "ht_inv ?t0" using assms(1,2) by (simp add: empty_table_inv)
  moreover have "(ht_total ?t0 + int (length (ht_list t))) * 100 div ht_size ?t0 \<le> ht_percent ?t0"
    using assms(1,4) by (simp add: ht_inv_def)
  ultimately obtain t' where "foldl (\<lambda>acc x. do { t \<leftarrow> acc;
        (_, t') \<leftarrow> htable_insert_fuel (Suc fuel) mem key t x; Some t' }) (Some ?t0) (ht_list t) = Some t'"
      "ht_inv t'" "mset (ht_list t') = mset (ht_list ?t0) + mset (ht_list t)"
      "ht_size t' = n" "ht_percent t' = ht_percent t"
    using refill_ok [of ?t0 "ht_list t" key fuel mem] assms(3,5) by auto
  then show ?thesis
    by (simp add: htable_rehash_with_def empty_table_inv Let_def)
qed

lemma htable_insert_eq:
  "htable_insert mem key t x = htable_insert_fuel (Suc (Suc 0)) mem key t x"
  by (simp add: htable_insert_def numeral_2_eq_2)

lemma htable_insert_ok:
  assumes inv: "ht_inv t" and fits: "ht_fits t" and free: "ht_total t < ht_size t"
    and keys: "\<And>y. y \<in> insert x (set (ht_list t)) \<Longrightarrow> key_fits (key y) (ht_size t)"
  shows "\<exists>t'. htable_insert mem key t x = Some (0, t') \<and> ht_inv t' \<and>
    mset (ht_list t') = add_mset x (mset (ht_list t)) \<and> ht_percent t' = ht_percent t \<and>
    ht_size t' \<in> {ht_size t, 2 * ht_size t} \<and> (mem \<longrightarrow> ht_total t' < ht_size t')"
proof (cases "current_percent (ht_total t + 1) (ht_size t) > ht_percent t")
  case False
  have pos: "0 < ht_size t" "0 \<le> ht_total t" "ht_percent t < 100" "ht_size t \<le> 2 ^ 24"
    using ht_inv_total [OF inv] inv fits by (auto simp: ht_inv_def ht_fits_def)
  have load: "(ht_total t + 1) * 100 div ht_size t \<le> ht_percent t" using False pos free by simp
  then have "(ht_total t + 1) * 100 < 100 * ht_size t"
    using pos by (intro int_div_less_mult) auto
  then show ?thesis
    using insert_below_limit [OF inv pos(4) load, of key x "Suc 0" mem] keys [of x] pos
    unfolding htable_insert_eq by (auto simp: key_fits_def)
next
  case True
  define t1 where "t1 = (if mem then snd (the (htable_rehash_with
    (\<lambda>t x. htable_insert_fuel (Suc 0) mem key t x) True t (2 * ht_size t))) else t)"
  have pos: "0 < ht_size t" "0 \<le> ht_total t" "50 \<le> ht_percent t" "2 * ht_size t \<le> 2 ^ 24"
    using ht_inv_total [OF inv] inv fits by (auto simp: ht_inv_def ht_fits_def)
  have "ht_total t * 100 div (2 * ht_size t) \<le> 50"
    using pos free zdiv_mono1 [of "ht_total t * 100" "50 * (2 * ht_size t)" "2 * ht_size t"] by simp
  with pos(3) have "ht_total t * 100 div (2 * ht_size t) \<le> ht_percent t" by simp
  note rh = rehash_ok [OF inv _ pos(4) this, of key 0 mem]
  have t1: "map_option snd (htable_rehash_with (\<lambda>t x. htable_insert_fuel (Suc 0) mem key t x) mem t
        (ht_size t * 2)) = Some t1" "ht_inv t1" "mset (ht_list t1) = mset (ht_list t)"
      "ht_size t1 = (if mem then 2 * ht_size t else ht_size t)" "ht_percent t1 = ht_percent t"
    using rh keys pos(1) inv
    by (auto simp: t1_def key_fits_def mult.commute htable_rehash_with_def [of _ False]
       )
  have same: "ht_total t1 = ht_total t"
    using t1(2,3) inv by (metis ht_inv_def mset_eq_length)
  obtain p where "ht_scan (\<lambda>p. ht_table t1 p = None) (ht_abs_key (key x)) (ht_size t1) 0 = Some (Some p)"
      "ht_inv (t1\<lparr>ht_table := (ht_table t1)(p := Some x), ht_total := ht_total t1 + 1\<rparr>)"
      "mset (ht_list (t1\<lparr>ht_table := (ht_table t1)(p := Some x), ht_total := ht_total t1 + 1\<rparr>)) =
        add_mset x (mset (ht_list t))"
    using ht_place_ok [OF t1(2), of "ht_abs_key (key x)" x] same free t1(3,4) keys [of x] pos(1)
    by (auto simp: key_fits_def split: if_splits)
  then show ?thesis
    using True free t1 same pos(1) by (auto simp: htable_insert_eq htable_insert_fuel.simps(2) [of "Suc 0"])
qed

subsection \<open>Removal, lookup, enumeration\<close>

text \<open>A table sparse enough to be halved is not overloaded afterwards.\<close>

lemma shrink_load:
  fixes total sz percent :: int
  assumes sz: "32 < sz" and pc: "50 \<le> percent" "percent < 100" and t: "0 < total"
    and low: "(total - 1) * 100 div sz < percent div 4"
  shows "total * 100 div (sz div 2) \<le> percent"
proof -
  define n where "n = sz div 2"
  have n: "16 \<le> n" "sz \<le> 2 * n + 1" using sz by (simp_all add: n_def)
  have "(total - 1) * 100 < percent div 4 * sz" using low sz by (intro int_div_less_mult) auto
  also have "\<dots> \<le> percent div 4 * (2 * n + 1)" using n pc by (intro mult_left_mono) auto
  finally have "4 * ((total - 1) * 100) < (4 * (percent div 4)) * (2 * n + 1)" by simp
  also have "\<dots> \<le> percent * (2 * n + 1)" using n by (intro mult_right_mono) auto
  finally have "4 * ((total - 1) * 100) < 2 * (percent * n) + percent" by (simp add: algebra_simps)
  moreover have "50 * 16 \<le> percent * n" using n pc by (intro mult_mono) auto
  ultimately have "total * 100 \<le> percent * n" using pc by simp
  then show ?thesis
    using zdiv_mono1 [of "total * 100" "percent * n" n] n by (simp add: n_def [symmetric])
qed

lemma htable_remove_ok:
  assumes inv: "ht_inv t" and fits: "ht_fits t" and x: "x \<in> set (ht_list t)"
    and keys: "\<And>y. y \<in> set (ht_list t) \<Longrightarrow> key_fits (key y) (ht_size t)"
  shows "\<exists>t'. htable_remove mem key t x = Some (0, t') \<and> ht_inv t' \<and>
    mset (ht_list t') = mset (ht_list t) - {#x#} \<and> ht_size t' \<le> ht_size t \<and>
    ht_percent t' = ht_percent t"
proof -
  have pos: "0 < ht_size t" "0 < ht_total t" "ht_total t \<le> ht_size t" "ht_size t \<le> 2 ^ 24"
      "50 \<le> ht_percent t" "ht_percent t < 100"
    using ht_inv_total [OF inv] inv x fits by (auto simp: ht_inv_def ht_fits_def length_pos_if_in_set)
  let ?shrink = "current_percent (ht_total t - 1) (ht_size t) < c_div (ht_percent t) 4 \<and> ht_size t > 32"
  have "\<exists>t1. (if ?shrink then map_option snd (htable_rehash mem key t (c_div (ht_size t) 2)) else Some t) =
      Some t1 \<and> ht_inv t1 \<and> mset (ht_list t1) = mset (ht_list t) \<and> ht_size t1 \<le> ht_size t \<and>
      ht_percent t1 = ht_percent t"
  proof (cases "?shrink \<and> mem")
    case True
    then have "ht_total t * 100 div (ht_size t div 2) \<le> ht_percent t"
      using pos by (intro shrink_load) auto
    moreover have "0 < ht_size t div 2" "ht_size t div 2 \<le> 2 ^ 24" using True pos by auto
    moreover have "\<And>y. y \<in> set (ht_list t) \<Longrightarrow>
        0 \<le> ht_abs_key (key y) \<and> ht_abs_key (key y) + ht_size t div 2 < 2 ^ 31"
      using keys pos(1) by (fastforce simp: key_fits_def)
    ultimately obtain t1 where "htable_rehash mem key t (ht_size t div 2) = Some (0, t1)"
        "ht_inv t1" "mset (ht_list t1) = mset (ht_list t)" "ht_size t1 = ht_size t div 2"
        "ht_percent t1 = ht_percent t"
      using rehash_ok [OF inv, of "ht_size t div 2" key "Suc 0" mem] True
      by (auto simp: htable_rehash_def htable_insert_eq [abs_def])
    then show ?thesis using True pos by (intro exI [of _ t1]) auto
  next
    case False
    then show ?thesis using inv by (auto simp: htable_rehash_def htable_rehash_with_def)
  qed
  then obtain t1 where t1: "(if ?shrink then map_option snd (htable_rehash mem key t (c_div (ht_size t) 2))
      else Some t) = Some t1" "ht_inv t1" "mset (ht_list t1) = mset (ht_list t)"
      "ht_size t1 \<le> ht_size t" "ht_percent t1 = ht_percent t"
    by blast
  have "x \<in> set (ht_list t1)" using x t1(3) by (metis set_mset_mset)
  then obtain q where q: "q < nat (ht_size t1)" "ht_table t1 q = Some x" by (auto simp: set_ht_list)
  have k: "0 \<le> ht_abs_key (key x)" "ht_abs_key (key x) + ht_size t1 < 2 ^ 31" "0 < ht_size t1"
    using keys [OF x] t1 pos by (auto simp: key_fits_def ht_inv_def)
  obtain p where p: "ht_scan (\<lambda>p. ht_table t1 p = Some x) (ht_abs_key (key x)) (ht_size t1) 0 = Some (Some p)"
      "p < nat (ht_size t1)" "ht_table t1 p = Some x"
    by (rule ht_scan_spec [OF k, of "\<lambda>p. ht_table t1 p = Some x"]) (use q in blast)+
  show ?thesis
    using ht_remove_slot [OF t1(2) p(2,3)] t1 p pos(2)
    by (auto simp: htable_remove_def)
qed

lemma htable_retrieve_ok:
  assumes inv: "ht_inv t" and key: "key_fits (key s) (ht_size t)"
  obtains x where "htable_retrieve key cmp t s = Some (Some x)" "x \<in> set (ht_list t)" "cmp x s = 0"
  | "htable_retrieve key cmp t s = Some None" "\<And>x. x \<in> set (ht_list t) \<Longrightarrow> cmp x s \<noteq> 0"
proof (cases "ht_total t = 0")
  case True
  then have "ht_list t = []" using inv by (auto simp: ht_inv_def)
  with True show ?thesis using that(2) by (simp add: htable_retrieve_def)
next
  case False
  have k: "0 \<le> ht_abs_key (key s)" "ht_abs_key (key s) + ht_size t < 2 ^ 31" "0 < ht_size t"
    using key inv by (auto simp: key_fits_def ht_inv_def)
  show ?thesis
    by (rule ht_scan_spec [OF k, of "\<lambda>p. case ht_table t p of None \<Rightarrow> False | Some x \<Rightarrow> cmp x s = 0"])
      (use False that in \<open>fastforce simp: htable_retrieve_def set_ht_list split: option.splits\<close>)+
qed

lemma ht_get_from_eq:
  "ht_get_from t num i cnt =
     (let rest = List.map_filter (\<lambda>x. x) (drop i (arr_list (ht_table t) (nat (ht_size t)))) in
      if cnt \<le> num \<and> nat (num - cnt) < length rest then Some (rest ! nat (num - cnt)) else None)"
proof (induction t num i cnt rule: ht_get_from.induct)
  case (1 t num i cnt)
  show ?case
  proof (cases "int i < ht_size t")
    case True
    then have "drop i (arr_list (ht_table t) (nat (ht_size t))) =
        ht_table t i # drop (Suc i) (arr_list (ht_table t) (nat (ht_size t)))"
      using Cons_nth_drop_Suc [of i "arr_list (ht_table t) (nat (ht_size t))"] by simp
    moreover have "nat (num - cnt) = Suc (nat (num - (cnt + 1)))" if "cnt \<le> num" "cnt \<noteq> num"
      using that by simp
    ultimately show ?thesis
      using 1 True by (subst ht_get_from.simps)
        (auto simp: Let_def List.map_filter_simps nth_Cons' split: option.splits)
  next
    case False
    then show ?thesis
      by (subst ht_get_from.simps) (simp add: Let_def List.map_filter_simps)
  qed
qed

lemma htable_get_eq:
  "ht_inv t \<Longrightarrow> htable_get t num =
     (if 0 \<le> num \<and> num < ht_total t then Some (ht_list t ! nat num) else None)"
  by (auto simp: htable_get_def ht_get_from_eq ht_list_def [symmetric] ht_inv_def Let_def)

subsection \<open>The interface its clients use\<close>

text \<open>
  The process table and the thread tables insert pointers, remove them, and look up an
  entry that matches a sample. The locale is that contract over the multiset of entries;
  its lemmas are what a client gets for an entry that is the only one to match a sample.
\<close>

locale lookup_table =
  fixes put :: "'a \<Rightarrow> 't \<Rightarrow> 't option"
    and del :: "'a \<Rightarrow> 't \<Rightarrow> 't option"
    and look :: "'s \<Rightarrow> 't \<Rightarrow> 'a option option"
    and entries :: "'t \<Rightarrow> 'a multiset"
    and inv :: "'t \<Rightarrow> bool"
    and can_put :: "'a \<Rightarrow> 't \<Rightarrow> bool"
    and sample_ok :: "'s \<Rightarrow> bool"
    and matches :: "'a \<Rightarrow> 's \<Rightarrow> bool"
  assumes put_ok: "inv t \<Longrightarrow> can_put x t \<Longrightarrow>
      \<exists>t'. put x t = Some t' \<and> inv t' \<and> entries t' = add_mset x (entries t)"
    and del_ok: "inv t \<Longrightarrow> x \<in># entries t \<Longrightarrow>
      \<exists>t'. del x t = Some t' \<and> inv t' \<and> entries t' = entries t - {#x#}"
    and look_ok: "inv t \<Longrightarrow> sample_ok s \<Longrightarrow>
      \<exists>r. look s t = Some r \<and> (case r of None \<Rightarrow> \<forall>x. x \<in># entries t \<longrightarrow> \<not> matches x s
        | Some x \<Rightarrow> x \<in># entries t \<and> matches x s)"
begin

lemma look_cases:
  assumes "inv t" "sample_ok s"
  obtains x where "look s t = Some (Some x)" "x \<in># entries t" "matches x s"
  | "look s t = Some None" "\<And>x. x \<in># entries t \<Longrightarrow> \<not> matches x s"
proof -
  obtain r where r: "look s t = Some r" "case r of None \<Rightarrow> \<forall>x. x \<in># entries t \<longrightarrow> \<not> matches x s
      | Some x \<Rightarrow> x \<in># entries t \<and> matches x s"
    using look_ok [OF assms] by blast
  then show thesis using that by (cases r) simp_all
qed

lemma look_unique:
  assumes "inv t" "sample_ok s" "x \<in># entries t" "matches x s"
    and "\<And>y. y \<in># entries t \<Longrightarrow> matches y s \<Longrightarrow> y = x"
  shows "look s t = Some (Some x)"
  by (rule look_cases [OF assms(1,2)]) (use assms(3-5) in blast)+

lemma look_none:
  assumes "inv t" "sample_ok s" "\<And>y. y \<in># entries t \<Longrightarrow> \<not> matches y s"
  shows "look s t = Some None"
  by (rule look_cases [OF assms(1,2)]) (use assms(3) in blast)+

lemma look_after_put:
  assumes "inv t" "can_put x t" "sample_ok s" "matches x s"
    and "\<And>y. y \<in># entries t \<Longrightarrow> \<not> matches y s"
  shows "\<exists>t'. put x t = Some t' \<and> inv t' \<and> look s t' = Some (Some x)"
proof -
  obtain t' where "put x t = Some t'" "inv t'" "entries t' = add_mset x (entries t)"
    using put_ok assms(1,2) by blast
  moreover from this have "look s t' = Some (Some x)"
    by (intro look_unique) (use assms(3-5) in auto)
  ultimately show ?thesis by blast
qed

lemma look_after_del:
  assumes "inv t" "x \<in># entries t" "sample_ok s"
    and "\<And>y. y \<in># entries t - {#x#} \<Longrightarrow> \<not> matches y s"
  shows "\<exists>t'. del x t = Some t' \<and> inv t' \<and> look s t' = Some None"
proof -
  obtain t' where "del x t = Some t'" "inv t'" "entries t' = entries t - {#x#}"
    using del_ok assms(1,2) by blast
  then show ?thesis using look_none [of t' s] assms(3,4) by auto
qed

end

text \<open>A bound on keys and sizes that insertion and removal keep.\<close>

definition key_small :: "int \<Rightarrow> bool" where
  "key_small k \<longleftrightarrow> 0 \<le> ht_abs_key k \<and> ht_abs_key k \<le> 2 ^ 30"

definition ht_ready :: "('a \<Rightarrow> int) \<Rightarrow> 'a htable \<Rightarrow> bool" where
  "ht_ready key t \<longleftrightarrow> ht_inv t \<and> ht_fits t \<and> (\<forall>y\<in>set (ht_list t). key_small (key y))"

definition ht_can_put :: "('a \<Rightarrow> int) \<Rightarrow> 'a \<Rightarrow> 'a htable \<Rightarrow> bool" where
  "ht_can_put key x t \<longleftrightarrow> ht_total t < ht_size t \<and> ht_size t \<le> 2 ^ 22 \<and> key_small (key x)"

lemma key_small_fits: "key_small k \<Longrightarrow> sz \<le> 2 ^ 23 \<Longrightarrow> key_fits k sz"
  by (simp add: key_small_def key_fits_def)

interpretation ht: lookup_table
  "\<lambda>x t. map_option snd (htable_insert mem key t x)"
  "\<lambda>x t. map_option snd (htable_remove mem key t x)"
  "\<lambda>s t. htable_retrieve skey cmp t s"
  "\<lambda>t. mset (ht_list t)" "ht_ready key" "ht_can_put key"
  "\<lambda>s. key_small (skey s)" "\<lambda>x s. cmp x s = 0"
  for mem key skey and cmp :: "'a \<Rightarrow> 'b \<Rightarrow> int"
proof (unfold_locales, goal_cases)
  case (1 t x)
  then have small: "\<And>y. y \<in> insert x (set (ht_list t)) \<Longrightarrow> key_fits (key y) (ht_size t)"
    by (auto simp: ht_ready_def ht_can_put_def ht_fits_def intro: key_small_fits)
  obtain t' where t': "htable_insert mem key t x = Some (0, t')" "ht_inv t'"
      "mset (ht_list t') = add_mset x (mset (ht_list t))" "ht_size t' \<in> {ht_size t, 2 * ht_size t}"
    using htable_insert_ok [where mem = mem and t = t and x = x and key = key] small 1 by (auto simp: ht_ready_def ht_can_put_def)
  moreover have "set (ht_list t') = insert x (set (ht_list t))"
    using t'(3) by (metis set_mset_add_mset_insert set_mset_mset)
  ultimately show ?case using 1 by (auto simp: ht_ready_def ht_can_put_def ht_fits_def)
next
  case (2 t x)
  then have small: "\<And>y. y \<in> set (ht_list t) \<Longrightarrow> key_fits (key y) (ht_size t)"
    by (auto simp: ht_ready_def ht_fits_def intro: key_small_fits)
  obtain t' where t': "htable_remove mem key t x = Some (0, t')" "ht_inv t'"
      "mset (ht_list t') = mset (ht_list t) - {#x#}" "ht_size t' \<le> ht_size t"
    using htable_remove_ok [where mem = mem and t = t and x = x and key = key] small 2 by (auto simp: ht_ready_def)
  moreover have "set (ht_list t') \<subseteq> set (ht_list t)"
    using t'(3) by (metis in_diffD set_mset_mset subsetI)
  ultimately show ?case using 2 by (auto simp: ht_ready_def ht_fits_def)
next
  case (3 t s)
  then have "ht_inv t" "key_fits (skey s) (ht_size t)"
    by (auto simp: ht_ready_def ht_fits_def intro: key_small_fits)
  then show ?case
    by (rule htable_retrieve_ok [of t skey s cmp]) auto
qed

subsection \<open>Properties\<close>

text \<open>
  C16. Round trip. In a table at rest with a free slot, whether or not memory for growing is
  available: after inserting an entry that alone matches a sample, looking the sample up
  finds it, and after removing it again the lookup finds nothing.
\<close>

theorem htable_round_trip:
  assumes "ht_ready key t" "ht_can_put key x t" "key_small (skey s)" "cmp x s = 0"
    and "\<forall>y\<in>set (ht_list t). cmp y s \<noteq> 0"
  shows "\<exists>t' t''. htable_insert mem key t x = Some (0, t') \<and>
    htable_retrieve skey cmp t' s = Some (Some x) \<and>
    htable_remove mem' key t' x = Some (0, t'') \<and> htable_retrieve skey cmp t'' s = Some None"
proof -
  have fits: "\<And>y. y \<in> insert x (set (ht_list t)) \<Longrightarrow> key_fits (key y) (ht_size t)"
    using assms(1,2) by (auto simp: ht_ready_def ht_can_put_def ht_fits_def intro: key_small_fits)
  obtain t' where t': "htable_insert mem key t x = Some (0, t')"
      "mset (ht_list t') = add_mset x (mset (ht_list t))"
    using htable_insert_ok [where mem = mem and t = t and x = x and key = key] fits assms(1,2)
    by (auto simp: ht_ready_def ht_can_put_def)
  have r': "ht_ready key t'" "htable_retrieve skey cmp t' s = Some (Some x)"
    using ht.look_after_put [of key t x skey s cmp mem] assms t'(1) by auto
  have in': "x \<in># mset (ht_list t')" using t'(2) by simp
  then have fits': "\<And>y. y \<in> set (ht_list t') \<Longrightarrow> key_fits (key y) (ht_size t')"
    using r'(1) by (auto simp: ht_ready_def ht_fits_def intro: key_small_fits)
  obtain t'' where t'': "htable_remove mem' key t' x = Some (0, t'')"
    using htable_remove_ok [where mem = mem' and t = t' and x = x and key = key] fits' r'(1) in'
    by (auto simp: ht_ready_def)
  have "htable_retrieve skey cmp t'' s = Some None"
    using ht.look_after_del [of key t' x skey s cmp mem'] r'(1) in' assms(3,5) t'(2) t'' by auto
  with t'(1) r'(2) t'' show ?thesis by blast
qed

definition ht_small_example :: "nat htable" where
  "ht_small_example = the (the (init_htable True True 2 75))"

lemma ht_small_example_eq:
  "ht_small_example = \<lparr>ht_total = 0, ht_size = 2, ht_percent = 75, ht_table = (\<lambda>_. None)\<rparr>"
  by (simp add: ht_small_example_def init_htable_def Let_def)

lemma ht_small_example_list: "ht_list ht_small_example = []"
  by (simp add: ht_small_example_eq ht_list_def arr_list_def List.map_filter_simps upt_rec)

lemma ht_small_example_ready:
  "ht_ready (\<lambda>x. int x * 100) ht_small_example" "ht_can_put (\<lambda>x. int x * 100) 7 ht_small_example"
  by (simp_all add: ht_ready_def ht_inv_def ht_fits_def ht_can_put_def key_small_def ht_abs_key_def
      ht_small_example_list) (simp_all add: ht_small_example_eq)

theorem htable_round_trip_witness:
  "\<exists>t' t''. htable_insert True (\<lambda>x. int x * 100) ht_small_example 7 = Some (0, t') \<and>
    htable_retrieve (\<lambda>s. int s * 100) (\<lambda>x s. int x - int s) t' 7 = Some (Some 7) \<and>
    htable_remove True (\<lambda>x. int x * 100) t' 7 = Some (0, t'') \<and>
    htable_retrieve (\<lambda>s. int s * 100) (\<lambda>x s. int x - int s) t'' 7 = Some None"
  by (rule htable_round_trip [OF ht_small_example_ready])
    (simp_all add: key_small_def ht_abs_key_def ht_small_example_list)

text \<open>
  The entries are kept. Inserting into a table with a free slot adds exactly the new
  entry, doubling the array when the load limit is passed, and removing takes out exactly
  one occurrence, halving the array when it has become sparse; a rehash loses nothing. The
  recursion between \<open>htable_insert\<close> and \<open>htable_rehash\<close> ends within two levels.
\<close>

theorem htable_keeps_entries:
  assumes "ht_inv t" "ht_fits t"
    and "\<forall>y\<in>insert x (set (ht_list t)). key_fits (key y) (ht_size t)"
  shows "(ht_total t < ht_size t \<longrightarrow>
      (\<exists>t'. htable_insert mem key t x = Some (0, t') \<and> ht_inv t' \<and>
        mset (ht_list t') = add_mset x (mset (ht_list t)) \<and> (mem \<longrightarrow> ht_total t' < ht_size t'))) \<and>
    (x \<in> set (ht_list t) \<longrightarrow>
      (\<exists>t'. htable_remove mem key t x = Some (0, t') \<and> ht_inv t' \<and>
        mset (ht_list t') = mset (ht_list t) - {#x#}))"
  using htable_insert_ok [OF assms(1,2), of x key mem] htable_remove_ok [OF assms(1,2), of x key mem]
    assms(3) by blast

theorem htable_keeps_entries_witness:
  "\<exists>t'. htable_insert False (\<lambda>x. int x * 100) ht_small_example 7 = Some (0, t') \<and> ht_inv t' \<and>
     mset (ht_list t') = {#7#}"
  using htable_keeps_entries [of ht_small_example 7 "\<lambda>x. int x * 100" False] ht_small_example_ready
  by (simp add: ht_small_example_list ht_ready_def key_fits_def ht_abs_key_def)
    (auto simp: ht_small_example_eq)

text \<open>
  \<open>htable_get\<close> with the numbers below the total returns each entry exactly once, in
  index order, and NULL for every other number.
\<close>

theorem htable_get_enumerates:
  assumes "ht_inv t"
  shows "map (htable_get t) (map int [0..<nat (ht_total t)]) = map Some (ht_list t) \<and>
    (\<forall>num. num < 0 \<or> ht_total t \<le> num \<longrightarrow> htable_get t num = None)"
  using assms by (auto simp: htable_get_eq intro!: nth_equalityI) (auto simp: ht_inv_def)

theorem htable_get_enumerates_witness:
  "map (htable_get ht_small_example) (map int [0..<nat (ht_total ht_small_example)]) =
     map Some (ht_list ht_small_example)"
  using htable_get_enumerates [of ht_small_example] ht_small_example_ready by (simp add: ht_ready_def)

text \<open>
  A table whose array is full refuses the entry with -1 and is not changed.
\<close>

theorem htable_insert_full:
  assumes "ht_total t = ht_size t"
  shows "htable_insert mem key t x = Some (-1, t)"
  using assms by (simp add: htable_insert_eq htable_insert_fuel.simps(2))

theorem htable_insert_full_witness:
  "htable_insert True int \<lparr>ht_total = 1, ht_size = 1, ht_percent = 75, ht_table = (\<lambda>_. Some 3)\<rparr> 4 =
     Some (-1, \<lparr>ht_total = 1, ht_size = 1, ht_percent = 75, ht_table = (\<lambda>_. Some 3)\<rparr>)"
  by (rule htable_insert_full) simp

end
