(* ===== verification/Rwlock.thy ===== *)
theory Rwlock
  imports Prelude
begin

section \<open>Reader-writer locks (kernel/src/rwlock.c)\<close>

text \<open>
  The lock is a counter of readers, a counter of writers, a flag that a writer waits and a
  spinlock; the counters are unsigned and wrap around. Two models of the same functions:

  \<^item> As operations of one processor, for the components that call them: the loop of
    \<open>rwlock_get_write_access\<close> and \<open>rwlock_get_read_access\<close> returns at its first iteration
    or spins for ever, since nobody else runs (\<open>None\<close>).
  \<^item> As a machine of any number of agents, each with a program counter in the function it
    executes, that interleave at every access to the lock: each step makes one load, one store or one
    locked instruction. \<open>rw->num_readers += 1\<close> is a load and a store (it is done under the spinlock and is not a
    locked instruction), while \<open>rwlock_release\<close> decrements with a locked instruction and without the spinlock.

  Shown: as long as read access was granted less than \<open>2 ^ 32\<close> times, an agent that has write access is
  alone. The bound is needed: the unlocked increment can lose a concurrent release, after which no reader is
  inside and the counter stays one too high; this locks writers out, and \<open>2 ^ 32 - 1\<close> losses later the
  counter is zero with a reader inside, and a writer enters.
\<close>

record rwlock =
  num_readers :: u32
  num_writers :: u32
  write_request :: u32
  rw_spinlock :: bool

definition init_rwlock :: rwlock where
  "init_rwlock = \<lparr>num_readers = 0, num_writers = 0, write_request = 0, rw_spinlock = False\<rparr>"

subsection \<open>The operations on one processor\<close>

definition rwlock_get_write_access :: "rwlock \<Rightarrow> rwlock option" where
  "rwlock_get_write_access rw = do {
     assert (\<not> rw_spinlock rw);
     assert (num_readers rw = 0 \<and> num_writers rw = 0);
     Some (rw\<lparr>num_writers := num_writers rw + 1\<rparr>)
   }"

definition rwlock_get_read_access :: "rwlock \<Rightarrow> rwlock option" where
  "rwlock_get_read_access rw = do {
     assert (\<not> rw_spinlock rw);
     assert (num_writers rw = 0 \<and> write_request rw = 0);
     Some (rw\<lparr>num_readers := num_readers rw + 1\<rparr>)
   }"

definition rwlock_release :: "rwlock \<Rightarrow> rwlock" where
  "rwlock_release rw =
     (if num_writers rw \<noteq> 0 then rw\<lparr>write_request := 0, num_writers := 0\<rparr>
      else rw\<lparr>num_readers := num_readers rw - 1\<rparr>)"

text \<open>Nobody holds the lock or waits for it.\<close>

definition rw_free :: "rwlock \<Rightarrow> bool" where
  "rw_free rw \<longleftrightarrow> num_readers rw = 0 \<and> num_writers rw = 0 \<and> write_request rw = 0 \<and> \<not> rw_spinlock rw"

lemma rw_write_release:
  "rw_free rw \<Longrightarrow> \<exists>rw'. rwlock_get_write_access rw = Some rw' \<and> num_writers rw' = 1 \<and>
     rw_spinlock rw' = False \<and> rwlock_release rw' = rw"
  by (cases rw) (simp add: rw_free_def rwlock_get_write_access_def rwlock_release_def)

lemma rw_read_release:
  "rw_free rw \<Longrightarrow> \<exists>rw'. rwlock_get_read_access rw = Some rw' \<and> num_readers rw' = 1 \<and>
     num_writers rw' = 0 \<and> rwlock_release rw' = rw"
  by (cases rw) (simp add: rw_free_def rwlock_get_read_access_def rwlock_release_def)

subsection \<open>Interleaved agents\<close>

text \<open>
  Program counters, by the access the agent is about to make. The ones from
  \<open>W_readers\<close> to \<open>W_fail\<close> and from \<open>R_writers\<close> to \<open>R_fail\<close> hold the spinlock. \<open>R_store n\<close>
  has loaded \<open>n\<close> from \<open>num_readers\<close>. \<open>Rel_write\<close> and \<open>Rel_read\<close> are the same place, entered after write and after read access.
\<close>

datatype pc =
    Outside
  | W_spin | W_readers | W_writers | W_inc | W_got | W_request | W_fail | In_write
  | R_spin | R_writers | R_request | R_load | R_store u32 | R_got | R_fail | In_read
  | Rel_write | Rel_read | Rel_request | Rel_writers | Rel_dec

record rw_sys =
  rw :: rwlock
  pcs :: "nat \<Rightarrow> pc"

definition go :: "nat \<Rightarrow> pc \<Rightarrow> rwlock \<Rightarrow> rw_sys \<Rightarrow> rw_sys" where
  "go a p l s = s\<lparr>rw := l, pcs := (pcs s)(a := p)\<rparr>"

text \<open>One step of agent \<open>a\<close> inside a function; \<open>None\<close> when it has to wait or is outside.\<close>

definition agent_step :: "rw_sys \<Rightarrow> nat \<Rightarrow> rw_sys option" where
  "agent_step s a =
     (let l = rw s in
      case pcs s a of
        Outside \<Rightarrow> None
      | W_spin \<Rightarrow> if rw_spinlock l then None else Some (go a W_readers (l\<lparr>rw_spinlock := True\<rparr>) s)
      | W_readers \<Rightarrow> Some (go a (if num_readers l = 0 then W_writers else W_request) l s)
      | W_writers \<Rightarrow> Some (go a (if num_writers l = 0 then W_inc else W_request) l s)
      | W_inc \<Rightarrow> Some (go a W_got (l\<lparr>num_writers := num_writers l + 1\<rparr>) s)
      | W_got \<Rightarrow> Some (go a In_write (l\<lparr>rw_spinlock := False\<rparr>) s)
      | W_request \<Rightarrow> Some (go a W_fail (l\<lparr>write_request := 1\<rparr>) s)
      | W_fail \<Rightarrow> Some (go a W_spin (l\<lparr>rw_spinlock := False\<rparr>) s)
      | In_write \<Rightarrow> Some (go a Rel_write l s)
      | R_spin \<Rightarrow> if rw_spinlock l then None else Some (go a R_writers (l\<lparr>rw_spinlock := True\<rparr>) s)
      | R_writers \<Rightarrow> Some (go a (if num_writers l = 0 then R_request else R_fail) l s)
      | R_request \<Rightarrow> Some (go a (if write_request l = 0 then R_load else R_fail) l s)
      | R_load \<Rightarrow> Some (go a (R_store (num_readers l)) l s)
      | R_store n \<Rightarrow> Some (go a R_got (l\<lparr>num_readers := n + 1\<rparr>) s)
      | R_got \<Rightarrow> Some (go a In_read (l\<lparr>rw_spinlock := False\<rparr>) s)
      | R_fail \<Rightarrow> Some (go a R_spin (l\<lparr>rw_spinlock := False\<rparr>) s)
      | In_read \<Rightarrow> Some (go a Rel_read l s)
      | Rel_write \<Rightarrow> Some (go a (if num_writers l \<noteq> 0 then Rel_request else Rel_dec) l s)
      | Rel_read \<Rightarrow> Some (go a (if num_writers l \<noteq> 0 then Rel_request else Rel_dec) l s)
      | Rel_request \<Rightarrow> Some (go a Rel_writers (l\<lparr>write_request := 0\<rparr>) s)
      | Rel_writers \<Rightarrow> Some (go a Outside (l\<lparr>num_writers := 0\<rparr>) s)
      | Rel_dec \<Rightarrow> Some (go a Outside (l\<lparr>num_readers := num_readers l - 1\<rparr>) s))"

definition rw_init_sys :: rw_sys where
  "rw_init_sys = \<lparr>rw = init_rwlock, pcs = (\<lambda>_. Outside)\<rparr>"

text \<open>A step of agent \<open>a\<close>: it calls a function or goes on in the one it is in.\<close>

inductive rw_step :: "rw_sys \<Rightarrow> nat \<Rightarrow> rw_sys \<Rightarrow> bool" where
  call_write: "pcs s a = Outside \<Longrightarrow> rw_step s a (go a W_spin (rw s) s)"
| call_read: "pcs s a = Outside \<Longrightarrow> rw_step s a (go a R_spin (rw s) s)"
| inside: "agent_step s a = Some s' \<Longrightarrow> rw_step s a s'"

text \<open>\<open>rw_runs s n s'\<close>: a run from \<open>s\<close> to \<open>s'\<close> in which read access is granted \<open>n\<close> times.\<close>

fun grants :: "pc \<Rightarrow> nat" where
  "grants (R_store n) = 1"
| "grants _ = 0"

inductive rw_runs :: "rw_sys \<Rightarrow> nat \<Rightarrow> rw_sys \<Rightarrow> bool" for s where
  start: "rw_runs s 0 s"
| step: "rw_runs s n s1 \<Longrightarrow> rw_step s1 a s2 \<Longrightarrow> rw_runs s (n + grants (pcs s1 a)) s2"

subsection \<open>The invariant\<close>

fun holds_spin :: "pc \<Rightarrow> bool" where
  "holds_spin W_readers = True"
| "holds_spin W_writers = True"
| "holds_spin W_inc = True"
| "holds_spin W_got = True"
| "holds_spin W_request = True"
| "holds_spin W_fail = True"
| "holds_spin R_writers = True"
| "holds_spin R_request = True"
| "holds_spin R_load = True"
| "holds_spin (R_store n) = True"
| "holds_spin R_got = True"
| "holds_spin R_fail = True"
| "holds_spin _ = False"

fun is_writer :: "pc \<Rightarrow> bool" where
  "is_writer W_got = True"
| "is_writer In_write = True"
| "is_writer Rel_write = True"
| "is_writer Rel_request = True"
| "is_writer Rel_writers = True"
| "is_writer _ = False"

fun is_reader :: "pc \<Rightarrow> bool" where
  "is_reader R_got = True"
| "is_reader In_read = True"
| "is_reader Rel_read = True"
| "is_reader Rel_dec = True"
| "is_reader _ = False"

text \<open>An agent that has seen the counters at zero and goes on from there.\<close>

fun may_read :: "pc \<Rightarrow> bool" where
  "may_read R_request = True"
| "may_read R_load = True"
| "may_read (R_store n) = True"
| "may_read p = is_reader p"

fun saw_no_reader :: "pc \<Rightarrow> bool" where
  "saw_no_reader W_writers = True"
| "saw_no_reader W_inc = True"
| "saw_no_reader p = is_writer p"

fun saw_no_writer :: "pc \<Rightarrow> bool" where
  "saw_no_writer W_inc = True"
| "saw_no_writer p = may_read p"

definition rw_readers :: "rw_sys \<Rightarrow> nat set" where
  "rw_readers s = {a. is_reader (pcs s a)}"

text \<open>
  The spinlock has one holder; a writer is alone; the counters bound what they count. The
  reader count may exceed the readers inside by some \<open>k\<close>, which no step ever reduces; it is at most
  the number \<open>g\<close> of grants.
\<close>

definition spin_inv :: "rw_sys \<Rightarrow> bool" where
  "spin_inv s \<longleftrightarrow>
     (\<forall>a b. holds_spin (pcs s a) \<longrightarrow> holds_spin (pcs s b) \<longrightarrow> a = b) \<and>
     (\<forall>a. holds_spin (pcs s a) \<longrightarrow> rw_spinlock (rw s))"

definition writer_inv :: "rw_sys \<Rightarrow> bool" where
  "writer_inv s \<longleftrightarrow>
     (\<forall>a b. is_writer (pcs s a) \<longrightarrow> is_writer (pcs s b) \<longrightarrow> a = b) \<and>
     (\<forall>a b. saw_no_reader (pcs s a) \<longrightarrow> \<not> is_reader (pcs s b)) \<and>
     (\<forall>a b. is_writer (pcs s a) \<longrightarrow> \<not> saw_no_writer (pcs s b)) \<and>
     (num_writers (rw s) \<noteq> 0 \<longleftrightarrow> (\<exists>a. is_writer (pcs s a)))"

definition reader_inv :: "nat \<Rightarrow> nat \<Rightarrow> rw_sys \<Rightarrow> bool" where
  "reader_inv k g s \<longleftrightarrow> finite (rw_readers s) \<and>
     card (rw_readers s) + k \<le> unat (num_readers (rw s)) \<and> unat (num_readers (rw s)) \<le> g \<and>
     (\<forall>a n. pcs s a = R_store n \<longrightarrow> card (rw_readers s) + k \<le> unat n \<and> unat n \<le> g)"

definition rw_inv :: "nat \<Rightarrow> nat \<Rightarrow> rw_sys \<Rightarrow> bool" where
  "rw_inv k g s \<longleftrightarrow> spin_inv s \<and> writer_inv s \<and> reader_inv k g s"

text \<open>How a step of one agent changes the set of readers.\<close>

lemma rw_readers_go:
  "rw_readers (go a p l s) = (if is_reader p then insert a (rw_readers s) else rw_readers s - {a})"
  by (auto simp: rw_readers_def go_def)

lemma go_simps [simp]:
  "rw (go a p l s) = l" "pcs (go a p l s) = (pcs s)(a := p)"
  by (simp_all add: go_def)

lemma in_readers [simp]: "a \<in> rw_readers s \<longleftrightarrow> is_reader (pcs s a)"
  by (simp add: rw_readers_def)

lemma rw_inv_init: "rw_inv 0 0 rw_init_sys"
  by (simp add: rw_inv_def spin_inv_def writer_inv_def reader_inv_def rw_init_sys_def rw_readers_def
      init_rwlock_def)

text \<open>Every step keeps each part of the invariant.\<close>

lemma agent_step_spin:
  assumes inv: "spin_inv s" and step: "agent_step s a = Some s'"
  shows "spin_inv s'"
  using assms by (cases "pcs s a") (fastforce simp: spin_inv_def agent_step_def Let_def split: if_splits)+

lemma no_reader_left: "reader_inv k g s \<Longrightarrow> num_readers (rw s) = 0 \<Longrightarrow> \<not> is_reader (pcs s b)"
  by (auto simp: reader_inv_def rw_readers_def)

lemma writer_invD:
  assumes "writer_inv s"
  shows "is_writer (pcs s a) \<Longrightarrow> is_writer (pcs s b) \<Longrightarrow> a = b" "saw_no_reader (pcs s a) \<Longrightarrow> \<not> is_reader (pcs s b)"
    "is_writer (pcs s a) \<Longrightarrow> \<not> saw_no_writer (pcs s b)" "num_writers (rw s) \<noteq> 0 \<longleftrightarrow> (\<exists>a. is_writer (pcs s a))"
  using assms unfolding writer_inv_def by blast+

text \<open>A step that does not make a writer or a reader of the agent and lets it see nothing that is not so.\<close>

lemma writer_inv_go:
  assumes inv: "writer_inv s"
    and "is_writer p \<Longrightarrow> is_writer (pcs s a)" "is_reader p \<Longrightarrow> is_reader (pcs s a)"
    and "saw_no_reader p \<Longrightarrow> saw_no_reader (pcs s a) \<or> rw_readers s = {}"
    and "saw_no_writer p \<Longrightarrow> saw_no_writer (pcs s a) \<or> num_writers (rw s) = 0"
    and "num_writers l = (if is_writer (pcs s a) \<and> \<not> is_writer p then 0 else num_writers (rw s))"
  shows "writer_inv (go a p l s)"
proof -
  note d = writer_invD [OF inv]
  have "\<not> (is_writer p \<and> saw_no_writer p)" "\<not> (saw_no_reader p \<and> is_reader p)" by (cases p; simp)+
  moreover have e: "rw_readers s = {} \<longleftrightarrow> (\<forall>b. \<not> is_reader (pcs s b))" by (auto simp: rw_readers_def)
  ultimately show ?thesis
    unfolding writer_inv_def go_simps fun_upd_apply using assms(2-6) d
    by (intro conjI allI impI) (auto split: if_splits; metis)+
qed

lemma reader_no_writer: "writer_inv s \<Longrightarrow> is_reader (pcs s a) \<Longrightarrow> num_writers (rw s) = 0"
proof -
  have "is_writer p \<Longrightarrow> saw_no_reader p" for p by (cases p) simp_all
  then show "writer_inv s \<Longrightarrow> is_reader (pcs s a) \<Longrightarrow> num_writers (rw s) = 0" using writer_invD(2) [of s _ a] writer_invD(4) [of s] by blast
qed

lemma writer_counted: "writer_inv s \<Longrightarrow> is_writer (pcs s a) \<Longrightarrow> num_writers (rw s) \<noteq> 0"
  using writer_invD(4) by blast

lemma agent_step_writer:
  assumes inv: "rw_inv k g s" and step: "agent_step s a = Some s'"
  shows "writer_inv s'"
proof -
  have w: "writer_inv s" and r: "reader_inv k g s" using inv by (simp_all add: rw_inv_def)
  note d = writer_invD [OF w]
  have other: "\<not> holds_spin (pcs s b)" if "holds_spin (pcs s a)" "b \<noteq> a" for b
    using inv that unfolding rw_inv_def spin_inv_def by blast
  have claim: "saw_no_reader p \<Longrightarrow> holds_spin p \<or> is_writer p" "saw_no_writer p \<Longrightarrow> holds_spin p \<or> is_reader p" for p
    by (cases p; simp)+
  show ?thesis
  proof (cases "pcs s a")
    case W_inc
    then have s': "s' = go a W_got ((rw s)\<lparr>num_writers := num_writers (rw s) + 1\<rparr>) s" using step by (simp add: agent_step_def Let_def)
    have "\<not> is_writer (pcs s b)" for b using d(3) [of b a] W_inc by auto
    moreover from this have "num_writers (rw s) = 0" using d(4) by simp
    moreover have "\<not> is_reader (pcs s b)" for b using d(2) [of a b] W_inc by auto
    ultimately show ?thesis
      using other claim(2) W_inc unfolding s' writer_inv_def by auto
  next
    case (R_store n)
    then have s': "s' = go a R_got ((rw s)\<lparr>num_readers := n + 1\<rparr>) s" using step by (simp add: agent_step_def Let_def)
    have nw: "\<not> is_writer (pcs s b)" for b using d(3) [of b a] R_store by auto
    then have "\<not> saw_no_reader (pcs s b)" if "b \<noteq> a" for b using other [OF _ that] claim(1) [of "pcs s b"] R_store by auto
    with nw show ?thesis using d(4) unfolding s' writer_inv_def by auto
  next
    case W_readers
    then show ?thesis using step no_reader_left [OF r]
      by (auto simp: agent_step_def Let_def rw_readers_def intro!: writer_inv_go [OF w] split: if_splits)
  qed (use step reader_no_writer [OF w, of a] writer_counted [OF w, of a] in \<open>auto simp: agent_step_def Let_def intro!: writer_inv_go [OF w] split: if_splits\<close>)
qed

lemma reader_inv_go:
  assumes inv: "reader_inv k g s"
    and "is_reader p = is_reader (pcs s a)" "num_readers l = num_readers (rw s)"
    and "\<And>n. p = R_store n \<Longrightarrow> n = num_readers (rw s)"
  shows "reader_inv k g (go a p l s)"
proof -
  have r: "rw_readers (go a p l s) = rw_readers s"
    using assms(2) by (auto simp: rw_readers_def)
  then show ?thesis unfolding reader_inv_def r go_simps
    using inv assms(3,4) by (auto simp: reader_inv_def)
qed

lemma agent_step_reader:
  assumes inv: "rw_inv k g s" and step: "agent_step s a = Some s'" and small: "g + grants (pcs s a) < 2 ^ 32"
  shows "reader_inv k (g + grants (pcs s a)) s'"
proof -
  have r: "reader_inv k g s" and w: "writer_inv s" using inv by (simp_all add: rw_inv_def)
  note reader = reader_no_writer [OF w, of a] and writer = writer_counted [OF w, of a]
  show ?thesis
  proof (cases "pcs s a")
    case (R_store n)
    then have "pcs s b \<noteq> R_store m" if "b \<noteq> a" for b m
      using inv that unfolding rw_inv_def spin_inv_def by (metis holds_spin.simps(10))
    moreover have n: "card (rw_readers s) + k \<le> unat n" "unat n \<le> g" using r R_store by (auto simp: reader_inv_def)
    moreover have "unat (n + 1) = Suc (unat n)" using n(2) small R_store by (simp add: unat_word_ariths)
    moreover have "card (insert a (rw_readers s)) \<le> Suc (card (rw_readers s))" by (simp add: card_insert_le_m1 card_insert_if)
    ultimately show ?thesis
      using r R_store step by (auto simp: agent_step_def Let_def reader_inv_def rw_readers_go split: if_splits)
  next
    case Rel_dec
    then have a: "is_reader (pcs s a)" by simp
    have f: "finite (rw_readers s)" using r by (simp add: reader_inv_def)
    then have c: "card (rw_readers s - {a}) = card (rw_readers s) - 1" "0 < card (rw_readers s)"
      using a by (auto simp: card_gt_0_iff)
    then have "num_readers (rw s) \<noteq> 0" using r by (auto simp: reader_inv_def)
    then have "unat (num_readers (rw s) - 1) = unat (num_readers (rw s)) - 1" by (simp add: unat_minus_one)
    moreover have "s' = go a Outside ((rw s)\<lparr>num_readers := num_readers (rw s) - 1\<rparr>) s" using step Rel_dec by (simp add: agent_step_def Let_def)
    ultimately show ?thesis
      using r Rel_dec c f by (auto simp: reader_inv_def rw_readers_go) (fastforce+)?
  qed (use step reader writer in \<open>auto simp: agent_step_def Let_def split: if_splits intro!: reader_inv_go [OF r]\<close>)
qed

lemma rw_step_inv:
  assumes "rw_step s a s'" "rw_inv k g s" "g + grants (pcs s a) < 2 ^ 32"
  shows "rw_inv k (g + grants (pcs s a)) s'"
  using assms
proof (induction rule: rw_step.induct)
  case (call_write s a)
  then show ?case unfolding rw_inv_def
    by (intro conjI writer_inv_go) (auto simp: spin_inv_def intro: reader_inv_go)
next
  case (call_read s a)
  then show ?case unfolding rw_inv_def
    by (intro conjI writer_inv_go) (auto simp: spin_inv_def intro: reader_inv_go)
next
  case (inside s a s')
  then show ?case
    using agent_step_spin [of s a s'] agent_step_writer [of k g s a s'] agent_step_reader [of k g s a s'] unfolding rw_inv_def by blast
qed

lemma rw_runs_inv: "rw_runs s n s' \<Longrightarrow> rw_inv k g s \<Longrightarrow> g + n < 2 ^ 32 \<Longrightarrow> rw_inv k (g + n) s'"
proof (induction rule: rw_runs.induct)
  case (step n s1 a s2)
  then show ?case using rw_step_inv [of s1 a s2 k "g + n"] by (simp add: add.assoc)
qed simp

subsection \<open>Properties\<close>

text \<open>
  C17. Mutual exclusion. However the agents interleave, access by access, in every run in which read access was granted less than
  \<open>2 ^ 32\<close> times: when one agent has write access, no other has write access and none has read access.
\<close>

theorem rwlock_exclusion:
  assumes "rw_runs rw_init_sys n s" "n < 2 ^ 32" "pcs s a = In_write" "b \<noteq> a"
  shows "pcs s b \<noteq> In_write \<and> pcs s b \<noteq> In_read"
proof -
  have "writer_inv s" using rw_runs_inv [OF assms(1) rw_inv_init] assms(2) by (simp add: rw_inv_def)
  moreover have "is_writer (pcs s a)" "saw_no_reader (pcs s a)" using assms(3) by simp_all
  ultimately have "\<not> is_writer (pcs s b)" "\<not> is_reader (pcs s b)"
    using assms(4) writer_invD by metis+
  then show ?thesis by auto
qed

text \<open>Runs, for the witnesses: agents call a function or make a step.\<close>

datatype rw_act = Call_write nat | Call_read nat | Go nat

fun rw_run :: "rw_act list \<Rightarrow> nat \<Rightarrow> rw_sys \<Rightarrow> (nat \<times> rw_sys) option" where
  "rw_run [] n s = Some (n, s)"
| "rw_run (Call_write a # as) n s = (if pcs s a = Outside then rw_run as n (go a W_spin (rw s) s) else None)"
| "rw_run (Call_read a # as) n s = (if pcs s a = Outside then rw_run as n (go a R_spin (rw s) s) else None)"
| "rw_run (Go a # as) n s = (case agent_step s a of None \<Rightarrow> None | Some s' \<Rightarrow> rw_run as (n + grants (pcs s a)) s')"

lemma rw_run_runs: "rw_run as n s = Some (n', s') \<Longrightarrow> rw_runs s0 n s \<Longrightarrow> rw_runs s0 n' s'"
proof (induction as n s rule: rw_run.induct)
  case (2 a as n s)
  then show ?case using rw_runs.step [OF 2(3) rw_step.call_write [of s a]] by (auto split: if_splits)
next
  case (3 a as n s)
  then show ?case using rw_runs.step [OF 3(3) rw_step.call_read [of s a]] by (auto split: if_splits)
next
  case (4 a as n s)
  then show ?case by (auto split: option.splits intro: rw_runs.step [OF 4(3) rw_step.inside])
qed simp

definition rw_writing :: rw_sys where
  "rw_writing = snd (the (rw_run [Call_write 0, Go 0, Go 0, Go 0, Go 0, Go 0, Call_read 1, Go 1] 0 rw_init_sys))"

lemmas rw_eval = rw_init_sys_def init_rwlock_def agent_step_def go_def Let_def

theorem rwlock_exclusion_witness:
  "rw_runs rw_init_sys 0 rw_writing \<and> pcs rw_writing 0 = In_write \<and> pcs rw_writing 1 = R_writers"
proof -
  have "rw_run [Call_write 0, Go 0, Go 0, Go 0, Go 0, Go 0, Call_read 1, Go 1] 0 rw_init_sys = Some (0, rw_writing)"
    and pc: "pcs rw_writing 0 = In_write" "pcs rw_writing 1 = R_writers"
    by (simp_all add: rw_writing_def rw_eval)
  then have "rw_runs rw_init_sys 0 rw_writing" using rw_run_runs rw_runs.start by blast
  with rwlock_exclusion [of 0 rw_writing 0 1] pc show ?thesis by simp
qed

subsection \<open>The lost release\<close>

text \<open>Nobody is inside and nobody waits, but the counter of readers is \<open>n\<close>.\<close>

definition rw_lost :: "u32 \<Rightarrow> rw_sys" where
  "rw_lost n = \<lparr>rw = \<lparr>num_readers = n, num_writers = 0, write_request = 0, rw_spinlock = False\<rparr>, pcs = (\<lambda>_. Outside)\<rparr>"

text \<open>
  Agent 0 reads; agent 1 gets read access and has loaded the counter when agent 0 releases; agent 1's store overwrites the
  decrement, and agent 1 releases too.
\<close>

lemma lose_reader:
  assumes "rw_runs s m (rw_lost n)"
  shows "rw_runs s (m + 2) (rw_lost (n + 1))"
proof -
  let ?as = "[Call_read 0, Go 0, Go 0, Go 0, Go 0, Go 0, Go 0, Call_read 1, Go 1, Go 1, Go 1, Go 1,
     Go 0, Go 0, Go 0, Go 1, Go 1, Go 1, Go 1, Go 1]"
  have "rw_run ?as m (rw_lost n) = Some (m + 2, rw_lost (n + 1))"
    by (simp add: rw_lost_def rw_eval fun_eq_iff)
  then show ?thesis using rw_run_runs assms by blast
qed

lemma lose_readers: "rw_runs rw_init_sys (2 * n) (rw_lost (of_nat n))"
proof (induction n)
  case 0
  have "rw_lost 0 = rw_init_sys" by (simp add: rw_lost_def rw_init_sys_def init_rwlock_def)
  then show ?case by (simp add: rw_runs.start)
next
  case (Suc n)
  from lose_reader [OF this] show ?case by (simp add: add.commute)
qed

lemma no_new_writer:
  assumes "rw_step s a s'" "rw_inv 1 g s" "\<forall>b. \<not> is_writer (pcs s b) \<and> \<not> saw_no_reader (pcs s b)"
  shows "\<forall>b. \<not> is_writer (pcs s' b) \<and> \<not> saw_no_reader (pcs s' b)"
  using assms
proof (induction rule: rw_step.induct)
  case (inside s a s')
  have "num_readers (rw s) \<noteq> 0" using inside.prems(1) by (auto simp: rw_inv_def reader_inv_def)
  moreover have "num_writers (rw s) = 0" using inside.prems by (auto simp: rw_inv_def writer_inv_def)
  ultimately show ?case
    using inside spec [OF inside.prems(2), of a]
    by (cases "pcs s a") (auto simp: agent_step_def Let_def split: if_splits)
qed auto

text \<open>
  A release can be lost. After that, whatever the agents do, no agent gets write access before read access was granted
  another \<open>2 ^ 32 - 1\<close> times.
\<close>

theorem rwlock_lost_reader:
  "rw_runs rw_init_sys 2 (rw_lost 1) \<and> \<not> (\<exists>s n a. rw_runs (rw_lost 1) n s \<and> n < 2 ^ 32 - 1 \<and> pcs s a = In_write)"
proof -
  have i: "rw_inv 1 1 (rw_lost 1)"
    by (simp add: rw_inv_def spin_inv_def writer_inv_def reader_inv_def rw_lost_def rw_readers_def)
  have "\<forall>b. \<not> is_writer (pcs s b) \<and> \<not> saw_no_reader (pcs s b)" if "rw_runs (rw_lost 1) n s" "n < 2 ^ 32 - 1" for n s
    using that
  proof (induction rule: rw_runs.induct)
    case (step n s1 a s2)
    then show ?case using no_new_writer [OF step(2)] rw_runs_inv [OF step(1) i] by simp
  qed (simp add: rw_lost_def)
  then show ?thesis using lose_readers [of 1] by (metis (no_types) is_writer.simps(2) mult_2 nat_1_add_1 of_nat_1)
qed

text \<open>
  The bound of the exclusion is needed: after \<open>2 ^ 32 - 1\<close> losses a reader brings the counter to zero, and a writer
  enters beside it.
\<close>

theorem rwlock_wraps:
  "\<exists>n s. rw_runs rw_init_sys n s \<and> pcs s 0 = In_write \<and> pcs s 1 = In_read"
proof -
  let ?as = "[Call_read 1, Go 1, Go 1, Go 1, Go 1, Go 1, Go 1, Call_write 0, Go 0, Go 0, Go 0, Go 0, Go 0]"
  obtain n s where "rw_run ?as (2 * (2 ^ 32 - 1)) (rw_lost (-1)) = Some (n, s)" "pcs s 0 = In_write" "pcs s 1 = In_read"
    by (simp add: rw_lost_def rw_eval)
  moreover have "(of_nat (2 ^ 32 - 1) :: u32) = -1" by simp
  then have "rw_runs rw_init_sys (2 * (2 ^ 32 - 1)) (rw_lost (-1))" using lose_readers [of "2 ^ 32 - 1"] by metis
  ultimately show ?thesis using rw_run_runs by blast
qed

end
