(* ===== verification/Family.thy ===== *)
theory Family
  imports Prelude
begin

section \<open>Linked lists and family trees (include/ds/list.h, include/ds/family.h)\<close>

text \<open>
  Processes and threads are linked by nodes embedded in them. A node is named by the
  address of the object that holds it (the \<open>object\<close> field always points back to it), so a
  store of nodes is a function from addresses, and a NULL link is \<open>None\<close>. The operations
  change the links of the store one assignment after the other, as the inline functions do.

  Shown: on a well-formed doubly linked list, insertion before and after an element and
  removal do what their names say; the same for the children of a parent in the family
  tree; and \<open>family_adopt\<close> terminates and moves all children, in reverse order, in front
  of the step-parent's own.
\<close>

subsection \<open>Doubly linked lists\<close>

record list_node =
  prev :: "addr option"
  nxt :: "addr option"

type_synonym list_store = "addr \<Rightarrow> list_node"

definition set_prev :: "addr \<Rightarrow> addr option \<Rightarrow> list_store \<Rightarrow> list_store" where
  "set_prev a v s = s(a := (s a)\<lparr>prev := v\<rparr>)"

definition set_nxt :: "addr \<Rightarrow> addr option \<Rightarrow> list_store \<Rightarrow> list_store" where
  "set_nxt a v s = s(a := (s a)\<lparr>nxt := v\<rparr>)"

definition list_init :: "addr \<Rightarrow> list_store \<Rightarrow> list_store" where
  "list_init l s = s(l := \<lparr>prev = None, nxt = None\<rparr>)"

definition list_remove :: "addr \<Rightarrow> list_store \<Rightarrow> list_store" where
  "list_remove l s =
     (let s1 = (case prev (s l) of None \<Rightarrow> s | Some p \<Rightarrow> set_nxt p (nxt (s l)) s);
          s2 = (case nxt (s1 l) of None \<Rightarrow> s1 | Some n \<Rightarrow> set_prev n (prev (s1 l)) s1)
      in list_init l s2)"

definition list_insertBefore :: "addr \<Rightarrow> addr \<Rightarrow> list_store \<Rightarrow> list_store" where
  "list_insertBefore position l s =
     (let s1 = set_prev l (prev (s position)) s;
          s2 = set_nxt l (Some position) s1;
          s3 = set_prev position (Some l) s2
      in case prev (s3 l) of None \<Rightarrow> s3 | Some p \<Rightarrow> set_nxt p (Some l) s3)"

definition list_insertAfter :: "addr \<Rightarrow> addr \<Rightarrow> list_store \<Rightarrow> list_store" where
  "list_insertAfter position l s =
     (let s1 = set_prev l (Some position) s;
          s2 = set_nxt l (nxt (s1 position)) s1;
          s3 = set_nxt position (Some l) s2
      in case nxt (s3 l) of None \<Rightarrow> s3 | Some n \<Rightarrow> set_prev n (Some l) s3)"

text \<open>
  \<open>dseg nx pv p xs e\<close>: following \<open>nx\<close> from the first of \<open>xs\<close> visits exactly \<open>xs\<close> and ends
  in \<open>e\<close>, and \<open>pv\<close> leads back, to \<open>p\<close> from the first one.
\<close>

fun dseg :: "(addr \<Rightarrow> addr option) \<Rightarrow> (addr \<Rightarrow> addr option) \<Rightarrow>
    addr option \<Rightarrow> addr list \<Rightarrow> addr option \<Rightarrow> bool" where
  "dseg nx pv p [] e = True"
| "dseg nx pv p (x # xs) e =
     (pv x = p \<and> nx x = (if xs = [] then e else Some (hd xs)) \<and> dseg nx pv (Some x) xs e)"

lemma dseg_append [simp]:
  "dseg nx pv p (xs @ ys) e \<longleftrightarrow>
     dseg nx pv p xs (if ys = [] then e else Some (hd ys)) \<and>
     dseg nx pv (if xs = [] then p else Some (last xs)) ys e"
  by (induction xs arbitrary: p) (auto simp: hd_append)

lemma dseg_cong:
  "(\<And>x. x \<in> set xs \<Longrightarrow> nx x = nx' x \<and> pv x = pv' x) \<Longrightarrow> dseg nx pv p xs e = dseg nx' pv' p xs e"
  by (induction xs arbitrary: p) auto

definition dlist :: "list_store \<Rightarrow> addr list \<Rightarrow> bool" where
  "dlist s xs \<longleftrightarrow> distinct xs \<and> dseg (\<lambda>a. nxt (s a)) (\<lambda>a. prev (s a)) None xs None"

text \<open>The links after an assignment.\<close>

lemma link_simps [simp]:
  "nxt (set_nxt a v s b) = (if b = a then v else nxt (s b))"
  "prev (set_nxt a v s b) = prev (s b)"
  "nxt (set_prev a v s b) = nxt (s b)"
  "prev (set_prev a v s b) = (if b = a then v else prev (s b))"
  "nxt (list_init a s b) = (if b = a then None else nxt (s b))"
  "prev (list_init a s b) = (if b = a then None else prev (s b))"
  by (auto simp: set_nxt_def set_prev_def list_init_def)

text \<open>A store that differs only in nodes off a segment has the same segment.\<close>

lemma dseg_frame:
  assumes "dseg nx pv p xs e" "\<And>a. a \<in> set xs \<Longrightarrow> nx' a = nx a \<and> pv' a = pv a"
  shows "dseg nx' pv' p xs e"
  using assms(1) dseg_cong [of xs nx' nx pv' pv] assms(2) by auto

lemma dlist_insertAfter:
  assumes "dlist s (xs @ y # ys)" "l \<notin> set (xs @ y # ys)"
  shows "dlist (list_insertAfter y l s) (xs @ y # l # ys)"
proof -
  let ?t = "list_insertAfter y l s"
  have ny: "nxt (s y) = (if ys = [] then None else Some (hd ys))" using assms(1) by (simp add: dlist_def)
  have t: "nxt (?t a) = (if a = y then Some l else if a = l then nxt (s y) else nxt (s a))"
      "prev (?t a) = (if ys \<noteq> [] \<and> a = hd ys then Some l else if a = l then Some y else prev (s a))" for a
    using assms(2) ny by (cases ys; auto simp: list_insertAfter_def Let_def)+
  show ?thesis
  proof (cases ys)
    case Nil
    with assms ny show ?thesis
      by (auto simp: dlist_def t elim!: dseg_frame)
  next
    case (Cons z zs)
    with assms ny show ?thesis
      by (auto simp: dlist_def t elim!: dseg_frame)
  qed
qed

lemma dlist_insertBefore:
  assumes "dlist s (xs @ y # ys)" "l \<notin> set (xs @ y # ys)"
  shows "dlist (list_insertBefore y l s) (xs @ l # y # ys)"
proof -
  let ?t = "list_insertBefore y l s"
  have py: "prev (s y) = (if xs = [] then None else Some (last xs))" using assms(1) by (simp add: dlist_def)
  have t: "nxt (?t a) = (if xs \<noteq> [] \<and> a = last xs then Some l else if a = l then Some y else nxt (s a))"
      "prev (?t a) = (if a = y then Some l else if a = l then prev (s y) else prev (s a))" for a
    using assms py by (auto simp: list_insertBefore_def Let_def dlist_def)
  show ?thesis
  proof (cases xs rule: rev_cases)
    case Nil
    with assms py show ?thesis
      by (auto simp: dlist_def t elim!: dseg_frame)
  next
    case (snoc ws w)
    with assms py show ?thesis
      by (auto simp: dlist_def t elim!: dseg_frame)
  qed
qed

lemma dlist_remove:
  assumes "dlist s (xs @ l # ys)"
  shows "dlist (list_remove l s) (xs @ ys)"
    and "prev (list_remove l s l) = None" "nxt (list_remove l s l) = None"
proof -
  let ?t = "list_remove l s"
  have l: "prev (s l) = (if xs = [] then None else Some (last xs))"
      "nxt (s l) = (if ys = [] then None else Some (hd ys))"
    using assms by (simp_all add: dlist_def)
  have d: "xs \<noteq> [] \<Longrightarrow> last xs \<noteq> l" "ys \<noteq> [] \<Longrightarrow> hd ys \<noteq> l"
    using assms by (auto simp: dlist_def)
  have t: "nxt (?t a) = (if a = l then None else if xs \<noteq> [] \<and> a = last xs then nxt (s l) else nxt (s a))"
      "prev (?t a) = (if a = l then None else if ys \<noteq> [] \<and> a = hd ys then prev (s l) else prev (s a))" for a
    using l d by (auto simp: list_remove_def Let_def)
  show "prev (?t l) = None" "nxt (?t l) = None" by (simp_all add: t)
  show "dlist ?t (xs @ ys)"
  proof (cases xs rule: rev_cases)
    case Nil
    with assms l show ?thesis
      by (cases ys) (auto simp: dlist_def t elim!: dseg_frame)
  next
    case (snoc ws w)
    with assms l show ?thesis
      by (cases ys) (auto simp: dlist_def t elim!: dseg_frame)
  qed
qed

subsection \<open>Family trees\<close>

record fam_node =
  fparent :: "addr option"
  fchild :: "addr option"
  sibling_prev :: "addr option"
  sibling_next :: "addr option"

type_synonym fam_store = "addr \<Rightarrow> fam_node"

definition set_fparent :: "addr \<Rightarrow> addr option \<Rightarrow> fam_store \<Rightarrow> fam_store" where
  "set_fparent a v s = s(a := (s a)\<lparr>fparent := v\<rparr>)"

definition set_fchild :: "addr \<Rightarrow> addr option \<Rightarrow> fam_store \<Rightarrow> fam_store" where
  "set_fchild a v s = s(a := (s a)\<lparr>fchild := v\<rparr>)"

definition set_sprev :: "addr \<Rightarrow> addr option \<Rightarrow> fam_store \<Rightarrow> fam_store" where
  "set_sprev a v s = s(a := (s a)\<lparr>sibling_prev := v\<rparr>)"

definition set_snext :: "addr \<Rightarrow> addr option \<Rightarrow> fam_store \<Rightarrow> fam_store" where
  "set_snext a v s = s(a := (s a)\<lparr>sibling_next := v\<rparr>)"

definition family_init :: "addr \<Rightarrow> fam_store \<Rightarrow> fam_store" where
  "family_init fam s =
     s(fam := \<lparr>fparent = None, fchild = None, sibling_prev = None, sibling_next = None\<rparr>)"

definition family_remove :: "addr \<Rightarrow> fam_store \<Rightarrow> fam_store" where
  "family_remove fam s =
     (let s1 = (case fparent (s fam) of None \<Rightarrow> s
          | Some p \<Rightarrow> if fchild (s p) = Some fam then set_fchild p (sibling_next (s fam)) s else s);
          s2 = (case sibling_prev (s1 fam) of None \<Rightarrow> s1
          | Some b \<Rightarrow> set_snext b (sibling_next (s1 fam)) s1);
          s3 = (case sibling_next (s2 fam) of None \<Rightarrow> s2
          | Some b \<Rightarrow> set_sprev b (sibling_prev (s2 fam)) s2)
      in set_sprev fam None (set_snext fam None (set_fparent fam None s3)))"

definition family_add_child :: "addr \<Rightarrow> addr \<Rightarrow> fam_store \<Rightarrow> fam_store" where
  "family_add_child parent fam s =
     (let s1 = (case fchild (s parent) of None \<Rightarrow> s
          | Some c \<Rightarrow> (let s' = set_sprev c (Some fam) s in set_snext fam (fchild (s' parent)) s'))
      in set_fparent fam (Some parent) (set_fchild parent (Some fam) s1))"

definition family_add_sibling :: "addr \<Rightarrow> addr \<Rightarrow> fam_store \<Rightarrow> fam_store" where
  "family_add_sibling bro fam s =
     (let s1 = (case sibling_next (s bro) of None \<Rightarrow> s | Some b \<Rightarrow> set_sprev b (Some fam) s);
          s2 = set_snext fam (sibling_next (s1 bro)) s1;
          s3 = set_sprev fam (Some bro) s2;
          s4 = set_snext bro (Some fam) s3
      in set_fparent fam (fparent (s4 bro)) s4)"

text \<open>One round of the adoption loop, and the loop: it ends only when a NULL link is met.\<close>

definition adopt_one :: "addr \<Rightarrow> addr \<Rightarrow> fam_store \<Rightarrow> fam_store" where
  "adopt_one stepParent tmp s =
     (let s1 = set_fparent tmp (Some stepParent) s;
          s2 = set_sprev tmp None s1;
          s3 = set_snext tmp (fchild (s2 stepParent)) s2;
          s4 = (case fchild (s3 stepParent) of None \<Rightarrow> s3 | Some c \<Rightarrow> set_sprev c (Some tmp) s3)
      in set_fchild stepParent (Some tmp) s4)"

partial_function (option) adopt_loop :: "addr \<Rightarrow> addr option \<Rightarrow> fam_store \<Rightarrow> fam_store option" where
  "adopt_loop stepParent tmp s =
     (case tmp of None \<Rightarrow> Some s
      | Some t \<Rightarrow> adopt_loop stepParent (sibling_next (s t)) (adopt_one stepParent t s))"

definition family_adopt :: "addr \<Rightarrow> addr \<Rightarrow> fam_store \<Rightarrow> fam_store option" where
  "family_adopt stepParent deadParent s =
     do { s' \<leftarrow> adopt_loop stepParent (fchild (s deadParent)) s;
          Some (set_fchild deadParent None s') }"

lemma adopt_loop_simps [simp]:
  "adopt_loop p None s = Some s"
  "adopt_loop p (Some t) s = adopt_loop p (sibling_next (s t)) (adopt_one p t s)"
  by (subst adopt_loop.simps, simp)+

lemma fam_link_simps [simp]:
  "fparent (set_fparent a v s b) = (if b = a then v else fparent (s b))"
  "fchild (set_fparent a v s b) = fchild (s b)"
  "sibling_prev (set_fparent a v s b) = sibling_prev (s b)"
  "sibling_next (set_fparent a v s b) = sibling_next (s b)"
  "fparent (set_fchild a v s b) = fparent (s b)"
  "fchild (set_fchild a v s b) = (if b = a then v else fchild (s b))"
  "sibling_prev (set_fchild a v s b) = sibling_prev (s b)"
  "sibling_next (set_fchild a v s b) = sibling_next (s b)"
  "fparent (set_sprev a v s b) = fparent (s b)"
  "fchild (set_sprev a v s b) = fchild (s b)"
  "sibling_prev (set_sprev a v s b) = (if b = a then v else sibling_prev (s b))"
  "sibling_next (set_sprev a v s b) = sibling_next (s b)"
  "fparent (set_snext a v s b) = fparent (s b)"
  "fchild (set_snext a v s b) = fchild (s b)"
  "sibling_prev (set_snext a v s b) = sibling_prev (s b)"
  "sibling_next (set_snext a v s b) = (if b = a then v else sibling_next (s b))"
  by (auto simp: set_fparent_def set_fchild_def set_sprev_def set_snext_def)

text \<open>\<open>kids s p xs\<close>: the children of \<open>p\<close> are exactly \<open>xs\<close>, eldest link first.\<close>

definition fhead :: "addr list \<Rightarrow> addr option" where
  "fhead xs = (if xs = [] then None else Some (hd xs))"

definition kids :: "fam_store \<Rightarrow> addr \<Rightarrow> addr list \<Rightarrow> bool" where
  "kids s p xs \<longleftrightarrow> distinct xs \<and> fchild (s p) = fhead xs \<and>
     dseg (\<lambda>a. sibling_next (s a)) (\<lambda>a. sibling_prev (s a)) None xs None \<and>
     (\<forall>x\<in>set xs. fparent (s x) = Some p)"

definition detached :: "fam_store \<Rightarrow> addr \<Rightarrow> bool" where
  "detached s a \<longleftrightarrow> fparent (s a) = None \<and> sibling_prev (s a) = None \<and> sibling_next (s a) = None"

lemma kids_disjoint: "kids s p xs \<Longrightarrow> kids s q ys \<Longrightarrow> p \<noteq> q \<Longrightarrow> set xs \<inter> set ys = {}"
  by (fastforce simp: kids_def)

lemma kids_not_detached: "kids s p xs \<Longrightarrow> detached s a \<Longrightarrow> a \<notin> set xs"
  by (auto simp: kids_def detached_def)

lemma kids_frame:
  assumes "kids s q ys" "fchild (t q) = fchild (s q)"
    "\<And>a. a \<in> set ys \<Longrightarrow> sibling_next (t a) = sibling_next (s a) \<and>
       sibling_prev (t a) = sibling_prev (s a) \<and> fparent (t a) = fparent (s a)"
  shows "kids t q ys"
  using assms by (auto simp: kids_def elim!: dseg_frame)

lemma kids_add_child:
  assumes "kids s p xs" "detached s f"
  shows "kids (family_add_child p f s) p (f # xs)"
  using assms kids_not_detached [OF assms]
  by (cases xs) (auto simp: kids_def detached_def family_add_child_def Let_def fhead_def elim!: dseg_frame)

lemma kids_add_child_other:
  assumes "kids s p xs" "detached s f" "kids s q ys" "q \<noteq> p"
  shows "kids (family_add_child p f s) q ys"
proof (rule kids_frame [OF assms(3)])
  fix a assume "a \<in> set ys"
  moreover have "fchild (s p) = Some c \<Longrightarrow> c \<in> set xs" for c
    using assms(1) by (cases xs) (auto simp: kids_def fhead_def)
  moreover have "set xs \<inter> set ys = {}" "f \<notin> set ys"
    using kids_disjoint [OF assms(1,3)] kids_not_detached [OF assms(3,2)] assms(4) by auto
  ultimately show "sibling_next (family_add_child p f s a) = sibling_next (s a) \<and>
       sibling_prev (family_add_child p f s a) = sibling_prev (s a) \<and>
       fparent (family_add_child p f s a) = fparent (s a)"
    by (auto simp: family_add_child_def Let_def split: option.splits)
qed (use assms(4) in \<open>auto simp: family_add_child_def Let_def split: option.splits\<close>)

text \<open>What \<open>family_remove\<close> does to the links of a child in the middle of its siblings.\<close>

lemma kid_links:
  assumes "kids s p (xs @ f # ys)"
  shows "sibling_prev (s f) = (if xs = [] then None else Some (last xs))"
    and "sibling_next (s f) = fhead ys" and "fparent (s f) = Some p"
    and "fchild (s p) = Some (if xs = [] then f else hd xs)"
  using assms by (auto simp: kids_def fhead_def hd_append)

lemma family_remove_links:
  assumes "kids s p (xs @ f # ys)"
  shows "sibling_next (family_remove f s a) =
      (if a = f then None else if xs \<noteq> [] \<and> a = last xs then fhead ys else sibling_next (s a))"
    and "sibling_prev (family_remove f s a) =
      (if a = f then None else if ys \<noteq> [] \<and> a = hd ys then sibling_prev (s f) else sibling_prev (s a))"
    and "fparent (family_remove f s a) = (if a = f then None else fparent (s a))"
    and "fchild (family_remove f s a) = (if a = p \<and> xs = [] then fhead ys else fchild (s a))"
proof -
  have d: "xs \<noteq> [] \<Longrightarrow> last xs \<noteq> f" "ys \<noteq> [] \<Longrightarrow> hd ys \<noteq> f" "xs \<noteq> [] \<Longrightarrow> hd xs \<noteq> f"
    using assms by (auto simp: kids_def)
  note k = kid_links [OF assms]
  show "sibling_next (family_remove f s a) =
      (if a = f then None else if xs \<noteq> [] \<and> a = last xs then fhead ys else sibling_next (s a))"
    using d k by (auto simp: family_remove_def Let_def fhead_def split: option.splits)
  show "sibling_prev (family_remove f s a) =
      (if a = f then None else if ys \<noteq> [] \<and> a = hd ys then sibling_prev (s f) else sibling_prev (s a))"
    using d k by (auto simp: family_remove_def Let_def fhead_def split: option.splits)
  show "fparent (family_remove f s a) = (if a = f then None else fparent (s a))"
    using d k by (auto simp: family_remove_def Let_def fhead_def split: option.splits)
  show "fchild (family_remove f s a) = (if a = p \<and> xs = [] then fhead ys else fchild (s a))"
    using d k by (auto simp: family_remove_def Let_def fhead_def split: option.splits)
qed

lemma kids_remove:
  assumes "kids s p (xs @ f # ys)"
  shows "kids (family_remove f s) p (xs @ ys)" "detached (family_remove f s) f"
proof -
  note l = family_remove_links [OF assms] kid_links [OF assms]
  show "detached (family_remove f s) f" by (simp add: detached_def l)
  show "kids (family_remove f s) p (xs @ ys)"
  proof (cases xs rule: rev_cases)
    case Nil
    with assms l show ?thesis
      by (cases ys) (auto simp: kids_def fhead_def elim!: dseg_frame)
  next
    case (snoc ws w)
    with assms l show ?thesis
      by (cases ys) (auto simp: kids_def fhead_def hd_append elim!: dseg_frame)
  qed
qed

lemma kids_remove_other:
  assumes "kids s p (xs @ f # ys)" "kids s q zs" "q \<noteq> p"
  shows "kids (family_remove f s) q zs"
proof (rule kids_frame [OF assms(2)])
  note l = family_remove_links [OF assms(1)]
  have dj: "set (xs @ f # ys) \<inter> set zs = {}" using kids_disjoint [OF assms(1,2)] assms(3) by simp
  then have ne: "f \<notin> set zs" "xs \<noteq> [] \<Longrightarrow> last xs \<notin> set zs" "ys \<noteq> [] \<Longrightarrow> hd ys \<notin> set zs"
    using last_in_set [of xs] hd_in_set [of ys] by (auto simp: disjoint_iff)
  show "fchild (family_remove f s q) = fchild (s q)" using assms(3) by (simp add: l)
  fix a assume "a \<in> set zs"
  with ne show "sibling_next (family_remove f s a) = sibling_next (s a) \<and>
      sibling_prev (family_remove f s a) = sibling_prev (s a) \<and>
      fparent (family_remove f s a) = fparent (s a)"
    by (auto simp: l)
qed

lemma kids_add_sibling:
  assumes "kids s p (xs @ b # ys)" "detached s f"
  shows "kids (family_add_sibling b f s) p (xs @ b # f # ys)"
proof -
  have "f \<notin> set (xs @ b # ys)" using kids_not_detached [OF assms] .
  moreover note k = kid_links [OF assms(1)]
  ultimately have t:
    "sibling_next (family_add_sibling b f s a) =
       (if a = b then Some f else if a = f then fhead ys else sibling_next (s a))"
    "sibling_prev (family_add_sibling b f s a) =
       (if a = f then Some b else if ys \<noteq> [] \<and> a = hd ys then Some f else sibling_prev (s a))"
    "fparent (family_add_sibling b f s a) = (if a = f then Some p else fparent (s a))"
    "fchild (family_add_sibling b f s a) = fchild (s a)" for a
    by (cases ys; auto simp: family_add_sibling_def Let_def fhead_def)+
  from assms \<open>f \<notin> _\<close> k show ?thesis
    by (cases ys) (auto simp: kids_def fhead_def hd_append t elim!: dseg_frame)
qed

subsection \<open>Adoption\<close>

text \<open>One round puts the child in front of the step-parent's children.\<close>

lemma adopt_one_links:
  "fparent (adopt_one p t s a) = (if a = t then Some p else fparent (s a))"
  "fchild (adopt_one p t s a) = (if a = p then Some t else fchild (s a))"
  "sibling_next (adopt_one p t s a) = (if a = t then fchild (s p) else sibling_next (s a))"
  "fchild (s p) \<noteq> Some t \<Longrightarrow> sibling_prev (adopt_one p t s a) =
     (if a = t then None else if fchild (s p) = Some a then Some t else sibling_prev (s a))"
  by (auto simp: adopt_one_def Let_def split: option.splits)

lemma adopt_one_kids:
  assumes "kids s p xs" "t \<notin> set xs"
  shows "kids (adopt_one p t s) p (t # xs)"
  using assms by (cases xs) (auto simp: kids_def fhead_def adopt_one_links elim!: dseg_frame)

text \<open>Later siblings of the child keep their forward links.\<close>

fun nseg :: "fam_store \<Rightarrow> addr list \<Rightarrow> bool" where
  "nseg s [] = True"
| "nseg s (x # xs) = (sibling_next (s x) = fhead xs \<and> nseg s xs)"

lemma nseg_frame: "nseg s xs \<Longrightarrow> (\<And>a. a \<in> set xs \<Longrightarrow> sibling_next (t a) = sibling_next (s a)) \<Longrightarrow> nseg t xs"
  by (induction xs) auto

lemma dseg_nseg: "dseg (\<lambda>a. sibling_next (s a)) pv p xs None \<Longrightarrow> nseg s xs"
  by (induction xs arbitrary: p) (auto simp: fhead_def)

lemma adopt_loop_kids:
  assumes "kids s p xs" "nseg s ys" "distinct ys" "set xs \<inter> set ys = {}"
  shows "\<exists>t. adopt_loop p (fhead ys) s = Some t \<and> kids t p (rev ys @ xs) \<and>
      (\<forall>a. a \<noteq> p \<longrightarrow> fchild (t a) = fchild (s a)) \<and>
      (\<forall>a. a \<notin> set xs \<union> set ys \<longrightarrow> sibling_next (t a) = sibling_next (s a) \<and>
         sibling_prev (t a) = sibling_prev (s a) \<and> fparent (t a) = fparent (s a))"
  using assms
proof (induction ys arbitrary: s xs)
  case Nil
  then show ?case by (auto simp: fhead_def)
next
  case (Cons y ys)
  have y: "y \<notin> set xs" "fchild (s p) \<noteq> Some y" "\<And>a. fchild (s p) = Some a \<Longrightarrow> a \<in> set xs"
    using Cons.prems by (cases xs; auto simp: kids_def fhead_def)+
  have "nseg (adopt_one p y s) ys"
    using Cons.prems by (auto simp: adopt_one_links elim!: nseg_frame)
  moreover have "kids (adopt_one p y s) p (y # xs)"
    using Cons.prems(1) y(1) by (rule adopt_one_kids)
  ultimately obtain t where t: "adopt_loop p (fhead ys) (adopt_one p y s) = Some t"
      "kids t p (rev ys @ y # xs)"
      "\<And>a. a \<noteq> p \<Longrightarrow> fchild (t a) = fchild (adopt_one p y s a)"
      "\<And>a. a \<notin> set (y # xs) \<union> set ys \<Longrightarrow> sibling_next (t a) = sibling_next (adopt_one p y s a) \<and>
         sibling_prev (t a) = sibling_prev (adopt_one p y s a) \<and> fparent (t a) = fparent (adopt_one p y s a)"
    using Cons.IH [of "adopt_one p y s" "y # xs"] Cons.prems by auto
  have "adopt_loop p (fhead (y # ys)) s = Some t"
    using t(1) Cons.prems(2) by (simp add: fhead_def)
  with t y show ?case
    by (fastforce simp: adopt_one_links)
qed

lemma family_adopt_kids:
  assumes "kids s p xs" "kids s d ys" "p \<noteq> d"
  shows "\<exists>t. family_adopt p d s = Some t \<and> kids t p (rev ys @ xs) \<and> kids t d [] \<and>
     (\<forall>q zs. q \<noteq> p \<and> q \<noteq> d \<and> kids s q zs \<longrightarrow> kids t q zs)"
proof -
  have dj: "set xs \<inter> set ys = {}" using kids_disjoint [OF assms] .
  have "nseg s ys" "distinct ys" "fchild (s d) = fhead ys"
    using assms(2) by (auto simp: kids_def intro: dseg_nseg)
  with adopt_loop_kids [OF assms(1) _ _ dj] obtain t where t:
      "adopt_loop p (fhead ys) s = Some t" "kids t p (rev ys @ xs)"
      "\<And>a. a \<noteq> p \<Longrightarrow> fchild (t a) = fchild (s a)"
      "\<And>a. a \<notin> set xs \<union> set ys \<Longrightarrow> sibling_next (t a) = sibling_next (s a) \<and>
         sibling_prev (t a) = sibling_prev (s a) \<and> fparent (t a) = fparent (s a)"
    by blast
  let ?t = "set_fchild d None t"
  have other: "kids ?t q zs" if q: "q \<noteq> p" "q \<noteq> d" "kids s q zs" for q zs
  proof (rule kids_frame [OF q(3)])
    fix a assume "a \<in> set zs"
    then have "a \<notin> set xs \<union> set ys"
      using kids_disjoint [OF q(3) assms(1)] kids_disjoint [OF q(3) assms(2)] q by auto
    then show "sibling_next (?t a) = sibling_next (s a) \<and> sibling_prev (?t a) = sibling_prev (s a) \<and>
        fparent (?t a) = fparent (s a)"
      using t(4) by simp
  qed (use q t(3) in simp)
  have "kids ?t p (rev ys @ xs)" using t(2) assms(3) by (intro kids_frame [OF t(2)]) auto
  moreover have "kids ?t d []" by (simp add: kids_def fhead_def)
  ultimately show ?thesis
    using t(1) other \<open>fchild (s d) = fhead ys\<close> by (auto simp: family_adopt_def)
qed

text \<open>
  Adoption always returns: the children of the dead parent become, in reverse order,
  the first children of the step-parent, ahead of the step-parent's own; the dead parent
  has none left; and the children of every third party stay as they were
  (\<open>family_adopt\<close>, used when a process or thread with children dies).
\<close>

theorem family_adopt_moves_all:
  assumes "kids s p xs" "kids s d ys" "p \<noteq> d"
  shows "\<exists>t. family_adopt p d s = Some t \<and> kids t p (rev ys @ xs) \<and> kids t d [] \<and>
     (\<forall>q zs. q \<noteq> p \<and> q \<noteq> d \<and> kids s q zs \<longrightarrow> kids t q zs)"
  using family_adopt_kids [OF assms] .

text \<open>A parent 0 with child 3 and a parent 1 with children 4, 5 (built by the operations).\<close>

definition fam_blank :: fam_store where
  "fam_blank = (\<lambda>a. family_init a (\<lambda>_. \<lparr>fparent = None, fchild = None, sibling_prev = None, sibling_next = None\<rparr>) a)"

definition fam_example :: fam_store where
  "fam_example = family_add_child 1 4 (family_add_child 1 5 (family_add_child 0 3 fam_blank))"

lemma fam_example_kids: "kids fam_example 0 [3]" "kids fam_example 1 [4, 5]"
  by (simp_all add: kids_def fhead_def fam_example_def fam_blank_def family_add_child_def
      family_init_def Let_def)

lemma family_adopt_moves_all_witness:
  "\<exists>t. family_adopt 0 1 fam_example = Some t \<and> kids t 0 [5, 4, 3] \<and> kids t 1 []"
  using family_adopt_moves_all [OF fam_example_kids] by auto

text \<open>
  The tree operations on one parent: a new child goes in front, a sibling goes right
  after its brother, a removed child leaves the others in order and ends detached, and no
  operation disturbs the children of another parent.
\<close>

theorem family_tree_operations:
  assumes "kids s p (xs @ b # ys)" "detached s f"
  shows "kids (family_add_child p f s) p (f # xs @ b # ys) \<and>
    kids (family_add_sibling b f s) p (xs @ b # f # ys) \<and>
    kids (family_remove b s) p (xs @ ys) \<and> detached (family_remove b s) b \<and>
    (\<forall>q zs. kids s q zs \<and> q \<noteq> p \<longrightarrow>
       kids (family_add_child p f s) q zs \<and> kids (family_remove b s) q zs)"
  using kids_add_child [OF assms] kids_add_sibling [OF assms] kids_remove [OF assms(1)]
    kids_add_child_other [OF assms] kids_remove_other [OF assms(1)] by blast

lemma family_tree_operations_witness:
  "kids (family_remove 4 fam_example) 1 [5] \<and> kids (family_add_sibling 4 7 fam_example) 1 [4, 7, 5]"
proof -
  have k: "kids fam_example 1 ([] @ 4 # [5])" "detached fam_example 7"
    using fam_example_kids by (simp_all add: detached_def fam_example_def fam_blank_def
        family_add_child_def family_init_def Let_def)
  show ?thesis using family_tree_operations [OF k] by simp
qed

text \<open>
  The linked list operations keep a well-formed list and place the element where the
  name says; a removed element is unlinked on both sides.
\<close>

theorem list_operations:
  assumes "dlist s (xs @ y # ys)" "l \<notin> set (xs @ y # ys)"
  shows "dlist (list_insertAfter y l s) (xs @ y # l # ys) \<and>
    dlist (list_insertBefore y l s) (xs @ l # y # ys) \<and>
    dlist (list_remove y s) (xs @ ys) \<and>
    dlist (list_remove l (list_insertAfter y l s)) (xs @ y # ys)"
  using dlist_insertAfter [OF assms] dlist_insertBefore [OF assms] dlist_remove(1) [OF assms(1)]
    dlist_remove(1) [of "list_insertAfter y l s" "xs @ [y]" l ys] by simp

lemma list_operations_witness:
  "dlist (list_insertBefore 2 5 (list_init 2 (\<lambda>_. \<lparr>prev = None, nxt = None\<rparr>))) [5, 2]"
proof -
  have "dlist (list_init 2 (\<lambda>_. \<lparr>prev = None, nxt = None\<rparr>)) ([] @ 2 # [])" by (simp add: dlist_def)
  from list_operations [OF this, of 5] show ?thesis by simp
qed

end
