(* ===== verification/Cstring.thy ===== *)
theory Cstring
  imports Prelude
begin

section \<open>Strings and memory blocks (src/misc.c)\<close>

text \<open>
  A \<open>char\<close> buffer is a function from offsets to bytes. Offsets and counts are 32-bit
  words where the code counts with them, so that \<open>n--\<close> below zero and \<open>s1[n-1]\<close> wrap as they
  do on the machine: an offset of \<open>2 ^ 32 - 2\<close> is the byte two before the buffer. The two
  buffers of \<open>strncpy\<close> and \<open>memcpy\<close> are disjoint.

  Shown: \<open>strncmp\<close> is zero exactly on equal strings, what \<open>strncpy\<close> leaves in a buffer
  (also when the source does not fit), that \<open>memcpy\<close> and \<open>memset\<close> set exactly their \<open>n\<close>
  bytes, and that \<open>memcmp\<close> is the order of the first two signed bytes that differ.
\<close>

type_synonym buffer = "nat \<Rightarrow> byte"

text \<open>The string a buffer of \<open>n\<close> bytes holds: up to the first zero byte.\<close>

definition cstr :: "buffer \<Rightarrow> nat \<Rightarrow> byte list" where
  "cstr a n = takeWhile (\<lambda>c. c \<noteq> 0) (arr_list a n)"

subsection \<open>The functions\<close>

text \<open>\<open>while (i++ != n)\<close>: the counter is compared for equality, so a negative \<open>n\<close> runs round.\<close>

function memset_loop :: "buffer \<Rightarrow> byte \<Rightarrow> u32 \<Rightarrow> u32 \<Rightarrow> buffer" where
  "memset_loop dest c n i =
     (if i = n then dest else memset_loop (dest(unat i := c)) c n (i + 1))"
  by pat_completeness auto
termination
proof (relation "measure (\<lambda>(dest, c, n, i). unat (n - i))")
  fix n i :: u32
  assume "i \<noteq> n"
  then have "unat (n - i - 1) < unat (n - i)"
    by (intro measure_unat) simp
  then show "((d, c, n, i + 1), (d', c', n, i)) \<in> measure (\<lambda>(dest, c, n, i). unat (n - i))"
    for d d' :: buffer and c c' :: byte
    by (simp add: algebra_simps)
qed simp

definition memset :: "buffer \<Rightarrow> int \<Rightarrow> u32 \<Rightarrow> buffer" where
  "memset dest c n = memset_loop dest (word_of_int c) n 0"

partial_function (option) strlen_loop :: "buffer \<Rightarrow> nat \<Rightarrow> nat option" where
  "strlen_loop src i = (if src i \<noteq> 0 then strlen_loop src (Suc i) else Some (Suc i))"

definition strlen :: "buffer \<Rightarrow> nat option" where
  "strlen src = strlen_loop src 0"

text \<open>\<open>i\<close> is an \<open>int\<close> that is compared with an \<open>unsigned int\<close>, so as a word; the result is read as \<open>int\<close>.\<close>

function strnlen_loop :: "buffer \<Rightarrow> u32 \<Rightarrow> u32 \<Rightarrow> int" where
  "strnlen_loop src n i =
     (if i < n then (if src (unat i) = 0 then sint i else strnlen_loop src n (i + 1)) else sint n)"
  by pat_completeness auto
termination
  by (relation "measure (\<lambda>(src, n, i). unat n - unat i)") (auto simp: word_less_nat_alt unat_add_one)

definition strnlen :: "buffer \<Rightarrow> u32 \<Rightarrow> int" where
  "strnlen src n = strnlen_loop src n 0"

text \<open>
  The copy loop returns the buffer, the counter after the last \<open>n--\<close> and how far \<open>s1\<close> moved.
\<close>

function strncpy_loop :: "buffer \<Rightarrow> buffer \<Rightarrow> u32 \<Rightarrow> u32 \<Rightarrow> buffer \<times> u32 \<times> u32" where
  "strncpy_loop s1 s2 n i =
     (if n = 0 then (s1, n - 1, i)
      else if s2 (unat i) = 0 then (s1(unat i := s2 (unat i)), n - 1, i + 1)
      else strncpy_loop (s1(unat i := s2 (unat i))) s2 (n - 1) (i + 1))"
  by pat_completeness auto
termination
  by (relation "measure (\<lambda>(s1, s2, n, i). unat n)") (auto intro: measure_unat)

definition strncpy :: "buffer \<Rightarrow> buffer \<Rightarrow> u32 \<Rightarrow> buffer" where
  "strncpy s1 s2 n = (case strncpy_loop s1 s2 n 0 of (d, m, i) \<Rightarrow> d(unat (i + (m - 1)) := 0))"

text \<open>\<open>src\<close>, \<open>dst\<close> and \<open>boom\<close> advance together; the test inside the loop for a zero byte
  never holds there.\<close>

function strncmp_loop :: "buffer \<Rightarrow> buffer \<Rightarrow> u32 \<Rightarrow> u32 \<Rightarrow> int \<Rightarrow> int" where
  "strncmp_loop a b n boom found =
     (if a (unat boom) \<noteq> 0 \<and> b (unat boom) \<noteq> 0 then
        (let found' = (if a (unat boom) \<noteq> b (unat boom) then found + 1 else found)
         in if boom + 1 = n then found' else strncmp_loop a b n (boom + 1) found')
      else if a (unat boom) \<noteq> b (unat boom) then found + 1 else found)"
  by pat_completeness auto
termination
proof (relation "measure (\<lambda>(a, b, n, boom, found). unat (n - 1 - boom))")
  fix n boom :: u32
  assume "boom + 1 \<noteq> n"
  then have "n - 1 - boom \<noteq> 0" by (metis add.commute eq_iff_diff_eq_0 diff_add_cancel)
  then have "unat (n - 1 - boom - 1) < unat (n - 1 - boom)"
    by (rule measure_unat)
  then show "((a, b, n, boom + 1, c), (a', b', n, boom, c')) \<in> measure (\<lambda>(a, b, n, boom, found). unat (n - 1 - boom))"
    for a a' b b' :: buffer and c c' :: int
    by (simp add: algebra_simps)
qed simp

definition strncmp :: "buffer \<Rightarrow> buffer \<Rightarrow> u32 \<Rightarrow> int" where
  "strncmp a b n = strncmp_loop a b n 0 0"

text \<open>\<open>char\<close> is signed.\<close>

function memcmp_loop :: "buffer \<Rightarrow> buffer \<Rightarrow> u32 \<Rightarrow> u32 \<Rightarrow> int" where
  "memcmp_loop s t n i =
     (if i < n then
        (if sint (s (unat i)) < sint (t (unat i)) then -1
         else if sint (s (unat i)) > sint (t (unat i)) then 1
         else memcmp_loop s t n (i + 1))
      else 0)"
  by pat_completeness auto
termination
  by (relation "measure (\<lambda>(s, t, n, i). unat n - unat i)") (auto simp: word_less_nat_alt unat_add_one)

definition memcmp :: "buffer \<Rightarrow> buffer \<Rightarrow> u32 \<Rightarrow> int" where
  "memcmp s t n = memcmp_loop s t n 0"

text \<open>\<open>memcpy\<close> moves whole 32-bit words first, then the bytes that are left.\<close>

fun memcpy_bytes :: "buffer \<Rightarrow> buffer \<Rightarrow> nat \<Rightarrow> nat \<Rightarrow> buffer" where
  "memcpy_bytes d s i 0 = d"
| "memcpy_bytes d s i (Suc n) = memcpy_bytes (d(i := s i)) s (Suc i) n"

fun memcpy_words :: "buffer \<Rightarrow> buffer \<Rightarrow> nat \<Rightarrow> nat \<Rightarrow> buffer" where
  "memcpy_words d s i n =
     (if n \<ge> 4 then
        memcpy_words (d(i := s i, i + 1 := s (i + 1), i + 2 := s (i + 2), i + 3 := s (i + 3))) s (i + 4) (n - 4)
      else memcpy_bytes d s i n)"

definition memcpy :: "buffer \<Rightarrow> buffer \<Rightarrow> nat \<Rightarrow> buffer" where
  "memcpy d s n = memcpy_words d s 0 n"

declare memset_loop.simps [simp del] strncpy_loop.simps [simp del]
  strncmp_loop.simps [simp del] memcpy_words.simps [simp del] strnlen_loop.simps [simp del] memcmp_loop.simps [simp del]

subsection \<open>Comparison\<close>

text \<open>How many of the \<open>k\<close> positions from \<open>i\<close> on differ, up to the end of the shorter string.\<close>

fun mismatches :: "buffer \<Rightarrow> buffer \<Rightarrow> nat \<Rightarrow> nat \<Rightarrow> int" where
  "mismatches a b i 0 = 0"
| "mismatches a b i (Suc k) =
     (if a i \<noteq> 0 \<and> b i \<noteq> 0 then (if a i \<noteq> b i then 1 else 0) + mismatches a b (Suc i) k
      else if a i \<noteq> b i then 1 else 0)"

lemma mismatches_nonneg: "0 \<le> mismatches a b i k"
  by (induction k arbitrary: i) auto

lemma strncmp_loop_mismatches:
  "unat boom < unat n \<Longrightarrow>
   strncmp_loop a b n boom found = found + mismatches a b (unat boom) (unat n - unat boom)"
proof (induction a b n boom found rule: strncmp_loop.induct)
  case (1 a b n boom found)
  obtain k where k: "unat n - unat boom = Suc k" using "1.prems" by (metis Suc_diff_Suc)
  have s: "unat (boom + 1) = Suc (unat boom)" using "1.prems" by (rule unat_add_one)
  show ?case
  proof (cases "boom + 1 = n")
    case True
    then have "k = 0" using s k by simp
    with True k show ?thesis by (simp add: strncmp_loop.simps [of a b n boom])
  next
    case False
    then have lt: "unat (boom + 1) < unat n"
      using "1.prems" s by (metis Suc_lessI word_unat_eq_iff)
    have "unat n - unat (boom + 1) = k" using k s by simp
    with False lt k s "1.IH" show ?thesis
      by (auto simp: strncmp_loop.simps [of a b n boom] Let_def)
  qed
qed

lemma mismatches_zero_iff:
  "mismatches a b i k = 0 \<longleftrightarrow>
     takeWhile (\<lambda>c. c \<noteq> 0) (map a [i..<i + k]) = takeWhile (\<lambda>c. c \<noteq> 0) (map b [i..<i + k])"
proof (induction k arbitrary: i)
  case (Suc k)
  have u: "map f [i..<i + Suc k] = f i # map f [Suc i..<Suc i + k]" for f :: buffer
    by (simp add: upt_conv_Cons del: upt_Suc)
  show ?case
    unfolding u mismatches.simps using Suc.IH [of "Suc i"] mismatches_nonneg [of a b "Suc i" k]
    by (cases "a i = 0"; cases "b i = 0"; cases "a i = b i") (simp_all del: upt_Suc)
qed simp

lemma strncmp_zero_iff:
  "n \<noteq> 0 \<Longrightarrow> strncmp a b n = 0 \<longleftrightarrow> cstr a (unat n) = cstr b (unat n)"
  using strncmp_loop_mismatches [of 0 n a b 0] mismatches_zero_iff [of a b 0 "unat n"]
  by (simp add: strncmp_def cstr_def arr_list_def unat_gt_0)

subsection \<open>Copying\<close>

lemma strncpy_loop_spec:
  assumes "unat i + unat n < 2 ^ 32" "strncpy_loop s1 s2 n i = (d, m, i')"
    and "k = arr_find (\<lambda>k. s2 k = 0) (unat i + unat n) (unat i)"
  shows "d = (\<lambda>j. if unat i \<le> j \<and> j \<le> k \<and> j < unat i + unat n then s2 j else s1 j) \<and>
    i' + m = (if k < unat i + unat n then i + n else i + n - 1)"
  using assms
proof (induction s1 s2 n i rule: strncpy_loop.induct)
  case (1 s1 s2 n i)
  let ?N = "unat i + unat n"
  show ?case
  proof (cases "n = 0")
    case True
    with "1.prems" show ?thesis
      by (auto simp: strncpy_loop.simps [of s1 s2 0 i] arr_find.simps fun_eq_iff)
  next
    case n: False
    then have m: "unat (n - 1) = unat n - 1" "0 < unat n" by (auto simp: unat_minus_one unat_gt_0)
    have i: "unat (i + 1) = Suc (unat i)"
      using "1.prems"(1) m by (intro unat_add_one [of _ "i + n"]) (simp add: unat_word_ariths)
    have N: "unat (i + 1) + unat (n - 1) = ?N" using m i by simp
    show ?thesis
    proof (cases "s2 (unat i) = 0")
      case True
      then have "arr_find (\<lambda>k. s2 k = 0) ?N (unat i) = unat i"
        using m by (intro arr_find_eqI) auto
      with True n m "1.prems" show ?thesis
        by (fastforce simp: strncpy_loop.simps [of s1 s2 n i] intro!: ext)
    next
      case False
      have find: "arr_find (\<lambda>k. s2 k = 0) ?N (unat i) = arr_find (\<lambda>k. s2 k = 0) ?N (Suc (unat i))"
        using False m by (subst arr_find.simps) simp
      have ge: "Suc (unat i) \<le> arr_find (\<lambda>k. s2 k = 0) ?N (Suc (unat i))"
        using m by (intro arr_find_ge) simp
      have "strncpy_loop (s1(unat i := s2 (unat i))) s2 (n - 1) (i + 1) = (d, m, i')"
        using "1.prems"(2) n False by (simp add: strncpy_loop.simps [of s1 s2 n i])
      from "1.IH" [OF n False _ this] "1.prems"(1) N i find
      show ?thesis
        unfolding "1.prems"(3)
        using ge m by (auto simp: fun_eq_iff)
    qed
  qed
qed

text \<open>What \<open>strncpy\<close> leaves at every offset.\<close>

lemma strncpy_bytes:
  fixes s1 s2 :: buffer and n :: u32
  assumes "2 \<le> unat n"
  defines "k \<equiv> arr_find (\<lambda>k. s2 k = 0) (unat n) 0"
  shows "strncpy s1 s2 n j =
    (if j = (if k < unat n then unat n - 1 else unat n - 2) then 0
     else if j \<le> k \<and> j < unat n then s2 j else s1 j)"
proof -
  obtain d m i' where l: "strncpy_loop s1 s2 n 0 = (d, m, i')"
    by (metis prod_cases3)
  have "unat n < 2 ^ 32" using unsigned_less [of n] by simp
  with strncpy_loop_spec [OF _ l refl] have
    d: "d = (\<lambda>j. if j \<le> k \<and> j < unat n then s2 j else s1 j)"
    and i: "i' + m = (if k < unat n then n else n - 1)"
    by (simp_all add: k_def)
  have "n \<noteq> 0" "n - 1 \<noteq> 0" using assms(1) by (auto simp: unat_eq_zero unat_minus_one)
  then have "unat (i' + (m - 1)) = (if k < unat n then unat n - 1 else unat n - 2)"
    using i by (simp add: unat_minus_one add_diff_eq split: if_splits)
  then show ?thesis by (simp add: strncpy_def l d)
qed

lemma cstr_cong: "(\<And>i. i < n \<Longrightarrow> a i = b i) \<Longrightarrow> cstr a n = cstr b n"
  by (simp add: cstr_def cong: arr_list_cong)

text \<open>A buffer whose first zero byte is at \<open>k\<close> holds its first \<open>k\<close> bytes.\<close>

lemma cstr_until:
  assumes "k < n" "a k = 0" "\<And>i. i < k \<Longrightarrow> a i \<noteq> 0"
  shows "cstr a n = arr_list a k"
proof -
  have "arr_list a n = arr_list a k @ a k # drop (Suc k) (arr_list a n)"
    using assms(1) take_arr_list [of k n a] by (metis less_imp_le append_take_drop_id Cons_nth_drop_Suc length_arr_list nth_arr_list)
  then have "cstr a n = takeWhile (\<lambda>c. c \<noteq> 0) (arr_list a k @ a k # drop (Suc k) (arr_list a n))"
    by (simp add: cstr_def)
  also have "\<dots> = arr_list a k"
    using assms(2,3) by (subst takeWhile_append2) (auto simp: in_arr_list)
  finally show ?thesis .
qed

lemma cstr_full: "(\<And>i. i < n \<Longrightarrow> a i \<noteq> 0) \<Longrightarrow> cstr a n = arr_list a n"
  by (auto simp: cstr_def takeWhile_eq_all_conv in_arr_list)

text \<open>
  What \<open>strncpy\<close> leaves: a string that fits (its zero byte is within the \<open>n\<close> bytes) is
  copied; of a string that does not fit only the first \<open>n - 2\<close> characters are kept, the
  terminator being written one place too early. No byte outside the buffer changes.
\<close>

theorem strncpy_result:
  assumes "2 \<le> unat n"
  shows "cstr (strncpy s1 s2 n) (unat n) =
      (if \<exists>i<unat n. s2 i = 0 then cstr s2 (unat n) else take (unat n - 2) (cstr s2 (unat n))) \<and>
    (\<forall>j\<ge>unat n. strncpy s1 s2 n j = s1 j)"
proof -
  let ?k = "arr_find (\<lambda>k. s2 k = 0) (unat n) 0" and ?d = "strncpy s1 s2 n"
  note b = strncpy_bytes [OF assms, of s1 s2]
  have nz: "s2 i \<noteq> 0" if "i < ?k" for i using arr_find_before [of 0 i "\<lambda>k. s2 k = 0" "unat n"] that by simp
  have "cstr ?d (unat n) = (if \<exists>i<unat n. s2 i = 0 then cstr s2 (unat n) else take (unat n - 2) (cstr s2 (unat n)))"
  proof (cases "\<exists>i<unat n. s2 i = 0")
    case True
    then have k: "?k < unat n"
      using arr_find_miss [of "\<lambda>k. s2 k = 0" "unat n" 0] arr_find_le [of 0 "unat n" "\<lambda>k. s2 k = 0"] by fastforce
    then have z: "s2 ?k = 0" by (rule arr_find_hit)
    have "cstr s2 (unat n) = arr_list s2 ?k" using k z nz by (rule cstr_until)
    moreover have "cstr ?d (unat n) = arr_list ?d ?k"
      using k z nz by (intro cstr_until) (auto simp: b)
    moreover have "arr_list ?d ?k = arr_list s2 ?k" using k by (intro arr_list_cong) (auto simp: b)
    ultimately show ?thesis using True by simp
  next
    case False
    then have k: "?k = unat n" by (intro arr_find_noneI) auto
    have "cstr ?d (unat n) = arr_list ?d (unat n - 2)"
      using k assms nz by (intro cstr_until) (auto simp: b)
    moreover have "cstr s2 (unat n) = arr_list s2 (unat n)" using False by (intro cstr_full) auto
    moreover have "arr_list ?d (unat n - 2) = arr_list s2 (unat n - 2)"
      using k by (intro arr_list_cong) (auto simp: b)
    ultimately show ?thesis using False by (auto simp: take_arr_list)
  qed
  moreover have "\<forall>j\<ge>unat n. ?d j = s1 j" using assms by (auto simp: b)
  ultimately show ?thesis by blast
qed

lemma strncpy_result_witness:
  "cstr (strncpy (\<lambda>_. 7) (\<lambda>_. 65) 4) 4 = [65, 65]"
proof -
  have "\<not> (\<exists>i<unat (4 :: u32). (\<lambda>_. 65 :: byte) i = 0)" by simp
  then have "cstr (strncpy (\<lambda>_. 7) (\<lambda>_. 65) 4) (unat (4 :: u32)) = take (unat (4 :: u32) - 2) (cstr (\<lambda>_. 65) (unat (4 :: u32)))"
    using strncpy_result [of 4 "\<lambda>_. 7" "\<lambda>_. 65"] by (simp only:) simp
  then show ?thesis by (simp add: cstr_def arr_list_def upt_rec)
qed

text \<open>
  String comparison: \<open>strncmp\<close> over at least one byte is zero exactly when the two buffers
  hold the same string; it always returns.
\<close>

theorem strncmp_equal:
  "n \<noteq> 0 \<Longrightarrow> strncmp a b n = 0 \<longleftrightarrow> cstr a (unat n) = cstr b (unat n)"
  by (rule strncmp_zero_iff)

lemma strncmp_equal_witness:
  "strncmp (\<lambda>_. 0) ((\<lambda>_. 0)(1 := 5)) 4 = 0 \<and> cstr (\<lambda>_. 0) (unat (4 :: u32)) = cstr ((\<lambda>_. 0)(1 := 5)) (unat (4 :: u32))"
proof -
  have "cstr (\<lambda>_. 0) (unat (4 :: u32)) = cstr ((\<lambda>_. 0)(1 := 5)) (unat (4 :: u32))"
    by (simp add: cstr_def arr_list_def upt_rec)
  moreover have "(4 :: u32) \<noteq> 0" by simp
  ultimately show ?thesis using strncmp_equal by blast
qed

subsection \<open>Blocks of memory\<close>

lemma memset_loop_bytes:
  "unat i \<le> unat n \<Longrightarrow>
   memset_loop d c n i j = (if unat i \<le> j \<and> j < unat n then c else d j)"
proof (induction d c n i rule: memset_loop.induct)
  case (1 d c n i)
  show ?case
  proof (cases "i = n")
    case False
    then have lt: "unat i < unat n" using "1.prems" by (metis le_neq_implies_less word_unat_eq_iff)
    then have "unat (i + 1) = Suc (unat i)" by (rule unat_add_one)
    with False lt "1.IH" have "memset_loop (d(unat i := c)) c n (i + 1) j =
        (if Suc (unat i) \<le> j \<and> j < unat n then c else (d(unat i := c)) j)"
      by (simp del: fun_upd_apply)
    with False lt show ?thesis by (auto simp: memset_loop.simps [of d c n i])
  qed (auto simp: memset_loop.simps [of d c n n])
qed

lemma memcpy_bytes_at:
  "memcpy_bytes d s i n j = (if i \<le> j \<and> j < i + n then s j else d j)"
  by (induction n arbitrary: d i) auto

lemma memcpy_words_at:
  "memcpy_words d s i n j = (if i \<le> j \<and> j < i + n then s j else d j)"
proof (induction d s i n rule: memcpy_words.induct)
  case (1 d s i n)
  show ?case
  proof (cases "n \<ge> 4")
    case True
    let ?d = "d(i := s i, i + 1 := s (i + 1), i + 2 := s (i + 2), i + 3 := s (i + 3))"
    have d: "?d j = (if i \<le> j \<and> j < i + 4 then s j else d j)"
      by (cases "j = i \<or> j = i + 1 \<or> j = i + 2 \<or> j = i + 3") auto
    have "memcpy_words d s i n j = memcpy_words ?d s (i + 4) (n - 4) j"
      using True by (simp only: memcpy_words.simps [of d s i n] if_True)
    also have "\<dots> = (if i + 4 \<le> j \<and> j < i + 4 + (n - 4) then s j else ?d j)"
      by (rule "1.IH" [OF True])
    finally show ?thesis unfolding d using True by auto
  next
    case False
    then show ?thesis by (simp add: memcpy_words.simps [of d s i n] memcpy_bytes_at)
  qed
qed

lemma memcpy_at: "memcpy d s n j = (if j < n then s j else d j)"
  by (simp add: memcpy_def memcpy_words_at)

text \<open>The order of two blocks of equal length: that of the first bytes that differ, as signed numbers.\<close>

fun byte_order :: "byte list \<Rightarrow> byte list \<Rightarrow> int" where
  "byte_order (x # xs) (y # ys) = (if x = y then byte_order xs ys else if sint x < sint y then -1 else 1)"
| "byte_order _ _ = 0"

lemma byte_order_zero: "length xs = length ys \<Longrightarrow> byte_order xs ys = 0 \<longleftrightarrow> xs = ys"
  by (induction xs ys rule: list_induct2) auto

lemma map_upt_Cons: "i < n \<Longrightarrow> map f [i..<n] = f i # map f [Suc i..<n]"
  by (simp add: upt_conv_Cons)

lemma memcmp_loop_order:
  "memcmp_loop s t n i = byte_order (map s [unat i..<unat n]) (map t [unat i..<unat n])"
proof (induction s t n i rule: memcmp_loop.induct)
  case (1 s t n i)
  show ?case
  proof (cases "i < n")
    case True
    then have i: "unat i < unat n" "unat (i + 1) = Suc (unat i)" by (simp_all add: word_less_nat_alt unat_add_one)
    have "sint (s (unat i)) = sint (t (unat i)) \<longleftrightarrow> s (unat i) = t (unat i)" by (auto intro: signed_word_eqI)
    then show ?thesis
      unfolding map_upt_Cons [OF i(1)] using 1 True i(2) by (auto simp: memcmp_loop.simps [of s t n i])
  qed (simp add: memcmp_loop.simps [of s t n i] word_less_nat_alt)
qed

lemma strnlen_loop_length:
  "unat i \<le> unat n \<Longrightarrow>
    strnlen_loop s n i = sint (i + of_nat (length (takeWhile (\<lambda>c. c \<noteq> 0) (map s [unat i..<unat n]))))"
proof (induction s n i rule: strnlen_loop.induct)
  case (1 s n i)
  show ?case
  proof (cases "i < n")
    case True
    then have i: "unat i < unat n" "unat (i + 1) = Suc (unat i)" by (simp_all add: word_less_nat_alt unat_add_one)
    then show ?thesis
      unfolding map_upt_Cons [OF i(1)] using 1 True by (simp add: strnlen_loop.simps [of s n i] algebra_simps)
  next
    case False
    with 1 have "i = n" by (simp add: word_less_nat_alt unat_arith_simps(3))
    then show ?thesis by (simp add: strnlen_loop.simps [of s n n])
  qed
qed

text \<open>
  C32. The block operations agree with their bytewise definitions. \<open>memcpy\<close>, which moves words and then single bytes, and \<open>memset\<close>
  set exactly the first \<open>n\<close> bytes. \<open>memcmp\<close> has the sign of the first two bytes that differ, taken as signed numbers, and is zero
  exactly on equal blocks. \<open>strnlen\<close> is the length of the string in the buffer, read as an \<open>int\<close>.
\<close>

theorem block_operations:
  "(\<forall>j. memcpy d s n j = (if j < n then s j else d j)) \<and>
   (\<forall>j. memset d c m j = (if j < unat m then word_of_int c else d j)) \<and>
   memcmp s t m = byte_order (arr_list s (unat m)) (arr_list t (unat m)) \<and>
   (memcmp s t m = 0 \<longleftrightarrow> arr_list s (unat m) = arr_list t (unat m)) \<and>
   strnlen s m = sint (of_nat (length (cstr s (unat m))) :: u32)"
proof -
  have "memcmp s t m = byte_order (arr_list s (unat m)) (arr_list t (unat m))"
    by (simp add: memcmp_def memcmp_loop_order arr_list_def)
  moreover have "strnlen s m = sint (of_nat (length (cstr s (unat m))) :: u32)"
    by (simp add: strnlen_def strnlen_loop_length cstr_def arr_list_def)
  ultimately show ?thesis by (simp add: memcpy_at memset_def memset_loop_bytes byte_order_zero)
qed

lemma strlen_loop_spec:
  assumes "i \<le> k" "s k = 0" "\<And>j. i \<le> j \<Longrightarrow> j < k \<Longrightarrow> s j \<noteq> 0"
  shows "strlen_loop s i = Some (Suc k)"
  using assms
proof (induction "k - i" arbitrary: i)
  case 0
  then show ?case by (subst strlen_loop.simps) auto
next
  case (Suc m)
  then have "s i \<noteq> 0" "strlen_loop s (Suc i) = Some (Suc k)" by auto
  then show ?case by (subst strlen_loop.simps) simp
qed

text \<open>
  \<open>strlen\<close> on a buffer that holds a string returns one more than the number of its
  characters: it counts the terminator, unlike the C library function of that name.
\<close>

theorem strlen_counts_terminator:
  assumes "s k = 0" "\<forall>j<k. s j \<noteq> 0"
  shows "strlen s = Some (length (cstr s (Suc k)) + 1)"
  using assms strlen_loop_spec [of 0 k s] cstr_until [of k "Suc k" s] by (simp add: strlen_def)

lemma strlen_counts_terminator_witness:
  "strlen ((\<lambda>_. 65)(2 := 0)) = Some 3"
proof -
  have c: "cstr ((\<lambda>_. 65)(2 := 0)) (Suc 2) = arr_list ((\<lambda>_. 65)(2 := 0)) 2"
    by (rule cstr_until) auto
  show ?thesis using strlen_counts_terminator [of "(\<lambda>_. 65)(2 := 0)" 2] unfolding c by simp
qed

end
