(* ===== verification/Env.thy ===== *)
theory Env
  imports Cstring
begin

section \<open>Process environments (src/env.c)\<close>

text \<open>
  Every process has an environment: an array of entries, grown and shrunk with
  \<open>realloc\<close>. The two fields of \<open>struct process\<close> that hold it are the record \<open>env_block\<close>, which
  the process record embeds. Whether an allocation succeeds is an argument of the
  operation, and what a fresh block contains is the argument \<open>junk\<close>.

  Shown: the environment is a finite map from names to data. Setting, reading, removing,
  releasing and cloning implement the update, lookup, deletion, emptying and copy of that
  map, and failed calls leave it alone except where \<open>realloc\<close> fails.
\<close>

definition ENVIRONMENT_NAME_LENGTH :: u32 where "ENVIRONMENT_NAME_LENGTH = 1024"

record environ_info =
  env_name :: buffer
  env_size :: u32
  env_data :: buffer

record env_block =
  environment :: "(nat \<Rightarrow> environ_info) option"
  environment_count :: nat

abbreviation env_array :: "env_block \<Rightarrow> nat \<Rightarrow> environ_info" where
  "env_array p \<equiv> the (environment p)"

text \<open>The loop that looks for a name; the count when it is not there.\<close>

definition env_find :: "env_block \<Rightarrow> buffer \<Rightarrow> nat" where
  "env_find p name =
     arr_find (\<lambda>i. strncmp (env_name (env_array p i)) name ENVIRONMENT_NAME_LENGTH = 0)
       (environment_count p) 0"

text \<open>\<open>ok1\<close>: the data block could be allocated; \<open>ok2\<close>: the array could be resized.\<close>

definition set_environment ::
  "bool \<Rightarrow> bool \<Rightarrow> (nat \<Rightarrow> environ_info) \<Rightarrow> env_block \<Rightarrow> buffer option \<Rightarrow> buffer option \<Rightarrow> u32 \<Rightarrow> int \<times> env_block" where
  "set_environment ok1 ok2 junk p name data sz =
    (case (data, name) of
       (Some d, Some nm) \<Rightarrow>
         if sz = 0 then (-1, p)
         else
           (let pos = environment_count p; i = env_find p nm in
            if i < pos then
              if \<not> ok1 then (-1, p)
              else (0, p\<lparr>environment := Some ((env_array p)
                      (i := (env_array p i)\<lparr>env_size := sz, env_data := memcpy (env_data (junk i)) d (unat sz)\<rparr>))\<rparr>)
            else if \<not> ok1 then (-1, p)
            else if \<not> ok2 then (-1, p\<lparr>environment := None, environment_count := 0\<rparr>)
            else
              (let env = (case environment p of None \<Rightarrow> junk | Some a \<Rightarrow> a(pos := junk pos))
               in (0, p\<lparr>environment := Some (env(pos :=
                        \<lparr>env_name = strncpy (env_name (env pos)) nm ENVIRONMENT_NAME_LENGTH,
                         env_size = sz, env_data = memcpy (env_data (env pos)) d (unat sz)\<rparr>)),
                      environment_count := pos + 1\<rparr>)))
     | _ \<Rightarrow> (-1, p))"

text \<open>Returns the result and the caller's buffer.\<close>

definition get_environment :: "env_block \<Rightarrow> buffer \<Rightarrow> buffer \<Rightarrow> u32 \<Rightarrow> int \<times> buffer" where
  "get_environment p name data sz =
     (let i = env_find p name in
      if i < environment_count p then
        (let new_size = (if env_size (env_array p i) > sz then sz else env_size (env_array p i))
         in (sint new_size, memcpy data (env_data (env_array p i)) (unat new_size)))
      else (-1, data))"

definition get_environment_size :: "env_block \<Rightarrow> buffer \<Rightarrow> int \<times> u32 option" where
  "get_environment_size p name =
     (let i = env_find p name in
      if i < environment_count p then (0, Some (env_size (env_array p i))) else (-1, None))"

definition get_environment_information :: "env_block \<Rightarrow> int \<Rightarrow> buffer \<Rightarrow> int \<times> (buffer \<times> u32) option" where
  "get_environment_information p i name =
     (if i < 0 then (-1, None)
      else if i \<ge> int (environment_count p) then (-1, None)
      else (0, Some (strncpy name (env_name (env_array p (nat i))) ENVIRONMENT_NAME_LENGTH,
                     env_size (env_array p (nat i)))))"

text \<open>The single loop that looks for the entry and, once it is found, moves the rest down.\<close>

function remove_env_loop :: "buffer \<Rightarrow> nat \<Rightarrow> nat \<Rightarrow> bool \<Rightarrow> (nat \<Rightarrow> environ_info) \<Rightarrow> bool \<times> (nat \<Rightarrow> environ_info)" where
  "remove_env_loop name n i found env =
     (if i < n then
        if \<not> found then
          remove_env_loop name n (i + 1) (strncmp (env_name (env i)) name ENVIRONMENT_NAME_LENGTH = 0) env
        else remove_env_loop name n (i + 1) True
          (env(i - 1 := \<lparr>env_name = memcpy (env_name (env (i - 1))) (env_name (env i)) (unat ENVIRONMENT_NAME_LENGTH),
                         env_size = env_size (env i), env_data = env_data (env i)\<rparr>))
      else (found, env))"
  by pat_completeness auto
termination
  by (relation "measure (\<lambda>(name, n, i, found, env). n - i)") auto

declare remove_env_loop.simps [simp del]

text \<open>\<open>realloc\<close> to a smaller size keeps the entries; to size 0 it frees the block.\<close>

definition remove_environment :: "env_block \<Rightarrow> buffer \<Rightarrow> int \<times> env_block" where
  "remove_environment p name =
     (case remove_env_loop name (environment_count p) 0 False (env_array p) of
        (False, _) \<Rightarrow> (-1, p)
      | (True, env) \<Rightarrow>
          (0, p\<lparr>environment := (if environment_count p - 1 = 0 then None else Some env),
                environment_count := environment_count p - 1\<rparr>))"

definition release_environment :: "env_block \<Rightarrow> int \<times> env_block" where
  "release_environment p = (0, p\<lparr>environment := None, environment_count := 0\<rparr>)"

text \<open>\<open>oks i\<close>: the outcomes of the allocations made for entry \<open>i\<close>.\<close>

function clone_loop :: "(nat \<Rightarrow> bool \<times> bool) \<Rightarrow> (nat \<Rightarrow> environ_info) \<Rightarrow> (nat \<Rightarrow> environ_info) \<Rightarrow> nat \<Rightarrow> nat \<Rightarrow>
    env_block \<Rightarrow> int \<times> env_block" where
  "clone_loop oks junk env n i dest =
     (if i < n then
        (case set_environment (fst (oks i)) (snd (oks i)) junk dest
            (Some (env_name (env i))) (Some (env_data (env i))) (env_size (env i)) of
           (rc, dest') \<Rightarrow> if rc \<noteq> 0 then (-1, snd (release_environment dest'))
                        else clone_loop oks junk env n (i + 1) dest')
      else (0, dest))"
  by pat_completeness auto
termination
  by (relation "measure (\<lambda>(oks, junk, env, n, i, dest). n - i)") auto

declare clone_loop.simps [simp del]

definition clone_environment :: "(nat \<Rightarrow> bool \<times> bool) \<Rightarrow> (nat \<Rightarrow> environ_info) \<Rightarrow> env_block \<Rightarrow> env_block \<Rightarrow> int \<times> env_block" where
  "clone_environment oks junk dest src =
     (case release_environment dest of (rc, dest') \<Rightarrow>
        if rc \<noteq> 0 then (-1, dest')
        else (case environment src of
            None \<Rightarrow> (0, dest')
          | Some env \<Rightarrow> clone_loop oks junk env (environment_count src) 0 dest'))"

subsection \<open>The environment as a finite map\<close>

definition env_key :: "buffer \<Rightarrow> byte list" where
  "env_key name = cstr name (unat ENVIRONMENT_NAME_LENGTH)"

definition env_pair :: "environ_info \<Rightarrow> byte list \<times> byte list" where
  "env_pair x = (env_key (env_name x), arr_list (env_data x) (unat (env_size x)))"

definition env_alist :: "env_block \<Rightarrow> (byte list \<times> byte list) list" where
  "env_alist p = map env_pair (arr_list (env_array p) (environment_count p))"

definition env_map :: "env_block \<Rightarrow> byte list \<rightharpoonup> byte list" where
  "env_map p = map_of (env_alist p)"

definition env_inv :: "env_block \<Rightarrow> bool" where
  "env_inv p \<longleftrightarrow> distinct (map fst (env_alist p)) \<and>
     (\<forall>k\<in>set (map fst (env_alist p)). length k < unat ENVIRONMENT_NAME_LENGTH) \<and>
     (\<forall>i<environment_count p. env_size (env_array p i) \<noteq> 0) \<and>
     (0 < environment_count p \<longrightarrow> environment p \<noteq> None)"

text \<open>A name of fewer than 1024 characters.\<close>

definition name_fits :: "buffer \<Rightarrow> bool" where
  "name_fits name \<longleftrightarrow> (\<exists>i<unat ENVIRONMENT_NAME_LENGTH. name i = 0)"

lemma name_fits_length: "name_fits name \<longleftrightarrow> length (env_key name) < unat ENVIRONMENT_NAME_LENGTH"
proof
  assume "name_fits name"
  then obtain i where "i < unat ENVIRONMENT_NAME_LENGTH" "name i = 0" by (auto simp: name_fits_def)
  then obtain k where "k < unat ENVIRONMENT_NAME_LENGTH" "name k = 0" "\<And>j. j < k \<Longrightarrow> name j \<noteq> 0"
    using exists_least_iff [of "\<lambda>k. name k = 0"] by (metis le_less_trans not_less)
  with cstr_until [of k "unat ENVIRONMENT_NAME_LENGTH" name]
  show "length (env_key name) < unat ENVIRONMENT_NAME_LENGTH" by (simp add: env_key_def)
next
  assume "length (env_key name) < unat ENVIRONMENT_NAME_LENGTH"
  then show "name_fits name"
    using cstr_full [of "unat ENVIRONMENT_NAME_LENGTH" name] by (fastforce simp: name_fits_def env_key_def)
qed

lemma same_name:
  "strncmp a b ENVIRONMENT_NAME_LENGTH = 0 \<longleftrightarrow> env_key a = env_key b"
  by (simp add: strncmp_zero_iff env_key_def ENVIRONMENT_NAME_LENGTH_def)

lemma env_find_key:
  "env_find p name = arr_find (\<lambda>i. fst (env_pair (env_array p i)) = env_key name) (environment_count p) 0"
  by (simp add: env_find_def same_name env_pair_def)

lemma env_map_lookup:
  "env_map p (env_key name) =
     (if env_find p name < environment_count p
      then Some (snd (env_pair (env_array p (env_find p name)))) else None)"
  by (simp add: env_map_def env_alist_def map_of_arr env_find_key Let_def)

lemma env_find_le: "env_find p name \<le> environment_count p"
  by (simp add: env_find_def arr_find_le)

lemma env_find_hit:
  "env_find p name < environment_count p \<Longrightarrow> env_key (env_name (env_array p (env_find p name))) = env_key name"
  using arr_find_hit [of "\<lambda>i. fst (env_pair (env_array p i)) = env_key name" "environment_count p" 0]
  by (simp add: env_find_key env_pair_def)

lemma stored_name: "name_fits name \<Longrightarrow> env_key (strncpy d name ENVIRONMENT_NAME_LENGTH) = env_key name"
  using strncpy_result [of ENVIRONMENT_NAME_LENGTH d name]
  by (simp add: name_fits_def env_key_def ENVIRONMENT_NAME_LENGTH_def)

lemma map_arr_list: "map f (arr_list a n) = arr_list (\<lambda>i. f (a i)) n"
  by (simp add: arr_list_def)

lemma arr_list_memcpy [simp]: "arr_list (memcpy d s n) n = arr_list s n"
  by (rule arr_list_cong) (simp add: memcpy_at)

lemma map_of_snoc: "map_of xs k = None \<Longrightarrow> map_of (xs @ [(k, v)]) = (map_of xs)(k \<mapsto> v)"
  by (auto simp: fun_eq_iff map_add_def split: option.split)

text \<open>Overwriting an entry, and appending one.\<close>

lemma env_overwrite:
  assumes "env_inv p" "i = env_find p name" "i < environment_count p" "env_size x \<noteq> 0"
    "env_name x = env_name (env_array p i)"
  defines "p' \<equiv> p\<lparr>environment := Some ((env_array p)(i := x))\<rparr>"
  shows "env_inv p'" "env_map p' = (env_map p)(env_key name \<mapsto> snd (env_pair x))"
proof -
  have key: "env_key (env_name x) = env_key name" using env_find_hit assms(2,3,5) by simp
  have fst': "fst (env_pair (env_array p' j)) = fst (env_pair (env_array p j))" for j
    using assms(5) by (simp add: p'_def env_pair_def)
  have "map fst (env_alist p') = map fst (env_alist p)"
    by (simp add: env_alist_def map_arr_list fst') (simp add: p'_def)
  with assms(1,3,4) show "env_inv p'" by (auto simp: env_inv_def p'_def)
  show "env_map p' = (env_map p)(env_key name \<mapsto> snd (env_pair x))"
  proof
    fix k
    have f: "arr_find (\<lambda>j. fst (env_pair (env_array p' j)) = k) (environment_count p') 0 =
        arr_find (\<lambda>j. fst (env_pair (env_array p j)) = k) (environment_count p) 0" (is "_ = ?f")
      by (simp add: fst') (simp add: p'_def)
    have f1: "?f = i" if "k = env_key name" using that assms(2) by (simp add: env_find_key)
    have f2: "?f \<noteq> i" if "k \<noteq> env_key name"
    proof
      assume "?f = i"
      then have "fst (env_pair (env_array p i)) = k"
        using arr_find_hit [of "\<lambda>j. fst (env_pair (env_array p j)) = k" "environment_count p" 0] assms(3) by simp
      then show False using that key assms(5) by (simp add: env_pair_def)
    qed
    have m: "env_map p' k = (if ?f < environment_count p then Some (snd (env_pair (if ?f = i then x else env_array p ?f))) else None)"
      unfolding env_map_def env_alist_def map_of_arr Let_def f by (simp add: p'_def)
    show "env_map p' k = ((env_map p)(env_key name \<mapsto> snd (env_pair x))) k"
    proof (cases "k = env_key name")
      case True
      then show ?thesis using m f1 assms(3) by simp
    next
      case False
      then show ?thesis using m f2 by (simp add: env_map_def env_alist_def map_of_arr Let_def)
    qed
  qed
qed

lemma env_append:
  assumes "env_inv p" "env_find p name = environment_count p" "env_size x \<noteq> 0"
    "env_key (env_name x) = env_key name" "name_fits name" "\<And>j. j < environment_count p \<Longrightarrow> a j = env_array p j"
  defines "p' \<equiv> p\<lparr>environment := Some (a(environment_count p := x)),
    environment_count := environment_count p + 1\<rparr>"
  shows "env_inv p'" "env_map p' = (env_map p)(env_key name \<mapsto> snd (env_pair x))"
proof -
  have "arr_list a (environment_count p) = arr_list (env_array p) (environment_count p)"
    using assms(6) by (rule arr_list_cong)
  then have al: "env_alist p' = env_alist p @ [env_pair x]"
    by (simp add: env_alist_def p'_def arr_list_Suc)
  have none: "env_map p (env_key name) = None" using assms(2) by (simp add: env_map_lookup)
  then have "env_key name \<notin> fst ` set (env_alist p)"
    by (simp add: env_map_def map_of_eq_None_iff)
  with assms(1,3,4,5,6) show "env_inv p'"
    by (auto simp: env_inv_def al image_iff) (auto simp: env_pair_def p'_def less_Suc_eq name_fits_length)
  show "env_map p' = (env_map p)(env_key name \<mapsto> snd (env_pair x))"
    using none map_of_snoc [of "env_alist p" "env_key name" "snd (env_pair x)"] assms(4)
    by (simp add: env_map_def al env_pair_def)
qed

lemma set_environment_ok:
  assumes "env_inv p" "name_fits name" "sz \<noteq> 0"
  shows "\<exists>p'. set_environment True True junk p (Some name) (Some d) sz = (0, p') \<and> env_inv p' \<and>
    env_map p' = (env_map p)(env_key name \<mapsto> arr_list d (unat sz))"
proof (cases "env_find p name < environment_count p")
  case True
  let ?i = "env_find p name"
  let ?x = "(env_array p ?i)\<lparr>env_size := sz, env_data := memcpy (env_data (junk ?i)) d (unat sz)\<rparr>"
  have "snd (env_pair ?x) = arr_list d (unat sz)" by (simp add: env_pair_def)
  then show ?thesis
    using env_overwrite [OF assms(1) refl True, of ?x] assms(3) True
    by (simp add: set_environment_def Let_def)
next
  case False
  then have eq: "env_find p name = environment_count p" using env_find_le [of p name] by simp
  let ?n = "environment_count p"
  let ?a = "case environment p of None \<Rightarrow> junk | Some a \<Rightarrow> a(?n := junk ?n)"
  let ?x = "\<lparr>env_name = strncpy (env_name (?a ?n)) name ENVIRONMENT_NAME_LENGTH,
     env_size = sz, env_data = memcpy (env_data (?a ?n)) d (unat sz)\<rparr>"
  have "\<And>j. j < ?n \<Longrightarrow> ?a j = env_array p j"
    using assms(1) by (auto simp: env_inv_def split: option.splits)
  moreover have "snd (env_pair ?x) = arr_list d (unat sz)" by (simp add: env_pair_def)
  ultimately show ?thesis
    using env_append [OF assms(1) eq, of ?x ?a] assms(2,3) stored_name False
    by (simp add: set_environment_def Let_def)
qed

text \<open>Moving the entries down.\<close>

lemma remove_env_loop_shift:
  assumes "0 < i" "i \<le> n"
  shows "\<exists>env'. remove_env_loop name n i True env = (True, env') \<and>
    (\<forall>j. env_pair (env' j) = env_pair (if i - 1 \<le> j \<and> j < n - 1 then env (j + 1) else env j) \<and>
         env_size (env' j) = env_size (if i - 1 \<le> j \<and> j < n - 1 then env (j + 1) else env j))"
  using assms
proof (induction "n - i" arbitrary: i env)
  case 0
  then have "remove_env_loop name n i True env = (True, env)"
    by (subst remove_env_loop.simps) simp
  with 0 show ?case by auto
next
  case (Suc m)
  let ?x = "\<lparr>env_name = memcpy (env_name (env (i - 1))) (env_name (env i)) (unat ENVIRONMENT_NAME_LENGTH),
     env_size = env_size (env i), env_data = env_data (env i)\<rparr>"
  have x: "env_pair ?x = env_pair (env i)"
    using cstr_cong [of "unat ENVIRONMENT_NAME_LENGTH" "memcpy (env_name (env (i - 1))) (env_name (env i)) (unat ENVIRONMENT_NAME_LENGTH)" "env_name (env i)"]
    by (simp add: env_pair_def env_key_def memcpy_at)
  have "i < n" using Suc by linarith
  define e2 where "e2 = env(i - 1 := ?x)"
  have "m = n - (i + 1)" using Suc.hyps(2) by simp
  from \<open>i < n\<close> Suc.prems Suc.hyps(1) [OF this, of e2] obtain env' where e:
    "remove_env_loop name n (i + 1) True e2 = (True, env')"
    "\<And>j. env_pair (env' j) = env_pair (if i \<le> j \<and> j < n - 1 then e2 (j + 1) else e2 j)"
    "\<And>j. env_size (env' j) = env_size (if i \<le> j \<and> j < n - 1 then e2 (j + 1) else e2 j)"
    by auto
  have "remove_env_loop name n i True env = (True, env')"
    using e(1) \<open>i < n\<close> by (simp add: remove_env_loop.simps [of name n i] e2_def)
  moreover have e2: "env_pair (e2 j) = env_pair (if j = i - 1 then env i else env j)"
      "env_size (e2 j) = env_size (if j = i - 1 then env i else env j)" for j
    using x by (simp_all add: e2_def)
  have "env_pair (env' j) = env_pair (if i - 1 \<le> j \<and> j < n - 1 then env (j + 1) else env j) \<and>
      env_size (env' j) = env_size (if i - 1 \<le> j \<and> j < n - 1 then env (j + 1) else env j)" for j
  proof (cases "j = i - 1")
    case True
    then have "\<not> i \<le> j" "j < n - 1" "j + 1 = i" using Suc.prems(1) \<open>i < n\<close> by auto
    then show ?thesis using e(2,3) [of j] e2 [of j] True by (simp only: if_False if_True simp_thms) simp
  next
    case False
    then have "i \<le> j \<longleftrightarrow> i - 1 \<le> j" "j + 1 \<noteq> i - 1 \<or> \<not> i \<le> j" using Suc.prems(1) by auto
    then show ?thesis using e(2,3) [of j] e2 [of j] e2 [of "j + 1"] False by (auto split: if_splits)
  qed
  with calculation show ?case by blast
qed

lemma remove_env_loop_search:
  "remove_env_loop name n i False env =
     (let k = arr_find (\<lambda>j. fst (env_pair (env j)) = env_key name) n i
      in if k < n then remove_env_loop name n (k + 1) True env else (False, env))"
proof (induction "n - i" arbitrary: i)
  case 0
  then show ?case by (simp add: remove_env_loop.simps [of name n i] arr_find.simps [of _ n i])
next
  case (Suc m)
  then show ?case
    by (cases "fst (env_pair (env i)) = env_key name")
      (simp_all add: remove_env_loop.simps [of name n i] arr_find.simps [of _ n i] same_name env_pair_def)
qed

lemma map_of_remove_nth:
  assumes "distinct (map fst xs)" "k < length xs"
  shows "map_of (take k xs @ drop (Suc k) xs) = (map_of xs)(fst (xs ! k) := None)"
    and "distinct (map fst (take k xs @ drop (Suc k) xs))"
proof -
  obtain ys z zs where xs: "xs = ys @ z # zs" "k = length ys"
    using id_take_nth_drop [OF assms(2)] assms(2) by (metis length_take min.absorb2 order_less_imp_le)
  then have "map_of (ys @ zs) = (map_of (ys @ z # zs))(fst z := None)"
    using assms(1)
    by (cases z) (auto simp: fun_eq_iff map_add_def map_of_eq_None_iff image_iff split: option.splits dest!: map_of_SomeD)
  with xs show "map_of (take k xs @ drop (Suc k) xs) = (map_of xs)(fst (xs ! k) := None)" by simp
  show "distinct (map fst (take k xs @ drop (Suc k) xs))" using xs assms(1) by auto
qed

lemma remove_environment_ok:
  assumes "env_inv p" "env_map p (env_key name) \<noteq> None"
  shows "\<exists>p'. remove_environment p name = (0, p') \<and> env_inv p' \<and>
    env_map p' = (env_map p)(env_key name := None)"
proof -
  let ?n = "environment_count p" and ?k = "env_find p name" and ?a = "env_array p"
  have k: "?k < ?n" using assms(2) by (simp add: env_map_lookup split: if_splits)
  obtain env' where e: "remove_env_loop name ?n (?k + 1) True ?a = (True, env')"
    "\<And>j. env_pair (env' j) = env_pair (if ?k \<le> j \<and> j < ?n - 1 then ?a (j + 1) else ?a j)"
    "\<And>j. env_size (env' j) = env_size (if ?k \<le> j \<and> j < ?n - 1 then ?a (j + 1) else ?a j)"
    using remove_env_loop_shift [of "?k + 1" ?n name ?a] k by auto
  let ?p = "p\<lparr>environment := (if ?n - 1 = 0 then None else Some env'), environment_count := ?n - 1\<rparr>"
  have r: "remove_environment p name = (0, ?p)"
    using e(1) k by (simp add: remove_environment_def remove_env_loop_search env_find_key Let_def)
  have "env_alist ?p = arr_list (\<lambda>j. env_pair (env' j)) (?n - 1)"
    by (cases "?n - 1") (simp_all add: env_alist_def map_arr_list)
  also have "\<dots> = arr_list (shift_down (\<lambda>j. env_pair (?a j)) ?k ?n) (?n - 1)"
    by (rule arr_list_cong) (simp add: e(2) shift_down_apply)
  also have "\<dots> = take ?k (env_alist p) @ drop (Suc ?k) (env_alist p)"
    using arr_list_shift_down [OF k, of "\<lambda>j. env_pair (?a j)"] by (simp add: env_alist_def map_arr_list)
  finally have al: "env_alist ?p = take ?k (env_alist p) @ drop (Suc ?k) (env_alist p)" .
  have "length (env_alist p) = ?n" "fst (env_alist p ! ?k) = env_key name"
    using k env_find_hit [OF k] by (simp_all add: env_alist_def env_pair_def)
  then have "env_map ?p = (env_map p)(env_key name := None)" "distinct (map fst (env_alist ?p))"
    using map_of_remove_nth [of "env_alist p" ?k] assms(1) k unfolding al env_map_def
    by (simp_all add: env_inv_def)
  moreover have "set (map fst (env_alist ?p)) \<subseteq> set (map fst (env_alist p))"
    unfolding al by (auto dest: in_set_takeD in_set_dropD)
  then have "\<forall>k\<in>set (map fst (env_alist ?p)). length k < unat ENVIRONMENT_NAME_LENGTH"
    using assms(1) unfolding env_inv_def by blast
  with calculation(2) have "env_inv ?p"
    using assms(1) e(3) unfolding env_inv_def by (intro conjI) auto
  ultimately show ?thesis using r by blast
qed

subsection \<open>Cloning\<close>

text \<open>After \<open>i\<close> rounds the destination holds the first \<open>i\<close> entries of the source.\<close>

lemma clone_loop_ok:
  assumes "\<And>j. oks j = (True, True)" "env_inv dest"
    and "\<And>j. j < n \<Longrightarrow> name_fits (env_name (env j)) \<and> env_size (env j) \<noteq> 0"
    and "distinct (map fst (map env_pair (arr_list env n)))" "i \<le> n"
    and "env_map dest = map_of (map env_pair (arr_list env i))"
  shows "\<exists>dest'. clone_loop oks junk env n i dest = (0, dest') \<and> env_inv dest' \<and>
    env_map dest' = map_of (map env_pair (arr_list env n))"
  using assms(2,5,6)
proof (induction "n - i" arbitrary: i dest)
  case 0
  then have "clone_loop oks junk env n i dest = (0, dest)" by (subst clone_loop.simps) simp
  with 0 show ?case by auto
next
  case (Suc m)
  then have "i < n" by simp
  obtain d where d: "set_environment True True junk dest (Some (env_name (env i))) (Some (env_data (env i))) (env_size (env i)) = (0, d)"
    "env_inv d" "env_map d = (env_map dest)(env_key (env_name (env i)) \<mapsto> arr_list (env_data (env i)) (unat (env_size (env i))))"
    using set_environment_ok [OF Suc.prems(1)] assms(3) \<open>i < n\<close> by metis
  have "fst (env_pair (env i)) \<noteq> fst (env_pair (env j))" if "j < i" for j
    using assms(4) \<open>i < n\<close> that nth_eq_iff_index_eq [of "map fst (map env_pair (arr_list env n))" i j]
    by (simp add: map_arr_list)
  then have "env_map dest (env_key (env_name (env i))) = None"
    using Suc.prems(3) by (fastforce simp: map_of_eq_None_iff in_arr_list env_pair_def)
  then have "env_map d = map_of (map env_pair (arr_list env (i + 1)))"
    using d(3) Suc.prems(3) by (simp add: arr_list_Suc env_pair_def map_of_snoc del: map_of_append)
  moreover have "m = n - (i + 1)" using Suc.hyps(2) by simp
  ultimately obtain dest' where
    "clone_loop oks junk env n (i + 1) d = (0, dest')" "env_inv dest'"
    "env_map dest' = map_of (map env_pair (arr_list env n))"
    using Suc.hyps(1) [of "i + 1" d] d(2) \<open>i < n\<close> by auto
  moreover have "clone_loop oks junk env n i dest = clone_loop oks junk env n (i + 1) d"
    using d(1) assms(1) \<open>i < n\<close> by (subst clone_loop.simps) simp
  ultimately show ?case by auto
qed

lemma released: "env_inv (snd (release_environment p))" "env_map (snd (release_environment p)) = Map.empty"
  by (simp_all add: release_environment_def env_inv_def env_map_def env_alist_def)

lemma clone_loop_memory:
  "clone_loop oks junk env n i dest = (rc, dest') \<Longrightarrow> rc \<noteq> 0 \<Longrightarrow> env_map dest' = Map.empty \<and> environment dest' = None"
proof (induction oks junk env n i dest rule: clone_loop.induct)
  case (1 oks junk env n i dest)
  show ?case
  proof (cases "i < n")
    case True
    obtain r d where s: "set_environment (fst (oks i)) (snd (oks i)) junk dest
        (Some (env_name (env i))) (Some (env_data (env i))) (env_size (env i)) = (r, d)" by fastforce
    show ?thesis
    proof (cases "r = 0")
      case r: True
      with 1 True s show ?thesis by (simp add: clone_loop.simps [of oks junk env n i])
    next
      case False
      with 1 True s show ?thesis
        using released(2) [of d] by (auto simp: clone_loop.simps [of oks junk env n i] release_environment_def)
    qed
  qed (use 1 in \<open>simp add: clone_loop.simps [of oks junk env n i]\<close>)
qed

subsection \<open>Properties\<close>

text \<open>A process with an empty environment, and one holding a variable named 65 with data 1, 2.\<close>

definition env_none :: env_block where
  "env_none = \<lparr>environment = None, environment_count = 0\<rparr>"

definition env_junk :: "nat \<Rightarrow> environ_info" where
  "env_junk = (\<lambda>_. \<lparr>env_name = (\<lambda>_. 9), env_size = 3, env_data = (\<lambda>_. 9)\<rparr>)"

definition env_letter :: "byte \<Rightarrow> buffer" where
  "env_letter c = (\<lambda>_. 0)(0 := c)"

definition env_one :: env_block where
  "env_one = snd (set_environment True True env_junk env_none (Some (env_letter 65)) (Some ((\<lambda>_. 0)(0 := 1, 1 := 2))) 2)"

lemma env_none_inv: "env_inv env_none" "env_map env_none = Map.empty"
  by (simp_all add: env_none_def env_inv_def env_map_def env_alist_def)

lemma env_letter_fits: "name_fits (env_letter c)"
  by (auto simp: name_fits_def env_letter_def ENVIRONMENT_NAME_LENGTH_def intro: exI [of _ 1])

lemma env_one_inv: "env_inv env_one" "env_map env_one (env_key (env_letter 65)) = Some [1, 2]"
  using set_environment_ok [OF env_none_inv(1) env_letter_fits, of 2 env_junk 65 "(\<lambda>_. 0)(0 := 1, 1 := 2)"]
  by (auto simp: env_one_def arr_list_def upt_rec)

text \<open>
  C18. Setting a variable refines map update. With memory available the call succeeds and
  changes exactly that variable, whether it was there or not; without memory for the data
  it fails and changes nothing; when only the array cannot be resized every variable of
  the process is lost, as the comment on \<open>set_environment\<close> warns.
\<close>

theorem set_environment_refines:
  assumes "env_inv p" "name_fits name" "sz \<noteq> 0"
  shows "\<exists>p'. set_environment True True junk p (Some name) (Some d) sz = (0, p') \<and> env_inv p' \<and>
      env_map p' = (env_map p)(env_key name \<mapsto> arr_list d (unat sz)) \<and>
      set_environment False ok junk p (Some name) (Some d) sz = (-1, p) \<and>
      (env_map p (env_key name) = None \<longrightarrow>
        (\<exists>p''. set_environment True False junk p (Some name) (Some d) sz = (-1, p'') \<and> env_map p'' = Map.empty))"
proof -
  have "set_environment False ok junk p (Some name) (Some d) sz = (-1, p)"
    using assms(3) by (simp add: set_environment_def Let_def)
  moreover have "\<exists>p''. set_environment True False junk p (Some name) (Some d) sz = (-1, p'') \<and> env_map p'' = Map.empty"
    if "env_map p (env_key name) = None"
  proof -
    have "\<not> env_find p name < environment_count p" using that by (simp add: env_map_lookup split: if_splits)
    then show ?thesis
      using assms(3) by (simp add: set_environment_def Let_def env_map_def env_alist_def)
  qed
  moreover obtain p' where "set_environment True True junk p (Some name) (Some d) sz = (0, p')"
    "env_inv p'" "env_map p' = (env_map p)(env_key name \<mapsto> arr_list d (unat sz))"
    using set_environment_ok [OF assms, of junk d] by blast
  ultimately show ?thesis by simp
qed

lemma set_environment_refines_witness:
  "\<exists>p'. set_environment True True env_junk env_one (Some (env_letter 66)) (Some (\<lambda>_. 5)) 1 = (0, p') \<and>
     env_map p' = (env_map env_one)(env_key (env_letter 66) \<mapsto> [5])"
  using set_environment_refines [OF env_one_inv(1) env_letter_fits [of 66], of 1 env_junk "\<lambda>_. 5" True]
  by (auto simp: arr_list_def)

text \<open>
  Reading refines map lookup: an absent name gives \<open>-1\<close> and an untouched buffer; a stored
  one puts the first bytes of its data, as many as fit, into the buffer.
\<close>

theorem get_environment_refines:
  "case env_map p (env_key name) of
     None \<Rightarrow> get_environment p name buf sz = (-1, buf) \<and> get_environment_size p name = (-1, None)
   | Some v \<Rightarrow> \<exists>full. length v = unat full \<and> get_environment_size p name = (0, Some full) \<and>
       fst (get_environment p name buf sz) = sint (min full sz) \<and>
       arr_list (snd (get_environment p name buf sz)) (unat (min full sz)) = take (unat sz) v"
proof (cases "env_find p name < environment_count p")
  case True
  let ?x = "env_array p (env_find p name)"
  have "unat (min (env_size ?x) sz) = min (unat (env_size ?x)) (unat sz)"
    by (simp add: min_def word_le_nat_alt)
  then have "take (unat sz) (arr_list (env_data ?x) (unat (env_size ?x))) = arr_list (env_data ?x) (unat (min (env_size ?x) sz))"
    by (simp add: min_def take_arr_list split: if_splits)
  with True show ?thesis
    by (auto simp: env_map_lookup get_environment_def get_environment_size_def env_pair_def Let_def min_def not_less
        intro!: exI [of _ "env_size ?x"])
qed (simp add: env_map_lookup get_environment_def get_environment_size_def Let_def)

text \<open>
  Removing refines map deletion: the variable disappears, all others keep their data; a
  name that is not there gives \<open>-1\<close> and changes nothing.
\<close>

theorem remove_environment_refines:
  assumes "env_inv p"
  shows "if env_map p (env_key name) = None then remove_environment p name = (-1, p)
    else \<exists>p'. remove_environment p name = (0, p') \<and> env_inv p' \<and> env_map p' = (env_map p)(env_key name := None)"
proof (cases "env_map p (env_key name) = None")
  case True
  then have "\<not> env_find p name < environment_count p" by (simp add: env_map_lookup split: if_splits)
  with True show ?thesis by (simp add: remove_environment_def remove_env_loop_search env_find_key)
qed (use remove_environment_ok [OF assms, of name] in auto)

lemma remove_environment_refines_witness:
  "\<exists>p'. remove_environment env_one (env_letter 65) = (0, p') \<and>
     env_map p' = (env_map env_one)(env_key (env_letter 65) := None)"
  using remove_environment_refines [OF env_one_inv(1), of "env_letter 65"] env_one_inv(2)
  by (auto split: if_splits)

text \<open>
  Cloning copies the environment: with memory available the destination ends with exactly
  the variables of the source, whatever it held before; when an allocation fails the
  destination ends empty.
\<close>

theorem clone_environment_refines:
  assumes "env_inv src"
  shows "\<exists>p. clone_environment (\<lambda>_. (True, True)) junk dest src = (0, p) \<and> env_inv p \<and>
      env_map p = env_map src \<and>
      (fst (clone_environment oks junk dest src) \<noteq> 0 \<longrightarrow>
        env_map (snd (clone_environment oks junk dest src)) = Map.empty)"
proof -
  have "fst (clone_environment oks junk dest src) \<noteq> 0 \<longrightarrow>
      env_map (snd (clone_environment oks junk dest src)) = Map.empty"
    using clone_loop_memory [of oks junk "env_array src" "environment_count src" 0]
    by (auto simp: clone_environment_def release_environment_def prod_eq_iff split: option.splits)
  moreover have "\<exists>p. clone_environment (\<lambda>_. (True, True)) junk dest src = (0, p) \<and> env_inv p \<and> env_map p = env_map src"
  proof (cases "environment src")
    case None
    then have "environment_count src = 0" using assms(1) by (auto simp: env_inv_def)
    then show ?thesis
      using None released [of dest] by (simp add: clone_environment_def release_environment_def env_map_def env_alist_def)
  next
    case (Some env)
    have r: "env_inv (snd (release_environment dest))" "env_map (snd (release_environment dest)) = map_of (map env_pair (arr_list env 0))"
      by (simp_all add: released)
    have "name_fits (env_name (env i)) \<and> env_size (env i) \<noteq> 0" if "i < environment_count src" for i
      using assms Some that
      by (auto simp: env_inv_def env_alist_def map_arr_list set_arr_list name_fits_length env_pair_def)
    then show ?thesis
      using Some assms clone_loop_ok [OF _ r(1) _ _ _ r(2), of "\<lambda>_. (True, True)" "environment_count src" junk] by (auto simp: clone_environment_def release_environment_def env_inv_def env_map_def env_alist_def)
  qed
  ultimately show ?thesis by blast
qed

lemma clone_environment_refines_witness:
  "\<exists>p. clone_environment (\<lambda>_. (True, True)) env_junk env_none env_one = (0, p) \<and> env_map p = env_map env_one"
  using clone_environment_refines [OF env_one_inv(1), of env_junk env_none "\<lambda>_. (True, True)"] by blast

end
