(* ===== verification/Kernel.thy ===== *)
theory Kernel
  imports Aqueue Htable Rwlock Family Env
begin

section \<open>The kernel's data structures (include/threads.h, process.h, ipc.h, scheduler.h, cpu.h)\<close>

text \<open>
  The structures the kernel's components share, and the state they act on.

  Threads and processes live in stores indexed by address; a pointer that may be NULL is
  an \<open>addr option\<close>, and inside the queue arrays, whose first entries are never NULL, it is a
  plain address. The nodes of the family trees and linear lists that are embedded in the
  two structures are the stores of theory Family. \<open>malloc\<close> and friends are arguments of the
  operations that call them. The code runs on the CPU \<open>CPUID\<close>; \<open>ints\<close> is its interrupt
  flag, and \<open>ipis\<close> logs the interrupts sent to other CPUs.

  Also here: the lookup of a thread in its process by id, and the choice of a fresh id.
\<close>

definition MAX_PORTS :: nat where "MAX_PORTS = 1024"
definition NAME_LENGTH :: u32 where "NAME_LENGTH = 64"
definition MAX_FAST :: nat where "MAX_FAST = 32"
definition PULSE_OBJECTS :: u32 where "PULSE_OBJECTS = 1024"
definition MESSAGE_OBJECTS :: u32 where "MESSAGE_OBJECTS = 256"
definition INITIAL_SCHED_SIZE :: nat where "INITIAL_SCHED_SIZE = 1024"
definition TIMESLICE :: u64 where "TIMESLICE = 10"

datatype thread_state =
  THREAD_SYSTEM | THREAD_RUNNING | THREAD_SUSPENDED | THREAD_DORMANT | THREAD_STOPPED
  | THREAD_SEMAPHORE | THREAD_SLEEPING | THREAD_WAITING | THREAD_FINISHED | THREAD_CRASHED
  | THREAD_IRQ
  | THREAD_OTHER u32 \<comment> \<open>a number that has no name; a user can ask for it\<close>

definition thread_states :: "thread_state list" where
  "thread_states = [THREAD_SYSTEM, THREAD_RUNNING, THREAD_SUSPENDED, THREAD_DORMANT, THREAD_STOPPED, THREAD_SEMAPHORE, THREAD_SLEEPING,
     THREAD_WAITING, THREAD_FINISHED, THREAD_CRASHED, THREAD_IRQ]"

definition state_of :: "u32 \<Rightarrow> thread_state" where
  "state_of n = (if unat n < length thread_states then thread_states ! unat n else THREAD_OTHER n)"

text \<open>The state as an \<open>int\<close>, in which a negative number says that nothing is requested.\<close>

fun request_of :: "thread_state \<Rightarrow> thread_state option" where
  "request_of (THREAD_OTHER n) = (if sint n < 0 then None else Some (THREAD_OTHER n))"
| "request_of st = Some st"

record thread =
  t_name :: buffer
  t_tid :: int
  t_state :: thread_state
  t_process :: "addr option"
  t_irq :: int
  t_duration :: u64
  t_event_tid :: int
  t_rc :: int
  t_ports :: "nat \<Rightarrow> int"
  t_last_port_pulse :: int
  t_last_port_message :: int
  t_cpu :: int
  t_cpu_affinity :: int
  t_fast_queued :: int
  t_interrupts_disabled :: int
  t_stack_kernel :: u32
  t_stack_user :: u32
  t_stack :: u32
  t_math_state :: int

record pulse =
  pl_source_pid :: int
  pl_source_port :: int
  pl_dest_port :: int
  pl_data :: "u32 list" \<comment> \<open>data1 to data6\<close>

record message =
  msg_source_pid :: int
  msg_source_port :: int
  msg_dest_port :: int
  msg_bytes :: int
  msg_data :: buffer

record ipc_block =
  ipc_tid :: int
  ipc_flags :: u32
  pulse_q :: "pulse aqueue option"
  message_q :: "message aqueue option"

record process =
  p_name :: buffer
  p_pid :: int
  p_state :: int
  p_lock :: rwlock
  p_threads :: "addr option"
  p_threads_htable :: "addr htable"
  p_thread_count :: int
  p_last_tid :: int
  p_kernel_threads :: u32
  p_flags :: u32
  p_event_hooks :: int
  p_event_pid :: int
  p_event_tid :: int
  p_rc :: int
  p_env :: env_block
  p_ipc :: "nat \<Rightarrow> ipc_block"

record paused_schedule =
  ps_tr :: addr
  ps_state :: thread_state
  ps_request :: u64
  ps_start :: u64

record scheduler_info =
  si_cpu_id :: nat
  si_current_thread :: "addr option"
  requesting_state :: "thread_state option" \<comment> \<open>\<open>-1\<close> is \<open>None\<close>\<close>
  requesting_thread :: "addr option"
  sched_queue :: "nat \<Rightarrow> addr"
  pause_queue :: "nat \<Rightarrow> paused_schedule"
  sched_count :: nat
  pause_count :: nat
  sched_size :: nat
  pause_size :: nat
  si_running :: bool
  si_idle :: bool
  lock_scheduler :: bool
  lock_flags :: bool
  nested_lock :: nat
  position :: u32
  fast_queue_arr :: "nat \<Rightarrow> addr"
  fast_start :: nat
  fast_stop :: nat

record cpu_info =
  sched :: scheduler_info
  st_systemTime :: u64 \<comment> \<open>the \<open>usage\<close> field, in milliseconds\<close>

record kstate =
  threads :: "addr \<Rightarrow> thread"
  procs :: "addr \<Rightarrow> process"
  cpu :: "nat \<Rightarrow> cpu_info"
  cpu_count :: nat
  CPUID :: nat
  ints :: bool
  ipis :: "nat list"
  sched_global_lock :: bool
  tfam :: fam_store
  tlist :: list_store
  pfam :: fam_store
  plist :: list_store
  l_processTable :: "addr htable"
  l_rootProcess :: "addr option"
  l_processLock :: rwlock
  l_PID :: int
  l_PIDlock :: bool

text \<open>Assignments through a pointer.\<close>

definition upd_thread :: "addr \<Rightarrow> (thread \<Rightarrow> thread) \<Rightarrow> kstate \<Rightarrow> kstate" where
  "upd_thread a f k = k\<lparr>threads := (threads k)(a := f (threads k a))\<rparr>"

definition upd_proc :: "addr \<Rightarrow> (process \<Rightarrow> process) \<Rightarrow> kstate \<Rightarrow> kstate" where
  "upd_proc a f k = k\<lparr>procs := (procs k)(a := f (procs k a))\<rparr>"

definition upd_sched :: "nat \<Rightarrow> (scheduler_info \<Rightarrow> scheduler_info) \<Rightarrow> kstate \<Rightarrow> kstate" where
  "upd_sched c f k = k\<lparr>cpu := (cpu k)(c := (cpu k c)\<lparr>sched := f (sched (cpu k c))\<rparr>)\<rparr>"

definition upd_ipc :: "addr \<Rightarrow> nat \<Rightarrow> (ipc_block \<Rightarrow> ipc_block) \<Rightarrow> kstate \<Rightarrow> kstate" where
  "upd_ipc a i f = upd_proc a (\<lambda>p. p\<lparr>p_ipc := (p_ipc p)(i := f (p_ipc p i))\<rparr>)"

abbreviation sc :: "kstate \<Rightarrow> nat \<Rightarrow> scheduler_info" where
  "sc k c \<equiv> sched (cpu k c)"

abbreviation ipc :: "kstate \<Rightarrow> addr \<Rightarrow> nat \<Rightarrow> ipc_block" where
  "ipc k a i \<equiv> p_ipc (procs k a) i"

text \<open>\<open>current_thread()\<close>\<close>

definition current_thread :: "kstate \<Rightarrow> addr option" where
  "current_thread k = si_current_thread (sc k (CPUID k))"

lemma upd_thread_simps [simp]:
  "threads (upd_thread a f k) = (threads k)(a := f (threads k a))"
  "procs (upd_thread a f k) = procs k" "cpu (upd_thread a f k) = cpu k"
  "cpu_count (upd_thread a f k) = cpu_count k" "CPUID (upd_thread a f k) = CPUID k"
  "ints (upd_thread a f k) = ints k" "ipis (upd_thread a f k) = ipis k"
  "l_processTable (upd_thread a f k) = l_processTable k" "l_rootProcess (upd_thread a f k) = l_rootProcess k"
  "l_processLock (upd_thread a f k) = l_processLock k"
  "tfam (upd_thread a f k) = tfam k" "tlist (upd_thread a f k) = tlist k"
  "pfam (upd_thread a f k) = pfam k" "plist (upd_thread a f k) = plist k"
  "sched_global_lock (upd_thread a f k) = sched_global_lock k"
  "current_thread (upd_thread a f k) = current_thread k"
  by (simp_all add: upd_thread_def current_thread_def)

lemma upd_proc_simps [simp]:
  "threads (upd_proc a g k) = threads k"
  "procs (upd_proc a g k) = (procs k)(a := g (procs k a))" "cpu (upd_proc a g k) = cpu k"
  "cpu_count (upd_proc a g k) = cpu_count k" "CPUID (upd_proc a g k) = CPUID k"
  "ints (upd_proc a g k) = ints k" "ipis (upd_proc a g k) = ipis k"
  "l_processTable (upd_proc a g k) = l_processTable k" "l_rootProcess (upd_proc a g k) = l_rootProcess k"
  "l_processLock (upd_proc a g k) = l_processLock k"
  "tfam (upd_proc a g k) = tfam k" "tlist (upd_proc a g k) = tlist k"
  "pfam (upd_proc a g k) = pfam k" "plist (upd_proc a g k) = plist k"
  "sched_global_lock (upd_proc a g k) = sched_global_lock k"
  "current_thread (upd_proc a g k) = current_thread k"
  by (simp_all add: upd_proc_def current_thread_def)

lemma upd_sched_simps [simp]:
  "threads (upd_sched c h k) = threads k" "procs (upd_sched c h k) = procs k"
  "sc (upd_sched c h k) d = (if d = c then h (sc k c) else sc k d)"
  "st_systemTime (cpu (upd_sched c h k) d) = st_systemTime (cpu k d)"
  "cpu_count (upd_sched c h k) = cpu_count k" "CPUID (upd_sched c h k) = CPUID k"
  "ints (upd_sched c h k) = ints k" "ipis (upd_sched c h k) = ipis k"
  "l_processTable (upd_sched c h k) = l_processTable k" "l_rootProcess (upd_sched c h k) = l_rootProcess k"
  "l_processLock (upd_sched c h k) = l_processLock k"
  "tfam (upd_sched c h k) = tfam k" "tlist (upd_sched c h k) = tlist k"
  "pfam (upd_sched c h k) = pfam k" "plist (upd_sched c h k) = plist k"
  "sched_global_lock (upd_sched c h k) = sched_global_lock k"
  by (simp_all add: upd_sched_def)

lemma upd_ipc_simps [simp]:
  "threads (upd_ipc a i f k) = threads k" "cpu (upd_ipc a i f k) = cpu k"
  "ipc (upd_ipc a i f k) b j = (if b = a \<and> j = i then f (ipc k a i) else ipc k b j)"
  "p_threads_htable (procs (upd_ipc a i f k) b) = p_threads_htable (procs k b)"
  by (simp_all add: upd_ipc_def)

subsection \<open>Looking a thread up\<close>

text \<open>
  A sample for the table: the \<open>struct thread temp\<close> with its id and name set.
\<close>

type_synonym sample = "int \<times> buffer"

definition empty_name :: buffer where "empty_name = (\<lambda>_. 0)"

definition threads_key :: "int \<Rightarrow> int" where
  "threads_key tid = (let ans = wrap32 (tid * 100) in if ans < 0 then wrap32 (- ans) else ans)"

definition threads_compare :: "thread \<Rightarrow> sample \<Rightarrow> int" where
  "threads_compare a b =
     (if fst b \<noteq> -1 then (if t_tid a < fst b then -1 else if t_tid a > fst b then 1 else 0)
      else strncmp (t_name a) (snd b) NAME_LENGTH)"

definition get_thread :: "kstate \<Rightarrow> addr \<Rightarrow> int \<Rightarrow> addr option option" where
  "get_thread k proc tid =
     htable_retrieve (\<lambda>s. threads_key (fst s)) (\<lambda>a s. threads_compare (threads k a) s)
       (p_threads_htable (procs k proc)) (tid, empty_name)"

text \<open>
  The search for a free id starts at \<open>last_tid\<close>, wraps below zero to 1 and runs until the
  table has no thread of that id: \<open>None\<close> also when it never ends.
\<close>

partial_function (option) next_tid_loop :: "kstate \<Rightarrow> addr \<Rightarrow> bool \<Rightarrow> int \<Rightarrow> int option" where
  "next_tid_loop k proc first last_tid =
     do { let last = (if first then last_tid
                      else let l = wrap32 (last_tid + 1) in if l < 0 then 1 else l);
          r \<leftarrow> get_thread k proc last;
          if r = None then Some last else next_tid_loop k proc False last }"

definition next_tid :: "kstate \<Rightarrow> addr \<Rightarrow> (int \<times> kstate) option" where
  "next_tid k proc =
     do { tid \<leftarrow> next_tid_loop k proc True (p_last_tid (procs k proc));
          Some (tid, upd_proc proc (\<lambda>p. p\<lparr>p_last_tid := wrap32 (tid + 1)\<rparr>) k) }"

text \<open>
  The thread table of a process: its entries are threads of the process with distinct
  small ids, so that keys do not overflow.
\<close>

definition tid_small :: "int \<Rightarrow> bool" where
  "tid_small tid \<longleftrightarrow> 0 < tid \<and> tid \<le> 2 ^ 23"

definition tkey :: "kstate \<Rightarrow> addr \<Rightarrow> int" where
  "tkey k a = threads_key (t_tid (threads k a))"

definition thread_addrs :: "kstate \<Rightarrow> addr \<Rightarrow> addr list" where
  "thread_addrs k proc = ht_list (p_threads_htable (procs k proc))"

definition threads_ok :: "kstate \<Rightarrow> addr \<Rightarrow> bool" where
  "threads_ok k proc \<longleftrightarrow> ht_ready (tkey k) (p_threads_htable (procs k proc)) \<and>
     distinct (map (\<lambda>a. t_tid (threads k a)) (thread_addrs k proc)) \<and>
     (\<forall>a\<in>set (thread_addrs k proc). tid_small (t_tid (threads k a)) \<and> t_process (threads k a) = Some proc)"

lemma threads_key_small: "tid_small tid \<Longrightarrow> threads_key tid = tid * 100 \<and> key_small (threads_key tid)"
  by (simp add: tid_small_def threads_key_def key_small_def ht_abs_key_def Let_def)

lemma threads_compare_tid: "tid \<noteq> -1 \<Longrightarrow> threads_compare a (tid, n) = 0 \<longleftrightarrow> t_tid a = tid"
  by (simp add: threads_compare_def)

lemma get_thread_iff:
  assumes "threads_ok k proc" "tid_small tid"
  shows "\<exists>r. get_thread k proc tid = Some r \<and>
    (\<forall>a. r = Some a \<longleftrightarrow> a \<in> set (thread_addrs k proc) \<and> t_tid (threads k a) = tid)"
proof -
  have ht: "ht_ready (tkey k) (p_threads_htable (procs k proc))"
    and dis: "inj_on (\<lambda>a. t_tid (threads k a)) (set (thread_addrs k proc))"
    using assms(1) by (auto simp: threads_ok_def distinct_map)
  have "tid \<noteq> -1" "key_small (threads_key (fst (tid, empty_name)))"
    using assms(2) threads_key_small [of tid] by (auto simp: tid_small_def)
  with ht.look_ok [where skey = "\<lambda>s. threads_key (fst s)" and s = "(tid, empty_name)"
      and cmp = "\<lambda>a s. threads_compare (threads k a) s", OF ht]
  obtain r where r: "get_thread k proc tid = Some r"
    "case r of None \<Rightarrow> \<forall>a. a \<in> set (thread_addrs k proc) \<longrightarrow> t_tid (threads k a) \<noteq> tid
     | Some a \<Rightarrow> a \<in> set (thread_addrs k proc) \<and> t_tid (threads k a) = tid"
    by (auto simp: get_thread_def thread_addrs_def threads_compare_tid split: option.splits)
  with dis show ?thesis by (cases r) (auto dest: inj_onD)
qed

lemma get_thread_some:
  assumes "threads_ok k proc" "a \<in> set (thread_addrs k proc)"
  shows "get_thread k proc (t_tid (threads k a)) = Some (Some a)"
proof -
  have "tid_small (t_tid (threads k a))" using assms by (auto simp: threads_ok_def)
  with get_thread_iff [OF assms(1) this] assms(2) show ?thesis by auto
qed

lemma get_thread_cong:
  assumes "p_threads_htable (procs k' proc) = p_threads_htable (procs k proc)"
    "\<And>a. t_tid (threads k' a) = t_tid (threads k a)" "\<And>a. t_name (threads k' a) = t_name (threads k a)"
  shows "get_thread k' proc tid = get_thread k proc tid"
  unfolding get_thread_def threads_compare_def assms ..

subsection \<open>Fresh ids\<close>

text \<open>
  Thread ids, process ids and ids of shared regions are chosen by the same loop: from a counter on, up to the first id the
  table does not know. The locale is what that loop relies on; the lemma is that it ends.
\<close>

locale id_counter =
  fixes look :: "'k \<Rightarrow> int \<Rightarrow> 'a option option"
    and loop :: "'k \<Rightarrow> bool \<Rightarrow> int \<Rightarrow> int option"
    and used :: "'k \<Rightarrow> int set"
    and inv :: "'k \<Rightarrow> bool"
    and least :: int
  assumes least_pos: "0 \<le> least"
    and look_free: "inv k \<Longrightarrow> least \<le> q \<Longrightarrow> q \<le> 2 ^ 23 \<Longrightarrow> \<exists>r. look k q = Some r \<and> (r = None \<longleftrightarrow> q \<notin> used k)"
    and used_finite: "finite (used k)"
    and loop_first: "look k q = Some r \<Longrightarrow> loop k True q = (if r = None then Some q else loop k False q)"
    and loop_next: "0 \<le> q \<Longrightarrow> q < 2 ^ 31 - 1 \<Longrightarrow> loop k False q = loop k True (q + 1)"
begin

lemma loop_from:
  assumes inv: "inv k" and "card {i \<in> used k. q \<le> i} = n" "least \<le> q" "q + int n \<le> 2 ^ 23"
  shows "\<exists>i. loop k True q = Some i \<and> q \<le> i \<and> i \<le> q + int n \<and> i \<notin> used k"
  using assms(2-)
proof (induction n arbitrary: q rule: less_induct)
  case (less n)
  obtain r where r: "look k q = Some r" "r = None \<longleftrightarrow> q \<notin> used k"
    using look_free [OF inv less(3)] less(4) by auto
  show ?case
  proof (cases "q \<in> used k")
    case False
    then show ?thesis using r loop_first [OF r(1)] by auto
  next
    case True
    let ?m = "card {i \<in> used k. q + 1 \<le> i}"
    have "q \<in> {i \<in> used k. q \<le> i}" "q \<notin> {i \<in> used k. q + 1 \<le> i}" using True by simp_all
    then have "{i \<in> used k. q + 1 \<le> i} \<subset> {i \<in> used k. q \<le> i}" by fastforce
    then have lt: "?m < n" unfolding less(2) [symmetric] by (intro psubset_card_mono) (simp add: used_finite)
    have "loop k True q = loop k True (q + 1)"
      using loop_first [OF r(1)] r(2) True loop_next [of q k] less(3,4) least_pos by simp
    moreover have "\<exists>i. loop k True (q + 1) = Some i \<and> q + 1 \<le> i \<and> i \<le> q + 1 + int ?m \<and> i \<notin> used k"
      by (rule less(1) [OF lt refl]) (use less(3,4) lt in auto)
    ultimately show ?thesis using lt by force
  qed
qed

lemma loop_fresh:
  assumes "inv k" "least \<le> q" "q + int (card (used k)) \<le> 2 ^ 23"
  shows "\<exists>i. loop k True q = Some i \<and> q \<le> i \<and> i \<le> q + int (card (used k)) \<and> i \<notin> used k"
proof -
  have "card {i \<in> used k. q \<le> i} \<le> card (used k)" by (rule card_mono [OF used_finite]) auto
  then show ?thesis using loop_from [OF assms(1) refl assms(2)] assms(3) by fastforce
qed

end

definition tids :: "kstate \<Rightarrow> addr \<Rightarrow> int set" where
  "tids k proc = (\<lambda>a. t_tid (threads k a)) ` set (thread_addrs k proc)"

interpretation tid: id_counter
  "\<lambda>(k, proc). get_thread k proc" "\<lambda>(k, proc). next_tid_loop k proc" "\<lambda>(k, proc). tids k proc" "\<lambda>(k, proc). threads_ok k proc" 1
proof (unfold_locales, goal_cases)
  case 1
  then show ?case by simp
next
  case (2 kp q)
  then have "tid_small q" "threads_ok (fst kp) (snd kp)" by (simp_all add: tid_small_def split_beta)
  then obtain r where r: "get_thread (fst kp) (snd kp) q = Some r"
    "\<And>a. r = Some a \<longleftrightarrow> a \<in> set (thread_addrs (fst kp) (snd kp)) \<and> t_tid (threads (fst kp) a) = q"
    using get_thread_iff by blast
  have "r = None \<longleftrightarrow> q \<notin> tids (fst kp) (snd kp)"
    unfolding tids_def image_iff using r(2) by (metis not_Some_eq)
  with r(1) show ?case by (simp add: split_beta)
next
  case (3 kp)
  then show ?case by (simp add: tids_def split_beta)
next
  case (4 kp q r)
  then show ?case
    unfolding split_beta by (subst (1) next_tid_loop.simps) simp
next
  case (5 q kp)
  then show ?case
    unfolding split_beta by (subst (1 2) next_tid_loop.simps) (simp add: Let_def)
qed

lemma next_tid_ok:
  assumes "threads_ok k proc" "0 < p_last_tid (procs k proc)" "p_last_tid (procs k proc) + int (length (thread_addrs k proc)) \<le> 2 ^ 23"
  shows "\<exists>i. next_tid k proc = Some (i, upd_proc proc (\<lambda>p. p\<lparr>p_last_tid := i + 1\<rparr>) k) \<and>
    p_last_tid (procs k proc) \<le> i \<and> i \<le> p_last_tid (procs k proc) + int (length (thread_addrs k proc)) \<and> i \<notin> tids k proc"
proof -
  have c: "card (tids k proc) \<le> length (thread_addrs k proc)"
    unfolding tids_def by (rule order_trans [OF card_image_le]) (simp_all add: card_length)
  obtain i where i: "next_tid_loop k proc True (p_last_tid (procs k proc)) = Some i" "p_last_tid (procs k proc) \<le> i"
    "i \<le> p_last_tid (procs k proc) + int (card (tids k proc))" "i \<notin> tids k proc"
    using tid.loop_fresh [of "(k, proc)" "p_last_tid (procs k proc)"] assms c by fastforce
  moreover have "wrap32 (i + 1) = i + 1" using i(2,3) c assms(2,3) by (intro wrap32_id) auto
  ultimately show ?thesis using c by (auto simp: next_tid_def)
qed

subsection \<open>A blank machine\<close>

text \<open>The memory before the kernel runs, for concrete runs of the model.\<close>

definition thread_blank :: thread where
  "thread_blank = \<lparr>t_name = empty_name, t_tid = 1, t_state = THREAD_SUSPENDED, t_process = None, t_irq = -1,
     t_duration = 0, t_event_tid = -1, t_rc = 0, t_ports = (\<lambda>_. -1), t_last_port_pulse = -1,
     t_last_port_message = -1, t_cpu = -1, t_cpu_affinity = -1, t_fast_queued = 0,
     t_interrupts_disabled = 0, t_stack_kernel = 0, t_stack_user = 0, t_stack = 0, t_math_state = -1\<rparr>"

definition ipc_blank :: ipc_block where
  "ipc_blank = \<lparr>ipc_tid = -1, ipc_flags = 0, pulse_q = None, message_q = None\<rparr>"

definition htable_blank :: "addr htable" where
  "htable_blank = \<lparr>ht_total = 0, ht_size = 128, ht_percent = 75, ht_table = (\<lambda>_. None)\<rparr>"

definition process_blank :: process where
  "process_blank = \<lparr>p_name = empty_name, p_pid = 1, p_state = 0, p_lock = init_rwlock, p_threads = None,
     p_threads_htable = htable_blank, p_thread_count = 0, p_last_tid = 1, p_kernel_threads = 0,
     p_flags = 0, p_event_hooks = 0, p_event_pid = -1, p_event_tid = -1, p_rc = 0,
     p_env = \<lparr>environment = None, environment_count = 0\<rparr>, p_ipc = (\<lambda>_. ipc_blank)\<rparr>"

definition sched_blank :: scheduler_info where
  "sched_blank = \<lparr>si_cpu_id = 0, si_current_thread = None, requesting_state = None, requesting_thread = None,
     sched_queue = (\<lambda>_. 0), pause_queue = (\<lambda>_. \<lparr>ps_tr = 0, ps_state = THREAD_SYSTEM, ps_request = 0, ps_start = 0\<rparr>),
     sched_count = 0, pause_count = 0, sched_size = 0, pause_size = 0, si_running = False,
     si_idle = False, lock_scheduler = False, lock_flags = False, nested_lock = 0, position = 0,
     fast_queue_arr = (\<lambda>_. 0), fast_start = 0, fast_stop = 0\<rparr>"

definition k_blank :: "nat \<Rightarrow> kstate" where
  "k_blank n = \<lparr>threads = (\<lambda>_. thread_blank), procs = (\<lambda>_. process_blank),
     cpu = (\<lambda>_. \<lparr>sched = sched_blank, st_systemTime = 0\<rparr>), cpu_count = n, CPUID = 0, ints = True,
     ipis = [], sched_global_lock = False,
     tfam = fam_blank, tlist = (\<lambda>_. \<lparr>prev = None, nxt = None\<rparr>),
     pfam = fam_blank, plist = (\<lambda>_. \<lparr>prev = None, nxt = None\<rparr>),
     l_processTable = htable_blank, l_rootProcess = None, l_processLock = init_rwlock,
     l_PID = 1, l_PIDlock = False\<rparr>"

end
