(* ===== verification/Scheduler.thy ===== *)
theory Scheduler
  imports Kernel
begin

section \<open>The scheduler (src/scheduler.c, and set_thread_state and exec_thread of src/threads.c)\<close>

text \<open>
  Every CPU has a run queue, a queue of timed sleepers ordered by wake-up time and a ring
  of fast-queued (interrupt) threads, all guarded by the CPU's scheduler lock. An operation
  returns \<open>None\<close> when an assertion fails or when it would wait for ever for a lock the
  same CPU holds.

  Waiting for another CPU (\<open>complete\<close>) ends when that CPU's \<open>exec_thread\<close> has left its
  thread, which it does by clearing \<open>current_thread\<close> and \<open>running\<close>; both fields are clear
  after the wait.
\<close>

subsection \<open>Locks\<close>

definition disable_interrupts :: "kstate \<Rightarrow> bool \<times> kstate" where
  "disable_interrupts k = (ints k, k\<lparr>ints := False\<rparr>)"

definition enable_interrupts :: "kstate \<Rightarrow> kstate" where
  "enable_interrupts k = k\<lparr>ints := True\<rparr>"

definition sched_lock :: "kstate \<Rightarrow> int \<Rightarrow> bool \<Rightarrow> kstate option" where
  "sched_lock k cpu_id complete = do {
     assert (0 \<le> cpu_id \<and> cpu_id < int (cpu_count k));
     assert (\<not> (int (CPUID k) = cpu_id \<and> complete));
     let c = nat cpu_id;
     let (lock, k) = disable_interrupts k;
     assert (\<not> lock_scheduler (sc k c));
     let k = upd_sched c (\<lambda>s. s\<lparr>lock_scheduler := True, lock_flags := lock\<rparr>) k;
     let k = (if si_idle (sc k c)
              then (upd_sched c (\<lambda>s. s\<lparr>si_idle := False\<rparr>) k)\<lparr>ipis := ipis k @ [c]\<rparr> else k);
     let k = (if complete
              then upd_sched c (\<lambda>s. s\<lparr>si_running := False, si_current_thread := None\<rparr>) k else k);
     assert (nested_lock (sc k c) = 0);
     Some (upd_sched c (\<lambda>s. s\<lparr>nested_lock := 1\<rparr>) k)
   }"

definition sched_unlock :: "kstate \<Rightarrow> int \<Rightarrow> kstate option" where
  "sched_unlock k cpu_id = do {
     assert (0 \<le> cpu_id \<and> cpu_id < int (cpu_count k));
     let c = nat cpu_id;
     let enable = lock_flags (sc k c);
     assert (nested_lock (sc k c) = 1);
     let k = upd_sched c (\<lambda>s. s\<lparr>nested_lock := 0, lock_scheduler := False\<rparr>) k;
     Some (if int (CPUID k) = cpu_id \<and> enable then enable_interrupts k else k)
   }"

fun sched_lock_from :: "nat \<Rightarrow> nat \<Rightarrow> kstate \<Rightarrow> kstate option" where
  "sched_lock_from 0 i k = Some k"
| "sched_lock_from (Suc n) i k =
     do { k \<leftarrow> sched_lock k (int i) (CPUID k \<noteq> i); sched_lock_from n (Suc i) k }"

definition sched_lock_all :: "kstate \<Rightarrow> kstate option" where
  "sched_lock_all k = do {
     assert (\<not> sched_global_lock k);
     sched_lock_from (cpu_count k) 0 (k\<lparr>sched_global_lock := True\<rparr>)
   }"

fun sched_unlock_from :: "nat \<Rightarrow> nat \<Rightarrow> kstate \<Rightarrow> kstate option" where
  "sched_unlock_from 0 i k = Some k"
| "sched_unlock_from (Suc n) i k = do { k \<leftarrow> sched_unlock k (int i); sched_unlock_from n (Suc i) k }"

definition sched_unlock_all :: "kstate \<Rightarrow> kstate option" where
  "sched_unlock_all k = do {
     k \<leftarrow> sched_unlock_from (cpu_count k) 0 k;
     Some (k\<lparr>sched_global_lock := False\<rparr>)
   }"

subsection \<open>The run queue\<close>

definition load_scheduler :: "kstate \<Rightarrow> nat \<Rightarrow> kstate" where
  "load_scheduler k cpu_id = upd_sched cpu_id (\<lambda>s.
     s\<lparr>si_cpu_id := cpu_id, si_current_thread := None, requesting_state := None,
       requesting_thread := None, sched_queue := (\<lambda>i. if i < INITIAL_SCHED_SIZE then 0 else sched_queue s i),
       sched_count := 0, pause_count := 0, sched_size := INITIAL_SCHED_SIZE,
       pause_size := INITIAL_SCHED_SIZE, lock_scheduler := False, nested_lock := 0,
       si_running := False, si_idle := False, position := 0, fast_start := 0, fast_stop := 0\<rparr>) k"

definition sub_queue :: "kstate \<Rightarrow> nat \<Rightarrow> addr \<Rightarrow> (int \<times> kstate) option" where
  "sub_queue k c tr = do {
     k \<leftarrow> sched_lock k (int c) False;
     if sched_count (sc k c) = sched_size (sc k c)
     then do { k \<leftarrow> sched_unlock k (int c); Some (-1, k) }
     else do {
       let k = upd_sched c (\<lambda>s. s\<lparr>sched_queue := (sched_queue s)(sched_count s := tr),
                                sched_count := sched_count s + 1\<rparr>) k;
       k \<leftarrow> sched_unlock k (int c);
       Some (0, k)
     }
   }"

text \<open>Closing the gap at \<open>pos\<close> and moving the round-robin position back by one.\<close>

definition close_gap :: "nat \<Rightarrow> scheduler_info \<Rightarrow> scheduler_info" where
  "close_gap pos s =
     (let n = sched_count s - 1
      in s\<lparr>sched_queue := shift_down (sched_queue s) pos (sched_count s), sched_count := n,
           position := (if n = 0 then 0 else (position s - 1) mod of_nat n)\<rparr>)"

definition find_queued :: "scheduler_info \<Rightarrow> addr \<Rightarrow> nat" where
  "find_queued s tr = arr_find (\<lambda>i. sched_queue s i = tr) (sched_count s) 0"

definition sub_dequeue :: "kstate \<Rightarrow> nat \<Rightarrow> addr \<Rightarrow> (int \<times> kstate) option" where
  "sub_dequeue k c tr = do {
     assert (current_thread k \<noteq> Some tr);
     k \<leftarrow> sched_lock k (int c) (c \<noteq> CPUID k);
     let pos = find_queued (sc k c) tr;
     assert (pos \<noteq> sched_count (sc k c));
     let k = upd_sched c (close_gap pos) k;
     k \<leftarrow> sched_unlock k (int c);
     Some (0, k)
   }"

text \<open>\<open>id = tr->cpu_affinity; if ( id < 0 ) id = ((tr->tid - 1) % cpu_count);\<close>\<close>

definition home_cpu :: "kstate \<Rightarrow> addr \<Rightarrow> int" where
  "home_cpu k tr =
     (if t_cpu_affinity (threads k tr) < 0
      then c_rem (wrap32 (t_tid (threads k tr) - 1)) (int (cpu_count k))
      else t_cpu_affinity (threads k tr))"

definition queue :: "kstate \<Rightarrow> addr \<Rightarrow> (int \<times> kstate) option" where
  "queue k tr = do {
     let id = home_cpu k tr;
     assert (t_cpu (threads k tr) < 0);
     let k = upd_thread tr (\<lambda>t. t\<lparr>t_cpu := id\<rparr>) k;
     assert (0 \<le> id);
     sub_queue k (nat id) tr
   }"

definition dequeue :: "kstate \<Rightarrow> addr \<Rightarrow> (int \<times> kstate) option" where
  "dequeue k tr = do {
     let id = t_cpu (threads k tr);
     assert (id \<ge> 0);
     (ans, k) \<leftarrow> sub_dequeue k (nat id) tr;
     Some (ans, upd_thread tr (\<lambda>t. t\<lparr>t_cpu := -1\<rparr>) k)
   }"

subsection \<open>Timed sleep\<close>

definition find_paused :: "scheduler_info \<Rightarrow> addr \<Rightarrow> nat" where
  "find_paused s tr = arr_find (\<lambda>i. ps_tr (pause_queue s i) = tr) (pause_count s) 0"

definition restart :: "kstate \<Rightarrow> addr \<Rightarrow> (int \<times> kstate) option" where
  "restart k tr = do {
     let id = home_cpu k tr;
     assert (0 \<le> id);
     let c = nat id;
     k \<leftarrow> sched_lock k id (c \<noteq> CPUID k);
     let pos = find_paused (sc k c) tr;
     assert (pos \<noteq> pause_count (sc k c));
     let ps = pause_queue (sc k c) pos;
     let k = (if pos = 0
       then upd_sched c (\<lambda>s. s\<lparr>pause_queue := (pause_queue s)(0 := (pause_queue s 0)\<lparr>ps_request := 0\<rparr>)\<rparr>) k
       else upd_sched c (\<lambda>s. s\<lparr>pause_queue := (shift_up (pause_queue s) 0 pos)(0 := ps\<lparr>ps_request := 0\<rparr>)\<rparr>) k);
     k \<leftarrow> sched_unlock k id;
     Some (0, k)
   }"

definition set_thread_state :: "kstate \<Rightarrow> addr \<Rightarrow> thread_state \<Rightarrow> kstate option" where
  "set_thread_state k t state =
     (if t_state (threads k t) = state then Some k
      else if current_thread k = Some t then do {
        assert (t_state (threads k t) = THREAD_RUNNING);
        let (ei, k) = disable_interrupts k;
        let k = upd_sched (CPUID k) (\<lambda>s. s\<lparr>requesting_thread := Some t, requesting_state := request_of state\<rparr>) k;
        Some (if ei then enable_interrupts k else k)
      }
      else if t_state (threads k t) = THREAD_DORMANT \<and> t_duration (threads k t) \<noteq> 0 then do {
        assert (state = THREAD_RUNNING);
        (_, k) \<leftarrow> restart k t;
        Some k
      }
      else do {
        k \<leftarrow> (if t_state (threads k t) = THREAD_RUNNING then map_option snd (dequeue k t) else Some k);
        let k = upd_thread t (\<lambda>r. r\<lparr>t_state := state\<rparr>) k;
        (if state = THREAD_RUNNING then map_option snd (queue k t) else Some k)
      })"

definition insert_paused :: "addr \<Rightarrow> thread_state \<Rightarrow> u64 \<Rightarrow> u64 \<Rightarrow> scheduler_info \<Rightarrow> scheduler_info" where
  "insert_paused tr state target now s =
     (let pos = arr_find (\<lambda>i. ps_request (pause_queue s i) > target) (pause_count s) 0
      in s\<lparr>pause_queue := (shift_up (pause_queue s) pos (pause_count s))
             (pos := \<lparr>ps_tr = tr, ps_state = state, ps_request = target, ps_start = now\<rparr>),
           pause_count := pause_count s + 1\<rparr>)"

definition pause :: "kstate \<Rightarrow> addr \<Rightarrow> u64 \<Rightarrow> (int \<times> kstate) option" where
  "pause k tr milliseconds = do {
     assert (milliseconds > 0);
     assert (t_cpu (threads k tr) = int (CPUID k));
     let id = t_cpu (threads k tr);
     let c = nat id;
     k \<leftarrow> sched_lock k id False;
     let now = st_systemTime (cpu k c);
     let target = milliseconds + now;
     if pause_count (sc k c) = pause_size (sc k c)
     then do { k \<leftarrow> sched_unlock k id; Some (-1, k) }
     else do {
       let k = upd_sched c (insert_paused tr (t_state (threads k tr)) target now) k;
       k \<leftarrow> set_thread_state k tr THREAD_DORMANT;
       let k = upd_thread tr (\<lambda>t. t\<lparr>t_duration := milliseconds\<rparr>) k;
       k \<leftarrow> sched_unlock k id;
       Some (0, k)
     }
   }"

text \<open>
  The waking loop of \<open>remove_timers\<close>: \<open>cnt\<close> sleepers have been woken.
\<close>

function wake_loop :: "kstate \<Rightarrow> nat \<Rightarrow> u64 \<Rightarrow> nat \<Rightarrow> (nat \<times> kstate) option" where
  "wake_loop k c time cnt =
     (if pause_count (sc k c) \<noteq> 0 \<and> ps_request (pause_queue (sc k c) cnt) \<le> time then
        (let ps = pause_queue (sc k c) cnt; tr = ps_tr ps in
         if sched_count (sc k c) = sched_size (sc k c) then None
         else wake_loop
           (upd_sched c (\<lambda>s. s\<lparr>sched_queue := (sched_queue s)(sched_count s := tr),
                              sched_count := sched_count s + 1, pause_count := pause_count s - 1\<rparr>)
             (upd_thread tr (\<lambda>t. t\<lparr>t_state := ps_state ps, t_duration := time - ps_start ps,
                                  t_cpu := int (si_cpu_id (sc k c))\<rparr>) k))
           c time (cnt + 1))
      else Some (cnt, k))"
  by pat_completeness auto
termination
  by (relation "measure (\<lambda>(k, c, time, cnt). pause_count (sc k c))") auto

declare wake_loop.simps [simp del]

definition remove_timers :: "kstate \<Rightarrow> nat \<Rightarrow> u64 \<Rightarrow> (u64 \<times> kstate) option" where
  "remove_timers k c time =
     (if pause_count (sc k c) = 0 then Some (0, k)
      else do {
        (cnt, k) \<leftarrow> wake_loop k c time 0;
        let k = upd_sched c (\<lambda>s. s\<lparr>pause_queue := copy_down (pause_queue s) 0 (pause_count s) cnt\<rparr>) k;
        Some (if pause_count (sc k c) = 0 then 0 else ps_request (pause_queue (sc k c) 0) - time, k)
      })"

subsection \<open>The fast queue\<close>

definition fast_queue :: "kstate \<Rightarrow> addr \<Rightarrow> (int \<times> kstate) option" where
  "fast_queue k tr = do {
     let id = t_cpu_affinity (threads k tr);
     assert (id \<ge> 0 \<and> id < int (cpu_count k));
     let c = nat id;
     k \<leftarrow> sched_lock k id False;
     let k = upd_thread tr (\<lambda>t. t\<lparr>t_cpu := id, t_fast_queued := t_fast_queued t + 1\<rparr>) k;
     let new_stop = fast_stop (sc k c);
     let k = upd_sched c (\<lambda>s. s\<lparr>fast_queue_arr := (fast_queue_arr s)(new_stop := tr),
                              fast_stop := (new_stop + 1) mod MAX_FAST\<rparr>) k;
     assert (fast_stop (sc k c) \<noteq> fast_start (sc k c));
     k \<leftarrow> sched_unlock k id;
     Some (0, k)
   }"

definition fast_dequeue :: "kstate \<Rightarrow> addr \<Rightarrow> (int \<times> kstate) option" where
  "fast_dequeue k tr = do {
     let id = t_cpu (threads k tr);
     assert (id \<ge> 0);
     let c = nat id;
     k \<leftarrow> sched_lock k id False;
     assert (t_cpu (threads k tr) = int (CPUID k));
     assert (tr = fast_queue_arr (sc k c) (fast_start (sc k c)));
     let k = upd_sched c (\<lambda>s. s\<lparr>fast_start := (fast_start s + 1) mod MAX_FAST\<rparr>) k;
     let k = upd_thread tr (\<lambda>t. t\<lparr>t_fast_queued := t_fast_queued t - 1\<rparr>) k;
     let k = (if t_fast_queued (threads k tr) = 0 then upd_thread tr (\<lambda>t. t\<lparr>t_cpu := -1\<rparr>) k else k);
     k \<leftarrow> sched_unlock k id;
     Some (0, k)
   }"

definition get_fast :: "scheduler_info \<Rightarrow> addr option" where
  "get_fast s = (if fast_start s = fast_stop s then None else Some (fast_queue_arr s (fast_start s)))"

subsection \<open>The scheduling loop\<close>

definition remove_last :: "kstate \<Rightarrow> nat \<Rightarrow> kstate option" where
  "remove_last k c =
     (case (requesting_thread (sc k c), requesting_state (sc k c)) of
        (Some tr, Some state) \<Rightarrow>
          (let pos = find_queued (sc k c) tr;
               clear = (\<lambda>s. s\<lparr>requesting_thread := None, requesting_state := None\<rparr>) in
           if pos = sched_count (sc k c) then Some (upd_sched c clear k)
           else Some (upd_sched c clear
                  (upd_thread tr (\<lambda>t. t\<lparr>t_state := state, t_cpu := -1\<rparr>)
                    (upd_sched c (close_gap pos) k))))
      | (rt, rs) \<Rightarrow> do { assert (rt = None); assert (rs = None); Some k })"

text \<open>
  What one round of the loop chooses to run, for how long, whether the CPU may be woken,
  and the flag that makes fast and normal threads alternate. \<open>gc_work\<close>: the garbage
  collector has something to do when the run queue is found empty.
\<close>

datatype choice = Run_Fast addr | Run_Thread addr | Run_Idle | Again

definition scheduler_select :: "kstate \<Rightarrow> nat \<Rightarrow> bool \<Rightarrow> bool \<Rightarrow> (choice \<times> u64 \<times> bool \<times> bool \<times> kstate) option" where
  "scheduler_select k c flip gc_work = do {
     (requested_time, k) \<leftarrow> remove_timers k c (st_systemTime (cpu k c));
     (case (if flip then None else get_fast (sc k c)) of
        Some tr \<Rightarrow> Some (Run_Fast tr, TIMESLICE, False, flip, k)
      | None \<Rightarrow>
          if sched_count (sc k c) = 0 then
            if gc_work then Some (Again, requested_time, False, False, k)
            else Some (Run_Idle, requested_time, True, False, k)
          else Some (Run_Thread (sched_queue (sc k c) (unat (position (sc k c)))), TIMESLICE, False, False,
                     upd_sched c (\<lambda>s. s\<lparr>position := (position s + 1) mod of_nat (sched_count s)\<rparr>) k))
   }"

text \<open>After a fast thread ran: \<open>if ( si->sched_count != 0 ) flip = 1;\<close>\<close>

definition scheduler_after_fast :: "kstate \<Rightarrow> nat \<Rightarrow> bool \<Rightarrow> bool" where
  "scheduler_after_fast k c flip = (sched_count (sc k c) \<noteq> 0 \<or> flip)"

text \<open>\<open>exec_thread\<close> up to the switch to the thread, and after the thread has come back.\<close>

definition exec_enter :: "kstate \<Rightarrow> nat \<Rightarrow> addr \<Rightarrow> bool \<Rightarrow> kstate" where
  "exec_enter k c t idle =
     upd_sched c (\<lambda>s. s\<lparr>si_running := True, si_current_thread := Some t, si_idle := idle,
                       lock_scheduler := False\<rparr>) k"

definition exec_leave :: "kstate \<Rightarrow> nat \<Rightarrow> kstate option" where
  "exec_leave k c = do {
     let k = upd_sched c (\<lambda>s. s\<lparr>si_current_thread := None, si_running := False\<rparr>) k;
     assert (\<not> lock_scheduler (sc k c));
     Some (upd_sched c (\<lambda>s. s\<lparr>lock_scheduler := True, si_idle := False\<rparr>) k)
   }"

subsection \<open>What a critical section does\<close>

definition run_list :: "scheduler_info \<Rightarrow> addr list" where
  "run_list s = arr_list (sched_queue s) (sched_count s)"

definition pause_list :: "scheduler_info \<Rightarrow> paused_schedule list" where
  "pause_list s = arr_list (pause_queue s) (pause_count s)"

text \<open>A CPU whose scheduler lock is free.\<close>

definition quiet :: "kstate \<Rightarrow> nat \<Rightarrow> bool" where
  "quiet k c \<longleftrightarrow> c < cpu_count k \<and> \<not> lock_scheduler (sc k c) \<and> nested_lock (sc k c) = 0"

text \<open>
  Everything but the scheduler of CPU \<open>c\<close> and the log of interrupts sent is as before;
  interrupts are back on only if the lock was the CPU's own.
\<close>

definition sched_frame :: "nat \<Rightarrow> kstate \<Rightarrow> kstate \<Rightarrow> bool" where
  "sched_frame c k k' \<longleftrightarrow> threads k' = threads k \<and> procs k' = procs k \<and> cpu_count k' = cpu_count k \<and>
     CPUID k' = CPUID k \<and> (\<forall>d. d \<noteq> c \<longrightarrow> sc k' d = sc k d) \<and>
     (\<forall>d. st_systemTime (cpu k' d) = st_systemTime (cpu k d)) \<and>
     tfam k' = tfam k \<and> tlist k' = tlist k \<and> pfam k' = pfam k \<and> plist k' = plist k \<and>
     l_processTable k' = l_processTable k \<and> l_rootProcess k' = l_rootProcess k \<and>
     l_processLock k' = l_processLock k \<and> ints k' = (ints k \<and> c = CPUID k)"

text \<open>The scheduler record after locking and unlocking around an update \<open>f\<close>.\<close>

definition entered :: "bool \<Rightarrow> bool \<Rightarrow> scheduler_info \<Rightarrow> scheduler_info" where
  "entered i complete s = s\<lparr>lock_scheduler := True, lock_flags := i, si_idle := False, nested_lock := 1,
     si_running := (if complete then False else si_running s),
     si_current_thread := (if complete then None else si_current_thread s)\<rparr>"

lemma entered_simps [simp]:
  "nested_lock (entered i b s) = 1" "lock_flags (entered i b s) = i"
  "sched_queue (entered i b s) = sched_queue s" "sched_count (entered i b s) = sched_count s"
  "pause_queue (entered i b s) = pause_queue s" "pause_count (entered i b s) = pause_count s"
  "sched_size (entered i b s) = sched_size s" "pause_size (entered i b s) = pause_size s"
  "find_queued (entered i b s) t = find_queued s t" "find_paused (entered i b s) t = find_paused s t"
  by (simp_all add: entered_def find_queued_def find_paused_def)

lemma sched_lock_ok:
  assumes "quiet k c" "complete \<longrightarrow> c \<noteq> CPUID k"
  shows "sched_lock k (int c) complete = Some
    ((upd_sched c (entered (ints k) complete) k)\<lparr>ints := False,
      ipis := (if si_idle (sc k c) then ipis k @ [c] else ipis k)\<rparr>)"
  using assms
  by (cases "sc k c"; cases complete)
    (auto simp: sched_lock_def quiet_def disable_interrupts_def Let_def upd_sched_def entered_def)

lemma sched_unlock_ok:
  assumes "c < cpu_count k" "nested_lock (sc k c) = 1"
  shows "sched_unlock k (int c) = Some
    ((upd_sched c (\<lambda>s. s\<lparr>nested_lock := 0, lock_scheduler := False\<rparr>) k)
       \<lparr>ints := (if CPUID k = c \<and> lock_flags (sc k c) then True else ints k)\<rparr>)"
  using assms by (simp add: sched_unlock_def enable_interrupts_def Let_def upd_sched_def)

lemmas sched_crit = sched_lock_ok sched_unlock_ok entered_def quiet_def

lemma sub_queue_ok:
  assumes "quiet k c" "sched_count (sc k c) < sched_size (sc k c)"
  shows "\<exists>k'. sub_queue k c tr = Some (0, k') \<and> sched_frame c k k' \<and>
    sc k' c = (sc k c)\<lparr>sched_queue := (sched_queue (sc k c))(sched_count (sc k c) := tr),
      sched_count := sched_count (sc k c) + 1, si_idle := False, lock_flags := ints k,
      nested_lock := 0, lock_scheduler := False\<rparr>"
  using assms by (auto simp: sub_queue_def sched_crit sched_frame_def Let_def)

lemma sub_queue_full:
  assumes "quiet k c" "sched_count (sc k c) = sched_size (sc k c)"
  shows "\<exists>k'. sub_queue k c tr = Some (-1, k') \<and> sched_frame c k k' \<and>
    sc k' c = (sc k c)\<lparr>si_idle := False, lock_flags := ints k, nested_lock := 0, lock_scheduler := False\<rparr>"
  using assms by (auto simp: sub_queue_def sched_crit sched_frame_def Let_def)

lemma find_queued_in: "tr \<in> set (run_list s) \<longleftrightarrow> find_queued s tr < sched_count s"
  by (simp add: run_list_def find_queued_def arr_find_in)

lemma find_queued_not_in: "tr \<notin> set (run_list s) \<Longrightarrow> find_queued s tr = sched_count s"
  using find_queued_in [of tr s] arr_find_le [of 0 "sched_count s"] by (auto simp: find_queued_def le_less)

lemma close_gap_list:
  assumes "tr \<in> set (run_list s)"
  shows "run_list (close_gap (find_queued s tr) s) = remove1 tr (run_list s)"
proof -
  have i: "find_queued s tr < sched_count s" using assms by (simp add: find_queued_in)
  have "run_list (close_gap (find_queued s tr) s) =
      take (find_queued s tr) (run_list s) @ drop (Suc (find_queued s tr)) (run_list s)"
    using arr_list_shift_down [OF i, of "sched_queue s"] by (simp add: run_list_def close_gap_def Let_def)
  also have "\<dots> = remove1 tr (run_list s)"
    using remove1_arr_list [OF _ i, of "sched_queue s" tr] by (simp add: run_list_def find_queued_def)
  finally show ?thesis .
qed

text \<open>The fields of a scheduler that closing a gap leaves alone.\<close>

lemma close_gap_simps [simp]:
  "pause_queue (close_gap p s) = pause_queue s" "pause_count (close_gap p s) = pause_count s"
  "sched_size (close_gap p s) = sched_size s" "pause_size (close_gap p s) = pause_size s"
  "si_cpu_id (close_gap p s) = si_cpu_id s" "sched_count (close_gap p s) = sched_count s - 1"
  "requesting_thread (close_gap p s) = requesting_thread s"
  "requesting_state (close_gap p s) = requesting_state s"
  "lock_scheduler (close_gap p s) = lock_scheduler s" "nested_lock (close_gap p s) = nested_lock s"
  "si_current_thread (close_gap p s) = si_current_thread s"
  "lock_flags (close_gap p s) = lock_flags s"
  by (simp_all add: close_gap_def Let_def)

lemma unat_of_small: "n < 2 ^ 32 \<Longrightarrow> unat (of_nat n :: u32) = n"
  by (simp add: unsigned_of_nat take_bit_nat_eq_self)

lemma close_gap_pos:
  assumes "sched_count s < 2 ^ 31"
  shows "if sched_count s - 1 = 0 then position (close_gap i s) = 0
    else unat (position (close_gap i s)) < sched_count s - 1"
proof -
  obtain n where n: "n = sched_count s - 1" by simp
  then have "unat (of_nat n :: u32) = n" using assms by (intro unat_of_small) simp
  then show ?thesis unfolding close_gap_def Let_def n [symmetric] by (simp add: unat_mod)
qed

lemma sub_dequeue_ok:
  assumes "quiet k c" "current_thread k \<noteq> Some tr" "tr \<in> set (run_list (sc k c))"
  shows "\<exists>k'. sub_dequeue k c tr = Some (0, k') \<and> sched_frame c k k' \<and>
    sc k' c = (close_gap (find_queued (sc k c) tr) (sc k c))\<lparr>si_idle := False, lock_flags := ints k,
      nested_lock := 0, lock_scheduler := False,
      si_running := (if c \<noteq> CPUID k then False else si_running (sc k c)),
      si_current_thread := (if c \<noteq> CPUID k then None else si_current_thread (sc k c))\<rparr>"
proof -
  have "find_queued (sc k c) tr < sched_count (sc k c)" using assms(3) by (simp add: find_queued_in)
  then show ?thesis
    using assms(1,2)
    by (auto simp: sub_dequeue_def sched_lock_ok sched_unlock_ok sched_frame_def Let_def quiet_def)
      (simp_all add: entered_def close_gap_def Let_def)
qed

text \<open>The home CPU of a thread is a CPU.\<close>

definition home_ok :: "kstate \<Rightarrow> addr \<Rightarrow> bool" where
  "home_ok k t \<longleftrightarrow> t_cpu_affinity (threads k t) < int (cpu_count k) \<and> tid_small (t_tid (threads k t)) \<and> 0 < cpu_count k"

definition home :: "kstate \<Rightarrow> addr \<Rightarrow> nat" where
  "home k t = nat (home_cpu k t)"

lemma home_range: "home_ok k t \<Longrightarrow> home_cpu k t = int (home k t) \<and> home k t < cpu_count k"
  by (auto simp: home_ok_def home_def home_cpu_def tid_small_def nat_less_iff)

lemma queue_ok:
  assumes "home_ok k t" "t_cpu (threads k t) < 0" "quiet k (home k t)"
    "sched_count (sc k (home k t)) < sched_size (sc k (home k t))"
  defines "c \<equiv> home k t"
  shows "\<exists>k'. queue k t = Some (0, k') \<and>
    sched_frame c (upd_thread t (\<lambda>r. r\<lparr>t_cpu := int c\<rparr>) k) k' \<and>
    sc k' c = (sc k c)\<lparr>sched_queue := (sched_queue (sc k c))(sched_count (sc k c) := t),
      sched_count := sched_count (sc k c) + 1, si_idle := False, lock_flags := ints k,
      nested_lock := 0, lock_scheduler := False\<rparr>"
proof -
  let ?k = "upd_thread t (\<lambda>r. r\<lparr>t_cpu := int c\<rparr>) k"
  have "quiet ?k c" using assms(3) by (simp add: quiet_def c_def)
  then obtain k' where "sub_queue ?k c t = Some (0, k')" "sched_frame c ?k k'"
    "sc k' c = (sc k c)\<lparr>sched_queue := (sched_queue (sc k c))(sched_count (sc k c) := t),
      sched_count := sched_count (sc k c) + 1, si_idle := False, lock_flags := ints k,
      nested_lock := 0, lock_scheduler := False\<rparr>"
    using sub_queue_ok [of ?k c t] assms(4) by (auto simp: c_def)
  then show ?thesis
    using home_range [OF assms(1)] assms(2) by (simp add: queue_def c_def Let_def)
qed

lemma dequeue_ok:
  assumes "t_cpu (threads k t) = int c" "quiet k c" "current_thread k \<noteq> Some t" "t \<in> set (run_list (sc k c))"
  shows "\<exists>k'. dequeue k t = Some (0, k') \<and>
    sched_frame c (upd_thread t (\<lambda>r. r\<lparr>t_cpu := -1\<rparr>) k) k' \<and>
    sc k' c = (close_gap (find_queued (sc k c) t) (sc k c))\<lparr>si_idle := False, lock_flags := ints k,
      nested_lock := 0, lock_scheduler := False,
      si_running := (if c \<noteq> CPUID k then False else si_running (sc k c)),
      si_current_thread := (if c \<noteq> CPUID k then None else si_current_thread (sc k c))\<rparr>"
  using sub_dequeue_ok [OF assms(2,3,4)] assms(1)
  by (auto simp: dequeue_def Let_def sched_frame_def)

lemma find_paused_in: "tr \<in> ps_tr ` set (pause_list s) \<longleftrightarrow> find_paused s tr < pause_count s"
  using arr_find_in [of tr "\<lambda>i. ps_tr (pause_queue s i)" "pause_count s"]
  by (auto simp: pause_list_def find_paused_def set_arr_list image_image)

text \<open>The sleeper comes to the front with request time 0.\<close>

definition to_front :: "nat \<Rightarrow> paused_schedule list \<Rightarrow> paused_schedule list" where
  "to_front i xs = (xs ! i)\<lparr>ps_request := 0\<rparr> # take i xs @ drop (Suc i) xs"

lemma restart_ok:
  assumes "home_ok k t" "quiet k (home k t)" "t \<in> ps_tr ` set (pause_list (sc k (home k t)))"
  defines "c \<equiv> home k t"
  shows "\<exists>k' pq. restart k t = Some (0, k') \<and> sched_frame c k k' \<and>
    sc k' c = (sc k c)\<lparr>pause_queue := pq, si_idle := False, lock_flags := ints k,
      nested_lock := 0, lock_scheduler := False,
      si_running := (if c \<noteq> CPUID k then False else si_running (sc k c)),
      si_current_thread := (if c \<noteq> CPUID k then None else si_current_thread (sc k c))\<rparr> \<and>
    arr_list pq (pause_count (sc k c)) = to_front (find_paused (sc k c) t) (pause_list (sc k c))"
proof -
  let ?p = "find_paused (sc k c) t" and ?q = "pause_queue (sc k c)" and ?n = "pause_count (sc k c)"
  let ?x = "(?q ?p)\<lparr>ps_request := 0\<rparr>"
  let ?pq = "if ?p = 0 then ?q(0 := (?q 0)\<lparr>ps_request := 0\<rparr>) else (shift_up ?q 0 ?p)(0 := ?x)"
  have p: "?p < ?n" using assms(3) by (simp add: find_paused_in c_def)
  then have "arr_list ((shift_up ?q 0 ?p)(0 := ?x)) ?n = to_front ?p (pause_list (sc k c))"
    by (subst arr_list_shift_up_front) (simp_all add: to_front_def pause_list_def)
  moreover have "?pq = (shift_up ?q 0 ?p)(0 := ?x)" by auto
  ultimately have l: "arr_list ?pq ?n = to_front ?p (pause_list (sc k c))" by simp
  have h: "home_cpu k t = int c" "c < cpu_count k" using home_range [OF assms(1)] by (simp_all add: c_def)
  have "\<exists>k'. restart k t = Some (0, k') \<and> sched_frame c k k' \<and>
    sc k' c = (sc k c)\<lparr>pause_queue := ?pq, si_idle := False, lock_flags := ints k,
      nested_lock := 0, lock_scheduler := False,
      si_running := (if c \<noteq> CPUID k then False else si_running (sc k c)),
      si_current_thread := (if c \<noteq> CPUID k then None else si_current_thread (sc k c))\<rparr>"
  proof (cases "?p = 0")
    case True
    with p assms(2) h show ?thesis
      by (auto simp: restart_def sched_lock_ok sched_unlock_ok sched_frame_def Let_def quiet_def c_def [symmetric])
        (simp_all add: entered_def)
  next
    case False
    with p assms(2) h show ?thesis
      by (auto simp: restart_def sched_lock_ok sched_unlock_ok sched_frame_def Let_def quiet_def c_def [symmetric])
        (simp_all add: entered_def)
  qed
  with l show ?thesis by blast
qed

text \<open>Insertion into the sleepers: after all that wake no later.\<close>

lemma insert_paused_list:
  "pause_list (insert_paused tr st target now s) =
     takeWhile (\<lambda>p. ps_request p \<le> target) (pause_list s) @
     \<lparr>ps_tr = tr, ps_state = st, ps_request = target, ps_start = now\<rparr> #
     dropWhile (\<lambda>p. ps_request p \<le> target) (pause_list s)"
proof -
  let ?pos = "arr_find (\<lambda>i. ps_request (pause_queue s i) > target) (pause_count s) 0"
  have le: "?pos \<le> pause_count s" by (simp add: arr_find_le)
  have "takeWhile (\<lambda>p. ps_request p \<le> target) (pause_list s) = take ?pos (pause_list s)"
  proof (rule takeWhile_eq_take_P_nth)
    fix i assume i: "i < ?pos" "i < length (pause_list s)"
    then show "ps_request (pause_list s ! i) \<le> target"
      using arr_find_before [of 0 i "\<lambda>i. ps_request (pause_queue s i) > target"] by (auto simp: pause_list_def not_less)
  next
    assume "?pos < length (pause_list s)"
    then show "\<not> ps_request (pause_list s ! ?pos) \<le> target"
      using arr_find_hit [of "\<lambda>i. ps_request (pause_queue s i) > target" "pause_count s" 0]
      by (simp add: pause_list_def not_le)
  qed
  moreover from this have "dropWhile (\<lambda>p. ps_request p \<le> target) (pause_list s) = drop ?pos (pause_list s)"
    by (metis append_take_drop_id same_append_eq takeWhile_dropWhile_id)
  ultimately show ?thesis
    using arr_list_shift_up_insert [OF le, of "pause_queue s"]
    by (simp add: insert_paused_def pause_list_def Let_def)
qed

lemma pause_ok:
  assumes "quiet k c" "CPUID k = c" "t_cpu (threads k t) = int c" "current_thread k = Some t"
    "t_state (threads k t) = THREAD_RUNNING" "0 < ms" "pause_count (sc k c) < pause_size (sc k c)"
  defines "now \<equiv> st_systemTime (cpu k c)"
  shows "\<exists>k'. pause k t ms = Some (0, k') \<and>
    sched_frame c (upd_thread t (\<lambda>r. r\<lparr>t_duration := ms\<rparr>) k) k' \<and>
    sc k' c = (insert_paused t THREAD_RUNNING (ms + now) now (sc k c))
      \<lparr>requesting_thread := Some t, requesting_state := Some THREAD_DORMANT, si_idle := False,
       lock_flags := ints k, nested_lock := 0, lock_scheduler := False\<rparr>"
proof -
  have "si_current_thread (sc k c) = Some t" using assms(2,4) by (simp add: current_thread_def)
  moreover have ne: "pause_count (sc k c) \<noteq> pause_size (sc k c)" using assms(7) by simp
  moreover have "nested_lock (insert_paused a b d e s) = nested_lock s"
    "lock_flags (insert_paused a b d e s) = lock_flags s"
    "si_current_thread (insert_paused a b d e s) = si_current_thread s" for a b d e s
    by (simp_all add: insert_paused_def Let_def)
  ultimately show ?thesis
    using assms(1-6)
    by (auto simp: pause_def sched_lock_ok sched_unlock_ok quiet_def now_def set_thread_state_def
        current_thread_def disable_interrupts_def Let_def sched_frame_def)
      (simp_all add: entered_def insert_paused_def Let_def)
qed

text \<open>A woken thread.\<close>

definition woken :: "u64 \<Rightarrow> nat \<Rightarrow> paused_schedule \<Rightarrow> thread \<Rightarrow> thread" where
  "woken time c p t = t\<lparr>t_state := ps_state p, t_duration := time - ps_start p, t_cpu := int c\<rparr>"

definition wake_threads :: "u64 \<Rightarrow> nat \<Rightarrow> paused_schedule list \<Rightarrow> (addr \<Rightarrow> thread) \<Rightarrow> (addr \<Rightarrow> thread)" where
  "wake_threads time c ws th = fold (\<lambda>p th. th(ps_tr p := woken time c p (th (ps_tr p)))) ws th"

lemma wake_threads_other: "t \<notin> ps_tr ` set ws \<Longrightarrow> wake_threads time c ws th t = th t"
  by (induction ws arbitrary: th) (auto simp: wake_threads_def)

lemma wake_threads_in:
  "distinct (map ps_tr ws) \<Longrightarrow> p \<in> set ws \<Longrightarrow> wake_threads time c ws th (ps_tr p) = woken time c p (th (ps_tr p))"
proof (induction ws arbitrary: th)
  case (Cons q ws)
  have step: "wake_threads time c (q # ws) th = wake_threads time c ws (th(ps_tr q := woken time c q (th (ps_tr q))))"
    by (simp add: wake_threads_def)
  show ?case
  proof (cases "p = q")
    case True
    then show ?thesis using Cons.prems wake_threads_other [of "ps_tr q" ws] by (simp add: step)
  next
    case False
    then have "p \<in> set ws" "ps_tr p \<noteq> ps_tr q" using Cons.prems by (auto simp: image_iff)
    then show ?thesis using Cons by (simp add: step)
  qed
qed simp

text \<open>The sleepers not yet looked at, when \<open>cnt\<close> have been woken.\<close>

definition rest_list :: "scheduler_info \<Rightarrow> nat \<Rightarrow> paused_schedule list" where
  "rest_list s cnt = arr_list (\<lambda>i. pause_queue s (cnt + i)) (pause_count s)"

lemma arr_list_Cons: "arr_list a (Suc n) = a 0 # arr_list (\<lambda>i. a (Suc i)) n"
  by (rule nth_equalityI) (auto simp: nth_Cons' simp del: upt_Suc)

lemma wake_loop_ok:
  assumes "ws = takeWhile (\<lambda>p. ps_request p \<le> time) (rest_list (sc k c) cnt)"
    "sched_count (sc k c) + length ws \<le> sched_size (sc k c)" "si_cpu_id (sc k c) = c"
  shows "\<exists>q. wake_loop k c time cnt = Some (cnt + length ws,
      upd_sched c (\<lambda>s. s\<lparr>sched_queue := q, sched_count := sched_count s + length ws,
          pause_count := pause_count s - length ws\<rparr>)
        (k\<lparr>threads := wake_threads time c ws (threads k)\<rparr>)) \<and>
    arr_list q (sched_count (sc k c) + length ws) = run_list (sc k c) @ map ps_tr ws"
  using assms
proof (induction ws arbitrary: k cnt)
  case Nil
  have "wake_loop k c time cnt = Some (cnt, k)"
  proof (cases "pause_count (sc k c)")
    case (Suc n)
    then have "\<not> ps_request (pause_queue (sc k c) cnt) \<le> time"
      using Nil(1) by (auto simp: rest_list_def arr_list_Cons split: if_splits)
    then show ?thesis by (subst wake_loop.simps) simp
  qed (subst wake_loop.simps, simp)
  moreover have "upd_sched c (\<lambda>s. s\<lparr>sched_queue := sched_queue (sc k c)\<rparr>) k = k"
    by (simp add: upd_sched_def)
  ultimately show ?case
    by (intro exI [of _ "sched_queue (sc k c)"]) (simp add: wake_threads_def run_list_def upd_sched_def)
next
  case (Cons p ws)
  let ?s = "sc k c"
  obtain n where n: "pause_count ?s = Suc n"
    using Cons.prems(1) by (cases "pause_count ?s") (simp_all add: rest_list_def)
  then have p: "p = pause_queue ?s cnt" "ps_request p \<le> time"
    and ws: "ws = takeWhile (\<lambda>p. ps_request p \<le> time) (arr_list (\<lambda>i. pause_queue ?s (cnt + Suc i)) n)"
    using Cons.prems(1) by (auto simp: rest_list_def arr_list_Cons split: if_splits)
  define k1 where "k1 = upd_sched c (\<lambda>s. s\<lparr>sched_queue := (sched_queue s)(sched_count s := ps_tr p),
        sched_count := sched_count s + 1, pause_count := pause_count s - 1\<rparr>)
      (upd_thread (ps_tr p) (\<lambda>t. t\<lparr>t_state := ps_state p, t_duration := time - ps_start p,
        t_cpu := int (si_cpu_id ?s)\<rparr>) k)"
  have ws1: "ws = takeWhile (\<lambda>p. ps_request p \<le> time) (rest_list (sc k1 c) (cnt + 1))"
    using ws n by (simp add: k1_def rest_list_def)
  obtain q where q: "wake_loop k1 c time (cnt + 1) = Some (cnt + 1 + length ws,
      upd_sched c (\<lambda>s. s\<lparr>sched_queue := q, sched_count := sched_count s + length ws,
          pause_count := pause_count s - length ws\<rparr>)
        (k1\<lparr>threads := wake_threads time c ws (threads k1)\<rparr>))"
    "arr_list q (sched_count (sc k1 c) + length ws) = run_list (sc k1 c) @ map ps_tr ws"
  proof -
    have "sched_count (sc k1 c) + length ws \<le> sched_size (sc k1 c)" "si_cpu_id (sc k1 c) = c"
      using Cons.prems(2,3) by (simp_all add: k1_def)
    from Cons.IH [OF ws1 this] that show thesis by blast
  qed
  have "wake_loop k c time cnt = wake_loop k1 c time (cnt + 1)"
    using n p Cons.prems(2) by (subst wake_loop.simps) (simp add: k1_def Let_def)
  moreover have "upd_sched c (\<lambda>s. s\<lparr>sched_queue := q, sched_count := sched_count s + length ws,
          pause_count := pause_count s - length ws\<rparr>)
        (k1\<lparr>threads := wake_threads time c ws (threads k1)\<rparr>) =
      upd_sched c (\<lambda>s. s\<lparr>sched_queue := q, sched_count := sched_count s + length (p # ws),
          pause_count := pause_count s - length (p # ws)\<rparr>)
        (k\<lparr>threads := wake_threads time c (p # ws) (threads k)\<rparr>)"
    using Cons.prems(3) by (simp add: k1_def upd_sched_def upd_thread_def wake_threads_def woken_def)
  moreover have "run_list (sc k1 c) = run_list ?s @ [ps_tr p]"
    by (simp add: k1_def run_list_def arr_list_append_last)
  ultimately show ?case
    using q by (intro exI [of _ q]) (simp add: k1_def)
qed

lemma upd_sched_id: "f (sc k c) = sc k c \<Longrightarrow> upd_sched c f k = k"
  by (simp add: upd_sched_def)

lemma remove_timers_ok:
  assumes "si_cpu_id (sc k c) = c"
    "ws = takeWhile (\<lambda>p. ps_request p \<le> time) (pause_list (sc k c))"
    "rest = dropWhile (\<lambda>p. ps_request p \<le> time) (pause_list (sc k c))"
    "sched_count (sc k c) + length ws \<le> sched_size (sc k c)"
  shows "\<exists>q pq. remove_timers k c time = Some (case rest of [] \<Rightarrow> 0 | p # _ \<Rightarrow> ps_request p - time,
      upd_sched c (\<lambda>s. s\<lparr>sched_queue := q, sched_count := sched_count s + length ws,
          pause_count := length rest, pause_queue := pq\<rparr>)
        (k\<lparr>threads := wake_threads time c ws (threads k)\<rparr>)) \<and>
    arr_list q (sched_count (sc k c) + length ws) = run_list (sc k c) @ map ps_tr ws \<and>
    arr_list pq (length rest) = rest"
proof (cases "pause_count (sc k c) = 0")
  case True
  then have "ws = []" "rest = []" using assms(2,3) by (simp_all add: pause_list_def)
  moreover have "upd_sched c (\<lambda>s. s\<lparr>sched_queue := sched_queue (sc k c), sched_count := sched_count s + 0,
      pause_count := 0, pause_queue := pause_queue (sc k c)\<rparr>) k = k"
    by (rule upd_sched_id) (use True in \<open>cases "sc k c", simp\<close>)
  moreover have "remove_timers k c time = Some (0, k)" using True by (simp add: remove_timers_def)
  ultimately show ?thesis
    by (intro exI [of _ "sched_queue (sc k c)"] exI [of _ "pause_queue (sc k c)"])
      (simp add: wake_threads_def run_list_def)
next
  case False
  let ?s = "sc k c" and ?l = "length ws"
  have rl: "rest_list ?s 0 = pause_list ?s" by (simp add: rest_list_def pause_list_def)
  have split: "pause_list ?s = ws @ rest" using assms(2,3) by simp
  then have n: "pause_count ?s = ?l + length rest" by (metis length_append length_arr_list pause_list_def)
  obtain q where q: "wake_loop k c time 0 = Some (?l,
      upd_sched c (\<lambda>s. s\<lparr>sched_queue := q, sched_count := sched_count s + ?l,
          pause_count := pause_count s - ?l\<rparr>)
        (k\<lparr>threads := wake_threads time c ws (threads k)\<rparr>))"
    "arr_list q (sched_count ?s + ?l) = run_list ?s @ map ps_tr ws"
    using wake_loop_ok [of ws time k c 0] assms rl by auto
  let ?pq = "copy_down (pause_queue ?s) 0 (length rest) ?l"
  have pq: "arr_list ?pq (length rest) = rest"
    using split n by (simp add: arr_list_copy_down pause_list_def add.commute)
  then have "?pq 0 = hd rest" if "rest \<noteq> []"
    using that nth_arr_list [of 0 "length rest" ?pq] by (cases rest) auto
  then show ?thesis
    using q pq False n by (intro exI [of _ q] exI [of _ ?pq])
      (auto simp: remove_timers_def Let_def upd_sched_def split: list.splits)
qed

subsection \<open>The invariant\<close>

definition pos_ok :: "scheduler_info \<Rightarrow> bool" where
  "pos_ok s \<longleftrightarrow> (if sched_count s = 0 then position s = 0 else unat (position s) < sched_count s)"

text \<open>
  A thread on the sleepers' queue is asleep, or it is the thread that has asked to be put to
  sleep and is still on the run queue.
\<close>

definition sleeper_ok :: "(addr \<Rightarrow> thread) \<Rightarrow> scheduler_info \<Rightarrow> paused_schedule \<Rightarrow> bool" where
  "sleeper_ok th s p \<longleftrightarrow> ps_state p = THREAD_RUNNING \<and> t_duration (th (ps_tr p)) \<noteq> 0 \<and>
     (t_state (th (ps_tr p)) = THREAD_DORMANT \<and> t_cpu (th (ps_tr p)) = -1 \<or>
      requesting_thread s = Some (ps_tr p) \<and> requesting_state s = Some THREAD_DORMANT \<and>
      ps_tr p \<in> set (run_list s))"

definition cpu_inv :: "kstate \<Rightarrow> nat \<Rightarrow> bool" where
  "cpu_inv k c \<longleftrightarrow> (let s = sc k c in
     si_cpu_id s = c \<and> sched_count s \<le> sched_size s \<and> pause_count s \<le> pause_size s \<and>
     sched_size s < 2 ^ 31 \<and> pos_ok s \<and> sorted (map ps_request (pause_list s)) \<and>
     distinct (run_list s) \<and> distinct (map ps_tr (pause_list s)) \<and>
     (\<forall>t\<in>set (run_list s). t_state (threads k t) = THREAD_RUNNING \<and> t_cpu (threads k t) = int c \<and> home k t = c) \<and>
     (\<forall>p\<in>set (pause_list s). sleeper_ok (threads k) s p \<and> home k (ps_tr p) = c) \<and>
     (\<forall>t u. si_current_thread s = Some t \<and> requesting_thread s = Some u \<longrightarrow> u = t))"

definition sched_inv :: "kstate \<Rightarrow> bool" where
  "sched_inv k \<longleftrightarrow> (\<forall>c<cpu_count k. cpu_inv k c)"

text \<open>The threads a CPU's queues hold.\<close>

definition held :: "scheduler_info \<Rightarrow> addr set" where
  "held s = set (run_list s) \<union> ps_tr ` set (pause_list s)"

definition same_queues :: "scheduler_info \<Rightarrow> scheduler_info \<Rightarrow> bool" where
  "same_queues s s' \<longleftrightarrow> sched_queue s' = sched_queue s \<and> sched_count s' = sched_count s \<and>
     pause_queue s' = pause_queue s \<and> pause_count s' = pause_count s \<and> sched_size s' = sched_size s \<and>
     pause_size s' = pause_size s \<and> position s' = position s \<and> si_cpu_id s' = si_cpu_id s \<and>
     requesting_thread s' = requesting_thread s \<and> requesting_state s' = requesting_state s \<and>
     (si_current_thread s' = si_current_thread s \<or> si_current_thread s' = None)"

definition same_thread :: "thread \<Rightarrow> thread \<Rightarrow> bool" where
  "same_thread t t' \<longleftrightarrow> t_state t' = t_state t \<and> t_cpu t' = t_cpu t \<and> t_duration t' = t_duration t \<and>
     t_tid t' = t_tid t \<and> t_cpu_affinity t' = t_cpu_affinity t"

lemma home_cong:
  "t_tid (threads k' t) = t_tid (threads k t) \<Longrightarrow> t_cpu_affinity (threads k' t) = t_cpu_affinity (threads k t) \<Longrightarrow>
   cpu_count k' = cpu_count k \<Longrightarrow> home k' t = home k t"
  by (simp add: home_def home_cpu_def)

lemma cpu_inv_frame:
  assumes "cpu_inv k c" "same_queues (sc k c) (sc k' c)" "cpu_count k' = cpu_count k"
    "\<And>t. t \<in> held (sc k c) \<Longrightarrow> same_thread (threads k t) (threads k' t)"
  shows "cpu_inv k' c"
proof -
  let ?s = "sc k c" and ?s' = "sc k' c"
  have l: "run_list ?s' = run_list ?s" "pause_list ?s' = pause_list ?s"
    using assms(2) by (simp_all add: same_queues_def run_list_def pause_list_def)
  have h: "home k' t = home k t" if "t \<in> held ?s" for t
    using assms(3,4) that by (intro home_cong) (auto simp: same_thread_def)
  have "sleeper_ok (threads k') ?s' p" if "sleeper_ok (threads k) ?s p" "p \<in> set (pause_list ?s)" for p
    using that assms(2) assms(4) [of "ps_tr p"] l
    by (auto simp: sleeper_ok_def same_queues_def same_thread_def held_def)
  moreover have "t_state (threads k' t) = t_state (threads k t) \<and> t_cpu (threads k' t) = t_cpu (threads k t)"
    if "t \<in> set (run_list ?s)" for t
    using assms(4) [of t] that by (simp add: same_thread_def held_def)
  ultimately show ?thesis
    using assms(1,2) h unfolding cpu_inv_def Let_def l
    by (auto simp: same_queues_def pos_ok_def held_def)
qed

text \<open>A thread no queue holds may change; whichever CPU's queues do not hold it are not affected.\<close>

lemma sched_inv_unheld:
  assumes "sched_inv k" "\<And>c. c < cpu_count k \<Longrightarrow> same_queues (sc k c) (sc k' c)" "cpu_count k' = cpu_count k"
    "\<And>c. c < cpu_count k \<Longrightarrow> t \<notin> held (sc k c)" "\<And>u. u \<noteq> t \<Longrightarrow> threads k' u = threads k u"
  shows "sched_inv k'"
  unfolding sched_inv_def
proof (intro allI impI)
  fix c assume c: "c < cpu_count k'"
  show "cpu_inv k' c"
  proof (rule cpu_inv_frame [of k])
    show "same_thread (threads k u) (threads k' u)" if "u \<in> held (sc k c)" for u
      using assms(4) [of c] assms(5) [of u] assms(3) c that by (cases "u = t") (auto simp: same_thread_def)
  qed (use assms(1,2,3) c in \<open>auto simp: sched_inv_def\<close>)
qed

subsection \<open>Every operation keeps the invariant\<close>

lemma sched_lock_quiet: "sched_lock k (int c) b = Some k' \<Longrightarrow> quiet k c"
  by (auto simp: sched_lock_def quiet_def disable_interrupts_def Let_def split: if_splits)

lemma queue_cases:
  assumes "queue k t = Some (r, k')" "home_ok k t" "sched_count (sc k (home k t)) \<le> sched_size (sc k (home k t))"
  defines "c \<equiv> home k t"
  shows "t_cpu (threads k t) < 0 \<and> sched_frame c (upd_thread t (\<lambda>r. r\<lparr>t_cpu := int c\<rparr>) k) k' \<and> quiet k c \<and>
    (sched_count (sc k c) \<noteq> sched_size (sc k c) \<and>
     sc k' c = (sc k c)\<lparr>sched_queue := (sched_queue (sc k c))(sched_count (sc k c) := t),
      sched_count := sched_count (sc k c) + 1, si_idle := False, lock_flags := ints k,
      nested_lock := 0, lock_scheduler := False\<rparr> \<or>
     sched_count (sc k c) = sched_size (sc k c) \<and>
     sc k' c = (sc k c)\<lparr>si_idle := False, lock_flags := ints k, nested_lock := 0, lock_scheduler := False\<rparr>)"
proof -
  let ?k = "upd_thread t (\<lambda>r. r\<lparr>t_cpu := int c\<rparr>) k"
  have h: "home_cpu k t = int c" "c < cpu_count k" using home_range [OF assms(2)] by (simp_all add: c_def)
  then have q: "t_cpu (threads k t) < 0" "sub_queue ?k c t = Some (r, k')"
    using assms(1) by (simp_all add: queue_def Let_def split: if_splits)
  then have "quiet ?k c"
    by (auto simp: sub_queue_def bind_eq_Some dest: sched_lock_quiet)
  moreover from this have "quiet k c" by (simp add: quiet_def)
  moreover have "sched_count (sc k c) < sched_size (sc k c) \<or> sched_count (sc k c) = sched_size (sc k c)"
    using assms(3) by (auto simp: le_less c_def)
  ultimately show ?thesis
    using sub_queue_ok [of ?k c t] sub_queue_full [of ?k c t] q by auto
qed

lemma dequeue_cases:
  assumes "dequeue k t = Some (r, k')"
  obtains c where "t_cpu (threads k t) = int c" "quiet k c" "current_thread k \<noteq> Some t" "t \<in> set (run_list (sc k c))"
proof -
  have "0 \<le> t_cpu (threads k t)" using assms by (auto simp: dequeue_def Let_def split: if_splits)
  then obtain c where c: "t_cpu (threads k t) = int c" by (metis nonneg_int_cases)
  have d: "\<exists>k''. sub_dequeue k c t = Some (r, k'')"
    using assms c by (auto simp: dequeue_def Let_def bind_eq_Some)
  then have cur: "current_thread k \<noteq> Some t" and q: "quiet k c"
    by (auto simp: sub_dequeue_def bind_eq_Some dest: sched_lock_quiet split: if_splits)
  have "t \<in> set (run_list (sc k c))"
  proof (rule ccontr)
    assume "t \<notin> set (run_list (sc k c))"
    then have "find_queued (sc k c) t = sched_count (sc k c)" by (rule find_queued_not_in)
    then show False using d q cur by (auto simp: sub_dequeue_def sched_lock_ok Let_def)
  qed
  with c cur q that show thesis by simp
qed

lemma run_list_facts:
  assumes "sched_inv k" "c < cpu_count k" "t \<in> set (run_list (sc k c))"
  shows "t_state (threads k t) = THREAD_RUNNING" "t_cpu (threads k t) = int c" "home k t = c"
  using assms by (auto simp: sched_inv_def cpu_inv_def Let_def)

lemma pause_list_facts:
  assumes "sched_inv k" "c < cpu_count k" "p \<in> set (pause_list (sc k c))"
  shows "home k (ps_tr p) = c" "t_duration (threads k (ps_tr p)) \<noteq> 0" "ps_state p = THREAD_RUNNING"
    "t_state (threads k (ps_tr p)) = THREAD_DORMANT \<and> t_cpu (threads k (ps_tr p)) = -1 \<or>
     requesting_thread (sc k c) = Some (ps_tr p) \<and> requesting_state (sc k c) = Some THREAD_DORMANT \<and>
     ps_tr p \<in> set (run_list (sc k c))"
  using assms by (auto simp: sched_inv_def cpu_inv_def sleeper_ok_def Let_def)

lemma unheld:
  assumes "sched_inv k" "c < cpu_count k" "t_state (threads k t) \<noteq> THREAD_RUNNING"
    "\<not> (t_state (threads k t) = THREAD_DORMANT \<and> t_duration (threads k t) \<noteq> 0)"
  shows "t \<notin> held (sc k c)"
  using assms run_list_facts(1) [OF assms(1,2), of t] pause_list_facts(2,4) [OF assms(1,2)] run_list_facts(1) [OF assms(1,2)]
  unfolding held_def by fastforce

lemma held_home: "sched_inv k \<Longrightarrow> c < cpu_count k \<Longrightarrow> t \<in> held (sc k c) \<Longrightarrow> home k t = c"
  unfolding held_def using run_list_facts(3) [of k c t] pause_list_facts(1) [of k c] by auto

text \<open>An operation that works on one CPU and on threads at home there.\<close>

lemma sched_inv_one:
  assumes "sched_inv k" "cpu_inv k' c" "cpu_count k' = cpu_count k"
    "\<And>d. d \<noteq> c \<Longrightarrow> same_queues (sc k d) (sc k' d)"
    "\<And>u. home k u \<noteq> c \<Longrightarrow> same_thread (threads k u) (threads k' u)"
  shows "sched_inv k'"
  unfolding sched_inv_def
proof (intro allI impI)
  fix d assume d: "d < cpu_count k'"
  show "cpu_inv k' d"
  proof (cases "d = c")
    case False
    show ?thesis
    proof (rule cpu_inv_frame [of k])
      show "same_thread (threads k u) (threads k' u)" if "u \<in> held (sc k d)" for u
        using that assms(5) [of u] held_home [OF assms(1), of d u] False d assms(3) by auto
    qed (use False d assms in \<open>auto simp: sched_inv_def\<close>)
  qed (use assms(2) in simp)
qed

lemma queue_keeps_inv:
  assumes "sched_inv k" "\<And>c. c < cpu_count k \<Longrightarrow> t \<notin> held (sc k c)" "home_ok k t"
    "t_state (threads k t) = THREAD_RUNNING" "queue k t = Some (r, k')"
  shows "sched_inv k'"
proof -
  let ?c = "home k t" and ?s = "sc k (home k t)"
  have c: "?c < cpu_count k" using home_range [OF assms(3)] by simp
  have "sched_count ?s \<le> sched_size ?s" using assms(1) c by (auto simp: sched_inv_def cpu_inv_def Let_def)
  note q = queue_cases [OF assms(5,3) this]
  then have fr: "threads k' = (threads k)(t := (threads k t)\<lparr>t_cpu := int ?c\<rparr>)" "cpu_count k' = cpu_count k"
      "\<And>d. d \<noteq> ?c \<Longrightarrow> sc k' d = sc k d"
    by (simp_all add: sched_frame_def)
  have ht: "home k' u = home k u" for u using fr by (intro home_cong) auto
  show ?thesis
  proof (cases "sched_count ?s = sched_size ?s")
    case True
    then have "same_queues (sc k d) (sc k' d)" for d
      using q fr(3) by (cases "d = ?c") (auto simp: same_queues_def)
    then show ?thesis using assms(1,2) fr by (intro sched_inv_unheld [of k k' t]) auto
  next
    case False
    then have s': "sc k' ?c = ?s\<lparr>sched_queue := (sched_queue ?s)(sched_count ?s := t),
      sched_count := sched_count ?s + 1, si_idle := False, lock_flags := ints k,
      nested_lock := 0, lock_scheduler := False\<rparr>" using q by blast
    then have l: "run_list (sc k' ?c) = run_list ?s @ [t]" "pause_list (sc k' ?c) = pause_list ?s"
      by (simp_all add: run_list_def pause_list_def arr_list_append_last)
    have inv: "cpu_inv k ?c" and nh: "t \<notin> held ?s" using assms(1,2) c by (auto simp: sched_inv_def)
    have "sleeper_ok (threads k') (sc k' ?c) p" if "p \<in> set (pause_list ?s)" "sleeper_ok (threads k) ?s p" for p
      using that nh fr(1) s' l by (auto simp: sleeper_ok_def held_def)
    then have "cpu_inv k' ?c"
      using inv nh False assms(4) unfolding cpu_inv_def Let_def l ht
      by (auto simp: s' fr(1) held_def pos_ok_def split: if_splits)
    then show ?thesis
      using assms(1) fr by (intro sched_inv_one [of k k' ?c]) (auto simp: same_queues_def same_thread_def)
  qed
qed

text \<open>Taking a thread off the run queue it is on, when it is not about to sleep.\<close>

lemma dequeue_keeps_inv:
  assumes "sched_inv k" "c < cpu_count k" "t \<in> set (run_list (sc k c))" "t \<notin> ps_tr ` set (pause_list (sc k c))"
    and s': "sc k' c = (close_gap (find_queued (sc k c) t) (sc k c))\<lparr>si_idle := a, lock_flags := b,
      nested_lock := m, lock_scheduler := l, si_running := r, si_current_thread := cur\<rparr>"
      "cur = None \<or> cur = si_current_thread (sc k c)"
    and fr: "\<And>d. d \<noteq> c \<Longrightarrow> sc k' d = sc k d" "cpu_count k' = cpu_count k"
      "\<And>u. u \<noteq> t \<Longrightarrow> threads k' u = threads k u"
      "t_tid (threads k' t) = t_tid (threads k t)" "t_cpu_affinity (threads k' t) = t_cpu_affinity (threads k t)"
  shows "sched_inv k' \<and> (\<forall>d<cpu_count k'. t \<notin> held (sc k' d))"
proof -
  let ?s = "sc k c" and ?g = "close_gap (find_queued (sc k c) t) (sc k c)"
  have inv: "cpu_inv k c" using assms(1,2) by (simp add: sched_inv_def)
  have l: "run_list (sc k' c) = remove1 t (run_list ?s)" "pause_list (sc k' c) = pause_list ?s"
    using close_gap_list [OF assms(3)] by (simp_all add: s' run_list_def pause_list_def)
  have ht: "home k' u = home k u" for u using fr by (cases "u = t") (auto intro: home_cong)
  have "sleeper_ok (threads k') (sc k' c) p" if "p \<in> set (pause_list ?s)" "sleeper_ok (threads k) ?s p" for p
  proof -
    have ne: "ps_tr p \<noteq> t" using that(1) assms(4) by auto
    with that(2) show ?thesis
      using fr(3) [OF ne] by (auto simp: sleeper_ok_def l in_set_remove1) (auto simp: s')
  qed
  moreover have "pos_ok (sc k' c)"
    using inv close_gap_pos [of ?s "find_queued ?s t"] by (simp add: cpu_inv_def Let_def pos_ok_def s' split: if_splits)
  moreover have "distinct (run_list ?s)" using inv by (simp add: cpu_inv_def Let_def)
  ultimately have "cpu_inv k' c"
    using inv fr(3) s'(2) unfolding cpu_inv_def Let_def l ht
    by (auto simp: s'(1))
  then have "sched_inv k'"
  proof (rule sched_inv_one [OF assms(1)])
    show "same_thread (threads k u) (threads k' u)" if "home k u \<noteq> c" for u
      using that fr(3) [of u] run_list_facts(3) [OF assms(1,2,3)] by (cases "u = t") (auto simp: same_thread_def)
  qed (use fr in \<open>auto simp: same_queues_def\<close>)
  moreover have "t \<notin> held (sc k' d)" if "d < cpu_count k" for d
  proof (cases "d = c")
    case True
    then show ?thesis using assms(4) \<open>distinct (run_list ?s)\<close> by (simp add: held_def l set_remove1_eq)
  next
    case False
    then show ?thesis
      using held_home [OF assms(1) that, of t] run_list_facts(3) [OF assms(1,2,3)] fr(1) by auto
  qed
  ultimately show ?thesis using fr(2) by simp
qed

lemma to_front_facts:
  assumes "i < length xs"
  shows "map ps_tr (to_front i xs) = map ps_tr (xs ! i # take i xs @ drop (Suc i) xs)"
    "set (to_front i xs) \<subseteq> insert ((xs ! i)\<lparr>ps_request := 0\<rparr>) (set xs)"
    "mset (map ps_tr (to_front i xs)) = mset (map ps_tr xs)"
    "sorted (map ps_request xs) \<Longrightarrow> sorted (map ps_request (to_front i xs))"
proof -
  note sp = id_take_nth_drop [OF assms]
  show "map ps_tr (to_front i xs) = map ps_tr (xs ! i # take i xs @ drop (Suc i) xs)"
    by (simp add: to_front_def)
  show "set (to_front i xs) \<subseteq> insert ((xs ! i)\<lparr>ps_request := 0\<rparr>) (set xs)"
    by (auto simp: to_front_def dest: in_set_takeD in_set_dropD)
  have "mset (map ps_tr xs) = mset (map ps_tr (take i xs @ xs ! i # drop (Suc i) xs))" using sp by simp
  then show "mset (map ps_tr (to_front i xs)) = mset (map ps_tr xs)" by (simp add: to_front_def)
  assume "sorted (map ps_request xs)"
  then have "sorted (map ps_request (take i xs @ xs ! i # drop (Suc i) xs))" using sp by simp
  then show "sorted (map ps_request (to_front i xs))" by (auto simp: to_front_def sorted_append)
qed

lemma restart_keeps_inv:
  assumes "sched_inv k" "home_ok k t" "restart k t = Some (r, k')"
  shows "sched_inv k'"
proof -
  let ?c = "home k t" and ?s = "sc k (home k t)"
  have h: "home_cpu k t = int ?c" "?c < cpu_count k" using home_range [OF assms(2)] by simp_all
  then have q: "quiet k ?c"
    using assms(3) by (auto simp: restart_def bind_eq_Some Let_def dest: sched_lock_quiet)
  have mem: "t \<in> ps_tr ` set (pause_list ?s)"
  proof (rule ccontr)
    assume "t \<notin> ps_tr ` set (pause_list ?s)"
    then have "find_paused ?s t = pause_count ?s"
      using find_paused_in [of t ?s] arr_find_le [of 0 "pause_count ?s"] by (auto simp: find_paused_def le_less)
    then show False using assms(3) h q by (auto simp: restart_def sched_lock_ok Let_def)
  qed
  then have "find_paused ?s t < pause_count ?s" by (simp add: find_paused_in)
  then have i: "find_paused ?s t < length (pause_list ?s)" by (simp add: pause_list_def)
  obtain pq where fr: "sched_frame ?c k k'" and s': "sc k' ?c = ?s\<lparr>pause_queue := pq, si_idle := False,
      lock_flags := ints k, nested_lock := 0, lock_scheduler := False,
      si_running := (if ?c \<noteq> CPUID k then False else si_running ?s),
      si_current_thread := (if ?c \<noteq> CPUID k then None else si_current_thread ?s)\<rparr>"
    and pq: "arr_list pq (pause_count ?s) = to_front (find_paused ?s t) (pause_list ?s)"
    using restart_ok [OF assms(2) q mem] assms(3) by auto
  have l: "run_list (sc k' ?c) = run_list ?s" "pause_list (sc k' ?c) = to_front (find_paused ?s t) (pause_list ?s)"
    using pq by (simp_all add: s' run_list_def pause_list_def)
  have inv: "cpu_inv k ?c" using assms(1) h(2) by (simp add: sched_inv_def)
  note tf = to_front_facts [OF i]
  have thr: "threads k' = threads k" "cpu_count k' = cpu_count k" using fr by (simp_all add: sched_frame_def)
  then have ht: "home k' u = home k u" for u by (intro home_cong) auto
  have sl: "sleeper_ok (threads k') (sc k' ?c) p \<and> home k (ps_tr p) = ?c"
    if p: "p \<in> set (to_front (find_paused ?s t) (pause_list ?s))" for p
  proof -
    obtain p0 where "p0 \<in> set (pause_list ?s)" "ps_tr p = ps_tr p0" "ps_state p = ps_state p0"
    proof -
      have "p = (pause_list ?s ! find_paused ?s t)\<lparr>ps_request := 0\<rparr> \<or> p \<in> set (pause_list ?s)"
        using p tf(2) by blast
      then show thesis using that nth_mem [OF i] by auto
    qed
    moreover have "sleeper_ok (threads k) ?s p0 \<and> home k (ps_tr p0) = ?c"
      using inv calculation(1) by (simp add: cpu_inv_def Let_def)
    ultimately show ?thesis by (simp add: sleeper_ok_def l thr) (simp add: s')
  qed
  have "distinct (map ps_tr (to_front (find_paused ?s t) (pause_list ?s)))"
    using inv mset_eq_imp_distinct_iff [OF tf(3)] by (simp add: cpu_inv_def Let_def)
  then have "cpu_inv k' ?c"
    using inv sl tf(4) unfolding cpu_inv_def Let_def l ht thr
    by (auto simp: s' pos_ok_def)
  then show ?thesis
    using assms(1) fr by (intro sched_inv_one [of k k' ?c]) (auto simp: sched_frame_def same_queues_def same_thread_def)
qed

text \<open>A thread that is not between its request to sleep and the scheduler's reaction to it.\<close>

definition not_pausing :: "kstate \<Rightarrow> addr \<Rightarrow> bool" where
  "not_pausing k t \<longleftrightarrow> (\<forall>c<cpu_count k. t \<in> ps_tr ` set (pause_list (sc k c)) \<longrightarrow> t \<notin> set (run_list (sc k c)))"

lemma request_keeps_inv:
  assumes "sched_inv k" "CPUID k < cpu_count k" "current_thread k = Some t" "not_pausing k t"
    "t_state (threads k t) = THREAD_RUNNING"
    "k' = (upd_sched (CPUID k) (\<lambda>s. s\<lparr>requesting_thread := Some t, requesting_state := st\<rparr>) k)\<lparr>ints := i\<rparr>"
  shows "sched_inv k'"
proof -
  let ?c = "CPUID k" and ?s = "sc k (CPUID k)"
  have inv: "cpu_inv k ?c" using assms(1,2) by (simp add: sched_inv_def)
  have s': "sc k' ?c = ?s\<lparr>requesting_thread := Some t, requesting_state := st\<rparr>" and thr: "threads k' = threads k"
    and n: "cpu_count k' = cpu_count k" and d: "\<And>d. d \<noteq> ?c \<Longrightarrow> sc k' d = sc k d"
    using assms(6) by auto
  have l: "run_list (sc k' ?c) = run_list ?s" "pause_list (sc k' ?c) = pause_list ?s"
    by (simp_all add: s' run_list_def pause_list_def)
  have ht: "home k' u = home k u" for u using thr n by (intro home_cong) auto
  have cur: "si_current_thread ?s = Some t" using assms(3) by (simp add: current_thread_def)
  have "sleeper_ok (threads k') (sc k' ?c) p" if "p \<in> set (pause_list ?s)" "sleeper_ok (threads k) ?s p" for p
  proof -
    have "ps_tr p \<noteq> t \<or> t \<notin> set (run_list ?s)" using assms(2,4) that(1) by (auto simp: not_pausing_def)
    moreover have "requesting_thread ?s = Some (ps_tr p) \<Longrightarrow> ps_tr p = t"
      using inv cur by (auto simp: cpu_inv_def Let_def)
    ultimately show ?thesis using that(2) by (auto simp: sleeper_ok_def thr l)
  qed
  then have "cpu_inv k' ?c"
    using inv cur unfolding cpu_inv_def Let_def l ht thr by (auto simp: s' pos_ok_def)
  then show ?thesis
    using assms(1) d thr n by (intro sched_inv_one [of k k' ?c]) (auto simp: same_queues_def same_thread_def)
qed

lemma set_thread_state_keeps_inv:
  assumes inv: "sched_inv k" and ok: "home_ok k t" "not_pausing k t" "CPUID k < cpu_count k"
    and st: "set_thread_state k t st = Some k'"
  shows "sched_inv k'"
proof -
  let ?T = "threads k t"
  consider (same) "t_state ?T = st" | (cur) "t_state ?T \<noteq> st" "current_thread k = Some t"
    | (asleep) "t_state ?T \<noteq> st" "current_thread k \<noteq> Some t" "t_state ?T = THREAD_DORMANT" "t_duration ?T \<noteq> 0"
    | (run) "t_state ?T \<noteq> st" "current_thread k \<noteq> Some t" "t_state ?T = THREAD_RUNNING"
    | (other) "t_state ?T \<noteq> st" "current_thread k \<noteq> Some t" "t_state ?T \<noteq> THREAD_RUNNING"
        "\<not> (t_state ?T = THREAD_DORMANT \<and> t_duration ?T \<noteq> 0)"
    by blast
  then show ?thesis
  proof cases
    case same
    then show ?thesis using st inv by (simp add: set_thread_state_def)
  next
    case cur
    then have "t_state ?T = THREAD_RUNNING"
      using st by (simp add: set_thread_state_def split: if_splits)
    moreover from this have "k' = (upd_sched (CPUID k) (\<lambda>s. s\<lparr>requesting_thread := Some t, requesting_state := request_of st\<rparr>) k)\<lparr>ints := ints k\<rparr>"
      using st cur by (cases "ints k") (auto simp: set_thread_state_def disable_interrupts_def enable_interrupts_def
          upd_sched_def Let_def)
    ultimately show ?thesis using request_keeps_inv [OF inv ok(3) cur(2) ok(2)] by blast
  next
    case asleep
    then show ?thesis
      using st restart_keeps_inv [OF inv ok(1)] by (auto simp: set_thread_state_def bind_eq_Some split: if_splits)
  next
    case run
    then obtain r k1 where d: "dequeue k t = Some (r, k1)"
      and k': "k' = upd_thread t (\<lambda>r. r\<lparr>t_state := st\<rparr>) k1"
      using st by (auto simp: set_thread_state_def bind_eq_Some split: if_splits)
    obtain c where c: "t_cpu ?T = int c" "quiet k c" "t \<in> set (run_list (sc k c))"
      using dequeue_cases [OF d] by metis
    then have lt: "c < cpu_count k" by (simp add: quiet_def)
    from dequeue_ok [OF c(1,2) run(2) c(3)] d
    have "sched_frame c (upd_thread t (\<lambda>r. r\<lparr>t_cpu := -1\<rparr>) k) k1"
      "sc k1 c = (close_gap (find_queued (sc k c) t) (sc k c))\<lparr>si_idle := False, lock_flags := ints k,
        nested_lock := 0, lock_scheduler := False,
        si_running := (if c \<noteq> CPUID k then False else si_running (sc k c)),
        si_current_thread := (if c \<noteq> CPUID k then None else si_current_thread (sc k c))\<rparr>" by auto
    moreover have "t \<notin> ps_tr ` set (pause_list (sc k c))" using ok(2) c(3) lt by (auto simp: not_pausing_def)
    ultimately show ?thesis
      using dequeue_keeps_inv [OF inv lt c(3), where k' = k'] by (auto simp: k' sched_frame_def)
  next
    case other
    let ?k = "upd_thread t (\<lambda>r. r\<lparr>t_state := st\<rparr>) k"
    have nh: "t \<notin> held (sc k c)" if "c < cpu_count k" for c using unheld [OF inv that other(3,4)] .
    then have inv': "sched_inv ?k"
      by (intro sched_inv_unheld [OF inv, of _ t]) (auto simp: same_queues_def)
    show ?thesis
    proof (cases "st = THREAD_RUNNING")
      case True
      then obtain r where "queue ?k t = Some (r, k')"
        using st other by (auto simp: set_thread_state_def split: if_splits)
      then show ?thesis
        using queue_keeps_inv [OF inv', of t r k'] nh ok(1) True by (simp add: home_ok_def)
    next
      case False
      then show ?thesis using st other inv' by (auto simp: set_thread_state_def split: if_splits)
    qed
  qed
qed

text \<open>The current thread goes to sleep.\<close>

lemma sorted_insert_paused:
  fixes target :: u64
  assumes "sorted (map f xs)" "f x = target"
  shows "sorted (map f (takeWhile (\<lambda>p. f p \<le> target) xs @ x # dropWhile (\<lambda>p. f p \<le> target) xs))"
proof -
  have "sorted (map f (takeWhile (\<lambda>p. f p \<le> target) xs @ dropWhile (\<lambda>p. f p \<le> target) xs))"
    using assms(1) by simp
  then have s: "sorted (map f (takeWhile (\<lambda>p. f p \<le> target) xs))" "sorted (map f (dropWhile (\<lambda>p. f p \<le> target) xs))"
    "\<forall>a\<in>set (takeWhile (\<lambda>p. f p \<le> target) xs). \<forall>b\<in>set (dropWhile (\<lambda>p. f p \<le> target) xs). f a \<le> f b"
    by (simp_all only: map_append sorted_append set_map ball_simps) auto
  have "f b \<ge> target" if "b \<in> set (dropWhile (\<lambda>p. f p \<le> target) xs)" for b
  proof (cases "dropWhile (\<lambda>p. f p \<le> target) xs")
    case (Cons y ys)
    then have "\<not> f y \<le> target" by (metis hd_dropWhile list.discI list.sel(1))
    then show ?thesis using s(2) that Cons by auto
  next
    case Nil
    then show ?thesis using that by (metis empty_iff empty_set)
  qed
  moreover have "f a \<le> target" if "a \<in> set (takeWhile (\<lambda>p. f p \<le> target) xs)" for a
    using set_takeWhileD [OF that] by simp
  ultimately show ?thesis using s assms(2) by (auto simp: sorted_append)
qed

lemma pause_keeps_inv:
  assumes inv: "sched_inv k" and c: "CPUID k = c" "quiet k c" "current_thread k = Some t" "t \<in> set (run_list (sc k c))"
    "t \<notin> ps_tr ` set (pause_list (sc k c))" and p: "pause k t ms = Some (0, k')"
  shows "sched_inv k'"
proof -
  let ?s = "sc k c"
  have lt: "c < cpu_count k" using c(2) by (simp add: quiet_def)
  have ic: "cpu_inv k c" using inv lt by (simp add: sched_inv_def)
  have T: "t_cpu (threads k t) = int c" "t_state (threads k t) = THREAD_RUNNING" "home k t = c"
    using run_list_facts [OF inv lt c(4)] by auto
  have ms: "0 < ms" using p by (simp add: pause_def split: if_splits)
  have room: "pause_count ?s < pause_size ?s"
  proof (rule ccontr)
    assume "\<not> pause_count ?s < pause_size ?s"
    then have "pause_count ?s = pause_size ?s" using ic by (simp add: cpu_inv_def Let_def)
    then show False using p c(1,2) T ms by (auto simp: pause_def sched_lock_ok sched_unlock_ok quiet_def Let_def)
  qed
  let ?now = "st_systemTime (cpu k c)"
  from pause_ok [OF c(2,1) T(1) c(3) T(2) ms room] p
  have fr: "sched_frame c (upd_thread t (\<lambda>r. r\<lparr>t_duration := ms\<rparr>) k) k'"
    and s': "sc k' c = (insert_paused t THREAD_RUNNING (ms + ?now) ?now ?s)
      \<lparr>requesting_thread := Some t, requesting_state := Some THREAD_DORMANT, si_idle := False,
       lock_flags := ints k, nested_lock := 0, lock_scheduler := False\<rparr>" by auto
  let ?x = "\<lparr>ps_tr = t, ps_state = THREAD_RUNNING, ps_request = ms + ?now, ps_start = ?now\<rparr>"
  let ?tw = "takeWhile (\<lambda>p. ps_request p \<le> ms + ?now) (pause_list ?s)"
  let ?dw = "dropWhile (\<lambda>p. ps_request p \<le> ms + ?now) (pause_list ?s)"
  have l: "run_list (sc k' c) = run_list ?s" "pause_list (sc k' c) = ?tw @ ?x # ?dw"
    using insert_paused_list [of t THREAD_RUNNING "ms + ?now" ?now ?s]
    by (simp_all add: s' run_list_def pause_list_def) (simp add: insert_paused_def Let_def)
  have set': "set (?tw @ ?x # ?dw) = insert ?x (set (pause_list ?s))"
    by (metis Un_insert_right list.simps(15) set_append takeWhile_dropWhile_id)
  have "map ps_tr (pause_list ?s) = map ps_tr ?tw @ map ps_tr ?dw" by (metis map_append takeWhile_dropWhile_id)
  then have dis: "distinct (map ps_tr (?tw @ ?x # ?dw))"
    using ic c(5) by (auto simp: cpu_inv_def Let_def dest: set_takeWhileD set_dropWhileD)
  have srt: "sorted (map ps_request (?tw @ ?x # ?dw))"
    using ic by (intro sorted_insert_paused) (auto simp: cpu_inv_def Let_def)
  have th: "threads k' = (threads k)(t := (threads k t)\<lparr>t_duration := ms\<rparr>)" "cpu_count k' = cpu_count k"
    "\<And>d. d \<noteq> c \<Longrightarrow> sc k' d = sc k d"
    using fr by (simp_all add: sched_frame_def)
  then have ht: "home k' u = home k u" for u by (cases "u = t") (auto intro: home_cong)
  have cur: "si_current_thread ?s = Some t" using c(1,3) by (simp add: current_thread_def)
  have ms0: "ms \<noteq> 0" using ms by auto
  have sl: "sleeper_ok (threads k') (sc k' c) q \<and> home k (ps_tr q) = c" if q: "q \<in> insert ?x (set (pause_list ?s))" for q
  proof (cases "q = ?x")
    case True
    then show ?thesis using T(3) c(4) ms0 by (simp add: sleeper_ok_def l th) (simp add: s')
  next
    case False
    then have q: "q \<in> set (pause_list ?s)" using that by simp
    then have "ps_tr q \<noteq> t" using c(5) by auto
    moreover from this have "requesting_thread ?s \<noteq> Some (ps_tr q)"
      using ic cur by (auto simp: cpu_inv_def Let_def)
    ultimately show ?thesis
      using pause_list_facts [OF inv lt q] by (auto simp: sleeper_ok_def th)
  qed
  have "cpu_inv k' c"
    using ic sl dis srt room cur unfolding cpu_inv_def Let_def l ht set'
    by (auto simp: s' th pos_ok_def insert_paused_def Let_def)
  then show ?thesis
    using inv th T(3) by (intro sched_inv_one [of k k' c]) (auto simp: same_queues_def same_thread_def)
qed

lemma remove_last_keeps_inv:
  assumes inv: "sched_inv k" and lt: "c < cpu_count k" and r: "remove_last k c = Some k'"
  shows "sched_inv k' \<and> requesting_thread (sc k' c) = None"
proof (cases "requesting_thread (sc k c)")
  case None
  then show ?thesis using r inv by (auto simp: remove_last_def split: option.splits if_splits)
next
  case (Some t)
  then obtain st where st: "requesting_state (sc k c) = Some st"
    using r by (auto simp: remove_last_def split: option.splits)
  let ?s = "sc k c"
  have ic: "cpu_inv k c" using inv lt by (simp add: sched_inv_def)
  show ?thesis
  proof (cases "t \<in> set (run_list ?s)")
    case False
    then have k': "k' = upd_sched c (\<lambda>s. s\<lparr>requesting_thread := None, requesting_state := None\<rparr>) k"
      using r Some st by (simp add: remove_last_def find_queued_not_in Let_def)
    have ht: "home k' u = home k u" for u by (intro home_cong) (auto simp: k')
    have l: "run_list (sc k' c) = run_list ?s" "pause_list (sc k' c) = pause_list ?s"
      by (simp_all add: k' run_list_def pause_list_def)
    have "cpu_inv k' c"
      using ic False Some unfolding cpu_inv_def Let_def l ht by (auto simp: k' pos_ok_def sleeper_ok_def)
    then have "sched_inv k'"
      by (rule sched_inv_one [OF inv]) (auto simp: k' same_queues_def same_thread_def)
    then show ?thesis by (simp add: k')
  next
    case True
    then have k': "k' = upd_sched c (\<lambda>s. s\<lparr>requesting_thread := None, requesting_state := None\<rparr>)
        (upd_thread t (\<lambda>r. r\<lparr>t_state := st, t_cpu := -1\<rparr>) (upd_sched c (close_gap (find_queued ?s t)) k))"
      using r Some st by (simp add: remove_last_def find_queued_in Let_def)
    have ht: "home k' u = home k u" for u by (intro home_cong) (auto simp: k')
    have l: "run_list (sc k' c) = remove1 t (run_list ?s)" "pause_list (sc k' c) = pause_list ?s"
      using close_gap_list [OF True] by (simp_all add: k' run_list_def pause_list_def)
    have sl: "sleeper_ok (threads k') (sc k' c) p \<and> home k (ps_tr p) = c" if p: "p \<in> set (pause_list ?s)" for p
      using pause_list_facts [OF inv lt p] run_list_facts(1) [OF inv lt True] Some st
      by (cases "ps_tr p = t") (auto simp: sleeper_ok_def k')
    have "pos_ok (sc k' c)"
      using ic close_gap_pos [of ?s "find_queued ?s t"] by (simp add: cpu_inv_def Let_def pos_ok_def k' split: if_splits)
    moreover have "distinct (run_list ?s)" using ic by (simp add: cpu_inv_def Let_def)
    ultimately have "cpu_inv k' c"
      using ic sl unfolding cpu_inv_def Let_def l ht by (auto simp: k')
    moreover have "home k t = c" using run_list_facts(3) [OF inv lt True] .
    ultimately have "sched_inv k'"
      using inv by (intro sched_inv_one [of k k' c]) (auto simp: k' same_queues_def same_thread_def)
    then show ?thesis by (simp add: k')
  qed
qed

lemma wake_loop_fits:
  "wake_loop k c time cnt = Some (n, k') \<Longrightarrow> sched_count (sc k c) \<le> sched_size (sc k c) \<Longrightarrow>
   sched_count (sc k c) + length (takeWhile (\<lambda>p. ps_request p \<le> time) (rest_list (sc k c) cnt)) \<le> sched_size (sc k c)"
proof (induction k c time cnt rule: wake_loop.induct)
  case (1 k c time cnt)
  show ?case
  proof (cases "pause_count (sc k c) \<noteq> 0 \<and> ps_request (pause_queue (sc k c) cnt) \<le> time")
    case True
    then obtain m where m: "pause_count (sc k c) = Suc m" by (cases "pause_count (sc k c)") auto
    have ne: "sched_count (sc k c) \<noteq> sched_size (sc k c)"
      using "1.prems"(1) True by (auto simp: wake_loop.simps [of k c] Let_def)
    let ?ps = "pause_queue (sc k c) cnt"
    let ?k1 = "upd_sched c (\<lambda>s. s\<lparr>sched_queue := (sched_queue s)(sched_count s := ps_tr ?ps),
          sched_count := sched_count s + 1, pause_count := pause_count s - 1\<rparr>)
        (upd_thread (ps_tr ?ps) (\<lambda>t. t\<lparr>t_state := ps_state ?ps, t_duration := time - ps_start ?ps,
          t_cpu := int (si_cpu_id (sc k c))\<rparr>) k)"
    have "wake_loop ?k1 c time (cnt + 1) = Some (n, k')"
      using "1.prems"(1) True ne by (simp add: wake_loop.simps [of k c] Let_def)
    from "1.IH" [OF True refl refl ne this] ne "1.prems"(2)
    have "sched_count (sc k c) + 1 +
        length (takeWhile (\<lambda>p. ps_request p \<le> time) (arr_list (\<lambda>i. pause_queue (sc k c) (Suc (cnt + i))) m)) \<le> sched_size (sc k c)"
      by (simp add: rest_list_def m)
    moreover have "rest_list (sc k c) cnt = ?ps # arr_list (\<lambda>i. pause_queue (sc k c) (Suc (cnt + i))) m"
      by (simp add: rest_list_def m arr_list_Cons)
    ultimately show ?thesis using True by simp
  next
    case False
    then have "takeWhile (\<lambda>p. ps_request p \<le> time) (rest_list (sc k c) cnt) = []"
      by (cases "pause_count (sc k c)") (auto simp: rest_list_def arr_list_Cons)
    then show ?thesis using "1.prems"(2) by simp
  qed
qed

lemma remove_timers_fits:
  assumes "remove_timers k c time = Some (r, k')" "sched_count (sc k c) \<le> sched_size (sc k c)"
  shows "sched_count (sc k c) + length (takeWhile (\<lambda>p. ps_request p \<le> time) (pause_list (sc k c))) \<le> sched_size (sc k c)"
proof (cases "pause_count (sc k c) = 0")
  case False
  then obtain n k1 where "wake_loop k c time 0 = Some (n, k1)"
    using assms(1) by (auto simp: remove_timers_def bind_eq_Some)
  from wake_loop_fits [OF this assms(2)] show ?thesis by (simp add: rest_list_def pause_list_def)
qed (use assms(2) in \<open>simp add: pause_list_def\<close>)

lemma remove_timers_keeps_inv:
  assumes inv: "sched_inv k" and lt: "c < cpu_count k" and req: "requesting_thread (sc k c) = None"
    and r: "remove_timers k c time = Some (x, k')"
  shows "sched_inv k' \<and> requesting_thread (sc k' c) = None"
proof -
  let ?s = "sc k c"
  define ws where "ws = takeWhile (\<lambda>p. ps_request p \<le> time) (pause_list ?s)"
  define rest where "rest = dropWhile (\<lambda>p. ps_request p \<le> time) (pause_list ?s)"
  have ic: "cpu_inv k c" using inv lt by (simp add: sched_inv_def)
  then have fits: "sched_count ?s + length ws \<le> sched_size ?s" and id: "si_cpu_id ?s = c"
    using remove_timers_fits [OF r] by (simp_all add: cpu_inv_def Let_def ws_def)
  obtain q pq where k': "k' = upd_sched c (\<lambda>s. s\<lparr>sched_queue := q, sched_count := sched_count s + length ws,
          pause_count := length rest, pause_queue := pq\<rparr>)
        (k\<lparr>threads := wake_threads time c ws (threads k)\<rparr>)"
    and q: "arr_list q (sched_count ?s + length ws) = run_list ?s @ map ps_tr ws" "arr_list pq (length rest) = rest"
    using remove_timers_ok [OF id ws_def rest_def fits] r by auto
  have split: "pause_list ?s = ws @ rest" by (simp add: ws_def rest_def)
  have l: "run_list (sc k' c) = run_list ?s @ map ps_tr ws" "pause_list (sc k' c) = rest"
    using q by (simp_all add: k' run_list_def pause_list_def)
  have dw: "distinct (map ps_tr ws)" "ps_tr ` set ws \<inter> ps_tr ` set rest = {}" "distinct (map ps_tr rest)"
    using ic by (auto simp: cpu_inv_def Let_def split)
  have slp: "t_state (threads k (ps_tr p)) = THREAD_DORMANT" "t_cpu (threads k (ps_tr p)) = -1" "ps_state p = THREAD_RUNNING"
      "t_duration (threads k (ps_tr p)) \<noteq> 0" "home k (ps_tr p) = c"
    if "p \<in> set ws \<union> set rest" for p
    using pause_list_facts [OF inv lt, of p] that req by (auto simp: split)
  have run: "ps_tr p \<notin> set (run_list ?s)" if "p \<in> set ws \<union> set rest" for p
    using slp(1) [OF that] run_list_facts(1) [OF inv lt] by force
  have th: "threads k' = wake_threads time c ws (threads k)" by (simp add: k')
  have same: "t \<notin> ps_tr ` set ws \<Longrightarrow> threads k' t = threads k t" for t by (simp add: th wake_threads_other)
  have wk: "p \<in> set ws \<Longrightarrow> threads k' (ps_tr p) = woken time c p (threads k (ps_tr p))" for p
    using wake_threads_in [OF dw(1)] by (simp add: th)
  have ids: "t_tid (threads k' t) = t_tid (threads k t) \<and> t_cpu_affinity (threads k' t) = t_cpu_affinity (threads k t)" for t
    using same [of t] wk by (cases "t \<in> ps_tr ` set ws") (auto simp: woken_def)
  have cnt: "cpu_count k' = cpu_count k" by (simp add: k')
  have ht: "home k' u = home k u" for u using ids cnt by (intro home_cong) auto
  have "cpu_inv k' c"
    unfolding cpu_inv_def Let_def l ht
  proof (intro conjI)
    show "distinct (run_list ?s @ map ps_tr ws)" using ic dw(1) run by (auto simp: cpu_inv_def Let_def)
    show "\<forall>t\<in>set (run_list ?s @ map ps_tr ws). t_state (threads k' t) = THREAD_RUNNING \<and>
        t_cpu (threads k' t) = int c \<and> home k t = c"
    proof
      fix t assume "t \<in> set (run_list ?s @ map ps_tr ws)"
      then consider "t \<in> set (run_list ?s)" "t \<notin> ps_tr ` set ws" | p where "p \<in> set ws" "t = ps_tr p"
        using run by auto
      then show "t_state (threads k' t) = THREAD_RUNNING \<and> t_cpu (threads k' t) = int c \<and> home k t = c"
        by cases (use same [of t] wk slp run_list_facts [OF inv lt, of t] in \<open>auto simp: woken_def\<close>)
    qed
    show "\<forall>p\<in>set rest. sleeper_ok (threads k') (sc k' c) p \<and> home k (ps_tr p) = c"
    proof
      fix p assume p: "p \<in> set rest"
      then have "ps_tr p \<notin> ps_tr ` set ws" using dw(2) by auto
      then show "sleeper_ok (threads k') (sc k' c) p \<and> home k (ps_tr p) = c"
        using slp [of p] p same by (simp add: sleeper_ok_def)
    qed
    have "sorted (map ps_request ws @ map ps_request rest)" using ic by (simp add: cpu_inv_def Let_def split)
    then show "sorted (map ps_request rest)" by (simp add: sorted_append)
    show "pos_ok (sc k' c)" using ic by (auto simp: cpu_inv_def Let_def pos_ok_def k' split: if_splits)
    have "length (pause_list ?s) = pause_count ?s" by (simp add: pause_list_def)
    then show "pause_count (sc k' c) \<le> pause_size (sc k' c)"
      using ic by (simp add: cpu_inv_def Let_def k' split)
  qed (use ic fits dw(3) req in \<open>auto simp: cpu_inv_def Let_def k'\<close>)
  moreover have "same_thread (threads k u) (threads k' u)" if "home k u \<noteq> c" for u
  proof -
    have "u \<notin> ps_tr ` set ws" using that slp(5) by auto
    then show ?thesis using same by (simp add: same_thread_def)
  qed
  ultimately have "sched_inv k'"
    using inv cnt by (intro sched_inv_one [of k k' c]) (auto simp: k' same_queues_def)
  then show ?thesis using req by (simp add: k')
qed

subsection \<open>What the scheduler never touches\<close>

text \<open>
  Whatever the state, changing a thread's state leaves the processes, the process table and
  the family trees alone, and of every thread all but its state, duration and CPU.
\<close>

definition sched_only :: "kstate \<Rightarrow> kstate \<Rightarrow> bool" where
  "sched_only k k' \<longleftrightarrow> procs k' = procs k \<and> cpu_count k' = cpu_count k \<and> CPUID k' = CPUID k \<and>
     tfam k' = tfam k \<and> tlist k' = tlist k \<and> pfam k' = pfam k \<and> plist k' = plist k \<and>
     l_processTable k' = l_processTable k \<and> l_rootProcess k' = l_rootProcess k \<and>
     l_processLock k' = l_processLock k \<and>
     (\<forall>a. \<exists>s d c. threads k' a = (threads k a)\<lparr>t_state := s, t_duration := d, t_cpu := c\<rparr>)"

lemma sched_only_refl: "sched_only k k"
proof -
  have "t = t\<lparr>t_state := t_state t, t_duration := t_duration t, t_cpu := t_cpu t\<rparr>" for t by (cases t) simp
  then show ?thesis unfolding sched_only_def by blast
qed

lemma sched_only_trans: "sched_only k k' \<Longrightarrow> sched_only k' k'' \<Longrightarrow> sched_only k k''"
proof -
  assume a: "sched_only k k'" "sched_only k' k''"
  have "\<exists>s d c. threads k'' x = (threads k x)\<lparr>t_state := s, t_duration := d, t_cpu := c\<rparr>" for x
  proof -
    obtain s d c s' d' c' where "threads k' x = (threads k x)\<lparr>t_state := s, t_duration := d, t_cpu := c\<rparr>"
      "threads k'' x = (threads k' x)\<lparr>t_state := s', t_duration := d', t_cpu := c'\<rparr>"
      using a unfolding sched_only_def by meson
    then have "threads k'' x = (threads k x)\<lparr>t_state := s', t_duration := d', t_cpu := c'\<rparr>" by simp
    then show ?thesis by blast
  qed
  with a show ?thesis by (simp add: sched_only_def)
qed

lemma sched_only_threads:
  assumes "sched_only k k'"
  shows "t_tid (threads k' a) = t_tid (threads k a)" "t_process (threads k' a) = t_process (threads k a)"
    "t_ports (threads k' a) = t_ports (threads k a)" "t_name (threads k' a) = t_name (threads k a)"
    "t_last_port_pulse (threads k' a) = t_last_port_pulse (threads k a)"
    "t_last_port_message (threads k' a) = t_last_port_message (threads k a)"
proof -
  obtain s d c where "threads k' a = (threads k a)\<lparr>t_state := s, t_duration := d, t_cpu := c\<rparr>"
    using assms unfolding sched_only_def by meson
  then show "t_tid (threads k' a) = t_tid (threads k a)" "t_process (threads k' a) = t_process (threads k a)"
    "t_ports (threads k' a) = t_ports (threads k a)" "t_name (threads k' a) = t_name (threads k a)"
    "t_last_port_pulse (threads k' a) = t_last_port_pulse (threads k a)"
    "t_last_port_message (threads k' a) = t_last_port_message (threads k a)"
    by simp_all
qed

lemma sched_only_upd:
  "sched_only k (upd_sched c f k)"
  "(\<And>t. \<exists>s d c. g t = t\<lparr>t_state := s, t_duration := d, t_cpu := c\<rparr>) \<Longrightarrow> sched_only k (upd_thread a g k)"
  "sched_only k (k\<lparr>ints := i\<rparr>)" "sched_only k (k\<lparr>ipis := l\<rparr>)"
  using sched_only_refl [of k] by (simp_all add: sched_only_def)

lemma sched_only_lock: "sched_lock k c b = Some k' \<Longrightarrow> sched_only k k'"
  using sched_only_refl [of k]
  by (auto simp: sched_lock_def disable_interrupts_def Let_def sched_only_def split: if_splits)

lemma sched_only_unlock: "sched_unlock k c = Some k' \<Longrightarrow> sched_only k k'"
  using sched_only_refl [of k]
  by (auto simp: sched_unlock_def enable_interrupts_def Let_def sched_only_def split: if_splits)

lemma sched_only_upd_left [simp]: "sched_only (upd_sched c f k) k' \<longleftrightarrow> sched_only k k'"
  by (simp add: sched_only_def)

lemma sched_only_sub_queue: "sub_queue k c t = Some (r, k') \<Longrightarrow> sched_only k k'"
  by (auto simp: sub_queue_def Let_def bind_eq_Some split: if_splits
      dest!: sched_only_lock sched_only_unlock intro: sched_only_trans)

lemma sched_only_sub_dequeue: "sub_dequeue k c t = Some (r, k') \<Longrightarrow> sched_only k k'"
  by (auto simp: sub_dequeue_def Let_def bind_eq_Some split: if_splits
      dest!: sched_only_lock sched_only_unlock intro: sched_only_trans)

lemma sched_only_restart: "restart k t = Some (r, k') \<Longrightarrow> sched_only k k'"
  by (auto simp: restart_def Let_def bind_eq_Some split: if_splits
      dest!: sched_only_lock sched_only_unlock intro: sched_only_trans)

lemma t_cpu_upd_ex: "\<exists>s d c. t\<lparr>t_cpu := i\<rparr> = t\<lparr>t_state := s, t_duration := d, t_cpu := c\<rparr>"
  by (rule exI [of _ "t_state t"], rule exI [of _ "t_duration t"], rule exI [of _ i]) (cases t, simp)

lemma t_state_upd_ex: "\<exists>s d c. t\<lparr>t_state := i\<rparr> = t\<lparr>t_state := s, t_duration := d, t_cpu := c\<rparr>"
  by (rule exI [of _ i], rule exI [of _ "t_duration t"], rule exI [of _ "t_cpu t"]) (cases t, simp)

lemma sched_only_set_cpu: "sched_only k (upd_thread t (\<lambda>r. r\<lparr>t_cpu := c\<rparr>) k)"
  by (rule sched_only_upd(2)) (rule t_cpu_upd_ex)

lemma sched_only_queue: "queue k t = Some (r, k') \<Longrightarrow> sched_only k k'"
  using sched_only_trans [OF sched_only_set_cpu]
  by (auto simp: queue_def Let_def split: if_splits dest!: sched_only_sub_queue)

lemma sched_only_dequeue: "dequeue k t = Some (r, k') \<Longrightarrow> sched_only k k'"
  using sched_only_trans [OF _ sched_only_set_cpu]
  by (auto simp: dequeue_def Let_def bind_eq_Some split: if_splits dest!: sched_only_sub_dequeue)

lemma sched_only_set_state:
  assumes "set_thread_state k t st = Some k'"
  shows "sched_only k k'"
proof -
  let ?s = "upd_thread t (\<lambda>r. r\<lparr>t_state := st\<rparr>)"
  have other: "sched_only k k'"
    if "(if t_state (threads k t) = THREAD_RUNNING then map_option snd (dequeue k t) else Some k) = Some k1"
      "(if st = THREAD_RUNNING then map_option snd (queue (?s k1) t) else Some (?s k1)) = Some k'" for k1
  proof -
    have "sched_only k k1" using that(1) sched_only_refl by (auto split: if_splits dest: sched_only_dequeue)
    moreover have "sched_only k1 (?s k1)" by (rule sched_only_upd(2)) (rule t_state_upd_ex)
    moreover have "sched_only (?s k1) k'" using that(2) sched_only_refl by (auto split: if_splits dest: sched_only_queue)
    ultimately show ?thesis by (blast intro: sched_only_trans)
  qed
  have self: "sched_only k (upd_sched c f (k\<lparr>ints := i\<rparr>))" "sched_only k ((upd_sched c f (k\<lparr>ints := i\<rparr>))\<lparr>ints := j\<rparr>)" for c f i j
    using sched_only_refl [of k] by (simp_all add: sched_only_def)
  show ?thesis
    using assms other self sched_only_refl
    by (auto simp: set_thread_state_def disable_interrupts_def enable_interrupts_def Let_def bind_eq_Some
        split: if_splits dest: sched_only_restart)
qed

end
