(* ===== verification/Scheduling.thy ===== *)
theory Scheduling
  imports Scheduler
begin

section \<open>The scheduler as a state machine, and its properties\<close>

text \<open>
  The steps the CPUs take, in any order: threads call \<open>set_thread_state\<close> and \<open>pause\<close>, the
  scheduling loop of a CPU leaves the thread, honours its request, wakes sleepers, chooses
  and enters the next thread, time passes, and another CPU takes its turn. Every reachable
  state satisfies the invariant of theory Scheduler. The properties on waking, fairness,
  the fast queue and the locks follow.

  The guards are the order of calls in the code: \<open>remove_last\<close> runs before the next
  selection (an interrupt thread, which skips it, cannot request a state change, since the
  request asserts the running state), and \<open>pause\<close> is called for the running thread by
  \<open>go_dormant\<close>, which then gives up the processor. Nothing in the code keeps another CPU from changing the state of a
  thread between its own \<open>pause\<close> and the scheduler's reaction. A step carries the thread whose state is
  changed, and a run is taken under a condition \<open>calls\<close> on these changes. \<open>sched_reachable\<close> are the states of the runs without such a change
  (\<open>not_pausing\<close>); \<open>suspend_loses_sleeper\<close> and \<open>pausing_queues_twice\<close> show what happens otherwise.
\<close>

inductive sched_step :: "kstate \<Rightarrow> addr option \<Rightarrow> kstate \<Rightarrow> bool" where
  Call: "\<lbrakk>home_ok k t; CPUID k < cpu_count k; set_thread_state k t st = Some k'\<rbrakk> \<Longrightarrow> sched_step k (Some t) k'"
| Sleep: "\<lbrakk>current_thread k = Some t; t \<in> set (run_list (sc k (CPUID k)));
    t \<notin> ps_tr ` set (pause_list (sc k (CPUID k))); pause k t ms = Some (r, k')\<rbrakk> \<Longrightarrow> sched_step k None k'"
| Leave: "\<lbrakk>c < cpu_count k; exec_leave k c = Some k'\<rbrakk> \<Longrightarrow> sched_step k None k'"
| Honour: "\<lbrakk>c < cpu_count k; remove_last k c = Some k'\<rbrakk> \<Longrightarrow> sched_step k None k'"
| Select: "\<lbrakk>c < cpu_count k; requesting_thread (sc k c) = None;
    scheduler_select k c flip gc_work = Some (ch, ms, idle, flip', k')\<rbrakk> \<Longrightarrow> sched_step k None k'"
| Enter: "\<lbrakk>c < cpu_count k; requesting_thread (sc k c) = None\<rbrakk> \<Longrightarrow> sched_step k None (exec_enter k c t idle)"
| Clock: "sched_step k None (k\<lparr>cpu := (cpu k)(c := (cpu k c)\<lparr>st_systemTime := now\<rparr>)\<rparr>)"
| Other_CPU: "c < cpu_count k \<Longrightarrow> sched_step k None (k\<lparr>CPUID := c, ints := i\<rparr>)"

inductive_cases sched_stepE: "sched_step k w k'"

text \<open>\<open>load_scheduler\<close> runs for every CPU before any thread is queued.\<close>

fun load_all :: "nat \<Rightarrow> kstate \<Rightarrow> kstate" where
  "load_all 0 k = k"
| "load_all (Suc n) k = load_scheduler (load_all n k) n"

inductive sched_runs :: "(kstate \<Rightarrow> addr \<Rightarrow> bool) \<Rightarrow> kstate \<Rightarrow> bool" for calls where
  Boot: "sched_runs calls (load_all (cpu_count k) k)"
| Step: "sched_runs calls k \<Longrightarrow> sched_step k w k' \<Longrightarrow> pred_option (calls k) w \<Longrightarrow> sched_runs calls k'"

abbreviation sched_reachable :: "kstate \<Rightarrow> bool" where
  "sched_reachable \<equiv> sched_runs not_pausing"

lemmas quiet_step = sched_runs.Step [where w = None, simplified]

lemma load_all_fields:
  "cpu_count (load_all n k) = cpu_count k"
  "c < n \<Longrightarrow> si_cpu_id (sc (load_all n k) c) = c"
  "c < n \<Longrightarrow> sched_count (sc (load_all n k) c) = 0 \<and> pause_count (sc (load_all n k) c) = 0"
  "c < n \<Longrightarrow> sched_size (sc (load_all n k) c) = 1024 \<and> position (sc (load_all n k) c) = 0"
  "c < n \<Longrightarrow> requesting_thread (sc (load_all n k) c) = None"
  by (induction n) (auto simp: load_scheduler_def INITIAL_SCHED_SIZE_def)

lemma load_all_inv: "sched_inv (load_all (cpu_count k) k)"
  using load_all_fields [where n = "cpu_count k" and k = k]
  by (simp add: sched_inv_def cpu_inv_def Let_def run_list_def pause_list_def pos_ok_def)

lemma sched_inv_same:
  assumes "sched_inv k" "\<And>c. same_queues (sc k c) (sc k' c)" "cpu_count k' = cpu_count k" "threads k' = threads k"
  shows "sched_inv k'"
  unfolding sched_inv_def assms(3)
proof (intro allI impI)
  fix c assume "c < cpu_count k"
  then show "cpu_inv k' c"
    using assms by (intro cpu_inv_frame [of k c k']) (auto simp: sched_inv_def same_thread_def)
qed

lemma pause_full:
  assumes "quiet k c" "CPUID k = c" "t_cpu (threads k t) = int c" "0 < ms" "pause_count (sc k c) = pause_size (sc k c)"
  shows "\<exists>k'. pause k t ms = Some (-1, k') \<and> threads k' = threads k \<and> cpu_count k' = cpu_count k \<and>
    (\<forall>d. same_queues (sc k d) (sc k' d))"
  using assms by (auto simp: pause_def sched_crit sched_frame_def same_queues_def Let_def)

lemma pause_step_inv:
  assumes inv: "sched_inv k" and cur: "current_thread k = Some t" and run: "t \<in> set (run_list (sc k (CPUID k)))"
    and np: "t \<notin> ps_tr ` set (pause_list (sc k (CPUID k)))" and p: "pause k t ms = Some (r, k')"
  shows "sched_inv k'"
proof -
  let ?c = "CPUID k"
  have a: "0 < ms" "t_cpu (threads k t) = int ?c" and "\<exists>k1. sched_lock k (int ?c) False = Some k1"
    using p by (auto simp: pause_def bind_eq_Some Let_def split: if_splits)
  then have q: "quiet k ?c" by (auto dest: sched_lock_quiet)
  then have lt: "?c < cpu_count k" by (simp add: quiet_def)
  show ?thesis
  proof (cases "pause_count (sc k ?c) = pause_size (sc k ?c)")
    case True
    then show ?thesis
      using pause_full [OF q refl a(2,1)] p by (auto intro: sched_inv_same [OF inv])
  next
    case False
    have "pause_count (sc k ?c) \<le> pause_size (sc k ?c)" "t_state (threads k t) = THREAD_RUNNING"
      using inv lt run_list_facts(1) [OF inv lt run] by (auto simp: sched_inv_def cpu_inv_def Let_def)
    then have "r = 0" using pause_ok [OF q refl a(2) cur _ a(1)] False p by auto
    then show ?thesis using pause_keeps_inv [OF inv refl q cur run np] p by simp
  qed
qed

lemma remove_timers_count:
  assumes "remove_timers k c time = Some (r, k')" "sched_inv k" "c < cpu_count k"
  shows "cpu_count k' = cpu_count k"
  using assms remove_timers_fits [OF assms(1)] remove_timers_ok [OF _ refl refl, where k = k and c = c and time = time]
  by (auto simp: sched_inv_def cpu_inv_def Let_def)

lemma position_step:
  assumes "sched_count s < 2 ^ 31" "pos_ok s" "sched_count s \<noteq> 0"
  shows "unat ((position s + 1) mod of_nat (sched_count s)) = (unat (position s) + 1) mod sched_count s"
proof -
  have "unat (position s) + 1 < 2 ^ 32" using assms by (simp add: pos_ok_def)
  then have "unat (position s + 1) = unat (position s) + 1" by (simp add: unat_word_ariths)
  then show ?thesis using assms(1) unat_of_small [of "sched_count s"] by (simp add: unat_mod)
qed

lemma select_keeps_inv:
  assumes inv: "sched_inv k" and lt: "c < cpu_count k" and req: "requesting_thread (sc k c) = None"
    and s: "scheduler_select k c flip gc_work = Some (ch, ms, idle, flip', k')"
  shows "sched_inv k'"
proof -
  obtain x k1 where r: "remove_timers k c (st_systemTime (cpu k c)) = Some (x, k1)"
    and k': "k' = k1 \<or> sched_count (sc k1 c) \<noteq> 0 \<and>
      k' = upd_sched c (\<lambda>s. s\<lparr>position := (position s + 1) mod of_nat (sched_count s)\<rparr>) k1"
    using s by (fastforce simp: scheduler_select_def bind_eq_Some split: option.splits if_splits)
  have inv1: "sched_inv k1" and n: "cpu_count k1 = cpu_count k"
    using remove_timers_keeps_inv [OF inv lt req r] remove_timers_count [OF r inv lt] by auto
  from k' show ?thesis
  proof
    assume k': "sched_count (sc k1 c) \<noteq> 0 \<and>
      k' = upd_sched c (\<lambda>s. s\<lparr>position := (position s + 1) mod of_nat (sched_count s)\<rparr>) k1"
    have ic: "cpu_inv k1 c" using inv1 lt n by (simp add: sched_inv_def)
    have ht: "home k' u = home k1 u" for u using k' by (intro home_cong) auto
    have l: "run_list (sc k' c) = run_list (sc k1 c)" "pause_list (sc k' c) = pause_list (sc k1 c)"
      using k' by (simp_all add: run_list_def pause_list_def)
    have "pos_ok (sc k' c)"
      using ic k' position_step [of "sc k1 c"] by (simp add: pos_ok_def cpu_inv_def Let_def)
    then have "cpu_inv k' c"
      using ic k' unfolding cpu_inv_def Let_def l ht by (auto simp: sleeper_ok_def run_list_def)
    then show ?thesis
      by (rule sched_inv_one [OF inv1]) (use k' in \<open>auto simp: same_queues_def same_thread_def\<close>)
  qed (use inv1 in simp)
qed

lemma sched_step_inv: "sched_step k w k' \<Longrightarrow> pred_option (not_pausing k) w \<Longrightarrow> sched_inv k \<Longrightarrow> sched_inv k'"
proof (induction rule: sched_step.induct)
  case (Call k t st k')
  then show ?case by (auto intro: set_thread_state_keeps_inv)
next
  case (Sleep k t ms r k')
  then show ?case by (auto intro: pause_step_inv)
next
  case (Leave c k k')
  then have k': "k' = upd_sched c (\<lambda>s. s\<lparr>si_current_thread := None, si_running := False, lock_scheduler := True, si_idle := False\<rparr>) k"
    by (auto simp: exec_leave_def upd_sched_def Let_def split: if_splits)
  show ?case
    using Leave by (intro sched_inv_same [of k k']) (auto simp: k' same_queues_def)
next
  case (Honour c k k')
  then show ?case using remove_last_keeps_inv by blast
next
  case (Select c k flip gc_work ch ms idle flip' k')
  then show ?case using select_keeps_inv by blast
next
  case (Enter c k t idle)
  let ?k = "exec_enter k c t idle"
  have ic: "cpu_inv k c" using Enter by (simp add: sched_inv_def)
  have ht: "home ?k u = home k u" for u by (intro home_cong) (auto simp: exec_enter_def)
  have l: "run_list (sc ?k c) = run_list (sc k c)" "pause_list (sc ?k c) = pause_list (sc k c)"
    by (simp_all add: exec_enter_def run_list_def pause_list_def)
  have "cpu_inv ?k c"
    using ic Enter(2) unfolding cpu_inv_def Let_def l ht
    by (auto simp: exec_enter_def sleeper_ok_def pos_ok_def)
  then show ?case
    by (rule sched_inv_one [OF Enter(4)]) (auto simp: exec_enter_def same_queues_def same_thread_def)
next
  case (Clock k c now)
  show ?case by (rule sched_inv_same [OF Clock(2)]) (auto simp: same_queues_def)
next
  case (Other_CPU c k i)
  show ?case by (rule sched_inv_same [OF Other_CPU(3)]) (auto simp: same_queues_def)
qed

lemma sched_reachable_inv: "sched_reachable k \<Longrightarrow> sched_inv k"
  by (induction rule: sched_runs.induct) (auto intro: load_all_inv sched_step_inv)

subsection \<open>Properties\<close>

text \<open>
  C1. In every state that a run of the machine reaches in which no CPU changes the state of a thread that has paused and has not left its CPU yet, on every CPU: no
  thread is queued twice, no thread is queued on two CPUs, every queued thread is in the running state and knows the
  CPU, the round-robin position is inside the queue, sleepers are ordered by their wake-up
  time, and no queue has outgrown its array. The condition on the runs is needed (\<open>pausing_queues_twice\<close>).
\<close>

theorem sched_queues_sound:
  assumes "sched_runs not_pausing k" "c < cpu_count k"
  shows "distinct (run_list (sc k c)) \<and>
    (\<forall>t\<in>set (run_list (sc k c)). t_state (threads k t) = THREAD_RUNNING \<and> t_cpu (threads k t) = int c) \<and>
    (\<forall>d<cpu_count k. d \<noteq> c \<longrightarrow> set (run_list (sc k c)) \<inter> set (run_list (sc k d)) = {}) \<and>
    (sched_count (sc k c) \<noteq> 0 \<longrightarrow> unat (position (sc k c)) < sched_count (sc k c)) \<and>
    sorted (map ps_request (pause_list (sc k c))) \<and> distinct (map ps_tr (pause_list (sc k c))) \<and>
    sched_count (sc k c) \<le> sched_size (sc k c) \<and> pause_count (sc k c) \<le> pause_size (sc k c)"
proof -
  have inv: "sched_inv k" using assms(1) by (rule sched_reachable_inv)
  have "set (run_list (sc k c)) \<inter> set (run_list (sc k d)) = {}" if "d < cpu_count k" "d \<noteq> c" for d
    using run_list_facts(3) [OF inv that(1)] run_list_facts(3) [OF inv assms(2)] that(2) by blast
  moreover have "cpu_inv k c" using inv assms(2) by (simp add: sched_inv_def)
  ultimately show ?thesis by (simp add: cpu_inv_def Let_def pos_ok_def split: if_splits)
qed

text \<open>A machine of two CPUs, booted, on which thread 7, at home on CPU 0, was set running.\<close>

definition k_boot :: kstate where
  "k_boot = load_all 2 (k_blank 2)"

definition k_one :: kstate where
  "k_one = the (set_thread_state k_boot 7 THREAD_RUNNING)"

lemma k_boot_sc: "c < 2 \<Longrightarrow> sc k_boot c = sched_blank\<lparr>si_cpu_id := c, sched_size := 1024, pause_size := 1024\<rparr>"
  by (auto simp: k_boot_def numeral_2_eq_2 load_scheduler_def INITIAL_SCHED_SIZE_def k_blank_def
      sched_blank_def less_Suc_eq)

lemma k_boot_queues: "run_list (sc k_boot c) = []" "sched_queue (sc k_boot c) = (\<lambda>_. 0)"
  by (auto simp: k_boot_def numeral_2_eq_2 load_scheduler_def k_blank_def sched_blank_def run_list_def fun_eq_iff)

lemma k_boot_fields [simp]:
  "threads k_boot = (\<lambda>_. thread_blank)" "cpu_count k_boot = 2" "CPUID k_boot = 0" "ints k_boot = True"
  "st_systemTime (cpu k_boot c) = 0" "sched_global_lock k_boot = False"
  by (simp_all add: k_boot_def numeral_2_eq_2 load_scheduler_def k_blank_def)

lemmas sched_eval = set_thread_state_def queue_def sub_queue_def home_cpu_def sched_lock_def sched_unlock_def
  Let_def current_thread_def disable_interrupts_def enable_interrupts_def k_boot_sc thread_blank_def sched_blank_def

lemma k_one_step: "\<exists>k'. set_thread_state k_boot 7 THREAD_RUNNING = Some k'"
  by (simp add: sched_eval)

lemma k_one_fields [simp]:
  "threads k_one = (\<lambda>_. thread_blank)(7 := thread_blank\<lparr>t_state := THREAD_RUNNING, t_cpu := 0\<rparr>)"
  "cpu_count k_one = 2" "CPUID k_one = 0" "ints k_one = True" "st_systemTime (cpu k_one c) = 0"
  "sc k_one 0 = sched_blank\<lparr>sched_size := 1024, pause_size := 1024, sched_queue := (\<lambda>_. 0)(0 := 7),
     sched_count := 1, lock_flags := True\<rparr>"
  "sc k_one (Suc 0) = sched_blank\<lparr>si_cpu_id := 1, sched_size := 1024, pause_size := 1024\<rparr>"
  by (simp_all add: k_one_def sched_eval)

lemma k_one_reachable: "sched_reachable k_one"
proof -
  have "sched_reachable k_boot"
    using sched_runs.Boot [of not_pausing "k_blank 2"] by (simp add: k_boot_def k_blank_def)
  moreover have "sched_step k_boot (Some 7) k_one"
  proof (rule Call [of _ 7 THREAD_RUNNING])
    show "home_ok k_boot 7" by (simp add: home_ok_def thread_blank_def tid_small_def)
    show "set_thread_state k_boot 7 THREAD_RUNNING = Some k_one" using k_one_step by (auto simp: k_one_def)
  qed simp
  moreover have "not_pausing k_boot 7"
    by (simp add: not_pausing_def k_boot_sc pause_list_def sched_blank_def)
  ultimately show ?thesis by (simp add: sched_runs.Step)
qed

lemma sched_queues_sound_witness:
  "run_list (sc k_one 0) = [7] \<and> distinct (run_list (sc k_one 0)) \<and>
   list_all (\<lambda>t. t_state (threads k_one t) = THREAD_RUNNING) (run_list (sc k_one 0))"
  using sched_queues_sound [OF k_one_reachable, of 0] by (simp add: run_list_def arr_list_def)

lemma sorted_takeWhile_filter:
  fixes t :: "'a::linorder"
  assumes "sorted (map f xs)"
  shows "takeWhile (\<lambda>x. f x \<le> t) xs = filter (\<lambda>x. f x \<le> t) xs"
    "dropWhile (\<lambda>x. f x \<le> t) xs = filter (\<lambda>x. t < f x) xs"
proof -
  have "takeWhile (\<lambda>x. f x \<le> t) xs = filter (\<lambda>x. f x \<le> t) xs \<and> dropWhile (\<lambda>x. f x \<le> t) xs = filter (\<lambda>x. t < f x) xs"
    using assms
  proof (induction xs)
    case (Cons x xs)
    show ?case
    proof (cases "f x \<le> t")
      case True
      then show ?thesis using Cons by (simp add: not_less)
    next
      case False
      then have "\<forall>y\<in>set xs. \<not> f y \<le> t" using Cons.prems by fastforce
      then show ?thesis using False by (auto simp: filter_empty_conv filter_id_conv not_le)
    qed
  qed simp
  then show "takeWhile (\<lambda>x. f x \<le> t) xs = filter (\<lambda>x. f x \<le> t) xs"
    "dropWhile (\<lambda>x. f x \<le> t) xs = filter (\<lambda>x. t < f x) xs" by auto
qed

text \<open>
  C3. Waking. With room on the run queue, \<open>remove_timers\<close> moves exactly the sleepers whose
  time has come to the end of the run queue, earliest first, running and told how long they
  slept; all others stay asleep; and it returns the time until the next one is due.
\<close>

theorem remove_timers_wakes_due:
  assumes "sched_reachable k" "c < cpu_count k" "requesting_thread (sc k c) = None"
    and "due = filter (\<lambda>p. ps_request p \<le> now) (pause_list (sc k c))"
    and "later = filter (\<lambda>p. now < ps_request p) (pause_list (sc k c))"
    and "sched_count (sc k c) + length due \<le> sched_size (sc k c)"
  shows "\<exists>k'. remove_timers k c now = Some (case later of [] \<Rightarrow> 0 | p # _ \<Rightarrow> ps_request p - now, k') \<and>
    run_list (sc k' c) = run_list (sc k c) @ map ps_tr due \<and> pause_list (sc k' c) = later \<and>
    (\<forall>p\<in>set due. t_state (threads k' (ps_tr p)) = THREAD_RUNNING \<and> t_cpu (threads k' (ps_tr p)) = int c \<and>
       t_duration (threads k' (ps_tr p)) = now - ps_start p) \<and>
    (\<forall>t. t \<notin> ps_tr ` set due \<longrightarrow> threads k' t = threads k t)"
proof -
  have inv: "sched_inv k" using assms(1) by (rule sched_reachable_inv)
  then have ic: "cpu_inv k c" using assms(2) by (simp add: sched_inv_def)
  then have srt: "sorted (map ps_request (pause_list (sc k c)))" and id: "si_cpu_id (sc k c) = c"
    and dis: "distinct (map ps_tr (pause_list (sc k c)))" by (simp_all add: cpu_inv_def Let_def)
  note tw = sorted_takeWhile_filter [OF srt, of now]
  have "\<exists>q pq. remove_timers k c now = Some (case later of [] \<Rightarrow> 0 | p # _ \<Rightarrow> ps_request p - now,
      upd_sched c (\<lambda>s. s\<lparr>sched_queue := q, sched_count := sched_count s + length due,
          pause_count := length later, pause_queue := pq\<rparr>)
        (k\<lparr>threads := wake_threads now c due (threads k)\<rparr>)) \<and>
    arr_list q (sched_count (sc k c) + length due) = run_list (sc k c) @ map ps_tr due \<and>
    arr_list pq (length later) = later"
    using id tw assms(4-6) by (intro remove_timers_ok) auto
  moreover have "distinct (map ps_tr due)" using dis assms(4) by (simp add: distinct_map_filter)
  moreover have "ps_state p = THREAD_RUNNING" if "p \<in> set due" for p
    using pause_list_facts(3) [OF inv assms(2), of p] that assms(4) by simp
  ultimately show ?thesis
    by (auto simp: run_list_def pause_list_def wake_threads_in wake_threads_other woken_def)
qed

text \<open>Thread 7 ran, went to sleep for 50 milliseconds, and CPU 0 has put it away.\<close>

definition k_running :: kstate where
  "k_running = exec_enter k_one 0 7 False"

definition k_pausing :: kstate where
  "k_pausing = snd (the (pause k_running 7 50))"

definition k_asleep :: kstate where
  "k_asleep = the (do { k \<leftarrow> exec_leave k_pausing 0; remove_last k 0 })"

lemma k_running_fields [simp]:
  "threads k_running = threads k_one" "cpu_count k_running = 2" "CPUID k_running = 0" "ints k_running = True"
  "st_systemTime (cpu k_running c) = 0"
  "sc k_running 0 = (sc k_one 0)\<lparr>si_running := True, si_current_thread := Some 7\<rparr>"
  "sc k_running (Suc 0) = sc k_one (Suc 0)"
  by (simp_all add: k_running_def exec_enter_def sched_blank_def)

lemma k_pausing_step: "\<exists>k'. pause k_running 7 50 = Some (0, k')"
  by (simp add: pause_def insert_paused_def sched_eval)

lemma k_pausing_fields [simp]:
  "threads k_pausing = (threads k_one)(7 := (threads k_one 7)\<lparr>t_duration := 50\<rparr>)"
  "cpu_count k_pausing = 2" "CPUID k_pausing = 0" "ints k_pausing = True" "st_systemTime (cpu k_pausing c) = 0"
  "sc k_pausing 0 = (sc k_running 0)\<lparr>requesting_thread := Some 7, requesting_state := Some THREAD_DORMANT,
     pause_queue := (pause_queue sched_blank)(0 := \<lparr>ps_tr = 7, ps_state = THREAD_RUNNING, ps_request = 50, ps_start = 0\<rparr>),
     pause_count := 1\<rparr>"
  "sc k_pausing (Suc 0) = sc k_one (Suc 0)"
  by (simp_all add: k_pausing_def pause_def insert_paused_def sched_eval)

lemma k_asleep_step: "\<exists>k1. exec_leave k_pausing 0 = Some k1 \<and> remove_last k1 0 = Some k_asleep"
  by (simp add: k_asleep_def exec_leave_def remove_last_def find_queued_def arr_find.simps sched_blank_def Let_def)

lemma k_asleep_fields [simp]:
  "threads k_asleep = (threads k_pausing)(7 := (threads k_pausing 7)\<lparr>t_state := THREAD_DORMANT, t_cpu := -1\<rparr>)"
  "cpu_count k_asleep = 2" "CPUID k_asleep = 0" "st_systemTime (cpu k_asleep c) = 0"
  "pause_queue (sc k_asleep 0) = pause_queue (sc k_pausing 0)" "pause_count (sc k_asleep 0) = 1"
  "sched_count (sc k_asleep 0) = 0" "sched_size (sc k_asleep 0) = 1024" "requesting_thread (sc k_asleep 0) = None"
  by (simp_all add: k_asleep_def exec_leave_def remove_last_def find_queued_def arr_find.simps sched_blank_def
      close_gap_def Let_def)

lemma k_running_reachable: "sched_reachable k_running"
  unfolding k_running_def
  by (rule quiet_step [OF k_one_reachable], rule Enter) (simp_all add: sched_blank_def)

lemma k_pausing_reachable: "sched_reachable k_pausing"
proof (rule quiet_step [OF k_running_reachable])
  show "sched_step k_running None k_pausing"
  proof (rule Sleep [of _ 7 50 0])
    show "pause k_running 7 50 = Some (0, k_pausing)" using k_pausing_step by (auto simp: k_pausing_def)
  qed (simp_all add: current_thread_def run_list_def pause_list_def arr_list_def sched_blank_def)
qed

lemma k_asleep_reachable: "sched_reachable k_asleep"
proof -
  obtain k1 where k1: "exec_leave k_pausing 0 = Some k1" "remove_last k1 0 = Some k_asleep"
    using k_asleep_step by blast
  have "sched_step k_pausing None k1" by (rule Leave [OF _ k1(1)]) simp
  moreover have "cpu_count k1 = 2" using k1(1) by (auto simp: exec_leave_def Let_def split: if_splits)
  then have "sched_step k1 None k_asleep" by (intro Honour [OF _ k1(2)]) simp
  ultimately show ?thesis using k_pausing_reachable by (blast intro: quiet_step)
qed

lemma remove_timers_wakes_due_witness:
  "\<exists>k'. remove_timers k_asleep 0 60 = Some (0, k') \<and> run_list (sc k' 0) = [7] \<and>
     t_state (threads k' 7) = THREAD_RUNNING \<and> t_duration (threads k' 7) = 60"
  using remove_timers_wakes_due [OF k_asleep_reachable, of 0 "pause_list (sc k_asleep 0)" 60 "[]"]
  by (auto simp: pause_list_def run_list_def arr_list_def)

text \<open>
  C4. Going to sleep. When the running thread pauses and the scheduler has taken it off the
  CPU, it is dormant, off the run queue, and on the sleepers' queue with the requested
  wake-up time, behind all sleepers that wake no later; the rest of the run queue is as it was.
\<close>

theorem pause_puts_to_sleep:
  assumes "sched_reachable k" "quiet k (CPUID k)" "current_thread k = Some t"
    and "t \<in> set (run_list (sc k (CPUID k)))" "t \<notin> ps_tr ` set (pause_list (sc k (CPUID k)))"
    and "0 < ms" "pause_count (sc k (CPUID k)) < pause_size (sc k (CPUID k))"
    and "target = ms + st_systemTime (cpu k (CPUID k))"
  shows "\<exists>k1 k2 k3. pause k t ms = Some (0, k1) \<and> exec_leave k1 (CPUID k) = Some k2 \<and>
    remove_last k2 (CPUID k) = Some k3 \<and> t_state (threads k3 t) = THREAD_DORMANT \<and>
    run_list (sc k3 (CPUID k)) = remove1 t (run_list (sc k (CPUID k))) \<and>
    pause_list (sc k3 (CPUID k)) =
      filter (\<lambda>p. ps_request p \<le> target) (pause_list (sc k (CPUID k))) @
      \<lparr>ps_tr = t, ps_state = THREAD_RUNNING, ps_request = target, ps_start = st_systemTime (cpu k (CPUID k))\<rparr> #
      filter (\<lambda>p. target < ps_request p) (pause_list (sc k (CPUID k)))"
proof -
  let ?c = "CPUID k" and ?s = "sc k (CPUID k)" and ?now = "st_systemTime (cpu k (CPUID k))"
  have inv: "sched_inv k" and lt: "?c < cpu_count k"
    using sched_reachable_inv [OF assms(1)] assms(2) by (simp_all add: quiet_def)
  have srt: "sorted (map ps_request (pause_list ?s))" using inv lt by (simp add: sched_inv_def cpu_inv_def Let_def)
  obtain k1 where k1: "pause k t ms = Some (0, k1)"
    and s1: "sc k1 ?c = (insert_paused t THREAD_RUNNING target ?now ?s)
      \<lparr>requesting_thread := Some t, requesting_state := Some THREAD_DORMANT, si_idle := False,
       lock_flags := ints k, nested_lock := 0, lock_scheduler := False\<rparr>"
    using pause_ok [OF assms(2) refl run_list_facts(2) [OF inv lt assms(4)] assms(3)
        run_list_facts(1) [OF inv lt assms(4)] assms(6,7)] assms(8) by blast
  define k2 where "k2 = upd_sched ?c (\<lambda>s. s\<lparr>lock_scheduler := True, si_idle := False\<rparr>)
    (upd_sched ?c (\<lambda>s. s\<lparr>si_current_thread := None, si_running := False\<rparr>) k1)"
  have k2: "exec_leave k1 ?c = Some k2" by (simp add: exec_leave_def s1 Let_def k2_def)
  have rl: "run_list (sc k2 ?c) = run_list ?s" "find_queued (sc k2 ?c) t = find_queued ?s t"
    "sched_count (sc k2 ?c) = sched_count ?s"
    by (simp_all add: k2_def s1 run_list_def insert_paused_def find_queued_def Let_def)
  have pl: "pause_list (sc k2 ?c) = pause_list (insert_paused t THREAD_RUNNING target ?now ?s)"
    by (simp add: k2_def s1 pause_list_def)
  let ?k3 = "upd_sched ?c (\<lambda>s. s\<lparr>requesting_thread := None, requesting_state := None\<rparr>)
      (upd_thread t (\<lambda>r. r\<lparr>t_state := THREAD_DORMANT, t_cpu := -1\<rparr>) (upd_sched ?c (close_gap (find_queued ?s t)) k2))"
  have "find_queued ?s t < sched_count ?s" using assms(4) by (simp add: find_queued_in)
  then have "remove_last k2 ?c = Some ?k3"
    using rl by (simp add: remove_last_def k2_def s1 Let_def)
  moreover have "run_list (sc ?k3 ?c) = remove1 t (run_list ?s)"
    using close_gap_list [of t "sc k2 ?c"] assms(4) rl by (simp add: run_list_def)
  moreover have "pause_list (sc ?k3 ?c) = pause_list (insert_paused t THREAD_RUNNING target ?now ?s)"
    using pl by (simp add: pause_list_def)
  ultimately show ?thesis
    using k1 k2 insert_paused_list [of t THREAD_RUNNING target ?now ?s] sorted_takeWhile_filter [OF srt, of target]
    by (intro exI [of _ k1] exI [of _ k2] exI [of _ ?k3]) simp
qed

lemma pause_puts_to_sleep_witness:
  "\<exists>k1 k2 k3. pause k_running 7 50 = Some (0, k1) \<and> exec_leave k1 0 = Some k2 \<and>
     remove_last k2 0 = Some k3 \<and> t_state (threads k3 7) = THREAD_DORMANT \<and> run_list (sc k3 0) = []"
  using pause_puts_to_sleep [OF k_running_reachable, of 7 50 50]
  by (simp add: quiet_def current_thread_def run_list_def pause_list_def arr_list_def sched_blank_def) blast

text \<open>
  Early wake-up. Setting a timed sleeper running (a pulse or message arrived) brings it to
  the front of the sleepers; the very next pass of its CPU over the timers, whatever the time
  is, puts it on the run queue ahead of every other sleeper.
\<close>

theorem sleeper_woken_early:
  assumes "sched_reachable k" "home_ok k t" "quiet k (home k t)" "current_thread k \<noteq> Some t"
    and "t \<in> ps_tr ` set (pause_list (sc k (home k t)))" "t_state (threads k t) = THREAD_DORMANT"
    and "requesting_thread (sc k (home k t)) = None"
    and "sched_count (sc k (home k t)) + pause_count (sc k (home k t)) \<le> sched_size (sc k (home k t))"
  shows "\<exists>k1 r k2 ws. set_thread_state k t THREAD_RUNNING = Some k1 \<and>
    remove_timers k1 (home k t) now = Some (r, k2) \<and>
    run_list (sc k2 (home k t)) = run_list (sc k (home k t)) @ t # ws \<and>
    t_state (threads k2 t) = THREAD_RUNNING"
proof -
  let ?c = "home k t" and ?s = "sc k (home k t)"
  have inv: "sched_inv k" using assms(1) by (rule sched_reachable_inv)
  have lt: "?c < cpu_count k" using assms(3) by (simp add: quiet_def)
  obtain p where p: "p \<in> set (pause_list ?s)" "ps_tr p = t" using assms(5) by auto
  have dur: "t_duration (threads k t) \<noteq> 0" using pause_list_facts(2) [OF inv lt p(1)] p(2) by simp
  obtain k1 pq where r1: "restart k t = Some (0, k1)" "sched_frame ?c k k1"
    and s1: "sc k1 ?c = ?s\<lparr>pause_queue := pq, si_idle := False, lock_flags := ints k,
      nested_lock := 0, lock_scheduler := False,
      si_running := (if ?c \<noteq> CPUID k then False else si_running ?s),
      si_current_thread := (if ?c \<noteq> CPUID k then None else si_current_thread ?s)\<rparr>"
    and pq: "arr_list pq (pause_count ?s) = to_front (find_paused ?s t) (pause_list ?s)"
    using restart_ok [OF assms(2,3,5)] by blast
  have st: "set_thread_state k t THREAD_RUNNING = Some k1"
    using r1(1) assms(4,6) dur by (simp add: set_thread_state_def)
  let ?f = "find_paused ?s t" and ?l = "pause_list (sc k1 ?c)"
  have i: "?f < pause_count ?s" using assms(5) by (simp add: find_paused_in)
  then have fl: "ps_tr (pause_list ?s ! ?f) = t"
    using arr_find_hit [of "\<lambda>i. ps_tr (pause_queue ?s i) = t" "pause_count ?s" 0]
    by (simp add: find_paused_def pause_list_def)
  have hd: "?l = (pause_list ?s ! ?f)\<lparr>ps_request := 0\<rparr> # take ?f (pause_list ?s) @ drop (Suc ?f) (pause_list ?s)" (is "_ = ?x # ?r")
    using pq by (simp add: s1 pause_list_def to_front_def)
  define ws where "ws = takeWhile (\<lambda>p. ps_request p \<le> now) ?l"
  have ws: "ws = ?x # takeWhile (\<lambda>p. ps_request p \<le> now) ?r" by (simp add: ws_def hd)
  have "length ws \<le> pause_count ?s"
    unfolding ws_def by (rule order_trans [OF length_takeWhile_le]) (simp add: pause_list_def s1)
  moreover have "si_cpu_id (sc k1 ?c) = ?c" using inv lt by (simp add: s1 sched_inv_def cpu_inv_def Let_def)
  ultimately obtain q pq' where r2: "remove_timers k1 ?c now =
      Some (case dropWhile (\<lambda>p. ps_request p \<le> now) ?l of [] \<Rightarrow> 0 | p # _ \<Rightarrow> ps_request p - now,
        upd_sched ?c (\<lambda>s. s\<lparr>sched_queue := q, sched_count := sched_count s + length ws,
          pause_count := length (dropWhile (\<lambda>p. ps_request p \<le> now) ?l), pause_queue := pq'\<rparr>)
        (k1\<lparr>threads := wake_threads now ?c ws (threads k1)\<rparr>))" (is "_ = Some (?rv, ?k2)")
    "arr_list q (sched_count (sc k1 ?c) + length ws) = run_list (sc k1 ?c) @ map ps_tr ws"
    using remove_timers_ok [of k1 ?c ws now _, OF _ ws_def refl] assms(8) by (auto simp: s1)
  have "run_list (sc ?k2 ?c) = run_list ?s @ t # map ps_tr (takeWhile (\<lambda>p. ps_request p \<le> now) ?r)"
    using r2(2) fl by (simp add: run_list_def s1 ws)
  moreover have "t_state (threads ?k2 t) = THREAD_RUNNING"
  proof -
    have "sched_inv k1" using restart_keeps_inv [OF inv assms(2) r1(1)] .
    then have "distinct (map ps_tr ?l)" "cpu_count k1 = cpu_count k"
      using lt r1(2) by (simp_all add: sched_inv_def cpu_inv_def Let_def sched_frame_def)
    then have "distinct (map ps_tr ws)" 
      unfolding ws_def distinct_map by (auto intro: inj_on_subset dest: set_takeWhileD)
    moreover have "ps_state (pause_list ?s ! ?f) = THREAD_RUNNING"
      using pause_list_facts(3) [OF inv lt nth_mem, of ?f] i by (simp add: pause_list_def)
    ultimately show ?thesis
      using wake_threads_in [of ws ?x now ?c "threads k1"] fl by (simp add: ws woken_def)
  qed
  ultimately show ?thesis using st r2(1) by blast
qed

text \<open>CPU 0 then runs its idle thread, 9.\<close>

definition k_idle :: kstate where
  "k_idle = exec_enter k_asleep 0 9 True"

lemma k_idle_reachable: "sched_reachable k_idle"
  unfolding k_idle_def by (rule quiet_step [OF k_asleep_reachable], rule Enter) simp_all

lemma sleeper_woken_early_witness:
  "\<exists>k1 r k2 ws. set_thread_state k_idle 7 THREAD_RUNNING = Some k1 \<and> remove_timers k1 0 1 = Some (r, k2) \<and>
     run_list (sc k2 0) = 7 # ws \<and> t_state (threads k2 7) = THREAD_RUNNING"
proof -
  have h: "home k_idle 7 = 0" "home_ok k_idle 7"
    by (simp_all add: k_idle_def exec_enter_def home_def home_cpu_def home_ok_def thread_blank_def tid_small_def)
  have q: "quiet k_idle 0"
    by (simp add: k_idle_def exec_enter_def quiet_def k_asleep_def exec_leave_def remove_last_def find_queued_def
        arr_find.simps sched_blank_def close_gap_def Let_def)
  have "\<exists>k1 r k2 ws. set_thread_state k_idle 7 THREAD_RUNNING = Some k1 \<and>
      remove_timers k1 (home k_idle 7) 1 = Some (r, k2) \<and>
      run_list (sc k2 (home k_idle 7)) = run_list (sc k_idle (home k_idle 7)) @ 7 # ws \<and>
      t_state (threads k2 7) = THREAD_RUNNING"
    by (rule sleeper_woken_early [OF k_idle_reachable h(2)])
      (simp_all add: h q, simp_all add: k_idle_def exec_enter_def current_thread_def pause_list_def arr_list_def)
  then show ?thesis by (simp add: h) (simp add: k_idle_def exec_enter_def run_list_def)
qed

text \<open>The choices of \<open>m\<close> rounds on CPU \<open>c\<close>.\<close>

fun sched_rounds :: "nat \<Rightarrow> kstate \<Rightarrow> nat \<Rightarrow> choice list option" where
  "sched_rounds 0 k c = Some []"
| "sched_rounds (Suc m) k c = do {
     (ch, ms, idle, flip, k) \<leftarrow> scheduler_select k c False False;
     chs \<leftarrow> sched_rounds m k c;
     Some (ch # chs) }"

lemma sched_rounds_eq:
  assumes "pause_count (sc k c) = 0" "fast_start (sc k c) = fast_stop (sc k c)" "sched_count (sc k c) \<noteq> 0"
    "sched_count (sc k c) < 2 ^ 31" "unat (position (sc k c)) < sched_count (sc k c)"
  shows "sched_rounds m k c =
    Some (map (\<lambda>i. Run_Thread (run_list (sc k c) ! ((unat (position (sc k c)) + i) mod sched_count (sc k c)))) [0..<m])"
  using assms
proof (induction m arbitrary: k)
  case (Suc m)
  let ?s = "sc k c" and ?p = "unat (position (sc k c))" and ?n = "sched_count (sc k c)"
  let ?k = "upd_sched c (\<lambda>s. s\<lparr>position := (position s + 1) mod of_nat (sched_count s)\<rparr>) k"
  have sel: "scheduler_select k c False False = Some (Run_Thread (sched_queue ?s ?p), TIMESLICE, False, False, ?k)"
    using Suc.prems by (simp add: scheduler_select_def remove_timers_def get_fast_def)
  have pos: "unat ((position ?s + 1) mod of_nat ?n) = (?p + 1) mod ?n"
    using Suc.prems by (intro position_step) (simp_all add: pos_ok_def)
  have "sched_rounds m ?k c = Some (map (\<lambda>i. Run_Thread (run_list ?s ! (((?p + 1) mod ?n + i) mod ?n))) [0..<m])"
    using Suc.IH [of ?k] Suc.prems pos by (simp add: run_list_def)
  moreover have "((?p + 1) mod ?n + i) mod ?n = (?p + Suc i) mod ?n" for i by (simp add: mod_simps)
  ultimately show ?case
    using Suc.prems(5) sel by (simp add: run_list_def upt_conv_Cons map_Suc_upt [symmetric] del: upt_Suc)
qed simp

text \<open>
  C2. Fairness. On a CPU without sleepers and fast threads, \<open>m\<close> consecutive rounds of the
  scheduler run the threads of the run queue in turn, starting at the current position; so
  every thread is chosen exactly once in as many rounds as there are threads.
\<close>

theorem scheduler_round_robin:
  assumes "sched_reachable k" "c < cpu_count k" "pause_count (sc k c) = 0"
    and "fast_start (sc k c) = fast_stop (sc k c)" "run_list (sc k c) \<noteq> []"
  shows "sched_rounds m k c = Some (map (\<lambda>i. Run_Thread (run_list (sc k c) !
      ((unat (position (sc k c)) + i) mod length (run_list (sc k c))))) [0..<m]) \<and>
    (\<exists>chs. sched_rounds (length (run_list (sc k c))) k c = Some chs \<and>
       distinct chs \<and> set chs = Run_Thread ` set (run_list (sc k c)))"
proof -
  let ?r = "run_list (sc k c)" and ?p = "unat (position (sc k c))" and ?n = "sched_count (sc k c)"
  have inv: "cpu_inv k c" using sched_reachable_inv [OF assms(1)] assms(2) by (simp add: sched_inv_def)
  have n: "length ?r = ?n" "?n \<noteq> 0" "?n < 2 ^ 31" "?p < ?n" "distinct ?r"
    using inv assms(5) by (auto simp: run_list_def cpu_inv_def Let_def pos_ok_def split: if_splits)
  have rr: "sched_rounds m k c = Some (map (\<lambda>i. Run_Thread (?r ! ((?p + i) mod ?n))) [0..<m])" for m
    using assms(3,4) n by (intro sched_rounds_eq)
  have rot: "map (\<lambda>i. ?r ! ((?p + i) mod ?n)) [0..<?n] = rotate ?p ?r"
    by (rule nth_equalityI) (simp_all add: n nth_rotate)
  have "sched_rounds ?n k c = Some (map Run_Thread (rotate ?p ?r))"
    unfolding rr rot [symmetric] by simp
  moreover have "distinct (map Run_Thread (rotate ?p ?r))" "set (map Run_Thread (rotate ?p ?r)) = Run_Thread ` set ?r"
    using n(5) by (auto simp: distinct_map inj_on_def)
  ultimately show ?thesis using rr [of m] n(1) by simp
qed

lemma scheduler_round_robin_witness:
  "sched_rounds 3 k_one 0 = Some [Run_Thread 7, Run_Thread 7, Run_Thread 7]"
  using scheduler_round_robin [OF k_one_reachable, of 0 3]
  by (simp add: run_list_def arr_list_def sched_blank_def upt_rec)

subsection \<open>The fast queue\<close>

definition fast_len :: "scheduler_info \<Rightarrow> nat" where
  "fast_len s = (fast_stop s + MAX_FAST - fast_start s) mod MAX_FAST"

definition fast_list :: "scheduler_info \<Rightarrow> addr list" where
  "fast_list s = map (\<lambda>i. fast_queue_arr s ((fast_start s + i) mod MAX_FAST)) [0..<fast_len s]"

definition fast_ok :: "scheduler_info \<Rightarrow> bool" where
  "fast_ok s \<longleftrightarrow> fast_start s < MAX_FAST \<and> fast_stop s < MAX_FAST"

lemma mod_fast: "a < 64 \<Longrightarrow> a mod MAX_FAST = (if a < 32 then a else a - 32)"
  by (simp add: MAX_FAST_def le_mod_geq not_less)

lemma fast_okD: "fast_ok s \<Longrightarrow> fast_start s < 32 \<and> fast_stop s < 32"
  by (simp add: fast_ok_def MAX_FAST_def)

lemma fast_len_cases:
  "fast_ok s \<Longrightarrow> fast_len s = (if fast_start s \<le> fast_stop s then fast_stop s - fast_start s
     else fast_stop s + 32 - fast_start s)"
proof -
  assume "fast_ok s"
  then have "fast_stop s + 32 - fast_start s < 64" using fast_okD by fastforce
  then show ?thesis
    using mod_fast [of "fast_stop s + 32 - fast_start s"] fast_okD [OF \<open>fast_ok s\<close>]
    by (auto simp: fast_len_def MAX_FAST_def)
qed

lemma fast_list_put:
  assumes "fast_ok s" "fast_len s < 31"
    "s' = s\<lparr>fast_queue_arr := (fast_queue_arr s)(fast_stop s := t), fast_stop := (fast_stop s + 1) mod MAX_FAST\<rparr>"
  shows "fast_list s' = fast_list s @ [t]" "fast_ok s'" "fast_stop s' \<noteq> fast_start s'"
proof -
  have ok: "fast_ok s'" using assms(1,3) by (simp add: fast_ok_def MAX_FAST_def)
  have n: "fast_len s' = Suc (fast_len s)" "fast_stop s' \<noteq> fast_start s'"
    using assms fast_len_cases [OF assms(1)] fast_len_cases [OF ok]
      fast_okD [OF assms(1)] mod_fast [of "fast_stop s + 1"]
    by (auto split: if_splits)
  have e: "(fast_start s + fast_len s) mod MAX_FAST = fast_stop s"
    using fast_okD [OF assms(1)] fast_len_cases [OF assms(1)] mod_fast [of "fast_start s + fast_len s"] by auto
  have ne: "(fast_start s + i) mod MAX_FAST \<noteq> fast_stop s" if "i < fast_len s" for i
    using fast_okD [OF assms(1)] fast_len_cases [OF assms(1)] that mod_fast [of "fast_start s + i"] by (auto split: if_splits)
  show "fast_ok s'" by (rule ok)
  show "fast_stop s' \<noteq> fast_start s'" by (rule n(2))
  show "fast_list s' = fast_list s @ [t]"
    using e ne by (simp add: fast_list_def n(1)) (simp add: assms(3))
qed

lemma fast_list_pop:
  assumes "fast_ok s" "fast_list s = t # ts" "s' = s\<lparr>fast_start := (fast_start s + 1) mod MAX_FAST\<rparr>"
  shows "fast_list s' = ts" "fast_ok s'" "fast_queue_arr s (fast_start s) = t" "get_fast s = Some t"
proof -
  have ok: "fast_ok s'" using assms(1,3) by (simp add: fast_ok_def MAX_FAST_def)
  obtain n where n: "fast_len s = Suc n" using assms(2) by (cases "fast_len s") (simp_all add: fast_list_def)
  have n': "fast_len s' = n" "fast_start s \<noteq> fast_stop s"
    using assms(3) n fast_len_cases [OF assms(1)] fast_len_cases [OF ok] fast_okD [OF assms(1)]
      mod_fast [of "fast_start s + 1"]
    by (auto split: if_splits)
  have l: "fast_list s = fast_queue_arr s (fast_start s) #
      map (\<lambda>i. fast_queue_arr s ((fast_start s + Suc i) mod MAX_FAST)) [0..<n]"
    using assms(1) by (simp add: fast_list_def n upt_conv_Cons map_Suc_upt [symmetric] fast_ok_def del: upt_Suc)
  show "fast_ok s'" by (rule ok)
  show "fast_queue_arr s (fast_start s) = t" using l assms(2) by simp
  then show "get_fast s = Some t" using n'(2) by (simp add: get_fast_def)
  have "fast_list s' = map (\<lambda>i. fast_queue_arr s ((fast_start s + Suc i) mod MAX_FAST)) [0..<n]"
    by (simp add: fast_list_def n'(1)) (simp add: assms(3) mod_simps)
  then show "fast_list s' = ts" using l assms(2) by simp
qed

text \<open>
  The fast queue is first in, first out, and holds 31 threads: queueing appends to it and
  marks the thread as waiting on the CPU, a 32nd thread fails the assertion instead of
  overwriting the oldest one, the scheduler sees the head, and the head leaves by
  \<open>fast_dequeue\<close>, going off the CPU when it was queued no second time.
\<close>

theorem fast_queue_fifo:
  assumes "quiet k c" "fast_ok (sc k c)"
  shows "(\<forall>t. t_cpu_affinity (threads k t) = int c \<longrightarrow>
      (if length (fast_list (sc k c)) < 31
       then \<exists>k'. fast_queue k t = Some (0, k') \<and> fast_list (sc k' c) = fast_list (sc k c) @ [t] \<and>
              fast_ok (sc k' c) \<and> t_cpu (threads k' t) = int c
       else fast_queue k t = None)) \<and>
    (\<forall>t ts. fast_list (sc k c) = t # ts \<and> CPUID k = c \<and> t_cpu (threads k t) = int c \<longrightarrow>
      get_fast (sc k c) = Some t \<and>
      (\<exists>k'. fast_dequeue k t = Some (0, k') \<and> fast_list (sc k' c) = ts \<and> fast_ok (sc k' c) \<and>
         t_cpu (threads k' t) = (if t_fast_queued (threads k t) = 1 then -1 else int c)))"
proof (intro conjI allI impI)
  fix t assume a: "t_cpu_affinity (threads k t) = int c"
  have lt: "c < cpu_count k" using assms(1) by (simp add: quiet_def)
  have len: "length (fast_list s) = fast_len s" for s by (simp add: fast_list_def)
  have q: "quiet (upd_thread t f k) c" for f using assms(1) by (simp add: quiet_def)
  show "if length (fast_list (sc k c)) < 31
    then \<exists>k'. fast_queue k t = Some (0, k') \<and> fast_list (sc k' c) = fast_list (sc k c) @ [t] \<and>
           fast_ok (sc k' c) \<and> t_cpu (threads k' t) = int c
    else fast_queue k t = None"
  proof (cases "fast_len (sc k c) < 31")
    case True
    note p = fast_list_put [OF assms(2) True refl]
    show ?thesis
      using p True a assms(1) lt
      by (auto simp: len fast_queue_def sched_crit Let_def)
        (simp_all add: fast_list_def fast_len_def fast_ok_def)
  next
    case False
    then have "(fast_stop (sc k c) + 1) mod MAX_FAST = fast_start (sc k c)"
      using fast_okD [OF assms(2)] fast_len_cases [OF assms(2)] mod_fast [of "fast_stop (sc k c) + 1"]
      by (auto split: if_splits)
    then show ?thesis
      using False a assms(1) lt by (simp add: len fast_queue_def sched_crit Let_def)
  qed
next
  fix t ts assume a: "fast_list (sc k c) = t # ts \<and> CPUID k = c \<and> t_cpu (threads k t) = int c"
  note p = fast_list_pop [OF assms(2) _ refl, of t ts]
  show "get_fast (sc k c) = Some t" using p(4) a by simp
  have lt: "c < cpu_count k" using assms(1) by (simp add: quiet_def)
  show "\<exists>k'. fast_dequeue k t = Some (0, k') \<and> fast_list (sc k' c) = ts \<and> fast_ok (sc k' c) \<and>
     t_cpu (threads k' t) = (if t_fast_queued (threads k t) = 1 then -1 else int c)"
    using p a assms(1) lt
    by (cases "t_fast_queued (threads k t) = 1")
      (auto simp: fast_dequeue_def sched_crit Let_def, simp_all add: fast_list_def fast_len_def fast_ok_def)
qed

lemma fast_queue_fifo_witness:
  "\<exists>k'. fast_queue (upd_thread 3 (\<lambda>t. t\<lparr>t_cpu_affinity := 1\<rparr>) k_one) 3 = Some (0, k') \<and> fast_list (sc k' 1) = [3]"
proof -
  let ?k = "upd_thread 3 (\<lambda>t. t\<lparr>t_cpu_affinity := 1\<rparr>) k_one"
  have q: "quiet ?k 1" "fast_ok (sc ?k 1)" "fast_list (sc ?k 1) = []"
    by (simp_all add: quiet_def fast_ok_def fast_list_def fast_len_def MAX_FAST_def sched_blank_def)
  show ?thesis using conjunct1 [OF fast_queue_fifo [OF q(1,2)], rule_format, of 3] q(3) by auto
qed

subsection \<open>Locks and interrupts\<close>

text \<open>
  Queueing and the interrupt flag. A thread is queued on its home CPU at the end of the run
  queue. When that is the CPU the call runs on, interrupts are afterwards as they were; when it
  is another CPU they stay disabled, because \<open>sched_lock\<close> always disables them and
  \<open>sched_unlock\<close> only enables them again for the CPU's own scheduler.
\<close>

theorem queue_interrupts:
  assumes "home_ok k t" "t_cpu (threads k t) < 0" "quiet k (home k t)"
    "sched_count (sc k (home k t)) < sched_size (sc k (home k t))"
  shows "\<exists>k'. queue k t = Some (0, k') \<and> run_list (sc k' (home k t)) = run_list (sc k (home k t)) @ [t] \<and>
    t_cpu (threads k' t) = int (home k t) \<and> ints k' = (ints k \<and> home k t = CPUID k)"
  using queue_ok [OF assms]
  by (auto simp: sched_frame_def run_list_def arr_list_append_last)

lemma queue_interrupts_witness:
  "\<exists>k'. queue (k_boot\<lparr>CPUID := 1\<rparr>) 7 = Some (0, k') \<and> run_list (sc k' 0) = [7] \<and> ints (k_boot\<lparr>CPUID := 1\<rparr>) \<and> \<not> ints k'"
proof -
  let ?k = "k_boot\<lparr>CPUID := 1\<rparr>"
  have h: "home ?k 7 = 0" "home_ok ?k 7"
    by (simp_all add: home_def home_cpu_def home_ok_def thread_blank_def tid_small_def)
  show ?thesis
    using queue_interrupts [OF h(2)]
    by (auto simp: h [simplified] quiet_def k_boot_sc sched_blank_def thread_blank_def run_list_def)
qed

text \<open>
  The lock over all CPUs restores the interrupt flag only when it is taken on CPU 0: the flag
  is saved in the record of CPU 0, the first one locked, and by the time the caller's own
  scheduler is locked interrupts are already off. On CPU 1 they stay off.
\<close>

theorem sched_lock_all_interrupts:
  "do { k \<leftarrow> sched_lock_all k_boot; k' \<leftarrow> sched_unlock_all k; Some (ints k, ints k') } = Some (False, True) \<and>
   do { k \<leftarrow> sched_lock_all (k_boot\<lparr>CPUID := 1\<rparr>); k' \<leftarrow> sched_unlock_all k; Some (ints k, ints k') } = Some (False, False)"
  by (simp add: sched_lock_all_def sched_unlock_all_def sched_eval numeral_2_eq_2)

text \<open>
  A thread is lost when its run queue is full: \<open>set_thread_state\<close> ignores the failure of
  \<open>queue\<close>, so the thread is marked running on its CPU but is on no run queue, and the call
  reports nothing.
\<close>

theorem queue_full_loses_thread:
  assumes "\<And>c. t \<notin> set (run_list (sc k c))" "home_ok k t" "quiet k (home k t)" "current_thread k \<noteq> Some t"
    and "t_state (threads k t) = THREAD_SUSPENDED" "t_cpu (threads k t) < 0"
    and "sched_count (sc k (home k t)) = sched_size (sc k (home k t))"
  shows "\<exists>k'. set_thread_state k t THREAD_RUNNING = Some k' \<and> t_state (threads k' t) = THREAD_RUNNING \<and>
    t_cpu (threads k' t) = int (home k t) \<and> (\<forall>c. t \<notin> set (run_list (sc k' c)))"
proof -
  let ?c = "home k t" and ?k = "upd_thread t (\<lambda>r. r\<lparr>t_cpu := int (home k t)\<rparr>) (upd_thread t (\<lambda>r. r\<lparr>t_state := THREAD_RUNNING\<rparr>) k)"
  have "quiet ?k ?c" "sched_count (sc ?k ?c) = sched_size (sc ?k ?c)" using assms(3,7) by (simp_all add: quiet_def)
  then obtain k' where k': "sub_queue ?k ?c t = Some (-1, k')" "sched_frame ?c ?k k'"
    "sc k' ?c = (sc k ?c)\<lparr>si_idle := False, lock_flags := ints k, nested_lock := 0, lock_scheduler := False\<rparr>"
    using sub_queue_full [of ?k ?c t] by auto
  have hc: "home_cpu (upd_thread t (\<lambda>r. r\<lparr>t_state := THREAD_RUNNING\<rparr>) k) t = int ?c"
    using home_range [OF assms(2)] by (simp add: home_cpu_def split: if_splits)
  have "set_thread_state k t THREAD_RUNNING = Some k'"
    using assms(4,5,6) k'(1) by (simp add: set_thread_state_def queue_def hc)
  moreover have "t \<notin> set (run_list (sc k' c))" for c
    using assms(1) [of c] k'(2,3) by (cases "c = ?c") (auto simp: sched_frame_def run_list_def)
  ultimately show ?thesis using k'(2) by (auto simp: sched_frame_def)
qed

definition k_full :: kstate where
  "k_full = upd_sched 0 (\<lambda>s. s\<lparr>sched_count := INITIAL_SCHED_SIZE\<rparr>) k_boot"

theorem queue_full_loses_thread_witness:
  "\<exists>k'. set_thread_state k_full 7 THREAD_RUNNING = Some k' \<and> t_state (threads k' 7) = THREAD_RUNNING \<and>
    t_cpu (threads k' 7) = int (home k_full 7) \<and> (\<forall>c. 7 \<notin> set (run_list (sc k' c)))"
proof -
  have h: "home_ok k_full 7" "home k_full 7 = 0"
    by (simp_all add: k_full_def home_def home_cpu_def home_ok_def thread_blank_def tid_small_def)
  show ?thesis
    by (rule queue_full_loses_thread)
      (auto simp: h, auto simp: k_full_def quiet_def current_thread_def k_boot_sc k_boot_queues sched_blank_def
        thread_blank_def run_list_def arr_list_def INITIAL_SCHED_SIZE_def split: if_splits)
qed

text \<open>
  A suspended thread runs again. Thread 7 has called \<open>pause\<close> on CPU 0 and not yet left the
  CPU when CPU 1 suspends it: CPU 1 takes it off the run queue, but its entry among the
  sleepers stays, and when its time comes CPU 0 makes it run although nobody has resumed it.
\<close>

theorem suspend_loses_sleeper:
  "do { k1 \<leftarrow> set_thread_state (k_pausing\<lparr>CPUID := 1\<rparr>) 7 THREAD_SUSPENDED;
        k2 \<leftarrow> exec_leave k1 0; k3 \<leftarrow> remove_last k2 0; (_, k4) \<leftarrow> remove_timers k3 0 60;
        Some (t_state (threads k3 7), run_list (sc k3 0), t_state (threads k4 7), run_list (sc k4 0)) } =
   Some (THREAD_SUSPENDED, [], THREAD_RUNNING, [7])"
  by (simp add: sched_eval dequeue_def sub_dequeue_def exec_leave_def remove_last_def remove_timers_def
      wake_loop.simps find_queued_def arr_find.simps close_gap_def run_list_def arr_list_def)

text \<open>
  A thread queued twice. Thread 7 has called \<open>pause\<close> when CPU 1 suspends it, as above, and CPU 1 resumes it when CPU 0 has reacted: the thread is on the run queue and
  among the sleepers, and when its time comes the timer queues it again.
\<close>

lemma pausing_run:
  "\<exists>k1 k2 k3 k5 k7 k8 k9.
    set_thread_state (k_pausing\<lparr>CPUID := 1, ints := True\<rparr>) 7 THREAD_SUSPENDED = Some k1 \<and> exec_leave k1 0 = Some k2 \<and> remove_last k2 0 = Some k3 \<and>
    set_thread_state (exec_enter k3 0 9 True) 7 THREAD_RUNNING = Some k5 \<and>
    exec_leave (k5\<lparr>cpu := (cpu k5)(0 := (cpu k5 0)\<lparr>st_systemTime := 60\<rparr>)\<rparr>) 0 = Some k7 \<and> remove_last k7 0 = Some k8 \<and>
    scheduler_select k8 0 False False = Some (Run_Thread 7, TIMESLICE, False, False, k9) \<and>
    requesting_thread (sc k3 0) = None \<and> requesting_thread (sc k8 0) = None \<and>
    cpu_count k1 = 2 \<and> cpu_count k2 = 2 \<and> cpu_count k3 = 2 \<and> cpu_count k5 = 2 \<and> cpu_count k7 = 2 \<and> cpu_count k8 = 2 \<and>
    CPUID k3 = 1 \<and> home_ok k3 7 \<and> run_list (sc k9 0) = [7, 7]"
  by (simp add: sched_eval dequeue_def sub_dequeue_def exec_leave_def remove_last_def remove_timers_def exec_enter_def scheduler_select_def get_fast_def
      wake_loop.simps find_queued_def arr_find.simps close_gap_def run_list_def arr_list_def home_ok_def tid_small_def upt_rec)

theorem pausing_queues_twice: "\<exists>k. sched_runs (\<lambda>_ _. True) k \<and> \<not> distinct (run_list (sc k 0))"
proof -
  obtain k1 k2 k3 k5 k7 k8 k9 where s:
    "set_thread_state (k_pausing\<lparr>CPUID := 1, ints := True\<rparr>) 7 THREAD_SUSPENDED = Some k1" "exec_leave k1 0 = Some k2" "remove_last k2 0 = Some k3"
    "set_thread_state (exec_enter k3 0 9 True) 7 THREAD_RUNNING = Some k5"
    "exec_leave (k5\<lparr>cpu := (cpu k5)(0 := (cpu k5 0)\<lparr>st_systemTime := 60\<rparr>)\<rparr>) 0 = Some k7" "remove_last k7 0 = Some k8"
    "scheduler_select k8 0 False False = Some (Run_Thread 7, TIMESLICE, False, False, k9)"
    and n: "requesting_thread (sc k3 0) = None" "requesting_thread (sc k8 0) = None"
      "cpu_count k1 = 2" "cpu_count k2 = 2" "cpu_count k3 = 2" "cpu_count k5 = 2" "cpu_count k7 = 2" "cpu_count k8 = 2" "CPUID k3 = 1" "home_ok k3 7"
    and q: "run_list (sc k9 0) = [7, 7]"
    using pausing_run by blast
  let ?R = "sched_runs (\<lambda>_ _. True)"
  have step: "?R k \<Longrightarrow> sched_step k w k' \<Longrightarrow> ?R k'" for k w k' by (rule sched_runs.Step) (auto simp: option.pred_True)
  have "?R k" if "sched_reachable k" for k using that by (induction rule: sched_runs.induct) (auto intro: sched_runs.Boot step)
  then have "?R k_pausing" using k_pausing_reachable by blast
  then have "?R (k_pausing\<lparr>CPUID := 1, ints := True\<rparr>)" by (rule step) (rule Other_CPU, simp)
  then have "?R k1" by (rule step) (rule Call [OF _ _ s(1)], simp_all add: home_ok_def thread_blank_def tid_small_def)
  then have "?R k2" by (rule step) (rule Leave [OF _ s(2)], simp add: n)
  then have "?R k3" by (rule step) (rule Honour [OF _ s(3)], simp add: n)
  then have "?R (exec_enter k3 0 9 True)" by (rule step) (rule Enter, simp_all add: n)
  then have "?R k5" by (rule step) (rule Call [OF _ _ s(4)], use n(5,9,10) in \<open>simp_all add: exec_enter_def home_ok_def\<close>)
  then have "?R (k5\<lparr>cpu := (cpu k5)(0 := (cpu k5 0)\<lparr>st_systemTime := 60\<rparr>)\<rparr>)" by (rule step) (rule Clock)
  then have "?R k7" by (rule step) (rule Leave [OF _ s(5)], simp add: n)
  then have "?R k8" by (rule step) (rule Honour [OF _ s(6)], simp add: n)
  then have "?R k9" by (rule step) (rule Select [OF _ _ s(7)], simp_all add: n)
  moreover have "\<not> distinct (run_list (sc k9 0))" by (simp add: q)
  ultimately show ?thesis by blast
qed

end
