(* ===== verification/Irq.thy ===== *)
theory Irq
  imports Scheduling
begin

section \<open>Interrupts for user programs (kernel/src/irq.c)\<close>

text \<open>
  A thread may become a handler of one of the 24 interrupt lines. The handlers of a line form an array, \<open>stubs\<close>.
  When the line is raised, the handler that was successful last is put on the fast queue of its processor;
  it tells by \<open>irq_complete\<close> whether the interrupt was its own, and if not the next one is asked.

  State: the hooks with a spinlock each, the mask of the legacy controller and the registers of the I/O APIC; what is written to
  ports is logged. An array of stubs is a list, and an access past its end is \<open>None\<close>. Whether \<open>malloc\<close> finds memory is
  an argument. \<open>sched_yield\<close> hands the processor to the scheduling loop, whose rounds are steps of the theory Scheduling; it has no effect of
  its own.

  Shown: requests and releases keep the invariant that ties hooks, threads and masks together; after an interrupt all
  handlers are asked once, in rotation from the last successful one; and three faults: a release may leave \<open>last\<close> past the
  end of the array, a release by a thread that is no handler writes past the new array, and a rejected interrupt whose next
  handler lives on another processor fails an assertion.
\<close>

unbundle bit_operations_syntax

subsection \<open>Structures\<close>

definition IRQ_COUNT :: int where "IRQ_COUNT = 24"

definition PORT_8259M :: u32 where "PORT_8259M = 0x20"
definition PORT_8259S :: u32 where "PORT_8259S = 0xA0"

record irq_stub =
  st_tr :: addr
  st_ack :: u64
  st_nop :: u64

record irq_hook =
  hk_raised :: u64
  hk_index :: int
  hk_last :: int
  hk_count :: int
  hk_stubs :: "irq_stub list option"

record istate =
  ik :: kstate
  handlers :: "nat \<Rightarrow> irq_hook"
  irq_locks :: "nat \<Rightarrow> bool"
  irq_mask :: u32
  usingIOAPIC :: bool
  ioapic :: "u32 \<Rightarrow> u32"
  out_log :: "(u32 \<times> u32) list"
  apic_eois :: nat

definition outb_p :: "u32 \<Rightarrow> u32 \<Rightarrow> istate \<Rightarrow> istate" where
  "outb_p port v st = st\<lparr>out_log := out_log st @ [(port, v)]\<rparr>"

definition upd_hook :: "nat \<Rightarrow> (irq_hook \<Rightarrow> irq_hook) \<Rightarrow> istate \<Rightarrow> istate" where
  "upd_hook n f st = st\<lparr>handlers := (handlers st)(n := f (handlers st n))\<rparr>"

definition in_kernel :: "(kstate \<Rightarrow> kstate) \<Rightarrow> istate \<Rightarrow> istate" where
  "in_kernel f st = st\<lparr>ik := f (ik st)\<rparr>"

subsection \<open>The legacy controller\<close>

definition out_mask :: "int \<Rightarrow> istate \<Rightarrow> istate" where
  "out_mask irq st =
     (if irq < 8 then outb_p (PORT_8259M + 1) (irq_mask st AND 0xFF) st
      else outb_p (PORT_8259S + 1) (drop_bit 8 (irq_mask st) AND 0xFF) st)"

definition unmask_8259 :: "int \<Rightarrow> istate \<Rightarrow> istate" where
  "unmask_8259 irq st = out_mask irq (st\<lparr>irq_mask := irq_mask st AND NOT (push_bit (nat irq) 1)\<rparr>)"

definition mask_8259 :: "int \<Rightarrow> istate \<Rightarrow> istate" where
  "mask_8259 irq st = out_mask irq (st\<lparr>irq_mask := irq_mask st OR push_bit (nat irq) 1\<rparr>)"

definition ack_8259 :: "int \<Rightarrow> istate \<Rightarrow> istate" where
  "ack_8259 irq st = outb_p 0x20 0x20 (if irq > 7 then outb_p 0xA0 0x20 st else st)"

text \<open>\<open>a\<close> and \<open>b\<close>: what the two controllers answer when they are read first.\<close>

definition remap_irqs :: "u32 \<Rightarrow> u32 \<Rightarrow> u32 \<Rightarrow> u32 \<Rightarrow> istate \<Rightarrow> istate" where
  "remap_irqs a b pic1 pic2 st =
     fold (\<lambda>(p, v). outb_p p v)
       [(PORT_8259M, 0x11), (PORT_8259S, 0x11), (PORT_8259M + 1, pic1), (PORT_8259S + 1, pic2),
        (PORT_8259M + 1, 4), (PORT_8259S + 1, 2), (PORT_8259M + 1, 1), (PORT_8259S + 1, 1),
        (PORT_8259M + 1, a), (PORT_8259S + 1, b)] st"

definition hook_empty :: irq_hook where
  "hook_empty = \<lparr>hk_raised = 0, hk_index = 0, hk_last = 0, hk_count = 0, hk_stubs = None\<rparr>"

fun init_hooks :: "nat \<Rightarrow> nat \<Rightarrow> istate \<Rightarrow> istate" where
  "init_hooks 0 i st = st"
| "init_hooks (Suc n) i st = init_hooks n (Suc i) ((upd_hook i (\<lambda>_. hook_empty) st)\<lparr>irq_locks := (irq_locks st)(i := False)\<rparr>)"

definition init_irqs :: "u32 \<Rightarrow> u32 \<Rightarrow> u32 \<Rightarrow> istate \<Rightarrow> istate" where
  "init_irqs a b nmi st =
     (let st = remap_irqs a b 0x20 0x28 st;
          st = outb_p (PORT_8259M + 1) (irq_mask st AND 0xFF) st;
          st = outb_p (PORT_8259S + 1) (drop_bit 8 (irq_mask st) AND 0xFF) st;
          st = outb_p 0x61 (nmi AND NOT 0xC) st
      in init_hooks (nat IRQ_COUNT) 0 st)"

subsection \<open>The I/O APIC (ioapic.c)\<close>

definition REG_INT0 :: u32 where "REG_INT0 = 0x10"

definition write_ioapic :: "u32 \<Rightarrow> u32 \<Rightarrow> istate \<Rightarrow> istate" where
  "write_ioapic reg v st = st\<lparr>ioapic := (ioapic st)(reg := v)\<rparr>"

definition redirect :: "u32 \<Rightarrow> int \<Rightarrow> istate \<Rightarrow> istate" where
  "redirect type num st =
     write_ioapic (of_int num * 2 + REG_INT0 + 1) 0
       (write_ioapic (of_int num * 2 + REG_INT0) (type OR (0x20 + of_int num)) st)"

definition mask_ioapic :: "int \<Rightarrow> istate \<Rightarrow> istate" where
  "mask_ioapic num st =
     redirect (if num > 15 then push_bit 16 1 OR push_bit 15 1 OR push_bit 13 1 else push_bit 16 1) num st"

definition unmask_ioapic :: "int \<Rightarrow> istate \<Rightarrow> istate" where
  "unmask_ioapic num st = redirect (if num > 15 then push_bit 15 1 OR push_bit 13 1 else 0) num st"

definition ack_irq :: "int \<Rightarrow> istate \<Rightarrow> istate" where
  "ack_irq irq st = (if usingIOAPIC st then st\<lparr>apic_eois := apic_eois st + 1\<rparr> else ack_8259 irq st)"

definition unmask_irq :: "int \<Rightarrow> istate \<Rightarrow> istate" where
  "unmask_irq irq st = (if usingIOAPIC st then unmask_ioapic irq st else unmask_8259 irq st)"

definition mask_irq :: "int \<Rightarrow> istate \<Rightarrow> istate" where
  "mask_irq irq st = (if usingIOAPIC st then mask_ioapic irq st else mask_8259 irq st)"

subsection \<open>Handlers come and go\<close>

definition irq_acquire :: "nat \<Rightarrow> istate \<Rightarrow> istate option" where
  "irq_acquire n st = do { assert (\<not> irq_locks st n); Some (st\<lparr>irq_locks := (irq_locks st)(n := True)\<rparr>) }"

definition irq_release :: "nat \<Rightarrow> istate \<Rightarrow> istate" where
  "irq_release n st = st\<lparr>irq_locks := (irq_locks st)(n := False)\<rparr>"

text \<open>The first \<open>count\<close> stubs of a hook, which must be there.\<close>

definition stubs_of :: "irq_hook \<Rightarrow> irq_stub list option" where
  "stubs_of hk =
     (if hk_count hk = 0 then Some []
      else do { ss \<leftarrow> hk_stubs hk; assert (0 \<le> hk_count hk \<and> nat (hk_count hk) \<le> length ss); Some (take (nat (hk_count hk)) ss) })"

definition stub_at :: "irq_hook \<Rightarrow> int \<Rightarrow> irq_stub option" where
  "stub_at hk i = do { ss \<leftarrow> hk_stubs hk; assert (0 \<le> i \<and> nat i < length ss); Some (ss ! nat i) }"

definition request_irq :: "bool \<Rightarrow> bool \<Rightarrow> istate \<Rightarrow> addr \<Rightarrow> int \<Rightarrow> (int \<times> istate) option" where
  "request_irq mem1 mem2 st t irq =
     (if irq < 0 \<or> irq \<ge> IRQ_COUNT then Some (-1, st)
      else if t_state (threads (ik st) t) \<noteq> THREAD_SUSPENDED then Some (-1, st)
      else if \<not> mem1 then Some (-1, st)
      else do {
        let n = nat irq;
        st \<leftarrow> irq_acquire n st;
        if \<not> mem2 then Some (-1, irq_release n st)
        else do {
          ss \<leftarrow> stubs_of (handlers st n);
          let count = hk_count (handlers st n) + 1;
          k \<leftarrow> sched_lock_all (ik st);
          let st = st\<lparr>ik := k\<rparr>;
          let hk = handlers st n;
          let hook = \<lparr>hk_raised = hk_raised hk, hk_index = (if hk_index hk < 0 then 0 else hk_index hk),
            hk_last = (if hk_last hk < 0 then 0 else hk_last hk), hk_count = count,
            hk_stubs = Some (ss @ [\<lparr>st_tr = t, st_ack = 0, st_nop = 0\<rparr>])\<rparr>;
          let st = (if count = 1 then unmask_irq irq st else st);
          let st = upd_hook n (\<lambda>_. hook) st;
          let st = in_kernel (upd_thread t (\<lambda>r. r\<lparr>t_irq := irq, t_state := THREAD_IRQ\<rparr>)) st;
          let st = (if t_cpu_affinity (threads (ik st) t) < 0
            then in_kernel (upd_thread t (\<lambda>r. r\<lparr>t_cpu_affinity := c_rem (wrap32 (t_tid r - 1)) (int (cpu_count (ik st)))\<rparr>)) st else st);
          k \<leftarrow> sched_unlock_all (ik st);
          Some (0, irq_release n (st\<lparr>ik := k\<rparr>))
        }
      })"

text \<open>The loop that shifts the stubs of all other threads into an array of \<open>n\<close> stubs; it counts those of \<open>t\<close>.\<close>

fun shift_stubs :: "addr \<Rightarrow> nat \<Rightarrow> irq_stub list \<Rightarrow> irq_stub list \<Rightarrow> int \<Rightarrow> (irq_stub list \<times> int) option" where
  "shift_stubs t n [] acc found = Some (acc, found)"
| "shift_stubs t n (s # ss) acc found =
     (if st_tr s = t then shift_stubs t n ss acc (found + 1)
      else do { assert (length acc < n); shift_stubs t n ss (acc @ [s]) found })"

text \<open>The new array and the number of stubs taken out; \<open>None\<close> as the array is NULL.\<close>

definition without_thread :: "istate \<Rightarrow> addr \<Rightarrow> irq_hook \<Rightarrow> (irq_stub list option \<times> int) option" where
  "without_thread st t hk =
     (if hk_count hk - 1 = 0 then do {
        s \<leftarrow> stub_at hk 0;
        Some (None, if t_process (threads (ik st) (st_tr s)) = t_process (threads (ik st) t) then 1 else 0)
      }
      else do {
        ss \<leftarrow> stubs_of hk;
        (ss', found) \<leftarrow> shift_stubs t (nat (hk_count hk - 1)) ss [] 0;
        Some (Some ss', found)
      })"

definition release_irq :: "bool \<Rightarrow> bool \<Rightarrow> istate \<Rightarrow> addr \<Rightarrow> int \<Rightarrow> (int \<times> istate) option" where
  "release_irq mem1 mem2 st t irq =
     (if irq < 0 \<or> irq \<ge> IRQ_COUNT then Some (-1, st)
      else if \<not> mem1 then Some (-1, st)
      else do {
        let n = nat irq;
        st \<leftarrow> irq_acquire n st;
        let count = hk_count (handlers st n) - 1;
        if count \<noteq> 0 \<and> \<not> mem2 then Some (-1, irq_release n st)
        else do {
          (ss, found) \<leftarrow> without_thread st t (handlers st n);
          if found = 0 then Some (-1, irq_release n st)
          else do {
            assert (found = 1);
            k \<leftarrow> sched_lock_all (ik st);
            let st = st\<lparr>ik := k\<rparr>;
            let hk = handlers st n;
            let hook = \<lparr>hk_raised = hk_raised hk,
              hk_index = (if hk_index hk \<ge> count \<and> hk_index hk > 0 then hk_index hk - 1 else hk_index hk),
              hk_last = (if hk_last hk \<ge> count \<and> hk_last hk > 0 then hk_last hk - (-1) else hk_last hk),
              hk_count = count, hk_stubs = ss\<rparr>;
            let st = (if count = 0 then mask_irq irq st else st);
            let st = upd_hook n (\<lambda>_. hook) st;
            let st = in_kernel (upd_thread t (\<lambda>r. r\<lparr>t_state := THREAD_SUSPENDED, t_irq := -1\<rparr>)) st;
            k \<leftarrow> sched_unlock_all (ik st);
            Some (0, irq_release n (st\<lparr>ik := k\<rparr>))
          }
        }
      })"

subsection \<open>Service\<close>

text \<open>The stub whose turn it is; a line without handlers divides by 0.\<close>

definition turn :: "irq_hook \<Rightarrow> int option" where
  "turn hk = do { assert (hk_count hk \<noteq> 0); Some (c_rem (wrap32 (hk_index hk + hk_last hk)) (hk_count hk)) }"

definition irq_ack :: "istate \<Rightarrow> int \<Rightarrow> (int \<times> istate) option" where
  "irq_ack st irq =
     (if irq < 0 \<or> irq \<ge> IRQ_COUNT then Some (-1, st)
      else do {
        let n = nat irq;
        st \<leftarrow> irq_acquire n st;
        pos \<leftarrow> turn (handlers st n);
        s \<leftarrow> stub_at (handlers st n) pos;
        if Some (st_tr s) \<noteq> current_thread (ik st) then Some (-1, irq_release n st)
        else do {
          let (cl, k) = disable_interrupts (ik st);
          let st = irq_release n (ack_irq irq (st\<lparr>ik := k\<rparr>));
          Some (0, if cl then in_kernel enable_interrupts st else st)
        }
      })"

definition upd_stub :: "nat \<Rightarrow> (irq_stub \<Rightarrow> irq_stub) \<Rightarrow> irq_hook \<Rightarrow> irq_hook" where
  "upd_stub i f hk = hk\<lparr>hk_stubs := map_option (\<lambda>ss. ss[i := f (ss ! i)]) (hk_stubs hk)\<rparr>"

definition irq_complete :: "istate \<Rightarrow> int \<Rightarrow> (int \<times> istate) option" where
  "irq_complete st status = do {
     tr \<leftarrow> current_thread (ik st);
     let irq = t_irq (threads (ik st) tr);
     if irq < 0 \<or> irq \<ge> IRQ_COUNT then Some (-1, st)
     else do {
       let n = nat irq;
       st \<leftarrow> irq_acquire n st;
       pos \<leftarrow> turn (handlers st n);
       s \<leftarrow> stub_at (handlers st n) pos;
       if st_tr s \<noteq> tr then Some (-1, irq_release n st)
       else do {
         st \<leftarrow> (if status = 0
           then Some (upd_hook n (\<lambda>hk. (upd_stub (nat pos) (\<lambda>s. s\<lparr>st_ack := st_ack s + 1\<rparr>) hk)\<lparr>hk_last := pos\<rparr>) st)
           else do {
             let st = upd_hook n (\<lambda>hk. (upd_stub (nat pos) (\<lambda>s. s\<lparr>st_nop := st_nop s + 1\<rparr>) hk)\<lparr>hk_index := wrap32 (hk_index hk + 1)\<rparr>) st;
             if hk_index (handlers st n) < hk_count (handlers st n) then do {
               s \<leftarrow> stub_at (handlers st n) (c_rem (pos + 1) (hk_count (handlers st n)));
               (rc, k) \<leftarrow> fast_queue (ik st) (st_tr s);
               Some (st\<lparr>ik := k\<rparr>)
             } else Some st
           });
         let (cl, k) = disable_interrupts (ik st);
         assert cl;
         (rc, k) \<leftarrow> fast_dequeue k tr;
         Some (0, in_kernel enable_interrupts (irq_release n (st\<lparr>ik := k\<rparr>)))
       }
     }
   }"

definition irq_handler :: "istate \<Rightarrow> int \<Rightarrow> (int \<times> istate) option" where
  "irq_handler st irq = do {
     assert (\<not> ints (ik st));
     if irq = 0 then Some (0, ack_irq irq st)
     else do {
       let n = nat irq;
       let st = upd_hook n (\<lambda>hk. hk\<lparr>hk_raised := hk_raised hk + 1, hk_index := 0\<rparr>) st;
       if hk_count (handlers st n) \<le> 0 then Some (0, st)
       else do {
         s \<leftarrow> stub_at (handlers st n) (hk_last (handlers st n));
         (rc, k) \<leftarrow> fast_queue (ik st) (st_tr s);
         Some (0, st\<lparr>ik := k\<rparr>)
       }
     }
   }"

subsection \<open>The lock over all processors\<close>

text \<open>Locking and unlocking leave threads, processes and the fast queues alone.\<close>

definition lock_frame :: "kstate \<Rightarrow> kstate \<Rightarrow> bool" where
  "lock_frame k k' \<longleftrightarrow> threads k' = threads k \<and> procs k' = procs k \<and> cpu_count k' = cpu_count k \<and> CPUID k' = CPUID k \<and>
     (\<forall>c. fast_list (sc k' c) = fast_list (sc k c) \<and> fast_ok (sc k' c) = fast_ok (sc k c))"

lemma lock_frame_trans: "lock_frame k k' \<Longrightarrow> lock_frame k' k'' \<Longrightarrow> lock_frame k k''"
  by (simp add: lock_frame_def)

definition idle_all :: "kstate \<Rightarrow> bool" where
  "idle_all k \<longleftrightarrow> \<not> sched_global_lock k \<and> (\<forall>c<cpu_count k. quiet k c)"

lemma sched_lock_from_ok:
  assumes "\<And>j. i \<le> j \<Longrightarrow> j < i + n \<Longrightarrow> quiet k j" "i + n \<le> cpu_count k"
  shows "\<exists>k'. sched_lock_from n i k = Some k' \<and> lock_frame k k' \<and> (\<forall>j. i \<le> j \<and> j < i + n \<longrightarrow> nested_lock (sc k' j) = 1) \<and>
    (\<forall>j<i. sc k' j = sc k j)"
  using assms
proof (induction n arbitrary: i k)
  case (Suc n)
  have q: "quiet k i" using Suc(2) [of i] by simp
  let ?k = "(upd_sched i (entered (ints k) (CPUID k \<noteq> i)) k)\<lparr>ints := False, ipis := (if si_idle (sc k i) then ipis k @ [i] else ipis k)\<rparr>"
  have l: "sched_lock k (int i) (CPUID k \<noteq> i) = Some ?k" by (rule sched_lock_ok [OF q]) auto
  have "quiet ?k j" if "Suc i \<le> j" "j < Suc i + n" for j using Suc(2) [of j] that by (simp add: quiet_def)
  from Suc(1) [of "Suc i" ?k, OF this] Suc(3) obtain k' where k': "sched_lock_from n (Suc i) ?k = Some k'" "lock_frame ?k k'"
    "\<forall>j. Suc i \<le> j \<and> j < Suc i + n \<longrightarrow> nested_lock (sc k' j) = 1" "\<forall>j<Suc i. sc k' j = sc ?k j" by auto
  have "lock_frame k ?k" by (simp add: lock_frame_def fast_list_def fast_len_def fast_ok_def entered_def)
  then have "lock_frame k k'" using k'(2) by (rule lock_frame_trans)
  moreover have "nested_lock (sc k' j) = 1" if "i \<le> j" "j < i + Suc n" for j
    using k'(3,4) that by (cases "j = i") (auto simp: entered_def)
  moreover have "\<forall>j<i. sc k' j = sc k j" using k'(4) by simp
  ultimately show ?case using l k'(1) by auto
qed (simp add: lock_frame_def)

lemma sched_unlock_from_ok:
  assumes "\<And>j. i \<le> j \<Longrightarrow> j < i + n \<Longrightarrow> nested_lock (sc k j) = 1" "i + n \<le> cpu_count k"
  shows "\<exists>k'. sched_unlock_from n i k = Some k' \<and> lock_frame k k' \<and> (\<forall>j. i \<le> j \<and> j < i + n \<longrightarrow> quiet k' j) \<and> (\<forall>j<i. sc k' j = sc k j)"
  using assms
proof (induction n arbitrary: i k)
  case (Suc n)
  have q: "nested_lock (sc k i) = 1" "i < cpu_count k" using Suc(2) [of i] Suc(3) by simp_all
  let ?k = "(upd_sched i (\<lambda>s. s\<lparr>nested_lock := 0, lock_scheduler := False\<rparr>) k)\<lparr>ints := (if CPUID k = i \<and> lock_flags (sc k i) then True else ints k)\<rparr>"
  have l: "sched_unlock k (int i) = Some ?k" by (rule sched_unlock_ok [OF q(2,1)])
  have "nested_lock (sc ?k j) = 1" if "Suc i \<le> j" "j < Suc i + n" for j using Suc(2) [of j] that by simp
  from Suc(1) [of "Suc i" ?k, OF this] Suc(3) obtain k' where k': "sched_unlock_from n (Suc i) ?k = Some k'" "lock_frame ?k k'"
    "\<forall>j. Suc i \<le> j \<and> j < Suc i + n \<longrightarrow> quiet k' j" "\<forall>j<Suc i. sc k' j = sc ?k j" by auto
  have "lock_frame k ?k" by (simp add: lock_frame_def fast_list_def fast_len_def fast_ok_def entered_def)
  then have fr: "lock_frame k k'" using k'(2) by (rule lock_frame_trans)
  moreover have "quiet k' j" if "i \<le> j" "j < i + Suc n" for j
    using k'(3,4) that q(2) fr by (cases "j = i") (auto simp: quiet_def lock_frame_def)
  moreover have "\<forall>j<i. sc k' j = sc k j" using k'(4) by simp
  ultimately show ?case using l k'(1) by auto
qed (auto simp: lock_frame_def)

text \<open>A critical section over all processors in which only threads change.\<close>

lemma sched_lock_all_ok:
  assumes "idle_all k"
  shows "\<exists>k1. sched_lock_all k = Some k1 \<and> lock_frame k k1 \<and>
    (\<forall>f. \<exists>k2. sched_unlock_all (k1\<lparr>threads := f\<rparr>) = Some k2 \<and> lock_frame (k1\<lparr>threads := f\<rparr>) k2 \<and> idle_all k2)"
proof -
  let ?k = "k\<lparr>sched_global_lock := True\<rparr>"
  have "\<And>j. 0 \<le> j \<Longrightarrow> j < 0 + cpu_count k \<Longrightarrow> quiet ?k j" using assms by (simp add: idle_all_def quiet_def)
  from sched_lock_from_ok [of 0 "cpu_count k" ?k, OF this] obtain k1 where k1: "sched_lock_from (cpu_count k) 0 ?k = Some k1" "lock_frame ?k k1"
    "\<And>j. j < cpu_count k \<Longrightarrow> nested_lock (sc k1 j) = 1" by auto
  have a: "sched_lock_all k = Some k1" "lock_frame k k1" using k1 assms by (simp_all add: sched_lock_all_def idle_all_def lock_frame_def)
  have "\<exists>k2. sched_unlock_all (k1\<lparr>threads := f\<rparr>) = Some k2 \<and> lock_frame (k1\<lparr>threads := f\<rparr>) k2 \<and> idle_all k2" for f
  proof -
    have n: "cpu_count k1 = cpu_count k" using k1(2) by (simp add: lock_frame_def)
    have "\<And>j. 0 \<le> j \<Longrightarrow> j < 0 + cpu_count k1 \<Longrightarrow> nested_lock (sc (k1\<lparr>threads := f\<rparr>) j) = 1" using k1(3) n by simp
    from sched_unlock_from_ok [of 0 "cpu_count k1" "k1\<lparr>threads := f\<rparr>", OF this] obtain k2 where
      k2: "sched_unlock_from (cpu_count k1) 0 (k1\<lparr>threads := f\<rparr>) = Some k2" "lock_frame (k1\<lparr>threads := f\<rparr>) k2" "\<forall>j<cpu_count k1. quiet k2 j" by auto
    then have "idle_all (k2\<lparr>sched_global_lock := False\<rparr>)" by (auto simp: idle_all_def quiet_def lock_frame_def)
    moreover have "lock_frame (k1\<lparr>threads := f\<rparr>) (k2\<lparr>sched_global_lock := False\<rparr>)" using k2(2) by (simp add: lock_frame_def)
    ultimately show ?thesis using k2(1) by (auto simp: sched_unlock_all_def)
  qed
  then show ?thesis using a by blast
qed

subsection \<open>The invariant\<close>

definition stub_list :: "irq_hook \<Rightarrow> irq_stub list" where
  "stub_list hk = (case hk_stubs hk of None \<Rightarrow> [] | Some ss \<Rightarrow> ss)"

definition hook_ok :: "irq_hook \<Rightarrow> bool" where
  "hook_ok hk \<longleftrightarrow> int (length (stub_list hk)) = hk_count hk \<and> (hk_stubs hk = None \<longleftrightarrow> hk_count hk = 0) \<and> hk_count hk < 2 ^ 30 \<and>
     distinct (map st_tr (stub_list hk)) \<and> 0 \<le> hk_index hk \<and> hk_index hk \<le> hk_count hk \<and> 0 \<le> hk_last hk \<and>
     (hk_last hk < hk_count hk \<or> hk_last hk = 0)"

definition masked :: "istate \<Rightarrow> nat \<Rightarrow> bool" where
  "masked st n = (if usingIOAPIC st then bit (ioapic st (of_nat n * 2 + REG_INT0)) 16 else bit (irq_mask st) n)"

text \<open>A handler of line \<open>n\<close>: it knows its line, is not scheduled otherwise, and stays on one processor.\<close>

definition handler_ok :: "kstate \<Rightarrow> nat \<Rightarrow> addr \<Rightarrow> bool" where
  "handler_ok k n t \<longleftrightarrow> t_irq (threads k t) = int n \<and> t_state (threads k t) = THREAD_IRQ \<and> 0 \<le> t_cpu_affinity (threads k t) \<and>
     t_cpu_affinity (threads k t) < int (cpu_count k)"

definition irq_inv :: "istate \<Rightarrow> bool" where
  "irq_inv st \<longleftrightarrow> (\<forall>n<24. hook_ok (handlers st n) \<and> \<not> irq_locks st n \<and> (\<forall>s\<in>set (stub_list (handlers st n)). handler_ok (ik st) n (st_tr s)) \<and>
     (0 < hk_count (handlers st n) \<longrightarrow> \<not> masked st n))"

lemma irq_invD:
  assumes "irq_inv st" "n < 24"
  shows "hook_ok (handlers st n)" "\<not> irq_locks st n" "\<And>s. s \<in> set (stub_list (handlers st n)) \<Longrightarrow> handler_ok (ik st) n (st_tr s)"
    "0 < hk_count (handlers st n) \<Longrightarrow> \<not> masked st n"
  using assms by (auto simp: irq_inv_def)

lemma hook_okD:
  assumes "hook_ok hk"
  obtains "hk_count hk = 0" "hk_stubs hk = None" "stub_list hk = []"
  | ss where "hk_stubs hk = Some ss" "stub_list hk = ss" "hk_count hk = int (length ss)" "ss \<noteq> []" "distinct (map st_tr ss)"
  using assms by (cases "hk_stubs hk"; cases "stub_list hk") (auto simp: hook_ok_def stub_list_def)

lemma stubs_of_ok: "hook_ok hk \<Longrightarrow> stubs_of hk = Some (stub_list hk)"
  by (erule hook_okD) (simp_all add: stubs_of_def)

lemma upd_hook_simps [simp]:
  "handlers (upd_hook n f st) = (handlers st)(n := f (handlers st n))" "ik (upd_hook n f st) = ik st" "irq_locks (upd_hook n f st) = irq_locks st"
  "irq_mask (upd_hook n f st) = irq_mask st" "usingIOAPIC (upd_hook n f st) = usingIOAPIC st" "ioapic (upd_hook n f st) = ioapic st"
  "masked (upd_hook n f st) = masked st"
  by (simp_all add: upd_hook_def masked_def fun_eq_iff)

lemma in_kernel_simps [simp]:
  "ik (in_kernel f st) = f (ik st)" "handlers (in_kernel f st) = handlers st" "irq_locks (in_kernel f st) = irq_locks st"
  "masked (in_kernel f st) = masked st" "handlers (irq_release n st) = handlers st" "ik (irq_release n st) = ik st"
  "irq_locks (irq_release n st) = (irq_locks st)(n := False)" "masked (irq_release n st) = masked st"
  by (simp_all add: in_kernel_def irq_release_def masked_def fun_eq_iff)

lemma mask_fields [simp]:
  "handlers (unmask_irq i st) = handlers st" "ik (unmask_irq i st) = ik st" "irq_locks (unmask_irq i st) = irq_locks st"
  "handlers (mask_irq i st) = handlers st" "ik (mask_irq i st) = ik st" "irq_locks (mask_irq i st) = irq_locks st"
  by (simp_all add: unmask_irq_def mask_irq_def unmask_ioapic_def mask_ioapic_def unmask_8259_def mask_8259_def out_mask_def outb_p_def
      redirect_def write_ioapic_def)

lemma masked_same [simp]: "masked (st\<lparr>ik := k\<rparr>) = masked st" "masked (st\<lparr>irq_locks := l\<rparr>) = masked st" "masked (st\<lparr>handlers := h\<rparr>) = masked st"
  by (simp_all add: masked_def fun_eq_iff)

lemma reg_apart:
  assumes "n < 24" "m < 24"
  shows "((of_nat m :: u32) * 2 + REG_INT0 = of_nat n * 2 + REG_INT0) = (m = n)" "(of_nat m :: u32) * 2 + REG_INT0 \<noteq> of_nat n * 2 + REG_INT0 + 1"
proof -
  have u: "unat ((of_nat j :: u32) * 2 + REG_INT0) = 2 * j + 16" "unat ((of_nat j :: u32) * 2 + REG_INT0 + 1) = 2 * j + 17" if "j < 24" for j
    using that by (simp_all add: REG_INT0_def unat_word_ariths unat_of_nat)
  show "((of_nat m :: u32) * 2 + REG_INT0 = of_nat n * 2 + REG_INT0) = (m = n)"
    using u(1) [OF assms(1)] u(1) [OF assms(2)] by (metis add_right_cancel nat_mult_eq_cancel_disj zero_neq_numeral)
  show "(of_nat m :: u32) * 2 + REG_INT0 \<noteq> of_nat n * 2 + REG_INT0 + 1"
    using u(2) [OF assms(1)] u(1) [OF assms(2)] by (metis even_add even_mult_iff even_numeral odd_numeral)
qed

lemma line_bit: "n < 24 \<Longrightarrow> \<not> bit (0x20 + of_nat n :: u32) 16"
  by (auto simp: less_Suc_eq numeral_eq_Suc)

lemma masked_unmask:
  assumes "n < 24" "m < 24"
  shows "masked (unmask_irq (int n) st) m = (m \<noteq> n \<and> masked st m)" "masked (mask_irq (int n) st) m = (m = n \<or> masked st m)"
  using assms reg_apart [OF assms] line_bit [OF assms(1)]
  by (auto simp: masked_def unmask_irq_def mask_irq_def unmask_ioapic_def mask_ioapic_def unmask_8259_def mask_8259_def out_mask_def outb_p_def
      redirect_def write_ioapic_def bit_simps)

text \<open>A critical section that replaces the hook of a line and changes one thread.\<close>

lemma handler_frame:
  assumes "handler_ok k n t" "threads k' t = threads k t" "cpu_count k' = cpu_count k"
  shows "handler_ok k' n t"
  using assms by (simp add: handler_ok_def)

lemma in_kernel_thread: "in_kernel (upd_thread t f) st = st\<lparr>ik := (ik st)\<lparr>threads := (threads (ik st))(t := f (threads (ik st) t))\<rparr>\<rparr>"
  by (simp add: in_kernel_def upd_thread_def)

text \<open>The processor a new handler is bound to.\<close>

definition bound_cpu :: "kstate \<Rightarrow> addr \<Rightarrow> int" where
  "bound_cpu k t = (if t_cpu_affinity (threads k t) < 0 then c_rem (wrap32 (t_tid (threads k t) - 1)) (int (cpu_count k)) else t_cpu_affinity (threads k t))"

lemma request_irq_ok:
  assumes inv: "irq_inv st" and idle: "idle_all (ik st)" and t: "t_state (threads (ik st) t) = THREAD_SUSPENDED" and n: "n < 24"
    and few: "hk_count (handlers st n) < 2 ^ 30 - 1"
  shows "\<exists>st'. request_irq True True st t (int n) = Some (0, st') \<and> idle_all (ik st') \<and>
    handlers st' = (handlers st)(n := (handlers st n)\<lparr>hk_count := hk_count (handlers st n) + 1,
      hk_stubs := Some (stub_list (handlers st n) @ [\<lparr>st_tr = t, st_ack = 0, st_nop = 0\<rparr>])\<rparr>) \<and> irq_locks st' = irq_locks st \<and>
    threads (ik st') = (threads (ik st))(t := (threads (ik st) t)\<lparr>t_irq := int n, t_state := THREAD_IRQ, t_cpu_affinity := bound_cpu (ik st) t\<rparr>) \<and>
    cpu_count (ik st') = cpu_count (ik st) \<and> (\<forall>m<24. masked st' m = (masked st m \<and> \<not> (m = n \<and> hk_count (handlers st n) = 0)))"
proof -
  let ?hk = "handlers st n"
  note I = irq_invD [OF inv n]
  let ?l = "st\<lparr>irq_locks := (irq_locks st)(n := True)\<rparr>"
  obtain k1 where k1: "sched_lock_all (ik st) = Some k1" "lock_frame (ik st) k1"
    "\<And>f. \<exists>k2. sched_unlock_all (k1\<lparr>threads := f\<rparr>) = Some k2 \<and> lock_frame (k1\<lparr>threads := f\<rparr>) k2 \<and> idle_all k2"
    using sched_lock_all_ok [OF idle] by blast
  have fr: "threads k1 = threads (ik st)" "cpu_count k1 = cpu_count (ik st)" using k1(2) by (simp_all add: lock_frame_def)
  let ?th = "(threads (ik st))(t := (threads (ik st) t)\<lparr>t_irq := int n, t_state := THREAD_IRQ, t_cpu_affinity := bound_cpu (ik st) t\<rparr>)"
  obtain k2 where k2: "sched_unlock_all (k1\<lparr>threads := ?th\<rparr>) = Some k2" "lock_frame (k1\<lparr>threads := ?th\<rparr>) k2" "idle_all k2" using k1(3) by blast
  let ?u = "if hk_count ?hk + 1 = 1 then unmask_irq (int n) (?l\<lparr>ik := k1\<rparr>) else ?l\<lparr>ik := k1\<rparr>"
  let ?hk' = "?hk\<lparr>hk_count := hk_count ?hk + 1, hk_stubs := Some (stub_list ?hk @ [\<lparr>st_tr = t, st_ack = 0, st_nop = 0\<rparr>])\<rparr>"
  let ?st' = "irq_release n ((upd_hook n (\<lambda>_. ?hk') ?u)\<lparr>ik := k2\<rparr>)"
  have hk: "0 \<le> hk_index ?hk" "0 \<le> hk_last ?hk" using I(1) by (simp_all add: hook_ok_def)
  have so: "stubs_of ?hk = Some (stub_list ?hk)" by (rule stubs_of_ok [OF I(1)])
  have "request_irq True True st t (int n) = Some (0, ?st')"
    using t I(2) n so k1(1) k2(1) hk fr
    by (cases "hk_count ?hk = 0"; cases "t_cpu_affinity (threads (ik st) t) < 0"; cases "threads (ik st) t"; cases "handlers st n")
      (simp_all add: request_irq_def IRQ_COUNT_def irq_acquire_def Let_def in_kernel_thread bound_cpu_def upd_hook_def)
  moreover have "irq_locks ?st' = irq_locks st" using I(2) by (auto simp: fun_eq_iff)
  moreover have "\<forall>m<24. masked ?st' m = (masked st m \<and> \<not> (m = n \<and> hk_count ?hk = 0))"
    by (auto simp: masked_unmask(1) [OF n])
  ultimately show ?thesis using k2(2,3) by (auto simp: lock_frame_def fr)
qed

lemma shift_stubs_other:
  "t \<notin> st_tr ` set ss \<Longrightarrow> length acc + length ss \<le> n \<Longrightarrow> shift_stubs t n ss acc found = Some (acc @ ss, found)"
  by (induction ss arbitrary: acc) auto

lemma shift_stubs_append:
  "t \<notin> st_tr ` set xs \<Longrightarrow> length acc + length xs \<le> n \<Longrightarrow> shift_stubs t n (xs @ ys) acc found = shift_stubs t n ys (acc @ xs) found"
  by (induction xs arbitrary: acc) auto

lemma shift_stubs_ok:
  assumes "distinct (map st_tr (xs @ s # ys))"
  shows "shift_stubs (st_tr s) (length (xs @ ys)) (xs @ s # ys) [] 0 = Some (xs @ ys, 1)"
  using assms by (subst shift_stubs_append) (auto simp: shift_stubs_other)

lemma release_irq_ok:
  assumes inv: "irq_inv st" and idle: "idle_all (ik st)" and n: "n < 24" and ss: "stub_list (handlers st n) = xs @ s # ys"
  shows "\<exists>st'. release_irq True True st (st_tr s) (int n) = Some (0, st') \<and> idle_all (ik st') \<and>
    handlers st' = (handlers st)(n := (let hk = handlers st n; c = hk_count hk - 1 in
      hk\<lparr>hk_count := c, hk_stubs := (if c = 0 then None else Some (xs @ ys)),
        hk_index := (if hk_index hk \<ge> c \<and> hk_index hk > 0 then hk_index hk - 1 else hk_index hk),
        hk_last := (if hk_last hk \<ge> c \<and> hk_last hk > 0 then hk_last hk + 1 else hk_last hk)\<rparr>)) \<and> irq_locks st' = irq_locks st \<and>
    threads (ik st') = (threads (ik st))(st_tr s := (threads (ik st) (st_tr s))\<lparr>t_state := THREAD_SUSPENDED, t_irq := -1\<rparr>) \<and>
    cpu_count (ik st') = cpu_count (ik st) \<and> (\<forall>m<24. masked st' m = (masked st m \<or> m = n \<and> hk_count (handlers st n) = 1))"
proof -
  let ?hk = "handlers st n" and ?t = "st_tr s"
  note I = irq_invD [OF inv n]
  let ?l = "st\<lparr>irq_locks := (irq_locks st)(n := True)\<rparr>"
  have d: "distinct (map st_tr (xs @ s # ys))" "int (length (xs @ s # ys)) = hk_count ?hk" using I(1) unfolding hook_ok_def ss by blast+
  have c: "hk_count ?hk = int (length (xs @ ys)) + 1" "hk_stubs ?hk = Some (xs @ s # ys)"
    using d(2) ss by (auto simp: stub_list_def split: option.splits)
  have so: "stubs_of ?hk = Some (xs @ s # ys)" using stubs_of_ok [OF I(1)] ss by simp
  obtain k1 where k1: "sched_lock_all (ik st) = Some k1" "lock_frame (ik st) k1"
    "\<And>f. \<exists>k2. sched_unlock_all (k1\<lparr>threads := f\<rparr>) = Some k2 \<and> lock_frame (k1\<lparr>threads := f\<rparr>) k2 \<and> idle_all k2"
    using sched_lock_all_ok [OF idle] by blast
  have fr: "threads k1 = threads (ik st)" "cpu_count k1 = cpu_count (ik st)" using k1(2) by (simp_all add: lock_frame_def)
  let ?th = "(threads (ik st))(?t := (threads (ik st) ?t)\<lparr>t_state := THREAD_SUSPENDED, t_irq := -1\<rparr>)"
  obtain k2 where k2: "sched_unlock_all (k1\<lparr>threads := ?th\<rparr>) = Some k2" "lock_frame (k1\<lparr>threads := ?th\<rparr>) k2" "idle_all k2" using k1(3) by blast
  have "without_thread ?l ?t ?hk = Some (if hk_count ?hk - 1 = 0 then None else Some (xs @ ys), 1)"
  proof (cases "xs @ ys = []")
    case True
    then show ?thesis using c by (simp add: without_thread_def stub_at_def)
  next
    case False
    have "shift_stubs ?t (length (xs @ ys)) (xs @ s # ys) [] 0 = Some (xs @ ys, 1)" using d(1) by (rule shift_stubs_ok)
    moreover have "hk_count ?hk - 1 \<noteq> 0" "nat (hk_count ?hk - 1) = length (xs @ ys)" unfolding c(1) using False by (simp_all del: length_append append_is_Nil_conv)
    ultimately show ?thesis using so by (simp add: without_thread_def)
  qed
  then have w: "without_thread ?l ?t (handlers ?l n) = Some (if hk_count ?hk - 1 = 0 then None else Some (xs @ ys), 1)" by simp
  let ?u = "if hk_count ?hk - 1 = 0 then mask_irq (int n) (?l\<lparr>ik := k1\<rparr>) else ?l\<lparr>ik := k1\<rparr>"
  let ?hk' = "let hk = ?hk; c = hk_count hk - 1 in
      hk\<lparr>hk_count := c, hk_stubs := (if c = 0 then None else Some (xs @ ys)),
        hk_index := (if hk_index hk \<ge> c \<and> hk_index hk > 0 then hk_index hk - 1 else hk_index hk),
        hk_last := (if hk_last hk \<ge> c \<and> hk_last hk > 0 then hk_last hk + 1 else hk_last hk)\<rparr>"
  let ?st' = "irq_release n ((upd_hook n (\<lambda>_. ?hk') ?u)\<lparr>ik := k2\<rparr>)"
  have "release_irq True True st ?t (int n) = Some (0, ?st')"
    using I(2) n w k1(1) k2(1) fr
    by (cases "hk_count ?hk - 1 = 0"; cases "handlers st n")
      (simp_all add: release_irq_def IRQ_COUNT_def irq_acquire_def Let_def in_kernel_thread upd_hook_def)
  moreover have "irq_locks ?st' = irq_locks st" using I(2) by (auto simp: fun_eq_iff)
  moreover have "\<forall>m<24. masked ?st' m = (masked st m \<or> m = n \<and> hk_count ?hk = 1)"
    by (auto simp: masked_unmask(2) [OF n])
  ultimately show ?thesis using k2(2,3) by (auto simp: lock_frame_def fr)
qed

text \<open>Request and release keep the invariant, the release as long as \<open>last\<close> stays in the array.\<close>

lemma request_irq_inv:
  assumes inv: "irq_inv st" and idle: "idle_all (ik st)" and t: "t_state (threads (ik st) t) = THREAD_SUSPENDED" and n: "n < 24"
    and few: "hk_count (handlers st n) < 2 ^ 30 - 1" and cpu: "0 \<le> bound_cpu (ik st) t" "bound_cpu (ik st) t < int (cpu_count (ik st))"
  shows "\<exists>st'. request_irq True True st t (int n) = Some (0, st') \<and> irq_inv st' \<and> idle_all (ik st') \<and>
    (\<forall>m. map st_tr (stub_list (handlers st' m)) = map st_tr (stub_list (handlers st m)) @ (if m = n then [t] else []))"
proof -
  let ?hk = "handlers st n"
  from request_irq_ok [OF inv idle t n few] obtain st' where st': "request_irq True True st t (int n) = Some (0, st')" "idle_all (ik st')"
    "handlers st' = (handlers st)(n := ?hk\<lparr>hk_count := hk_count ?hk + 1, hk_stubs := Some (stub_list ?hk @ [\<lparr>st_tr = t, st_ack = 0, st_nop = 0\<rparr>])\<rparr>)"
    "irq_locks st' = irq_locks st" "cpu_count (ik st') = cpu_count (ik st)"
    "threads (ik st') = (threads (ik st))(t := (threads (ik st) t)\<lparr>t_irq := int n, t_state := THREAD_IRQ, t_cpu_affinity := bound_cpu (ik st) t\<rparr>)"
    "\<forall>m<24. masked st' m = (masked st m \<and> \<not> (m = n \<and> hk_count ?hk = 0))" by blast
  have fresh: "t \<notin> st_tr ` set (stub_list (handlers st m))" if "m < 24" for m
    using irq_invD(3) [OF inv that] t by (auto simp: handler_ok_def)
  have "hook_ok (handlers st' m)" if "m < 24" for m
    using irq_invD(1) [OF inv that] fresh [OF that] few by (auto simp: st'(3) hook_ok_def stub_list_def)
  moreover have "handler_ok (ik st') m (st_tr s)" if m: "m < 24" "s \<in> set (stub_list (handlers st' m))" for m s
  proof (cases "st_tr s = t")
    case True
    then have "m = n" using m fresh [OF m(1)] by (auto simp: st'(3) split: if_splits)
    then show ?thesis using True cpu by (simp add: handler_ok_def st'(5,6))
  next
    case False
    then have "s \<in> set (stub_list (handlers st m))" using m(2) by (auto simp: st'(3) stub_list_def split: if_splits)
    from handler_frame [OF irq_invD(3) [OF inv m(1) this]] show ?thesis using False by (simp add: st'(5,6))
  qed
  moreover have "0 < hk_count (handlers st' m) \<longrightarrow> \<not> masked st' m" if "m < 24" for m
    using irq_invD(1,4) [OF inv that] that st'(7) by (auto simp: st'(3) hook_ok_def)
  ultimately have "irq_inv st'" using irq_invD(2) [OF inv] by (simp add: irq_inv_def st'(4))
  then show ?thesis using st'(1-3) by (auto simp: stub_list_def)
qed

lemma release_irq_inv:
  assumes inv: "irq_inv st" and idle: "idle_all (ik st)" and n: "n < 24" and ss: "stub_list (handlers st n) = xs @ s # ys"
    and last: "hk_last (handlers st n) = 0 \<or> hk_last (handlers st n) < hk_count (handlers st n) - 1"
  shows "\<exists>st'. release_irq True True st (st_tr s) (int n) = Some (0, st') \<and> irq_inv st' \<and> idle_all (ik st') \<and>
    t_state (threads (ik st') (st_tr s)) = THREAD_SUSPENDED \<and> stub_list (handlers st' n) = xs @ ys \<and>
    (\<forall>m. m \<noteq> n \<longrightarrow> handlers st' m = handlers st m) \<and> (xs @ ys = [] \<longrightarrow> masked st' n)"
proof -
  let ?hk = "handlers st n" and ?t = "st_tr s"
  let ?hk' = "let hk = ?hk; c = hk_count hk - 1 in
      hk\<lparr>hk_count := c, hk_stubs := (if c = 0 then None else Some (xs @ ys)),
        hk_index := (if hk_index hk \<ge> c \<and> hk_index hk > 0 then hk_index hk - 1 else hk_index hk),
        hk_last := (if hk_last hk \<ge> c \<and> hk_last hk > 0 then hk_last hk + 1 else hk_last hk)\<rparr>"
  from release_irq_ok [OF inv idle n ss] obtain st' where st': "release_irq True True st ?t (int n) = Some (0, st')" "idle_all (ik st')"
    "handlers st' = (handlers st)(n := ?hk')"
    "irq_locks st' = irq_locks st" "cpu_count (ik st') = cpu_count (ik st)"
    "threads (ik st') = (threads (ik st))(?t := (threads (ik st) ?t)\<lparr>t_state := THREAD_SUSPENDED, t_irq := -1\<rparr>)"
    "\<forall>m<24. masked st' m = (masked st m \<or> m = n \<and> hk_count ?hk = 1)" by blast
  have d: "distinct (map st_tr (xs @ s # ys))" "hk_count ?hk = int (length (xs @ ys)) + 1"
    using irq_invD(1) [OF inv n] unfolding hook_ok_def ss by auto
  have list: "stub_list ?hk' = xs @ ys" using d(2) by (cases "xs @ ys = []") (simp_all add: stub_list_def Let_def del: length_append append_is_Nil_conv)
  have "hook_ok ?hk'" using irq_invD(1) [OF inv n] d last list by (auto simp: hook_ok_def Let_def)
  then have hooks: "hook_ok (handlers st' m)" if "m < 24" for m using irq_invD(1) [OF inv that] by (simp add: st'(3))
  have "handler_ok (ik st') m (st_tr r)" if m: "m < 24" "r \<in> set (stub_list (handlers st' m))" for m r
  proof -
    have r: "r \<in> set (stub_list (handlers st m))" using m(2) list ss by (auto simp: st'(3) split: if_splits)
    have "st_tr r \<noteq> ?t"
    proof (cases "m = n")
      case True
      then have "r \<in> set (xs @ ys)" using m(2) list by (simp add: st'(3))
      then have "st_tr r \<in> st_tr ` set (xs @ ys)" by (rule imageI)
      moreover have "?t \<notin> st_tr ` set (xs @ ys)" using d(1) by auto
      ultimately show ?thesis by metis
    next
      case False
      have "s \<in> set (stub_list ?hk)" by (simp add: ss)
      then show ?thesis using irq_invD(3) [OF inv m(1) r] irq_invD(3) [OF inv n] False by (auto simp: handler_ok_def)
    qed
    then show ?thesis using handler_frame [OF irq_invD(3) [OF inv m(1) r]] by (simp add: st'(5,6))
  qed
  moreover have "0 < hk_count (handlers st' m) \<longrightarrow> \<not> masked st' m" if "m < 24" for m
    using irq_invD(4) [OF inv that] that st'(7) by (auto simp: st'(3) Let_def)
  ultimately have "irq_inv st'" using irq_invD(2) [OF inv] hooks by (simp add: irq_inv_def st'(4))
  moreover have "stub_list (handlers st' n) = xs @ ys" using list by (simp add: st'(3))
  moreover have "xs @ ys = [] \<longrightarrow> masked st' n" using st'(7) n d(2) by auto
  ultimately show ?thesis using st'(1-3,6) by auto
qed

subsection \<open>An interrupt is offered to all handlers\<close>

lemma fast_queue_ok:
  assumes "quiet k c" "fast_ok (sc k c)" "length (fast_list (sc k c)) < 31" "t_cpu_affinity (threads k t) = int c"
  shows "\<exists>k'. fast_queue k t = Some (0, k') \<and> fast_list (sc k' c) = fast_list (sc k c) @ [t] \<and> fast_ok (sc k' c) \<and> quiet k' c \<and>
    threads k' = (threads k)(t := (threads k t)\<lparr>t_cpu := int c, t_fast_queued := t_fast_queued (threads k t) + 1\<rparr>) \<and>
    CPUID k' = CPUID k \<and> ints k' = (ints k \<and> CPUID k = c)"
proof -
  have lt: "c < cpu_count k" and n: "fast_len (sc k c) < 31" using assms(1,3) by (simp_all add: quiet_def fast_list_def)
  note p = fast_list_put [OF assms(2) n refl, of t]
  show ?thesis
    using p assms(1,4) lt
    by (auto simp: fast_queue_def sched_crit Let_def upd_thread_def) (simp_all add: fast_list_def fast_len_def fast_ok_def)
qed

lemma fast_dequeue_ok:
  assumes "quiet k c" "fast_ok (sc k c)" "fast_list (sc k c) = t # ts" "CPUID k = c" "t_cpu (threads k t) = int c"
  shows "\<exists>k'. fast_dequeue k t = Some (0, k') \<and> fast_list (sc k' c) = ts \<and> fast_ok (sc k' c) \<and> quiet k' c \<and>
    threads k' = (threads k)(t := (threads k t)\<lparr>t_cpu := (if t_fast_queued (threads k t) = 1 then -1 else int c), t_fast_queued := t_fast_queued (threads k t) - 1\<rparr>) \<and>
    CPUID k' = c"
proof -
  have lt: "c < cpu_count k" using assms(1) by (simp add: quiet_def)
  note p = fast_list_pop [OF assms(2,3) refl]
  show ?thesis
    using p assms(1,4,5) lt
    by (cases "threads k t"; cases "t_fast_queued (threads k t) = 1")
      (simp_all add: fast_dequeue_def sched_crit Let_def upd_thread_def, simp_all add: fast_list_def fast_len_def fast_ok_def)
qed

text \<open>The scheduler runs the handler, with interrupts on.\<close>

definition run_handler :: "addr \<Rightarrow> istate \<Rightarrow> istate" where
  "run_handler tr st = in_kernel (\<lambda>k. (exec_enter k (CPUID k) tr False)\<lparr>ints := True\<rparr>) st"

text \<open>The next \<open>n\<close> threads of the fast queue run and reject the interrupt.\<close>

fun ask_handlers :: "nat \<Rightarrow> istate \<Rightarrow> (addr list \<times> istate) option" where
  "ask_handlers 0 st = Some ([], st)"
| "ask_handlers (Suc n) st = do {
     tr \<leftarrow> get_fast (sc (ik st) (CPUID (ik st)));
     (rc, st) \<leftarrow> irq_complete (run_handler tr st) 1;
     (trs, st) \<leftarrow> ask_handlers n st;
     Some (tr # trs, st)
   }"

text \<open>The handlers \<open>ts\<close> of line \<open>n\<close>, all on processor \<open>c\<close>; \<open>i\<close> of them have rejected the interrupt, the first one asked was number \<open>l\<close>.\<close>

definition line_ok :: "addr list \<Rightarrow> nat \<Rightarrow> nat \<Rightarrow> nat \<Rightarrow> istate \<Rightarrow> bool" where
  "line_ok ts l n c st \<longleftrightarrow> n < 24 \<and> (\<exists>ss. hk_stubs (handlers st n) = Some ss \<and> map st_tr ss = ts) \<and> hk_count (handlers st n) = int (length ts) \<and>
     hk_last (handlers st n) = int l \<and> l < length ts \<and> length ts < 2 ^ 30 \<and> distinct ts \<and> \<not> irq_locks st n \<and> CPUID (ik st) = c \<and> quiet (ik st) c \<and>
     fast_ok (sc (ik st) c) \<and> (\<forall>t\<in>set ts. t_irq (threads (ik st) t) = int n \<and> t_cpu_affinity (threads (ik st) t) = int c)"

definition asked :: "addr list \<Rightarrow> nat \<Rightarrow> nat \<Rightarrow> addr" where
  "asked ts l i = ts ! ((i + l) mod length ts)"

definition serving :: "addr list \<Rightarrow> nat \<Rightarrow> nat \<Rightarrow> nat \<Rightarrow> nat \<Rightarrow> istate \<Rightarrow> bool" where
  "serving ts l n c i st \<longleftrightarrow> line_ok ts l n c st \<and> i < length ts \<and> hk_index (handlers st n) = int i \<and>
     fast_list (sc (ik st) c) = [asked ts l i] \<and> t_cpu (threads (ik st) (asked ts l i)) = int c"

lemma turn_ok:
  assumes "hk_count hk = int m" "hk_index hk = int i" "hk_last hk = int l" "i < m" "l < m" "m < 2 ^ 30"
  shows "turn hk = Some (int ((i + l) mod m))"
proof -
  have "wrap32 (int i + int l) = int i + int l" using assms(4-6) by simp
  then show ?thesis using assms by (simp add: turn_def zmod_int)
qed

lemma stub_at_ok: "hk_stubs hk = Some ss \<Longrightarrow> j < length ss \<Longrightarrow> stub_at hk (int j) = Some (ss ! j)"
  by (simp add: stub_at_def)

lemma asked_apart:
  assumes "distinct ts" "Suc i < length ts"
  shows "asked ts l (Suc i) \<noteq> asked ts l i" "asked ts l i \<in> set ts" "asked ts l (Suc i) \<in> set ts"
proof -
  let ?m = "length ts" and ?p = "(i + l) mod length ts"
  have m: "0 < ?m" "1 < ?m" using assms(2) by auto
  have "Suc ?p mod ?m \<noteq> ?p"
  proof (cases "Suc ?p = ?m")
    case True
    then show ?thesis using m by simp
  next
    case False
    then have "Suc ?p < ?m" using m(1) by (metis Suc_lessI mod_less_divisor)
    then show ?thesis by simp
  qed
  then have "(Suc i + l) mod ?m \<noteq> ?p" by (simp add: mod_Suc_eq)
  then show "asked ts l (Suc i) \<noteq> asked ts l i" using assms(1) m(1) unfolding asked_def by (simp add: nth_eq_iff_index_eq)
  show "asked ts l i \<in> set ts" "asked ts l (Suc i) \<in> set ts" using m(1) unfolding asked_def by simp_all
qed

lemma run_handler_simps [simp]:
  "handlers (run_handler tr st) = handlers st" "irq_locks (run_handler tr st) = irq_locks st" "threads (ik (run_handler tr st)) = threads (ik st)"
  "CPUID (ik (run_handler tr st)) = CPUID (ik st)" "ints (ik (run_handler tr st))" "current_thread (ik (run_handler tr st)) = Some tr"
  "quiet (ik st) c \<Longrightarrow> quiet (ik (run_handler tr st)) c" "fast_list (sc (ik (run_handler tr st)) c) = fast_list (sc (ik st) c)"
  "fast_ok (sc (ik (run_handler tr st)) c) = fast_ok (sc (ik st) c)"
  by (simp_all add: run_handler_def exec_enter_def current_thread_def quiet_def upd_sched_def fast_list_def fast_len_def fast_ok_def)
    auto

lemma line_okD:
  assumes "line_ok ts l n c st"
  obtains ss where "hk_stubs (handlers st n) = Some ss" "map st_tr ss = ts" "length ss = length ts"
  using assms unfolding line_ok_def by (metis length_map)

text \<open>Replacing the hook and the kernel state keeps \<open>line_ok\<close>.\<close>

lemma line_ok_frame:
  assumes "line_ok ts l n c st" "hk_stubs (handlers st' n) = Some ss'" "map st_tr ss' = ts" "hk_count (handlers st' n) = hk_count (handlers st n)"
    "hk_last (handlers st' n) = int l'" "l' < length ts" "\<not> irq_locks st' n" "CPUID (ik st') = c" "quiet (ik st') c" "fast_ok (sc (ik st') c)"
    "\<And>t. t_irq (threads (ik st') t) = t_irq (threads (ik st) t) \<and> t_cpu_affinity (threads (ik st') t) = t_cpu_affinity (threads (ik st) t)"
  shows "line_ok ts l' n c st'"
  using assms by (simp add: line_ok_def)

lemma stubs_keep: "map st_tr (ss[j := f (ss ! j)]) = map st_tr ss" if "\<And>s. st_tr (f s) = st_tr s" for f
  using that by (cases "j < length ss") (simp_all add: map_update list_update_same_conv list_update_beyond)

lemma upd_stub_simps [simp]:
  "hk_count (upd_stub j f hk) = hk_count hk" "hk_index (upd_stub j f hk) = hk_index hk" "hk_last (upd_stub j f hk) = hk_last hk"
  by (simp_all add: upd_stub_def)

definition rejected :: "nat \<Rightarrow> irq_hook \<Rightarrow> irq_hook" where
  "rejected p hk = (upd_stub p (\<lambda>s. s\<lparr>st_nop := st_nop s + 1\<rparr>) hk)\<lparr>hk_index := hk_index hk + 1\<rparr>"

lemma rejected_stubs:
  assumes "hk_stubs hk = Some ss"
  obtains ss' where "hk_stubs (rejected p hk) = Some ss'" "map st_tr ss' = map st_tr ss"
  using assms stubs_keep [of "\<lambda>s. s\<lparr>st_nop := st_nop s + 1\<rparr>" ss p] by (auto simp: rejected_def upd_stub_def)

lemma rejected_simps [simp]:
  "hk_count (rejected p hk) = hk_count hk" "hk_last (rejected p hk) = hk_last hk" "hk_index (rejected p hk) = hk_index hk + 1"
  by (simp_all add: rejected_def)

lemma irq_complete_reject:
  assumes "current_thread (ik st) = Some tr" "t_irq (threads (ik st) tr) = int n" "n < 24" "\<not> irq_locks st n" "status \<noteq> 0"
    and hk: "hk_stubs (handlers st n) = Some ss" "hk_count (handlers st n) = int (length ss)" "hk_index (handlers st n) = int i" "hk_last (handlers st n) = int l"
      "i < length ss" "l < length ss" "length ss < 2 ^ 30" "st_tr (ss ! ((i + l) mod length ss)) = tr"
  shows "irq_complete st status = (let p = (i + l) mod length ss;
      st1 = upd_hook n (rejected p) (st\<lparr>irq_locks := (irq_locks st)(n := True)\<rparr>) in do {
      st2 \<leftarrow> (if Suc i < length ss then do {
          s \<leftarrow> stub_at (rejected p (handlers st n)) (int ((Suc i + l) mod length ss));
          (rc, k) \<leftarrow> fast_queue (ik st) (st_tr s);
          Some (st1\<lparr>ik := k\<rparr>) } else Some st1);
      let (cl, k) = disable_interrupts (ik st2);
      assert cl;
      (rc, k) \<leftarrow> fast_dequeue k tr;
      Some (0, in_kernel enable_interrupts (irq_release n (st2\<lparr>ik := k\<rparr>))) })"
proof -
  let ?m = "length ss" and ?p = "(i + l) mod length ss"
  have m0: "0 < ?m" "?p < ?m" using hk(5) by (auto intro!: mod_less_divisor)
  have turn: "turn (handlers st n) = Some (int ?p)" by (rule turn_ok [OF hk(2-7)])
  have w: "wrap32 (int i + 1) = int i + 1" using hk(5,7) by simp
  have np: "c_rem (int ?p + 1) (int ?m) = int ((Suc i + l) mod ?m)" using m0 by (simp add: zmod_int mod_simps add.commute)
  show ?thesis
    using assms(1-5) turn stub_at_ok [OF hk(1) m0(2)] hk(2,3,8) w np
    by (cases "Suc i < ?m") (simp_all add: irq_complete_def IRQ_COUNT_def irq_acquire_def upd_hook_def rejected_def Let_def)
qed

lemma serving_complete:
  assumes sv: "serving ts l n c i st"
  obtains ss where "map st_tr ss = ts" "hk_stubs (rejected ((i + l) mod length ts) (handlers st n)) = Some ss"
    "irq_complete (run_handler (asked ts l i) st) 1 =
      (let st1 = upd_hook n (rejected ((i + l) mod length ts)) ((run_handler (asked ts l i) st)\<lparr>irq_locks := (irq_locks st)(n := True)\<rparr>) in do {
        st2 \<leftarrow> (if Suc i < length ts then do {
          (rc, k) \<leftarrow> fast_queue (ik (run_handler (asked ts l i) st)) (asked ts l (Suc i));
          Some (st1\<lparr>ik := k\<rparr>) } else Some st1);
        let (cl, k) = disable_interrupts (ik st2);
        assert cl;
        (rc, k) \<leftarrow> fast_dequeue k (asked ts l i);
        Some (0, in_kernel enable_interrupts (irq_release n (st2\<lparr>ik := k\<rparr>))) })"
proof -
  let ?p = "(i + l) mod length ts" and ?r = "run_handler (asked ts l i) st"
  have L: "line_ok ts l n c st" and i: "i < length ts" "hk_index (handlers st n) = int i" using sv by (simp_all add: serving_def)
  have lo: "n < 24" "hk_count (handlers st n) = int (length ts)" "hk_last (handlers st n) = int l" "l < length ts" "length ts < 2 ^ 30" "\<not> irq_locks st n"
    "\<And>t. t \<in> set ts \<Longrightarrow> t_irq (threads (ik st) t) = int n"
    using L by (simp_all add: line_ok_def)
  obtain ss where ss: "hk_stubs (handlers st n) = Some ss" "map st_tr ss = ts" "length ss = length ts" by (rule line_okD [OF L])
  obtain ss' where ss': "hk_stubs (rejected ?p (handlers st n)) = Some ss'" "map st_tr ss' = ts" using rejected_stubs [OF ss(1)] ss(2) by metis
  have len: "length ss' = length ts" using ss'(2) by (metis length_map)
  have nth: "j < length ts \<Longrightarrow> st_tr (ss ! j) = ts ! j" "j < length ts \<Longrightarrow> st_tr (ss' ! j) = ts ! j" for j
    using nth_map [of j ss st_tr] nth_map [of j ss' st_tr] ss(2,3) ss'(2) len by simp_all
  have m0: "0 < length ts" using i(1) by auto
  have mem: "t_irq (threads (ik st) (asked ts l i)) = int n" by (rule lo(7)) (use m0 in \<open>simp add: asked_def\<close>)
  have s2: "stub_at (rejected ?p (handlers st n)) (int ((Suc i + l) mod length ts)) = Some (ss' ! ((Suc i + l) mod length ts))"
    by (rule stub_at_ok [OF ss'(1)]) (use m0 len in simp)
  have "irq_complete ?r 1 = (let p = ?p; st1 = upd_hook n (rejected p) (?r\<lparr>irq_locks := (irq_locks ?r)(n := True)\<rparr>) in do {
      st2 \<leftarrow> (if Suc i < length ts then do {
          s \<leftarrow> stub_at (rejected p (handlers ?r n)) (int ((Suc i + l) mod length ts));
          (rc, k) \<leftarrow> fast_queue (ik ?r) (st_tr s);
          Some (st1\<lparr>ik := k\<rparr>) } else Some st1);
      let (cl, k) = disable_interrupts (ik st2);
      assert cl;
      (rc, k) \<leftarrow> fast_dequeue k (asked ts l i);
      Some (0, in_kernel enable_interrupts (irq_release n (st2\<lparr>ik := k\<rparr>))) })"
    unfolding ss(3) [symmetric]
    by (rule irq_complete_reject) (use i lo ss nth m0 mem in \<open>simp_all add: asked_def\<close>)
  then show ?thesis using s2 nth(2) [of "(Suc i + l) mod length ts"] m0 that [OF ss'(2,1)] by (simp add: asked_def Let_def)
qed

lemma reject_step:
  assumes sv: "serving ts l n c i st"
  shows "\<exists>st'. irq_complete (run_handler (asked ts l i) st) 1 = Some (0, st') \<and>
    (if Suc i < length ts then serving ts l n c (Suc i) st' else line_ok ts l n c st' \<and> fast_list (sc (ik st') c) = [])"
proof -
  let ?m = "length ts" and ?p = "(i + l) mod length ts" and ?tr = "asked ts l i" and ?r = "run_handler (asked ts l i) st"
  have L: "line_ok ts l n c st" and i: "i < ?m" "hk_index (handlers st n) = int i" "fast_list (sc (ik st) c) = [?tr]" "t_cpu (threads (ik st) ?tr) = int c"
    using sv by (simp_all add: serving_def)
  have lo: "hk_last (handlers st n) = int l" "l < ?m" "distinct ts" "CPUID (ik st) = c" "quiet (ik st) c" "fast_ok (sc (ik st) c)"
    "\<And>t. t \<in> set ts \<Longrightarrow> t_cpu_affinity (threads (ik st) t) = int c"
    using L by (simp_all add: line_ok_def)
  let ?s = "upd_hook n (rejected ?p) (?r\<lparr>irq_locks := (irq_locks st)(n := True)\<rparr>)"
  obtain ss where ss: "map st_tr ss = ts" "hk_stubs (rejected ?p (handlers st n)) = Some ss" and eq: "irq_complete ?r 1 =
      (let st1 = ?s in do {
        st2 \<leftarrow> (if Suc i < ?m then do { (rc, k) \<leftarrow> fast_queue (ik ?r) (asked ts l (Suc i)); Some (st1\<lparr>ik := k\<rparr>) } else Some st1);
        let (cl, k) = disable_interrupts (ik st2);
        assert cl;
        (rc, k) \<leftarrow> fast_dequeue k ?tr;
        Some (0, in_kernel enable_interrupts (irq_release n (st2\<lparr>ik := k\<rparr>))) })" by (rule serving_complete [OF sv])
  show ?thesis
  proof (cases "Suc i < ?m")
    case True
    let ?nx = "asked ts l (Suc i)"
    note A = asked_apart [OF lo(3) True, of l]
    from fast_queue_ok [of "ik ?r" c ?nx] lo(4-6) i(3) lo(7) [OF A(3)] obtain k1 where k1: "fast_queue (ik ?r) ?nx = Some (0, k1)"
      "fast_list (sc k1 c) = [?tr, ?nx]" "fast_ok (sc k1 c)" "quiet k1 c" "CPUID k1 = c" "ints k1"
      "threads k1 = (threads (ik st))(?nx := (threads (ik st) ?nx)\<lparr>t_cpu := int c, t_fast_queued := t_fast_queued (threads (ik st) ?nx) + 1\<rparr>)" by auto
    have q: "quiet (k1\<lparr>ints := False\<rparr>) c" "t_cpu (threads k1 ?tr) = int c" using k1(4,7) A(1) i(4) by (simp_all add: quiet_def)
    from fast_dequeue_ok [of "k1\<lparr>ints := False\<rparr>" c ?tr "[?nx]"] q k1(2,3,5) obtain k2 where k2: "fast_dequeue (k1\<lparr>ints := False\<rparr>) ?tr = Some (0, k2)"
      "fast_list (sc k2 c) = [?nx]" "fast_ok (sc k2 c)" "quiet k2 c" "CPUID k2 = c"
      "threads k2 = (threads k1)(?tr := (threads k1 ?tr)\<lparr>t_cpu := (if t_fast_queued (threads k1 ?tr) = 1 then -1 else int c), t_fast_queued := t_fast_queued (threads k1 ?tr) - 1\<rparr>)" by auto
    let ?st' = "in_kernel enable_interrupts (irq_release n (?s\<lparr>ik := k2\<rparr>))"
    have "irq_complete ?r 1 = Some (0, ?st')" unfolding eq using True k1(1,6) k2(1) by (simp add: disable_interrupts_def Let_def)
    moreover have "line_ok ts l n c ?st'"
      by (rule line_ok_frame [OF L, where ss' = ss])
        (use ss lo(1,2) k2(3-6) k1(7) in \<open>auto simp: enable_interrupts_def quiet_def\<close>)
    moreover have "t_cpu (threads k2 ?nx) = int c" using k2(6) k1(7) A(1) by simp
    ultimately show ?thesis using True k2(2) i(2) by (simp add: serving_def enable_interrupts_def)
  next
    case False
    have q: "quiet ((ik ?r)\<lparr>ints := False\<rparr>) c" using run_handler_simps(7) [OF lo(5), of ?tr] by (simp add: quiet_def)
    from fast_dequeue_ok [OF q, of ?tr "[]"] i(3,4) lo(4,6) obtain k2 where k2: "fast_dequeue ((ik ?r)\<lparr>ints := False\<rparr>) ?tr = Some (0, k2)"
      "fast_list (sc k2 c) = []" "fast_ok (sc k2 c)" "quiet k2 c" "CPUID k2 = c"
      "threads k2 = (threads (ik st))(?tr := (threads (ik st) ?tr)\<lparr>t_cpu := (if t_fast_queued (threads (ik st) ?tr) = 1 then -1 else int c), t_fast_queued := t_fast_queued (threads (ik st) ?tr) - 1\<rparr>)" by auto
    let ?st' = "in_kernel enable_interrupts (irq_release n (?s\<lparr>ik := k2\<rparr>))"
    have "irq_complete ?r 1 = Some (0, ?st')" unfolding eq using False k2(1) by (simp add: disable_interrupts_def Let_def)
    moreover have "line_ok ts l n c ?st'"
      by (rule line_ok_frame [OF L, where ss' = ss])
        (use ss lo(1,2) k2(3-6) in \<open>auto simp: enable_interrupts_def quiet_def\<close>)
    ultimately show ?thesis using False k2(2) by (simp add: enable_interrupts_def)
  qed
qed

lemma ask_handlers_ok:
  assumes "serving ts l n c i st"
  shows "\<exists>st'. ask_handlers (length ts - i) st = Some (map (asked ts l) [i..<length ts], st') \<and> line_ok ts l n c st' \<and> fast_list (sc (ik st') c) = []"
  using assms
proof (induction "length ts - i" arbitrary: i st)
  case (Suc d)
  have i: "i < length ts" "length ts - i = Suc (length ts - Suc i)" "[i..<length ts] = i # [Suc i..<length ts]"
    using Suc(2) by (auto simp: upt_conv_Cons)
  have g: "get_fast (sc (ik st) (CPUID (ik st))) = Some (asked ts l i)"
  proof -
    have "CPUID (ik st) = c" "fast_ok (sc (ik st) c)" "fast_list (sc (ik st) c) = [asked ts l i]" using Suc(3) by (simp_all add: serving_def line_ok_def)
    then show ?thesis using fast_list_pop(4) [of "sc (ik st) c"] by simp
  qed
  obtain st1 where s1: "irq_complete (run_handler (asked ts l i) st) 1 = Some (0, st1)"
    "if Suc i < length ts then serving ts l n c (Suc i) st1 else line_ok ts l n c st1 \<and> fast_list (sc (ik st1) c) = []"
    using reject_step [OF Suc(3)] by blast
  show ?case
  proof (cases "Suc i < length ts")
    case True
    have "d = length ts - Suc i" using Suc(2) by simp
    from Suc(1) [OF this] s1(2) True obtain st' where
      "ask_handlers (length ts - Suc i) st1 = Some (map (asked ts l) [Suc i..<length ts], st')" "line_ok ts l n c st'" "fast_list (sc (ik st') c) = []" by auto
    then show ?thesis unfolding i(2,3) using g s1(1) by simp
  next
    case False
    then have "length ts = Suc i" using i(1) by simp
    then show ?thesis using g s1 by simp
  qed
qed (simp add: serving_def)

lemma asked_rotate: "map (asked ts l) [0..<length ts] = rotate l ts"
  by (rule nth_equalityI) (simp_all add: asked_def nth_rotate add.commute)

lemma irq_handler_ok:
  assumes L: "line_ok ts l n c st" and n: "n \<noteq> 0" "\<not> ints (ik st)" "fast_list (sc (ik st) c) = []"
  shows "\<exists>st'. irq_handler st (int n) = Some (0, st') \<and> serving ts l n c 0 st'"
proof -
  have lo: "hk_count (handlers st n) = int (length ts)" "hk_last (handlers st n) = int l" "l < length ts" "CPUID (ik st) = c" "quiet (ik st) c"
    "fast_ok (sc (ik st) c)" "\<And>t. t \<in> set ts \<Longrightarrow> t_cpu_affinity (threads (ik st) t) = int c" "\<not> irq_locks st n"
    using L by (simp_all add: line_ok_def)
  obtain ss where ss: "hk_stubs (handlers st n) = Some ss" "map st_tr ss = ts" "length ss = length ts" by (rule line_okD [OF L])
  have a: "asked ts l 0 = ts ! l" "ts ! l \<in> set ts" using lo(3) by (simp_all add: asked_def)
  have a3: "st_tr (ss ! l) = ts ! l" using lo(3) nth_map [of l ss st_tr] ss(2,3) by simp
  from fast_queue_ok [of "ik st" c "ts ! l"] lo(5-7) n(3) a(2) obtain k where k: "fast_queue (ik st) (ts ! l) = Some (0, k)" "fast_list (sc k c) = [ts ! l]"
    "fast_ok (sc k c)" "quiet k c" "CPUID k = CPUID (ik st)"
    "threads k = (threads (ik st))(ts ! l := (threads (ik st) (ts ! l))\<lparr>t_cpu := int c, t_fast_queued := t_fast_queued (threads (ik st) (ts ! l)) + 1\<rparr>)" by auto
  let ?hk = "(handlers st n)\<lparr>hk_raised := hk_raised (handlers st n) + 1, hk_index := 0\<rparr>"
  let ?st' = "(upd_hook n (\<lambda>_. ?hk) st)\<lparr>ik := k\<rparr>"
  have "stub_at ?hk (int l) = Some (ss ! l)" by (rule stub_at_ok) (use ss lo(3) in simp_all)
  then have "irq_handler st (int n) = Some (0, ?st')"
    using n(1,2) lo(1-3) k(1) a3 a(2) by (auto simp: irq_handler_def upd_hook_def Let_def)
  moreover have "line_ok ts l n c ?st'"
    by (rule line_ok_frame [OF L, where ss' = ss]) (use ss lo k in \<open>auto simp: quiet_def\<close>)
  ultimately show ?thesis using k(2,6) a(1) lo(3) by (auto simp: serving_def)
qed

subsection \<open>Concrete states\<close>

text \<open>A machine without handlers, and one in which threads 5 and 6 handle line 3, thread 6 on processor \<open>d\<close>.\<close>

definition irq_none :: istate where
  "irq_none = \<lparr>ik = k_blank 1, handlers = (\<lambda>_. hook_empty), irq_locks = (\<lambda>_. False), irq_mask = 0xFFFB, usingIOAPIC = False, ioapic = (\<lambda>_. 0),
     out_log = [], apic_eois = 0\<rparr>"

definition irq_duo :: "nat \<Rightarrow> int \<Rightarrow> int \<Rightarrow> istate" where
  "irq_duo cpus d l = irq_none\<lparr>
     ik := (k_blank cpus)\<lparr>threads := (\<lambda>t. thread_blank\<lparr>t_irq := 3, t_state := (if t \<in> {5, 6} then THREAD_IRQ else THREAD_SUSPENDED), t_cpu_affinity := (if t = 6 then d else 0)\<rparr>),
       ints := False\<rparr>,
     handlers := (\<lambda>n. if n = 3 then \<lparr>hk_raised = 0, hk_index = 0, hk_last = l, hk_count = 2,
       hk_stubs = Some [\<lparr>st_tr = 5, st_ack = 0, st_nop = 0\<rparr>, \<lparr>st_tr = 6, st_ack = 0, st_nop = 0\<rparr>]\<rparr> else hook_empty),
     irq_mask := 0xFFF3\<rparr>"

lemma blank_sc: "sc (k_blank m) c = sched_blank" "cpu_count (k_blank m) = m" "CPUID (k_blank m) = 0" "threads (k_blank m) = (\<lambda>_. thread_blank)"
  "sched_global_lock (k_blank m) = False"
  by (simp_all add: k_blank_def)

lemma irq_none_ok: "irq_inv irq_none" "idle_all (ik irq_none)"
  by (simp_all add: irq_inv_def irq_none_def hook_ok_def hook_empty_def stub_list_def idle_all_def quiet_def blank_sc sched_blank_def)

lemma irq_duo_ok:
  assumes "0 < cpus" "0 \<le> d" "d < int cpus" "l \<in> {0, 1}"
  shows "irq_inv (irq_duo cpus d l)" "idle_all (ik (irq_duo cpus d l))"
    "stub_list (handlers (irq_duo cpus d l) 3) = [\<lparr>st_tr = 5, st_ack = 0, st_nop = 0\<rparr>, \<lparr>st_tr = 6, st_ack = 0, st_nop = 0\<rparr>]"
    "hk_count (handlers (irq_duo cpus d l) 3) = 2" "hk_last (handlers (irq_duo cpus d l) 3) = l"
  using assms
  by (auto simp: irq_inv_def irq_duo_def irq_none_def hook_ok_def hook_empty_def stub_list_def idle_all_def quiet_def blank_sc sched_blank_def handler_ok_def masked_def)

lemma irq_duo_line: "line_ok [5, 6] 1 3 0 (irq_duo 1 0 1)"
  by (simp add: line_ok_def irq_duo_def irq_none_def blank_sc quiet_def sched_blank_def fast_ok_def MAX_FAST_def)

subsection \<open>Properties\<close>

text \<open>
  C34. A thread becomes a handler. A suspended thread that asks for one of the 24 lines is appended to its handlers, leaves normal scheduling, is bound to a processor,
  and the line is unmasked; all other lines stay as they are. The invariant is kept: hooks have as many stubs as they count, each handler knows its line and no thread
  handles two, and no line with a handler is masked.
\<close>

theorem request_irq_invariant:
  assumes "irq_inv st" "idle_all (ik st)" "t_state (threads (ik st) t) = THREAD_SUSPENDED" "n < 24" "hk_count (handlers st n) < 2 ^ 30 - 1"
    "0 \<le> bound_cpu (ik st) t" "bound_cpu (ik st) t < int (cpu_count (ik st))"
  shows "\<exists>st'. request_irq True True st t (int n) = Some (0, st') \<and> irq_inv st' \<and> idle_all (ik st') \<and>
    (\<forall>m. map st_tr (stub_list (handlers st' m)) = map st_tr (stub_list (handlers st m)) @ (if m = n then [t] else []))"
  by (rule request_irq_inv [OF assms])

theorem request_irq_invariant_witness:
  "\<exists>st'. request_irq True True irq_none 5 (int 3) = Some (0, st') \<and> irq_inv st' \<and> idle_all (ik st') \<and>
    (\<forall>m. map st_tr (stub_list (handlers st' m)) = map st_tr (stub_list (handlers irq_none m)) @ (if m = 3 then [5] else []))"
  by (rule request_irq_invariant [OF irq_none_ok]) (simp_all add: irq_none_def blank_sc thread_blank_def hook_empty_def bound_cpu_def)

text \<open>
  A handler is released. It is taken out of the array, is suspended again, and the line is masked when it was the last one; the invariant is kept, provided that the
  handler that was successful last is not the last of the array.
\<close>

theorem release_irq_invariant:
  assumes "irq_inv st" "idle_all (ik st)" "n < 24" "stub_list (handlers st n) = xs @ s # ys"
    "hk_last (handlers st n) = 0 \<or> hk_last (handlers st n) < hk_count (handlers st n) - 1"
  shows "\<exists>st'. release_irq True True st (st_tr s) (int n) = Some (0, st') \<and> irq_inv st' \<and> idle_all (ik st') \<and>
    t_state (threads (ik st') (st_tr s)) = THREAD_SUSPENDED \<and> stub_list (handlers st' n) = xs @ ys \<and>
    (\<forall>m. m \<noteq> n \<longrightarrow> handlers st' m = handlers st m) \<and> (xs @ ys = [] \<longrightarrow> masked st' n)"
  by (rule release_irq_inv [OF assms])

theorem release_irq_invariant_witness:
  "\<exists>st'. release_irq True True (irq_duo 1 0 0) 6 (int 3) = Some (0, st') \<and> irq_inv st' \<and> idle_all (ik st') \<and>
    t_state (threads (ik st') 6) = THREAD_SUSPENDED \<and> stub_list (handlers st' 3) = [\<lparr>st_tr = 5, st_ack = 0, st_nop = 0\<rparr>] @ [] \<and>
    (\<forall>m. m \<noteq> 3 \<longrightarrow> handlers st' m = handlers (irq_duo 1 0 0) m) \<and> ([\<lparr>st_tr = 5, st_ack = 0, st_nop = 0\<rparr>] @ [] = [] \<longrightarrow> masked st' 3)"
  using release_irq_invariant [of "irq_duo 1 0 0" 3 "[\<lparr>st_tr = 5, st_ack = 0, st_nop = 0\<rparr>]" "\<lparr>st_tr = 6, st_ack = 0, st_nop = 0\<rparr>" "[]"]
    irq_duo_ok [of 1 0 0] by simp

text \<open>
  C33. An interrupt is offered to every handler once. When line \<open>n\<close> is raised and no handler recognises the interrupt, the handlers run one after the other from the one that was
  successful last, in cyclic order, and after the last one the fast queue is empty again. The handlers are bound to the processor that takes the interrupt.
\<close>

theorem irq_asks_all:
  assumes "line_ok ts l n c st" "n \<noteq> 0" "\<not> ints (ik st)" "fast_list (sc (ik st) c) = []"
  shows "\<exists>st1 st2. irq_handler st (int n) = Some (0, st1) \<and> ask_handlers (length ts) st1 = Some (rotate l ts, st2) \<and>
    line_ok ts l n c st2 \<and> fast_list (sc (ik st2) c) = []"
proof -
  obtain st1 where s1: "irq_handler st (int n) = Some (0, st1)" "serving ts l n c 0 st1" using irq_handler_ok [OF assms] by blast
  from ask_handlers_ok [OF s1(2)] show ?thesis using s1(1) unfolding asked_rotate by auto
qed

theorem irq_asks_all_witness:
  "\<exists>st1 st2. irq_handler (irq_duo 1 0 1) (int 3) = Some (0, st1) \<and> ask_handlers (length [5 :: addr, 6]) st1 = Some (rotate 1 [5, 6], st2) \<and>
    line_ok [5, 6] 1 3 0 st2 \<and> fast_list (sc (ik st2) 0) = []"
  by (rule irq_asks_all [OF irq_duo_line]) (simp_all add: irq_duo_def irq_none_def blank_sc sched_blank_def fast_list_def fast_len_def MAX_FAST_def)

text \<open>
  The position is lost. When a handler is released while the last of several handlers was successful last, \<open>hook->last -= -1\<close> moves \<open>last\<close> one further
  past the end instead of one back, and the next interrupt on that line reads a stub behind the array.
\<close>

theorem release_irq_loses_last:
  assumes "irq_inv st" "idle_all (ik st)" "0 < n" "n < 24" "stub_list (handlers st n) = xs @ s # ys" "xs @ ys \<noteq> []"
    "hk_last (handlers st n) = hk_count (handlers st n) - 1"
  shows "\<exists>st'. release_irq True True st (st_tr s) (int n) = Some (0, st') \<and>
    hk_last (handlers st' n) = hk_count (handlers st' n) + 1 \<and> irq_handler st' (int n) = None"
proof -
  have c: "hk_count (handlers st n) = int (length (xs @ ys)) + 1"
    using irq_invD(1) [OF assms(1,4)] unfolding hook_ok_def assms(5) by auto
  then have pos: "0 < hk_count (handlers st n) - 1" using assms(6) by (cases "xs @ ys") simp_all
  obtain st' where r: "release_irq True True st (st_tr s) (int n) = Some (0, st')" "handlers st' = (handlers st)(n := (let hk = handlers st n; c = hk_count hk - 1 in
      hk\<lparr>hk_count := c, hk_stubs := (if c = 0 then None else Some (xs @ ys)),
        hk_index := (if hk_index hk \<ge> c \<and> hk_index hk > 0 then hk_index hk - 1 else hk_index hk),
        hk_last := (if hk_last hk \<ge> c \<and> hk_last hk > 0 then hk_last hk + 1 else hk_last hk)\<rparr>))"
    using release_irq_ok [OF assms(1,2,4,5)] by blast
  then have st': "hk_last (handlers st' n) = hk_count (handlers st n)" "hk_count (handlers st' n) = hk_count (handlers st n) - 1"
    "hk_stubs (handlers st' n) = Some (xs @ ys)" using assms(7) pos by (simp_all add: Let_def)
  have "stub_at (handlers st' n) (hk_last (handlers st' n)) = None" using st'(1,3) c by (simp add: stub_at_def)
  moreover have "0 < hk_count (handlers st' n)" using st'(2) pos by simp
  moreover have "stub_at (handlers st' n\<lparr>hk_raised := r, hk_index := i\<rparr>) j = stub_at (handlers st' n) j" for r i j by (simp add: stub_at_def)
  ultimately have "irq_handler st' (int n) = None" using assms(3) by (simp add: irq_handler_def Let_def)
  then show ?thesis using r(1) st' by auto
qed

theorem release_irq_loses_last_witness:
  "\<exists>st'. release_irq True True (irq_duo 1 0 1) 6 (int 3) = Some (0, st') \<and>
    hk_last (handlers st' 3) = hk_count (handlers st' 3) + 1 \<and> irq_handler st' (int 3) = None"
  using release_irq_loses_last [of "irq_duo 1 0 1" 3 "[\<lparr>st_tr = 5, st_ack = 0, st_nop = 0\<rparr>]" "\<lparr>st_tr = 6, st_ack = 0, st_nop = 0\<rparr>" "[]"]
    irq_duo_ok [of 1 0 1] by simp

text \<open>
  A release by a thread that is no handler of a line with at least two handlers copies one stub too many: the loop writes past the end of the new array, before it
  is noticed that nothing was found.
\<close>

theorem release_irq_overruns:
  assumes "irq_inv st" "n < 24" "1 < hk_count (handlers st n)" "t \<notin> st_tr ` set (stub_list (handlers st n))"
  shows "release_irq True True st t (int n) = None"
proof -
  let ?hk = "handlers st n"
  have ok: "hook_ok ?hk" "\<not> irq_locks st n" using irq_invD [OF assms(1,2)] by simp_all
  have len: "length (stub_list ?hk) = Suc (nat (hk_count ?hk - 1))" using ok(1) assms(3) by (auto simp: hook_ok_def)
  have over: "t \<notin> st_tr ` set ss \<Longrightarrow> length acc + length ss > m \<Longrightarrow> length acc \<le> m \<Longrightarrow> shift_stubs t m ss acc f = None" for ss acc m f
    by (induction ss arbitrary: acc) auto
  have "shift_stubs t (nat (hk_count ?hk - 1)) (stub_list ?hk) [] 0 = None" by (rule over [OF assms(4)]) (simp_all add: len)
  then show ?thesis
    using assms(2,3) ok(2) stubs_of_ok [OF ok(1)] by (simp add: release_irq_def IRQ_COUNT_def irq_acquire_def without_thread_def Let_def)
qed

theorem release_irq_overruns_witness: "release_irq True True (irq_duo 1 0 0) 9 (int 3) = None"
  by (rule release_irq_overruns) (use irq_duo_ok [of 1 0 0] in simp_all)

text \<open>
  Handlers on two processors. When a handler rejects an interrupt and the next one is bound to another processor, \<open>fast_queue\<close> returns with interrupts disabled, and
  the assertion \<open>cl != 0\<close> that follows stops the kernel.
\<close>

theorem irq_complete_other_cpu:
  assumes "current_thread (ik st) = Some tr" "t_irq (threads (ik st) tr) = int n" "n < 24" "\<not> irq_locks st n" "status \<noteq> 0"
    "hk_stubs (handlers st n) = Some ss" "hk_count (handlers st n) = int (length ss)" "hk_index (handlers st n) = int i" "hk_last (handlers st n) = int l"
    "Suc i < length ss" "l < length ss" "length ss < 2 ^ 30" "st_tr (ss ! ((i + l) mod length ss)) = tr"
    "t_cpu_affinity (threads (ik st) (st_tr (ss ! ((Suc i + l) mod length ss)))) = int d" "d \<noteq> CPUID (ik st)"
    "quiet (ik st) d" "fast_ok (sc (ik st) d)" "length (fast_list (sc (ik st) d)) < 31"
  shows "irq_complete st status = None"
proof -
  let ?p = "(i + l) mod length ss" and ?q = "(Suc i + l) mod length ss" and ?t = "st_tr (ss ! ((Suc i + l) mod length ss))"
  obtain ss' where ss': "hk_stubs (rejected ?p (handlers st n)) = Some ss'" "map st_tr ss' = map st_tr ss" by (rule rejected_stubs [OF assms(6)])
  have len: "length ss' = length ss" using ss'(2) by (metis length_map)
  have q: "?q < length ss" using assms(10) by (auto intro!: mod_less_divisor)
  have s: "stub_at (rejected ?p (handlers st n)) (int ?q) = Some (ss' ! ?q)" by (rule stub_at_ok [OF ss'(1)]) (use q len in simp)
  have t: "st_tr (ss' ! ?q) = ?t" using nth_map [of ?q ss' st_tr] nth_map [of ?q ss st_tr] ss'(2) len q by simp
  obtain k where k: "fast_queue (ik st) ?t = Some (0, k)" "\<not> ints k" using fast_queue_ok [OF assms(16-18,14)] assms(15) by auto
  have "i < length ss" using assms(10) by simp
  from irq_complete_reject [OF assms(1-9) this assms(11-13)] show ?thesis
    using assms(10) s t k by (simp add: Let_def disable_interrupts_def)
qed

theorem irq_complete_other_cpu_witness:
  "irq_complete (run_handler 5 (irq_duo 2 1 0)) 1 = None"
  by (rule irq_complete_other_cpu [of _ 5 3 _ "[\<lparr>st_tr = 5, st_ack = 0, st_nop = 0\<rparr>, \<lparr>st_tr = 6, st_ack = 0, st_nop = 0\<rparr>]" 0 0 1])
    (simp_all add: irq_duo_def irq_none_def blank_sc quiet_def sched_blank_def fast_ok_def fast_list_def fast_len_def MAX_FAST_def
      run_handler_def exec_enter_def current_thread_def in_kernel_def upd_sched_def)

end
