(* ===== verification/Physmem.thy ===== *)
theory Physmem
  imports Prelude
begin

section \<open>Physical memory (kernel/src/physmem.c)\<close>

text \<open>
  The bitmap of physical pages: a set bit is a page in use. The words of the bitmap are kept
  as words; the counters are \<open>int\<close>s as in the code. The critical section around allocation
  and release makes each call atomic, so a call is one step here. The kernel's own bounds
  \<open>KERNEL_START\<close> and \<open>KERNEL_END\<close>, which the linker defines, are arguments.

  Shown: an allocation returns a run of free pages, marks exactly those, and stays below
  \<open>MAXMAP\<close> pages; releasing it restores the bitmap; however allocations and releases are
  interleaved, live allocations never overlap and the free count is exact up to its start
  value; the boot loader's map frees the pages that begin inside an available region, a
  partial last page included; and the search can miss a free run behind a wrap-around.
\<close>

definition MAXMAP :: nat where "MAXMAP = 32768"
definition PAGE_SIZE :: nat where "PAGE_SIZE = 4096"

record physmem =
  memory_bitmap :: "nat \<Rightarrow> u32"
  s_totalPages :: int
  s_freePages :: int
  s_lastPage :: nat

text \<open>\<open>atomic_bitset\<close> and \<open>atomic_bitclear\<close> return the old bit.\<close>

definition atomic_bitset :: "u32 \<Rightarrow> nat \<Rightarrow> bool \<times> u32" where
  "atomic_bitset val n = (bit val n, set_bit n val)"

definition atomic_bitclear :: "u32 \<Rightarrow> nat \<Rightarrow> bool \<times> u32" where
  "atomic_bitclear val n = (bit val n, unset_bit n val)"

definition ISSET :: "physmem \<Rightarrow> nat \<Rightarrow> bool" where
  "ISSET s block = bit (memory_bitmap s (block div 32)) (block mod 32)"

definition SET :: "nat \<Rightarrow> physmem \<Rightarrow> physmem" where
  "SET block s = s\<lparr>memory_bitmap := (memory_bitmap s)(block div 32 :=
       snd (atomic_bitset (memory_bitmap s (block div 32)) (block mod 32))),
     s_freePages := s_freePages s - 1\<rparr>"

text \<open>The value of the macro \<open>UNSET\<close> used as an expression is the old bit.\<close>

definition UNSET :: "nat \<Rightarrow> physmem \<Rightarrow> bool \<times> physmem" where
  "UNSET block s =
     (let (tmp, w) = atomic_bitclear (memory_bitmap s (block div 32)) (block mod 32)
      in (tmp, s\<lparr>memory_bitmap := (memory_bitmap s)(block div 32 := w), s_freePages := s_freePages s + 1\<rparr>))"

text \<open>
  The search: \<open>i\<close> counts from the last allocation on. A window that would wrap is skipped
  with \<open>i += pages - 2; continue\<close>, one with a page in use at \<open>j\<close> with \<open>i = i + j\<close>.
\<close>

function alloc_scan :: "physmem \<Rightarrow> nat \<Rightarrow> nat \<Rightarrow> nat option" where
  "alloc_scan s pages i =
     (if i < MAXMAP then
        let pos = (i + s_lastPage s) mod MAXMAP in
        if MAXMAP < pos + pages then alloc_scan s pages (i + (pages - 2) + 1)
        else let j = arr_find (\<lambda>j. ISSET s (pos + j)) pages 0 in
          if j = pages then Some pos else alloc_scan s pages (i + j + 1)
      else None)"
  by pat_completeness auto
termination
  by (relation "measure (\<lambda>(s, pages, i). MAXMAP - i)") auto

declare alloc_scan.simps [simp del]

fun set_pages :: "nat \<Rightarrow> nat \<Rightarrow> physmem \<Rightarrow> physmem" where
  "set_pages 0 block s = s"
| "set_pages (Suc n) block s = set_pages n (Suc block) (SET block s)"

text \<open>The address of the run, 0 (NULL) if there is none.\<close>

definition memory_multiple_alloc :: "physmem \<Rightarrow> nat \<Rightarrow> u32 \<times> physmem" where
  "memory_multiple_alloc s pages =
     (case alloc_scan s pages 0 of
        None \<Rightarrow> (0, s)
      | Some block \<Rightarrow> (of_nat block * of_nat PAGE_SIZE, (set_pages pages block s)\<lparr>s_lastPage := block + pages\<rparr>))"

definition memory_alloc :: "physmem \<Rightarrow> int \<Rightarrow> (u32 \<times> physmem) option" where
  "memory_alloc s pages = do {
     assert (pages > 0);
     Some (if s_freePages s > pages then memory_multiple_alloc s (nat pages) else (0, s))
   }"

fun free_pages :: "nat \<Rightarrow> nat \<Rightarrow> physmem \<Rightarrow> physmem option" where
  "free_pages 0 start s = Some s"
| "free_pages (Suc n) start s =
     (let (tmp, s') = UNSET (start mod MAXMAP) s in do { assert tmp; free_pages n (Suc start) s' })"

definition memory_free :: "physmem \<Rightarrow> int \<Rightarrow> u32 \<Rightarrow> physmem option" where
  "memory_free s pages position = do {
     assert (unat position mod PAGE_SIZE = 0);
     free_pages (nat pages) (unat position div PAGE_SIZE) s
   }"

subsection \<open>Start-up\<close>

record memory_map =
  mm_base_addr_low :: u32
  mm_base_addr_high :: u32
  mm_length_low :: u32
  mm_length_high :: u32
  mm_type :: u32

definition join64 :: "u32 \<Rightarrow> u32 \<Rightarrow> u64" where
  "join64 hi lo = push_bit 32 (ucast hi) + ucast lo"

text \<open>Marking pages as free, from \<open>page_begin\<close> up to and including \<open>page_end\<close>.\<close>

function unset_region :: "u32 \<Rightarrow> u32 \<Rightarrow> physmem \<Rightarrow> physmem" where
  "unset_region page_begin page_end s =
     (if page_begin \<le> page_end \<and> page_begin < of_nat MAXMAP
      then unset_region (page_begin + 1) page_end
             ((snd (UNSET (unat page_begin) s))\<lparr>s_totalPages := s_totalPages s + 1\<rparr>)
      else s)"
  by pat_completeness auto
termination
proof (relation "measure (\<lambda>(b, e, s). MAXMAP - unat b)")
  show "((b + 1, e, s'), b, e, s) \<in> measure (\<lambda>(b, e, s). MAXMAP - unat b)"
    if "b \<le> e \<and> b < of_nat MAXMAP" for b e :: u32 and s s' :: physmem
  proof -
    have "unat b < MAXMAP" using that by (simp add: word_less_nat_alt MAXMAP_def)
    moreover have "unat (b + 1) = unat b + 1"
      using that unat_add_one [of b "of_nat MAXMAP"] by (simp add: word_less_nat_alt)
    ultimately show ?thesis by simp
  qed
qed simp

declare unset_region.simps [simp del]

text \<open>One entry of the map; \<open>uintptr_t\<close> has 32 bits, so page numbers are cut to that.\<close>

definition parse_entry :: "memory_map \<Rightarrow> u64 \<times> physmem \<Rightarrow> u64 \<times> physmem" where
  "parse_entry m = (\<lambda>(mem_total, s).
     let base_addr = join64 (mm_base_addr_high m) (mm_base_addr_low m);
         base_length = join64 (mm_length_high m) (mm_length_low m) in
     if mm_type m = 1 then
       let page_begin = ucast (base_addr div of_nat PAGE_SIZE) :: u32;
           page_begin = (if base_addr mod of_nat PAGE_SIZE \<noteq> 0 then page_begin + 1 else page_begin);
           page_end = ucast ((base_addr + base_length) div of_nat PAGE_SIZE) :: u32;
           page_end = (if (base_addr + base_length) mod of_nat PAGE_SIZE = 0 then page_end - 1 else page_end)
       in (mem_total + base_length, unset_region page_begin page_end s)
     else (mem_total, s))"

fun parse_multibootMap :: "memory_map list \<Rightarrow> u64 \<times> physmem \<Rightarrow> u64 \<times> physmem" where
  "parse_multibootMap [] acc = acc"
| "parse_multibootMap (m # ms) acc = parse_multibootMap ms (parse_entry m acc)"

definition init_memory :: "memory_map list \<Rightarrow> u32 \<Rightarrow> u32 \<Rightarrow> physmem \<Rightarrow> physmem" where
  "init_memory mmap KERNEL_START KERNEL_END s0 =
     (let s = \<lparr>memory_bitmap = (\<lambda>i. if i < MAXMAP then 0xFFFFFFFF else memory_bitmap s0 i),
               s_totalPages = 0, s_freePages = 0, s_lastPage = 0\<rparr>;
          s = snd (parse_multibootMap mmap (0, s));
          s = set_pages 256 0 s;
          k0 = unat KERNEL_START div PAGE_SIZE; k1 = unat KERNEL_END div PAGE_SIZE
      in set_pages (k1 - k0) k0 s)"

text \<open>The loop of \<open>internal_reserve\<close> over page numbers.\<close>

fun mark_pages :: "bool \<Rightarrow> nat \<Rightarrow> nat \<Rightarrow> physmem \<Rightarrow> physmem" where
  "mark_pages used 0 block s = s"
| "mark_pages used (Suc n) block s =
     mark_pages used n (Suc block) (if used then SET block s else snd (UNSET block s))"

definition internal_reserve :: "physmem \<Rightarrow> u32 \<Rightarrow> u32 \<Rightarrow> int \<Rightarrow> physmem" where
  "internal_reserve s start end_addr used =
     (let endCheck = (if unat end_addr mod PAGE_SIZE \<noteq> 0 then 1 else 0);
          first = unat start div PAGE_SIZE; last = unat end_addr div PAGE_SIZE + endCheck
      in mark_pages (used = 1) (last - first) first s)"

text \<open>The summary that \<open>show_memory_map\<close> prints: ranges of addresses, and whether they are in use.\<close>

definition TOTAL_PAGES :: nat where "TOTAL_PAGES = 1048576"

function show_loop :: "physmem \<Rightarrow> nat \<Rightarrow> nat \<Rightarrow> nat \<Rightarrow> bool \<Rightarrow> (bool \<times> u32 \<times> u32) list" where
  "show_loop s n i prior taken =
     (if i < n then
        if ISSET s i \<and> \<not> taken
        then (False, of_nat (prior * PAGE_SIZE), of_nat (i * PAGE_SIZE) - 1) # show_loop s n (Suc i) i True
        else if \<not> ISSET s i \<and> taken
        then (True, of_nat (prior * PAGE_SIZE), of_nat (i * PAGE_SIZE) - 1) # show_loop s n (Suc i) i False
        else show_loop s n (Suc i) prior taken
      else [(taken, of_nat (prior * PAGE_SIZE), of_nat (n * PAGE_SIZE) - 1)])"
  by pat_completeness auto
termination
  by (relation "measure (\<lambda>(s, n, i, prior, taken). n - i)") auto

declare show_loop.simps [simp del]

definition show_memory_map :: "physmem \<Rightarrow> (bool \<times> u32 \<times> u32) list" where
  "show_memory_map s = show_loop s TOTAL_PAGES 0 0 (ISSET s 0)"

subsection \<open>Bits\<close>

lemma div_mod_32: "a div 32 = b div 32 \<Longrightarrow> a mod 32 = b mod 32 \<Longrightarrow> a = (b::nat)"
  by (metis div_mult_mod_eq)

lemma ISSET_SET [simp]: "ISSET (SET a s) b \<longleftrightarrow> b = a \<or> ISSET s b"
  by (auto simp: ISSET_def SET_def atomic_bitset_def bit_set_bit_iff dest: div_mod_32)

lemma UNSET_eq:
  "UNSET a s = (ISSET s a, snd (UNSET a s))"
  by (simp add: UNSET_def ISSET_def atomic_bitclear_def Let_def)

lemma ISSET_UNSET [simp]: "ISSET (snd (UNSET a s)) b \<longleftrightarrow> b \<noteq> a \<and> ISSET s b"
  by (auto simp: ISSET_def UNSET_def atomic_bitclear_def bit_unset_bit_iff Let_def dest: div_mod_32)

lemma count_simps [simp]:
  "s_freePages (SET a s) = s_freePages s - 1" "s_freePages (snd (UNSET a s)) = s_freePages s + 1"
  "s_lastPage (SET a s) = s_lastPage s" "s_lastPage (snd (UNSET a s)) = s_lastPage s"
  by (simp_all add: SET_def UNSET_def atomic_bitclear_def Let_def)

lemma ISSET_upd [simp]:
  "ISSET (s\<lparr>s_lastPage := l\<rparr>) = ISSET s" "ISSET (s\<lparr>s_totalPages := n\<rparr>) = ISSET s"
  by (simp_all add: ISSET_def fun_eq_iff)

lemma set_pages_ISSET: "ISSET (set_pages n b s) p \<longleftrightarrow> b \<le> p \<and> p < b + n \<or> ISSET s p"
  by (induction n b s rule: set_pages.induct) auto

lemma set_pages_free: "s_freePages (set_pages n b s) = s_freePages s - int n"
  by (induction n b s rule: set_pages.induct) auto

lemma mark_pages_ISSET:
  "ISSET (mark_pages used n b s) p \<longleftrightarrow> (if b \<le> p \<and> p < b + n then used else ISSET s p)"
  by (induction used n b s rule: mark_pages.induct) auto

lemma mark_pages_counts:
  "s_freePages (mark_pages used n b s) = s_freePages s + (if used then - int n else int n)"
  "s_lastPage (mark_pages used n b s) = s_lastPage s"
  by (induction used n b s rule: mark_pages.induct) auto

subsection \<open>Allocation and release\<close>

lemma alloc_scan_some:
  "alloc_scan s pages i = Some b \<Longrightarrow> b + pages \<le> MAXMAP \<and> (\<forall>j<pages. \<not> ISSET s (b + j))"
proof (induction s pages i rule: alloc_scan.induct)
  case (1 s pages i)
  let ?pos = "(i + s_lastPage s) mod MAXMAP" and ?p = "\<lambda>j. ISSET s ((i + s_lastPage s) mod MAXMAP + j)"
  have i: "i < MAXMAP" using 1(3) by (subst (asm) alloc_scan.simps) (auto split: if_splits)
  consider "MAXMAP < ?pos + pages" | "\<not> MAXMAP < ?pos + pages" "arr_find ?p pages 0 \<noteq> pages"
    | "\<not> MAXMAP < ?pos + pages" "arr_find ?p pages 0 = pages" by blast
  then show ?case
  proof cases
    case 1
    then have "alloc_scan s pages (i + (pages - 2) + 1) = Some b"
      using "1.prems" i by (subst (asm) alloc_scan.simps) (simp add: Let_def)
    then show ?thesis using "1.IH"(1) [OF i refl 1] by simp
  next
    case 2
    then have "alloc_scan s pages (i + arr_find ?p pages 0 + 1) = Some b"
      using "1.prems" i by (subst (asm) alloc_scan.simps) (simp add: Let_def)
    then show ?thesis using "1.IH"(2) [OF i refl 2(1) refl 2(2)] by simp
  next
    case 3
    then have "b = ?pos" using "1.prems" i by (subst (asm) alloc_scan.simps) (simp add: Let_def)
    then show ?thesis using 3 arr_find_miss [OF 3(2)] by auto
  qed
qed

lemma free_pages_ok:
  assumes "start + n \<le> MAXMAP" "\<And>p. start \<le> p \<Longrightarrow> p < start + n \<Longrightarrow> ISSET s p"
  shows "\<exists>s'. free_pages n start s = Some s' \<and> (\<forall>p. ISSET s' p \<longleftrightarrow> ISSET s p \<and> \<not> (start \<le> p \<and> p < start + n)) \<and>
    s_freePages s' = s_freePages s + int n \<and> s_lastPage s' = s_lastPage s"
  using assms
proof (induction n arbitrary: start s)
  case (Suc n)
  have m: "start mod MAXMAP = start" using Suc(2) by simp
  have st: "ISSET s start" using Suc(3) [of start] by simp
  let ?s = "snd (UNSET start s)"
  obtain s' where s': "free_pages n (Suc start) ?s = Some s'"
    "\<forall>p. ISSET s' p \<longleftrightarrow> ISSET ?s p \<and> \<not> (Suc start \<le> p \<and> p < Suc start + n)"
    "s_freePages s' = s_freePages ?s + int n" "s_lastPage s' = s_lastPage ?s"
  proof -
    have "Suc start + n \<le> MAXMAP" using Suc(2) by simp
    moreover have "ISSET ?s p" if "Suc start \<le> p" "p < Suc start + n" for p using Suc(3) [of p] that by simp
    ultimately show thesis using Suc(1) [of "Suc start" ?s] that by blast
  qed
  have "free_pages (Suc n) start s = Some s'"
    unfolding free_pages.simps m by (subst UNSET_eq) (simp add: st s'(1))
  moreover have "ISSET s' p \<longleftrightarrow> ISSET s p \<and> \<not> (start \<le> p \<and> p < start + Suc n)" for p
    using s'(2) by (cases "p = start") (simp_all add: Suc_le_eq order.strict_iff_order)
  ultimately show ?case using s'(3,4) by simp
qed simp

text \<open>What an allocation that returns a run does.\<close>

definition took :: "physmem \<Rightarrow> nat \<Rightarrow> nat \<Rightarrow> physmem \<Rightarrow> bool" where
  "took s block n s' \<longleftrightarrow> block + n \<le> MAXMAP \<and> (\<forall>p. block \<le> p \<and> p < block + n \<longrightarrow> \<not> ISSET s p) \<and>
     (\<forall>p. ISSET s' p \<longleftrightarrow> ISSET s p \<or> block \<le> p \<and> p < block + n) \<and>
     s_freePages s' = s_freePages s - int n \<and> s_lastPage s' = block + n"

lemma memory_multiple_alloc_took:
  assumes "alloc_scan s n 0 = Some block"
  shows "\<exists>s'. memory_multiple_alloc s n = (of_nat (block * PAGE_SIZE), s') \<and> took s block n s'"
proof -
  have b: "block + n \<le> MAXMAP" "\<And>j. j < n \<Longrightarrow> \<not> ISSET s (block + j)" using alloc_scan_some [OF assms] by auto
  have "\<not> ISSET s p" if "block \<le> p" "p < block + n" for p using b(2) [of "p - block"] that by simp
  then show ?thesis
    using b(1) assms by (auto simp: memory_multiple_alloc_def took_def set_pages_ISSET set_pages_free)
qed

lemma page_addr:
  assumes "block < MAXMAP"
  shows "unat (of_nat (block * PAGE_SIZE) :: u32) = block * PAGE_SIZE"
  using assms by (simp add: unsigned_of_nat take_bit_nat_eq_self MAXMAP_def PAGE_SIZE_def del: of_nat_mult)

lemma memory_alloc_cases:
  assumes "0 < pages" "memory_alloc s pages = Some (a, s')"
  obtains "a = 0" "s' = s" "s_freePages s \<le> pages \<or> alloc_scan s (nat pages) 0 = None"
  | block where "a = of_nat (block * PAGE_SIZE)" "unat a = block * PAGE_SIZE" "took s block (nat pages) s'" "pages < s_freePages s"
proof (cases "s_freePages s > pages")
  case True
  show thesis
  proof (cases "alloc_scan s (nat pages) 0")
    case None
    then show ?thesis using that(1) assms True by (simp add: memory_alloc_def memory_multiple_alloc_def)
  next
    case (Some block)
    obtain s1 where s1: "memory_multiple_alloc s (nat pages) = (of_nat (block * PAGE_SIZE), s1)" "took s block (nat pages) s1"
      using memory_multiple_alloc_took [OF Some] by blast
    then have e: "a = of_nat (block * PAGE_SIZE)" "s' = s1" using assms True by (simp_all add: memory_alloc_def)
    have "block < MAXMAP" using s1(2) assms(1) by (auto simp: took_def)
    then show ?thesis using that(2) [of block] page_addr e s1(2) True by simp
  qed
qed (use that(1) assms in \<open>simp add: memory_alloc_def\<close>)

lemma memory_free_ok:
  assumes "block + n \<le> MAXMAP" "0 < n" "\<And>p. block \<le> p \<Longrightarrow> p < block + n \<Longrightarrow> ISSET t p"
  shows "\<exists>t'. memory_free t (int n) (of_nat (block * PAGE_SIZE)) = Some t' \<and>
    (\<forall>p. ISSET t' p \<longleftrightarrow> ISSET t p \<and> \<not> (block \<le> p \<and> p < block + n)) \<and> s_freePages t' = s_freePages t + int n"
proof -
  have "block < MAXMAP" using assms(1,2) by simp
  moreover have "PAGE_SIZE \<noteq> 0" by (simp add: PAGE_SIZE_def)
  ultimately show ?thesis
    using free_pages_ok [OF assms(1), of t] assms(3) unfolding memory_free_def by (auto simp: page_addr simp del: of_nat_mult)
qed

subsection \<open>Live allocations\<close>

text \<open>Allocations and releases in any order, with the list of runs (block, pages) handed out.\<close>

inductive phys_step :: "physmem \<times> (nat \<times> nat) list \<Rightarrow> physmem \<times> (nat \<times> nat) list \<Rightarrow> bool" where
  Alloc: "memory_alloc s pages = Some (a, s') \<Longrightarrow> a \<noteq> 0 \<Longrightarrow>
    phys_step (s, live) (s', (unat a div PAGE_SIZE, nat pages) # live)"
| Refuse: "memory_alloc s pages = Some (0, s') \<Longrightarrow> phys_step (s, live) (s', live)"
| Release: "(b, n) \<in> set live \<Longrightarrow> memory_free s (int n) (of_nat (b * PAGE_SIZE)) = Some s' \<Longrightarrow>
    phys_step (s, live) (s', remove1 (b, n) live)"

inductive phys_reach :: "physmem \<Rightarrow> physmem \<times> (nat \<times> nat) list \<Rightarrow> bool" for s0 where
  Start: "phys_reach s0 (s0, [])"
| Step: "phys_reach s0 x \<Longrightarrow> phys_step x y \<Longrightarrow> phys_reach s0 y"

definition run_pages :: "nat \<times> nat \<Rightarrow> nat set" where
  "run_pages r = {fst r ..< fst r + snd r}"

definition live_pages :: "(nat \<times> nat) list \<Rightarrow> nat set" where
  "live_pages live = (\<Union>r\<in>set live. run_pages r)"

definition phys_inv :: "physmem \<Rightarrow> physmem \<times> (nat \<times> nat) list \<Rightarrow> bool" where
  "phys_inv s0 = (\<lambda>(s, live).
     sorted_wrt (\<lambda>r q. run_pages r \<inter> run_pages q = {}) live \<and>
     (\<forall>r\<in>set live. 0 < snd r \<and> fst r + snd r \<le> MAXMAP) \<and>
     (\<forall>p. ISSET s p \<longleftrightarrow> ISSET s0 p \<or> p \<in> live_pages live) \<and> (\<forall>p\<in>live_pages live. \<not> ISSET s0 p) \<and>
     s_freePages s = s_freePages s0 - int (\<Sum>r\<leftarrow>live. snd r))"

lemma disjoint_remove1:
  assumes "sorted_wrt (\<lambda>r q. run_pages r \<inter> run_pages q = {}) live" "x \<in> set live" "0 < snd x"
  shows "live_pages (remove1 x live) = live_pages live - run_pages x"
    "sorted_wrt (\<lambda>r q. run_pages r \<inter> run_pages q = {}) (remove1 x live)"
    "(\<Sum>r\<leftarrow>live. snd r) = (\<Sum>r\<leftarrow>remove1 x live. snd r) + snd x"
  using assms by (induction live) (auto simp: live_pages_def run_pages_def dest: notin_set_remove1)

lemma phys_step_inv:
  assumes "phys_step x y" "phys_inv s0 x" "ISSET s0 0"
  shows "phys_inv s0 y"
  using assms(1,2)
proof (induction rule: phys_step.induct)
  case (Alloc s pages a s' live)
  then have pos: "0 < pages" by (auto simp: memory_alloc_def split: if_splits)
  from memory_alloc_cases [OF pos Alloc(1)] Alloc(2) obtain block where
    b: "unat a = block * PAGE_SIZE" "took s block (nat pages) s'" by blast
  have e: "unat a div PAGE_SIZE = block" using b(1) by (simp add: PAGE_SIZE_def)
  have t: "block + nat pages \<le> MAXMAP" "\<And>p. p \<in> run_pages (block, nat pages) \<Longrightarrow> \<not> ISSET s p"
    "\<And>p. ISSET s' p \<longleftrightarrow> ISSET s p \<or> p \<in> run_pages (block, nat pages)" "s_freePages s' = s_freePages s - int (nat pages)"
    using b(2) by (auto simp: took_def run_pages_def)
  have i: "sorted_wrt (\<lambda>r q. run_pages r \<inter> run_pages q = {}) live" "\<forall>r\<in>set live. 0 < snd r \<and> fst r + snd r \<le> MAXMAP"
    "\<And>p. ISSET s p \<longleftrightarrow> ISSET s0 p \<or> p \<in> live_pages live" "\<forall>p\<in>live_pages live. \<not> ISSET s0 p"
    "s_freePages s = s_freePages s0 - int (\<Sum>r\<leftarrow>live. snd r)"
    using Alloc(3) by (simp_all add: phys_inv_def)
  have n: "live_pages ((block, nat pages) # live) = run_pages (block, nat pages) \<union> live_pages live"
    by (simp add: live_pages_def)
  have "run_pages (block, nat pages) \<inter> live_pages live = {}" using t(2) i(3) by auto
  then have "\<forall>q\<in>set live. run_pages (block, nat pages) \<inter> run_pages q = {}" by (auto simp: live_pages_def)
  then show ?case
    unfolding phys_inv_def prod.case e n using i t pos by (auto simp: run_pages_def [of "(block, nat pages)"])
next
  case (Refuse s pages s' live)
  then have pos: "0 < pages" by (auto simp: memory_alloc_def split: if_splits)
  from memory_alloc_cases [OF pos Refuse(1)] show ?case
  proof cases
    case (2 block)
    then have "block = 0" by (simp add: PAGE_SIZE_def)
    then have "\<not> ISSET s 0" using 2(3) pos by (auto simp: took_def)
    then show ?thesis using Refuse(2) assms(3) by (auto simp: phys_inv_def)
  qed (use Refuse in simp)
next
  case (Release b n live s s')
  have i: "sorted_wrt (\<lambda>r q. run_pages r \<inter> run_pages q = {}) live" "\<forall>r\<in>set live. 0 < snd r \<and> fst r + snd r \<le> MAXMAP"
    "\<And>p. ISSET s p \<longleftrightarrow> ISSET s0 p \<or> p \<in> live_pages live" "\<forall>p\<in>live_pages live. \<not> ISSET s0 p"
    "s_freePages s = s_freePages s0 - int (\<Sum>r\<leftarrow>live. snd r)"
    using Release(3) by (simp_all add: phys_inv_def)
  have n: "0 < n" "b + n \<le> MAXMAP" "run_pages (b, n) \<subseteq> live_pages live" using i(2) Release(1) by (auto simp: live_pages_def)
  have "ISSET s p" if "b \<le> p" "p < b + n" for p using that n(3) i(3) by (auto simp: run_pages_def)
  then have "\<exists>t'. memory_free s (int n) (of_nat (b * PAGE_SIZE)) = Some t' \<and>
    (\<forall>p. ISSET t' p \<longleftrightarrow> ISSET s p \<and> \<not> (b \<le> p \<and> p < b + n)) \<and> s_freePages t' = s_freePages s + int n"
    by (rule memory_free_ok [OF n(2,1)])
  with Release(2) have s': "\<And>p. ISSET s' p \<longleftrightarrow> ISSET s p \<and> p \<notin> run_pages (b, n)" "s_freePages s' = s_freePages s + int n"
    by (auto simp: run_pages_def)
  note r = disjoint_remove1 [OF i(1) Release(1)]
  show ?case
    unfolding phys_inv_def prod.case
    using i s' r n(1,3) by (auto dest: notin_set_remove1)
qed

lemma phys_reach_inv: "phys_reach s0 x \<Longrightarrow> ISSET s0 0 \<Longrightarrow> phys_inv s0 x"
proof (induction rule: phys_reach.induct)
  case Start
  show ?case by (simp add: phys_inv_def live_pages_def)
qed (rule phys_step_inv)

subsection \<open>The boot loader's map\<close>

lemma unset_region_ISSET:
  "ISSET (unset_region b e s) p \<longleftrightarrow> ISSET s p \<and> \<not> (unat b \<le> p \<and> p \<le> unat e \<and> p < MAXMAP)"
proof (induction b e s rule: unset_region.induct)
  case (1 b e s)
  have M: "unat (of_nat MAXMAP :: u32) = MAXMAP" by (simp add: MAXMAP_def)
  show ?case
  proof (cases "b \<le> e \<and> b < of_nat MAXMAP")
    case True
    then have lt: "unat b < MAXMAP" "unat b \<le> unat e" using M by (simp_all add: word_less_nat_alt word_le_nat_alt)
    then have n: "unat (b + 1) = Suc (unat b)"
      using unat_add_one [of b "of_nat MAXMAP"] M by simp
    have "unset_region b e s = unset_region (b + 1) e ((snd (UNSET (unat b) s))\<lparr>s_totalPages := s_totalPages s + 1\<rparr>)"
      using True by (subst unset_region.simps) simp
    with 1 [OF True] lt show ?thesis by (auto simp: n Suc_le_eq)
  next
    case False
    then have "\<not> (unat b \<le> p \<and> p \<le> unat e \<and> p < MAXMAP)"
      using M by (auto simp: word_less_nat_alt word_le_nat_alt)
    then show ?thesis using False by (subst unset_region.simps) auto
  qed
qed

lemma ceil_div:
  fixes B p :: nat
  assumes P: "0 < P"
  shows "(if B mod P \<noteq> 0 then B div P + 1 else B div P) \<le> p \<longleftrightarrow> B \<le> p * P"
    "0 < B \<Longrightarrow> p \<le> (if B mod P = 0 then B div P - 1 else B div P) \<longleftrightarrow> p * P < B"
proof -
  have z: "B mod P = 0 \<Longrightarrow> B = B div P * P" by auto
  have nz: "B mod P \<noteq> 0 \<Longrightarrow> B \<noteq> p * P" by auto
  show "(if B mod P \<noteq> 0 then B div P + 1 else B div P) \<le> p \<longleftrightarrow> B \<le> p * P"
  proof (cases "B mod P = 0")
    case True
    then show ?thesis using z P by (metis mult_le_cancel2)
  next
    case False
    have "B div P + 1 \<le> p \<longleftrightarrow> B < p * P" using div_less_iff_less_mult [OF P, of B p] by auto
    then show ?thesis using False nz by auto
  qed
  show "p \<le> (if B mod P = 0 then B div P - 1 else B div P) \<longleftrightarrow> p * P < B" if "0 < B"
  proof (cases "B mod P = 0")
    case True
    then have "0 < B div P" using z that by (metis gr0I mult_0 not_less_zero)
    then have "p \<le> B div P - 1 \<longleftrightarrow> p < B div P" by auto
    then show ?thesis using True z P by (metis mult_less_cancel2)
  next
    case False
    have "p \<le> B div P \<longleftrightarrow> p * P \<le> B" by (rule less_eq_div_iff_mult_less_eq [OF P])
    then show ?thesis using False nz by auto
  qed
qed

definition region_base :: "memory_map \<Rightarrow> nat" where
  "region_base m = unat (join64 (mm_base_addr_high m) (mm_base_addr_low m))"

definition region_length :: "memory_map \<Rightarrow> nat" where
  "region_length m = unat (join64 (mm_length_high m) (mm_length_low m))"

lemma page_word:
  fixes a :: u64
  assumes "unat a < 2 ^ 43"
  shows "unat (ucast (a div of_nat PAGE_SIZE) :: u32) = unat a div PAGE_SIZE"
    "(a mod of_nat PAGE_SIZE = 0) = (unat a mod PAGE_SIZE = 0)"
proof -
  have P: "unat (of_nat PAGE_SIZE :: u64) = PAGE_SIZE" by (simp add: PAGE_SIZE_def)
  have "unat (a div of_nat PAGE_SIZE) = unat a div PAGE_SIZE" by (simp add: unat_div P)
  moreover have "unat a div PAGE_SIZE < 2 ^ 32" using assms by (simp add: PAGE_SIZE_def less_mult_imp_div_less)
  ultimately show "unat (ucast (a div of_nat PAGE_SIZE) :: u32) = unat a div PAGE_SIZE"
    by (simp add: unsigned_ucast_eq take_bit_nat_eq_self)
  show "(a mod of_nat PAGE_SIZE = 0) = (unat a mod PAGE_SIZE = 0)"
    by (simp add: word_unat_eq_iff unat_mod P)
qed

lemma parse_entry_ISSET:
  assumes "mm_type m = 1" "region_base m + region_length m < 2 ^ 43" "0 < region_base m + region_length m"
  shows "ISSET (snd (parse_entry m (t, s))) p \<longleftrightarrow> ISSET s p \<and>
    \<not> (region_base m \<le> p * PAGE_SIZE \<and> p * PAGE_SIZE < region_base m + region_length m \<and> p < MAXMAP)"
proof -
  define base len where "base = join64 (mm_base_addr_high m) (mm_base_addr_low m)"
    and "len = join64 (mm_length_high m) (mm_length_low m)"
  let ?P = "of_nat PAGE_SIZE :: u64"
  let ?b = "ucast (base div ?P) :: u32" and ?e = "ucast ((base + len) div ?P) :: u32"
  have P: "0 < PAGE_SIZE" by (simp add: PAGE_SIZE_def)
  have B: "unat base = region_base m" and L: "unat len = region_length m"
    by (simp_all add: region_base_def region_length_def base_def len_def)
  have E: "unat (base + len) = region_base m + region_length m"
    using assms(2) B L by (subst unat_add_lem [THEN iffD1]) simp_all
  have small: "unat base < 2 ^ 43" "unat (base + len) < 2 ^ 43" using assms(2) B E by simp_all
  note w = page_word [OF small(1), unfolded B] page_word [OF small(2), unfolded E]
  have d: "region_base m div PAGE_SIZE < 2 ^ 31" "(region_base m + region_length m) div PAGE_SIZE < 2 ^ 31"
    using assms(2) by (auto simp: PAGE_SIZE_def intro!: less_mult_imp_div_less)
  have "unat ?b < unat (2 ^ 31 :: u32)" using w(1) d(1) by simp
  from unat_add_one [OF this] have b1: "unat (?b + 1) = region_base m div PAGE_SIZE + 1" using w(1) by simp
  have e1: "unat (?e - 1) = (region_base m + region_length m) div PAGE_SIZE - 1"
    if "(region_base m + region_length m) mod PAGE_SIZE = 0"
  proof -
    have "(region_base m + region_length m) div PAGE_SIZE \<noteq> 0"
      using that assms(3) P by (metis add_cancel_right_right div_mult_mod_eq mult_0 less_irrefl)
    then have "?e \<noteq> 0" using w(3) by (metis unat_0)
    then show ?thesis using w(3) by (simp add: unat_minus_one)
  qed
  define pb pe where "pb = (if base mod ?P \<noteq> 0 then ?b + 1 else ?b)"
    and "pe = (if (base + len) mod ?P = 0 then ?e - 1 else ?e)"
  have ub: "unat pb = (if region_base m mod PAGE_SIZE \<noteq> 0 then region_base m div PAGE_SIZE + 1 else region_base m div PAGE_SIZE)"
    using b1 w(1,2) by (simp add: pb_def)
  have ue: "unat pe = (if (region_base m + region_length m) mod PAGE_SIZE = 0
      then (region_base m + region_length m) div PAGE_SIZE - 1 else (region_base m + region_length m) div PAGE_SIZE)"
    using e1 w(3,4) by (simp add: pe_def)
  have "snd (parse_entry m (t, s)) = unset_region pb pe s"
    unfolding pb_def pe_def base_def len_def using assms(1) by (simp add: parse_entry_def Let_def)
  then show ?thesis
    unfolding unset_region_ISSET by (simp only: unset_region_ISSET ub ue ceil_div [OF P] ceil_div(2) [OF P assms(3)])
qed

subsection \<open>A search that misses\<close>

lemma alloc_scan_blocked:
  assumes "2 \<le> n" "s_lastPage s = MAXMAP - 1" "n - 1 \<le> i"
    "\<And>p. n - 2 \<le> p \<Longrightarrow> p + n \<le> MAXMAP \<Longrightarrow> \<exists>j<n. ISSET s (p + j)"
  shows "alloc_scan s n i = None"
  using assms(3)
proof (induction "MAXMAP - i" arbitrary: i rule: less_induct)
  case less
  show ?case
  proof (cases "i < MAXMAP")
    case True
    have pos: "(i + s_lastPage s) mod MAXMAP = i - 1"
    proof -
      have "i + s_lastPage s = (i - 1) + MAXMAP" using True less(2) assms(1,2) by simp
      then show ?thesis using True by (simp add: less_imp_diff_less)
    qed
    let ?j = "arr_find (\<lambda>j. ISSET s (i - 1 + j)) n 0"
    have IH: "alloc_scan s n k = None" if "i < k" for k using less(1) [of k] less(2) True that by simp
    have lo: "n - 2 \<le> i - 1" using less(2) by simp
    have "?j \<noteq> n" if "i - 1 + n \<le> MAXMAP"
      using assms(4) [OF lo that] arr_find_miss [of "\<lambda>j. ISSET s (i - 1 + j)" n 0] by auto
    then show ?thesis
      using True by (subst alloc_scan.simps) (simp only: Let_def pos if_True, auto simp: IH)
  qed (subst alloc_scan.simps, simp)
qed

subsection \<open>Properties\<close>

text \<open>
  C10. Allocations never overlap. From any bitmap in which page 0 is in use, whatever sequence
  of allocations and releases follows: the runs handed out and not yet released are disjoint,
  lie below \<open>MAXMAP\<close>, consist of pages that were free at the start, and are, with the pages
  in use at the start, exactly the pages marked; the free count has gone down by exactly
  their size; and each of them can be released.
\<close>

theorem memory_runs_disjoint:
  assumes "phys_reach s0 (s, live)" "ISSET s0 0"
  shows "sorted_wrt (\<lambda>r q. run_pages r \<inter> run_pages q = {}) live \<and> (\<forall>r\<in>set live. fst r + snd r \<le> MAXMAP) \<and>
    (\<forall>p. ISSET s p \<longleftrightarrow> ISSET s0 p \<or> p \<in> live_pages live) \<and> (\<forall>p\<in>live_pages live. \<not> ISSET s0 p) \<and>
    s_freePages s = s_freePages s0 - int (\<Sum>r\<leftarrow>live. snd r) \<and>
    (\<forall>r\<in>set live. memory_free s (int (snd r)) (of_nat (fst r * PAGE_SIZE)) \<noteq> None)"
proof -
  have i: "phys_inv s0 (s, live)" by (rule phys_reach_inv [OF assms])
  have "memory_free s (int (snd r)) (of_nat (fst r * PAGE_SIZE)) \<noteq> None" if "r \<in> set live" for r
  proof -
    have "fst r + snd r \<le> MAXMAP" "0 < snd r" and "\<And>p. fst r \<le> p \<Longrightarrow> p < fst r + snd r \<Longrightarrow> ISSET s p"
      using i that by (auto simp: phys_inv_def live_pages_def run_pages_def)
    from memory_free_ok [OF this] show ?thesis by auto
  qed
  then show ?thesis using i by (auto simp: phys_inv_def)
qed

text \<open>Only pages 1 to 9 are free.\<close>

definition mem_full :: physmem where
  "mem_full = \<lparr>memory_bitmap = (\<lambda>_. -1), s_totalPages = 0, s_freePages = 0, s_lastPage = 1\<rparr>"

definition mem_small :: physmem where
  "mem_small = mark_pages False 9 1 mem_full"

lemma mem_full_ISSET: "ISSET mem_full p"
  by (simp add: ISSET_def mem_full_def)

lemma mem_small_fields:
  "ISSET mem_small p \<longleftrightarrow> \<not> (1 \<le> p \<and> p < 10)" "s_freePages mem_small = 9" "s_lastPage mem_small = 1"
  by (simp add: mem_small_def mark_pages_ISSET mem_full_ISSET)
    (simp_all add: mem_small_def mark_pages_counts mem_full_def)

lemma mem_small_alloc: "\<exists>s. memory_alloc mem_small 3 = Some (4096, s)"
proof -
  have "arr_find (\<lambda>j. ISSET mem_small (Suc j)) 3 0 = 3"
    by (rule arr_find_noneI) (simp_all add: mem_small_fields)
  then have "alloc_scan mem_small 3 0 = Some 1"
    by (subst alloc_scan.simps) (simp add: mem_small_fields MAXMAP_def Let_def)
  then show ?thesis by (simp add: memory_alloc_def memory_multiple_alloc_def PAGE_SIZE_def mem_small_fields)
qed

theorem memory_runs_disjoint_witness:
  "\<exists>s. memory_alloc mem_small 3 = Some (4096, s) \<and> memory_free s 3 4096 \<noteq> None \<and> s_freePages s = 6"
proof -
  obtain s where s: "memory_alloc mem_small 3 = Some (4096, s)" using mem_small_alloc by blast
  have "phys_step (mem_small, []) (s, [(1, 3)])"
    using phys_step.Alloc [OF s, of "[]"] by (simp add: PAGE_SIZE_def)
  then have r: "phys_reach mem_small (s, [(1, 3)])" by (rule phys_reach.Step [OF phys_reach.Start])
  have "ISSET mem_small 0" by (simp add: mem_small_fields)
  from memory_runs_disjoint [OF r this] s show ?thesis by (simp add: PAGE_SIZE_def mem_small_fields)
qed

text \<open>
  Round trip. Releasing what an allocation returned restores the bitmap and the free count.
\<close>

theorem memory_alloc_free:
  assumes "memory_alloc s pages = Some (a, s')" "a \<noteq> 0"
  shows "\<exists>s''. memory_free s' pages a = Some s'' \<and> (\<forall>p. ISSET s'' p = ISSET s p) \<and> s_freePages s'' = s_freePages s"
proof -
  have pos: "0 < pages" using assms(1) by (auto simp: memory_alloc_def split: if_splits)
  from memory_alloc_cases [OF pos assms(1)] assms(2) obtain block where
    b: "a = of_nat (block * PAGE_SIZE)" "took s block (nat pages) s'" by blast
  have t: "block + nat pages \<le> MAXMAP" "0 < nat pages" "\<And>p. block \<le> p \<Longrightarrow> p < block + nat pages \<Longrightarrow> ISSET s' p"
    using b(2) pos by (auto simp: took_def)
  obtain t' where t': "memory_free s' (int (nat pages)) a = Some t'"
    "\<And>p. ISSET t' p \<longleftrightarrow> ISSET s' p \<and> \<not> (block \<le> p \<and> p < block + nat pages)" "s_freePages t' = s_freePages s' + int (nat pages)"
    using memory_free_ok [OF t] unfolding b(1) by blast
  have "ISSET t' p = ISSET s p" for p using t'(2) [of p] b(2) unfolding took_def by blast
  moreover have "s_freePages t' = s_freePages s" using t'(3) b(2) by (simp add: took_def)
  ultimately show ?thesis using t'(1) pos by auto
qed

theorem memory_alloc_free_witness:
  "\<exists>s s'. memory_alloc mem_small 3 = Some (4096, s) \<and> memory_free s 3 4096 = Some s' \<and> (\<forall>p. ISSET s' p = ISSET mem_small p)"
proof -
  obtain s where s: "memory_alloc mem_small 3 = Some (4096, s)" using mem_small_alloc by blast
  from memory_alloc_free [OF s] show ?thesis using s by auto
qed

text \<open>
  The memory map. An available region that ends below 8 terabytes frees exactly the pages
  below \<open>MAXMAP\<close> whose first byte lies in it. The comment asks for full pages: the first
  page is rounded up, but a last page of which only the beginning is available is freed too.
\<close>

theorem parse_entry_frees:
  assumes "mm_type m = 1" "region_base m + region_length m < 2 ^ 43" "0 < region_base m + region_length m"
  shows "ISSET (snd (parse_entry m (t, s))) p \<longleftrightarrow> ISSET s p \<and>
    \<not> (region_base m \<le> p * PAGE_SIZE \<and> p * PAGE_SIZE < region_base m + region_length m \<and> p < MAXMAP)"
  using assms by (rule parse_entry_ISSET)

definition mm_partial :: memory_map where
  "mm_partial = \<lparr>mm_base_addr_low = 0x100000, mm_base_addr_high = 0, mm_length_low = 0x1800, mm_length_high = 0, mm_type = 1\<rparr>"

text \<open>The region ends in the middle of page 257, which is freed.\<close>

theorem parse_entry_frees_witness:
  "region_base mm_partial + region_length mm_partial < (257 + 1) * PAGE_SIZE \<and>
   \<not> ISSET (snd (parse_entry mm_partial (0, mem_full))) 257"
proof -
  have "region_base mm_partial = 0x100000" "region_length mm_partial = 0x1800"
    by (simp_all add: region_base_def region_length_def mm_partial_def join64_def)
  then show ?thesis
    using parse_entry_frees [of mm_partial 0 mem_full 257] by (simp add: mm_partial_def PAGE_SIZE_def MAXMAP_def)
qed

text \<open>
  A free run is missed. When the search starts at the last page, the window that would wrap
  is skipped by \<open>pages - 2\<close> positions too many: the runs that begin at pages 0 to
  \<open>pages - 3\<close> are never looked at. If every window further up holds a page in use, the
  allocation returns NULL although such a run is free.
\<close>

theorem alloc_misses_run:
  assumes "2 \<le> n" "s_lastPage s = MAXMAP - 1"
    and "\<forall>p. n - 2 \<le> p \<and> p + n \<le> MAXMAP \<longrightarrow> (\<exists>j<n. ISSET s (p + j))"
  shows "memory_alloc s (int n) = Some (0, s)"
proof -
  have "alloc_scan s n 0 = None"
  proof -
    have "(0 + s_lastPage s) mod MAXMAP = MAXMAP - 1" using assms(2) by (simp add: MAXMAP_def)
    then have "alloc_scan s n 0 = alloc_scan s n (0 + (n - 2) + 1)"
      using assms(1) by (subst alloc_scan.simps) (simp add: Let_def MAXMAP_def)
    also have "\<dots> = None" by (rule alloc_scan_blocked) (use assms in auto)
    finally show ?thesis .
  qed
  then show ?thesis using assms(1) by (simp add: memory_alloc_def memory_multiple_alloc_def)
qed

text \<open>Pages 300 to 1299 are free, and a page further up; 1000 pages are asked for.\<close>

definition mem_missed :: physmem where
  "mem_missed = (mark_pages False 1 5000 (mark_pages False 1000 300 mem_full))\<lparr>s_lastPage := MAXMAP - 1\<rparr>"

theorem alloc_misses_run_witness:
  "{300..<1300} \<subseteq> {p. \<not> ISSET mem_missed p} \<and> s_freePages mem_missed = 1001 \<and>
   memory_alloc mem_missed 1000 = Some (0, mem_missed)"
proof -
  have i: "ISSET mem_missed p \<longleftrightarrow> \<not> (300 \<le> p \<and> p < 1300) \<and> p \<noteq> 5000" for p
    by (auto simp: mem_missed_def mark_pages_ISSET mem_full_ISSET)
  have "\<exists>j<1000. ISSET mem_missed (p + j)" if "998 \<le> p" for p
  proof (cases "ISSET mem_missed (p + 998)")
    case True
    then show ?thesis by (intro exI [of _ 998]) simp
  next
    case False
    then show ?thesis using that by (intro exI [of _ 999]) (auto simp: i)
  qed
  then have "memory_alloc mem_missed (int 1000) = Some (0, mem_missed)"
    by (intro alloc_misses_run) (auto simp: mem_missed_def)
  moreover have "s_freePages mem_missed = 1001" by (simp add: mem_missed_def mark_pages_counts mem_full_def del: mark_pages.simps)
  ultimately show ?thesis by (auto simp: i)
qed

end
