(* ===== verification/Paging.thy ===== *)
theory Paging
  imports Physmem
begin

unbundle bit_operations_syntax

section \<open>Page tables (kernel/src/paging.c)\<close>

text \<open>
  Page directories and tables are words in memory: \<open>pg_mem\<close> gives the word at an address. The
  kernel reaches all physical memory at its own address, so a table's address is that of its
  frame. Bytes that \<open>page_copy_in\<close> and \<open>page_copy_out\<close> move are in a store of their own.
  Frames come from the allocator of theory Physmem; like the code, the functions here do not
  check for NULL, and then work on the table at address 0. \<open>invlpg\<close> has no effect on the
  tables and is left out.

  Shown, for the user part of an address space: mapping a run makes exactly its pages
  translate to the given frames; releasing it undoes that; the search for a free run returns
  only unmapped pages but may pass its upper limit; and \<open>delete_page_directory\<close> gives page 0
  away instead of the directory's tables.
\<close>

record pgmem =
  pg_phys :: physmem
  pg_mem :: "u32 \<Rightarrow> u32"
  pg_bytes :: "u32 \<Rightarrow> byte"
  pg_cr3 :: u32

definition PAGE_PRESENT :: u32 where "PAGE_PRESENT = 1"
definition PAGE_RDWR :: u32 where "PAGE_RDWR = 2"
definition PAGE_USER :: u32 where "PAGE_USER = 4"
definition PAGE_4MB :: u32 where "PAGE_4MB = 0x80"
definition PAGE_GLOBAL :: u32 where "PAGE_GLOBAL = 0x100"

definition READ_ONLY :: u32 where "READ_ONLY = 1"
definition READ_WRITE :: u32 where "READ_WRITE = 2"
definition USER_PAGE :: u32 where "USER_PAGE = 4"
definition SYSTEM_PAGE :: u32 where "SYSTEM_PAGE = 8"

definition page_table_of :: "u32 \<Rightarrow> u32" where "page_table_of address = drop_bit 22 address AND 0x3FF"
definition page_entry_of :: "u32 \<Rightarrow> u32" where "page_entry_of address = drop_bit 12 address AND 0x3FF"

definition frame_of :: "u32 \<Rightarrow> u32" where "frame_of w = w AND NOT 0xFFF"

text \<open>\<open>pde[ page_table_of( address ) ]\<close>, and the entry in the table it points to.\<close>

definition pde :: "pgmem \<Rightarrow> u32 \<Rightarrow> u32 \<Rightarrow> u32" where
  "pde st dir address = pg_mem st (dir + 4 * page_table_of address)"

definition page_table :: "pgmem \<Rightarrow> u32 \<Rightarrow> u32 \<Rightarrow> u32" where
  "page_table st dir address = frame_of (pde st dir address)"

definition pte :: "pgmem \<Rightarrow> u32 \<Rightarrow> u32 \<Rightarrow> u32" where
  "pte st dir address = pg_mem st (page_table st dir address + 4 * page_entry_of address)"

definition page_entry :: "pgmem \<Rightarrow> u32 \<Rightarrow> u32 \<Rightarrow> u32" where
  "page_entry st dir address = frame_of (pte st dir address)"

definition set_pte :: "u32 \<Rightarrow> u32 \<Rightarrow> u32 \<Rightarrow> pgmem \<Rightarrow> pgmem" where
  "set_pte dir address v st = st\<lparr>pg_mem := (pg_mem st)(page_table st dir address + 4 * page_entry_of address := v)\<rparr>"

definition page_table_present :: "pgmem \<Rightarrow> u32 \<Rightarrow> u32 \<Rightarrow> int" where
  "page_table_present st dir address = (if pde st dir address AND PAGE_PRESENT \<noteq> PAGE_PRESENT then -1 else 0)"

definition page_entry_present :: "pgmem \<Rightarrow> u32 \<Rightarrow> u32 \<Rightarrow> int" where
  "page_entry_present st dir address =
     (if pde st dir address AND PAGE_PRESENT \<noteq> PAGE_PRESENT then -1
      else if pte st dir address AND PAGE_PRESENT \<noteq> PAGE_PRESENT then -1 else 0)"

definition convert_paging_types :: "u32 \<Rightarrow> u32" where
  "convert_paging_types flags =
     (let f = 0;
          f = (if flags AND READ_ONLY \<noteq> 0 then f OR 0 else f);
          f = (if flags AND READ_WRITE \<noteq> 0 then f OR PAGE_RDWR else f);
          f = (if flags AND USER_PAGE \<noteq> 0 then f OR PAGE_USER else f)
      in if flags AND SYSTEM_PAGE \<noteq> 0 then f OR 0 else f)"

text \<open>\<open>for (j = 0; j < 1024; j++) table[j] = 0;\<close> with \<open>n\<close> words left.\<close>

fun clear_words :: "nat \<Rightarrow> nat \<Rightarrow> u32 \<Rightarrow> (u32 \<Rightarrow> u32) \<Rightarrow> (u32 \<Rightarrow> u32)" where
  "clear_words 0 j table m = m"
| "clear_words (Suc n) j table m = clear_words n (Suc j) table (m(table + 4 * of_nat j := 0))"

text \<open>
  The step the three mapping functions share: if there is no table for the address, take a
  frame, clear it and enter it in the directory.
\<close>

definition ensure_table :: "u32 \<Rightarrow> u32 \<Rightarrow> u32 \<Rightarrow> pgmem \<Rightarrow> pgmem option" where
  "ensure_table dir index flags st =
     (if page_table_present st dir index \<noteq> 0 then do {
        (table, ph) \<leftarrow> memory_alloc (pg_phys st) 1;
        let m = clear_words 1024 0 table (pg_mem st);
        Some (st\<lparr>pg_phys := ph, pg_mem := m(dir + 4 * page_table_of index := table OR flags OR PAGE_PRESENT)\<rparr>)
      }
      else Some st)"

text \<open>\<open>n\<close> pages are left, from \<open>index\<close> on.\<close>

fun page_ensure_loop :: "nat \<Rightarrow> u32 \<Rightarrow> u32 \<Rightarrow> u32 \<Rightarrow> int \<Rightarrow> pgmem \<Rightarrow> (int \<times> pgmem) option" where
  "page_ensure_loop 0 dir index flags alreadies st = Some (alreadies, st)"
| "page_ensure_loop (Suc n) dir index flags alreadies st = do {
     st \<leftarrow> ensure_table dir index flags st;
     (if page_entry_present st dir index \<noteq> 0 then do {
        (a, ph) \<leftarrow> memory_alloc (pg_phys st) 1;
        page_ensure_loop n dir (index + of_nat PAGE_SIZE) flags alreadies
          (set_pte dir index (a OR flags OR PAGE_PRESENT) (st\<lparr>pg_phys := ph\<rparr>))
      }
      else page_ensure_loop n dir (index + of_nat PAGE_SIZE) flags (alreadies + 1) st)
   }"

definition page_ensure :: "pgmem \<Rightarrow> u32 \<Rightarrow> u32 \<Rightarrow> u32 \<Rightarrow> u32 \<Rightarrow> (int \<times> pgmem) option" where
  "page_ensure st dir start pages flags = page_ensure_loop (unat pages) dir start (convert_paging_types flags) 0 st"

definition page_present :: "pgmem \<Rightarrow> u32 \<Rightarrow> u32 \<Rightarrow> int" where
  "page_present st dir address =
     (if page_table_present st dir address \<noteq> 0 then -1
      else if page_entry_present st dir address \<noteq> 0 then -1 else 0)"

text \<open>The search of \<open>page_map_in\<close>, which creates tables on its way; it may wrap for ever.\<close>

partial_function (option) page_map_scan ::
    "u32 \<Rightarrow> u32 \<Rightarrow> u32 \<Rightarrow> u32 \<Rightarrow> u32 \<Rightarrow> u32 \<Rightarrow> u32 \<Rightarrow> pgmem \<Rightarrow> (u32 \<times> u32 \<times> pgmem) option" where
  "page_map_scan dir finish pages flags i found found_start st =
     (if i < finish then do {
        st \<leftarrow> ensure_table dir i flags st;
        let (found, found_start) =
          (if page_entry_present st dir i \<noteq> 0 then (found + 1, if found_start = 0 then i else found_start) else (0, 0));
        if found = pages then Some (found, found_start, st)
        else page_map_scan dir finish pages flags (i + of_nat PAGE_SIZE) found found_start st
      }
      else Some (found, found_start, st))"

fun page_map_fill :: "nat \<Rightarrow> u32 \<Rightarrow> u32 \<Rightarrow> u32 \<Rightarrow> pgmem \<Rightarrow> pgmem option" where
  "page_map_fill 0 dir index flags st = Some st"
| "page_map_fill (Suc n) dir index flags st = do {
     (a, ph) \<leftarrow> memory_alloc (pg_phys st) 1;
     page_map_fill n dir (index + of_nat PAGE_SIZE) flags
       (set_pte dir index (a OR flags OR PAGE_PRESENT) (st\<lparr>pg_phys := ph\<rparr>))
   }"

definition page_map_in :: "pgmem \<Rightarrow> u32 \<Rightarrow> u32 \<Rightarrow> u32 \<Rightarrow> u32 \<Rightarrow> u32 \<Rightarrow> (u32 \<times> pgmem) option" where
  "page_map_in st dir start finish pages flags = do {
     (found, found_start, st) \<leftarrow> page_map_scan dir finish pages flags start 0 0 st;
     if found \<noteq> pages then Some (0, st)
     else do { st \<leftarrow> page_map_fill (unat pages) dir found_start flags st; Some (found_start, st) }
   }"

fun direct_map_loop :: "nat \<Rightarrow> u32 \<Rightarrow> u32 \<Rightarrow> u32 \<Rightarrow> u32 \<Rightarrow> pgmem \<Rightarrow> pgmem option" where
  "direct_map_loop 0 dir phys index flags st = Some st"
| "direct_map_loop (Suc n) dir phys index flags st = do {
     st \<leftarrow> ensure_table dir index flags st;
     direct_map_loop n dir (phys + of_nat PAGE_SIZE) (index + of_nat PAGE_SIZE) flags
       (set_pte dir index (phys OR flags OR PAGE_PRESENT) st)
   }"

definition page_direct_map :: "pgmem \<Rightarrow> u32 \<Rightarrow> u32 \<Rightarrow> u32 \<Rightarrow> u32 \<Rightarrow> u32 \<Rightarrow> (int \<times> pgmem) option" where
  "page_direct_map st dir physical start pages flags = do {
     st \<leftarrow> direct_map_loop (unat pages) dir physical start (convert_paging_types flags) st;
     Some (0, st)
   }"

text \<open>
  The first page of the window that is mapped, if any, and the search over windows. The value of
  \<open>find_free_loop\<close> is None when the search never ends.
\<close>

definition window_block :: "pgmem \<Rightarrow> u32 \<Rightarrow> u32 \<Rightarrow> nat \<Rightarrow> nat" where
  "window_block st dir current pages =
     arr_find (\<lambda>c. page_entry_present st dir (current + of_nat c * of_nat PAGE_SIZE) = 0) pages 0"

partial_function (option) find_free_loop :: "pgmem \<Rightarrow> u32 \<Rightarrow> u32 \<Rightarrow> nat \<Rightarrow> u32 \<Rightarrow> u32 option" where
  "find_free_loop st dir finish pages current =
     (if current < finish then
        let c = window_block st dir current pages in
        if c = pages then Some current
        else find_free_loop st dir finish pages (current + of_nat c * of_nat PAGE_SIZE + of_nat PAGE_SIZE)
      else Some 0)"

definition page_find_free :: "pgmem \<Rightarrow> u32 \<Rightarrow> u32 \<Rightarrow> u32 \<Rightarrow> u32 \<Rightarrow> u32 option" where
  "page_find_free st dir start finish pages = find_free_loop st dir finish (unat pages) (start AND NOT 0xFFF)"

definition page_provide :: "pgmem \<Rightarrow> u32 \<Rightarrow> u32 \<Rightarrow> u32 \<Rightarrow> u32 \<Rightarrow> u32 \<Rightarrow> u32 \<Rightarrow> (u32 \<times> pgmem) option" where
  "page_provide st dir physical start finish pages flags = do {
     location \<leftarrow> page_find_free st dir start finish pages;
     if location = 0 then Some (0, st)
     else do {
       (r, st) \<leftarrow> page_direct_map st dir physical location pages flags;
       Some (if r \<noteq> 0 then 0 else location, st)
     }
   }"

fun page_release_loop :: "nat \<Rightarrow> u32 \<Rightarrow> u32 \<Rightarrow> pgmem \<Rightarrow> pgmem" where
  "page_release_loop 0 dir index st = st"
| "page_release_loop (Suc n) dir index st =
     page_release_loop n dir (index + of_nat PAGE_SIZE)
       (if page_entry_present st dir index = 0 then set_pte dir index 0 st else st)"

definition page_release :: "pgmem \<Rightarrow> u32 \<Rightarrow> u32 \<Rightarrow> int \<Rightarrow> int \<times> pgmem" where
  "page_release st dir start pages = (0, page_release_loop (nat pages) dir start st)"

fun page_map_out_loop :: "nat \<Rightarrow> u32 \<Rightarrow> u32 \<Rightarrow> pgmem \<Rightarrow> pgmem option" where
  "page_map_out_loop 0 dir index st = Some st"
| "page_map_out_loop (Suc n) dir index st = do {
     st \<leftarrow> (if page_entry_present st dir index = 0 then
              let page = page_entry st dir index; st = set_pte dir index 0 st
              in do { ph \<leftarrow> memory_free (pg_phys st) 1 page; Some (st\<lparr>pg_phys := ph\<rparr>) }
            else Some st);
     page_map_out_loop n dir (index + of_nat PAGE_SIZE) st
   }"

definition page_map_out :: "pgmem \<Rightarrow> u32 \<Rightarrow> u32 \<Rightarrow> int \<Rightarrow> (int \<times> pgmem) option" where
  "page_map_out st dir start pages = do {
     st \<leftarrow> page_map_out_loop (nat pages) dir start st;
     Some (0, st)
   }"

fun page_copy_out_loop :: "nat \<Rightarrow> u32 \<Rightarrow> u32 \<Rightarrow> u32 \<Rightarrow> pgmem \<Rightarrow> pgmem" where
  "page_copy_out_loop 0 dir dest src st = st"
| "page_copy_out_loop (Suc n) dir dest src st =
     page_copy_out_loop n dir (dest + 1) (src + 1)
       (st\<lparr>pg_bytes := (pg_bytes st)(dest := pg_bytes st (page_entry st dir src + src mod of_nat PAGE_SIZE))\<rparr>)"

definition page_copy_out :: "pgmem \<Rightarrow> u32 \<Rightarrow> u32 \<Rightarrow> u32 \<Rightarrow> int \<Rightarrow> int \<times> pgmem" where
  "page_copy_out st dir dest src bytes = (bytes, page_copy_out_loop (nat bytes) dir dest src st)"

fun page_copy_in_loop :: "nat \<Rightarrow> u32 \<Rightarrow> u32 \<Rightarrow> u32 \<Rightarrow> pgmem \<Rightarrow> pgmem" where
  "page_copy_in_loop 0 dir dest src st = st"
| "page_copy_in_loop (Suc n) dir dest src st =
     page_copy_in_loop n dir (dest + 1) (src + 1)
       (st\<lparr>pg_bytes := (pg_bytes st)(page_entry st dir dest + dest mod of_nat PAGE_SIZE := pg_bytes st src)\<rparr>)"

definition page_copy_in :: "pgmem \<Rightarrow> u32 \<Rightarrow> u32 \<Rightarrow> u32 \<Rightarrow> int \<Rightarrow> int \<times> pgmem" where
  "page_copy_in st dir dest src bytes = (bytes, page_copy_in_loop (nat bytes) dir dest src st)"

definition page_data_get :: "pgmem \<Rightarrow> u32 \<Rightarrow> u32 \<Rightarrow> u32" where
  "page_data_get st cr3 address =
     (if pde st cr3 address AND PAGE_PRESENT \<noteq> PAGE_PRESENT then -1
      else if pde st cr3 address AND PAGE_4MB \<noteq> 0
      then pg_mem st ((pde st cr3 address AND NOT (1024 * 4096 - 1)) + (address AND (1024 * 4096 - 1)))
      else if pte st cr3 address AND PAGE_PRESENT \<noteq> PAGE_PRESENT then -1
      else pg_mem st (page_entry st cr3 address + (address AND (of_nat PAGE_SIZE - 1))))"

subsection \<open>Directories\<close>

definition identity_entry :: "nat \<Rightarrow> u32" where
  "identity_entry i = of_nat (i * 4096 * 1024) OR PAGE_4MB OR PAGE_RDWR OR PAGE_PRESENT OR PAGE_GLOBAL"

text \<open>The three loops of \<open>new_page_directory\<close>, and the one of \<open>init_paging\<close>.\<close>

fun fill_entries :: "(nat \<Rightarrow> u32) \<Rightarrow> nat \<Rightarrow> nat \<Rightarrow> u32 \<Rightarrow> (u32 \<Rightarrow> u32) \<Rightarrow> (u32 \<Rightarrow> u32)" where
  "fill_entries f 0 i map_addr m = m"
| "fill_entries f (Suc n) i map_addr m = fill_entries f n (Suc i) map_addr (m(map_addr + 4 * of_nat i := f i))"

definition init_paging :: "u32 \<Rightarrow> pgmem \<Rightarrow> pgmem" where
  "init_paging page_directory st = st\<lparr>pg_mem := fill_entries identity_entry 1024 0 page_directory (pg_mem st)\<rparr>"

definition new_page_directory :: "pgmem \<Rightarrow> (u32 \<times> pgmem) option" where
  "new_page_directory st = do {
     (map_addr, ph) \<leftarrow> memory_alloc (pg_phys st) 1;
     let m = fill_entries identity_entry 512 0 map_addr (pg_mem st);
     let m = fill_entries (\<lambda>_. 0) 504 512 map_addr m;
     let m = fill_entries identity_entry 8 1016 map_addr m;
     Some (map_addr, st\<lparr>pg_phys := ph, pg_mem := m\<rparr>)
   }"

text \<open>The two loops of \<open>delete_page_directory\<close>; \<open>position = i * PAGE_SIZE\<close>.\<close>

fun delete_entries :: "nat \<Rightarrow> nat \<Rightarrow> u32 \<Rightarrow> pgmem \<Rightarrow> pgmem option" where
  "delete_entries 0 i dir st = Some st"
| "delete_entries (Suc n) i dir st =
     (let position = of_nat (i * PAGE_SIZE) in
      if page_table_present st dir position \<noteq> 0 then delete_entries n (Suc i) dir st
      else if page_entry_present st dir position \<noteq> 0 then delete_entries n (Suc i) dir st
      else let page = page_entry st dir position; st = set_pte dir position 0 st
        in do { ph \<leftarrow> memory_free (pg_phys st) 1 page; delete_entries n (Suc i) dir (st\<lparr>pg_phys := ph\<rparr>) })"

fun delete_tables :: "nat \<Rightarrow> nat \<Rightarrow> u32 \<Rightarrow> pgmem \<Rightarrow> pgmem option" where
  "delete_tables 0 i dir st = Some st"
| "delete_tables (Suc n) i dir st =
     (let position = of_nat (i * PAGE_SIZE) in
      if page_table_present st dir position \<noteq> 0 then delete_tables n (Suc i) dir st
      else let table = page_table st dir position;
               st = st\<lparr>pg_mem := (pg_mem st)(dir + 4 * page_table_of position := 0)\<rparr>
        in do { ph \<leftarrow> memory_free (pg_phys st) 1 table; delete_tables n (Suc i) dir (st\<lparr>pg_phys := ph\<rparr>) })"

definition delete_page_directory :: "pgmem \<Rightarrow> u32 \<Rightarrow> pgmem option" where
  "delete_page_directory st dir = do {
     assert (pg_cr3 st \<noteq> dir);
     st \<leftarrow> delete_entries 504 512 dir st;
     st \<leftarrow> delete_tables 504 512 dir st;
     ph \<leftarrow> memory_free (pg_phys st) 1 dir;
     Some (st\<lparr>pg_phys := ph\<rparr>)
   }"

subsection \<open>Addresses as numbers\<close>

definition vpage :: "u32 \<Rightarrow> nat" where "vpage a = unat a div PAGE_SIZE"

definition aligned :: "u32 \<Rightarrow> bool" where "aligned a \<longleftrightarrow> unat a mod PAGE_SIZE = 0"

lemma low_mask: "(0xFFF :: u32) = mask 12" "(0x3FF :: u32) = mask 10"
  by (simp_all add: mask_eq_exp_minus_1)

lemma u32_lt: "unat (a :: u32) < 4294967296"
proof -
  have "unat a < 2 ^ LENGTH(32)" by (rule unsigned_less)
  then show ?thesis by simp
qed

lemma unat_frame_of: "unat (frame_of w) = vpage w * PAGE_SIZE"
proof -
  have "frame_of w = push_bit 12 (drop_bit 12 w)"
    by (rule bit_eqI) (auto simp: frame_of_def low_mask(1) bit_and_iff bit_not_iff bit_mask_iff bit_push_bit_iff bit_drop_bit_eq)
  moreover have "unat (drop_bit 12 w) = unat w div 4096"
    by (simp add: drop_bit_eq_div unat_div)
  moreover have "unat w div 4096 * 4096 < 2 ^ 32"
    using u32_lt [of w] by (simp add: order.strict_trans1 [OF div_times_less_eq_dividend])
  ultimately show ?thesis
    by (simp add: vpage_def PAGE_SIZE_def push_bit_eq_mult unat_word_ariths)
qed

lemma aligned_frame_of [simp]: "aligned (frame_of w)"
  by (simp add: aligned_def unat_frame_of)

lemma vpage_frame_of: "vpage (frame_of w) = vpage w"
  unfolding vpage_def [of "frame_of w"] unat_frame_of by (simp add: PAGE_SIZE_def)

lemma frame_of_aligned: "aligned a \<Longrightarrow> frame_of a = a"
  by (simp add: word_unat_eq_iff unat_frame_of vpage_def aligned_def mod_0_imp_dvd)

lemma frame_of_or: "frame_of (a OR b) = frame_of a OR frame_of b"
  by (simp add: frame_of_def bit.conj_disj_distrib2)

lemma frame_of_small: "unat w < PAGE_SIZE \<Longrightarrow> frame_of w = 0"
  by (simp add: word_unat_eq_iff unat_frame_of vpage_def)

lemma unat_low10: "unat (w AND (0x3FF :: u32)) = unat w mod 1024"
  unfolding low_mask(2) take_bit_eq_mask [symmetric]
  by (simp add: take_bit_eq_mod unat_mod)

lemma unat_field: "unat (drop_bit 22 a AND (0x3FF :: u32)) = unat a div 4194304 mod 1024"
  "unat (drop_bit 12 a AND (0x3FF :: u32)) = unat a div 4096 mod 1024"
  unfolding unat_low10 by (simp_all add: drop_bit_eq_div unat_div)

lemma page_table_of_nat: "page_table_of a = of_nat (vpage a div 1024)"
proof -
  have "unat a div 4194304 mod 1024 = unat a div 4096 div 1024"
    using u32_lt [of a] by (simp add: div_mult2_eq [symmetric] less_mult_imp_div_less)
  then have "unat (page_table_of a) = vpage a div 1024"
    by (simp add: page_table_of_def unat_field vpage_def PAGE_SIZE_def)
  then show ?thesis by (metis of_nat_unat ucast_id)
qed

lemma page_entry_of_nat: "page_entry_of a = of_nat (vpage a mod 1024)"
proof -
  have "unat (page_entry_of a) = vpage a mod 1024"
    by (simp add: page_entry_of_def unat_field vpage_def PAGE_SIZE_def)
  then show ?thesis by (metis of_nat_unat ucast_id)
qed

text \<open>Word \<open>e\<close> of the frame at \<open>t\<close>. Different words of different frames are different cells.\<close>

definition cell :: "u32 \<Rightarrow> nat \<Rightarrow> u32" where "cell t e = t + 4 * of_nat e"

lemma alignedE:
  assumes "aligned t"
  shows "unat t = vpage t * 4096" "vpage t < 1048576"
proof -
  have "unat t mod 4096 = 0" "vpage t = unat t div 4096" using assms by (simp_all add: aligned_def vpage_def PAGE_SIZE_def)
  then show u: "unat t = vpage t * 4096" using div_mult_mod_eq [of "unat t" 4096] by simp
  have "vpage t * 4096 < 4294967296" using u32_lt [of t] u by simp
  then show "vpage t < 1048576" by simp
qed

lemma unat_cell:
  assumes "aligned t" "e < 1024"
  shows "unat (cell t e) = vpage t * 4096 + 4 * e" "unat (cell t e) div PAGE_SIZE = vpage t"
proof -
  have e: "unat (4 * of_nat e :: u32) = 4 * e"
    using assms(2) by (simp add: unat_word_ariths unsigned_of_nat take_bit_nat_eq_self)
  have "vpage t * 4096 + 4 * e < 4294967296" using alignedE(2) [OF assms(1)] assms(2) by simp
  then show u: "unat (cell t e) = vpage t * 4096 + 4 * e"
    unfolding cell_def unat_word_ariths(1) e alignedE(1) [OF assms(1)] by simp
  show "unat (cell t e) div PAGE_SIZE = vpage t"
    unfolding u using assms(2) by (simp add: PAGE_SIZE_def)
qed

lemma aligned_eq_iff: "aligned t \<Longrightarrow> aligned u \<Longrightarrow> t = u \<longleftrightarrow> vpage t = vpage u"
  by (metis alignedE(1) word_unat_eq_iff)

lemma cell_inj:
  assumes "aligned t" "aligned u" "e < 1024" "f < 1024"
  shows "cell t e = cell u f \<longleftrightarrow> t = u \<and> e = f"
proof
  assume c: "cell t e = cell u f"
  then have "vpage t = vpage u" using unat_cell(2) [OF assms(1,3)] unat_cell(2) [OF assms(2,4)] by simp
  then show "t = u \<and> e = f"
    using aligned_eq_iff [OF assms(1,2)] arg_cong [OF c, of unat]
    unfolding unat_cell(1) [OF assms(1,3)] unat_cell(1) [OF assms(2,4)] by simp
qed simp

definition present :: "u32 \<Rightarrow> bool" where "present w \<longleftrightarrow> w AND PAGE_PRESENT = PAGE_PRESENT"

lemma present_bit: "present w \<longleftrightarrow> bit w 0"
  by (simp add: present_def PAGE_PRESENT_def and_one_eq one_and_eq flip: odd_iff_mod_2_eq_one bit_0)

lemma present_or [simp]: "present (a OR f OR PAGE_PRESENT)"
  by (simp add: present_bit bit_or_iff PAGE_PRESENT_def)

lemma present_0 [simp]: "\<not> present 0"
  by (simp add: present_bit)

lemma pde_cell: "pde st dir a = pg_mem st (cell dir (vpage a div 1024))"
  by (simp add: pde_def cell_def page_table_of_nat)

lemma pte_cell: "pte st dir a = pg_mem st (cell (frame_of (pde st dir a)) (vpage a mod 1024))"
  by (simp add: pte_def page_table_def cell_def page_entry_of_nat)

lemma page_table_present_iff: "page_table_present st dir a = 0 \<longleftrightarrow> present (pde st dir a)"
  by (simp add: page_table_present_def present_def)

lemma page_entry_present_iff: "page_entry_present st dir a = 0 \<longleftrightarrow> present (pde st dir a) \<and> present (pte st dir a)"
  by (simp add: page_entry_present_def present_def)

subsection \<open>Translation and invariant\<close>

text \<open>The entry that translates page \<open>v\<close>, if the page is mapped.\<close>

definition tabs :: "pgmem \<Rightarrow> u32 \<Rightarrow> nat \<Rightarrow> u32" where
  "tabs st dir i = pg_mem st (cell dir i)"

definition xlat :: "pgmem \<Rightarrow> u32 \<Rightarrow> nat \<Rightarrow> u32 option" where
  "xlat st dir v =
     (let t = tabs st dir (v div 1024); e = pg_mem st (cell (frame_of t) (v mod 1024))
      in if present t \<and> present e then Some e else None)"

lemma xlat_entry: "page_entry_present st dir a = 0 \<longleftrightarrow> xlat st dir (vpage a) \<noteq> None"
  by (simp add: page_entry_present_iff xlat_def Let_def pte_cell pde_cell tabs_def)

definition owned :: "pgmem \<Rightarrow> u32 \<Rightarrow> bool" where
  "owned st t \<longleftrightarrow> aligned t \<and> vpage t < MAXMAP \<and> ISSET (pg_phys st) (vpage t)"

definition user_index :: "nat \<Rightarrow> bool" where "user_index i \<longleftrightarrow> 512 \<le> i \<and> i < 1016"

definition user_page :: "nat \<Rightarrow> bool" where "user_page v \<longleftrightarrow> 512 * 1024 \<le> v \<and> v < 1016 * 1024"

text \<open>
  The directory and the tables of its user part are frames in use, all different, and page 0
  is in use (so that an allocation that succeeds is not taken for NULL).
\<close>

definition pt_inv :: "pgmem \<Rightarrow> u32 \<Rightarrow> bool" where
  "pt_inv st dir \<longleftrightarrow> owned st dir \<and> ISSET (pg_phys st) 0 \<and>
     (\<forall>i. user_index i \<and> present (tabs st dir i) \<longrightarrow> owned st (frame_of (tabs st dir i)) \<and> frame_of (tabs st dir i) \<noteq> dir) \<and>
     (\<forall>i j. user_index i \<and> user_index j \<and> i \<noteq> j \<and> present (tabs st dir i) \<and> present (tabs st dir j) \<longrightarrow>
        frame_of (tabs st dir i) \<noteq> frame_of (tabs st dir j))"

lemma user_page_index: "user_page v \<Longrightarrow> user_index (v div 1024)"
  by (auto simp: user_page_def user_index_def less_mult_imp_div_less)

lemma user_index_small: "user_index i \<Longrightarrow> i < 1024" by (simp add: user_index_def)

lemma pt_invD:
  assumes "pt_inv st dir"
  shows "owned st dir" "aligned dir" "ISSET (pg_phys st) 0"
    "user_index i \<Longrightarrow> present (tabs st dir i) \<Longrightarrow> owned st (frame_of (tabs st dir i)) \<and> frame_of (tabs st dir i) \<noteq> dir"
    "user_index i \<Longrightarrow> user_index j \<Longrightarrow> present (tabs st dir i) \<Longrightarrow> present (tabs st dir j) \<Longrightarrow>
       frame_of (tabs st dir i) = frame_of (tabs st dir j) \<longleftrightarrow> i = j"
  using assms unfolding pt_inv_def owned_def by blast+

lemma pt_inv_same:
  assumes "pt_inv st dir" "\<And>i. user_index i \<Longrightarrow> tabs st' dir i = tabs st dir i"
    "\<And>p. ISSET (pg_phys st) p \<Longrightarrow> ISSET (pg_phys st') p"
  shows "pt_inv st' dir"
proof -
  have o: "owned st x \<Longrightarrow> owned st' x" for x using assms(3) by (simp add: owned_def)
  show ?thesis
    unfolding pt_inv_def
  proof (intro conjI allI impI)
    show "owned st' dir" "ISSET (pg_phys st') 0" using pt_invD(1,3) [OF assms(1)] o assms(3) by blast+
    show "owned st' (frame_of (tabs st' dir i))" "frame_of (tabs st' dir i) \<noteq> dir"
      if "user_index i \<and> present (tabs st' dir i)" for i
      using that assms(2) pt_invD(4) [OF assms(1), of i] o by auto
    show "frame_of (tabs st' dir i) \<noteq> frame_of (tabs st' dir j)"
      if "user_index i \<and> user_index j \<and> i \<noteq> j \<and> present (tabs st' dir i) \<and> present (tabs st' dir j)" for i j
      using that assms(2) pt_invD(5) [OF assms(1), of i j] by auto
  qed
qed

subsection \<open>Writing an entry\<close>

lemma set_pte_cell:
  "set_pte dir a w st = st\<lparr>pg_mem := (pg_mem st)(cell (frame_of (tabs st dir (vpage a div 1024))) (vpage a mod 1024) := w)\<rparr>"
  by (simp add: set_pte_def page_table_def pde_cell tabs_def page_entry_of_nat) (simp add: cell_def)

lemma set_pte_ok:
  assumes inv: "pt_inv st dir" and a: "user_page (vpage a)" and pr: "present (pde st dir a)"
  shows "pt_inv (set_pte dir a w st) dir" "pg_phys (set_pte dir a w st) = pg_phys st"
    "pde (set_pte dir a w st) dir a = pde st dir a"
    "user_page v \<Longrightarrow> xlat (set_pte dir a w st) dir v =
       (if v = vpage a then (if present w then Some w else None) else xlat st dir v)"
    "user_index i \<Longrightarrow> tabs (set_pte dir a w st) dir i = tabs st dir i"
proof -
  let ?i = "vpage a div 1024" and ?s = "set_pte dir a w st"
  let ?t = "frame_of (tabs st dir ?i)"
  have ui: "user_index ?i" by (rule user_page_index [OF a])
  have pi: "present (tabs st dir ?i)" using pr by (simp add: pde_cell tabs_def)
  have t: "aligned ?t" "?t \<noteq> dir" using pt_invD(4) [OF inv ui pi] by (auto simp: owned_def)
  have d: "aligned dir" by (rule pt_invD(2) [OF inv])
  have tab: "tabs ?s dir i = tabs st dir i" if "i < 1024" for i
    using cell_inj [OF d t(1), of i "vpage a mod 1024"] that t(2) by (simp add: set_pte_cell tabs_def)
  show "pg_phys ?s = pg_phys st" by (simp add: set_pte_cell)
  show "pde ?s dir a = pde st dir a" using tab [of ?i] user_index_small [OF ui] by (simp add: pde_cell tabs_def)
  have tabu: "user_index i \<Longrightarrow> tabs ?s dir i = tabs st dir i" for i using tab user_index_small by blast
  then show "user_index i \<Longrightarrow> tabs ?s dir i = tabs st dir i" .
  show "pt_inv ?s dir"
    by (rule pt_inv_same [OF inv tabu]) (simp_all add: set_pte_cell)
  show "xlat ?s dir v = (if v = vpage a then (if present w then Some w else None) else xlat st dir v)" if v: "user_page v"
  proof -
    have uv: "user_index (v div 1024)" by (rule user_page_index [OF v])
    have same: "v = vpage a \<longleftrightarrow> v div 1024 = ?i \<and> v mod 1024 = vpage a mod 1024" by (metis div_mult_mod_eq)
    show ?thesis
    proof (cases "present (tabs st dir (v div 1024))")
      case True
      have "aligned (frame_of (tabs st dir (v div 1024)))" by simp
      then have "cell (frame_of (tabs st dir (v div 1024))) (v mod 1024) = cell ?t (vpage a mod 1024) \<longleftrightarrow> v = vpage a"
        using cell_inj [OF _ t(1), of _ "v mod 1024" "vpage a mod 1024"] pt_invD(5) [OF inv uv ui True pi] same by simp
      then show ?thesis using True by (simp add: xlat_def tabu [OF uv] Let_def) (simp add: set_pte_cell)
    next
      case False
      then show ?thesis using pi same by (auto simp: xlat_def tabu [OF uv] Let_def)
    qed
  qed
qed

subsection \<open>Taking one frame\<close>

definition free_set :: "physmem \<Rightarrow> nat set" where
  "free_set ph = {p. p < MAXMAP \<and> \<not> ISSET ph p}"

text \<open>\<open>n\<close> single frames can be allocated.\<close>

definition avail :: "physmem \<Rightarrow> nat \<Rightarrow> bool" where
  "avail ph n \<longleftrightarrow> int n < s_freePages ph \<and> n \<le> card (free_set ph)"

lemma free_set_finite [simp]: "finite (free_set ph)"
  by (rule finite_subset [of _ "{..<MAXMAP}"]) (auto simp: free_set_def)

lemma alloc_scan_one:
  assumes "alloc_scan s 1 i = None" "i \<le> j" "j < MAXMAP"
  shows "ISSET s ((j + s_lastPage s) mod MAXMAP)"
  using assms(1,2)
proof (induction "MAXMAP - i" arbitrary: i rule: less_induct)
  case less
  let ?pos = "(i + s_lastPage s) mod MAXMAP"
  have i: "i < MAXMAP" using less(3) assms(3) by simp
  have le: "\<not> MAXMAP < Suc ?pos" using mod_less_divisor [of MAXMAP "i + s_lastPage s"] by (simp add: MAXMAP_def)
  moreover have f: "arr_find (\<lambda>j. ISSET s (?pos + j)) 1 0 = (if ISSET s ?pos then 0 else 1)"
    by (subst arr_find.simps) (simp add: arr_find.simps)
  ultimately have "ISSET s ?pos" "alloc_scan s 1 (Suc i) = None"
    using less(2) i by (auto simp: alloc_scan.simps [of s "Suc 0" i] Let_def split: if_splits)
  then show ?case using less(1) [of "Suc i"] less(3) i by (cases "i = j") auto
qed

lemma alloc_scan_one_finds:
  assumes "free_set s \<noteq> {}"
  shows "alloc_scan s 1 0 \<noteq> None"
proof
  assume n: "alloc_scan s 1 0 = None"
  obtain p where p: "p < MAXMAP" "\<not> ISSET s p" using assms by (auto simp: free_set_def)
  let ?l = "s_lastPage s mod MAXMAP"
  let ?j = "(p + (MAXMAP - ?l)) mod MAXMAP"
  have M: "0 < MAXMAP" by (simp add: MAXMAP_def)
  have l: "?l < MAXMAP" using M by simp
  have "(?j + s_lastPage s) mod MAXMAP = (p + (MAXMAP - ?l) + ?l) mod MAXMAP"
    by (simp only: mod_add_left_eq mod_add_right_eq)
  also have "\<dots> = (p + MAXMAP) mod MAXMAP" using l by simp
  also have "\<dots> = p" using p(1) by simp
  finally show False using alloc_scan_one [OF n, of ?j] M p(2) by simp
qed

lemma memory_alloc_one:
  assumes "avail ph (Suc n)" "ISSET ph 0"
  obtains a ph' where "memory_alloc ph 1 = Some (a, ph')" "a \<noteq> 0" "aligned a" "vpage a < MAXMAP" "\<not> ISSET ph (vpage a)"
    "\<And>p. ISSET ph' p \<longleftrightarrow> ISSET ph p \<or> p = vpage a" "avail ph' n"
proof -
  have "free_set ph \<noteq> {}" using assms(1) by (auto simp: avail_def)
  then obtain b where b: "alloc_scan ph (nat 1) 0 = Some b" using alloc_scan_one_finds [of ph] by auto
  have fr: "1 < s_freePages ph" using assms(1) by (simp add: avail_def)
  obtain ph' where ph': "memory_multiple_alloc ph (nat 1) = (of_nat (b * PAGE_SIZE), ph')" "took ph b (nat 1) ph'"
    using memory_multiple_alloc_took [OF b] by blast
  have al: "memory_alloc ph 1 = Some (of_nat (b * PAGE_SIZE), ph')" using fr ph'(1) by (simp add: memory_alloc_def)
  have t: "b < MAXMAP" "\<not> ISSET ph b" "\<And>p. ISSET ph' p \<longleftrightarrow> ISSET ph p \<or> p = b" "s_freePages ph' = s_freePages ph - 1"
    using ph'(2) by (auto simp: took_def)
  have u: "unat (of_nat (b * PAGE_SIZE) :: u32) = b * PAGE_SIZE" by (rule page_addr [OF t(1)])
  have v: "vpage (of_nat (b * PAGE_SIZE)) = b" "aligned (of_nat (b * PAGE_SIZE))"
    unfolding vpage_def aligned_def u by (simp_all add: PAGE_SIZE_def)
  have "b \<noteq> 0" using t(2) assms(2) by metis
  then have nz: "of_nat (b * PAGE_SIZE) \<noteq> (0 :: u32)" using v(1) by (auto simp: vpage_def)
  have "free_set ph' = free_set ph - {b}" "b \<in> free_set ph" using t by (auto simp: free_set_def)
  then have "card (free_set ph') = card (free_set ph) - 1" by simp
  moreover have "int (Suc n) < s_freePages ph" "Suc n \<le> card (free_set ph)" using assms(1) by (simp_all add: avail_def)
  ultimately have "avail ph' n" using t(4) unfolding avail_def by linarith
  with al nz v t show thesis by (intro that [of "of_nat (b * PAGE_SIZE)" ph']) simp_all
qed

subsection \<open>Tables on demand\<close>

lemma clear_words_at:
  "clear_words n j t m a = (if \<exists>i. j \<le> i \<and> i < j + n \<and> a = t + 4 * of_nat i then 0 else m a)"
proof (induction n j t m rule: clear_words.induct)
  case (2 n j t m)
  have "(\<exists>i. j \<le> i \<and> i < j + Suc n \<and> Q i) \<longleftrightarrow> Q j \<or> (\<exists>i. Suc j \<le> i \<and> i < Suc j + n \<and> Q i)" for Q
    by (metis Suc_leD Suc_le_eq add_Suc_right add_Suc add_less_cancel_left le_add1 le_eq_less_or_eq less_Suc_eq_le zero_less_Suc)
  from this [of "\<lambda>i. a = t + 4 * of_nat i"] show ?case
    unfolding clear_words.simps 2 by auto
qed auto

lemma clear_words_cell:
  assumes "aligned t" "aligned u" "e < 1024"
  shows "clear_words 1024 0 t m (cell u e) = (if u = t then 0 else m (cell u e))"
  unfolding clear_words_at using cell_inj [OF assms(2,1,3)] assms(3) unfolding cell_def by (metis add.left_neutral le0)

definition flags_ok :: "u32 \<Rightarrow> bool" where "flags_ok f \<longleftrightarrow> frame_of f = 0"

lemma convert_flags_ok [simp]: "flags_ok (convert_paging_types f)"
  by (simp add: flags_ok_def convert_paging_types_def Let_def frame_of_or PAGE_RDWR_def PAGE_USER_def frame_of_small PAGE_SIZE_def)

lemma frame_of_entry: "aligned a \<Longrightarrow> flags_ok f \<Longrightarrow> frame_of (a OR f OR PAGE_PRESENT) = a"
  by (simp add: frame_of_or frame_of_aligned flags_ok_def PAGE_PRESENT_def frame_of_small PAGE_SIZE_def)

text \<open>
  What a mapping function does to the frames: those it takes were free, and become tables.
\<close>

definition tframes :: "pgmem \<Rightarrow> u32 \<Rightarrow> nat set" where
  "tframes st dir = {vpage (frame_of (tabs st dir i)) | i. user_index i \<and> present (tabs st dir i)}"

definition grow :: "u32 \<Rightarrow> pgmem \<Rightarrow> pgmem \<Rightarrow> bool" where
  "grow dir st st' \<longleftrightarrow> (\<forall>p. ISSET (pg_phys st) p \<longrightarrow> ISSET (pg_phys st') p) \<and>
     (\<forall>p. ISSET (pg_phys st') p \<longrightarrow> ISSET (pg_phys st) p \<or> p \<in> tframes st' dir) \<and>
     tframes st dir \<subseteq> tframes st' dir \<and>
     (\<forall>p\<in>tframes st' dir. p \<in> tframes st dir \<or> \<not> ISSET (pg_phys st) p)"

lemma grow_refl [simp]: "grow dir st st" by (simp add: grow_def)

lemma tframes_same:
  assumes "\<And>i. user_index i \<Longrightarrow> tabs st' dir i = tabs st dir i"
  shows "tframes st' dir = tframes st dir"
  unfolding tframes_def using assms by (metis (no_types, lifting))

lemma grow_same:
  assumes "\<And>i. user_index i \<Longrightarrow> tabs st' dir i = tabs st dir i" "pg_phys st' = pg_phys st"
  shows "grow dir st st'"
  using tframes_same [OF assms(1)] by (simp add: grow_def assms(2))

lemma grow_then: "grow dir a b \<Longrightarrow> grow dir b c \<Longrightarrow> grow dir a c"
  unfolding grow_def by blast

text \<open>What the creation of a table leaves: every translation of the user part.\<close>

definition table_step :: "u32 \<Rightarrow> pgmem \<Rightarrow> pgmem \<Rightarrow> bool" where
  "table_step dir st st' \<longleftrightarrow> pt_inv st' dir \<and> grow dir st st' \<and>
     (\<forall>v. user_page v \<longrightarrow> xlat st' dir v = xlat st dir v)"

lemma ensure_table_ok:
  assumes inv: "pt_inv st dir" and a: "user_page (vpage a)" and av: "avail (pg_phys st) (Suc n)" and fl: "flags_ok f"
  shows "\<exists>st'. ensure_table dir a f st = Some st' \<and> table_step dir st st' \<and> present (pde st' dir a) \<and> avail (pg_phys st') n"
proof (cases "present (pde st dir a)")
  case True
  then have "page_table_present st dir a = 0" by (simp add: page_table_present_iff)
  moreover have "avail (pg_phys st) n" using av by (simp add: avail_def)
  ultimately show ?thesis using inv True by (auto simp: ensure_table_def table_step_def)
next
  case False
  let ?i = "vpage a div 1024"
  have ui: "user_index ?i" by (rule user_page_index [OF a])
  obtain t ph where t: "memory_alloc (pg_phys st) 1 = Some (t, ph)" "aligned t" "vpage t < MAXMAP" "\<not> ISSET (pg_phys st) (vpage t)"
    and iss: "\<And>p. ISSET ph p \<longleftrightarrow> ISSET (pg_phys st) p \<or> p = vpage t" and av': "avail ph n"
    using memory_alloc_one [OF av pt_invD(3) [OF inv]] by metis
  define st' where "st' = st\<lparr>pg_phys := ph, pg_mem := (clear_words 1024 0 t (pg_mem st))(cell dir ?i := t OR f OR PAGE_PRESENT)\<rparr>"
  have d: "aligned dir" by (rule pt_invD(2) [OF inv])
  have fresh: "owned st x \<Longrightarrow> x \<noteq> t" for x using t(4) by (auto simp: owned_def)
  have td: "t \<noteq> dir" using fresh pt_invD(1) [OF inv] by blast
  have np: "\<not> present (tabs st dir ?i)" using False by (simp add: pde_cell tabs_def)
  have tab: "tabs st' dir i = (if i = ?i then t OR f OR PAGE_PRESENT else tabs st dir i)" if "user_index i" for i
    using cell_inj [OF d d, of i ?i] clear_words_cell [OF t(2) d, of i "pg_mem st"] td
      user_index_small [OF that] user_index_small [OF ui] by (simp add: tabs_def st'_def)
  have fr: "frame_of (tabs st' dir i) = (if i = ?i then t else frame_of (tabs st dir i))" if "user_index i" for i
    using tab [OF that] frame_of_entry [OF t(2) fl] by simp
  have old: "owned st (frame_of (tabs st dir i))" "frame_of (tabs st dir i) \<noteq> dir" "frame_of (tabs st dir i) \<noteq> t"
    if "user_index i" "present (tabs st dir i)" for i
    using pt_invD(4) [OF inv that] fresh by auto
  have ow: "owned st x \<Longrightarrow> owned st' x" for x by (simp add: owned_def st'_def iss)
  have ot: "owned st' t" using t(2,3) by (simp add: owned_def st'_def iss)
  have inv': "pt_inv st' dir"
    unfolding pt_inv_def
  proof (intro conjI allI impI)
    show "owned st' dir" "ISSET (pg_phys st') 0" using pt_invD(1,3) [OF inv] ow by (auto simp: st'_def iss)
    show "owned st' (frame_of (tabs st' dir i))" "frame_of (tabs st' dir i) \<noteq> dir"
      if h: "user_index i \<and> present (tabs st' dir i)" for i
      using h fr [of i] tab [of i] old(1,2) [of i] ow ot td by (auto split: if_splits)
    show "frame_of (tabs st' dir i) \<noteq> frame_of (tabs st' dir j)"
      if h: "user_index i \<and> user_index j \<and> i \<noteq> j \<and> present (tabs st' dir i) \<and> present (tabs st' dir j)" for i j
      using h fr [of i] fr [of j] tab [of i] tab [of j] old(3) [of i] old(3) [of j] pt_invD(5) [OF inv, of i j]
      by (auto split: if_splits)
  qed
  have tr: "xlat st' dir v = xlat st dir v" if v: "user_page v" for v
  proof -
    have uv: "user_index (v div 1024)" by (rule user_page_index [OF v])
    have mem: "pg_mem st' (cell x e) = (if x = t then 0 else pg_mem st (cell x e))" if "aligned x" "x \<noteq> dir" "e < 1024" for x e
      using cell_inj [OF that(1) d that(3), of ?i] clear_words_cell [OF t(2) that(1,3), of "pg_mem st"] that(2)
        user_index_small [OF ui] by (simp add: st'_def)
    show ?thesis
    proof (cases "v div 1024 = ?i")
      case True
      then show ?thesis using np td mem [OF t(2) td, of "v mod 1024"] frame_of_entry [OF t(2) fl] tab [OF ui] by (simp add: xlat_def Let_def)
    next
      case ne: False
      show ?thesis
      proof (cases "present (tabs st dir (v div 1024))")
        case True
        then show ?thesis
          using ne old [OF uv True] mem [of "frame_of (tabs st dir (v div 1024))" "v mod 1024"]
          by (simp add: xlat_def Let_def tab [OF uv])
      qed (use ne in \<open>simp add: xlat_def Let_def tab [OF uv]\<close>)
    qed
  qed
  have "ensure_table dir a f st = Some st'"
    using False t(1) by (simp add: ensure_table_def page_table_present_iff st'_def Let_def page_table_of_nat cell_def)
  moreover have "present (pde st' dir a)" using tab [OF ui] by (simp add: pde_cell tabs_def)
  moreover have tf: "tframes st' dir = insert (vpage t) (tframes st dir)"
  proof (intro set_eqI iffI)
    fix p assume "p \<in> tframes st' dir"
    then obtain i where "user_index i" "present (tabs st' dir i)" "p = vpage (frame_of (tabs st' dir i))" by (auto simp: tframes_def)
    then show "p \<in> insert (vpage t) (tframes st dir)"
      using fr [of i] tab [of i] unfolding tframes_def by (cases "i = ?i") auto
  next
    fix p assume "p \<in> insert (vpage t) (tframes st dir)"
    then consider "p = vpage t" | i where "user_index i" "present (tabs st dir i)" "p = vpage (frame_of (tabs st dir i))"
      by (auto simp: tframes_def)
    then show "p \<in> tframes st' dir"
    proof cases
      case 1
      then show ?thesis using ui fr [OF ui] tab [OF ui] unfolding tframes_def by (intro CollectI exI [of _ ?i]) simp
    next
      case 2
      then show ?thesis using np fr [of i] tab [of i] unfolding tframes_def by (intro CollectI exI [of _ i]) auto
    qed
  qed
  moreover have "grow dir st st'" using t(4) unfolding grow_def tf by (auto simp: st'_def iss)
  then have "table_step dir st st'" using inv' tr by (auto simp: table_step_def)
  ultimately show ?thesis using av' by (auto simp: st'_def)
qed

subsection \<open>Mapping and releasing a run\<close>

lemma next_page:
  assumes "aligned a" "vpage a < 1048575"
  shows "aligned (a + of_nat PAGE_SIZE)" "vpage (a + of_nat PAGE_SIZE) = Suc (vpage a)"
proof -
  have "unat (a + of_nat PAGE_SIZE) = Suc (vpage a) * 4096"
    using alignedE [OF assms(1)] assms(2) by (simp add: unat_word_ariths PAGE_SIZE_def)
  then show "aligned (a + of_nat PAGE_SIZE)" "vpage (a + of_nat PAGE_SIZE) = Suc (vpage a)"
    by (simp_all add: aligned_def vpage_def PAGE_SIZE_def)
qed

text \<open>The pages from \<open>v\<close> on, \<open>n\<close> of them, all in the user part.\<close>

definition user_run :: "u32 \<Rightarrow> nat \<Rightarrow> bool" where
  "user_run a n \<longleftrightarrow> aligned a \<and> 512 * 1024 \<le> vpage a \<and> vpage a + n \<le> 1016 * 1024"

lemma user_run_Suc:
  assumes "user_run a (Suc n)"
  shows "user_page (vpage a)" "user_run (a + of_nat PAGE_SIZE) n" "vpage (a + of_nat PAGE_SIZE) = Suc (vpage a)"
  using assms next_page [of a] by (auto simp: user_run_def user_page_def)

lemma direct_map_loop_ok:
  assumes "pt_inv st dir" "user_run index n" "avail (pg_phys st) n" "flags_ok f"
  shows "\<exists>st'. direct_map_loop n dir phys index f st = Some st' \<and> pt_inv st' dir \<and> grow dir st st' \<and>
    (\<forall>v. user_page v \<longrightarrow> xlat st' dir v = (if vpage index \<le> v \<and> v < vpage index + n
       then Some ((phys + of_nat (v - vpage index) * of_nat PAGE_SIZE) OR f OR PAGE_PRESENT) else xlat st dir v))"
  using assms(1-3)
proof (induction n arbitrary: st index phys)
  case (Suc n)
  note u = user_run_Suc [OF Suc(3)]
  obtain st1 where st1: "ensure_table dir index f st = Some st1" "table_step dir st st1" "present (pde st1 dir index)" "avail (pg_phys st1) n"
    using ensure_table_ok [OF Suc(2) u(1) Suc(4) assms(4)] by blast
  define st2 where "st2 = set_pte dir index (phys OR f OR PAGE_PRESENT) st1"
  have i1: "pt_inv st1 dir" using st1(2) by (simp add: table_step_def)
  note sp = set_pte_ok [OF i1 u(1) st1(3), where w = "phys OR f OR PAGE_PRESENT", folded st2_def]
  have "avail (pg_phys st2) n" using st1(4) sp(2) by simp
  from Suc(1) [OF sp(1) u(2) this, of "phys + of_nat PAGE_SIZE"] obtain st' where
    st': "direct_map_loop n dir (phys + of_nat PAGE_SIZE) (index + of_nat PAGE_SIZE) f st2 = Some st'" "pt_inv st' dir"
    "grow dir st2 st'"
    and tr: "\<And>v. user_page v \<Longrightarrow> xlat st' dir v = (if Suc (vpage index) \<le> v \<and> v < Suc (vpage index) + n
       then Some ((phys + of_nat PAGE_SIZE + of_nat (v - Suc (vpage index)) * of_nat PAGE_SIZE) OR f OR PAGE_PRESENT) else xlat st2 dir v)"
    unfolding u(3) by blast
  have "xlat st' dir v = (if vpage index \<le> v \<and> v < vpage index + Suc n
       then Some ((phys + of_nat (v - vpage index) * of_nat PAGE_SIZE) OR f OR PAGE_PRESENT) else xlat st dir v)"
    if v: "user_page v" for v
  proof (cases "Suc (vpage index) \<le> v \<and> v < Suc (vpage index) + n")
    case True
    then have "of_nat (v - vpage index) = (1 + of_nat (v - Suc (vpage index)) :: u32)"
      by (metis Suc_diff_Suc Suc_le_eq of_nat_Suc)
    then show ?thesis using True by (simp add: tr [OF v] algebra_simps)
  next
    case False
    then show ?thesis using v sp(4) [OF v] st1(2) by (auto simp: tr [OF v] table_step_def)
  qed
  moreover have "direct_map_loop (Suc n) dir phys index f st = Some st'"
    using st1(1) st'(1) by (simp add: st2_def)
  moreover have "grow dir st st'"
    using st1(2) grow_then [OF grow_then [OF _ grow_same [OF sp(5,2)]] st'(3)] by (simp add: table_step_def)
  ultimately show ?case using st'(2) by blast
qed auto

lemma page_release_loop_ok:
  assumes "pt_inv st dir" "user_run index n"
  shows "pt_inv (page_release_loop n dir index st) dir \<and> pg_phys (page_release_loop n dir index st) = pg_phys st \<and>
    (\<forall>i. user_index i \<longrightarrow> tabs (page_release_loop n dir index st) dir i = tabs st dir i) \<and>
    (\<forall>v. user_page v \<longrightarrow> xlat (page_release_loop n dir index st) dir v =
       (if vpage index \<le> v \<and> v < vpage index + n then None else xlat st dir v))"
  using assms
proof (induction n arbitrary: st index)
  case (Suc n)
  note u = user_run_Suc [OF Suc(3)]
  define st1 where "st1 = (if page_entry_present st dir index = 0 then set_pte dir index 0 st else st)"
  have s1: "pt_inv st1 dir" "pg_phys st1 = pg_phys st"
    "\<And>v. user_page v \<Longrightarrow> xlat st1 dir v = (if v = vpage index then None else xlat st dir v)"
    "\<And>i. user_index i \<Longrightarrow> tabs st1 dir i = tabs st dir i"
    using set_pte_ok [OF Suc(2) u(1), where w = 0] Suc(2) xlat_entry [of st dir index]
    by (auto simp: st1_def page_entry_present_iff)
  have "page_release_loop (Suc n) dir index st = page_release_loop n dir (index + of_nat PAGE_SIZE) st1" by (simp add: st1_def)
  with Suc(1) [OF s1(1) u(2)] s1(2-) show ?case by (auto simp: u(3))
qed auto

text \<open>
  Backing a run of unmapped pages with frames: each page gets a frame of its own that was free.
\<close>

definition backed :: "pgmem \<Rightarrow> u32 \<Rightarrow> u32 \<Rightarrow> nat \<Rightarrow> pgmem \<Rightarrow> bool" where
  "backed st dir f v st' \<longleftrightarrow> (\<exists>a. xlat st' dir v = Some (a OR f OR PAGE_PRESENT) \<and> aligned a \<and> vpage a < MAXMAP \<and>
     \<not> ISSET (pg_phys st) (vpage a) \<and> ISSET (pg_phys st') (vpage a))"

lemma page_ensure_loop_ok:
  assumes "pt_inv st dir" "user_run index n" "avail (pg_phys st) (2 * n)" "flags_ok f"
    "\<And>v. vpage index \<le> v \<Longrightarrow> v < vpage index + n \<Longrightarrow> xlat st dir v = None"
  shows "\<exists>st'. page_ensure_loop n dir index f al st = Some (al, st') \<and> pt_inv st' dir \<and>
    (\<forall>p. ISSET (pg_phys st) p \<longrightarrow> ISSET (pg_phys st') p) \<and>
    (\<forall>v. user_page v \<longrightarrow> (if vpage index \<le> v \<and> v < vpage index + n then backed st dir f v st' else xlat st' dir v = xlat st dir v))"
  using assms(1-3,5)
proof (induction n arbitrary: st index)
  case (Suc n)
  note u = user_run_Suc [OF Suc(3)]
  have "avail (pg_phys st) (Suc (Suc (2 * n)))" using Suc(4) by simp
  from ensure_table_ok [OF Suc(2) u(1) this assms(4)] obtain st1 where
    st1: "ensure_table dir index f st = Some st1" "table_step dir st st1" "present (pde st1 dir index)" "avail (pg_phys st1) (Suc (2 * n))" by blast
  have i1: "pt_inv st1 dir" and mono: "\<And>p. ISSET (pg_phys st) p \<Longrightarrow> ISSET (pg_phys st1) p"
    and same: "\<And>v. user_page v \<Longrightarrow> xlat st1 dir v = xlat st dir v" using st1(2) by (auto simp: table_step_def grow_def)
  obtain a ph where a: "memory_alloc (pg_phys st1) 1 = Some (a, ph)" "aligned a" "vpage a < MAXMAP" "\<not> ISSET (pg_phys st1) (vpage a)"
    "\<And>p. ISSET ph p \<longleftrightarrow> ISSET (pg_phys st1) p \<or> p = vpage a" "avail ph (2 * n)"
    using memory_alloc_one [OF st1(4) pt_invD(3) [OF i1]] by metis
  define st2 where "st2 = st1\<lparr>pg_phys := ph\<rparr>"
  have f2: "tabs st2 dir = tabs st1 dir" "xlat st2 dir = xlat st1 dir" "pde st2 dir index = pde st1 dir index"
    by (simp_all add: st2_def tabs_def xlat_def pde_def fun_eq_iff)
  have i2: "pt_inv st2 dir" by (rule pt_inv_same [OF i1]) (simp_all add: tabs_def st2_def a(5))
  define st3 where "st3 = set_pte dir index (a OR f OR PAGE_PRESENT) st2"
  note sp = set_pte_ok [OF i2 u(1), where w = "a OR f OR PAGE_PRESENT", folded st3_def, unfolded f2(3), OF st1(3)]
  have ph3: "pg_phys st3 = ph" using sp(2) by (simp add: st2_def)
  have x3: "xlat st3 dir v = (if v = vpage index then Some (a OR f OR PAGE_PRESENT) else xlat st dir v)" if "user_page v" for v
    using sp(4) [OF that] same [OF that] f2(2) by simp
  have "xlat st3 dir v = None" if "vpage (index + of_nat PAGE_SIZE) \<le> v" "v < vpage (index + of_nat PAGE_SIZE) + n" for v
    using that Suc(3,5) x3 [of v] unfolding u(3) by (auto simp: user_run_def user_page_def)
  from Suc(1) [OF sp(1) u(2) _ this] obtain st' where
    st': "page_ensure_loop n dir (index + of_nat PAGE_SIZE) f al st3 = Some (al, st')" "pt_inv st' dir" "\<And>p. ISSET ph p \<Longrightarrow> ISSET (pg_phys st') p"
    "\<And>v. user_page v \<Longrightarrow> if Suc (vpage index) \<le> v \<and> v < Suc (vpage index) + n then backed st3 dir f v st' else xlat st' dir v = xlat st3 dir v"
    using a(6) unfolding ph3 u(3) by blast
  have "xlat st dir (vpage index) = None" using Suc(5) by simp
  then have "page_entry_present st1 dir index \<noteq> 0" using xlat_entry [of st1 dir index] same [OF u(1)] by simp
  then have e: "page_ensure_loop (Suc n) dir index f al st = Some (al, st')"
    using st1(1) a(1) st'(1) by (simp add: st3_def st2_def)
  have "if vpage index \<le> v \<and> v < vpage index + Suc n then backed st dir f v st' else xlat st' dir v = xlat st dir v" if v: "user_page v" for v
  proof (cases "Suc (vpage index) \<le> v \<and> v < Suc (vpage index) + n")
    case True
    then have "backed st3 dir f v st'" using st'(4) [OF v] by simp
    then show ?thesis using True mono a(5) ph3 by (auto simp: backed_def)
  next
    case False
    then have "xlat st' dir v = xlat st3 dir v" using st'(4) [OF v] by simp
    then show ?thesis using False x3 [OF v] a st'(3) mono by (auto simp: backed_def)
  qed
  moreover have "ISSET (pg_phys st) p \<Longrightarrow> ISSET (pg_phys st') p" for p using st'(3) mono a(5) by blast
  ultimately show ?case using e st'(2) by blast
qed auto

subsection \<open>Searching\<close>

lemma run_page:
  assumes "aligned a" "vpage a + c < 1048576"
  shows "vpage (a + of_nat c * of_nat PAGE_SIZE) = vpage a + c" "aligned (a + of_nat c * of_nat PAGE_SIZE)"
proof -
  have c: "unat (of_nat c * of_nat PAGE_SIZE :: u32) = c * 4096"
    using assms(2) by (simp add: unat_word_ariths unsigned_of_nat take_bit_nat_eq_self PAGE_SIZE_def)
  have "unat (a + of_nat c * of_nat PAGE_SIZE) = (vpage a + c) * 4096"
    unfolding unat_word_ariths(1) c alignedE(1) [OF assms(1)] using assms(2) by simp
  then show "vpage (a + of_nat c * of_nat PAGE_SIZE) = vpage a + c" "aligned (a + of_nat c * of_nat PAGE_SIZE)"
    by (simp_all add: vpage_def aligned_def PAGE_SIZE_def)
qed

text \<open>As long as no window wraps around the address space, the search ends and finds an unmapped run.\<close>

lemma find_free_loop_ok:
  assumes "aligned cur" "aligned finish" "vpage finish + n < 1048576" "0 < n" "vpage cur \<le> vpage finish + n"
  shows "\<exists>a. find_free_loop st dir finish n cur = Some a \<and>
    (a \<noteq> 0 \<longrightarrow> aligned a \<and> vpage cur \<le> vpage a \<and> vpage a < vpage finish \<and>
       (\<forall>c<n. xlat st dir (vpage a + c) = None))"
  using assms(1,5)
proof (induction "vpage finish + n - vpage cur" arbitrary: cur rule: less_induct)
  case less
  have lt: "cur < finish \<longleftrightarrow> vpage cur < vpage finish"
    using alignedE(1) [OF less(2)] alignedE(1) [OF assms(2)] by (simp add: word_less_nat_alt)
  show ?case
  proof (cases "cur < finish")
    case True
    let ?c = "window_block st dir cur n"
    have pg: "vpage (cur + of_nat c * of_nat PAGE_SIZE) = vpage cur + c" if "c \<le> n" for c
      by (rule run_page(1) [OF less(2)]) (use that True lt assms(3) in simp)
    have cn: "?c \<le> n" unfolding window_block_def by (rule arr_find_le) simp
    show ?thesis
    proof (cases "?c = n")
      case True': True
      have "xlat st dir (vpage cur + c) = None" if "c < n" for c
        using arr_find_miss [OF True' [unfolded window_block_def], of c] that pg [of c] by (simp add: xlat_entry)
      then show ?thesis using True True' lt less(2) by (subst find_free_loop.simps) simp
    next
      case False
      let ?next = "cur + of_nat ?c * of_nat PAGE_SIZE + of_nat PAGE_SIZE"
      have e: "?next = cur + of_nat (Suc ?c) * of_nat PAGE_SIZE" by (simp add: algebra_simps)
      have "vpage cur + Suc ?c < 1048576" using cn False True lt assms(3) by simp
      then have nx: "vpage ?next = vpage cur + Suc ?c" "aligned ?next"
        unfolding e by (rule run_page [OF less(2)])+
      have "\<exists>a. find_free_loop st dir finish n ?next = Some a \<and>
        (a \<noteq> 0 \<longrightarrow> aligned a \<and> vpage ?next \<le> vpage a \<and> vpage a < vpage finish \<and> (\<forall>c<n. xlat st dir (vpage a + c) = None))"
        by (rule less(1)) (use nx cn False True lt in auto)
      then show ?thesis using True False nx(1) by (subst find_free_loop.simps) (auto simp: Let_def)
    qed
  qed (subst find_free_loop.simps, simp)
qed

subsection \<open>Deletion of a directory\<close>

text \<open>The addresses the two loops visit are the pages 512 to 1015, all under directory entry 0.\<close>

lemma delete_position:
  assumes "i < 1024"
  shows "vpage (of_nat (i * PAGE_SIZE)) = i"
proof -
  have "unat (of_nat (i * PAGE_SIZE) :: u32) = i * PAGE_SIZE"
    using assms by (simp add: unsigned_of_nat take_bit_nat_eq_self PAGE_SIZE_def del: of_nat_mult)
  then show ?thesis by (simp add: vpage_def PAGE_SIZE_def)
qed

lemma delete_entries_none:
  assumes "\<And>j. i \<le> j \<Longrightarrow> j < i + n \<Longrightarrow> \<not> present (pg_mem st (cell (frame_of (tabs st dir 0)) j))" "i + n \<le> 1024"
  shows "delete_entries n i dir st = Some st"
  using assms
proof (induction n arbitrary: i)
  case (Suc n)
  have v: "vpage (of_nat (i * PAGE_SIZE)) = i" using Suc(3) by (intro delete_position) simp
  have "page_entry_present st dir (of_nat (i * PAGE_SIZE)) \<noteq> 0"
    using Suc(2) [of i] Suc(3) unfolding page_entry_present_iff pte_cell pde_cell v by (simp add: tabs_def)
  moreover have "delete_entries n (Suc i) dir st = Some st" using Suc by auto
  ultimately show ?case by (simp add: Let_def del: of_nat_mult)
qed simp

lemma delete_tables_none:
  assumes "\<not> present (tabs st dir 0)" "i + n \<le> 1024"
  shows "delete_tables n i dir st = Some st"
  using assms(2)
proof (induction n arbitrary: i)
  case (Suc n)
  have v: "vpage (of_nat (i * PAGE_SIZE)) = i" using Suc(2) by (intro delete_position) simp
  have "page_table_present st dir (of_nat (i * PAGE_SIZE)) \<noteq> 0"
    using assms(1) Suc(2) unfolding page_table_present_iff pde_cell v by (simp add: tabs_def)
  then show ?case using Suc(1) [of "Suc i"] Suc(2) by (simp add: Let_def del: of_nat_mult)
qed simp

lemma delete_tables_first:
  assumes "present (tabs st dir 0)" "i + Suc n \<le> 1024" "memory_free (pg_phys st) 1 (frame_of (tabs st dir 0)) = Some ph"
  shows "delete_tables (Suc n) i dir st = Some (st\<lparr>pg_mem := (pg_mem st)(cell dir 0 := 0), pg_phys := ph\<rparr>)"
proof -
  have v: "vpage (of_nat (i * PAGE_SIZE)) div 1024 = 0" using assms(2) by (simp add: delete_position del: of_nat_mult)
  have p: "page_table_present st dir (of_nat (i * PAGE_SIZE)) = 0"
    using assms(1) unfolding page_table_present_iff pde_cell v by (simp add: tabs_def)
  have t: "page_table st dir (of_nat (i * PAGE_SIZE)) = frame_of (tabs st dir 0)"
    unfolding page_table_def pde_cell v by (simp add: tabs_def)
  have c: "dir + 4 * page_table_of (of_nat (i * PAGE_SIZE)) = cell dir 0" by (simp only: page_table_of_nat v cell_def)
  show ?thesis
    unfolding delete_tables.simps Let_def p t c using assms(2,3) by (simp add: delete_tables_none tabs_def)
qed

subsection \<open>Properties\<close>

text \<open>The address space as user code sees it, and the abstract update: a run of pages over frames.\<close>

definition user_map :: "pgmem \<Rightarrow> u32 \<Rightarrow> nat \<rightharpoonup> u32" where
  "user_map st dir = (\<lambda>v. if user_page v then xlat st dir v else None)"

definition run_map :: "nat \<Rightarrow> nat \<Rightarrow> u32 \<Rightarrow> u32 \<Rightarrow> nat \<rightharpoonup> u32" where
  "run_map first n physical f = (\<lambda>v. if first \<le> v \<and> v < first + n
     then Some ((physical + of_nat (v - first) * of_nat PAGE_SIZE) OR f OR PAGE_PRESENT) else None)"

definition page_run :: "nat \<Rightarrow> nat \<Rightarrow> nat set" where "page_run first n = {first..<first + n}"

lemma page_direct_map_ok:
  assumes "pt_inv st dir" "user_run start (unat pages)" "avail (pg_phys st) (unat pages)"
  obtains st' where "page_direct_map st dir physical start pages type = Some (0, st')" "pt_inv st' dir" "grow dir st st'"
    "user_map st' dir = user_map st dir ++ run_map (vpage start) (unat pages) physical (convert_paging_types type)"
proof -
  obtain st' where st': "direct_map_loop (unat pages) dir physical start (convert_paging_types type) st = Some st'" "pt_inv st' dir" "grow dir st st'"
    "\<And>v. user_page v \<Longrightarrow> xlat st' dir v = (if vpage start \<le> v \<and> v < vpage start + unat pages
       then Some ((physical + of_nat (v - vpage start) * of_nat PAGE_SIZE) OR convert_paging_types type OR PAGE_PRESENT) else xlat st dir v)"
    using direct_map_loop_ok [OF assms convert_flags_ok] by blast
  have "user_map st' dir v = (user_map st dir ++ run_map (vpage start) (unat pages) physical (convert_paging_types type)) v" for v
    using st'(4) [of v] assms(2) by (auto simp: user_map_def run_map_def map_add_def user_run_def user_page_def)
  then show thesis using st'(1-3) by (intro that [of st']) (auto simp: page_direct_map_def)
qed

lemma page_release_ok:
  assumes "pt_inv st dir" "user_run start n"
  shows "pt_inv (snd (page_release st dir start (int n))) dir"
    "pg_phys (snd (page_release st dir start (int n))) = pg_phys st"
    "tframes (snd (page_release st dir start (int n))) dir = tframes st dir"
    "user_map (snd (page_release st dir start (int n))) dir = user_map st dir |` (- page_run (vpage start) n)"
  using page_release_loop_ok [OF assms] tframes_same [of "page_release_loop n dir start st" dir st]
  by (auto simp: page_release_def user_map_def restrict_map_def page_run_def fun_eq_iff)

lemma page_find_free_ok:
  assumes "aligned finish" "vpage start \<le> vpage finish" "vpage finish + unat pages < 1048576" "0 < pages"
  obtains a where "page_find_free st dir start finish pages = Some a"
    "a \<noteq> 0 \<Longrightarrow> aligned a \<and> vpage start \<le> vpage a \<and> vpage a < vpage finish \<and>
      (\<forall>v. vpage a \<le> v \<and> v < vpage a + unat pages \<longrightarrow> xlat st dir v = None)"
proof -
  have f: "aligned (start AND NOT 0xFFF)" "vpage (start AND NOT 0xFFF) = vpage start"
    using aligned_frame_of [of start] vpage_frame_of [of start] unfolding frame_of_def by auto
  have n: "0 < unat pages" using assms(4) by (simp add: unat_gt_0 word_neq_0_conv)
  obtain a where a: "find_free_loop st dir finish (unat pages) (start AND NOT 0xFFF) = Some a"
    "a \<noteq> 0 \<Longrightarrow> aligned a \<and> vpage start \<le> vpage a \<and> vpage a < vpage finish \<and> (\<forall>c<unat pages. xlat st dir (vpage a + c) = None)"
    using find_free_loop_ok [OF f(1) assms(1,3) n, of st dir] assms(2) f(2) by auto
  have none: "xlat st dir v = None" if "a \<noteq> 0" "vpage a \<le> v" "v < vpage a + unat pages" for v
  proof -
    have "v - vpage a < unat pages" "vpage a + (v - vpage a) = v" using that(2,3) by linarith+
    then show ?thesis using a(2) [OF that(1)] by metis
  qed
  show thesis
    by (rule that [of a]) (use a none in \<open>auto simp: page_find_free_def\<close>)
qed

lemma page_provide_ok:
  assumes "pt_inv st dir" "avail (pg_phys st) (unat pages)" "0 < pages"
    and "aligned finish" "512 * 1024 \<le> vpage start" "vpage start \<le> vpage finish" "vpage finish + unat pages \<le> 1016 * 1024"
  obtains a st' where "page_provide st dir physical start finish pages type = Some (a, st')" "a = 0 \<Longrightarrow> st' = st"
    "a \<noteq> 0 \<Longrightarrow> user_run a (unat pages) \<and> vpage start \<le> vpage a \<and> vpage a < vpage finish \<and> pt_inv st' dir \<and> grow dir st st' \<and>
      (\<forall>v\<in>page_run (vpage a) (unat pages). user_map st dir v = None) \<and>
      user_map st' dir = user_map st dir ++ run_map (vpage a) (unat pages) physical (convert_paging_types type)"
proof -
  have "vpage finish + unat pages < 1048576" using assms(7) by simp
  from page_find_free_ok [OF assms(4,6) this assms(3)] obtain a where
    a: "page_find_free st dir start finish pages = Some a"
    "a \<noteq> 0 \<Longrightarrow> aligned a \<and> vpage start \<le> vpage a \<and> vpage a < vpage finish \<and>
      (\<forall>v. vpage a \<le> v \<and> v < vpage a + unat pages \<longrightarrow> xlat st dir v = None)" by blast
  show thesis
  proof (cases "a = 0")
    case False
    then have u: "user_run a (unat pages)" using a(2) assms(5,7) by (simp add: user_run_def)
    from page_direct_map_ok [OF assms(1) u assms(2)] obtain st' where
      "page_direct_map st dir physical a pages type = Some (0, st')" "pt_inv st' dir" "grow dir st st'"
      "user_map st' dir = user_map st dir ++ run_map (vpage a) (unat pages) physical (convert_paging_types type)" by metis
    then show ?thesis using False a u by (intro that [of a st']) (auto simp: page_provide_def user_map_def page_run_def)
  qed (use a(1) that [of 0 st] in \<open>simp add: page_provide_def\<close>)
qed

text \<open>
  C40. Refinement. Where the frames last, \<open>page_direct_map\<close> over a run in the user part of an
  address space returns 0, keeps the invariant of the directory, and refines the update of the
  map from pages to entries: exactly the pages of the run now translate to the given frames
  with the given rights, every other user page translates as before.
\<close>

theorem page_direct_map_refines:
  assumes "pt_inv st dir" "user_run start (unat pages)" "avail (pg_phys st) (unat pages)"
  shows "\<exists>st'. page_direct_map st dir physical start pages type = Some (0, st') \<and> pt_inv st' dir \<and>
    user_map st' dir = user_map st dir ++ run_map (vpage start) (unat pages) physical (convert_paging_types type)"
  using page_direct_map_ok [OF assms] by metis

definition pg_small :: pgmem where
  "pg_small = \<lparr>pg_phys = mem_small, pg_mem = (\<lambda>_. 0), pg_bytes = (\<lambda>_. 0), pg_cr3 = 0\<rparr>"

lemma pg_small_dir: "vpage 0x14000 = 20" "aligned 0x14000" "vpage 0x80000000 = 524288" "aligned 0x80000000"
  by (simp_all add: vpage_def aligned_def PAGE_SIZE_def)

lemma pg_small_inv: "pt_inv pg_small 0x14000"
  by (simp add: pt_inv_def owned_def pg_small_dir mem_small_fields pg_small_def tabs_def MAXMAP_def)

lemma pg_small_avail: "n < 9 \<Longrightarrow> avail (pg_phys pg_small) n"
proof -
  have "free_set mem_small = {1..<10}" by (auto simp: free_set_def mem_small_fields MAXMAP_def)
  then show "n < 9 \<Longrightarrow> avail (pg_phys pg_small) n" by (simp add: avail_def pg_small_def mem_small_fields)
qed

lemma pg_small_run: "n < 100 \<Longrightarrow> user_run 0x80000000 n"
  by (simp add: user_run_def pg_small_dir)

lemma pg_small_empty: "user_map pg_small dir = Map.empty" "xlat pg_small dir v = None"
  by (simp_all add: user_map_def fun_eq_iff xlat_def tabs_def pg_small_def)

theorem page_direct_map_refines_witness:
  "\<exists>st'. page_direct_map pg_small 0x14000 0xB8000 0x80000000 2 READ_WRITE = Some (0, st') \<and>
    user_map st' 0x14000 524289 = Some 0xB9003"
proof -
  have "run_map 524288 2 0xB8000 (convert_paging_types READ_WRITE) 524289 = Some 0xB9003"
    by (simp add: run_map_def convert_paging_types_def READ_WRITE_def READ_ONLY_def USER_PAGE_def SYSTEM_PAGE_def
      PAGE_RDWR_def PAGE_PRESENT_def PAGE_SIZE_def)
  with page_direct_map_refines [OF pg_small_inv pg_small_run pg_small_avail, where pages = 2 and physical = "0xB8000" and type = READ_WRITE]
  show ?thesis by (auto simp: pg_small_dir pg_small_empty)
qed

text \<open>
  Round trip. Releasing a run that was unmapped before \<open>page_direct_map\<close> restores the user
  part of the address space.
\<close>

theorem page_direct_map_release:
  assumes "pt_inv st dir" "user_run start n" "avail (pg_phys st) n"
    and "\<forall>v\<in>page_run (vpage start) n. user_map st dir v = None"
  shows "\<exists>st'. page_direct_map st dir physical start (of_nat n) type = Some (0, st') \<and>
    user_map (snd (page_release st' dir start (int n))) dir = user_map st dir"
proof -
  have n: "unat (of_nat n :: u32) = n" using assms(2) by (simp add: user_run_def unsigned_of_nat take_bit_nat_eq_self)
  obtain st' where st': "page_direct_map st dir physical start (of_nat n) type = Some (0, st')" "pt_inv st' dir"
    "user_map st' dir = user_map st dir ++ run_map (vpage start) n physical (convert_paging_types type)"
    using page_direct_map_ok [OF assms(1), of start "of_nat n"] assms(2,3) n by (metis (no_types, lifting))
  have "(user_map st dir ++ run_map (vpage start) n physical (convert_paging_types type)) |` (- page_run (vpage start) n) = user_map st dir"
    using assms(4) by (auto simp: fun_eq_iff restrict_map_def map_add_def run_map_def page_run_def)
  then show ?thesis using st'(1,3) page_release_ok(4) [OF st'(2) assms(2)] by auto
qed

theorem page_direct_map_release_witness:
  "\<exists>st'. page_direct_map pg_small 0x14000 0xB8000 0x80000000 2 READ_WRITE = Some (0, st') \<and>
    user_map (snd (page_release st' 0x14000 0x80000000 2)) 0x14000 = Map.empty"
  using page_direct_map_release [OF pg_small_inv pg_small_run pg_small_avail, where n = 2 and physical = "0xB8000" and type = READ_WRITE]
  by (simp add: pg_small_empty)

text \<open>
  \<open>page_provide\<close> returns. When it does not return 0, it gives a run of pages none of which
  was mapped, at or above \<open>start\<close>, and maps it; otherwise it leaves everything as it was.
  The run begins below \<open>finish\<close> but need not end there.
\<close>

theorem page_provide_fresh:
  assumes "pt_inv st dir" "avail (pg_phys st) (unat pages)" "0 < pages"
    and "aligned finish" "512 * 1024 \<le> vpage start" "vpage start \<le> vpage finish" "vpage finish + unat pages \<le> 1016 * 1024"
  shows "\<exists>a st'. page_provide st dir physical start finish pages type = Some (a, st') \<and>
    (if a = 0 then st' = st
     else vpage start \<le> vpage a \<and> vpage a < vpage finish \<and>
       (\<forall>v\<in>page_run (vpage a) (unat pages). user_map st dir v = None) \<and>
       user_map st' dir = user_map st dir ++ run_map (vpage a) (unat pages) physical (convert_paging_types type))"
  by (rule page_provide_ok [OF assms, of physical type]) auto

theorem page_provide_fresh_witness:
  "\<exists>a st'. page_provide pg_small 0x14000 0xB8000 0x80000000 0x80004000 2 READ_WRITE = Some (a, st') \<and>
    (a = 0 \<or> 524288 \<le> vpage a \<and> vpage a < 524292)"
proof -
  have f: "aligned 0x80004000" "vpage 0x80004000 = 524292" by (simp_all add: aligned_def vpage_def PAGE_SIZE_def)
  show ?thesis
    using page_provide_fresh [OF pg_small_inv pg_small_avail, where pages = 2 and finish = "0x80004000" and start = "0x80000000" and physical = "0xB8000" and type = READ_WRITE]
    by (auto simp: f pg_small_dir split: if_splits)
qed

text \<open>
  The upper limit of the search is only a limit for the first page: from an unmapped run
  \<open>page_find_free\<close> returns its beginning even if only the first page lies below
  \<open>finish\<close>.
\<close>

theorem page_find_free_passes_finish:
  assumes "aligned start" "start < start + of_nat PAGE_SIZE" "vpage start + unat pages < 1048576"
    and "\<forall>v\<in>page_run (vpage start) (unat pages). xlat st dir v = None"
  shows "page_find_free st dir start (start + of_nat PAGE_SIZE) pages = Some start"
proof -
  have "page_entry_present st dir (start + of_nat c * of_nat PAGE_SIZE) \<noteq> 0" if "c < unat pages" for c
    using that assms(3,4) run_page(1) [OF assms(1), of c] by (simp add: xlat_entry page_run_def)
  then have "window_block st dir start (unat pages) = unat pages"
    unfolding window_block_def by (intro arr_find_noneI) auto
  moreover have "start AND NOT 0xFFF = start" using frame_of_aligned [OF assms(1)] by (simp add: frame_of_def)
  ultimately show ?thesis using assms(2) by (simp add: page_find_free_def find_free_loop.simps)
qed

theorem page_find_free_passes_finish_witness:
  "page_find_free pg_small 0x14000 0x80000000 0x80001000 5 = Some 0x80000000"
  using page_find_free_passes_finish [where start = "0x80000000" and pages = 5 and st = pg_small and dir = "0x14000"]
  by (simp add: pg_small_dir pg_small_empty PAGE_SIZE_def)

text \<open>
  Deleting an address space. The loops of \<open>delete_page_directory\<close> step by pages where they
  mean directory entries. On a directory whose entry 0 is the kernel's (and where the words they
  take for page entries are not marked present) the effect on the allocator is that page 0 and
  the directory are given back; the tables of the user part, and so all frames they hold, stay
  allocated for ever.
\<close>

theorem delete_page_directory_leaks:
  assumes "pt_inv st dir" "pg_cr3 st \<noteq> dir" "dir \<noteq> 0" "tabs st dir 0 = identity_entry 0"
    and "\<forall>j\<in>{512..<1016}. \<not> present (pg_mem st (cell 0 j))"
  shows "\<exists>st'. delete_page_directory st dir = Some st' \<and>
    (\<forall>p. ISSET (pg_phys st') p \<longleftrightarrow> ISSET (pg_phys st) p \<and> p \<noteq> 0 \<and> p \<noteq> vpage dir)"
proof -
  have d: "aligned dir" "vpage dir < MAXMAP" "ISSET (pg_phys st) (vpage dir)" "ISSET (pg_phys st) 0"
    using pt_invD(1,3) [OF assms(1)] by (auto simp: owned_def)
  have nz: "vpage dir \<noteq> 0" using alignedE(1) [OF d(1)] assms(3) by (metis mult_0 unat_eq_0)
  have f: "frame_of (tabs st dir 0) = 0" "present (tabs st dir 0)"
    unfolding assms(4) by (simp_all add: identity_entry_def frame_of_or PAGE_4MB_def PAGE_RDWR_def PAGE_PRESENT_def PAGE_GLOBAL_def
      frame_of_small PAGE_SIZE_def present_bit bit_or_iff)
  obtain ph where ph: "memory_free (pg_phys st) 1 0 = Some ph" "\<And>p. ISSET ph p \<longleftrightarrow> ISSET (pg_phys st) p \<and> p \<noteq> 0"
    using memory_free_ok [of 0 1 "pg_phys st"] d(4) by (auto simp: MAXMAP_def)
  have ad: "of_nat (vpage dir * PAGE_SIZE) = dir"
    using alignedE(1) [OF d(1)] by (metis PAGE_SIZE_def of_nat_unat ucast_id)
  obtain ph' where ph': "memory_free ph 1 dir = Some ph'" "\<And>p. ISSET ph' p \<longleftrightarrow> ISSET ph p \<and> p \<noteq> vpage dir"
    using memory_free_ok [of "vpage dir" 1 ph] d(2,3) ph(2) nz unfolding ad by (auto simp: le_less_Suc_eq)
  have e: "delete_entries 504 512 dir st = Some st"
    by (rule delete_entries_none) (use assms(5) f(1) in auto)
  have t: "delete_tables 504 512 dir st = Some (st\<lparr>pg_mem := (pg_mem st)(cell dir 0 := 0), pg_phys := ph\<rparr>)"
    using delete_tables_first [OF f(2), of 512 503 ph] f(1) ph(1) by simp
  show ?thesis
    using e t ph(2) ph' assms(2) by (auto simp: delete_page_directory_def)
qed

definition pg_dir :: pgmem where
  "pg_dir = pg_small\<lparr>pg_mem := (\<lambda>_. 0)(cell 0x14000 0 := identity_entry 0, cell 0x14000 512 := 0x15007)\<rparr>"

lemma pg_dir_tabs:
  assumes "i < 1024"
  shows "tabs pg_dir 0x14000 i = (if i = 0 then identity_entry 0 else if i = 512 then 0x15007 else 0)"
  using cell_inj [OF pg_small_dir(2) pg_small_dir(2) assms] by (simp add: tabs_def pg_dir_def)

theorem delete_page_directory_leaks_witness:
  "\<exists>st'. delete_page_directory pg_dir 0x14000 = Some st' \<and> present (tabs pg_dir 0x14000 512) \<and>
    ISSET (pg_phys st') (vpage (frame_of (tabs pg_dir 0x14000 512))) \<and> \<not> ISSET (pg_phys st') 0"
proof -
  have ph: "pg_phys pg_dir = mem_small" "pg_cr3 pg_dir = 0" by (simp_all add: pg_dir_def pg_small_def)
  have u: "tabs pg_dir 0x14000 i = (if i = 512 then 0x15007 else 0)" if "user_index i" for i
    using that pg_dir_tabs [of i] by (simp add: user_index_def)
  have fr: "frame_of 0x15007 = 0x15000" "vpage 0x15000 = 21" "vpage 0x15007 = 21" "aligned 0x15000"
    by (simp_all add: frame_of_def vpage_def aligned_def PAGE_SIZE_def)
  have inv: "pt_inv pg_dir 0x14000"
    by (auto simp: pt_inv_def owned_def pg_small_dir mem_small_fields ph u fr MAXMAP_def split: if_splits)
  have z: "\<forall>j\<in>{512..<1016}. \<not> present (pg_mem pg_dir (cell 0 j))"
  proof
    fix j :: nat assume "j \<in> {512..<1016}"
    then have "cell 0 j \<noteq> cell 0x14000 0" "cell 0 j \<noteq> cell 0x14000 512"
      using cell_inj [of 0 "0x14000" j] pg_small_dir(2) by (simp_all add: aligned_def PAGE_SIZE_def)
    then show "\<not> present (pg_mem pg_dir (cell 0 j))" by (simp add: pg_dir_def)
  qed
  have "present (0x15007 :: u32)" by (simp add: present_bit bit_numeral_rec)
  with delete_page_directory_leaks [OF inv _ _ _ z] show ?thesis
    by (auto simp: ph mem_small_fields pg_dir_tabs fr pg_small_dir)
qed

end
