(* ===== verification/Ualloc.thy ===== *)
theory Ualloc
  imports Paging
begin

unbundle bit_operations_syntax

section \<open>Memory of a process (kernel/src/ualloc.c)\<close>

text \<open>
  A process keeps a list of the regions it has allocated. A region is a record in a store;
  \<open>us_alloc\<close> is the list that hangs from \<open>proc->alloc\<close>, by the addresses of its
  records, so that \<open>next\<close> and \<open>prev\<close> are positions in it. \<open>malloc\<close> is an argument: a
  function of the store that gives an unused address or fails. Frames and page tables are
  those of theories Physmem and Paging; the result None stands for a failed assertion or a
  pointer to a record that does not exist.

  Shown: the invariant that regions are mapped to their frames, that no two of them overlap and
  that private frames are owned once; allocation, release, size and location, and that the release of
  everything ends and gives every private frame back.
\<close>

record allocated_memory =
  am_pages :: u32
  am_flags :: u32
  am_phys :: u32
  am_virt :: u32
  am_shared :: int
  am_parent :: "nat option"

record uspace =
  us_pg :: pgmem
  us_self :: nat
  us_map :: u32
  us_alloc :: "nat list"
  us_mem :: "nat \<rightharpoonup> allocated_memory"

type_synonym malloc = "(nat \<rightharpoonup> allocated_memory) \<Rightarrow> nat option"

definition UALLOC_NORELEASE :: u32 where "UALLOC_NORELEASE = 1"
definition sK_BASE :: u32 where "sK_BASE = 0x80000000"
definition sK_CEILING :: u32 where "sK_CEILING = 0xFA000000"

definition set_phys :: "physmem \<Rightarrow> uspace \<Rightarrow> uspace" where
  "set_phys ph us = us\<lparr>us_pg := (us_pg us)\<lparr>pg_phys := ph\<rparr>\<rparr>"

text \<open>The last lines of the three allocating functions: fill the record, put it in front.\<close>

definition add_region :: "nat \<Rightarrow> u32 \<Rightarrow> u32 \<Rightarrow> u32 \<Rightarrow> u32 \<Rightarrow> uspace \<Rightarrow> uspace" where
  "add_region mem pages flags phys virt us = us\<lparr>us_alloc := mem # us_alloc us, us_mem := (us_mem us)(mem \<mapsto>
     \<lparr>am_pages = pages, am_flags = flags, am_phys = phys, am_virt = virt, am_shared = 0, am_parent = Some (us_self us)\<rparr>)\<rparr>"

definition user_alloc :: "malloc \<Rightarrow> uspace \<Rightarrow> u32 \<Rightarrow> (u32 \<times> uspace) option" where
  "user_alloc mal us pages =
     (if pages = 0 then Some (0, us)
      else do {
        (location, ph) \<leftarrow> memory_alloc (pg_phys (us_pg us)) (sint pages);
        let us = set_phys ph us;
        if location = 0 then Some (0, us)
        else case mal (us_mem us) of
          None \<Rightarrow> do {
            ph \<leftarrow> memory_free (pg_phys (us_pg us)) (sint pages) location;
            Some (0, set_phys ph us)
          }
        | Some mem \<Rightarrow> do {
            (found, pg) \<leftarrow> page_provide (us_pg us) (us_map us) location sK_BASE sK_CEILING pages (USER_PAGE OR READ_WRITE);
            let us = us\<lparr>us_pg := pg\<rparr>;
            if found = 0 then do {
              ph \<leftarrow> memory_free (pg_phys (us_pg us)) (sint pages) location;
              Some (0, set_phys ph us)
            }
            else Some (found, add_region mem pages 0 location found us)
          }
      })"

text \<open>The variable \<open>found\<close> is unsigned: the test for a negative value never succeeds.\<close>

definition user_alloc_hard :: "malloc \<Rightarrow> uspace \<Rightarrow> u32 \<Rightarrow> u32 \<Rightarrow> (u32 \<times> uspace) option" where
  "user_alloc_hard mal us virtual pages = do {
     assert (pages \<noteq> 0);
     (location, ph) \<leftarrow> memory_alloc (pg_phys (us_pg us)) (sint pages);
     let us = set_phys ph us;
     if location = 0 then Some (0, us)
     else case mal (us_mem us) of
       None \<Rightarrow> do {
         ph \<leftarrow> memory_free (pg_phys (us_pg us)) (sint pages) location;
         Some (0, set_phys ph us)
       }
     | Some mem \<Rightarrow> do {
         (alreadies, pg) \<leftarrow> page_ensure (us_pg us) (us_map us) virtual pages (USER_PAGE OR READ_WRITE);
         let us = us\<lparr>us_pg := pg\<rparr>;
         let found = (word_of_int alreadies :: u32);
         if found < 0 then do {
           ph \<leftarrow> memory_free (pg_phys (us_pg us)) (sint pages) location;
           Some (0, set_phys ph us)
         }
         else do {
           assert (found = 0);
           Some (found, add_region mem pages 0 location found us)
         }
       }
   }"

text \<open>The search along \<open>next\<close> for the region at an address.\<close>

fun mem_find :: "(nat \<rightharpoonup> allocated_memory) \<Rightarrow> u32 \<Rightarrow> nat list \<Rightarrow> (nat \<times> allocated_memory) option option" where
  "mem_find store address [] = Some None"
| "mem_find store address (x # xs) = do {
     m \<leftarrow> store x;
     if am_virt m = address then Some (Some (x, m)) else mem_find store address xs
   }"

definition user_free :: "uspace \<Rightarrow> u32 \<Rightarrow> (u32 \<times> uspace) option" where
  "user_free us address = do {
     found \<leftarrow> mem_find (us_mem us) address (us_alloc us);
     case found of
       None \<Rightarrow> Some (0, us)
     | Some (mem, m) \<Rightarrow> do {
         let us = us\<lparr>us_alloc := remove1 mem (us_alloc us), us_mem := (us_mem us)(mem \<mapsto> m\<lparr>am_parent := None\<rparr>)\<rparr>;
         let release_mem = True;
         let release_mem = (if am_shared m > 0 then False else release_mem);
         let release_mem = (if am_flags m AND UALLOC_NORELEASE \<noteq> 0 then False else release_mem);
         us \<leftarrow> (if release_mem then do {
                   ph \<leftarrow> memory_free (pg_phys (us_pg us)) (sint (am_pages m)) (am_phys m);
                   Some (set_phys ph us)
                 }
                 else Some us);
         let us = us\<lparr>us_pg := snd (page_release (us_pg us) (us_map us) (am_virt m) (sint (am_pages m)))\<rparr>;
         Some (0, if release_mem then us\<lparr>us_mem := (us_mem us)(mem := None)\<rparr> else us)
       }
   }"

definition user_size :: "uspace \<Rightarrow> u32 \<Rightarrow> int option" where
  "user_size us pointer = do {
     found \<leftarrow> mem_find (us_mem us) pointer (us_alloc us);
     Some (case found of None \<Rightarrow> -1 | Some (mem, m) \<Rightarrow> sint (am_pages m * of_nat PAGE_SIZE))
   }"

definition user_location :: "uspace \<Rightarrow> u32 \<Rightarrow> u32 option" where
  "user_location us pointer = do {
     found \<leftarrow> mem_find (us_mem us) pointer (us_alloc us);
     Some (case found of None \<Rightarrow> 0 | Some (mem, m) \<Rightarrow> am_phys m)
   }"

text \<open>The result of \<open>malloc\<close> is not checked: without memory the record is written through NULL.\<close>

definition user_map_in :: "malloc \<Rightarrow> uspace \<Rightarrow> u32 \<Rightarrow> u32 \<Rightarrow> (u32 \<times> uspace) option" where
  "user_map_in mal us location pages =
     (if pages = 0 then Some (0, us)
      else if location AND (of_nat PAGE_SIZE - 1) \<noteq> 0 then Some (0, us)
      else do {
        (found, pg) \<leftarrow> page_provide (us_pg us) (us_map us) location sK_BASE sK_CEILING pages (USER_PAGE OR READ_WRITE);
        let us = us\<lparr>us_pg := pg\<rparr>;
        if found \<noteq> 0 then do {
          mem \<leftarrow> mal (us_mem us);
          Some (found, add_region mem pages UALLOC_NORELEASE location found us)
        }
        else Some (0, us)
      })"

partial_function (option) user_release_all :: "uspace \<Rightarrow> (int \<times> uspace) option" where
  "user_release_all us =
     (case us_alloc us of
        [] \<Rightarrow> Some (0, us)
      | x # _ \<Rightarrow> do {
          m \<leftarrow> us_mem us x;
          (_, us) \<leftarrow> user_free us (am_virt m);
          user_release_all us
        })"

partial_function (option) ensure_regions ::
    "malloc \<Rightarrow> u32 \<Rightarrow> u32 \<Rightarrow> u32 \<Rightarrow> uspace \<Rightarrow> (int \<times> u32 \<times> uspace) option" where
  "ensure_regions mal end_addr index last_start us =
     (if index < end_addr then
        if page_present (us_pg us) (us_map us) index \<noteq> 0
        then ensure_regions mal end_addr (index + of_nat PAGE_SIZE) last_start us
        else do {
          (r, us) \<leftarrow> (if index \<noteq> last_start then user_alloc_hard mal us last_start ((index - last_start) div of_nat PAGE_SIZE)
                     else Some (0, us));
          if r \<noteq> 0 then Some (-1, last_start, us)
          else ensure_regions mal end_addr (index + of_nat PAGE_SIZE) (index + of_nat PAGE_SIZE) us
        }
      else Some (0, last_start, us))"

definition user_ensure :: "malloc \<Rightarrow> uspace \<Rightarrow> u32 \<Rightarrow> u32 \<Rightarrow> (int \<times> uspace) option" where
  "user_ensure mal us address pages = do {
     let end_addr = address + pages * of_nat PAGE_SIZE;
     (r, last_start, us) \<leftarrow> ensure_regions mal end_addr address address us;
     if r \<noteq> 0 then Some (r, us)
     else if last_start < end_addr then do {
       (r, us) \<leftarrow> user_alloc_hard mal us last_start ((end_addr - last_start) div of_nat PAGE_SIZE);
       Some (if r \<noteq> 0 then -1 else 0, us)
     }
     else Some (0, us)
   }"

subsection \<open>Regions\<close>

text \<open>Frames of a region are given back when it is released only if it is private.\<close>

definition priv :: "allocated_memory \<Rightarrow> bool" where
  "priv m \<longleftrightarrow> \<not> am_shared m > 0 \<and> am_flags m AND UALLOC_NORELEASE = 0"

definition frames :: "allocated_memory \<Rightarrow> nat set" where
  "frames m = page_run (vpage (am_phys m)) (unat (am_pages m))"

definition vrun :: "allocated_memory \<Rightarrow> nat set" where
  "vrun m = page_run (vpage (am_virt m)) (unat (am_pages m))"

definition urights :: u32 where "urights = convert_paging_types (USER_PAGE OR READ_WRITE)"

definition rmap :: "allocated_memory \<Rightarrow> nat \<rightharpoonup> u32" where
  "rmap m = run_map (vpage (am_virt m)) (unat (am_pages m)) (am_phys m) urights"

text \<open>Frames the address space itself needs.\<close>

definition base_frames :: "pgmem \<Rightarrow> u32 \<Rightarrow> nat set" where
  "base_frames st dir = {0, vpage dir} \<union> tframes st dir"

definition region_ok :: "pgmem \<Rightarrow> u32 \<Rightarrow> allocated_memory \<Rightarrow> bool" where
  "region_ok st dir m \<longleftrightarrow> 0 < unat (am_pages m) \<and> user_run (am_virt m) (unat (am_pages m)) \<and>
     (\<forall>v\<in>vrun m. user_map st dir v = rmap m v) \<and>
     (priv m \<longrightarrow> aligned (am_phys m) \<and> vpage (am_phys m) + unat (am_pages m) \<le> MAXMAP \<and>
        (\<forall>p\<in>frames m. ISSET (pg_phys st) p \<and> p \<notin> base_frames st dir))"

definition apart :: "allocated_memory \<Rightarrow> allocated_memory \<Rightarrow> bool" where
  "apart m m' \<longleftrightarrow> vrun m \<inter> vrun m' = {} \<and> (priv m \<and> priv m' \<longrightarrow> frames m \<inter> frames m' = {})"

text \<open>The invariant: \<open>ms\<close> are the records of the list, in order.\<close>

definition regs_inv :: "pgmem \<Rightarrow> u32 \<Rightarrow> allocated_memory list \<Rightarrow> bool" where
  "regs_inv st dir ms \<longleftrightarrow> pt_inv st dir \<and> (\<forall>m\<in>set ms. region_ok st dir m) \<and> sorted_wrt apart ms"

definition ua_rep :: "uspace \<Rightarrow> allocated_memory list \<Rightarrow> bool" where
  "ua_rep us ms \<longleftrightarrow> distinct (us_alloc us) \<and> map (us_mem us) (us_alloc us) = map Some ms"

definition ua_inv :: "uspace \<Rightarrow> allocated_memory list \<Rightarrow> bool" where
  "ua_inv us ms \<longleftrightarrow> ua_rep us ms \<and> regs_inv (us_pg us) (us_map us) ms"

lemma apart_sym: "apart m m' \<Longrightarrow> apart m' m" by (auto simp: apart_def)

lemma base_frames_ISSET: "pt_inv st dir \<Longrightarrow> p \<in> base_frames st dir \<Longrightarrow> ISSET (pg_phys st) p"
  using pt_invD [of st dir] by (auto simp: base_frames_def tframes_def owned_def)

lemma pt_inv_keep:
  assumes "pt_inv st dir" "\<And>p. p \<in> base_frames st dir \<Longrightarrow> ISSET ph p"
  shows "pt_inv (st\<lparr>pg_phys := ph\<rparr>) dir"
proof -
  have o: "owned (st\<lparr>pg_phys := ph\<rparr>) x" if "owned st x" "vpage x \<in> base_frames st dir" for x
    using that assms(2) by (simp add: owned_def)
  have "user_index i \<Longrightarrow> present (tabs st dir i) \<Longrightarrow> vpage (frame_of (tabs st dir i)) \<in> base_frames st dir" for i
    by (auto simp: base_frames_def tframes_def)
  then show ?thesis
    using pt_invD [OF assms(1)] o assms(2) [of 0] unfolding pt_inv_def by (auto simp: tabs_def base_frames_def)
qed

lemma tframes_phys [simp]: "tframes (st\<lparr>pg_phys := ph\<rparr>) dir = tframes st dir"
  "user_map (st\<lparr>pg_phys := ph\<rparr>) dir = user_map st dir"
  by (simp_all add: tframes_def tabs_def user_map_def xlat_def fun_eq_iff)

lemma base_frames_phys [simp]: "base_frames (st\<lparr>pg_phys := ph\<rparr>) dir = base_frames st dir"
  by (simp add: base_frames_def)

lemma region_ok_keep:
  assumes "region_ok st dir m" "\<And>v. v \<in> vrun m \<Longrightarrow> user_map st' dir v = user_map st dir v"
    "\<And>p. priv m \<Longrightarrow> p \<in> frames m \<Longrightarrow> ISSET (pg_phys st) p \<Longrightarrow> p \<notin> base_frames st dir \<Longrightarrow>
       ISSET (pg_phys st') p \<and> p \<notin> base_frames st' dir"
  shows "region_ok st' dir m"
  using assms unfolding region_ok_def by auto

lemma vrun_mapped: "region_ok st dir m \<Longrightarrow> v \<in> vrun m \<Longrightarrow> user_map st dir v \<noteq> None"
  by (auto simp: region_ok_def vrun_def rmap_def run_map_def page_run_def)

subsection \<open>Allocation\<close>

text \<open>A run of frames has just been taken: nothing known before is touched.\<close>

lemma regs_inv_took:
  assumes "regs_inv st dir ms" "took (pg_phys st) b n ph"
  shows "regs_inv (st\<lparr>pg_phys := ph\<rparr>) dir ms"
proof -
  have i: "ISSET (pg_phys st) p \<Longrightarrow> ISSET ph p" for p using assms(2) by (simp add: took_def)
  have "pt_inv st dir" using assms(1) by (simp add: regs_inv_def)
  then have "pt_inv (st\<lparr>pg_phys := ph\<rparr>) dir" by (rule pt_inv_keep) (use base_frames_ISSET i \<open>pt_inv st dir\<close> in blast)
  moreover have "region_ok (st\<lparr>pg_phys := ph\<rparr>) dir m" if "region_ok st dir m" for m
    by (rule region_ok_keep [OF that]) (simp_all add: i)
  ultimately show ?thesis using assms(1) by (auto simp: regs_inv_def)
qed

text \<open>The frames of the run are given back.\<close>

lemma regs_inv_free:
  assumes "regs_inv st dir ms" "\<And>p. ISSET ph p \<longleftrightarrow> ISSET (pg_phys st) p \<and> p \<notin> F" "F \<inter> base_frames st dir = {}"
    "\<And>m. m \<in> set ms \<Longrightarrow> priv m \<Longrightarrow> frames m \<inter> F = {}"
  shows "regs_inv (st\<lparr>pg_phys := ph\<rparr>) dir ms"
proof -
  have pt: "pt_inv st dir" using assms(1) by (simp add: regs_inv_def)
  then have "pt_inv (st\<lparr>pg_phys := ph\<rparr>) dir"
    by (rule pt_inv_keep) (use base_frames_ISSET [OF pt] assms(2,3) in blast)
  moreover have "region_ok (st\<lparr>pg_phys := ph\<rparr>) dir m" if "m \<in> set ms" for m
  proof (rule region_ok_keep [of st])
    show "region_ok st dir m" using assms(1) that by (simp add: regs_inv_def)
    show "ISSET (pg_phys (st\<lparr>pg_phys := ph\<rparr>)) p \<and> p \<notin> base_frames (st\<lparr>pg_phys := ph\<rparr>) dir"
      if "priv m" "p \<in> frames m" "ISSET (pg_phys st) p" "p \<notin> base_frames st dir" for p
      using that assms(2) [of p] assms(4) [OF \<open>m \<in> set ms\<close>] by auto
  qed simp
  ultimately show ?thesis using assms(1) by (auto simp: regs_inv_def)
qed

text \<open>A region has just been mapped at a run that was free.\<close>

lemma regs_inv_mapped:
  assumes "regs_inv st dir ms" "pt_inv st' dir" "grow dir st st'" "\<forall>v\<in>vrun m. user_map st dir v = None"
    "user_map st' dir = user_map st dir ++ rmap m" "0 < unat (am_pages m)" "user_run (am_virt m) (unat (am_pages m))"
    and "priv m \<Longrightarrow> aligned (am_phys m) \<and> vpage (am_phys m) + unat (am_pages m) \<le> MAXMAP \<and>
      (\<forall>p\<in>frames m. ISSET (pg_phys st) p \<and> p \<notin> base_frames st dir) \<and> (\<forall>m'\<in>set ms. priv m' \<longrightarrow> frames m \<inter> frames m' = {})"
  shows "regs_inv st' dir (m # ms)"
proof -
  have out: "v \<notin> vrun m \<Longrightarrow> rmap m v = None" for v by (auto simp: vrun_def rmap_def run_map_def page_run_def)
  have base: "ISSET (pg_phys st') p \<and> p \<notin> base_frames st' dir" if "ISSET (pg_phys st) p" "p \<notin> base_frames st dir" for p
    using assms(3) that by (auto simp: grow_def base_frames_def)
  have old: "region_ok st' dir m' \<and> vrun m \<inter> vrun m' = {}" if "m' \<in> set ms" for m'
  proof -
    have ok: "region_ok st dir m'" using assms(1) that by (simp add: regs_inv_def)
    then have d: "vrun m \<inter> vrun m' = {}" using assms(4) vrun_mapped by blast
    have "user_map st' dir v = user_map st dir v" if "v \<in> vrun m'" for v
    proof -
      have "rmap m v = None" by (rule out) (use d that in blast)
      then show ?thesis by (simp add: assms(5) map_add_def)
    qed
    then show ?thesis using d region_ok_keep [OF ok] base by blast
  qed
  have "user_map st' dir v = rmap m v" if "v \<in> vrun m" for v
    using that assms(4,5) by (auto simp: map_add_def vrun_def rmap_def run_map_def page_run_def)
  then have "region_ok st' dir m" using assms(6,7,8) base by (auto simp: region_ok_def)
  moreover have "apart m m'" if "m' \<in> set ms" for m' using old [OF that] assms(8) that by (auto simp: apart_def)
  ultimately show ?thesis using assms(1,2) old by (auto simp: regs_inv_def)
qed

lemma took_avail:
  assumes "took ph b n ph'" "avail ph (n + k)"
  shows "avail ph' k"
proof -
  have f: "free_set ph' = free_set ph - {b..<b + n}" "{b..<b + n} \<subseteq> free_set ph"
    using assms(1) by (auto simp: took_def free_set_def)
  have "card (free_set ph') = card (free_set ph) - n" unfolding f(1) using f(2) by (simp add: card_Diff_subset)
  then show ?thesis using assms unfolding avail_def took_def by linarith
qed

lemma sint_small:
  assumes "unat (w :: u32) < 2147483648"
  shows "sint w = int (unat w)"
proof -
  have "int (unat w) < 2147483648" using assms by linarith
  then have "uint w < 2 ^ 31" by simp
  moreover have "- (2 ^ 31) \<le> uint w" by (rule order_trans [OF _ uint_ge_0]) simp
  ultimately have "signed_take_bit 31 (uint w) = uint w" by (intro signed_take_bit_int_eq_self)
  then show ?thesis by (simp add: sint_uint)
qed

definition fresh_malloc :: "malloc \<Rightarrow> bool" where
  "fresh_malloc mal \<longleftrightarrow> (\<forall>store a. mal store = Some a \<longrightarrow> store a = None)"

text \<open>How an allocation may end: nothing has changed but spare tables, or there is a new private region.\<close>

definition alloc_failed :: "uspace \<Rightarrow> uspace \<Rightarrow> bool" where
  "alloc_failed us us' \<longleftrightarrow> us_alloc us' = us_alloc us \<and> us_mem us' = us_mem us \<and> us_map us' = us_map us \<and>
     user_map (us_pg us') (us_map us) = user_map (us_pg us) (us_map us) \<and>
     (\<forall>p. ISSET (pg_phys (us_pg us')) p = ISSET (pg_phys (us_pg us)) p)"

definition alloc_made :: "uspace \<Rightarrow> uspace \<Rightarrow> allocated_memory \<Rightarrow> bool" where
  "alloc_made us us' m \<longleftrightarrow> (\<exists>x. us_mem us x = None \<and> us_alloc us' = x # us_alloc us \<and> us_mem us' = (us_mem us)(x \<mapsto> m)) \<and>
     us_map us' = us_map us \<and> (\<forall>v\<in>vrun m. user_map (us_pg us) (us_map us) v = None) \<and>
     user_map (us_pg us') (us_map us) = user_map (us_pg us) (us_map us) ++ rmap m"

lemma ua_rep_add:
  assumes "ua_rep us ms" "us_mem us x = None" "us_alloc us' = x # us_alloc us" "us_mem us' = (us_mem us)(x \<mapsto> m)"
  shows "ua_rep us' (m # ms)"
proof -
  have "x \<notin> set (us_alloc us)"
  proof
    assume "x \<in> set (us_alloc us)"
    then have "us_mem us x \<in> set (map Some ms)" using assms(1) unfolding ua_rep_def by (metis image_eqI list.set_map)
    then show False using assms(2) by auto
  qed
  then show ?thesis using assms by (auto simp: ua_rep_def)
qed

lemma took_frames:
  assumes "took ph b n ph'" "0 < n" "unat (am_pages m) = n" "am_phys m = of_nat (b * PAGE_SIZE)"
  shows "aligned (am_phys m)" "vpage (am_phys m) = b" "frames m = {b..<b + n}"
proof -
  have "b < MAXMAP" using assms(1,2) by (auto simp: took_def)
  then have u: "unat (am_phys m) = b * PAGE_SIZE" unfolding assms(4) by (rule page_addr)
  then show "aligned (am_phys m)" and v: "vpage (am_phys m) = b" by (simp_all add: aligned_def vpage_def PAGE_SIZE_def)
  show "frames m = {b..<b + n}" by (simp add: frames_def v assms(3) page_run_def)
qed

lemma user_window: "vpage sK_BASE = 524288" "vpage sK_CEILING = 1024000" "aligned sK_CEILING"
  by (simp_all add: vpage_def aligned_def sK_BASE_def sK_CEILING_def PAGE_SIZE_def)

lemma memory_alloc_run:
  assumes "ISSET ph 0" "0 < n"
  obtains "memory_alloc ph (int n) = Some (0, ph)"
  | b ph' where "memory_alloc ph (int n) = Some (of_nat (b * PAGE_SIZE), ph')" "took ph b n ph'" "of_nat (b * PAGE_SIZE) \<noteq> (0 :: u32)"
proof -
  obtain a ph' where ma: "memory_alloc ph (int n) = Some (a, ph')"
    using assms(2) by (cases "memory_alloc ph (int n)") (auto simp: memory_alloc_def)
  have pos: "0 < int n" using assms(2) by simp
  show thesis
  proof (rule memory_alloc_cases [OF pos ma])
    assume "a = 0" "ph' = ph"
    then show thesis using that(1) ma by simp
  next
    fix b assume b: "a = of_nat (b * PAGE_SIZE)" "unat a = b * PAGE_SIZE" "took ph b (nat (int n)) ph'"
    have "b \<noteq> 0" using b(3) assms by (auto simp: took_def)
    then have "a \<noteq> 0" using b(2) by (auto simp: PAGE_SIZE_def)
    then show thesis using that(2) ma b by simp
  qed
qed

lemma alloc_made_ok:
  assumes inv: "ua_inv us ms" and tk: "took (pg_phys (us_pg us)) b n ph" and x: "us_mem us x = None"
    and us': "us_alloc us' = x # us_alloc us" "us_mem us' = (us_mem us)(x \<mapsto> m)" "us_map us' = us_map us"
    and m: "unat (am_pages m) = n" "0 < n" "am_phys m = of_nat (b * PAGE_SIZE)" "priv m" "user_run (am_virt m) n"
    and pg: "pt_inv (us_pg us') (us_map us)" "grow (us_map us) ((us_pg us)\<lparr>pg_phys := ph\<rparr>) (us_pg us')"
      "\<forall>v\<in>vrun m. user_map (us_pg us) (us_map us) v = None"
      "user_map (us_pg us') (us_map us) = user_map (us_pg us) (us_map us) ++ rmap m"
  shows "alloc_made us us' m \<and> ua_inv us' (m # ms) \<and> (\<forall>p\<in>frames m. \<not> ISSET (pg_phys (us_pg us)) p)"
proof -
  let ?st = "us_pg us" and ?dir = "us_map us"
  have rg: "regs_inv ?st ?dir ms" and rep: "ua_rep us ms" using inv by (simp_all add: ua_inv_def)
  have pt: "pt_inv ?st ?dir" using rg by (simp add: regs_inv_def)
  note tf = took_frames [OF tk m(2,1,3)]
  have free: "\<not> ISSET (pg_phys ?st) p" "ISSET ph p" if "p \<in> frames m" for p
    using that tk unfolding tf(3) by (auto simp: took_def)
  have "regs_inv (us_pg us') ?dir (m # ms)"
  proof (rule regs_inv_mapped [OF regs_inv_took [OF rg tk] pg(1,2)])
    show "aligned (am_phys m) \<and> vpage (am_phys m) + unat (am_pages m) \<le> MAXMAP \<and>
      (\<forall>p\<in>frames m. ISSET (pg_phys (?st\<lparr>pg_phys := ph\<rparr>)) p \<and> p \<notin> base_frames (?st\<lparr>pg_phys := ph\<rparr>) ?dir) \<and>
      (\<forall>m'\<in>set ms. priv m' \<longrightarrow> frames m \<inter> frames m' = {})"
    proof (intro conjI ballI impI)
      show "frames m \<inter> frames m' = {}" if "m' \<in> set ms" "priv m'" for m'
        using rg that free(1) by (auto simp: regs_inv_def region_ok_def)
    qed (use tf(1,2) tk m(1) free base_frames_ISSET [OF pt] in \<open>auto simp: took_def\<close>)
  qed (use pg m in simp_all)
  then show ?thesis
    using ua_rep_add [OF rep x us'(1,2)] us' x pg free(1) by (auto simp: alloc_made_def ua_inv_def)
qed

lemma user_alloc_ok:
  assumes inv: "ua_inv us ms" and mal: "fresh_malloc mal" and n: "unat pages = n" "0 < n" "n \<le> 16384"
    and av: "avail (pg_phys (us_pg us)) (n + n)"
  shows "\<exists>a us'. user_alloc mal us pages = Some (a, us') \<and>
    (if a = 0 then alloc_failed us us' \<and> ua_inv us' ms
     else \<exists>m. alloc_made us us' m \<and> am_virt m = a \<and> am_pages m = pages \<and> priv m \<and> ua_inv us' (m # ms) \<and>
       (\<forall>p\<in>frames m. \<not> ISSET (pg_phys (us_pg us)) p))"
proof -
  let ?st = "us_pg us" and ?dir = "us_map us"
  have si: "sint pages = int n" "pages \<noteq> 0" using n sint_small [of pages] by auto
  have rg: "regs_inv ?st ?dir ms" and rep: "ua_rep us ms" using inv by (simp_all add: ua_inv_def)
  have pt: "pt_inv ?st ?dir" using rg by (simp add: regs_inv_def)
  show ?thesis
  proof (rule memory_alloc_run [OF pt_invD(3) [OF pt] n(2)])
    assume "memory_alloc (pg_phys ?st) (int n) = Some (0, pg_phys ?st)"
    then show ?thesis using si inv by (simp add: user_alloc_def set_phys_def alloc_failed_def)
  next
    fix b ph assume ma: "memory_alloc (pg_phys ?st) (int n) = Some (of_nat (b * PAGE_SIZE), ph)"
      and tk: "took (pg_phys ?st) b n ph" and nz: "of_nat (b * PAGE_SIZE) \<noteq> (0 :: u32)"
    define loc :: u32 where "loc = of_nat (b * PAGE_SIZE)"
    define st1 where "st1 = ?st\<lparr>pg_phys := ph\<rparr>"
    have ma: "memory_alloc (pg_phys ?st) (int n) = Some (loc, ph)" "loc \<noteq> 0" using ma nz by (simp_all add: loc_def)
    have rg1: "regs_inv st1 ?dir ms" unfolding st1_def by (rule regs_inv_took [OF rg tk])
    have um: "user_map st1 ?dir = user_map ?st ?dir" by (simp add: st1_def)
    obtain ph' where fr: "memory_free ph (int n) loc = Some ph'" "\<And>p. ISSET ph' p = ISSET (pg_phys ?st) p"
      using memory_free_ok [of b n ph] tk n(2) unfolding loc_def by (auto simp: took_def)
    have undone: "alloc_failed us (us\<lparr>us_pg := ?st\<lparr>pg_phys := ph'\<rparr>\<rparr>) \<and> ua_inv (us\<lparr>us_pg := ?st\<lparr>pg_phys := ph'\<rparr>\<rparr>) ms"
      using regs_inv_free [OF rg, of ph' "{}"] fr(2) rep by (simp add: alloc_failed_def ua_inv_def ua_rep_def)
    show ?thesis
    proof (cases "mal (us_mem us)")
      case None
      then show ?thesis using ma fr(1) undone si by (simp add: user_alloc_def set_phys_def)
    next
      case (Some x)
      have "pt_inv st1 ?dir" "avail (pg_phys st1) (unat pages)" "0 < pages"
        using rg1 took_avail [OF tk av] n si(2) by (simp_all add: regs_inv_def st1_def word_neq_0_conv)
      then show ?thesis
      proof (rule page_provide_ok [where start = sK_BASE and finish = sK_CEILING and physical = loc and type = "USER_PAGE OR READ_WRITE"])
        fix a st2 assume pp: "page_provide st1 ?dir loc sK_BASE sK_CEILING pages (USER_PAGE OR READ_WRITE) = Some (a, st2)"
          and z: "a = 0 \<Longrightarrow> st2 = st1"
          and f: "a \<noteq> 0 \<Longrightarrow> user_run a (unat pages) \<and> vpage sK_BASE \<le> vpage a \<and> vpage a < vpage sK_CEILING \<and> pt_inv st2 ?dir \<and> grow ?dir st1 st2 \<and>
            (\<forall>v\<in>page_run (vpage a) (unat pages). user_map st1 ?dir v = None) \<and>
            user_map st2 ?dir = user_map st1 ?dir ++ run_map (vpage a) (unat pages) loc (convert_paging_types (USER_PAGE OR READ_WRITE))"
        show ?thesis
        proof (cases "a = 0")
          case True
          then show ?thesis using ma fr(1) undone si Some pp z by (simp add: user_alloc_def set_phys_def st1_def)
        next
          case False
          define us' where "us' = add_region x pages 0 loc a (us\<lparr>us_pg := st2\<rparr>)"
          define m where "m = \<lparr>am_pages = pages, am_flags = 0, am_phys = loc, am_virt = a, am_shared = 0, am_parent = Some (us_self us)\<rparr>"
          have e: "user_alloc mal us pages = Some (a, us')"
            using ma si Some pp False by (simp add: user_alloc_def set_phys_def st1_def us'_def)
          have x: "us_mem us x = None" using mal Some by (simp add: fresh_malloc_def)
          have us': "us_alloc us' = x # us_alloc us" "us_mem us' = (us_mem us)(x \<mapsto> m)" "us_map us' = ?dir" "us_pg us' = st2"
            by (simp_all add: us'_def add_region_def m_def)
          have mf: "am_pages m = pages" "am_virt m = a" "priv m" "am_phys m = loc" by (simp_all add: m_def priv_def)
          show ?thesis
            using e alloc_made_ok [OF inv tk x us'(1,2,3), unfolded us'(4), OF _ n(2) _ mf(3)] mf f [OF False] n(1) um
            by (intro exI [of _ a] exI [of _ us']) (simp add: False vrun_def rmap_def urights_def loc_def st1_def exI [of _ m])
        qed
      qed (use n in \<open>simp_all add: user_window\<close>)
    qed
  qed
qed

subsection \<open>Release\<close>

lemma mem_find_first:
  assumes "map store (xs @ x # zs) = map Some (ms1 @ m # ms2)" "length xs = length ms1" "\<And>m'. m' \<in> set ms1 \<Longrightarrow> am_virt m' \<noteq> am_virt m"
  shows "mem_find store (am_virt m) (xs @ x # zs) = Some (Some (x, m))"
  using assms
proof (induction xs arbitrary: ms1)
  case (Cons y xs)
  then obtain m1 ms1' where "ms1 = m1 # ms1'" by (cases ms1) auto
  with Cons show ?case by auto
qed simp

lemma mem_find_none:
  "map store xs = map Some ms \<Longrightarrow> (\<And>m. m \<in> set ms \<Longrightarrow> am_virt m \<noteq> a) \<Longrightarrow> mem_find store a xs = Some None"
  by (induction xs arbitrary: ms) auto

lemma ua_rep_split:
  assumes "ua_rep us (ms1 @ m # ms2)"
  obtains xs x zs where "us_alloc us = xs @ x # zs" "length xs = length ms1" "x \<notin> set xs" "x \<notin> set zs"
    "us_mem us x = Some m" "map (us_mem us) (xs @ zs) = map Some (ms1 @ ms2)" "distinct (xs @ zs)"
proof -
  have "map (us_mem us) (us_alloc us) = map Some ms1 @ Some m # map Some ms2" using assms by (simp add: ua_rep_def)
  then obtain xs x zs where x: "us_alloc us = xs @ x # zs" "map (us_mem us) xs = map Some ms1" "us_mem us x = Some m" "map (us_mem us) zs = map Some ms2"
    by (auto simp: map_eq_append_conv map_eq_Cons_conv)
  moreover have "length xs = length ms1" using x(2) by (metis length_map)
  ultimately show thesis using that [of xs x zs] assms by (auto simp: ua_rep_def)
qed

lemma vrun_start: "region_ok st dir m \<Longrightarrow> vpage (am_virt m) \<in> vrun m"
  by (simp add: region_ok_def vrun_def page_run_def)

lemma regs_inv_split:
  assumes "regs_inv st dir (ms1 @ m # ms2)"
  shows "regs_inv st dir (ms1 @ ms2)" "region_ok st dir m" "m' \<in> set (ms1 @ ms2) \<Longrightarrow> apart m m'"
    "m' \<in> set (ms1 @ ms2) \<Longrightarrow> am_virt m' \<noteq> am_virt m"
proof -
  show "regs_inv st dir (ms1 @ ms2)" "region_ok st dir m" using assms by (auto simp: regs_inv_def sorted_wrt_append)
  show a: "apart m m'" if "m' \<in> set (ms1 @ ms2)" using assms that apart_sym by (auto simp: regs_inv_def sorted_wrt_append)
  show "am_virt m' \<noteq> am_virt m" if "m' \<in> set (ms1 @ ms2)"
  proof -
    have "region_ok st dir m" "region_ok st dir m'" using assms that by (auto simp: regs_inv_def)
    from this [THEN vrun_start] show ?thesis using a [OF that] by (auto simp: apart_def)
  qed
qed

text \<open>The mapping of a region is dropped.\<close>

lemma regs_inv_release:
  assumes "regs_inv st dir ms" "user_run (am_virt m) n" "unat (am_pages m) = n" "\<And>m'. m' \<in> set ms \<Longrightarrow> apart m m'"
  shows "regs_inv (snd (page_release st dir (am_virt m) (int n))) dir ms"
proof -
  have pt: "pt_inv st dir" using assms(1) by (simp add: regs_inv_def)
  note pr = page_release_ok [OF pt assms(2)]
  have "region_ok (snd (page_release st dir (am_virt m) (int n))) dir m'" if "m' \<in> set ms" for m'
  proof (rule region_ok_keep)
    show "region_ok st dir m'" using assms(1) that by (simp add: regs_inv_def)
    show "user_map (snd (page_release st dir (am_virt m) (int n))) dir v = user_map st dir v" if "v \<in> vrun m'" for v
    proof -
      have "v \<notin> vrun m" using assms(4) [OF \<open>m' \<in> set ms\<close>] that by (auto simp: apart_def)
      then show ?thesis by (simp add: pr(4) vrun_def assms(3))
    qed
  qed (simp add: pr base_frames_def)
  then show ?thesis using assms(1) pr(1) by (simp add: regs_inv_def)
qed

definition region_freed :: "uspace \<Rightarrow> uspace \<Rightarrow> allocated_memory \<Rightarrow> bool" where
  "region_freed us us' m \<longleftrightarrow> us_map us' = us_map us \<and>
     user_map (us_pg us') (us_map us) = user_map (us_pg us) (us_map us) |` (- vrun m) \<and>
     (\<forall>p. ISSET (pg_phys (us_pg us')) p \<longleftrightarrow> ISSET (pg_phys (us_pg us)) p \<and> \<not> (priv m \<and> p \<in> frames m))"

lemma user_free_ok:
  assumes inv: "ua_inv us (ms1 @ m # ms2)"
  shows "\<exists>us'. user_free us (am_virt m) = Some (0, us') \<and> ua_inv us' (ms1 @ ms2) \<and> region_freed us us' m"
proof -
  let ?st = "us_pg us" and ?dir = "us_map us" and ?n = "unat (am_pages m)"
  obtain xs x zs where x: "us_alloc us = xs @ x # zs" "length xs = length ms1" "x \<notin> set xs" "x \<notin> set zs"
    "us_mem us x = Some m" "map (us_mem us) (xs @ zs) = map Some (ms1 @ ms2)" "distinct (xs @ zs)"
    using inv ua_rep_split unfolding ua_inv_def by metis
  have rg: "regs_inv ?st ?dir (ms1 @ m # ms2)" using inv by (simp add: ua_inv_def)
  note sp = regs_inv_split [OF rg]
  have fnd: "mem_find (us_mem us) (am_virt m) (us_alloc us) = Some (Some (x, m))"
    using inv x(1,2) sp(4) mem_find_first [of "us_mem us" xs x zs ms1 m ms2] by (auto simp: ua_inv_def ua_rep_def)
  have rm: "remove1 x (us_alloc us) = xs @ zs" using x(1,3) by (simp add: remove1_append)
  have n: "0 < ?n" "user_run (am_virt m) ?n" "sint (am_pages m) = int ?n"
    using sp(2) sint_small [of "am_pages m"] by (auto simp: region_ok_def user_run_def)
  have rep: "ua_rep us' (ms1 @ ms2)" if "us_alloc us' = xs @ zs" "\<And>y. y \<noteq> x \<Longrightarrow> us_mem us' y = us_mem us y" for us'
  proof -
    have "map (us_mem us') (xs @ zs) = map (us_mem us) (xs @ zs)" using x(3,4) that(2) by (intro map_cong [OF refl]) (metis UnE set_append)
    then show ?thesis unfolding ua_rep_def that(1) x(6) using x(7) by blast
  qed
  have pt: "pt_inv st ?dir" if "regs_inv st ?dir ms" for st ms using that by (simp add: regs_inv_def)
  show ?thesis
  proof (cases "priv m")
    case True
    then have pm: "aligned (am_phys m)" "vpage (am_phys m) + ?n \<le> MAXMAP" "\<And>p. p \<in> frames m \<Longrightarrow> ISSET (pg_phys ?st) p \<and> p \<notin> base_frames ?st ?dir"
      using sp(2) by (auto simp: region_ok_def)
    have ad: "of_nat (vpage (am_phys m) * PAGE_SIZE) = am_phys m"
      using alignedE(1) [OF pm(1)] by (metis PAGE_SIZE_def of_nat_unat ucast_id)
    obtain ph where ph: "memory_free (pg_phys ?st) (int ?n) (am_phys m) = Some ph"
      "\<And>p. ISSET ph p \<longleftrightarrow> ISSET (pg_phys ?st) p \<and> p \<notin> frames m"
      using memory_free_ok [OF pm(2) n(1), of "pg_phys ?st"] pm(3) unfolding ad by (auto simp: frames_def page_run_def)
    have rg1: "regs_inv (?st\<lparr>pg_phys := ph\<rparr>) ?dir (ms1 @ ms2)"
      by (rule regs_inv_free [OF sp(1) ph(2)]) (use pm(3) sp(3) True in \<open>auto simp: apart_def\<close>)
    note rr = regs_inv_release [OF rg1 n(2) refl sp(3)] page_release_ok [OF pt [OF rg1] n(2)]
    have pv: "\<not> am_shared m > 0" "am_flags m AND UALLOC_NORELEASE = 0" using True by (simp_all add: priv_def)
    have e: "user_free us (am_virt m) = Some (0, us\<lparr>us_alloc := xs @ zs, us_mem := (us_mem us)(x := None),
      us_pg := snd (page_release (?st\<lparr>pg_phys := ph\<rparr>) ?dir (am_virt m) (int ?n))\<rparr>)" (is "_ = Some (0, ?us)")
      unfolding user_free_def fnd using pv ph(1) n(3) rm by (simp add: set_phys_def)
    have "ua_rep ?us (ms1 @ ms2)" by (rule rep) simp_all
    then show ?thesis using e rr ph(2) True by (auto simp: ua_inv_def region_freed_def vrun_def)
  next
    case False
    note rr = regs_inv_release [OF sp(1) n(2) refl sp(3)] page_release_ok [OF pt [OF rg] n(2)]
    have e: "user_free us (am_virt m) = Some (0, us\<lparr>us_alloc := xs @ zs, us_mem := (us_mem us)(x \<mapsto> m\<lparr>am_parent := None\<rparr>),
      us_pg := snd (page_release ?st ?dir (am_virt m) (int ?n))\<rparr>)" (is "_ = Some (0, ?us)")
      unfolding user_free_def fnd using False n(3) rm by (auto simp: priv_def Let_def)
    have "ua_rep ?us (ms1 @ ms2)" by (rule rep) simp_all
    then show ?thesis using e rr False by (auto simp: ua_inv_def region_freed_def vrun_def)
  qed
qed

lemma user_release_all_ok:
  assumes "ua_inv us ms"
  shows "\<exists>us'. user_release_all us = Some (0, us') \<and> us_alloc us' = [] \<and> ua_inv us' [] \<and> us_map us' = us_map us \<and>
    user_map (us_pg us') (us_map us) = user_map (us_pg us) (us_map us) |` (- (\<Union>m\<in>set ms. vrun m)) \<and>
    (\<forall>p. ISSET (pg_phys (us_pg us')) p \<longleftrightarrow> ISSET (pg_phys (us_pg us)) p \<and> \<not> (\<exists>m\<in>set ms. priv m \<and> p \<in> frames m))"
  using assms
proof (induction ms arbitrary: us)
  case Nil
  then have "us_alloc us = []" by (simp add: ua_inv_def ua_rep_def)
  then show ?case using Nil by (subst user_release_all.simps) (simp add: restrict_map_def)
next
  case (Cons m ms)
  obtain us1 where us1: "user_free us (am_virt m) = Some (0, us1)" "ua_inv us1 ms" "region_freed us us1 m"
    using user_free_ok [of us "[]" m ms] Cons(2) by auto
  obtain x xs where x: "us_alloc us = x # xs" "us_mem us x = Some m"
    using Cons(2) by (auto simp: ua_inv_def ua_rep_def map_eq_Cons_conv)
  have "user_release_all us = user_release_all us1"
    using x us1(1) by (subst user_release_all.simps) simp
  with Cons(1) [OF us1(2)] us1(3) show ?case
    by (auto simp: region_freed_def)
qed

subsection \<open>Sizes and places\<close>

lemma user_size_location:
  assumes "ua_inv us (ms1 @ m # ms2)"
  shows "user_size us (am_virt m) = Some (int (unat (am_pages m)) * int PAGE_SIZE)" "user_location us (am_virt m) = Some (am_phys m)"
proof -
  have rg: "regs_inv (us_pg us) (us_map us) (ms1 @ m # ms2)" and rep: "ua_rep us (ms1 @ m # ms2)" using assms by (simp_all add: ua_inv_def)
  note sp = regs_inv_split [OF rg]
  obtain xs x zs where "us_alloc us = xs @ x # zs" "length xs = length ms1" using ua_rep_split [OF rep] by metis
  then have f: "mem_find (us_mem us) (am_virt m) (us_alloc us) = Some (Some (x, m))"
    using rep sp(4) mem_find_first [of "us_mem us" xs x zs ms1 m ms2] by (auto simp: ua_rep_def)
  have n: "unat (am_pages m) \<le> 504 * 1024" using sp(2) by (auto simp: region_ok_def user_run_def)
  then have u: "unat (am_pages m * of_nat PAGE_SIZE) = unat (am_pages m) * PAGE_SIZE"
    by (simp add: unat_word_ariths PAGE_SIZE_def)
  moreover have "unat (am_pages m) * PAGE_SIZE < 2147483648" using n by (simp add: PAGE_SIZE_def)
  ultimately have "sint (am_pages m * of_nat PAGE_SIZE) = int (unat (am_pages m) * PAGE_SIZE)"
    by (subst sint_small) simp_all
  then show "user_size us (am_virt m) = Some (int (unat (am_pages m)) * int PAGE_SIZE)" unfolding user_size_def f by simp
  show "user_location us (am_virt m) = Some (am_phys m)" unfolding user_location_def f by simp
qed

subsection \<open>Regions with a fixed address\<close>

lemma user_alloc_hard_zero: "user_alloc_hard mal us virtual pages = Some (a, us') \<Longrightarrow> a = 0"
  by (auto simp: user_alloc_hard_def Let_def bind_eq_Some split: option.splits if_splits prod.splits)

lemma ensure_regions_zero: "ensure_regions mal e index last_start us = Some z \<Longrightarrow> fst z = 0"
proof (erule ensure_regions.raw_induct [rotated])
  fix er mal e index last_start us y
  assume ih: "\<And>mal e index last_start us y. er mal e index last_start us = Some y \<Longrightarrow> fst y = 0"
    and r: "(if index < e then
        if page_present (us_pg us) (us_map us) index \<noteq> 0
        then er mal e (index + of_nat PAGE_SIZE) last_start us
        else do {
          (r, us) \<leftarrow> (if index \<noteq> last_start then user_alloc_hard mal us last_start ((index - last_start) div of_nat PAGE_SIZE)
                     else Some (0, us));
          if r \<noteq> 0 then Some (-1, last_start, us)
          else er mal e (index + of_nat PAGE_SIZE) (index + of_nat PAGE_SIZE) us
        }
      else Some (0, last_start, us)) = Some y"
  then show "fst y = 0"
    by (auto simp: bind_eq_Some split: if_splits dest: user_alloc_hard_zero ih)
qed

text \<open>Over a run of unmapped pages \<open>user_ensure\<close> asks for one region and returns.\<close>

lemma page_present_iff: "page_present st dir a = 0 \<longleftrightarrow> xlat st dir (vpage a) \<noteq> None"
  using xlat_entry [of st dir a] by (auto simp: page_present_def page_table_present_iff page_entry_present_iff)

lemma ensure_regions_unmapped:
  assumes "aligned index" "vpage index + n < 1048576" "\<And>v. vpage index \<le> v \<Longrightarrow> v < vpage index + n \<Longrightarrow> xlat (us_pg us) (us_map us) v = None"
  shows "ensure_regions mal (index + of_nat n * of_nat PAGE_SIZE) index last_start us = Some (0, last_start, us)"
  using assms
proof (induction n arbitrary: index)
  case 0
  show ?case by (subst ensure_regions.simps) simp
next
  case (Suc n)
  let ?e = "index + of_nat (Suc n) * of_nat PAGE_SIZE"
  have np: "aligned (index + of_nat PAGE_SIZE)" "vpage (index + of_nat PAGE_SIZE) = Suc (vpage index)"
    using next_page [OF Suc(2)] Suc(3) by auto
  have e: "vpage ?e = vpage index + Suc n" "aligned ?e" using run_page [OF Suc(2), of "Suc n"] Suc(3) by simp_all
  have "index < ?e" unfolding word_less_nat_alt alignedE(1) [OF Suc(2)] alignedE(1) [OF e(2)] e(1) by simp
  moreover have "page_present (us_pg us) (us_map us) index \<noteq> 0" using page_present_iff [of "us_pg us" "us_map us" index] Suc(4) by simp
  moreover have "ensure_regions mal (index + of_nat PAGE_SIZE + of_nat n * of_nat PAGE_SIZE) (index + of_nat PAGE_SIZE) last_start us = Some (0, last_start, us)"
    by (rule Suc(1)) (use np Suc(3,4) in auto)
  ultimately show ?case by (subst ensure_regions.simps) (simp add: algebra_simps)
qed

lemma user_alloc_hard_ok:
  assumes pt: "pt_inv (us_pg us) (us_map us)" and n: "unat pages = n" "0 < n" "user_run a n" and av: "avail (pg_phys (us_pg us)) (n + 2 * n)"
    and free: "\<And>v. vpage a \<le> v \<Longrightarrow> v < vpage a + n \<Longrightarrow> xlat (us_pg us) (us_map us) v = None"
  shows "\<exists>us'. user_alloc_hard mal us a pages = Some (0, us') \<and> pt_inv (us_pg us') (us_map us) \<and> us_map us' = us_map us \<and>
    (\<forall>p. ISSET (pg_phys (us_pg us)) p \<longrightarrow> ISSET (pg_phys (us_pg us')) p)"
proof -
  let ?st = "us_pg us" and ?dir = "us_map us"
  have si: "sint pages = int n" "pages \<noteq> 0" using n sint_small [of pages] by (auto simp: user_run_def)
  have rg: "regs_inv ?st ?dir []" using pt by (simp add: regs_inv_def)
  show ?thesis
  proof (rule memory_alloc_run [OF pt_invD(3) [OF pt] n(2)])
    assume "memory_alloc (pg_phys ?st) (int n) = Some (0, pg_phys ?st)"
    then show ?thesis using si pt by (simp add: user_alloc_hard_def set_phys_def)
  next
    fix b ph assume "memory_alloc (pg_phys ?st) (int n) = Some (of_nat (b * PAGE_SIZE), ph)"
      and tk: "took (pg_phys ?st) b n ph" and "of_nat (b * PAGE_SIZE) \<noteq> (0 :: u32)"
    then obtain loc where ma: "memory_alloc (pg_phys ?st) (int n) = Some (loc, ph)" "loc \<noteq> 0" "loc = of_nat (b * PAGE_SIZE)" by blast
    define st1 where "st1 = ?st\<lparr>pg_phys := ph\<rparr>"
    have pt1: "pt_inv st1 ?dir" using regs_inv_took [OF rg tk] by (simp add: regs_inv_def st1_def)
    show ?thesis
    proof (cases "mal (us_mem us)")
      case None
      obtain ph' where fr: "memory_free ph (int n) loc = Some ph'" "\<And>p. ISSET ph' p = ISSET (pg_phys ?st) p"
        using memory_free_ok [of b n ph] tk n(2) unfolding ma(3) by (auto simp: took_def)
      have "pt_inv (?st\<lparr>pg_phys := ph'\<rparr>) ?dir" by (rule pt_inv_keep [OF pt]) (use base_frames_ISSET [OF pt] fr(2) in simp)
      then show ?thesis using None ma fr si by (simp add: user_alloc_hard_def set_phys_def)
    next
      case (Some x)
      have "xlat st1 ?dir v = xlat ?st ?dir v" for v by (simp add: st1_def xlat_def tabs_def)
      then have x1: "\<And>v. vpage a \<le> v \<Longrightarrow> v < vpage a + n \<Longrightarrow> xlat st1 ?dir v = None" using free by simp
      have "avail (pg_phys st1) (2 * n)" using took_avail [OF tk av] by (simp add: st1_def)
      from page_ensure_loop_ok [OF pt1 n(3) this convert_flags_ok x1, of "USER_PAGE OR READ_WRITE" 0]
      obtain st' where st': "page_ensure_loop n ?dir a (convert_paging_types (USER_PAGE OR READ_WRITE)) 0 st1 = Some (0, st')"
        "pt_inv st' ?dir" "\<And>p. ISSET ph p \<Longrightarrow> ISSET (pg_phys st') p" by (auto simp: st1_def)
      have "page_ensure st1 ?dir a pages (USER_PAGE OR READ_WRITE) = Some (0, st')" using st'(1) n(1) by (simp add: page_ensure_def)
      then have "user_alloc_hard mal us a pages = Some (0, add_region x pages 0 loc 0 (us\<lparr>us_pg := st'\<rparr>))"
        using Some ma si by (simp add: user_alloc_hard_def set_phys_def st1_def)
      then show ?thesis using st'(2,3) tk by (auto simp: add_region_def took_def)
    qed
  qed
qed

lemma user_ensure_ok:
  assumes pt: "pt_inv (us_pg us) (us_map us)" and n: "unat pages = n" "0 < n" "user_run a n" and av: "avail (pg_phys (us_pg us)) (n + 2 * n)"
    and free: "\<And>v. vpage a \<le> v \<Longrightarrow> v < vpage a + n \<Longrightarrow> xlat (us_pg us) (us_map us) v = None"
  shows "\<exists>us'. user_ensure mal us a pages = Some (0, us') \<and> pt_inv (us_pg us') (us_map us) \<and> us_map us' = us_map us"
proof -
  have al: "aligned a" "vpage a + n < 1048576" using n(3) by (auto simp: user_run_def)
  have pg: "pages = of_nat n" using n(1) by (metis of_nat_unat ucast_id)
  have e: "vpage (a + of_nat n * of_nat PAGE_SIZE) = vpage a + n" "aligned (a + of_nat n * of_nat PAGE_SIZE)"
    by (rule run_page [OF al])+
  have lt: "a < a + of_nat n * of_nat PAGE_SIZE"
    unfolding word_less_nat_alt alignedE(1) [OF al(1)] alignedE(1) [OF e(2)] e(1) using n(2) by simp
  have "unat (of_nat n * of_nat PAGE_SIZE :: u32) = n * 4096"
    using al(2) by (simp add: unat_word_ariths unsigned_of_nat take_bit_nat_eq_self PAGE_SIZE_def)
  then have dv: "(of_nat n * of_nat PAGE_SIZE) div of_nat PAGE_SIZE = pages"
    unfolding word_unat_eq_iff unat_div n(1) by (simp add: PAGE_SIZE_def)
  obtain us' where us': "user_alloc_hard mal us a pages = Some (0, us')" "pt_inv (us_pg us') (us_map us)" "us_map us' = us_map us"
    using user_alloc_hard_ok [OF pt n av free] by blast
  have "ensure_regions mal (a + of_nat n * of_nat PAGE_SIZE) a a us = Some (0, a, us)"
    by (rule ensure_regions_unmapped [OF al free])
  then have "user_ensure mal us a pages = Some (0, us')"
    using us'(1) lt dv by (simp add: user_ensure_def pg [symmetric] Let_def)
  then show ?thesis using us' by blast
qed

subsection \<open>Properties\<close>

text \<open>
  C37. Invariant. Regions are mapped to their frames, no two of them overlap, and a private frame
  belongs to one region only and is no table. Up to 64 MB, \<open>user_alloc\<close> keeps this: it returns the
  address of a new region in front of the list, made of frames that were free, at pages that
  were not mapped, or it returns 0 and leaves regions, mappings and frames as they were.
\<close>

theorem user_alloc_invariant:
  assumes "ua_inv us ms" "fresh_malloc mal" "0 < unat pages" "unat pages \<le> 16384"
    and "avail (pg_phys (us_pg us)) (unat pages + unat pages)"
  shows "\<exists>a us'. user_alloc mal us pages = Some (a, us') \<and>
    (if a = 0 then alloc_failed us us' \<and> ua_inv us' ms
     else \<exists>m. alloc_made us us' m \<and> am_virt m = a \<and> am_pages m = pages \<and> priv m \<and> ua_inv us' (m # ms) \<and>
       (\<forall>p\<in>frames m. \<not> ISSET (pg_phys (us_pg us)) p))"
  using user_alloc_ok [OF assms(1,2) refl assms(3-5)] .

definition us_small :: uspace where
  "us_small = \<lparr>us_pg = pg_small, us_self = 1, us_map = 0x14000, us_alloc = [], us_mem = Map.empty\<rparr>"

definition mal_one :: malloc where "mal_one store = (if store 7 = None then Some 7 else None)"

lemma us_small_inv: "ua_inv us_small []" "fresh_malloc mal_one" "avail (pg_phys (us_pg us_small)) (2 + 2)"
  using pg_small_inv pg_small_avail by (simp_all add: us_small_def ua_inv_def ua_rep_def regs_inv_def fresh_malloc_def mal_one_def)

lemma us_small_found: "\<exists>us'. user_alloc mal_one us_small 2 = Some (0x80000000, us')"
proof -
  have "arr_find (\<lambda>j. ISSET mem_small (Suc j)) 2 0 = 2" by (rule arr_find_noneI) (simp_all add: mem_small_fields)
  then have sc: "alloc_scan mem_small 2 0 = Some 1"
    by (subst alloc_scan.simps) (simp add: mem_small_fields MAXMAP_def Let_def)
  obtain ph where ph: "memory_multiple_alloc mem_small 2 = (of_nat (1 * PAGE_SIZE), ph)" "took mem_small 1 2 ph"
    using memory_multiple_alloc_took [OF sc] by blast
  have ma: "memory_alloc mem_small 2 = Some (4096, ph)"
    using ph(1) by (simp add: memory_alloc_def mem_small_fields PAGE_SIZE_def)
  define st1 where "st1 = pg_small\<lparr>pg_phys := ph\<rparr>"
  have st1: "pt_inv st1 0x14000" "avail (pg_phys st1) 2"
    using regs_inv_took [of pg_small "0x14000" "[]" 1 2 ph] pg_small_inv ph(2) took_avail [OF ph(2), of 2] pg_small_avail [of 4]
    by (simp_all add: regs_inv_def st1_def pg_small_def)
  have "page_entry_present st1 0x14000 a \<noteq> 0" for a
    by (simp add: page_entry_present_iff pde_def st1_def pg_small_def)
  then have "window_block st1 0x14000 0x80000000 2 = 2" unfolding window_block_def by (intro arr_find_noneI) simp_all
  then have ff: "page_find_free st1 0x14000 sK_BASE sK_CEILING 2 = Some 0x80000000"
    unfolding page_find_free_def sK_BASE_def sK_CEILING_def by (subst find_free_loop.simps) simp
  obtain st2 where "page_direct_map st1 0x14000 4096 0x80000000 2 (USER_PAGE OR READ_WRITE) = Some (0, st2)"
    using page_direct_map_ok [OF st1(1), of "0x80000000" 2 4096 "USER_PAGE OR READ_WRITE"] st1(2) pg_small_run [of 2] by auto
  then have "page_provide st1 0x14000 4096 sK_BASE sK_CEILING 2 (USER_PAGE OR READ_WRITE) = Some (0x80000000, st2)"
    using ff by (simp add: page_provide_def)
  then show ?thesis
    using ma by (simp add: user_alloc_def us_small_def set_phys_def st1_def Let_def) (simp add: pg_small_def mal_one_def)
qed

lemma us_small_alloc:
  obtains us' m where "user_alloc mal_one us_small 2 = Some (0x80000000, us')" "alloc_made us_small us' m" "am_virt m = 0x80000000"
    "priv m" "ua_inv us' [m]" "am_pages m = 2"
  using us_small_found user_alloc_ok [OF us_small_inv(1,2), of 2 2] us_small_inv(3) by auto

theorem user_alloc_invariant_witness:
  "\<exists>us' m. user_alloc mal_one us_small 2 = Some (0x80000000, us') \<and> ua_inv us' [m] \<and> am_pages m = 2 \<and>
    frames m \<subseteq> {p. \<not> ISSET mem_small p}"
proof -
  have p: "pg_phys (us_pg us_small) = mem_small" by (simp add: us_small_def pg_small_def)
  obtain us' where us': "user_alloc mal_one us_small 2 = Some (0x80000000, us')" using us_small_found by blast
  then obtain m where "ua_inv us' [m]" "am_pages m = 2" "\<forall>p\<in>frames m. \<not> ISSET mem_small p"
    using user_alloc_invariant [OF us_small_inv(1,2), of 2] us_small_inv(3) unfolding p by auto
  then show ?thesis using us' by blast
qed

text \<open>
  C38. Round trip. What \<open>user_alloc\<close> returned can be given to \<open>user_free\<close>: the list of
  regions and the mappings are as before, and the frames are free again.
\<close>

theorem user_alloc_free:
  assumes "ua_inv us ms" "fresh_malloc mal" "0 < unat pages" "unat pages \<le> 16384"
    and "avail (pg_phys (us_pg us)) (unat pages + unat pages)" "user_alloc mal us pages = Some (a, us')" "a \<noteq> 0"
  shows "\<exists>us'' m. user_free us' a = Some (0, us'') \<and> ua_inv us'' ms \<and> us_mem us' (hd (us_alloc us')) = Some m \<and>
    user_map (us_pg us'') (us_map us) = user_map (us_pg us) (us_map us) \<and>
    (\<forall>p\<in>frames m. \<not> ISSET (pg_phys (us_pg us'')) p)"
proof -
  obtain m where m: "alloc_made us us' m" "am_virt m = a" "priv m" "ua_inv us' (m # ms)"
    using user_alloc_ok [OF assms(1,2) refl assms(3-5)] assms(6,7) by auto
  obtain us'' where us'': "user_free us' a = Some (0, us'')" "ua_inv us'' ms" "region_freed us' us'' m"
    using user_free_ok [of us' "[]" m ms] m(2,4) by auto
  have "user_map (us_pg us'') (us_map us) = (user_map (us_pg us) (us_map us) ++ rmap m) |` (- vrun m)"
    using us''(3) m(1) by (simp add: region_freed_def alloc_made_def)
  also have "\<dots> = user_map (us_pg us) (us_map us)"
    using m(1) by (auto simp: alloc_made_def fun_eq_iff restrict_map_def map_add_def vrun_def rmap_def run_map_def page_run_def)
  finally show ?thesis using us'' m(1,3) by (auto simp: alloc_made_def region_freed_def)
qed

theorem user_alloc_free_witness:
  "\<exists>us' us''. user_alloc mal_one us_small 2 = Some (0x80000000, us') \<and> user_free us' 0x80000000 = Some (0, us'') \<and> ua_inv us'' []"
proof -
  obtain us' where us': "user_alloc mal_one us_small 2 = Some (0x80000000, us')" using us_small_found by blast
  from user_alloc_free [OF us_small_inv(1,2) _ _ _ us'] us_small_inv(3) us' show ?thesis by auto
qed

text \<open>
  C39. \<open>user_release_all\<close> ends. No region is left, every page of a region is unmapped and
  every other one as it was, and of the frames exactly those of private regions are free now.
\<close>

theorem user_release_all_frees:
  assumes "ua_inv us ms"
  shows "\<exists>us'. user_release_all us = Some (0, us') \<and> us_alloc us' = [] \<and>
    user_map (us_pg us') (us_map us) = user_map (us_pg us) (us_map us) |` (- (\<Union>m\<in>set ms. vrun m)) \<and>
    (\<forall>p. ISSET (pg_phys (us_pg us')) p \<longleftrightarrow> ISSET (pg_phys (us_pg us)) p \<and> \<not> (\<exists>m\<in>set ms. priv m \<and> p \<in> frames m))"
  using user_release_all_ok [OF assms] by blast

theorem user_release_all_frees_witness:
  "\<exists>us us' m. ua_inv us [m] \<and> am_virt m = 0x80000000 \<and> user_release_all us = Some (0, us') \<and> us_alloc us' = []"
proof -
  obtain us m where "ua_inv us [m]" "am_virt m = 0x80000000" using us_small_alloc by metis
  with user_release_all_frees [of us "[m]"] show ?thesis by blast
qed

text \<open>
  Lost errors. \<open>user_alloc_hard\<close> returns 0 both when it fails and when it succeeds (its
  result is the number of pages that were mapped before, asserted to be 0), and
  \<open>user_ensure\<close> takes everything but 0 for an error: whenever it returns, it reports
  success, also when no memory was left.
\<close>

theorem user_ensure_reports_success:
  assumes "user_ensure mal us address pages = Some (r, us')"
  shows "r = 0"
  using assms ensure_regions_zero
  by (fastforce simp: user_ensure_def Let_def bind_eq_Some split: if_splits prod.splits dest: user_alloc_hard_zero)

definition us_none :: uspace where
  "us_none = us_small\<lparr>us_pg := pg_small\<lparr>pg_phys := mem_full\<rparr>\<rparr>"

text \<open>One page is asked for and no frame is free: nothing is mapped, and the result is 0.\<close>

theorem user_ensure_reports_success_witness:
  "\<exists>r us'. user_ensure mal_one us_none 0x80000000 1 = Some (r, us') \<and> r = 0 \<and> us_alloc us' = [] \<and>
    page_present (us_pg us') 0x14000 0x80000000 = -1"
proof -
  have pp: "page_present (us_pg us_none) (us_map us_none) 0x80000000 = -1"
    by (simp add: page_present_def page_table_present_def pde_def us_none_def us_small_def pg_small_def PAGE_PRESENT_def)
  have "ensure_regions mal_one 0x80001000 0x80001000 0x80000000 us_none = Some (0, 0x80000000, us_none)"
    by (subst ensure_regions.simps) simp
  then have "ensure_regions mal_one 0x80001000 0x80000000 0x80000000 us_none = Some (0, 0x80000000, us_none)"
    by (subst ensure_regions.simps) (simp add: pp PAGE_SIZE_def)
  moreover have "user_alloc_hard mal_one us_none 0x80000000 1 = Some (0, us_none)"
    by (simp add: user_alloc_hard_def us_none_def us_small_def set_phys_def memory_alloc_def mem_full_def)
  ultimately have e: "user_ensure mal_one us_none 0x80000000 1 = Some (0, us_none)"
    by (simp add: user_ensure_def PAGE_SIZE_def)
  from user_ensure_reports_success [OF this] e pp show ?thesis
    by (auto simp: us_none_def us_small_def)
qed

end
