(* ===== verification/Process.thy ===== *)
theory Process
  imports Kernel Ualloc
begin

unbundle bit_operations_syntax

section \<open>Processes (kernel/src/process.c)\<close>

text \<open>
  The processes are kept three times: in the table by id, in the tree of parents and children and
  in the linear list that starts at the root process. \<open>pid\<close> is unsigned, so comparisons with
  \<open>-1\<close> are comparisons modulo \<open>2 ^ 32\<close>. \<open>malloc\<close> is an argument, as are the flags that
  say whether the hash table could be created or resized; locks are those of one processor. The memory
  of a process, its page directory and regions, is beside the kernel state in a record of its own.

  Shown: an invariant that ties table, list and pids together, which insertion and removal keep; a
  process is found by its id exactly while it is inserted; the first process of a name in
  the list is found by its name; fresh ids are not in use; deletion of a process gives its regions back;
  and the list of all processes needs every process to have a variable that a process may remove.
\<close>

definition PROCESS_INIT :: int where "PROCESS_INIT = 1"
definition PROCESS_FINISHING :: int where "PROCESS_FINISHING = 4"
definition CMDLINE_LENGTH :: u32 where "CMDLINE_LENGTH = 256"

definition upid :: "int \<Rightarrow> int" where "upid p = p mod 2 ^ 32"

definition ptable_key :: "int \<Rightarrow> int" where
  "ptable_key pid = (let ans = wrap32 (upid pid * 100) in if ans < 0 then wrap32 (- ans) else ans)"

definition ptable_compare :: "process \<Rightarrow> sample \<Rightarrow> int" where
  "ptable_compare a b =
     (if upid (fst b) \<noteq> upid (-1)
      then (if upid (p_pid a) = upid (fst b) then 0 else if upid (p_pid a) < upid (fst b) then -1 else 1)
      else strncmp (p_name a) (snd b) NAME_LENGTH)"

text \<open>\<open>htable_retrieve( l_processTable, &temp )\<close> with \<open>temp.pid\<close> set and an empty name.\<close>

definition lookup_pid :: "kstate \<Rightarrow> int \<Rightarrow> addr option option" where
  "lookup_pid k pid =
     htable_retrieve (\<lambda>s. ptable_key (fst s)) (\<lambda>a s. ptable_compare (procs k a) s) (l_processTable k) (pid, empty_name)"

text \<open>The search for a free id; the counter is advanced in every round but the first.\<close>

partial_function (option) next_pid_loop :: "kstate \<Rightarrow> bool \<Rightarrow> int \<Rightarrow> int option" where
  "next_pid_loop k first pid =
     do { let p = (if first then pid
                   else let l = wrap32 (pid + 1) in if l < 0 then 2 else l);
          r \<leftarrow> lookup_pid k p;
          if r = None then Some p else next_pid_loop k False p }"

definition next_pid :: "kstate \<Rightarrow> (int \<times> kstate) option" where
  "next_pid k = do {
     assert (\<not> l_PIDlock k);
     pid \<leftarrow> next_pid_loop k True (l_PID k);
     Some (pid, k\<lparr>l_PID := wrap32 (pid + 1)\<rparr>)
   }"

definition init_processes :: "bool \<Rightarrow> bool \<Rightarrow> kstate \<Rightarrow> kstate option" where
  "init_processes mem mem_array k = do {
     t \<leftarrow> init_htable mem mem_array 128 75;
     t \<leftarrow> t;
     assert (l_PID k = 1);
     Some (k\<lparr>l_processTable := t, l_processLock := init_rwlock\<rparr>)
   }"

text \<open>
  The kernel state together with the memory of processes (\<open>proc->map\<close> and \<open>proc->alloc\<close>) and
  of threads (\<open>tr->tls\<close> and \<open>tr->math\<close>).
\<close>

record mstate =
  m_k :: kstate
  m_pg :: pgmem
  m_map :: "addr \<Rightarrow> u32"
  m_alloc :: "addr \<Rightarrow> nat list"
  m_mem :: "nat \<rightharpoonup> allocated_memory"
  m_tls :: "addr \<Rightarrow> u32"
  m_math :: "addr \<Rightarrow> u32"

definition uspace_of :: "mstate \<Rightarrow> addr \<Rightarrow> uspace" where
  "uspace_of ms p = \<lparr>us_pg = m_pg ms, us_self = p, us_map = m_map ms p, us_alloc = m_alloc ms p, us_mem = m_mem ms\<rparr>"

definition put_uspace :: "addr \<Rightarrow> uspace \<Rightarrow> mstate \<Rightarrow> mstate" where
  "put_uspace p us ms = ms\<lparr>m_pg := us_pg us, m_alloc := (m_alloc ms)(p := us_alloc us), m_mem := us_mem us\<rparr>"

text \<open>
  \<open>new_process\<close>: the record at the new address keeps what the memory held in fields the code
  does not set (the tail of the name). Without memory for the thread table the pointer stays
  NULL and the first use fails; the value is then None.
\<close>

definition new_process :: "addr option \<Rightarrow> bool \<Rightarrow> bool \<Rightarrow> mstate \<Rightarrow> buffer \<Rightarrow> (addr option \<times> mstate) option" where
  "new_process a mem mem_array ms name =
     (case a of
        None \<Rightarrow> Some (None, ms)
      | Some proc \<Rightarrow> do {
          let k = upd_proc proc (\<lambda>p. p\<lparr>p_name := strncpy (p_name p) name NAME_LENGTH\<rparr>) (m_k ms);
          (pid, k) \<leftarrow> next_pid k;
          let k = upd_proc proc (\<lambda>p. p\<lparr>p_pid := pid, p_state := PROCESS_INIT\<rparr>) k;
          (map_addr, pg) \<leftarrow> new_page_directory (m_pg ms);
          t \<leftarrow> init_htable mem mem_array 128 75;
          t \<leftarrow> t;
          let k = upd_proc proc (\<lambda>p. p\<lparr>p_lock := init_rwlock, p_threads := None, p_threads_htable := t, p_thread_count := 0,
            p_last_tid := 1, p_event_hooks := 0, p_event_pid := -1, p_event_tid := -1, p_rc := 0, p_kernel_threads := 0,
            p_flags := 0, p_env := \<lparr>environment = None, environment_count = 0\<rparr>,
            p_ipc := (\<lambda>i. if i < MAX_PORTS
              then (p_ipc p i)\<lparr>ipc_tid := -1, ipc_flags := 0, pulse_q := None, message_q := None\<rparr> else p_ipc p i)\<rparr>) k;
          let k = k\<lparr>pfam := family_init proc (pfam k)\<rparr>;
          let k = k\<lparr>plist := list_init proc (plist k)\<rparr>;
          Some (Some proc, ms\<lparr>m_k := k, m_pg := pg, m_map := (m_map ms)(proc := map_addr), m_alloc := (m_alloc ms)(proc := [])\<rparr>)
        })"

definition delete_process :: "mstate \<Rightarrow> addr \<Rightarrow> mstate option" where
  "delete_process ms proc = do {
     (_, us) \<leftarrow> user_release_all (uspace_of ms proc);
     let ms = put_uspace proc us ms;
     let ms = ms\<lparr>m_k := upd_proc proc (\<lambda>p. p\<lparr>p_env := snd (release_environment (p_env p))\<rparr>) (m_k ms)\<rparr>;
     pg \<leftarrow> delete_page_directory (m_pg ms) (m_map ms proc);
     Some (ms\<lparr>m_pg := pg\<rparr>)
   }"

text \<open>The locks around the process list.\<close>

definition read_processes :: "kstate \<Rightarrow> kstate option" where
  "read_processes k = do { l \<leftarrow> rwlock_get_read_access (l_processLock k); Some (k\<lparr>l_processLock := l\<rparr>) }"

definition write_processes :: "kstate \<Rightarrow> kstate option" where
  "write_processes k = do { l \<leftarrow> rwlock_get_write_access (l_processLock k); Some (k\<lparr>l_processLock := l\<rparr>) }"

definition release_processes :: "kstate \<Rightarrow> kstate" where
  "release_processes k = k\<lparr>l_processLock := rwlock_release (l_processLock k)\<rparr>"

partial_function (option) find_process_loop :: "kstate \<Rightarrow> buffer \<Rightarrow> addr option \<Rightarrow> int option" where
  "find_process_loop k name tmp =
     (case tmp of
        None \<Rightarrow> Some (-1)
      | Some a \<Rightarrow> if strncmp name (p_name (procs k a)) NAME_LENGTH = 0 then Some (p_pid (procs k a))
                  else find_process_loop k name (nxt (plist k a)))"

definition find_process :: "kstate \<Rightarrow> buffer \<Rightarrow> (int \<times> kstate) option" where
  "find_process k name = do {
     k \<leftarrow> read_processes k;
     pid \<leftarrow> find_process_loop k name (l_rootProcess k);
     Some (pid, release_processes k)
   }"

text \<open>\<open>htable_insert( l_processTable, proc )\<close>, whose result is not looked at, and the removal.\<close>

definition table_insert :: "bool \<Rightarrow> addr \<Rightarrow> kstate \<Rightarrow> kstate option" where
  "table_insert mem proc k = do {
     (_, t) \<leftarrow> htable_insert mem (\<lambda>a. ptable_key (p_pid (procs k a))) (l_processTable k) proc;
     Some (k\<lparr>l_processTable := t\<rparr>)
   }"

definition table_remove :: "bool \<Rightarrow> addr \<Rightarrow> kstate \<Rightarrow> kstate option" where
  "table_remove mem proc k = do {
     (_, t) \<leftarrow> htable_remove mem (\<lambda>a. ptable_key (p_pid (procs k a))) (l_processTable k) proc;
     Some (k\<lparr>l_processTable := t\<rparr>)
   }"

definition insert_process :: "bool \<Rightarrow> kstate \<Rightarrow> int \<Rightarrow> addr \<Rightarrow> (int \<times> kstate) option" where
  "insert_process mem k pid proc =
     (case l_rootProcess k of
        None \<Rightarrow> do {
          k \<leftarrow> table_insert mem proc (k\<lparr>l_rootProcess := Some proc\<rparr>);
          Some (p_pid (procs k proc), k)
        }
      | Some root \<Rightarrow> do {
          assert (pid > 0);
          k \<leftarrow> write_processes k;
          parent \<leftarrow> lookup_pid k pid;
          parent \<leftarrow> parent;
          let k = k\<lparr>pfam := family_add_child parent proc (pfam k)\<rparr>;
          let k = k\<lparr>plist := list_insertAfter root proc (plist k)\<rparr>;
          k \<leftarrow> table_insert mem proc k;
          Some (p_pid (procs k proc), release_processes k)
        })"

definition remove_process :: "bool \<Rightarrow> kstate \<Rightarrow> addr \<Rightarrow> kstate option" where
  "remove_process mem k proc = do {
     k \<leftarrow> write_processes k;
     parent \<leftarrow> fparent (pfam k proc);
     f \<leftarrow> family_adopt parent proc (pfam k);
     let k = k\<lparr>pfam := family_remove proc f\<rparr>;
     let k = k\<lparr>plist := list_remove proc (plist k)\<rparr>;
     k \<leftarrow> table_remove mem proc k;
     Some (release_processes k)
   }"

text \<open>The list of processes stays locked for reading while a process is checked out.\<close>

datatype access = READER | WRITER

definition checkout_process :: "kstate \<Rightarrow> int \<Rightarrow> access \<Rightarrow> (addr option \<times> kstate) option" where
  "checkout_process k pid flags = do {
     k \<leftarrow> read_processes k;
     p \<leftarrow> lookup_pid k pid;
     (case p of
        None \<Rightarrow> Some (None, release_processes k)
      | Some a \<Rightarrow> do {
          l \<leftarrow> (if flags = READER then rwlock_get_read_access (p_lock (procs k a)) else rwlock_get_write_access (p_lock (procs k a)));
          Some (Some a, upd_proc a (\<lambda>p. p\<lparr>p_lock := l\<rparr>) k)
        })
   }"

definition commit_process :: "addr \<Rightarrow> kstate \<Rightarrow> kstate" where
  "commit_process a k = release_processes (upd_proc a (\<lambda>p. p\<lparr>p_lock := rwlock_release (p_lock p)\<rparr>) k)"

text \<open>The callback reads the process and threads a state of its own.\<close>

partial_function (option) foreach_loop ::
    "kstate \<Rightarrow> (addr \<Rightarrow> 's \<Rightarrow> (int \<times> 's) option) \<Rightarrow> addr option \<Rightarrow> 's \<Rightarrow> (int \<times> 's) option" where
  "foreach_loop k callback p s =
     (case p of
        None \<Rightarrow> Some (0, s)
      | Some a \<Rightarrow> do {
          (ans, s) \<leftarrow> callback a s;
          if ans \<noteq> 0 then Some (ans, s) else foreach_loop k callback (nxt (plist k a)) s
        })"

definition process_foreach ::
    "kstate \<Rightarrow> (addr \<Rightarrow> 's \<Rightarrow> (int \<times> 's) option) \<Rightarrow> access \<Rightarrow> 's \<Rightarrow> (int \<times> 's \<times> kstate) option" where
  "process_foreach k callback flags s = do {
     k \<leftarrow> (if flags = READER then read_processes k else write_processes k);
     (ans, s) \<leftarrow> foreach_loop k callback (l_rootProcess k) s;
     Some (ans, s, release_processes k)
   }"

record process_information =
  pi_name :: buffer
  pi_cmdline :: buffer
  pi_pid :: int
  pi_state :: int

definition cmd_line :: buffer where
  "cmd_line = (\<lambda>i. if i < 8 then [67, 77, 68, 95, 76, 73, 78, 69] ! i else 0)"

definition list_callback ::
    "kstate \<Rightarrow> int \<Rightarrow> addr \<Rightarrow> int \<times> (int \<Rightarrow> process_information) \<Rightarrow> (int \<times> int \<times> (int \<Rightarrow> process_information)) option" where
  "list_callback k mx a = (\<lambda>(cnt, lst). do {
     let p = procs k a;
     let e = (lst cnt)\<lparr>pi_name := strncpy (pi_name (lst cnt)) (p_name p) NAME_LENGTH\<rparr>;
     let (rc, c) = get_environment (p_env p) cmd_line (pi_cmdline e) CMDLINE_LENGTH;
     assert (rc \<ge> 0);
     let lst = lst(cnt := e\<lparr>pi_cmdline := c, pi_pid := p_pid p, pi_state := p_state p\<rparr>);
     Some (if cnt + 1 = mx then -1 else 0, cnt + 1, lst)
   })"

definition process_get_list :: "kstate \<Rightarrow> int \<Rightarrow> (int \<Rightarrow> process_information) \<Rightarrow> (int \<times> (int \<Rightarrow> process_information) \<times> kstate) option" where
  "process_get_list k mx lst = do {
     (_, (cnt, lst), k) \<leftarrow> process_foreach k (list_callback k mx) WRITER (0, lst);
     Some (cnt, lst, k)
   }"

subsection \<open>The invariant of the three structures\<close>

definition pid_small :: "int \<Rightarrow> bool" where "pid_small pid \<longleftrightarrow> 0 < pid \<and> pid \<le> 2 ^ 23"

definition pkey :: "kstate \<Rightarrow> addr \<Rightarrow> int" where "pkey k a = ptable_key (p_pid (procs k a))"

definition pid_of :: "kstate \<Rightarrow> addr \<Rightarrow> int" where "pid_of k a = p_pid (procs k a)"

text \<open>\<open>ps\<close>: the processes in list order, the root first.\<close>

definition ptable_inv :: "kstate \<Rightarrow> addr list \<Rightarrow> bool" where
  "ptable_inv k ps \<longleftrightarrow> ps \<noteq> [] \<and> l_rootProcess k = Some (hd ps) \<and> dlist (plist k) ps \<and>
     ht_ready (pkey k) (l_processTable k) \<and> mset (ht_list (l_processTable k)) = mset ps \<and>
     inj_on (pid_of k) (set ps) \<and> (\<forall>a\<in>set ps. pid_small (pid_of k a)) \<and> rw_free (l_processLock k)"

text \<open>
  \<open>cs\<close>: the children of each process. Every process but the root is a child of one, and there
  are no cycles.
\<close>

definition ptree_inv :: "kstate \<Rightarrow> addr list \<Rightarrow> (addr \<Rightarrow> addr list) \<Rightarrow> bool" where
  "ptree_inv k ps cs \<longleftrightarrow> (\<forall>p\<in>set ps. kids (pfam k) p (cs p)) \<and> (\<Union>p\<in>set ps. set (cs p)) = set (tl ps) \<and>
     (\<exists>rank :: addr \<Rightarrow> nat. \<forall>p\<in>set ps. \<forall>c\<in>set (cs p). rank p < rank c)"

lemma upid_small: "pid_small p \<Longrightarrow> upid p = p" "upid (-1) = 4294967295"
  by (simp_all add: pid_small_def upid_def)

lemma ptable_key_small: "pid_small pid \<Longrightarrow> ptable_key pid = pid * 100 \<and> key_small (ptable_key pid)"
  by (simp add: upid_small ptable_key_def key_small_def ht_abs_key_def Let_def) (simp add: pid_small_def)

lemmas ptable_key_ok = ptable_key_small [THEN conjunct2]

lemma pkey_fun: "(\<lambda>a. ptable_key (p_pid (procs k a))) = pkey k"
  by (simp add: pkey_def fun_eq_iff)

lemma ptable_compare_pid: "pid_small (p_pid a) \<Longrightarrow> pid_small pid \<Longrightarrow> ptable_compare a (pid, n) = 0 \<longleftrightarrow> p_pid a = pid"
  unfolding ptable_compare_def fst_conv upid_small(2) by (simp add: upid_small) (simp add: pid_small_def)

lemma set_ht_list_eq: "mset (ht_list t) = mset ps \<Longrightarrow> set (ht_list t) = set ps"
  by (metis set_mset_mset)

lemma lookup_pid_iff:
  assumes "ht_ready (pkey k) (l_processTable k)" "mset (ht_list (l_processTable k)) = mset ps" "inj_on (pid_of k) (set ps)"
    "\<forall>a\<in>set ps. pid_small (pid_of k a)" "pid_small pid"
  shows "\<exists>r. lookup_pid k pid = Some r \<and> (\<forall>a. r = Some a \<longleftrightarrow> a \<in> set ps \<and> pid_of k a = pid)"
proof -
  have cmp: "a \<in> set ps \<Longrightarrow> ptable_compare (procs k a) (pid, empty_name) = 0 \<longleftrightarrow> pid_of k a = pid" for a
    using assms(4,5) ptable_compare_pid [of "procs k a" pid] by (simp add: pid_of_def)
  have "key_small (ptable_key (fst (pid, empty_name)))" using ptable_key_ok [OF assms(5)] by simp
  with ht.look_ok [where skey = "\<lambda>s. ptable_key (fst s)" and s = "(pid, empty_name)"
      and cmp = "\<lambda>a s. ptable_compare (procs k a) s", OF assms(1)]
  obtain r where r: "lookup_pid k pid = Some r"
    "case r of None \<Rightarrow> \<forall>a. a \<in> set ps \<longrightarrow> pid_of k a \<noteq> pid | Some a \<Rightarrow> a \<in> set ps \<and> pid_of k a = pid"
    using set_ht_list_eq [OF assms(2)] cmp by (auto simp: lookup_pid_def split: option.splits)
  with assms(3) show ?thesis by (cases r) (auto dest: inj_onD)
qed

lemma lookup_pid_inv:
  assumes "ptable_inv k ps" "pid_small pid"
  shows "\<exists>r. lookup_pid k pid = Some r \<and> (\<forall>a. r = Some a \<longleftrightarrow> a \<in> set ps \<and> pid_of k a = pid)"
  by (rule lookup_pid_iff) (use assms in \<open>auto simp: ptable_inv_def\<close>)

lemma lookup_pid_lock [simp]: "lookup_pid (k\<lparr>l_processLock := l\<rparr>) pid = lookup_pid k pid"
  by (simp add: lookup_pid_def)

lemma read_processes_ok:
  assumes "rw_free (l_processLock k)"
  obtains l where "read_processes k = Some (k\<lparr>l_processLock := l\<rparr>)" "rwlock_release l = l_processLock k"
  using rw_read_release [OF assms] by (auto simp: read_processes_def)

lemma write_processes_ok:
  assumes "rw_free (l_processLock k)"
  obtains l where "write_processes k = Some (k\<lparr>l_processLock := l\<rparr>)" "rwlock_release l = l_processLock k"
  using rw_write_release [OF assms] by (auto simp: write_processes_def)

subsection \<open>Insertion and removal\<close>

text \<open>There is room in the table, and the pid of the new process is not taken.\<close>

definition can_insert :: "kstate \<Rightarrow> addr list \<Rightarrow> addr \<Rightarrow> bool" where
  "can_insert k ps proc \<longleftrightarrow> proc \<notin> set ps \<and> pid_small (pid_of k proc) \<and> pid_of k proc \<notin> pid_of k ` set ps \<and>
     ht_total (l_processTable k) < ht_size (l_processTable k) \<and> ht_size (l_processTable k) \<le> 2 ^ 22"

lemma table_insert_ok:
  assumes "ht_ready (pkey k) (l_processTable k)" "pid_small (pid_of k proc)"
    "ht_total (l_processTable k) < ht_size (l_processTable k)" "ht_size (l_processTable k) \<le> 2 ^ 22"
  shows "\<exists>t. table_insert mem proc k = Some (k\<lparr>l_processTable := t\<rparr>) \<and> ht_ready (pkey k) t \<and>
    mset (ht_list t) = add_mset proc (mset (ht_list (l_processTable k)))"
proof -
  have "ht_can_put (pkey k) proc (l_processTable k)"
    using assms ptable_key_ok [OF assms(2)] by (simp add: ht_can_put_def pkey_def pid_of_def)
  from ht.put_ok [OF assms(1) this, where mem = mem]
  show ?thesis by (auto simp: table_insert_def pkey_fun)
qed

lemma table_remove_ok:
  assumes "ht_ready (pkey k) (l_processTable k)" "proc \<in> set (ht_list (l_processTable k))"
  shows "\<exists>t. table_remove mem proc k = Some (k\<lparr>l_processTable := t\<rparr>) \<and> ht_ready (pkey k) t \<and>
    mset (ht_list t) = mset (ht_list (l_processTable k)) - {#proc#}"
  using ht.del_ok [OF assms(1), of proc mem] assms(2) by (auto simp: table_remove_def pkey_fun)

lemma pkey_frame [simp]:
  "pkey (k\<lparr>l_processTable := t\<rparr>) = pkey k" "pkey (k\<lparr>l_processLock := l\<rparr>) = pkey k" "pkey (k\<lparr>plist := pl\<rparr>) = pkey k" "pkey (k\<lparr>pfam := pf\<rparr>) = pkey k"
  "pid_of (k\<lparr>l_processTable := t\<rparr>) = pid_of k" "pid_of (k\<lparr>l_processLock := l\<rparr>) = pid_of k" "pid_of (k\<lparr>plist := pl\<rparr>) = pid_of k"
  "pid_of (k\<lparr>pfam := pf\<rparr>) = pid_of k"
  by (simp_all add: pkey_def pid_of_def fun_eq_iff)

text \<open>What both operations change.\<close>

definition proc_step :: "kstate \<Rightarrow> kstate \<Rightarrow> bool" where
  "proc_step k k' \<longleftrightarrow> k'\<lparr>l_processTable := l_processTable k, plist := plist k, pfam := pfam k\<rparr> = k"

lemma insert_process_ok:
  assumes inv: "ptable_inv k ps" and pa: "parent \<in> set ps" and ci: "can_insert k ps proc"
  shows "\<exists>k'. insert_process mem k (pid_of k parent) proc = Some (pid_of k proc, k') \<and>
    ptable_inv k' (hd ps # proc # tl ps) \<and> pfam k' = family_add_child parent proc (pfam k) \<and> proc_step k k'"
proof -
  obtain root rest where ps: "ps = root # rest" using inv by (cases ps) (auto simp: ptable_inv_def)
  have I: "l_rootProcess k = Some root" "dlist (plist k) ps" "ht_ready (pkey k) (l_processTable k)" "mset (ht_list (l_processTable k)) = mset ps"
    "inj_on (pid_of k) (set ps)" "\<And>a. a \<in> set ps \<Longrightarrow> pid_small (pid_of k a)" "rw_free (l_processLock k)"
    using inv by (auto simp: ptable_inv_def ps)
  obtain l where l: "write_processes k = Some (k\<lparr>l_processLock := l\<rparr>)" "rwlock_release l = l_processLock k"
    by (rule write_processes_ok [OF I(7)])
  have lk: "lookup_pid k (pid_of k parent) = Some (Some parent)"
    using lookup_pid_inv [OF inv I(6) [OF pa]] pa by auto
  define k1 where "k1 = k\<lparr>l_processLock := l, pfam := family_add_child parent proc (pfam k), plist := list_insertAfter root proc (plist k)\<rparr>"
  have "ht_ready (pkey k1) (l_processTable k1)" "pid_small (pid_of k1 proc)"
    "ht_total (l_processTable k1) < ht_size (l_processTable k1)" "ht_size (l_processTable k1) \<le> 2 ^ 22"
    using I(3) ci by (simp_all add: k1_def can_insert_def)
  from table_insert_ok [OF this, of mem] obtain t where
    t: "table_insert mem proc k1 = Some (k1\<lparr>l_processTable := t\<rparr>)" "ht_ready (pkey k) t" "mset (ht_list t) = add_mset proc (mset ps)"
    using I(4) by (auto simp: k1_def)
  let ?k = "k\<lparr>pfam := family_add_child parent proc (pfam k), plist := list_insertAfter root proc (plist k), l_processTable := t\<rparr>"
  have "0 < pid_of k parent" using I(6) [OF pa] by (simp add: pid_small_def)
  then have e: "insert_process mem k (pid_of k parent) proc = Some (pid_of k proc, ?k)"
    using I(1) l lk t(1) by (simp add: insert_process_def k1_def release_processes_def pid_of_def)
  have "ptable_inv ?k (root # proc # rest)"
    using I ci t(2,3) dlist_insertAfter [of "plist k" "[]" root rest proc] I(2)
    unfolding ptable_inv_def by (auto simp: ps can_insert_def)
  then show ?thesis using e ps by (auto simp: proc_step_def)
qed

lemma remove_process_ok:
  assumes inv: "ptable_inv k (xs @ proc # ys)" "xs \<noteq> []" and fam: "fparent (pfam k proc) = Some q" "kids (pfam k) q zs" "kids (pfam k) proc cs" "q \<noteq> proc"
  shows "\<exists>k' f. remove_process mem k proc = Some k' \<and> ptable_inv k' (xs @ ys) \<and>
    family_adopt q proc (pfam k) = Some f \<and> pfam k' = family_remove proc f \<and> proc_step k k'"
proof -
  have I: "l_rootProcess k = Some (hd xs)" "dlist (plist k) (xs @ proc # ys)" "ht_ready (pkey k) (l_processTable k)"
    "mset (ht_list (l_processTable k)) = mset (xs @ proc # ys)"
    "inj_on (pid_of k) (set (xs @ proc # ys))" "\<And>a. a \<in> set (xs @ proc # ys) \<Longrightarrow> pid_small (pid_of k a)" "rw_free (l_processLock k)"
    using inv by (auto simp: ptable_inv_def hd_append)
  obtain l where l: "write_processes k = Some (k\<lparr>l_processLock := l\<rparr>)" "rwlock_release l = l_processLock k"
    by (rule write_processes_ok [OF I(7)])
  obtain f where f: "family_adopt q proc (pfam k) = Some f" using family_adopt_kids [OF fam(2,3,4)] by blast
  define k1 where "k1 = k\<lparr>l_processLock := l, pfam := family_remove proc f, plist := list_remove proc (plist k)\<rparr>"
  have "ht_ready (pkey k1) (l_processTable k1)" "proc \<in> set (ht_list (l_processTable k1))"
    using I(3) set_ht_list_eq [OF I(4)] by (simp_all add: k1_def)
  from table_remove_ok [OF this, of mem] obtain t where
    t: "table_remove mem proc k1 = Some (k1\<lparr>l_processTable := t\<rparr>)" "ht_ready (pkey k) t" "mset (ht_list t) = mset (xs @ ys)"
    using I(4) by (auto simp: k1_def)
  let ?k = "k\<lparr>pfam := family_remove proc f, plist := list_remove proc (plist k), l_processTable := t\<rparr>"
  have e: "remove_process mem k proc = Some ?k"
    using l f fam(1) t(1) by (simp add: remove_process_def k1_def release_processes_def)
  have "ptable_inv ?k (xs @ ys)"
    using I t(2,3) inv(2) dlist_remove(1) [OF I(2)]
    unfolding ptable_inv_def by (auto simp: hd_append inj_on_def)
  then show ?thesis using e f by (auto simp: proc_step_def)
qed

subsection \<open>The tree\<close>

lemma ptree_invD:
  assumes "ptree_inv k ps cs"
  shows "p \<in> set ps \<Longrightarrow> kids (pfam k) p (cs p)" "(\<Union>p\<in>set ps. set (cs p)) = set (tl ps)"
    "\<exists>rank :: addr \<Rightarrow> nat. \<forall>p\<in>set ps. \<forall>c\<in>set (cs p). rank p < rank c"
  using assms unfolding ptree_inv_def by blast+

lemma ptree_insert:
  assumes "ptree_inv k ps cs" "parent \<in> set ps" "proc \<notin> set ps" "ps \<noteq> []" "detached (pfam k) proc" "kids (pfam k) proc []"
    "pfam k' = family_add_child parent proc (pfam k)"
  shows "ptree_inv k' (hd ps # proc # tl ps) (cs(parent := proc # cs parent, proc := []))"
proof -
  let ?cs = "cs(parent := proc # cs parent, proc := [])"
  have T: "\<And>p. p \<in> set ps \<Longrightarrow> kids (pfam k) p (cs p)" "(\<Union>p\<in>set ps. set (cs p)) = set (tl ps)"
    using ptree_invD(1,2) [OF assms(1)] by blast+
  obtain rank :: "addr \<Rightarrow> nat" where rank: "\<And>p c. p \<in> set ps \<Longrightarrow> c \<in> set (cs p) \<Longrightarrow> rank p < rank c"
    using ptree_invD(3) [OF assms(1)] by metis
  have ss: "set (hd ps # proc # tl ps) = insert proc (set ps)" using assms(4) by (cases ps) auto
  have np: "proc \<noteq> parent" using assms(2,3) by blast
  have "kids (pfam k') p (?cs p)" if "p \<in> insert proc (set ps)" for p
    using that np assms(7) kids_add_child [OF T(1) [OF assms(2)] assms(5)] kids_add_child_other [OF T(1) [OF assms(2)] assms(5)] T(1) assms(6)
    by auto
  moreover have "(\<Union>p\<in>insert proc (set ps). set (?cs p)) = insert proc (set (tl ps))"
  proof -
    have "x \<in> set (?cs p) \<longleftrightarrow> x \<in> set (cs p) \<or> p = parent \<and> x = proc" if "p \<in> set ps" for x p
      using that assms(3) np by auto
    then have "(\<Union>p\<in>set ps. set (?cs p)) = insert proc (\<Union>p\<in>set ps. set (cs p))" using assms(2) by blast
    then show ?thesis unfolding T(2) by simp
  qed
  moreover have "\<forall>p\<in>insert proc (set ps). \<forall>c\<in>set (?cs p). (rank(proc := Suc (rank parent))) p < (rank(proc := Suc (rank parent))) c"
  proof (intro ballI)
    fix p c assume p: "p \<in> insert proc (set ps)" and c: "c \<in> set (?cs p)"
    have "c \<in> set (cs p) \<Longrightarrow> p \<in> set ps \<Longrightarrow> c \<noteq> proc"
      using T(2) assms(3,4) by (metis UN_I list.set_sel(2))
    with p c rank np show "(rank(proc := Suc (rank parent))) p < (rank(proc := Suc (rank parent))) c"
      by (auto split: if_splits)
  qed
  ultimately show ?thesis unfolding ptree_inv_def ss list.sel set_simps(2) [of proc, symmetric] by (metis list.simps(15))
qed

lemma ptree_parent:
  assumes "ptree_inv k ps cs" "proc \<in> set (tl ps)"
  obtains q where "q \<in> set ps" "proc \<in> set (cs q)" "q \<noteq> proc" "fparent (pfam k proc) = Some q" "q \<notin> set (cs proc)"
proof -
  obtain q where q: "q \<in> set ps" "proc \<in> set (cs q)" using assms(2) ptree_invD(2) [OF assms(1)] by blast
  obtain rank :: "addr \<Rightarrow> nat" where rank: "\<And>p c. p \<in> set ps \<Longrightarrow> c \<in> set (cs p) \<Longrightarrow> rank p < rank c"
    using ptree_invD(3) [OF assms(1)] by metis
  have p: "proc \<in> set ps" using assms(2) by (cases ps) auto
  have "kids (pfam k) q (cs q)" using assms(1) q(1) by (simp add: ptree_inv_def)
  then have "fparent (pfam k proc) = Some q" using q(2) by (simp add: kids_def)
  then show thesis using that [OF q] rank [OF q] rank [OF p, of q] by fastforce
qed

lemma ptree_remove:
  assumes tr: "ptree_inv k (xs @ proc # ys) cs" and ne: "xs \<noteq> []" "distinct (xs @ proc # ys)"
    and q: "q \<in> set (xs @ ys)" "proc \<in> set (cs q)"
    and f: "family_adopt q proc (pfam k) = Some f" "pfam k' = family_remove proc f"
  shows "ptree_inv k' (xs @ ys) (cs(q := rev (cs proc) @ remove1 proc (cs q)))"
proof -
  let ?cs = "cs(q := rev (cs proc) @ remove1 proc (cs q))"
  have T: "\<And>p. p \<in> set (xs @ proc # ys) \<Longrightarrow> kids (pfam k) p (cs p)" "(\<Union>p\<in>set (xs @ proc # ys). set (cs p)) = set (tl xs @ proc # ys)"
    using ptree_invD(1,2) [OF tr] ne(1) by (blast, simp)
  obtain rank :: "addr \<Rightarrow> nat" where rank: "\<And>p c. p \<in> set (xs @ proc # ys) \<Longrightarrow> c \<in> set (cs p) \<Longrightarrow> rank p < rank c"
    using ptree_invD(3) [OF tr] by metis
  have qp: "q \<noteq> proc" using q(1) ne(2) by auto
  have kq: "kids (pfam k) q (cs q)" and kp: "kids (pfam k) proc (cs proc)" using T(1) q(1) by auto
  obtain us vs where uv: "cs q = us @ proc # vs" "proc \<notin> set us" "proc \<notin> set vs"
    using kq split_list [OF q(2)] by (force simp: kids_def)
  have rm: "remove1 proc (cs q) = us @ vs" by (simp add: uv remove1_append)
  have F: "kids f q ((rev (cs proc) @ us) @ proc # vs)" "\<And>p zs. p \<noteq> q \<Longrightarrow> p \<noteq> proc \<Longrightarrow> kids (pfam k) p zs \<Longrightarrow> kids f p zs"
    using family_adopt_kids [OF kq kp qp] f(1) uv(1) by auto
  have "kids (pfam k') p (?cs p)" if "p \<in> set (xs @ ys)" for p
  proof (cases "p = q")
    case True
    then show ?thesis using kids_remove(1) [OF F(1)] rm f(2) by simp
  next
    case False
    then show ?thesis using kids_remove_other [OF F(1) F(2) [OF False]] that ne(2) T(1) f(2) by auto
  qed
  moreover have "(\<Union>p\<in>set (xs @ ys). set (?cs p)) = set (tl (xs @ ys))"
  proof -
    have pn: "proc \<notin> set (cs p)" if "p \<in> set (xs @ proc # ys)" "p \<noteq> q" for p
      using kids_disjoint [OF T(1) [OF that(1)] kq that(2)] q(2) by blast
    have "(\<Union>p\<in>set (xs @ ys). set (?cs p)) = (\<Union>p\<in>set (xs @ proc # ys). set (cs p)) - {proc}"
    proof -
      have "x \<in> set (?cs p) \<longleftrightarrow> (x \<in> set (cs p) \<or> p = q \<and> x \<in> set (cs proc)) \<and> x \<noteq> proc" if "p \<in> set (xs @ ys)" for x p
        using that pn [of p] pn [of proc] qp uv rm by (cases "p = q") auto
      then show ?thesis using q(1) by (simp only: set_append set_simps) blast
    qed
    also have "\<dots> = set (tl xs @ ys)" using T(2) ne by (auto dest: list.set_sel(2))
    finally show ?thesis using ne(1) by simp
  qed
  moreover have "\<forall>p\<in>set (xs @ ys). \<forall>c\<in>set (?cs p). rank p < rank c"
  proof (intro ballI)
    fix p c assume p: "p \<in> set (xs @ ys)" and c: "c \<in> set (?cs p)"
    show "rank p < rank c"
    proof (cases "p = q \<and> c \<in> set (cs proc)")
      case True
      then have "rank q < rank proc" "rank proc < rank c" using rank [of q proc] rank [of proc c] q by auto
      then show ?thesis using True by simp
    next
      case False
      then have "c \<in> set (cs p)" using c rm uv(1) by (auto split: if_splits)
      then show ?thesis using rank p by auto
    qed
  qed
  ultimately show ?thesis unfolding ptree_inv_def by blast
qed

subsection \<open>Lookups\<close>

lemma checkout_ok:
  assumes "ptable_inv k ps" "a \<in> set ps" "rw_free (p_lock (procs k a))"
  obtains k' where "checkout_process k (pid_of k a) flags = Some (Some a, k')" "commit_process a k' = k"
    "procs k' = (procs k)(a := (procs k a)\<lparr>p_lock := p_lock (procs k' a)\<rparr>)" "rw_free (p_lock (procs k' a)) = False"
    "threads k' = threads k"
proof -
  have sm: "pid_small (pid_of k a)" "rw_free (l_processLock k)" using assms(1,2) by (auto simp: ptable_inv_def)
  obtain l where l: "read_processes k = Some (k\<lparr>l_processLock := l\<rparr>)" "rwlock_release l = l_processLock k"
    by (rule read_processes_ok [OF sm(2)])
  have lk: "lookup_pid k (pid_of k a) = Some (Some a)" using lookup_pid_inv [OF assms(1) sm(1)] assms(2) by auto
  obtain pl where pl: "(if flags = READER then rwlock_get_read_access (p_lock (procs k a)) else rwlock_get_write_access (p_lock (procs k a))) = Some pl"
    "rwlock_release pl = p_lock (procs k a)" "num_readers pl = 1 \<or> num_writers pl = 1"
    using rw_read_release [OF assms(3)] rw_write_release [OF assms(3)] by (cases "flags = READER") auto
  show thesis
    by (rule that [of "upd_proc a (\<lambda>p. p\<lparr>p_lock := pl\<rparr>) (k\<lparr>l_processLock := l\<rparr>)"])
      (use l lk pl in \<open>auto simp: checkout_process_def commit_process_def release_processes_def upd_proc_def fun_upd_idem rw_free_def\<close>)
qed

lemma checkout_none:
  assumes "ptable_inv k ps" "pid_small pid" "pid \<notin> pid_of k ` set ps"
  shows "checkout_process k pid flags = Some (None, k)"
proof -
  obtain l where l: "read_processes k = Some (k\<lparr>l_processLock := l\<rparr>)" "rwlock_release l = l_processLock k"
    by (rule read_processes_ok [of k]) (use assms(1) in \<open>auto simp: ptable_inv_def\<close>)
  have "lookup_pid k pid = Some None" using lookup_pid_inv [OF assms(1,2)] assms(3) by (metis imageI not_Some_eq)
  with l show ?thesis by (simp add: checkout_process_def release_processes_def)
qed

lemma dseg_next: "dseg nx pv p (x # xs) None \<Longrightarrow> nx x = fhead xs"
  by (simp add: fhead_def)

lemma find_process_loop_eq:
  assumes "dseg (\<lambda>a. nxt (plist k a)) (\<lambda>a. prev (plist k a)) p ps None"
  shows "find_process_loop k name (fhead ps) =
    Some (case find (\<lambda>a. strncmp name (p_name (procs k a)) NAME_LENGTH = 0) ps of None \<Rightarrow> -1 | Some a \<Rightarrow> pid_of k a)"
  using assms
proof (induction ps arbitrary: p)
  case Nil
  show ?case by (subst find_process_loop.simps) (simp add: fhead_def)
next
  case (Cons x xs)
  then have "nxt (plist k x) = fhead xs" using dseg_next [OF Cons(2)] by simp
  then show ?case using Cons by (subst find_process_loop.simps) (auto simp: fhead_def pid_of_def)
qed

text \<open>A callback run over a list.\<close>

fun walk :: "(addr \<Rightarrow> 's \<Rightarrow> (int \<times> 's) option) \<Rightarrow> addr list \<Rightarrow> 's \<Rightarrow> (int \<times> 's) option" where
  "walk cb [] s = Some (0, s)"
| "walk cb (a # as) s = do { (ans, s) \<leftarrow> cb a s; if ans \<noteq> 0 then Some (ans, s) else walk cb as s }"

lemma foreach_loop_eq:
  assumes "dseg (\<lambda>a. nxt (plist k a)) (\<lambda>a. prev (plist k a)) p ps None"
  shows "foreach_loop k cb (fhead ps) s = walk cb ps s"
  using assms
proof (induction ps arbitrary: p s)
  case Nil
  show ?case by (subst foreach_loop.simps) (simp add: fhead_def)
next
  case (Cons x xs)
  then have "nxt (plist k x) = fhead xs" using dseg_next [OF Cons(2)] by simp
  moreover have "fhead (x # xs) = Some x" by (simp add: fhead_def)
  ultimately show ?case using Cons by (subst foreach_loop.simps) (auto intro!: arg_cong2 [where f = Option.bind])
qed

lemma process_foreach_eq:
  assumes "ptable_inv k ps"
  shows "process_foreach k cb flags s = map_option (\<lambda>(ans, s). (ans, s, k)) (walk cb ps s)"
proof -
  have I: "rw_free (l_processLock k)" "l_rootProcess k = fhead ps" "dseg (\<lambda>a. nxt (plist k a)) (\<lambda>a. prev (plist k a)) None ps None"
    using assms by (auto simp: ptable_inv_def dlist_def fhead_def)
  obtain l where l: "(if flags = READER then read_processes k else write_processes k) = Some (k\<lparr>l_processLock := l\<rparr>)" "rwlock_release l = l_processLock k"
    using read_processes_ok [OF I(1)] write_processes_ok [OF I(1)] by (metis (full_types))
  have "foreach_loop (k\<lparr>l_processLock := l\<rparr>) cb (fhead ps) s = walk cb ps s"
    by (rule foreach_loop_eq [of _ None]) (use I(3) in simp)
  then show ?thesis using l I(2) by (cases "walk cb ps s") (auto simp: process_foreach_def release_processes_def)
qed

subsection \<open>Fresh ids\<close>

definition pids :: "kstate \<Rightarrow> int set" where
  "pids k = pid_of k ` set (ht_list (l_processTable k))"

definition table_ok :: "kstate \<Rightarrow> bool" where
  "table_ok k \<longleftrightarrow> ht_ready (pkey k) (l_processTable k) \<and> inj_on (pid_of k) (set (ht_list (l_processTable k))) \<and>
     (\<forall>a\<in>set (ht_list (l_processTable k)). pid_small (pid_of k a))"

lemma ptable_inv_table: "ptable_inv k ps \<Longrightarrow> table_ok k \<and> pids k = pid_of k ` set ps"
  using set_ht_list_eq [of "l_processTable k" ps] by (auto simp: ptable_inv_def table_ok_def pids_def)

interpretation pid: id_counter lookup_pid next_pid_loop pids table_ok 1
proof (unfold_locales, goal_cases)
  case 1
  then show ?case by simp
next
  case (2 k q)
  then have "pid_small q" by (simp add: pid_small_def)
  then obtain r where r: "lookup_pid k q = Some r" "\<And>a. r = Some a \<longleftrightarrow> a \<in> set (ht_list (l_processTable k)) \<and> pid_of k a = q"
    using lookup_pid_iff [of k "ht_list (l_processTable k)" q] 2 unfolding table_ok_def by blast
  have "r = None \<longleftrightarrow> q \<notin> pids k" unfolding pids_def image_iff using r(2) by (metis not_Some_eq)
  with r(1) show ?case by blast
next
  case (3 k)
  then show ?case by (simp add: pids_def)
next
  case (4 k q r)
  then show ?case by (subst next_pid_loop.simps) simp
next
  case (5 q k)
  then show ?case by (subst (1 2) next_pid_loop.simps) (simp add: Let_def)
qed

subsection \<open>The list of processes\<close>

definition has_cmd :: "kstate \<Rightarrow> addr \<Rightarrow> bool" where
  "has_cmd k a \<longleftrightarrow> env_find (p_env (procs k a)) cmd_line < environment_count (p_env (procs k a))"

lemma get_cmd_line: "0 \<le> fst (get_environment (p_env (procs k a)) cmd_line b CMDLINE_LENGTH) \<longleftrightarrow> has_cmd k a"
proof (cases "has_cmd k a")
  case True
  let ?e = "env_size (env_array (p_env (procs k a)) (env_find (p_env (procs k a)) cmd_line))"
  have "unat (if ?e > CMDLINE_LENGTH then CMDLINE_LENGTH else ?e) \<le> 256"
    using word_le_nat_alt [of ?e CMDLINE_LENGTH] by (simp add: CMDLINE_LENGTH_def not_less)
  then have "0 \<le> sint (if ?e > CMDLINE_LENGTH then CMDLINE_LENGTH else ?e)" by (subst sint_small) (linarith, rule of_nat_0_le_iff)
  then show ?thesis using True by (simp add: get_environment_def has_cmd_def Let_def)
qed (simp add: get_environment_def has_cmd_def Let_def)

lemma list_callback_eq:
  "\<exists>e. list_callback k mx a (c, lst) =
    (if has_cmd k a then Some (if c + 1 = mx then -1 else 0, c + 1, lst(c := e)) else None) \<and> pi_pid e = pid_of k a"
proof -
  obtain rc b where g: "get_environment (p_env (procs k a)) cmd_line (pi_cmdline (lst c)) CMDLINE_LENGTH = (rc, b)" by fastforce
  have rc: "0 \<le> rc \<longleftrightarrow> has_cmd k a" using get_cmd_line [of k a "pi_cmdline (lst c)"] unfolding g by simp
  show ?thesis
    by (rule exI) (auto simp: list_callback_def Let_def g rc pid_of_def)
qed

lemma walk_list:
  assumes "c < mx" "\<And>a. a \<in> set ps \<Longrightarrow> has_cmd k a"
  shows "\<exists>ans lst'. walk (list_callback k mx) ps (c, lst) = Some (ans, min mx (c + int (length ps)), lst') \<and>
    (\<forall>i. pi_pid (lst' i) = (if c \<le> i \<and> i < min mx (c + int (length ps)) then pid_of k (ps ! nat (i - c)) else pi_pid (lst i)))"
  using assms
proof (induction ps arbitrary: c lst)
  case (Cons a ps)
  obtain e where e: "list_callback k mx a (c, lst) = Some (if c + 1 = mx then -1 else 0, c + 1, lst(c := e))" "pi_pid e = pid_of k a"
    using list_callback_eq [of k mx a c lst] Cons(3) [of a] by auto
  show ?case
  proof (cases "c + 1 = mx")
    case True
    then show ?thesis using e by auto
  next
    case False
    have "\<exists>ans lst'. walk (list_callback k mx) ps (c + 1, lst(c := e)) = Some (ans, min mx (c + 1 + int (length ps)), lst') \<and>
      (\<forall>i. pi_pid (lst' i) = (if c + 1 \<le> i \<and> i < min mx (c + 1 + int (length ps)) then pid_of k (ps ! nat (i - (c + 1))) else pi_pid ((lst(c := e)) i)))"
      by (rule Cons(1)) (use Cons(2,3) False in auto)
    then obtain ans lst' where l: "walk (list_callback k mx) ps (c + 1, lst(c := e)) = Some (ans, min mx (c + 1 + int (length ps)), lst')"
      "\<And>i. pi_pid (lst' i) = (if c + 1 \<le> i \<and> i < min mx (c + 1 + int (length ps)) then pid_of k (ps ! nat (i - (c + 1))) else pi_pid ((lst(c := e)) i))"
      by blast
    have "nat (i - c) = Suc (nat (i - (c + 1)))" if "c + 1 \<le> i" for i using that by simp
    then have "pi_pid (lst' i) = (if c \<le> i \<and> i < min mx (c + int (length (a # ps))) then pid_of k ((a # ps) ! nat (i - c)) else pi_pid (lst i))" for i
      using l(2) [of i] e(2) Cons(2) by auto
    moreover have "walk (list_callback k mx) (a # ps) (c, lst) = Some (ans, min mx (c + int (length (a # ps))), lst')"
      using e(1) l(1) False by (simp add: algebra_simps)
    ultimately show ?thesis by blast
  qed
qed auto

lemma walk_list_fails:
  assumes "c + int (length xs) < mx" "\<not> has_cmd k a"
  shows "walk (list_callback k mx) (xs @ a # ys) (c, lst) = None"
  using assms(1)
proof (induction xs arbitrary: c lst)
  case Nil
  then show ?case using list_callback_eq [of k mx a c lst] assms(2) by auto
next
  case (Cons x xs)
  obtain e where e: "list_callback k mx x (c, lst) = (if has_cmd k x then Some (if c + 1 = mx then -1 else 0, c + 1, lst(c := e)) else None)"
    using list_callback_eq [of k mx x c lst] by blast
  have "walk (list_callback k mx) (xs @ a # ys) (c + 1, lst(c := e)) = None" by (rule Cons(1)) (use Cons(2) in simp)
  then show ?case using e Cons(2) by simp
qed

subsection \<open>Properties\<close>

text \<open>
  C36. Invariant. Inserting a new process under a parent keeps table, linear list and tree
  in step: the process comes right after the root in the list and first among the children of
  its parent; nothing else of the kernel state changes.
\<close>

theorem insert_process_invariant:
  assumes "ptable_inv k ps" "ptree_inv k ps cs" "parent \<in> set ps" "can_insert k ps proc"
    and "detached (pfam k) proc" "kids (pfam k) proc []"
  shows "\<exists>k'. insert_process mem k (pid_of k parent) proc = Some (pid_of k proc, k') \<and>
    ptable_inv k' (hd ps # proc # tl ps) \<and> ptree_inv k' (hd ps # proc # tl ps) (cs(parent := proc # cs parent, proc := [])) \<and> proc_step k k'"
proof -
  obtain k' where k': "insert_process mem k (pid_of k parent) proc = Some (pid_of k proc, k')"
    "ptable_inv k' (hd ps # proc # tl ps)" "pfam k' = family_add_child parent proc (pfam k)" "proc_step k k'"
    using insert_process_ok [OF assms(1,3,4)] by blast
  have "proc \<notin> set ps" "ps \<noteq> []" using assms(1,4) by (auto simp: can_insert_def ptable_inv_def)
  from k' ptree_insert [OF assms(2,3) this assms(5,6) k'(3)] show ?thesis by blast
qed

definition k_proc :: kstate where
  "k_proc = (k_blank 1)\<lparr>procs := (\<lambda>a. process_blank\<lparr>p_pid := int a\<rparr>),
     l_processTable := \<lparr>ht_total = 2, ht_size = 8, ht_percent = 75, ht_table = (\<lambda>_. None)(0 := Some 1, 1 := Some 2)\<rparr>,
     l_rootProcess := Some 1, plist := list_insertAfter 1 2 (\<lambda>_. \<lparr>prev = None, nxt = None\<rparr>),
     pfam := family_add_child 1 2 fam_blank\<rparr>"

lemma k_proc_list: "ht_list (l_processTable k_proc) = [1, 2]"
  by (simp add: k_proc_def ht_list_def arr_list_def List.map_filter_simps upt_rec)

lemma k_proc_pid: "pid_of k_proc a = int a"
  by (simp add: k_proc_def pid_of_def)

lemma k_proc_inv: "ptable_inv k_proc [1, 2]"
proof -
  have "ht_ready (pkey k_proc) (l_processTable k_proc)"
    by (simp add: ht_ready_def ht_inv_def ht_fits_def k_proc_list pkey_def k_proc_pid [unfolded pid_of_def] ptable_key_def key_small_def
      ht_abs_key_def upid_def) (simp add: k_proc_def)
  moreover have "dlist (plist k_proc) [1, 2]"
    by (simp add: dlist_def k_proc_def list_insertAfter_def Let_def)
  ultimately show ?thesis
    by (simp add: ptable_inv_def k_proc_list k_proc_pid pid_small_def) (simp add: k_proc_def k_blank_def rw_free_def init_rwlock_def)
qed

lemma k_proc_tree: "ptree_inv k_proc [1, 2] ((\<lambda>_. [])(1 := [2]))"
  unfolding ptree_inv_def
  by (simp add: k_proc_def kids_def fhead_def fam_blank_def family_add_child_def family_init_def Let_def) (rule exI [of _ id], simp)

theorem insert_process_invariant_witness:
  "\<exists>k'. insert_process True k_proc 2 3 = Some (3, k') \<and> ptable_inv k' [1, 3, 2] \<and> ptree_inv k' [1, 3, 2] ((\<lambda>_. [])(1 := [2], 2 := [3], 3 := []))"
proof -
  have "can_insert k_proc [1, 2] 3" by (simp add: can_insert_def k_proc_pid pid_small_def) (simp add: k_proc_def)
  moreover have "detached (pfam k_proc) 3" "kids (pfam k_proc) 3 []"
    by (simp_all add: k_proc_def detached_def kids_def fhead_def fam_blank_def family_add_child_def family_init_def Let_def)
  ultimately show ?thesis
    using insert_process_invariant [OF k_proc_inv k_proc_tree, of 2 3 True] by (auto simp: k_proc_pid)
qed

text \<open>
  Invariant. Removing a process other than the root takes it out of table, list and tree; its
  children become the first children of its parent, in reverse order.
\<close>

theorem remove_process_invariant:
  assumes "ptable_inv k (xs @ proc # ys)" "xs \<noteq> []" "ptree_inv k (xs @ proc # ys) cs"
  shows "\<exists>k' q. remove_process mem k proc = Some k' \<and> ptable_inv k' (xs @ ys) \<and> proc \<in> set (cs q) \<and>
    ptree_inv k' (xs @ ys) (cs(q := rev (cs proc) @ remove1 proc (cs q))) \<and> proc_step k k'"
proof -
  have tl: "proc \<in> set (tl (xs @ proc # ys))" using assms(2) by simp
  obtain q where q: "q \<in> set (xs @ proc # ys)" "proc \<in> set (cs q)" "q \<noteq> proc" "fparent (pfam k proc) = Some q"
    using ptree_parent [OF assms(3) tl] by blast
  have kd: "kids (pfam k) q (cs q)" "kids (pfam k) proc (cs proc)" using ptree_invD(1) [OF assms(3)] q(1) by auto
  have d: "distinct (xs @ proc # ys)" using assms(1) by (simp add: ptable_inv_def dlist_def)
  obtain k' f where k': "remove_process mem k proc = Some k'" "ptable_inv k' (xs @ ys)"
    "family_adopt q proc (pfam k) = Some f" "pfam k' = family_remove proc f" "proc_step k k'"
    using remove_process_ok [OF assms(1,2) q(4) kd q(3)] by blast
  have "q \<in> set (xs @ ys)" using q(1,3) by auto
  from k' q(2) ptree_remove [OF assms(3,2) d this q(2) k'(3,4)] show ?thesis by blast
qed

theorem remove_process_invariant_witness:
  "\<exists>k'. remove_process True k_proc 2 = Some k' \<and> ptable_inv k' [1]"
  using remove_process_invariant [of k_proc "[1]" 2 "[]"] k_proc_inv k_proc_tree by auto

text \<open>
  Round trip. Checking out a process by its id gives that process, with its lock held
  whichever access is asked for, and committing it leaves the kernel state as it was before.
\<close>

theorem checkout_commit:
  assumes "ptable_inv k ps" "a \<in> set ps" "rw_free (p_lock (procs k a))"
  shows "\<exists>k'. checkout_process k (pid_of k a) flags = Some (Some a, k') \<and> \<not> rw_free (p_lock (procs k' a)) \<and> commit_process a k' = k"
  using checkout_ok [OF assms, of flags] by metis

theorem checkout_commit_witness:
  "\<exists>k'. checkout_process k_proc 2 WRITER = Some (Some 2, k') \<and> commit_process 2 k' = k_proc"
proof -
  have "rw_free (p_lock (procs k_proc 2))" by (simp add: k_proc_def process_blank_def rw_free_def init_rwlock_def)
  with checkout_commit [OF k_proc_inv, of 2 WRITER] show ?thesis by (auto simp: k_proc_pid)
qed

text \<open>
  The choice of an id returns: the id is not in use, and at most as far from the counter as
  there are processes (while the ids stay below \<open>2 ^ 23\<close>).
\<close>

theorem next_pid_fresh:
  assumes "ptable_inv k ps" "\<not> l_PIDlock k" "0 < l_PID k" "l_PID k + int (length ps) \<le> 2 ^ 23"
  shows "\<exists>pid. next_pid k = Some (pid, k\<lparr>l_PID := pid + 1\<rparr>) \<and> l_PID k \<le> pid \<and> pid \<le> l_PID k + int (length ps) \<and>
    pid \<notin> pid_of k ` set ps"
proof -
  have t: "table_ok k" "pids k = pid_of k ` set ps" using ptable_inv_table [OF assms(1)] by auto
  have n: "card (pids k) \<le> length ps"
    unfolding t(2) by (rule order_trans [OF card_image_le]) (simp_all add: card_length)
  obtain pid where p: "next_pid_loop k True (l_PID k) = Some pid" "l_PID k \<le> pid" "pid \<le> l_PID k + int (card (pids k))" "pid \<notin> pids k"
    using pid.loop_fresh [OF t(1), of "l_PID k"] assms(3,4) n by fastforce
  moreover have "wrap32 (pid + 1) = pid + 1" using p(2,3) n assms(3,4) by (intro wrap32_id) auto
  ultimately show ?thesis using n assms(2) t(2) by (auto simp: next_pid_def)
qed

theorem next_pid_fresh_witness: "\<exists>pid. next_pid k_proc = Some (pid, k_proc\<lparr>l_PID := pid + 1\<rparr>) \<and> pid = 3"
proof -
  have p: "\<not> l_PIDlock k_proc" "l_PID k_proc = 1" by (simp_all add: k_proc_def k_blank_def)
  from next_pid_fresh [OF k_proc_inv p(1)] show ?thesis by (auto simp: p(2) k_proc_pid)
qed

text \<open>
  \<open>process_get_list\<close> fills the caller's array with the processes in list order, as many as
  there are or as the array holds, when each of them has the variable \<open>CMD_LINE\<close>.
\<close>

theorem process_get_list_fills:
  assumes "ptable_inv k ps" "0 < mx" "\<forall>a\<in>set ps. has_cmd k a"
  shows "\<exists>lst'. process_get_list k mx lst = Some (min mx (int (length ps)), lst', k) \<and>
    (\<forall>i. 0 \<le> i \<and> i < min mx (int (length ps)) \<longrightarrow> pi_pid (lst' i) = pid_of k (ps ! nat i))"
proof -
  obtain ans lst' where "walk (list_callback k mx) ps (0, lst) = Some (ans, min mx (0 + int (length ps)), lst')"
    "\<And>i. pi_pid (lst' i) = (if 0 \<le> i \<and> i < min mx (0 + int (length ps)) then pid_of k (ps ! nat (i - 0)) else pi_pid (lst i))"
    using walk_list [of 0 mx ps k lst] assms(2,3) by blast
  then show ?thesis by (auto simp: process_get_list_def process_foreach_eq [OF assms(1)])
qed

definition k_cmd :: kstate where
  "k_cmd = k_proc\<lparr>procs := (\<lambda>a. process_blank\<lparr>p_pid := int a, p_env :=
     \<lparr>environment = Some (\<lambda>_. \<lparr>env_name = cmd_line, env_size = 1, env_data = (\<lambda>_. 0)\<rparr>), environment_count = 1\<rparr>\<rparr>)\<rparr>"

definition pinfo_blank :: process_information where
  "pinfo_blank = \<lparr>pi_name = (\<lambda>_. 0), pi_cmdline = (\<lambda>_. 0), pi_pid = 0, pi_state = 0\<rparr>"

lemma k_cmd_inv: "ptable_inv k_cmd [1, 2]"
proof -
  have "pid_of k_cmd = pid_of k_proc" "pkey k_cmd = pkey k_proc"
    by (simp_all add: fun_eq_iff pid_of_def pkey_def k_cmd_def k_proc_def)
  then show ?thesis using k_proc_inv by (simp add: ptable_inv_def) (simp add: k_cmd_def)
qed

theorem process_get_list_fills_witness:
  "\<exists>lst'. process_get_list k_cmd 5 (\<lambda>_. pinfo_blank) = Some (2, lst', k_cmd) \<and> pi_pid (lst' 1) = 2"
proof -
  have "has_cmd k_cmd a" for a
    by (simp add: has_cmd_def k_cmd_def env_find_def arr_find.simps strncmp_zero_iff ENVIRONMENT_NAME_LENGTH_def)
  with process_get_list_fills [OF k_cmd_inv, of 5 "\<lambda>_. pinfo_blank"] show ?thesis
    by (auto simp: pid_of_def k_cmd_def)
qed

text \<open>
  A process without \<open>CMD_LINE\<close> stops the kernel: if one that would be listed has removed
  the variable from its environment, the assertion in \<open>process_get_list\<close> fails.
\<close>

theorem process_get_list_panics:
  assumes "ptable_inv k (xs @ a # ys)" "int (length xs) < mx" "\<not> has_cmd k a"
  shows "process_get_list k mx lst = None"
  using walk_list_fails [of 0 xs mx k a ys lst] assms(2,3) by (simp add: process_get_list_def process_foreach_eq [OF assms(1)])

theorem process_get_list_panics_witness: "process_get_list k_proc 5 (\<lambda>_. pinfo_blank) = None"
proof -
  have "\<not> has_cmd k_proc 1" by (simp add: has_cmd_def k_proc_def process_blank_def env_find_def)
  with process_get_list_panics [of k_proc "[]" 1 "[2]" 5] k_proc_inv show ?thesis by simp
qed

end
