(* ===== verification/Events.thy ===== *)
theory Events
  imports Process
begin

section \<open>Event handlers (kernel/src/events.c)\<close>

text \<open>
  A process can register for the events of another process or of one of its threads.
  The target keeps the pid of its handler and counts its hooks: the threads that have a handler,
  and the process itself if it has one.

  Shown: every call returns, the count of hooks stays the number of handlers that are set and the
  handler's pid is set exactly while there are some; a call that reports an error changes
  nothing.
\<close>

definition SMK_OK :: int where "SMK_OK = 0"
definition SMK_PID_NOT_FOUND :: int where "SMK_PID_NOT_FOUND = -3"
definition SMK_TID_NOT_FOUND :: int where "SMK_TID_NOT_FOUND = -4"
definition SMK_RESOURCE_ALLOCATED :: int where "SMK_RESOURCE_ALLOCATED = -5"
definition SMK_NOT_OWNER :: int where "SMK_NOT_OWNER = -9"

text \<open>The end of the function: the handler's pid, the sanity check and the release.\<close>

definition finish_handler :: "int \<Rightarrow> addr \<Rightarrow> kstate \<Rightarrow> (int \<times> kstate) option" where
  "finish_handler handler_pid proc k = do {
     let k = upd_proc proc (\<lambda>p. p\<lparr>p_event_pid := (if p_event_hooks p = 0 then -1 else handler_pid)\<rparr>) k;
     assert (p_event_hooks (procs k proc) \<ge> 0);
     Some (SMK_OK, commit_process proc k)
   }"

definition add_hooks :: "addr \<Rightarrow> int \<Rightarrow> kstate \<Rightarrow> kstate" where
  "add_hooks proc n = upd_proc proc (\<lambda>p. p\<lparr>p_event_hooks := p_event_hooks p + n\<rparr>)"

text \<open>The two branches, for a thread and for the process itself; the process is checked out.\<close>

definition thread_handler :: "kstate \<Rightarrow> addr \<Rightarrow> int \<Rightarrow> int \<Rightarrow> int \<Rightarrow> (int \<times> kstate) option" where
  "thread_handler k proc handler_pid handler_tid target_tid = do {
     t \<leftarrow> get_thread k proc target_tid;
     case t of
       None \<Rightarrow> Some (SMK_TID_NOT_FOUND, commit_process proc k)
     | Some tr \<Rightarrow>
         if handler_tid < 0 \<and> t_event_tid (threads k tr) < 0
         then Some (SMK_NOT_OWNER, commit_process proc k)
         else do {
           let k = (if handler_tid \<ge> 0 then (if t_event_tid (threads k tr) < 0 then add_hooks proc 1 k else k)
                    else add_hooks proc (-1) k);
           let k = upd_thread tr (\<lambda>t. t\<lparr>t_event_tid := handler_tid\<rparr>) k;
           finish_handler handler_pid proc k
         }
   }"

definition process_handler :: "kstate \<Rightarrow> addr \<Rightarrow> int \<Rightarrow> int \<Rightarrow> (int \<times> kstate) option" where
  "process_handler k proc handler_pid handler_tid =
     (if handler_tid < 0 \<and> p_event_tid (procs k proc) < 0
      then Some (SMK_NOT_OWNER, commit_process proc k)
      else do {
        let k = (if handler_tid < 0 then add_hooks proc (-1) k
                 else if p_event_tid (procs k proc) < 0 then add_hooks proc 1 k else k);
        let k = upd_proc proc (\<lambda>p. p\<lparr>p_event_tid := handler_tid\<rparr>) k;
        finish_handler handler_pid proc k
      })"

definition set_event_handler :: "kstate \<Rightarrow> int \<Rightarrow> int \<Rightarrow> int \<Rightarrow> int \<Rightarrow> (int \<times> kstate) option" where
  "set_event_handler k handler_pid handler_tid target_pid target_tid = do {
     assert (handler_pid \<ge> 0);
     if target_pid < 0 then Some (SMK_PID_NOT_FOUND, k)
     else do {
       (p, k) \<leftarrow> checkout_process k target_pid WRITER;
       case p of
         None \<Rightarrow> Some (SMK_PID_NOT_FOUND, k)
       | Some proc \<Rightarrow>
           if p_event_pid (procs k proc) \<ge> 0 \<and> p_event_pid (procs k proc) \<noteq> handler_pid
           then Some (SMK_RESOURCE_ALLOCATED, commit_process proc k)
           else if target_tid \<ge> 0 then thread_handler k proc handler_pid handler_tid target_tid
           else process_handler k proc handler_pid handler_tid
     }
   }"

subsection \<open>The count of hooks\<close>

definition hooked :: "kstate \<Rightarrow> addr \<Rightarrow> addr set" where
  "hooked k proc = {t \<in> set (thread_addrs k proc). t_event_tid (threads k t) \<ge> 0}"

definition handlers :: "kstate \<Rightarrow> addr \<Rightarrow> int" where
  "handlers k proc = int (card (hooked k proc)) + (if p_event_tid (procs k proc) \<ge> 0 then 1 else 0)"

definition hooks_ok :: "kstate \<Rightarrow> addr \<Rightarrow> bool" where
  "hooks_ok k proc \<longleftrightarrow> p_event_hooks (procs k proc) = handlers k proc \<and>
     (p_event_pid (procs k proc) \<ge> 0 \<longleftrightarrow> handlers k proc > 0)"

lemma hooked_finite [simp]: "finite (hooked k proc)"
  by (simp add: hooked_def)

lemma card_hooked_set:
  assumes "tr \<in> set (thread_addrs k proc)"
    and "thread_addrs k' proc = thread_addrs k proc" "\<And>t. t \<noteq> tr \<Longrightarrow> t_event_tid (threads k' t) = t_event_tid (threads k t)"
  shows "int (card (hooked k' proc)) = int (card (hooked k proc)) +
    (if t_event_tid (threads k' tr) \<ge> 0 then 1 else 0) - (if t_event_tid (threads k tr) \<ge> 0 then 1 else 0)"
proof -
  have "hooked k' proc - {tr} = hooked k proc - {tr}" using assms(2,3) by (auto simp: hooked_def)
  moreover have "int (card (hooked x proc)) = int (card (hooked x proc - {tr})) + (if tr \<in> hooked x proc then 1 else 0)" for x
    using card.remove [OF hooked_finite, of tr x proc] by auto
  moreover have "tr \<in> hooked k' proc \<longleftrightarrow> t_event_tid (threads k' tr) \<ge> 0" "tr \<in> hooked k proc \<longleftrightarrow> t_event_tid (threads k tr) \<ge> 0"
    using assms(1,2) by (simp_all add: hooked_def)
  ultimately show ?thesis by simp
qed

lemma hooks_okI:
  assumes "p_event_hooks (procs k proc) = handlers k proc"
    "p_event_pid (procs k proc) = (if handlers k proc = 0 then -1 else hp)" "hp \<ge> 0"
  shows "hooks_ok k proc"
proof -
  have "0 \<le> handlers k proc" by (simp add: handlers_def)
  then show ?thesis using assms by (auto simp: hooks_ok_def)
qed

lemma commit_event_fields [simp]:
  "p_event_hooks (procs (commit_process a k) b) = p_event_hooks (procs k b)" "p_event_pid (procs (commit_process a k) b) = p_event_pid (procs k b)"
  "p_event_tid (procs (commit_process a k) b) = p_event_tid (procs k b)" "p_threads_htable (procs (commit_process a k) b) = p_threads_htable (procs k b)"
  "threads (commit_process a k) = threads k"
  by (simp_all add: commit_process_def release_processes_def)

text \<open>The common end, once count and handlers agree.\<close>

lemma finish_handler_ok:
  assumes "p_event_hooks (procs k proc) = handlers k proc" "hp \<ge> 0"
  shows "\<exists>k'. finish_handler hp proc k = Some (SMK_OK, k') \<and> hooks_ok k' proc \<and> threads k' = threads k \<and>
    p_event_tid (procs k' proc) = p_event_tid (procs k proc)"
proof -
  let ?k = "upd_proc proc (\<lambda>p. p\<lparr>p_event_pid := (if p_event_hooks p = 0 then -1 else hp)\<rparr>) k"
  have h: "handlers (commit_process proc ?k) proc = handlers k proc"
    by (simp add: handlers_def hooked_def thread_addrs_def)
  have "0 \<le> handlers k proc" by (simp add: handlers_def)
  then have "finish_handler hp proc k = Some (SMK_OK, commit_process proc ?k)"
    using assms(1) by (simp add: finish_handler_def)
  moreover have "hooks_ok (commit_process proc ?k) proc"
    by (rule hooks_okI [where hp = hp]) (use assms h in simp_all)
  ultimately show ?thesis by simp
qed

text \<open>Result of a branch: an error that changed nothing, or the handler is set and the hooks are counted.\<close>

definition handled :: "kstate \<Rightarrow> addr \<Rightarrow> int \<Rightarrow> kstate \<Rightarrow> bool \<Rightarrow> bool" where
  "handled k proc rc k' done \<longleftrightarrow> (if rc = SMK_OK then hooks_ok k' proc \<and> done else k' = commit_process proc k)"

lemma error_codes: "SMK_PID_NOT_FOUND \<noteq> SMK_OK" "SMK_RESOURCE_ALLOCATED \<noteq> SMK_OK" "SMK_TID_NOT_FOUND \<noteq> SMK_OK" "SMK_NOT_OWNER \<noteq> SMK_OK"
  by (simp_all add: SMK_PID_NOT_FOUND_def SMK_RESOURCE_ALLOCATED_def SMK_TID_NOT_FOUND_def SMK_NOT_OWNER_def SMK_OK_def)

lemma thread_handler_ok:
  assumes "p_event_hooks (procs k proc) = handlers k proc" "hp \<ge> 0" "get_thread k proc tid = Some r" "\<And>a. r = Some a \<Longrightarrow> a \<in> set (thread_addrs k proc)"
  shows "\<exists>rc k'. thread_handler k proc hp h tid = Some (rc, k') \<and> handled k proc rc k' (\<exists>tr. r = Some tr \<and> t_event_tid (threads k' tr) = h)"
proof (cases r)
  case None
  then show ?thesis using assms(3) error_codes by (simp add: thread_handler_def handled_def)
next
  case (Some tr)
  show ?thesis
  proof (cases "h < 0 \<and> t_event_tid (threads k tr) < 0")
    case True
    then show ?thesis using assms(3) Some error_codes by (simp add: thread_handler_def handled_def)
  next
    case False
    define k1 where "k1 = (if h \<ge> 0 then (if t_event_tid (threads k tr) < 0 then add_hooks proc 1 k else k) else add_hooks proc (-1) k)"
    let ?k = "upd_thread tr (\<lambda>t. t\<lparr>t_event_tid := h\<rparr>) k1"
    have "int (card (hooked ?k proc)) = int (card (hooked k proc)) +
      (if t_event_tid (threads ?k tr) \<ge> 0 then 1 else 0) - (if t_event_tid (threads k tr) \<ge> 0 then 1 else 0)"
      by (rule card_hooked_set [OF assms(4) [OF Some]]) (simp_all add: thread_addrs_def add_hooks_def k1_def)
    then have "p_event_hooks (procs ?k proc) = handlers ?k proc"
      using assms(1) False by (auto simp: handlers_def add_hooks_def k1_def)
    from finish_handler_ok [OF this assms(2)] obtain k' where
      "finish_handler hp proc ?k = Some (SMK_OK, k')" "hooks_ok k' proc" "threads k' = threads ?k" by blast
    then show ?thesis using assms(3) Some False by (auto simp: thread_handler_def k1_def handled_def)
  qed
qed

lemma process_handler_ok:
  assumes "p_event_hooks (procs k proc) = handlers k proc" "hp \<ge> 0"
  shows "\<exists>rc k'. process_handler k proc hp h = Some (rc, k') \<and> handled k proc rc k' (p_event_tid (procs k' proc) = h)"
proof (cases "h < 0 \<and> p_event_tid (procs k proc) < 0")
  case True
  then show ?thesis using error_codes by (simp add: process_handler_def handled_def)
next
  case False
  define k1 where "k1 = (if h < 0 then add_hooks proc (-1) k else if p_event_tid (procs k proc) < 0 then add_hooks proc 1 k else k)"
  let ?k = "upd_proc proc (\<lambda>p. p\<lparr>p_event_tid := h\<rparr>) k1"
  have "p_event_hooks (procs ?k proc) = handlers ?k proc"
    using assms(1) False by (auto simp: handlers_def hooked_def thread_addrs_def add_hooks_def k1_def)
  from finish_handler_ok [OF this assms(2)] obtain k' where
    "finish_handler hp proc ?k = Some (SMK_OK, k')" "hooks_ok k' proc" "p_event_tid (procs k' proc) = p_event_tid (procs ?k proc)" by blast
  then show ?thesis using False by (auto simp: process_handler_def k1_def handled_def)
qed

subsection \<open>Property\<close>

text \<open>
  Invariant. \<open>set_event_handler\<close> returns. If it succeeds, the handler is set and the count of
  hooks of the target is the number of its handlers, with a handling process exactly when
  there are any; if it reports an error, nothing has changed.
\<close>

theorem set_event_handler_counts:
  assumes "ptable_inv k ps" "proc \<in> set ps" "rw_free (p_lock (procs k proc))" "threads_ok k proc" "hooks_ok k proc"
    and "handler_pid \<ge> 0" "target_tid < 0 \<or> tid_small target_tid"
  shows "\<exists>rc k'. set_event_handler k handler_pid handler_tid (pid_of k proc) target_tid = Some (rc, k') \<and> hooks_ok k' proc \<and>
    (if rc = SMK_OK then (if target_tid < 0 then p_event_tid (procs k' proc) = handler_tid
        else (\<exists>tr. get_thread k proc target_tid = Some (Some tr) \<and> t_event_tid (threads k' tr) = handler_tid))
     else k' = k)"
proof -
  have np: "\<not> pid_of k proc < 0" using assms(1,2) by (force simp: ptable_inv_def pid_small_def)
  obtain k1 where c: "checkout_process k (pid_of k proc) WRITER = Some (Some proc, k1)" "commit_process proc k1 = k"
    "procs k1 = (procs k)(proc := (procs k proc)\<lparr>p_lock := p_lock (procs k1 proc)\<rparr>)" "threads k1 = threads k"
    using checkout_ok [OF assms(1-3), of WRITER] by metis
  have f: "p_event_hooks (procs k1 proc) = p_event_hooks (procs k proc)" "p_event_pid (procs k1 proc) = p_event_pid (procs k proc)"
    "p_event_tid (procs k1 proc) = p_event_tid (procs k proc)" "p_threads_htable (procs k1 proc) = p_threads_htable (procs k proc)"
    by (subst c(3), simp)+
  have hk: "p_event_hooks (procs k1 proc) = handlers k1 proc"
    using assms(5) by (simp add: hooks_ok_def handlers_def hooked_def thread_addrs_def f c(4))
  have e: "set_event_handler k handler_pid handler_tid (pid_of k proc) target_tid =
    (if p_event_pid (procs k proc) \<ge> 0 \<and> p_event_pid (procs k proc) \<noteq> handler_pid then Some (SMK_RESOURCE_ALLOCATED, k)
     else if target_tid \<ge> 0 then thread_handler k1 proc handler_pid handler_tid target_tid
     else process_handler k1 proc handler_pid handler_tid)"
    using assms(6) np c(1,2) f(2) by (simp add: set_event_handler_def)
  consider "p_event_pid (procs k proc) \<ge> 0 \<and> p_event_pid (procs k proc) \<noteq> handler_pid"
    | "\<not> (p_event_pid (procs k proc) \<ge> 0 \<and> p_event_pid (procs k proc) \<noteq> handler_pid)" "tid_small target_tid"
    | "\<not> (p_event_pid (procs k proc) \<ge> 0 \<and> p_event_pid (procs k proc) \<noteq> handler_pid)" "target_tid < 0"
    using assms(7) by blast
  then show ?thesis
  proof cases
    case 1
    then show ?thesis using assms(5) error_codes unfolding e by simp
  next
    case 2
    obtain r where r: "get_thread k proc target_tid = Some r" "\<And>a. r = Some a \<Longrightarrow> a \<in> set (thread_addrs k proc)"
      using get_thread_iff [OF assms(4) 2(2)] by metis
    have "get_thread k1 proc target_tid = Some r" using get_thread_cong [of k1 proc k target_tid] r(1) by (simp add: f c(4))
    with thread_handler_ok [OF hk assms(6) this, of handler_tid] r(2) obtain rc k' where
      "thread_handler k1 proc handler_pid handler_tid target_tid = Some (rc, k')"
      "handled k1 proc rc k' (\<exists>tr. r = Some tr \<and> t_event_tid (threads k' tr) = handler_tid)" by (auto simp: thread_addrs_def f)
    moreover have "\<not> target_tid < 0" "target_tid \<ge> 0" using 2(2) by (simp_all add: tid_small_def)
    ultimately show ?thesis using assms(5) r(1) c(2) unfolding e if_not_P [OF 2(1)] handled_def by (auto split: if_splits)
  next
    case 3
    then obtain rc k' where "process_handler k1 proc handler_pid handler_tid = Some (rc, k')"
      "handled k1 proc rc k' (p_event_tid (procs k' proc) = handler_tid)"
      using process_handler_ok [OF hk assms(6), of handler_tid] by blast
    then show ?thesis using assms(5) 3(2) c(2) unfolding e if_not_P [OF 3(1)] handled_def by (auto split: if_splits)
  qed
qed

theorem set_event_handler_counts_witness:
  "\<exists>rc k'. set_event_handler k_proc 1 4 2 (-1) = Some (rc, k') \<and> hooks_ok k' 2"
proof -
  have l: "ht_list htable_blank = []" by (simp add: htable_blank_def ht_list_def arr_list_def List.map_filter_def)
  have p: "procs k_proc 2 = process_blank\<lparr>p_pid := 2\<rparr>" by (simp add: k_proc_def)
  have a: "thread_addrs k_proc 2 = []" by (simp add: thread_addrs_def p process_blank_def l)
  have t: "threads_ok k_proc 2"
    by (simp add: threads_ok_def a p process_blank_def ht_ready_def l ht_inv_def ht_fits_def) (simp add: htable_blank_def)
  have "hooks_ok k_proc 2" by (simp add: hooks_ok_def handlers_def hooked_def a) (simp add: p process_blank_def)
  moreover have "rw_free (p_lock (procs k_proc 2))" by (simp add: p process_blank_def rw_free_def init_rwlock_def)
  ultimately show ?thesis
    using set_event_handler_counts [OF k_proc_inv, of 2 1 "-1" 4] t by (auto simp: k_proc_pid)
qed

end
