(* ===== verification/Ports.thy ===== *)
theory Ports
  imports Scheduler
begin

section \<open>Ports (kernel/src/ports.c)\<close>

text \<open>
  A process has \<open>MAX_PORTS\<close> ports; a port in use belongs to a thread, has flags and a queue
  of pulses and one of messages. A thread lists its ports at the front of its array
  \<open>ports\<close>, the first \<open>-1\<close> ends the list.

  Here: creating a port, looking ports and flags up, setting flags for one port, for all
  ports of a thread and in bulk. The invariant \<open>port_inv\<close> ties the array of each thread
  to the blocks of the process: the lists name exactly the blocks of their thread, without
  repetition, and a block in use has two queues at rest. Releasing ports is in theory
  Port\_Release, since it drops the pulses and messages that wait there.

  An access \<open>proc->ipc[p]\<close> outside the array is undefined in C and has no result here.
\<close>

definition IPC_MASKED :: u32 where "IPC_MASKED = 1"

definition SIZEOF_PULSE :: u32 where "SIZEOF_PULSE = 36"
definition SIZEOF_MESSAGE :: u32 where "SIZEOF_MESSAGE = 20"

definition port_range :: "int \<Rightarrow> bool" where
  "port_range port \<longleftrightarrow> 0 \<le> port \<and> port < int MAX_PORTS"

text \<open>The free entry of the thread's array that \<open>create_port\<close> fills, if there is one.\<close>

definition add_port :: "int \<Rightarrow> thread \<Rightarrow> thread" where
  "add_port port t =
     (let i = arr_find (\<lambda>i. t_ports t i = -1) MAX_PORTS 0
      in if i < MAX_PORTS then t\<lparr>t_ports := (t_ports t)(i := port)\<rparr> else t)"

definition create_port :: "bool \<Rightarrow> bool \<Rightarrow> kstate \<Rightarrow> addr \<Rightarrow> int \<Rightarrow> int \<Rightarrow> (int \<times> kstate) option" where
  "create_port mem1 mem2 k tr port tid = do {
     proc \<leftarrow> t_process (threads k tr);
     if \<not> port_range port then Some (-1, k)
     else if ipc_tid (ipc k proc (nat port)) \<noteq> -1 then Some (-1, k)
     else do {
       target \<leftarrow> (if t_tid (threads k tr) = tid then Some (Some tr) else get_thread k proc tid);
       (case target of
          None \<Rightarrow> Some (-1, k)
        | Some target \<Rightarrow>
            let p = nat port in
            if \<not> mem1 then Some (-1, upd_ipc proc p (\<lambda>b. b\<lparr>pulse_q := None\<rparr>) k)
            else if \<not> mem2 then Some (-1, upd_ipc proc p (\<lambda>b. b\<lparr>pulse_q := None, message_q := None\<rparr>) k)
            else Some (0, upd_thread target (add_port port)
              (upd_ipc proc p (\<lambda>b. b\<lparr>pulse_q := Some (aqueue_init SIZEOF_PULSE PULSE_OBJECTS),
                 message_q := Some (aqueue_init SIZEOF_MESSAGE MESSAGE_OBJECTS),
                 ipc_tid := tid, ipc_flags := 0\<rparr>) k)))
     }
   }"

definition port2tid :: "kstate \<Rightarrow> addr \<Rightarrow> int \<Rightarrow> int" where
  "port2tid k proc port = (if \<not> port_range port then -1 else ipc_tid (ipc k proc (nat port)))"

definition tid2port :: "kstate \<Rightarrow> addr \<Rightarrow> int \<Rightarrow> int" where
  "tid2port k proc tid =
     (let i = arr_find (\<lambda>i. ipc_tid (ipc k proc i) = tid) MAX_PORTS 0
      in if i < MAX_PORTS then int i else -1)"

definition port_flags :: "kstate \<Rightarrow> addr \<Rightarrow> int \<Rightarrow> u32 \<Rightarrow> int" where
  "port_flags k proc port flags =
     (if \<not> port_range port then -1
      else if ipc_tid (ipc k proc (nat port)) = -1 then -1
      else sint (and (ipc_flags (ipc k proc (nat port))) flags))"

definition get_port_flags :: "kstate \<Rightarrow> addr \<Rightarrow> int \<Rightarrow> int option" where
  "get_port_flags k tr port = do {
     proc \<leftarrow> t_process (threads k tr);
     Some (if \<not> port_range port then -1
           else if ipc_tid (ipc k proc (nat port)) = -1 then -1
           else sint (ipc_flags (ipc k proc (nat port))))
   }"

text \<open>The loop over all ports of the thread.\<close>

function set_flags_loop :: "kstate \<Rightarrow> addr \<Rightarrow> addr \<Rightarrow> u32 \<Rightarrow> nat \<Rightarrow> kstate option" where
  "set_flags_loop k proc tr flags i =
     (if i < MAX_PORTS \<and> t_ports (threads k tr) i \<noteq> -1
      then if port_range (t_ports (threads k tr) i)
        then set_flags_loop (upd_ipc proc (nat (t_ports (threads k tr) i)) (\<lambda>b. b\<lparr>ipc_flags := flags\<rparr>) k)
               proc tr flags (Suc i)
        else None
      else Some k)"
  by pat_completeness auto
termination
  by (relation "measure (\<lambda>(k, proc, tr, flags, i). MAX_PORTS - i)") auto

declare set_flags_loop.simps [simp del]

definition set_port_flags :: "kstate \<Rightarrow> addr \<Rightarrow> int \<Rightarrow> u32 \<Rightarrow> (int \<times> kstate) option" where
  "set_port_flags k tr port flags = do {
     proc \<leftarrow> t_process (threads k tr);
     if port < -1 \<or> port \<ge> int MAX_PORTS then Some (-1, k)
     else do {
       let k = upd_thread tr (\<lambda>t. t\<lparr>t_last_port_message := -1, t_last_port_pulse := -1\<rparr>) k;
       if port \<ge> 0 then
         if ipc_tid (ipc k proc (nat port)) = -1 then Some (-1, k)
         else Some (0, upd_ipc proc (nat port) (\<lambda>b. b\<lparr>ipc_flags := flags\<rparr>) k)
       else do { k \<leftarrow> set_flags_loop k proc tr flags 0; Some (0, k) }
     }
   }"

text \<open>An array of \<open>struct port_pair\<close>; \<open>get_port_flags\<close> is converted to unsigned.\<close>

type_synonym port_pairs = "nat \<Rightarrow> int \<times> u32"

function bulk_get_loop :: "kstate \<Rightarrow> addr \<Rightarrow> nat \<Rightarrow> port_pairs \<Rightarrow> port_pairs option" where
  "bulk_get_loop k tr i pairs =
     (if i < MAX_PORTS then
        let p = t_ports (threads k tr) i; pairs1 = pairs(i := (p, snd (pairs i))) in
        if p = -1 then Some pairs1
        else do { f \<leftarrow> get_port_flags k tr p; bulk_get_loop k tr (Suc i) (pairs1(i := (p, of_int f))) }
      else Some pairs)"
  by pat_completeness auto
termination
  by (relation "measure (\<lambda>(k, tr, i, pairs). MAX_PORTS - i)") auto

declare bulk_get_loop.simps [simp del]

definition bulk_get_ports :: "kstate \<Rightarrow> addr \<Rightarrow> port_pairs \<Rightarrow> port_pairs option" where
  "bulk_get_ports k tr pairs = bulk_get_loop k tr 0 pairs"

function bulk_set_loop :: "kstate \<Rightarrow> addr \<Rightarrow> nat \<Rightarrow> port_pairs \<Rightarrow> kstate option" where
  "bulk_set_loop k tr i pairs =
     (if i < MAX_PORTS \<and> fst (pairs i) \<noteq> -1
      then do { (_, k) \<leftarrow> set_port_flags k tr (fst (pairs i)) (snd (pairs i)); bulk_set_loop k tr (Suc i) pairs }
      else Some k)"
  by pat_completeness auto
termination
  by (relation "measure (\<lambda>(k, tr, i, pairs). MAX_PORTS - i)") auto

declare bulk_set_loop.simps [simp del]

definition bulk_set_ports :: "kstate \<Rightarrow> addr \<Rightarrow> port_pairs \<Rightarrow> kstate option" where
  "bulk_set_ports k tr pairs = bulk_set_loop k tr 0 pairs"

subsection \<open>The invariant\<close>

definition port_count :: "thread \<Rightarrow> nat" where
  "port_count t = arr_find (\<lambda>i. t_ports t i = -1) MAX_PORTS 0"

definition port_list :: "thread \<Rightarrow> int list" where
  "port_list t = arr_list (t_ports t) (port_count t)"

text \<open>The array of a thread: ports in range, no port twice, nothing after the end.\<close>

definition ports_array :: "thread \<Rightarrow> bool" where
  "ports_array t \<longleftrightarrow> distinct (port_list t) \<and> (\<forall>p\<in>set (port_list t). port_range p) \<and>
     (\<forall>i. port_count t \<le> i \<and> i < MAX_PORTS \<longrightarrow> t_ports t i = -1)"

definition block_ok :: "ipc_block \<Rightarrow> bool" where
  "block_ok b \<longleftrightarrow> (\<exists>pq mq. pulse_q b = Some pq \<and> message_q b = Some mq \<and> aq_ready pq \<and> aq_ready mq)"

definition port_inv :: "kstate \<Rightarrow> addr \<Rightarrow> bool" where
  "port_inv k proc \<longleftrightarrow> threads_ok k proc \<and>
     (\<forall>a\<in>set (thread_addrs k proc). ports_array (threads k a) \<and>
        (\<forall>p<MAX_PORTS. int p \<in> set (port_list (threads k a)) \<longleftrightarrow> ipc_tid (ipc k proc p) = t_tid (threads k a))) \<and>
     (\<forall>p<MAX_PORTS. ipc_tid (ipc k proc p) = -1 \<or>
        ipc_tid (ipc k proc p) \<in> (\<lambda>a. t_tid (threads k a)) ` set (thread_addrs k proc) \<and> block_ok (ipc k proc p))"

lemma port_count_le: "port_count t \<le> MAX_PORTS"
  unfolding port_count_def by (rule arr_find_le) simp

lemma port_list_end: "port_count t < MAX_PORTS \<Longrightarrow> t_ports t (port_count t) = -1"
  unfolding port_count_def by (rule arr_find_hit)

lemma port_list_in: "i < port_count t \<Longrightarrow> t_ports t i \<noteq> -1"
  unfolding port_count_def by (rule arr_find_before [of 0]) simp_all

lemma port_list_nth: "i < port_count t \<Longrightarrow> t_ports t i \<in> set (port_list t)"
  by (auto simp: port_list_def in_arr_list)

lemma port_listI:
  assumes "n \<le> MAX_PORTS" "\<And>i. i < n \<Longrightarrow> t_ports t i \<noteq> -1" "n < MAX_PORTS \<Longrightarrow> t_ports t n = -1"
  shows "port_count t = n" "port_list t = arr_list (t_ports t) n"
proof -
  show c: "port_count t = n"
    using assms unfolding port_count_def
    by (cases "n < MAX_PORTS") (auto intro: arr_find_eqI arr_find_noneI)
  show "port_list t = arr_list (t_ports t) n" by (simp add: port_list_def c)
qed

text \<open>A list of ports that misses one port in range is shorter than the array.\<close>

lemma port_room:
  assumes "ports_array t" "port_range p" "p \<notin> set (port_list t)"
  shows "port_count t < MAX_PORTS"
proof -
  have sub: "set (p # port_list t) \<subseteq> {0..<int MAX_PORTS}" and d: "distinct (p # port_list t)"
    using assms by (auto simp: ports_array_def port_range_def)
  have "length (p # port_list t) \<le> card {0..<int MAX_PORTS}"
    using card_mono [OF _ sub] distinct_card [OF d] by simp
  then show ?thesis by (simp add: port_list_def)
qed

lemma add_port_ok:
  assumes "ports_array t" "port_range p" "p \<notin> set (port_list t)"
  shows "ports_array (add_port p t)" "port_list (add_port p t) = port_list t @ [p]"
proof -
  let ?n = "port_count t"
  have n: "?n < MAX_PORTS" by (rule port_room [OF assms])
  have t: "add_port p t = t\<lparr>t_ports := (t_ports t)(?n := p)\<rparr>"
    using n by (simp add: add_port_def port_count_def)
  have p: "p \<noteq> -1" using assms(2) by (auto simp: port_range_def)
  have free: "t_ports t i = -1" if "?n \<le> i" "i < MAX_PORTS" for i
    using assms(1) that by (auto simp: ports_array_def)
  have c: "port_count (add_port p t) = Suc ?n"
    using n p free port_list_in [of _ t] by (auto intro!: port_listI(1) simp: t less_Suc_eq)
  then show l: "port_list (add_port p t) = port_list t @ [p]"
    by (simp add: t arr_list_append_last port_list_def)
  show "ports_array (add_port p t)"
    unfolding ports_array_def l c using assms free by (auto simp: ports_array_def t)
qed

lemma add_port_simps [simp]:
  "t_tid (add_port p t) = t_tid t" "t_process (add_port p t) = t_process t" "t_state (add_port p t) = t_state t"
  "t_name (add_port p t) = t_name t"
  by (simp_all add: add_port_def Let_def)

text \<open>Operations that leave the thread table, the ids and the owners alone.\<close>

definition same_table :: "addr \<Rightarrow> kstate \<Rightarrow> kstate \<Rightarrow> bool" where
  "same_table proc k k' \<longleftrightarrow>
     p_threads_htable (procs k' proc) = p_threads_htable (procs k proc) \<and>
     (\<forall>a. t_tid (threads k' a) = t_tid (threads k a) \<and> t_process (threads k' a) = t_process (threads k a))"

lemma same_table_ok:
  assumes "same_table proc k k'"
  shows "threads_ok k' proc = threads_ok k proc" "thread_addrs k' proc = thread_addrs k proc"
proof -
  have t: "t_tid (threads k' a) = t_tid (threads k a)" "t_process (threads k' a) = t_process (threads k a)" for a
    using assms by (simp_all add: same_table_def)
  have "tkey k' = tkey k" by (rule ext) (simp add: tkey_def t)
  with assms show "threads_ok k' proc = threads_ok k proc" "thread_addrs k' proc = thread_addrs k proc"
    by (simp_all add: threads_ok_def thread_addrs_def same_table_def)
qed

text \<open>Operations on queues, flags, hints and states keep the invariant.\<close>

lemma port_inv_keep:
  assumes "port_inv k proc" "same_table proc k k'" "\<And>a. t_ports (threads k' a) = t_ports (threads k a)"
    and "\<And>p. p < MAX_PORTS \<Longrightarrow> ipc_tid (ipc k' proc p) = ipc_tid (ipc k proc p) \<and> (block_ok (ipc k proc p) \<longrightarrow> block_ok (ipc k' proc p))"
  shows "port_inv k' proc"
proof -
  have t: "t_tid (threads k' a) = t_tid (threads k a)" for a
    using assms(2) by (simp add: same_table_def)
  have l: "port_count (threads k' a) = port_count (threads k a)" "port_list (threads k' a) = port_list (threads k a)"
    "ports_array (threads k' a) = ports_array (threads k a)" for a
    by (simp_all add: ports_array_def port_list_def port_count_def assms(3))
  show ?thesis
    using assms(1,4) by (auto simp: port_inv_def same_table_ok [OF assms(2)] t l)
qed

lemma port_inv_threads: "port_inv k proc \<Longrightarrow> threads_ok k proc"
  by (simp add: port_inv_def)

lemma port_inv_array:
  "port_inv k proc \<Longrightarrow> a \<in> set (thread_addrs k proc) \<Longrightarrow> ports_array (threads k a)"
  by (simp add: port_inv_def)

lemma port_inv_process:
  "port_inv k proc \<Longrightarrow> a \<in> set (thread_addrs k proc) \<Longrightarrow> t_process (threads k a) = Some proc"
  by (simp add: port_inv_def threads_ok_def)

lemma port_inv_owner:
  assumes "port_inv k proc" "a \<in> set (thread_addrs k proc)" "port_range p"
  shows "p \<in> set (port_list (threads k a)) \<longleftrightarrow> ipc_tid (ipc k proc (nat p)) = t_tid (threads k a)"
proof -
  have "\<forall>q<MAX_PORTS. int q \<in> set (port_list (threads k a)) \<longleftrightarrow> ipc_tid (ipc k proc q) = t_tid (threads k a)"
    using assms(1,2) by (auto simp: port_inv_def)
  moreover have "nat p < MAX_PORTS" "int (nat p) = p" using assms(3) by (auto simp: port_range_def)
  ultimately show ?thesis by metis
qed

lemma port_inv_tid:
  assumes "port_inv k proc" "a \<in> set (thread_addrs k proc)"
  shows "t_tid (threads k a) \<noteq> -1"
  using assms by (auto simp: port_inv_def threads_ok_def tid_small_def)

lemma port_inv_used:
  assumes "port_inv k proc" "a \<in> set (thread_addrs k proc)" "p \<in> set (port_list (threads k a))"
  shows "port_range p" "ipc_tid (ipc k proc (nat p)) = t_tid (threads k a)" "block_ok (ipc k proc (nat p))"
    "ipc_tid (ipc k proc (nat p)) \<noteq> -1"
proof -
  show r: "port_range p" using port_inv_array [OF assms(1,2)] assms(3) by (auto simp: ports_array_def)
  show o: "ipc_tid (ipc k proc (nat p)) = t_tid (threads k a)"
    using port_inv_owner [OF assms(1,2) r] assms(3) by simp
  show n: "ipc_tid (ipc k proc (nat p)) \<noteq> -1" using port_inv_tid [OF assms(1,2)] o by simp
  have "nat p < MAX_PORTS" using r by (auto simp: port_range_def)
  then show "block_ok (ipc k proc (nat p))" using assms(1) n by (auto simp: port_inv_def)
qed

lemma tid_unique:
  assumes "port_inv k proc" "a \<in> set (thread_addrs k proc)" "b \<in> set (thread_addrs k proc)"
    "t_tid (threads k a) = t_tid (threads k b)"
  shows "a = b"
  using assms by (auto simp: port_inv_def threads_ok_def distinct_map dest: inj_onD)

lemma thread_lookup:
  assumes "port_inv k proc" "a \<in> set (thread_addrs k proc)"
  shows "get_thread k proc (t_tid (threads k a)) = Some (Some a)"
  using get_thread_some [OF port_inv_threads [OF assms(1)] assms(2)] .

lemma new_block_ok:
  "block_ok (b\<lparr>pulse_q := Some (aqueue_init SIZEOF_PULSE PULSE_OBJECTS),
     message_q := Some (aqueue_init SIZEOF_MESSAGE MESSAGE_OBJECTS), ipc_tid := t, ipc_flags := f\<rparr>)"
  by (simp add: block_ok_def aqueue_init_ready PULSE_OBJECTS_def MESSAGE_OBJECTS_def)

subsection \<open>Creating a port\<close>

lemma create_port_eval:
  assumes "port_inv k proc" "tr \<in> set (thread_addrs k proc)" "port_range port"
    and "ipc_tid (ipc k proc (nat port)) = -1" "a \<in> set (thread_addrs k proc)"
  shows "create_port True True k tr port (t_tid (threads k a)) = Some (0, upd_thread a (add_port port)
     (upd_ipc proc (nat port) (\<lambda>b. b\<lparr>pulse_q := Some (aqueue_init SIZEOF_PULSE PULSE_OBJECTS),
       message_q := Some (aqueue_init SIZEOF_MESSAGE MESSAGE_OBJECTS),
       ipc_tid := t_tid (threads k a), ipc_flags := 0\<rparr>) k))"
  using thread_lookup [OF assms(1,5)] tid_unique [OF assms(1,2,5)] assms
  by (auto simp: create_port_def port_inv_process Let_def)

lemma add_port_inv:
  assumes inv: "port_inv k proc" and r: "port_range port" and free: "ipc_tid (ipc k proc (nat port)) = -1"
    and a: "a \<in> set (thread_addrs k proc)" and b: "\<And>b. block_ok (f b) \<and> ipc_tid (f b) = t_tid (threads k a)"
  shows "port_inv (upd_thread a (add_port port) (upd_ipc proc (nat port) f k)) proc" (is "port_inv ?k proc")
proof -
  have st: "same_table proc k ?k" by (auto simp: same_table_def)
  have new: "port \<notin> set (port_list (threads k c))" if "c \<in> set (thread_addrs k proc)" for c
    using port_inv_owner [OF inv that r] port_inv_tid [OF inv that] free by auto
  have arr: "ports_array (threads ?k c)" if "c \<in> set (thread_addrs k proc)" for c
    using port_inv_array [OF inv that] add_port_ok(1) [OF port_inv_array [OF inv a] r new [OF a]] by simp
  have own: "int q \<in> set (port_list (threads ?k c)) \<longleftrightarrow> ipc_tid (ipc ?k proc q) = t_tid (threads ?k c)"
    if c: "c \<in> set (thread_addrs k proc)" and q: "q < MAX_PORTS" for c q
  proof -
    have l: "port_list (threads ?k c) = port_list (threads k c) @ (if c = a then [port] else [])"
      using add_port_ok(2) [OF port_inv_array [OF inv a] r new [OF a]] by simp
    have i: "ipc_tid (ipc ?k proc q) = (if int q = port then t_tid (threads k a) else ipc_tid (ipc k proc q))"
      using b r by (auto simp: port_range_def)
    have "int q \<in> set (port_list (threads k c)) \<longleftrightarrow> ipc_tid (ipc k proc q) = t_tid (threads k c)"
      using port_inv_owner [OF inv c, of "int q"] q by (simp add: port_range_def)
    moreover have "t_tid (threads k a) = t_tid (threads k c) \<longleftrightarrow> a = c"
      using tid_unique [OF inv a c] by auto
    moreover have "t_tid (threads ?k c) = t_tid (threads k c)" by simp
    ultimately show ?thesis
      unfolding l i using new [OF c] by auto
  qed
  have blk: "ipc_tid (ipc ?k proc q) = -1 \<or> ipc_tid (ipc ?k proc q) \<in> (\<lambda>a. t_tid (threads k a)) ` set (thread_addrs k proc)
      \<and> block_ok (ipc ?k proc q)" if "q < MAX_PORTS" for q
    using inv that a b by (auto simp: port_inv_def)
  show ?thesis
    unfolding port_inv_def same_table_ok [OF st]
    using port_inv_threads [OF inv] arr own blk st by (auto simp: same_table_def)
qed

subsection \<open>Flags\<close>

definition ipc_same_but_flags :: "addr \<Rightarrow> (nat \<Rightarrow> u32) \<Rightarrow> kstate \<Rightarrow> kstate \<Rightarrow> bool" where
  "ipc_same_but_flags proc F k k' \<longleftrightarrow> (\<forall>q. ipc k' proc q = (ipc k proc q)\<lparr>ipc_flags := F q\<rparr>)"

lemma set_flags_loop_ok:
  assumes "ports_array (threads k tr)" "i \<le> port_count (threads k tr)"
  shows "\<exists>k'. set_flags_loop k proc tr flags i = Some k' \<and> threads k' = threads k \<and> cpu k' = cpu k \<and>
    same_table proc k k' \<and>
    ipc_same_but_flags proc (\<lambda>q. if int q \<in> set (drop i (port_list (threads k tr))) then flags
      else ipc_flags (ipc k proc q)) k k'"
  using assms
proof (induction k proc tr flags i rule: set_flags_loop.induct)
  case (1 k proc tr flags i)
  let ?t = "threads k tr"
  show ?case
  proof (cases "i < port_count ?t")
    case True
    let ?p = "t_ports ?t i"
    let ?k = "upd_ipc proc (nat ?p) (\<lambda>b. b\<lparr>ipc_flags := flags\<rparr>) k"
    have c: "i < MAX_PORTS" "?p \<noteq> -1" using True port_count_le [of ?t] port_list_in [OF True] by auto
    have d: "drop i (port_list ?t) = ?p # drop (Suc i) (port_list ?t)"
      using True Cons_nth_drop_Suc [of i "port_list ?t"] by (simp add: port_list_def)
    have r: "port_range ?p"
      using 1(2) port_list_nth [OF True] by (simp add: ports_array_def)
    then obtain m where m: "?p = int m" by (auto simp: port_range_def elim: nonneg_int_cases)
    obtain k' where k': "set_flags_loop ?k proc tr flags (Suc i) = Some k'" "threads k' = threads ?k" "cpu k' = cpu ?k"
      "same_table proc ?k k'"
      "ipc_same_but_flags proc (\<lambda>q. if int q \<in> set (drop (Suc i) (port_list ?t)) then flags
        else ipc_flags (ipc ?k proc q)) ?k k'"
      using 1(1) c r 1(2) True by auto
    from k'(5) have "ipc_same_but_flags proc (\<lambda>q. if int q \<in> set (drop i (port_list ?t)) then flags
        else ipc_flags (ipc k proc q)) k k'"
      by (simp add: d ipc_same_but_flags_def m)
    with k' c r show ?thesis
      by (subst set_flags_loop.simps) (auto simp: same_table_def)
  next
    case False
    then have i: "i = port_count ?t" using 1(3) by simp
    have "\<not> (i < MAX_PORTS \<and> t_ports ?t i \<noteq> -1)" using port_list_end [of ?t] i by auto
    then have "set_flags_loop k proc tr flags i = Some k" by (subst set_flags_loop.simps) (simp only: if_False)
    then show ?thesis by (simp add: i port_list_def ipc_same_but_flags_def same_table_def)
  qed
qed

lemma bulk_get_loop_ok:
  assumes "port_inv k proc" "tr \<in> set (thread_addrs k proc)" "i \<le> port_count (threads k tr)"
  shows "\<exists>pairs'. bulk_get_loop k tr i pairs = Some pairs' \<and> (\<forall>j<i. pairs' j = pairs j) \<and>
    (\<forall>j. i \<le> j \<and> j < port_count (threads k tr) \<longrightarrow> pairs' j =
       (t_ports (threads k tr) j, ipc_flags (ipc k proc (nat (t_ports (threads k tr) j))))) \<and>
    (port_count (threads k tr) < MAX_PORTS \<longrightarrow> fst (pairs' (port_count (threads k tr))) = -1)"
  using assms
proof (induction k tr i pairs rule: bulk_get_loop.induct)
  case (1 k tr i pairs)
  let ?t = "threads k tr"
  show ?case
  proof (cases "i < port_count ?t")
    case True
    let ?p = "t_ports ?t i" let ?f = "ipc_flags (ipc k proc (nat ?p))"
    have c: "i < MAX_PORTS" "?p \<noteq> -1" using True port_count_le [of ?t] port_list_in [OF True] by auto
    have f: "get_port_flags k tr ?p = Some (sint ?f)"
      using port_inv_used [OF 1(2,3) port_list_nth [OF True]] port_inv_process [OF 1(2,3)]
      by (simp add: get_port_flags_def)
    define pairs2 where "pairs2 = pairs(i := (?p, ?f))"
    have "bulk_get_loop k tr i pairs = bulk_get_loop k tr (Suc i) pairs2"
      using c f by (subst bulk_get_loop.simps) (simp add: Let_def pairs2_def)
    moreover have "Suc i \<le> port_count ?t" using True by simp
    moreover have "pairs2 = pairs(i := (?p, snd (pairs i)), i := (?p, of_int (sint ?f)))" by (simp add: pairs2_def)
    ultimately obtain pairs' where p: "bulk_get_loop k tr i pairs = Some pairs'" "\<forall>j<Suc i. pairs' j = pairs2 j"
      "\<forall>j. Suc i \<le> j \<and> j < port_count ?t \<longrightarrow> pairs' j = (t_ports ?t j, ipc_flags (ipc k proc (nat (t_ports ?t j))))"
      "port_count ?t < MAX_PORTS \<longrightarrow> fst (pairs' (port_count ?t)) = -1"
      using 1(1) [OF c(1) refl refl c(2) f 1(2,3)] by metis
    have "pairs' j = (t_ports ?t j, ipc_flags (ipc k proc (nat (t_ports ?t j))))"
      if "i \<le> j" "j < port_count ?t" for j
      using p(2,3) that by (cases "i = j") (auto simp: pairs2_def)
    moreover have "pairs' j = pairs j" if "j < i" for j
      using p(2) that by (auto simp: pairs2_def)
    ultimately show ?thesis using p(1,4) by blast
  next
    case False
    then have i: "i = port_count ?t" using 1(4) by simp
    then show ?thesis
      using port_list_end [of ?t] by (subst bulk_get_loop.simps) (auto simp: Let_def)
  qed
qed

lemma bulk_set_loop_ok:
  assumes "t_process (threads k tr) = Some proc" "i \<le> n" "n \<le> MAX_PORTS"
    and "n < MAX_PORTS \<Longrightarrow> fst (pairs n) = -1"
    and "\<And>j. i \<le> j \<Longrightarrow> j < n \<Longrightarrow> port_range (fst (pairs j)) \<and> ipc_tid (ipc k proc (nat (fst (pairs j)))) \<noteq> -1 \<and>
      snd (pairs j) = F (nat (fst (pairs j)))"
  shows "\<exists>k'. bulk_set_loop k tr i pairs = Some k' \<and>
    ipc_same_but_flags proc (\<lambda>q. if int q \<in> fst ` pairs ` {i..<n} then F q else ipc_flags (ipc k proc q)) k k'"
  using assms
proof (induction k tr i pairs rule: bulk_set_loop.induct)
  case (1 k tr i pairs)
  show ?case
  proof (cases "i < n")
    case True
    let ?p = "fst (pairs i)"
    have p: "port_range ?p" "ipc_tid (ipc k proc (nat ?p)) \<noteq> -1" "snd (pairs i) = F (nat ?p)"
      using 1(6) [of i] True by auto
    then have c: "i < MAX_PORTS \<and> ?p \<noteq> -1" using True 1(4) by (auto simp: port_range_def)
    define k1 where "k1 = upd_ipc proc (nat ?p) (\<lambda>b. b\<lparr>ipc_flags := F (nat ?p)\<rparr>)
      (upd_thread tr (\<lambda>t. t\<lparr>t_last_port_message := -1, t_last_port_pulse := -1\<rparr>) k)"
    have s: "set_port_flags k tr ?p (snd (pairs i)) = Some (0, k1)"
      using p 1(2) by (simp add: set_port_flags_def port_range_def k1_def Let_def)
    have "\<exists>k'. bulk_set_loop k1 tr (Suc i) pairs = Some k' \<and>
      ipc_same_but_flags proc (\<lambda>q. if int q \<in> fst ` pairs ` {Suc i..<n} then F q else ipc_flags (ipc k1 proc q)) k1 k'"
    proof (rule 1(1) [OF c _ refl])
      show "set_port_flags k tr (fst (pairs i)) (snd (pairs i)) = Some (0, k1)" by (rule s)
      show "t_process (threads k1 tr) = Some proc" using 1(2) by (simp add: k1_def)
      show "port_range (fst (pairs j)) \<and> ipc_tid (ipc k1 proc (nat (fst (pairs j)))) \<noteq> -1 \<and>
        snd (pairs j) = F (nat (fst (pairs j)))" if "Suc i \<le> j" "j < n" for j
        using 1(6) [of j] that p(2) by (auto simp: k1_def)
    qed (use True 1(4,5) in auto)
    then obtain k' where k': "bulk_set_loop k1 tr (Suc i) pairs = Some k'"
      "ipc_same_but_flags proc (\<lambda>q. if int q \<in> fst ` pairs ` {Suc i..<n} then F q else ipc_flags (ipc k1 proc q)) k1 k'"
      by blast
    have "{i..<n} = insert i {Suc i..<n}" using True by auto
    moreover obtain m where "?p = int m" using p(1) by (auto simp: port_range_def elim: nonneg_int_cases)
    ultimately have "ipc_same_but_flags proc (\<lambda>q. if int q \<in> fst ` pairs ` {i..<n} then F q else ipc_flags (ipc k proc q)) k k'"
      using k'(2) by (auto simp: ipc_same_but_flags_def k1_def)
    with k'(1) s c show ?thesis by (subst bulk_set_loop.simps) simp
  next
    case False
    then have "i = n" using 1(3) by simp
    then show ?thesis using 1(5) by (subst bulk_set_loop.simps) (auto simp: ipc_same_but_flags_def)
  qed
qed

subsection \<open>A process with two threads\<close>

text \<open>Threads 10 and 11, with ids 1 and 2, of process 0, which has no port; then with port 5 for thread 10.\<close>

definition k_duo :: kstate where
  "k_duo = (k_blank 1)\<lparr>
     threads := (\<lambda>_. thread_blank)(10 := thread_blank\<lparr>t_process := Some 0\<rparr>,
       11 := thread_blank\<lparr>t_tid := 2, t_process := Some 0\<rparr>),
     procs := (\<lambda>_. process_blank)(0 := process_blank\<lparr>p_threads_htable :=
       \<lparr>ht_total = 2, ht_size = 4, ht_percent = 75, ht_table = (\<lambda>_. None)(0 := Some 10, 1 := Some 11)\<rparr>\<rparr>)\<rparr>"

lemma k_duo_threads: "thread_addrs k_duo 0 = [10, 11]"
  by (simp add: thread_addrs_def k_duo_def ht_list_def arr_list_def List.map_filter_simps upt_rec)

lemma k_duo_fields [simp]:
  "threads k_duo 10 = thread_blank\<lparr>t_process := Some 0\<rparr>"
  "threads k_duo 11 = thread_blank\<lparr>t_tid := 2, t_process := Some 0\<rparr>"
  "ipc k_duo 0 p = ipc_blank"
  by (simp_all add: k_duo_def process_blank_def)

lemma k_duo_inv: "port_inv k_duo 0"
proof -
  have "ht_ready (tkey k_duo) (p_threads_htable (procs k_duo 0))"
    using k_duo_threads
    by (simp add: ht_ready_def ht_inv_def thread_addrs_def ht_fits_def)
      (simp add: k_duo_def tkey_def thread_blank_def threads_key_def key_small_def ht_abs_key_def Let_def wrap32_def)
  moreover have "port_count (t\<lparr>t_ports := \<lambda>_. -1\<rparr>) = 0" for t by (rule port_listI(1)) simp_all
  ultimately show ?thesis
    by (simp add: port_inv_def threads_ok_def k_duo_threads tid_small_def ports_array_def port_list_def
        port_count_def thread_blank_def ipc_blank_def)
qed

definition k_port :: kstate where
  "k_port = snd (the (create_port True True k_duo 10 5 1))"

lemma k_port_eq: "k_port = upd_thread 10 (add_port 5)
   (upd_ipc 0 5 (\<lambda>b. b\<lparr>pulse_q := Some (aqueue_init SIZEOF_PULSE PULSE_OBJECTS),
     message_q := Some (aqueue_init SIZEOF_MESSAGE MESSAGE_OBJECTS), ipc_tid := 1, ipc_flags := 0\<rparr>) k_duo)"
  using create_port_eval [OF k_duo_inv, of 10 5 10]
  by (simp add: k_port_def k_duo_threads port_range_def MAX_PORTS_def thread_blank_def ipc_blank_def)

lemma k_port_threads: "thread_addrs k_port 0 = [10, 11]"
  using k_duo_threads by (simp add: k_port_eq thread_addrs_def)

lemma k_port_inv: "port_inv k_port 0"
  unfolding k_port_eq
  using add_port_inv [OF k_duo_inv, of 5 10 "\<lambda>b. b\<lparr>pulse_q := Some (aqueue_init SIZEOF_PULSE PULSE_OBJECTS),
     message_q := Some (aqueue_init SIZEOF_MESSAGE MESSAGE_OBJECTS), ipc_tid := 1, ipc_flags := 0\<rparr>"]
  by (simp add: k_duo_threads port_range_def MAX_PORTS_def thread_blank_def ipc_blank_def new_block_ok)

subsection \<open>Properties\<close>

text \<open>
  C7. Creating a port. For a free port and a thread of the process the call succeeds: the
  port belongs to the thread, is unmasked and both its queues are empty, the thread lists
  it last, no other port and no other thread changes, and the invariant that ties the
  lists of the threads to the ports of the process is kept; the entry for it in the
  thread's array is never missing.
\<close>

theorem create_port_effect:
  assumes "port_inv k proc" "tr \<in> set (thread_addrs k proc)" "port_range port"
    and "ipc_tid (ipc k proc (nat port)) = -1" "a \<in> set (thread_addrs k proc)"
  shows "\<exists>k'. create_port True True k tr port (t_tid (threads k a)) = Some (0, k') \<and> port_inv k' proc \<and>
    port2tid k' proc port = t_tid (threads k a) \<and> port_flags k' proc port IPC_MASKED = 0 \<and>
    map_option aq_contents (pulse_q (ipc k' proc (nat port))) = Some [] \<and>
    map_option aq_contents (message_q (ipc k' proc (nat port))) = Some [] \<and>
    port_list (threads k' a) = port_list (threads k a) @ [port] \<and>
    (\<forall>b. b \<noteq> a \<longrightarrow> threads k' b = threads k b) \<and> (\<forall>q. q \<noteq> nat port \<longrightarrow> ipc k' proc q = ipc k proc q)"
proof -
  have n: "port \<notin> set (port_list (threads k a))"
    using port_inv_owner [OF assms(1,5,3)] port_inv_tid [OF assms(1,5)] assms(4) by auto
  note l = add_port_ok(2) [OF port_inv_array [OF assms(1,5)] assms(3) n]
  show ?thesis
    unfolding create_port_eval [OF assms]
    using assms(3) port_inv_tid [OF assms(1,5)]
    by (auto simp: port2tid_def port_flags_def l new_block_ok
        intro!: add_port_inv [OF assms(1,3,4,5)])
qed

theorem create_port_effect_witness:
  "\<exists>k'. create_port True True k_duo 11 5 1 = Some (0, k') \<and> port_inv k' 0 \<and> port2tid k' 0 5 = 1"
  using create_port_effect [OF k_duo_inv, of 11 5 10]
  by (auto simp: k_duo_threads port_range_def MAX_PORTS_def thread_blank_def ipc_blank_def)

text \<open>
  Refused requests. A port outside the range, a port in use, a thread id the process does
  not have and a failed allocation all return -1, and no port gets an owner.
\<close>

theorem create_port_refused:
  assumes "t_process (threads k tr) = Some proc" "threads_ok k proc" "tid_small tid" "t_tid (threads k tr) \<noteq> tid"
    and "\<not> port_range port \<or> ipc_tid (ipc k proc (nat port)) \<noteq> -1 \<or>
      tid \<notin> (\<lambda>a. t_tid (threads k a)) ` set (thread_addrs k proc) \<or> \<not> mem1 \<or> \<not> mem2"
  shows "\<exists>k'. create_port mem1 mem2 k tr port tid = Some (-1, k') \<and> threads k' = threads k \<and>
    (\<forall>q. ipc_tid (ipc k' proc q) = ipc_tid (ipc k proc q) \<and> ipc_flags (ipc k' proc q) = ipc_flags (ipc k proc q))"
proof -
  obtain r where "get_thread k proc tid = Some r"
    "\<forall>a. r = Some a \<longleftrightarrow> a \<in> set (thread_addrs k proc) \<and> t_tid (threads k a) = tid"
    using get_thread_iff [OF assms(2,3)] by blast
  then show ?thesis
    using assms(1,4,5) by (cases r) (auto simp: create_port_def Let_def)
qed

theorem create_port_refused_witness:
  "\<exists>k'. create_port True True k_duo 10 5 3 = Some (-1, k') \<and> threads k' = threads k_duo"
proof -
  have "\<exists>k'. create_port True True k_duo 10 5 3 = Some (-1, k') \<and> threads k' = threads k_duo \<and>
    (\<forall>q. ipc_tid (ipc k' 0 q) = ipc_tid (ipc k_duo 0 q) \<and> ipc_flags (ipc k' 0 q) = ipc_flags (ipc k_duo 0 q))"
    using port_inv_threads [OF k_duo_inv]
    by (intro create_port_refused) (auto simp: k_duo_threads thread_blank_def tid_small_def)
  then show ?thesis by blast
qed

text \<open>
  Saving and restoring the flags. A thread that reads the flags of all its ports in bulk,
  then sets all of them to anything (masking itself), and then writes the saved pairs back,
  finds every port of the process as it was.
\<close>

theorem bulk_ports_round_trip:
  assumes "port_inv k proc" "tr \<in> set (thread_addrs k proc)"
  shows "\<exists>pairs' k1 k2. bulk_get_ports k tr pairs = Some pairs' \<and> set_port_flags k tr (-1) flags = Some (0, k1) \<and>
    (\<forall>p\<in>set (port_list (threads k tr)). ipc_flags (ipc k1 proc (nat p)) = flags) \<and>
    bulk_set_ports k1 tr pairs' = Some k2 \<and> (\<forall>q. ipc k2 proc q = ipc k proc q)"
proof -
  let ?t = "threads k tr" and ?n = "port_count (threads k tr)"
  let ?k0 = "upd_thread tr (\<lambda>t. t\<lparr>t_last_port_message := -1, t_last_port_pulse := -1\<rparr>) k"
  have same: "port_count (threads ?k0 tr) = ?n" "port_list (threads ?k0 tr) = port_list ?t"
    "ports_array (threads ?k0 tr) = ports_array ?t"
    by (simp_all add: ports_array_def port_list_def port_count_def)
  obtain pairs' where p: "bulk_get_ports k tr pairs = Some pairs'"
    "\<And>j. j < ?n \<Longrightarrow> pairs' j = (t_ports ?t j, ipc_flags (ipc k proc (nat (t_ports ?t j))))"
    "?n < MAX_PORTS \<Longrightarrow> fst (pairs' ?n) = -1"
    using bulk_get_loop_ok [OF assms, of 0 pairs] by (auto simp: bulk_get_ports_def)
  obtain k1 where k1: "set_flags_loop ?k0 proc tr flags 0 = Some k1" "threads k1 = threads ?k0"
    "ipc_same_but_flags proc (\<lambda>q. if int q \<in> set (port_list ?t) then flags else ipc_flags (ipc ?k0 proc q)) ?k0 k1"
    using set_flags_loop_ok [of ?k0 tr 0 proc flags] port_inv_array [OF assms] unfolding same by auto
  have ids: "ipc_tid (ipc k1 proc q) = ipc_tid (ipc k proc q)" for q
    using k1(3) by (simp add: ipc_same_but_flags_def)
  have ran: "fst ` pairs' ` {0..<?n} = set (port_list ?t)"
    using p(2) by (auto simp: port_list_def set_arr_list image_image lessThan_atLeast0 intro!: image_cong)
  obtain k2 where k2: "bulk_set_loop k1 tr 0 pairs' = Some k2"
    "ipc_same_but_flags proc (\<lambda>q. if int q \<in> set (port_list ?t) then ipc_flags (ipc k proc q)
       else ipc_flags (ipc k1 proc q)) k1 k2"
    using bulk_set_loop_ok [of k1 tr proc 0 ?n pairs' "\<lambda>q. ipc_flags (ipc k proc q)", unfolded ran]
      port_inv_process [OF assms] port_inv_used [OF assms port_list_nth [of _ ?t]] port_count_le [of ?t] p(2,3)
    by (auto simp: k1(2) ids)
  have "ipc k2 proc q = ipc k proc q" for q
    using k1(3) k2(2) by (simp add: ipc_same_but_flags_def)
  moreover have "ipc_flags (ipc k1 proc (nat q)) = flags" if "q \<in> set (port_list ?t)" for q
    using k1(3) that port_inv_used(1) [OF assms that] by (simp add: ipc_same_but_flags_def port_range_def)
  moreover have "set_port_flags k tr (-1) flags = Some (0, k1)"
    using k1(1) port_inv_process [OF assms] by (simp add: set_port_flags_def Let_def)
  ultimately show ?thesis using p(1) k2(1) by (auto simp: bulk_set_ports_def)
qed

theorem bulk_ports_round_trip_witness:
  "\<exists>pairs' k1 k2. bulk_get_ports k_port 10 (\<lambda>_. (0, 0)) = Some pairs' \<and> set_port_flags k_port 10 (-1) 1 = Some (0, k1) \<and>
    bulk_set_ports k1 10 pairs' = Some k2 \<and> (\<forall>q. ipc k2 0 q = ipc k_port 0 q)"
  using bulk_ports_round_trip [OF k_port_inv, of 10 "\<lambda>_. (0, 0)" 1] k_port_threads by auto

end
