(* ===== verification/Pulse.thy ===== *)
theory Pulse
  imports Ports
begin

section \<open>Pulses (kernel/src/pulse.c)\<close>

text \<open>
  Short messages of nine words, queued at a port. The pointers through which a pulse is
  returned are a result \<open>pulse option\<close>: \<open>None\<close> leaves the caller's variables alone.
  \<open>*dest_port\<close> is also an argument: the port to read, or anything outside the range for
  any port.

  Shown: pulses sent to a port are received in order, whatever was waiting, and nothing else
  is disturbed (an interpretation of the interface \<open>fifo\<close> over the whole kernel state); a
  preview names the port and the next receive takes the same pulse; \<open>pulses_waiting\<close> counts
  the unmasked ports; and one empty port hides the pulses of the ports after it.
\<close>

text \<open>Queueing a pulse: a NULL from \<open>aqueue_new\<close> is written through.\<close>

definition pulse_put :: "bool \<Rightarrow> kstate \<Rightarrow> addr \<Rightarrow> nat \<Rightarrow> pulse \<Rightarrow> kstate option" where
  "pulse_put mem k proc port p = do {
     q \<leftarrow> pulse_q (ipc k proc port);
     (ok, q) \<leftarrow> aq_put mem p q;
     assert ok;
     Some (upd_ipc proc port (\<lambda>b. b\<lparr>pulse_q := Some q\<rparr>) k)
   }"

text \<open>Lock, \<open>aqueue_next\<close>, read, unlock; and the same with \<open>aqueue_get\<close>.\<close>

definition pulse_next :: "kstate \<Rightarrow> addr \<Rightarrow> nat \<Rightarrow> (pulse option \<times> kstate) option" where
  "pulse_next k proc port = do {
     q \<leftarrow> pulse_q (ipc k proc port);
     (p, q) \<leftarrow> aq_pop q;
     Some (p, upd_ipc proc port (\<lambda>b. b\<lparr>pulse_q := Some q\<rparr>) k)
   }"

definition pulse_get :: "kstate \<Rightarrow> addr \<Rightarrow> nat \<Rightarrow> (pulse option \<times> kstate) option" where
  "pulse_get k proc port = do {
     q \<leftarrow> pulse_q (ipc k proc port);
     (p, q) \<leftarrow> aq_peek q;
     Some (p, upd_ipc proc port (\<lambda>b. b\<lparr>pulse_q := Some q\<rparr>) k)
   }"

text \<open>The end of \<open>send_pulse\<close> and \<open>send_message\<close>: wake the thread if it wants to be woken.\<close>

definition wake_receiver :: "kstate \<Rightarrow> addr \<Rightarrow> int \<Rightarrow> addr \<Rightarrow> kstate option" where
  "wake_receiver k proc dest_port tr =
     (if port_flags k proc dest_port IPC_MASKED = 0 \<and> t_state (threads k tr) = THREAD_DORMANT
      then set_thread_state k tr THREAD_RUNNING else Some k)"

definition send_pulse ::
    "bool \<Rightarrow> kstate \<Rightarrow> int \<Rightarrow> int \<Rightarrow> addr \<Rightarrow> int \<Rightarrow> u32 list \<Rightarrow> (int \<times> kstate) option" where
  "send_pulse mem k source_pid source_port proc dest_port data =
     (let tid = port2tid k proc dest_port in
      if tid < 0 then Some (-1, k)
      else do {
        tr \<leftarrow> get_thread k proc tid;
        (case tr of
           None \<Rightarrow> Some (-1, k)
         | Some tr \<Rightarrow> do {
             k \<leftarrow> pulse_put mem k proc (nat dest_port)
                    \<lparr>pl_source_pid = source_pid, pl_source_port = source_port, pl_dest_port = dest_port, pl_data = data\<rparr>;
             k \<leftarrow> wake_receiver k proc dest_port tr;
             Some (0, k)
           })
      })"

text \<open>The first port of the thread the loops do not pass over, or the end of the list.\<close>

definition first_unmasked :: "kstate \<Rightarrow> addr \<Rightarrow> addr \<Rightarrow> nat \<Rightarrow> nat \<Rightarrow> nat" where
  "first_unmasked k proc tr upper bottom =
     arr_find (\<lambda>i. t_ports (threads k tr) i = -1 \<or> port_flags k proc (t_ports (threads k tr) i) IPC_MASKED = 0) upper bottom"

definition receive_pulse :: "kstate \<Rightarrow> addr \<Rightarrow> int \<Rightarrow> (int \<times> pulse option \<times> kstate) option" where
  "receive_pulse k tr dest_port = do {
     proc \<leftarrow> t_process (threads k tr);
     let port = (if port_range dest_port then dest_port else t_last_port_pulse (threads k tr));
     let k = upd_thread tr (\<lambda>t. t\<lparr>t_last_port_pulse := -1\<rparr>) k;
     if port_range port then
       if port_flags k proc port IPC_MASKED \<noteq> 0 then Some (-1, None, k)
       else do {
         (p, k) \<leftarrow> pulse_next k proc (nat port);
         Some (if p = None then -1 else 0, p, k)
       }
     else do {
       let i = first_unmasked k proc tr MAX_PORTS 0;
       if i = MAX_PORTS \<or> t_ports (threads k tr) i = -1 then Some (-1, None, k)
       else do {
         (p, k) \<leftarrow> pulse_next k proc (nat (t_ports (threads k tr) i));
         Some (if p = None then -1 else 0, p, k)
       }
     }
   }"

text \<open>
  Which entries of the port array a look covers: \<open>None\<close> when the wanted port is not listed.
\<close>

definition look_range :: "thread \<Rightarrow> int \<Rightarrow> (nat \<times> nat) option" where
  "look_range t dest_port =
     (if port_range dest_port then
        let i = arr_find (\<lambda>i. t_ports t i = -1 \<or> t_ports t i = dest_port) MAX_PORTS 0 in
        if i = MAX_PORTS \<or> t_ports t i = -1 then None else Some (i, i + 1)
      else Some (0, MAX_PORTS))"

definition preview_pulse :: "kstate \<Rightarrow> addr \<Rightarrow> int \<Rightarrow> (int \<times> pulse option \<times> kstate) option" where
  "preview_pulse k tr dest_port = do {
     proc \<leftarrow> t_process (threads k tr);
     (case look_range (threads k tr) dest_port of
        None \<Rightarrow> Some (-1, None, k)
      | Some (bottom, upper) \<Rightarrow> do {
          let k = upd_thread tr (\<lambda>t. t\<lparr>t_last_port_pulse := -1\<rparr>) k;
          let i = first_unmasked k proc tr upper bottom;
          if i = upper \<or> t_ports (threads k tr) i = -1 then Some (-1, None, k)
          else do {
            let port = t_ports (threads k tr) i;
            (p, k) \<leftarrow> pulse_get k proc (nat port);
            Some (if p = None then (-1, None, k)
                  else (0, p, upd_thread tr (\<lambda>t. t\<lparr>t_last_port_pulse := port\<rparr>) k))
          }
        })
   }"

text \<open>The counting loop; the lock around \<open>aqueue_size\<close> leaves the queue as it was but for \<open>staging\<close>.\<close>

function pulses_waiting_loop :: "kstate \<Rightarrow> addr \<Rightarrow> addr \<Rightarrow> nat \<Rightarrow> u32 \<Rightarrow> (u32 \<times> kstate) option" where
  "pulses_waiting_loop k proc tr i cnt =
     (if i < MAX_PORTS \<and> t_ports (threads k tr) i \<noteq> -1 then
        let port = t_ports (threads k tr) i in
        if port_flags k proc port IPC_MASKED \<noteq> 0 then pulses_waiting_loop k proc tr (Suc i) cnt
        else do {
          q \<leftarrow> pulse_q (ipc k proc (nat port));
          q \<leftarrow> aqueue_lock q;
          pulses_waiting_loop (upd_ipc proc (nat port) (\<lambda>b. b\<lparr>pulse_q := Some (aqueue_unlock q)\<rparr>) k)
            proc tr (Suc i) (cnt + aqueue_size q)
        }
      else Some (cnt, k))"
  by pat_completeness auto
termination
  by (relation "measure (\<lambda>(k, proc, tr, i, cnt). MAX_PORTS - i)") auto

declare pulses_waiting_loop.simps [simp del]

definition pulses_waiting :: "kstate \<Rightarrow> addr \<Rightarrow> (int \<times> kstate) option" where
  "pulses_waiting k tr = do {
     proc \<leftarrow> t_process (threads k tr);
     (cnt, k) \<leftarrow> pulses_waiting_loop k proc tr 0 0;
     Some (sint cnt, k)
   }"

definition drop_pulse :: "kstate \<Rightarrow> addr \<Rightarrow> (int \<times> kstate) option" where
  "drop_pulse k tr = do {
     proc \<leftarrow> t_process (threads k tr);
     let port = t_last_port_pulse (threads k tr);
     let k = upd_thread tr (\<lambda>t. t\<lparr>t_last_port_pulse := -1\<rparr>) k;
     if port_range port then
       if port_flags k proc port IPC_MASKED \<noteq> 0 then Some (-1, k)
       else do { (p, k) \<leftarrow> pulse_next k proc (nat port); Some (if p = None then -1 else 0, k) }
     else if t_ports (threads k tr) 0 = -1 then Some (-1, k)
     else if \<not> port_range (t_ports (threads k tr) 0) then None
     else do {
       (p, k) \<leftarrow> pulse_next k proc (nat (t_ports (threads k tr) 0));
       Some (if p = None then -1 else 0, k)
     }
   }"

subsection \<open>The pulses waiting at a port\<close>

definition pulses :: "kstate \<Rightarrow> addr \<Rightarrow> nat \<Rightarrow> pulse list" where
  "pulses k proc port = (case pulse_q (ipc k proc port) of None \<Rightarrow> [] | Some q \<Rightarrow> aq_contents q)"

lemma block_pulse_q:
  assumes "block_ok b" obtains q where "pulse_q b = Some q" "aq_ready q"
  using assms by (auto simp: block_ok_def)

lemma block_ok_pulse_q [simp]: "block_ok b \<Longrightarrow> aq_ready q \<Longrightarrow> block_ok (b\<lparr>pulse_q := Some q\<rparr>)"
  by (auto simp: block_ok_def)

definition pulse_room :: "nat \<Rightarrow> kstate \<Rightarrow> addr \<Rightarrow> nat \<Rightarrow> bool" where
  "pulse_room n k proc port \<longleftrightarrow> (case pulse_q (ipc k proc port) of None \<Rightarrow> False | Some q \<Rightarrow> aq_room n q)"

text \<open>Only the pulse queue of one port may have changed.\<close>

definition pulse_frame :: "addr \<Rightarrow> nat \<Rightarrow> kstate \<Rightarrow> kstate \<Rightarrow> bool" where
  "pulse_frame proc port k k' \<longleftrightarrow>
     (\<exists>q. aq_ready q \<and> k' = upd_ipc proc port (\<lambda>b. b\<lparr>pulse_q := Some q\<rparr>) k)"

lemma pulse_frameI: "aq_ready q \<Longrightarrow> pulse_frame proc port k (upd_ipc proc port (\<lambda>b. b\<lparr>pulse_q := Some q\<rparr>) k)"
  unfolding pulse_frame_def by blast

lemma pulse_next_ok:
  assumes "block_ok (ipc k proc port)"
  shows "\<exists>k'. pulse_next k proc port = Some (case pulses k proc port of [] \<Rightarrow> None | x # _ \<Rightarrow> Some x, k') \<and>
    pulse_frame proc port k k' \<and> pulses k' proc port = tl (pulses k proc port) \<and>
    (pulse_room n k proc port \<longrightarrow> pulse_room n k' proc port)"
proof -
  obtain q where q: "pulse_q (ipc k proc port) = Some q" "aq_ready q" using assms by (rule block_pulse_q)
  show ?thesis
  proof (cases "aq_contents q")
    case Nil
    then show ?thesis using aq_pop_empty [OF q(2) Nil, of n] q
      by (auto simp: pulse_room_def pulse_next_def pulses_def pulse_frame_def)
  next
    case (Cons x xs)
    then show ?thesis using aq_pop_ok [OF q(2) Cons, of n] q
      by (auto simp: pulse_room_def pulse_next_def pulses_def pulse_frame_def)
  qed
qed

lemma pulse_frame_simps:
  assumes "pulse_frame proc port k k'"
  shows "threads k' = threads k" "cpu k' = cpu k" "same_table proc k k'"
    "ipc_tid (ipc k' proc p) = ipc_tid (ipc k proc p)" "ipc_flags (ipc k' proc p) = ipc_flags (ipc k proc p)"
    "message_q (ipc k' proc p) = message_q (ipc k proc p)"
    "p \<noteq> port \<Longrightarrow> ipc k' proc p = ipc k proc p"
    "block_ok (ipc k proc p) \<Longrightarrow> block_ok (ipc k' proc p)"
    "port_flags k' proc x f = port_flags k proc x f"
  using assms by (auto simp: pulse_frame_def same_table_def port_flags_def split: if_splits)

lemma pulse_frame_inv: "pulse_frame proc port k k' \<Longrightarrow> port_inv k proc \<Longrightarrow> port_inv k' proc"
  by (rule port_inv_keep) (auto simp: pulse_frame_simps)

lemma pulse_put_ok:
  assumes "block_ok (ipc k proc port)" "pulse_room (Suc n) k proc port"
  shows "\<exists>k'. pulse_put True k proc port p = Some k' \<and> pulse_frame proc port k k' \<and>
    pulses k' proc port = pulses k proc port @ [p] \<and> pulse_room n k' proc port"
proof -
  obtain q where q: "pulse_q (ipc k proc port) = Some q" "aq_ready q" using assms(1) by (rule block_pulse_q)
  then show ?thesis
    using aq_put_ok [OF q(2), of n p] assms(2)
    by (auto simp: pulse_put_def pulses_def pulse_frame_def pulse_room_def)
qed

text \<open>The port of a thread that is awake and listens.\<close>

definition port_awake :: "addr \<Rightarrow> addr \<Rightarrow> int \<Rightarrow> kstate \<Rightarrow> bool" where
  "port_awake proc tr port k \<longleftrightarrow> port_inv k proc \<and> tr \<in> set (thread_addrs k proc) \<and>
     port \<in> set (port_list (threads k tr)) \<and> port_flags k proc port IPC_MASKED = 0 \<and>
     t_state (threads k tr) \<noteq> THREAD_DORMANT"

lemma port_awakeD:
  assumes "port_awake proc tr port k"
  shows "port_inv k proc" "tr \<in> set (thread_addrs k proc)" "port_range port" "block_ok (ipc k proc (nat port))"
    "t_process (threads k tr) = Some proc" "port_flags k proc port IPC_MASKED = 0"
    "port2tid k proc port = t_tid (threads k tr)" "0 < t_tid (threads k tr)"
    "get_thread k proc (t_tid (threads k tr)) = Some (Some tr)" "t_state (threads k tr) \<noteq> THREAD_DORMANT"
proof -
  have a: "port_inv k proc" "tr \<in> set (thread_addrs k proc)" "port \<in> set (port_list (threads k tr))"
    using assms by (auto simp: port_awake_def)
  note u = port_inv_used [OF a]
  show "port_inv k proc" "tr \<in> set (thread_addrs k proc)" by (rule a)+
  show "port_range port" "block_ok (ipc k proc (nat port))" by (rule u)+
  show "t_process (threads k tr) = Some proc" by (rule port_inv_process [OF a(1,2)])
  show "port_flags k proc port IPC_MASKED = 0" "t_state (threads k tr) \<noteq> THREAD_DORMANT"
    using assms by (auto simp: port_awake_def)
  show "port2tid k proc port = t_tid (threads k tr)" using u by (simp add: port2tid_def)
  show "0 < t_tid (threads k tr)" using a by (auto simp: port_inv_def threads_ok_def tid_small_def)
  show "get_thread k proc (t_tid (threads k tr)) = Some (Some tr)" by (rule thread_lookup [OF a(1,2)])
qed

lemma port_awake_keep:
  assumes "port_awake proc tr port k" "port_inv k' proc" "same_table proc k k'"
    "t_ports (threads k' tr) = t_ports (threads k tr)" "t_state (threads k' tr) = t_state (threads k tr)"
    "port_flags k' proc port IPC_MASKED = port_flags k proc port IPC_MASKED"
  shows "port_awake proc tr port k'"
proof -
  have "port_list (threads k' tr) = port_list (threads k tr)" by (simp add: port_list_def port_count_def assms(4))
  then show ?thesis using assms(1,2,5,6) same_table_ok(2) [OF assms(3)] by (simp add: port_awake_def)
qed

lemma pulse_frame_awake: "port_awake proc tr port k \<Longrightarrow> pulse_frame proc p k k' \<Longrightarrow> port_awake proc tr port k'"
  by (rule port_awake_keep [of proc tr port k]) (auto simp: pulse_frame_simps pulse_frame_inv port_awake_def)

lemma send_pulse_ok:
  assumes "port_awake proc tr port k" "pulse_room (Suc n) k proc (nat port)"
  shows "\<exists>k'. send_pulse True k spid sport proc port data = Some (0, k') \<and> pulse_frame proc (nat port) k k' \<and>
    port_awake proc tr port k' \<and> pulse_room n k' proc (nat port) \<and> pulses k' proc (nat port) = pulses k proc (nat port) @
      [\<lparr>pl_source_pid = spid, pl_source_port = sport, pl_dest_port = port, pl_data = data\<rparr>]"
proof -
  note a = port_awakeD [OF assms(1)]
  obtain k' where "pulse_put True k proc (nat port)
      \<lparr>pl_source_pid = spid, pl_source_port = sport, pl_dest_port = port, pl_data = data\<rparr> = Some k'"
    and f: "pulse_frame proc (nat port) k k'"
    and "pulses k' proc (nat port) = pulses k proc (nat port) @
      [\<lparr>pl_source_pid = spid, pl_source_port = sport, pl_dest_port = port, pl_data = data\<rparr>]" "pulse_room n k' proc (nat port)"
    using pulse_put_ok [OF a(4) assms(2)] by blast
  with a show ?thesis
    by (simp add: send_pulse_def wake_receiver_def Let_def pulse_frame_simps [OF f] pulse_frame_awake [OF assms(1) f])
qed

text \<open>The hint is cleared by every receive.\<close>

lemma port_flags_upd_thread [simp]: "port_flags (upd_thread a f k) proc port m = port_flags k proc port m"
  by (simp add: port_flags_def)

lemma clear_hint_inv:
  "port_inv k proc \<Longrightarrow> port_inv (upd_thread tr (\<lambda>t. t\<lparr>t_last_port_pulse := h\<rparr>) k) proc"
  by (rule port_inv_keep) (auto simp: same_table_def)

lemma clear_hint_awake:
  "port_awake proc tr port k \<Longrightarrow> port_awake proc tr port (upd_thread tr (\<lambda>t. t\<lparr>t_last_port_pulse := h\<rparr>) k)"
  by (rule port_awake_keep [of proc tr port k]) (auto simp: same_table_def port_awake_def intro: clear_hint_inv)

lemma receive_pulse_ok:
  assumes "port_awake proc tr port k"
  shows "\<exists>k'. receive_pulse k tr port = Some (if pulses k proc (nat port) = [] then -1 else 0,
      case pulses k proc (nat port) of [] \<Rightarrow> None | x # _ \<Rightarrow> Some x, k') \<and>
    pulse_frame proc (nat port) (upd_thread tr (\<lambda>t. t\<lparr>t_last_port_pulse := -1\<rparr>) k) k' \<and>
    port_awake proc tr port k' \<and> pulses k' proc (nat port) = tl (pulses k proc (nat port)) \<and>
    (pulse_room n k proc (nat port) \<longrightarrow> pulse_room n k' proc (nat port))"
proof -
  let ?k = "upd_thread tr (\<lambda>t. t\<lparr>t_last_port_pulse := -1\<rparr>) k"
  have aw: "port_awake proc tr port ?k" by (rule clear_hint_awake [OF assms])
  note a = port_awakeD [OF aw] and a0 = port_awakeD [OF assms]
  have eq: "pulses ?k proc p = pulses k proc p" "pulse_room n ?k proc p = pulse_room n k proc p" for p
    by (simp_all add: pulses_def pulse_room_def)
  obtain k' where k': "pulse_next ?k proc (nat port) = Some (case pulses k proc (nat port) of [] \<Rightarrow> None | x # _ \<Rightarrow> Some x, k')"
    "pulse_frame proc (nat port) ?k k'" "pulses k' proc (nat port) = tl (pulses k proc (nat port))"
    "pulse_room n k proc (nat port) \<longrightarrow> pulse_room n k' proc (nat port)"
    using pulse_next_ok [OF a(4), of n] by (auto simp: eq)
  then show ?thesis
    using a(3,6) a0(5) pulse_frame_awake [OF aw k'(2)]
    by (auto simp: receive_pulse_def Let_def split: list.splits)
qed

subsection \<open>First in, first out at the level of the kernel\<close>

type_synonym pulse_body = "int \<times> int \<times> u32 list" \<comment> \<open>sender's pid and port, data\<close>

definition pulse_body :: "pulse \<Rightarrow> pulse_body" where
  "pulse_body p = (pl_source_pid p, pl_source_port p, pl_data p)"

definition pulse_send_to :: "addr \<Rightarrow> int \<Rightarrow> pulse_body \<Rightarrow> kstate \<Rightarrow> kstate option" where
  "pulse_send_to proc port x k =
     map_option snd (send_pulse True k (fst x) (fst (snd x)) proc port (snd (snd x)))"

definition pulse_receive_at :: "addr \<Rightarrow> int \<Rightarrow> kstate \<Rightarrow> (pulse_body option \<times> kstate) option" where
  "pulse_receive_at tr port k =
     map_option (\<lambda>(r, p, k'). (map_option pulse_body p, k')) (receive_pulse k tr port)"

definition pulse_bodies :: "addr \<Rightarrow> int \<Rightarrow> kstate \<Rightarrow> pulse_body list" where
  "pulse_bodies proc port k = map pulse_body (pulses k proc (nat port))"

interpretation pl: fifo "pulse_send_to proc port" "pulse_receive_at tr port" "pulse_bodies proc port"
  "port_awake proc tr port" "\<lambda>n k. pulse_room n k proc (nat port)"
  for proc tr port
proof (unfold_locales, goal_cases)
  case (1 k n x)
  show ?case
    using send_pulse_ok [OF 1, of "fst x" "fst (snd x)" "snd (snd x)"]
    by (auto simp: pulse_send_to_def pulse_bodies_def pulse_body_def)
next
  case (2 k x xs n)
  then show ?case using receive_pulse_ok [OF 2(1), of n]
    by (auto simp: pulse_receive_at_def pulse_bodies_def)
next
  case (3 k n)
  then show ?case using receive_pulse_ok [OF 3(1), of n]
    by (auto simp: pulse_receive_at_def pulse_bodies_def)
qed

subsection \<open>Reading any port\<close>

lemma first_unmasked_ok:
  assumes "port_inv k proc" "tr \<in> set (thread_addrs k proc)" "port_list (threads k tr) = xs @ p # ys"
    "\<forall>x\<in>set xs. port_flags k proc x IPC_MASKED \<noteq> 0" "port_flags k proc p IPC_MASKED = 0"
  shows "first_unmasked k proc tr MAX_PORTS 0 = length xs" "length xs < MAX_PORTS"
    "t_ports (threads k tr) (length xs) = p" "p \<noteq> -1"
proof -
  let ?t = "threads k tr"
  have n: "length xs < port_count ?t" using arg_cong [OF assms(3), of length] by (simp add: port_list_def)
  then show c: "length xs < MAX_PORTS" using port_count_le [of ?t] by simp
  have e: "t_ports ?t i = (xs @ p # ys) ! i" if "i < port_count ?t" for i
    using that assms(3) nth_arr_list [of i "port_count ?t" "t_ports ?t"] by (simp add: port_list_def)
  show p: "t_ports ?t (length xs) = p" using e [OF n] by simp
  then show "p \<noteq> -1" using port_list_in [OF n] by simp
  have "t_ports ?t j \<noteq> -1 \<and> port_flags k proc (t_ports ?t j) IPC_MASKED \<noteq> 0" if "j < length xs" for j
    using that n assms(4) e [of j] port_list_in [of j ?t] by (auto simp: nth_append)
  then show "first_unmasked k proc tr MAX_PORTS 0 = length xs"
    unfolding first_unmasked_def using c p assms(5) by (intro arr_find_eqI) auto
qed

lemma receive_any_ok:
  assumes "port_inv k proc" "tr \<in> set (thread_addrs k proc)" "\<not> port_range dest" "\<not> port_range (t_last_port_pulse (threads k tr))"
    "port_list (threads k tr) = xs @ p # ys"
    "\<forall>x\<in>set xs. port_flags k proc x IPC_MASKED \<noteq> 0" "port_flags k proc p IPC_MASKED = 0"
  shows "\<exists>k'. receive_pulse k tr dest = Some (if pulses k proc (nat p) = [] then -1 else 0,
      case pulses k proc (nat p) of [] \<Rightarrow> None | x # _ \<Rightarrow> Some x, k') \<and>
    pulse_frame proc (nat p) (upd_thread tr (\<lambda>t. t\<lparr>t_last_port_pulse := -1\<rparr>) k) k' \<and>
    pulses k' proc (nat p) = tl (pulses k proc (nat p))"
proof -
  let ?k = "upd_thread tr (\<lambda>t. t\<lparr>t_last_port_pulse := -1\<rparr>) k"
  have i: "port_inv ?k proc" by (rule clear_hint_inv [OF assms(1)])
  have "port_list (threads ?k tr) = xs @ p # ys" "tr \<in> set (thread_addrs ?k proc)"
    using assms(2,5) by (simp_all add: port_list_def port_count_def thread_addrs_def)
  note f = first_unmasked_ok [OF i this(2,1)]
  have "p \<in> set (port_list (threads k tr))" by (simp add: assms(5))
  note u = port_inv_used [OF assms(1,2) this]
  have eq: "pulses ?k proc (nat p) = pulses k proc (nat p)" by (simp add: pulses_def)
  have b: "block_ok (ipc ?k proc (nat p))" using u(3) by simp
  show ?thesis
    using pulse_next_ok [OF b, of 0] f assms(3,4,6,7) port_inv_process [OF assms(1,2)]
    by (auto simp: receive_pulse_def Let_def eq split: list.splits)
qed

text \<open>The lock taken and released around a look at the queue clears \<open>staging\<close> only.\<close>

lemma aq_staging_ready [simp]:
  "aq_ready q \<Longrightarrow> aq_ready (q\<lparr>aq_staging := s\<rparr>)" "aq_contents (q\<lparr>aq_staging := s\<rparr>) = aq_contents q"
  by (simp_all add: aq_ready_def aq_inv_def aq_contents_def)

lemma preview_any_ok:
  assumes "port_inv k proc" "tr \<in> set (thread_addrs k proc)" "\<not> port_range dest"
    "port_list (threads k tr) = xs @ p # ys"
    "\<forall>x\<in>set xs. port_flags k proc x IPC_MASKED \<noteq> 0" "port_flags k proc p IPC_MASKED = 0"
    and q: "pulse_q (ipc k proc (nat p)) = Some q" "aq_contents q = x # rest" "aq_position q < aq_obj_count q"
  shows "\<exists>k' k0. preview_pulse k tr dest = Some (0, Some x, k') \<and>
    k' = upd_thread tr (\<lambda>t. t\<lparr>t_last_port_pulse := p\<rparr>) k0 \<and>
    pulse_frame proc (nat p) (upd_thread tr (\<lambda>t. t\<lparr>t_last_port_pulse := -1\<rparr>) k) k0 \<and>
    pulses k' proc (nat p) = x # rest"
proof -
  let ?k = "upd_thread tr (\<lambda>t. t\<lparr>t_last_port_pulse := -1\<rparr>) k"
  have i: "port_inv ?k proc" by (rule clear_hint_inv [OF assms(1)])
  have "port_list (threads ?k tr) = xs @ p # ys" "tr \<in> set (thread_addrs ?k proc)"
    using assms(2,4) by (simp_all add: port_list_def port_count_def thread_addrs_def)
  note f = first_unmasked_ok [OF i this(2,1)]
  have "p \<in> set (port_list (threads k tr))" by (simp add: assms(4))
  then have b: "block_ok (ipc k proc (nat p))" by (rule port_inv_used [OF assms(1,2)])
  then have rq: "aq_ready q" using q(1) by (auto simp: block_ok_def)
  define k0 where "k0 = upd_ipc proc (nat p) (\<lambda>b. b\<lparr>pulse_q := Some (q\<lparr>aq_staging := 0\<rparr>)\<rparr>) ?k"
  have "pulse_get ?k proc (nat p) = Some (Some x, k0)"
    using aq_peek_head [OF rq q(2,3)] q(1) by (simp add: pulse_get_def k0_def)
  then have "preview_pulse k tr dest = Some (0, Some x, upd_thread tr (\<lambda>t. t\<lparr>t_last_port_pulse := p\<rparr>) k0)"
    using f assms(3,5,6) port_inv_process [OF assms(1,2)]
    by (auto simp: preview_pulse_def look_range_def Let_def)
  moreover have "pulse_frame proc (nat p) ?k k0" unfolding k0_def by (rule pulse_frameI) (simp add: rq)
  moreover have "pulses k0 proc (nat p) = x # rest" using q(2) by (simp add: k0_def pulses_def)
  ultimately show ?thesis by (auto simp: pulses_def)
qed

subsection \<open>Counting\<close>

lemma pulses_waiting_loop_ok:
  assumes "port_inv k proc" "tr \<in> set (thread_addrs k proc)" "i \<le> port_count (threads k tr)"
  shows "\<exists>k'. pulses_waiting_loop k proc tr i n = Some (n + (\<Sum>p\<leftarrow>drop i (port_list (threads k tr)).
      if port_flags k proc p IPC_MASKED = 0 then of_nat (length (pulses k proc (nat p))) else 0), k') \<and>
    port_inv k' proc \<and> (\<forall>p. pulses k' proc p = pulses k proc p)"
  using assms
proof (induction k proc tr i n rule: pulses_waiting_loop.induct)
  case (1 k proc tr i n)
  let ?t = "threads k tr"
  show ?case
  proof (cases "i < port_count ?t")
    case True
    let ?p = "t_ports ?t i"
    have c: "i < MAX_PORTS \<and> ?p \<noteq> -1" using True port_count_le [of ?t] port_list_in [OF True] by auto
    have d: "drop i (port_list ?t) = ?p # drop (Suc i) (port_list ?t)"
      using True Cons_nth_drop_Suc [of i "port_list ?t"] by (simp add: port_list_def)
    show ?thesis
    proof (cases "port_flags k proc ?p IPC_MASKED = 0")
      case False
      then show ?thesis using 1(1) [OF c refl False 1(3,4)] True c
        by (subst pulses_waiting_loop.simps) (simp add: d)
    next
      case unm: True
      have "block_ok (ipc k proc (nat ?p))" by (rule port_inv_used [OF 1(3,4) port_list_nth [OF True]])
      then obtain q where q: "pulse_q (ipc k proc (nat ?p)) = Some q" "aq_ready q" by (rule block_pulse_q)
      define q1 where "q1 = q\<lparr>aq_lock := True\<rparr>"
      define k1 where "k1 = upd_ipc proc (nat ?p) (\<lambda>b. b\<lparr>pulse_q := Some (aqueue_unlock q1)\<rparr>) k"
      have l: "aqueue_lock q = Some q1" using q(2) by (simp add: aqueue_lock_def aq_ready_def q1_def)
      have rq: "aq_ready (aqueue_unlock q1)" "aq_contents (aqueue_unlock q1) = aq_contents q"
        using q(2) by (simp_all add: q1_def aqueue_unlock_def aq_unlocked aq_ready_def aq_inv_def aq_contents_def)
      have f: "pulse_frame proc (nat ?p) k k1" unfolding k1_def using rq(1) by (rule pulse_frameI)
      have pu: "pulses k1 proc p = pulses k proc p" for p using q(1) rq(2) by (simp add: k1_def pulses_def)
      have "aqueue_size q1 = of_nat (unat (aqueue_size q))" by (simp add: q1_def aqueue_size_def)
      moreover have "unat (aqueue_size q) = length (pulses k proc (nat ?p))"
        using aqueue_size_contents [of q] q by (simp add: pulses_def aq_ready_def)
      ultimately have sz: "aqueue_size q1 = of_nat (length (pulses k proc (nat ?p)))" by metis
      have tr1: "tr \<in> set (thread_addrs k1 proc)" "Suc i \<le> port_count (threads k1 tr)"
        using 1(4) True same_table_ok(2) [OF pulse_frame_simps(3) [OF f]] by (simp_all add: pulse_frame_simps [OF f])
      have nm: "\<not> port_flags k proc ?p IPC_MASKED \<noteq> 0" using unm by simp
      have "pulses_waiting_loop k proc tr i n = pulses_waiting_loop k1 proc tr (Suc i) (n + aqueue_size q1)"
        using c unm q(1) l by (subst pulses_waiting_loop.simps) (simp add: k1_def)
      moreover note 1(2) [OF c refl nm q(1) l, folded k1_def, OF pulse_frame_inv [OF f 1(3)] tr1]
      ultimately show ?thesis
        using unm by (simp add: d pu sz pulse_frame_simps [OF f] add.assoc cong: if_cong)
    qed
  next
    case False
    then have i: "i = port_count ?t" using 1(5) by simp
    then have "\<not> (i < MAX_PORTS \<and> t_ports ?t i \<noteq> -1)" using port_list_end [of ?t] by auto
    then have "pulses_waiting_loop k proc tr i n = Some (n, k)" by (subst pulses_waiting_loop.simps) (simp only: if_False)
    then show ?thesis using 1(3) by (simp add: i port_list_def)
  qed
qed

subsection \<open>Properties\<close>

text \<open>
  C5. Delivery of pulses. Pulses sent to a listening port of a thread that is awake are
  received from that port completely, unchanged and in the order they were sent, after the
  ones that were waiting; then the port is empty. All the while the tables, lists and
  queues of the process stay consistent.
\<close>

theorem pulse_delivery:
  assumes "port_awake proc tr port k" "pulse_room (length xs) k proc (nat port)"
  shows "\<exists>k' k''. put_all (pulse_send_to proc port) xs k = Some k' \<and>
    pop_all (pulse_receive_at tr port) (length (pulse_bodies proc port k) + length xs) k' =
      Some (map Some (pulse_bodies proc port k @ xs), k'') \<and>
    port_awake proc tr port k'' \<and> pulse_bodies proc port k'' = []"
  using pl.fifo_order [OF assms] .

definition k_awake :: kstate where
  "k_awake = upd_thread 10 (\<lambda>t. t\<lparr>t_state := THREAD_RUNNING\<rparr>) k_port"

lemma k_awake_ok: "port_awake 0 10 5 k_awake" "pulse_room 3 k_awake 0 5" "pulses k_awake 0 5 = []"
proof -
  have i: "port_inv k_awake 0"
    by (rule port_inv_keep [OF k_port_inv]) (auto simp: k_awake_def same_table_def)
  have t: "thread_addrs k_awake 0 = [10, 11]"
    using k_port_threads by (simp add: k_awake_def thread_addrs_def)
  have "ipc k_awake 0 5 = ipc_blank\<lparr>pulse_q := Some (aqueue_init SIZEOF_PULSE PULSE_OBJECTS),
     message_q := Some (aqueue_init SIZEOF_MESSAGE MESSAGE_OBJECTS), ipc_tid := 1, ipc_flags := 0\<rparr>"
    and own: "t_tid (threads k_awake 10) = 1" "t_state (threads k_awake 10) = THREAD_RUNNING"
    by (simp_all add: k_awake_def k_port_eq thread_blank_def)
  moreover have r: "port_range 5" by (simp add: port_range_def MAX_PORTS_def)
  moreover have "10 \<in> set (thread_addrs k_awake 0)" using t by simp
  ultimately show "port_awake 0 10 5 k_awake" "pulse_room 3 k_awake 0 5" "pulses k_awake 0 5 = []"
    using port_inv_owner [OF i _ r, of 10] i
    by (simp_all add: port_awake_def port_flags_def pulse_room_def pulses_def aqueue_init_room PULSE_OBJECTS_def)
qed

theorem pulse_delivery_witness:
  "\<exists>k' k''. put_all (pulse_send_to 0 5) [(1, 2, [3]), (4, 5, [6])] k_awake = Some k' \<and>
    pop_all (pulse_receive_at 10 5) 2 k' = Some ([Some (1, 2, [3]), Some (4, 5, [6])], k'')"
proof -
  have "pulse_room (length [(1, 2, [3]), (4, 5, [6] :: u32 list)]) k_awake 0 (nat 5)"
    using k_awake_ok(2) by (auto simp: pulse_room_def aq_room_def split: option.splits)
  from pulse_delivery [OF k_awake_ok(1) this] k_awake_ok(3) show ?thesis
    by (auto simp: pulse_bodies_def numeral_2_eq_2)
qed

text \<open>
  Receiving from any port. With no port named and no hint, \<open>receive_pulse\<close> looks at the
  first unmasked port of the thread only: it takes the oldest pulse there, and when that
  port has none it returns -1 whatever waits at the ports after it.
\<close>

theorem receive_pulse_first_port:
  assumes "port_inv k proc" "tr \<in> set (thread_addrs k proc)" "\<not> port_range dest" "\<not> port_range (t_last_port_pulse (threads k tr))"
    and "port_list (threads k tr) = xs @ p # ys"
    and "\<forall>x\<in>set xs. port_flags k proc x IPC_MASKED \<noteq> 0" "port_flags k proc p IPC_MASKED = 0"
  shows "\<exists>k'. receive_pulse k tr dest = Some (if pulses k proc (nat p) = [] then -1 else 0,
      case pulses k proc (nat p) of [] \<Rightarrow> None | x # _ \<Rightarrow> Some x, k') \<and>
    pulses k' proc (nat p) = tl (pulses k proc (nat p)) \<and> (\<forall>q. q \<noteq> nat p \<longrightarrow> pulses k' proc q = pulses k proc q)"
  using receive_any_ok [OF assms] by (auto simp: pulses_def pulse_frame_def)

lemma port_list_five: "port_list (threads k_port 10) = [5]"
proof -
  have "port_count (threads k_duo 10) = 0"
    by (rule port_listI(1)) (simp_all add: thread_blank_def)
  then show ?thesis
    using add_port_ok(2) [OF port_inv_array [OF k_duo_inv], of 10 5]
    by (simp add: k_port_eq k_duo_threads port_list_def port_range_def MAX_PORTS_def)
qed

definition pulse_nine :: pulse where
  "pulse_nine = \<lparr>pl_source_pid = 1, pl_source_port = 1, pl_dest_port = 6, pl_data = [9]\<rparr>"

definition queue_nine :: "pulse aqueue" where
  "queue_nine = the (aq_append pulse_nine (aqueue_init SIZEOF_PULSE PULSE_OBJECTS))"

lemma queue_nine_ok:
  "aq_ready queue_nine" "aq_contents queue_nine = [pulse_nine]" "aq_position queue_nine < aq_obj_count queue_nine"
proof -
  have r: "aq_ready (aqueue_init SIZEOF_PULSE PULSE_OBJECTS)" "aq_room (Suc 0) (aqueue_init SIZEOF_PULSE PULSE_OBJECTS)"
    by (simp_all add: aqueue_init_ready aqueue_init_room PULSE_OBJECTS_def)
  show "aq_ready queue_nine" "aq_contents queue_nine = [pulse_nine]"
    using aq.put_ok [OF r, of pulse_nine] by (auto simp: queue_nine_def)
  show "aq_position queue_nine < aq_obj_count queue_nine"
    by (simp add: queue_nine_def aq_put_def aqueue_lock_def aqueue_new_def aqueue_init_def
      aq_write_def aqueue_save_def aqueue_unlock_def PULSE_OBJECTS_def)
qed

text \<open>Thread 10 with ports 5 and 6, a pulse waiting at port 6 only.\<close>

definition k_hidden :: kstate where
  "k_hidden = upd_ipc 0 6 (\<lambda>b. b\<lparr>pulse_q := Some queue_nine\<rparr>) (snd (the (create_port True True k_port 10 6 1)))"

lemma k_hidden_eq: "k_hidden = upd_ipc 0 6 (\<lambda>b. b\<lparr>pulse_q := Some queue_nine\<rparr>)
    (upd_thread 10 (add_port 6) (upd_ipc 0 6 (\<lambda>b. b\<lparr>pulse_q := Some (aqueue_init SIZEOF_PULSE PULSE_OBJECTS),
       message_q := Some (aqueue_init SIZEOF_MESSAGE MESSAGE_OBJECTS), ipc_tid := 1, ipc_flags := 0\<rparr>) k_port))"
  using create_port_eval [OF k_port_inv, of 10 6 10]
  by (simp add: k_hidden_def k_port_threads port_range_def MAX_PORTS_def) (simp add: k_port_eq thread_blank_def ipc_blank_def)

lemma k_hidden_ok:
  "port_inv k_hidden 0" "thread_addrs k_hidden 0 = [10, 11]" "port_list (threads k_hidden 10) = [5, 6]"
  "port_flags k_hidden 0 5 IPC_MASKED = 0" "port_flags k_hidden 0 6 IPC_MASKED = 0"
  "pulses k_hidden 0 5 = []" "length (pulses k_hidden 0 6) = 1"
  "t_last_port_pulse (threads k_hidden 10) = -1"
proof -
  let ?f = "\<lambda>b. b\<lparr>pulse_q := Some (aqueue_init SIZEOF_PULSE PULSE_OBJECTS),
       message_q := Some (aqueue_init SIZEOF_MESSAGE MESSAGE_OBJECTS), ipc_tid := 1, ipc_flags := 0\<rparr>"
  let ?k = "upd_thread 10 (add_port 6) (upd_ipc 0 6 ?f k_port)"
  have t10: "10 \<in> set (thread_addrs k_port 0)" by (simp add: k_port_threads)
  have r: "port_range 6" "port_range 5" by (simp_all add: port_range_def MAX_PORTS_def)
  have tid: "t_tid (threads k_port 10) = 1" and free: "ipc_tid (ipc k_port 0 6) = -1"
    by (simp_all add: k_port_eq thread_blank_def ipc_blank_def)
  have i: "port_inv ?k 0"
    using add_port_inv [OF k_port_inv r(1) _ t10, of ?f] free tid by (simp add: new_block_ok)
  have l6: "port_list (threads ?k 10) = [5, 6]"
    using add_port_ok(2) [OF port_inv_array [OF k_port_inv t10] r(1)] port_list_five by simp
  note kh = k_hidden_eq
  have f: "pulse_frame 0 6 ?k k_hidden" unfolding kh using queue_nine_ok(1) by (rule pulse_frameI)
  show "port_inv k_hidden 0" by (rule pulse_frame_inv [OF f i])
  show "thread_addrs k_hidden 0 = [10, 11]" using k_port_threads by (simp add: kh thread_addrs_def)
  show "port_list (threads k_hidden 10) = [5, 6]" using l6 by (simp add: kh)
  show "port_flags k_hidden 0 5 IPC_MASKED = 0" "port_flags k_hidden 0 6 IPC_MASKED = 0" "pulses k_hidden 0 5 = []" "length (pulses k_hidden 0 6) = 1"
    using queue_nine_ok(2) r by (simp_all add: kh port_flags_def pulses_def k_port_eq)
  show "t_last_port_pulse (threads k_hidden 10) = -1"
    by (simp add: kh k_port_eq add_port_def Let_def thread_blank_def)
qed

theorem receive_pulse_first_port_witness:
  "length (pulses k_hidden 0 6) = 1 \<and>
   (\<exists>k'. receive_pulse k_hidden 10 (-1) = Some (-1, None, k') \<and> length (pulses k' 0 6) = 1)"
  using receive_pulse_first_port [OF k_hidden_ok(1), of 10 "-1" "[]" 5 "[6]"] k_hidden_ok
  by (auto simp: port_range_def)

text \<open>
  Preview, then receive. When the oldest pulse of the first unmasked port lies inside the
  first page of its queue, a preview returns it and leaves a hint, and the next receive, with
  no port named, takes exactly that pulse.
\<close>

theorem preview_then_receive:
  assumes "port_inv k proc" "tr \<in> set (thread_addrs k proc)" "\<not> port_range dest"
    and "port_list (threads k tr) = xs @ p # ys"
    and "\<forall>x\<in>set xs. port_flags k proc x IPC_MASKED \<noteq> 0" "port_flags k proc p IPC_MASKED = 0"
    and "pulse_q (ipc k proc (nat p)) = Some q" "aq_contents q = x # rest" "aq_position q < aq_obj_count q"
  shows "\<exists>k1 k2. preview_pulse k tr dest = Some (0, Some x, k1) \<and> receive_pulse k1 tr dest = Some (0, Some x, k2) \<and>
    pulses k2 proc (nat p) = rest"
proof -
  obtain k1 k0 where k1: "preview_pulse k tr dest = Some (0, Some x, k1)"
    "k1 = upd_thread tr (\<lambda>t. t\<lparr>t_last_port_pulse := p\<rparr>) k0"
    "pulse_frame proc (nat p) (upd_thread tr (\<lambda>t. t\<lparr>t_last_port_pulse := -1\<rparr>) k) k0" "pulses k1 proc (nat p) = x # rest"
    using preview_any_ok [OF assms] by blast
  note f = pulse_frame_simps [OF k1(3)]
  have "p \<in> set (port_list (threads k tr))" by (simp add: assms(4))
  note u = port_inv_used [OF assms(1,2) this]
  let ?k = "upd_thread tr (\<lambda>t. t\<lparr>t_last_port_pulse := -1\<rparr>) k1"
  have b: "block_ok (ipc ?k proc (nat p))" using f(8) u(3) by (simp add: k1(2))
  have "pulses ?k proc (nat p) = x # rest" using k1(4) by (simp add: pulses_def)
  then obtain k2 where "pulse_next ?k proc (nat p) = Some (Some x, k2)" "pulses k2 proc (nat p) = rest"
    using pulse_next_ok [OF b, of 0] by auto
  moreover have "port_flags k1 proc p IPC_MASKED = 0" "t_process (threads k1 tr) = Some proc" "t_last_port_pulse (threads k1 tr) = p"
    using assms(6) port_inv_process [OF assms(1,2)] f by (simp_all add: k1(2))
  ultimately show ?thesis using k1(1) u(1) assms(3) by (simp add: receive_pulse_def Let_def)
qed

definition k_peek :: kstate where
  "k_peek = upd_ipc 0 5 (\<lambda>b. b\<lparr>pulse_q := Some queue_nine\<rparr>) k_awake"

theorem preview_then_receive_witness:
  "\<exists>k1 k2. preview_pulse k_peek 10 (-1) = Some (0, Some pulse_nine, k1) \<and>
     receive_pulse k1 10 (-1) = Some (0, Some pulse_nine, k2) \<and> pulses k2 0 5 = []"
proof -
  have "pulse_frame 0 5 k_awake k_peek" unfolding k_peek_def using queue_nine_ok(1) by (rule pulse_frameI)
  then have aw: "port_awake 0 10 5 k_peek" by (rule pulse_frame_awake [OF k_awake_ok(1)])
  note a = port_awakeD [OF aw]
  have q: "pulse_q (ipc k_peek 0 (nat 5)) = Some queue_nine" by (simp add: k_peek_def)
  have "port_list (threads k_peek 10) = [] @ 5 # []"
    using port_list_five by (simp add: k_peek_def k_awake_def port_list_def port_count_def)
  from preview_then_receive [OF a(1,2) _ this _ a(6) q queue_nine_ok(2,3), of "-1"] show ?thesis
    by (simp add: port_range_def)
qed

text \<open>
  Counting. \<open>pulses_waiting\<close> returns the number of pulses at the unmasked ports of the
  thread (as a C \<open>int\<close>, so modulo two to the 32), and changes no queue's contents.
\<close>

theorem pulses_waiting_counts:
  assumes "port_inv k proc" "tr \<in> set (thread_addrs k proc)"
  shows "\<exists>k'. pulses_waiting k tr = Some (sint (of_nat (\<Sum>p\<leftarrow>port_list (threads k tr).
      if port_flags k proc p IPC_MASKED = 0 then length (pulses k proc (nat p)) else 0) :: u32), k') \<and>
    port_inv k' proc \<and> (\<forall>p. pulses k' proc p = pulses k proc p)"
proof -
  have "of_nat (\<Sum>p\<leftarrow>ps. if f p then g p else 0) = (\<Sum>p\<leftarrow>ps. if f p then of_nat (g p) else 0 :: u32)" for f g and ps :: "int list"
    by (induction ps) auto
  with pulses_waiting_loop_ok [OF assms, of 0 0] port_inv_process [OF assms] show ?thesis
    by (auto simp: pulses_waiting_def)
qed

theorem pulses_waiting_counts_witness: "\<exists>k'. pulses_waiting k_hidden 10 = Some (1, k')"
  using pulses_waiting_counts [OF k_hidden_ok(1), of 10] k_hidden_ok by auto

end
