(* ===== verification/Messages.thy ===== *)
theory Messages
  imports Pulse
begin

section \<open>Messages (kernel/src/messages.c)\<close>

text \<open>
  Messages of any size, queued at a port with a copy of the sender's bytes. A message holds
  its copy as a buffer; the \<open>malloc\<close> of the copy and of queue pages are arguments, and
  \<open>junk\<close> is what the fresh memory holds. A negative size would make \<open>memcpy\<close> run over four
  gigabytes: no result.

  Shown: the bytes sent to a port arrive in order (the interface \<open>fifo\<close> again, through both
  copies); receiving from any port takes the oldest message of the first unmasked port that
  has one; what is returned of a message longer than the buffer; the counting; and that a
  failed send changes nothing.
\<close>

definition message_next :: "kstate \<Rightarrow> addr \<Rightarrow> nat \<Rightarrow> (message option \<times> kstate) option" where
  "message_next k proc port = do {
     q \<leftarrow> message_q (ipc k proc port);
     (m, q) \<leftarrow> aq_pop q;
     Some (m, upd_ipc proc port (\<lambda>b. b\<lparr>message_q := Some q\<rparr>) k)
   }"

definition message_get :: "kstate \<Rightarrow> addr \<Rightarrow> nat \<Rightarrow> (message option \<times> kstate) option" where
  "message_get k proc port = do {
     q \<leftarrow> message_q (ipc k proc port);
     (m, q) \<leftarrow> aq_peek q;
     Some (m, upd_ipc proc port (\<lambda>b. b\<lparr>message_q := Some q\<rparr>) k)
   }"

definition send_message ::
    "bool \<Rightarrow> bool \<Rightarrow> buffer \<Rightarrow> kstate \<Rightarrow> int \<Rightarrow> int \<Rightarrow> addr \<Rightarrow> int \<Rightarrow> int \<Rightarrow> buffer \<Rightarrow> (int \<times> kstate) option" where
  "send_message mem_data mem_page junk k source_pid source_port proc dest_port bytes location =
     (let dest_tid = port2tid k proc dest_port in
      if dest_tid < 0 then Some (-1, k)
      else do {
        tr \<leftarrow> get_thread k proc dest_tid;
        (case tr of
           None \<Rightarrow> Some (-1, k)
         | Some tr \<Rightarrow>
             if \<not> mem_data then Some (-1, k)
             else do {
               q \<leftarrow> message_q (ipc k proc (nat dest_port));
               (ok, q) \<leftarrow> aq_put mem_page
                  \<lparr>msg_source_pid = source_pid, msg_source_port = source_port, msg_dest_port = dest_port,
                   msg_bytes = bytes, msg_data = memcpy junk location (nat bytes)\<rparr> q;
               let k = upd_ipc proc (nat dest_port) (\<lambda>b. b\<lparr>message_q := Some q\<rparr>) k;
               if \<not> ok then Some (-1, k)
               else do { assert (0 \<le> bytes); k \<leftarrow> wake_receiver k proc dest_port tr; Some (0, k) }
             })
      })"

text \<open>Copying a message out: its size cut to the buffer's, and the buffer afterwards.\<close>

definition deliver :: "message \<Rightarrow> int \<Rightarrow> buffer \<Rightarrow> (int \<times> buffer) option" where
  "deliver m bytes location = do {
     let size = (if bytes < msg_bytes m then bytes else msg_bytes m);
     assert (0 \<le> size);
     Some (size, memcpy location (msg_data m) (nat size))
   }"

text \<open>The search through all ports goes on past an empty one.\<close>

function recv_scan :: "kstate \<Rightarrow> addr \<Rightarrow> addr \<Rightarrow> nat \<Rightarrow> (message option \<times> kstate) option" where
  "recv_scan k proc tr i =
     (if i < MAX_PORTS \<and> t_ports (threads k tr) i \<noteq> -1 then
        let port = t_ports (threads k tr) i in
        if port_flags k proc port IPC_MASKED \<noteq> 0 then recv_scan k proc tr (Suc i)
        else do {
          (m, k) \<leftarrow> message_next k proc (nat port);
          (case m of None \<Rightarrow> recv_scan k proc tr (Suc i) | Some m \<Rightarrow> Some (Some m, k))
        }
      else Some (None, k))"
  by pat_completeness auto
termination
  by (relation "measure (\<lambda>(k, proc, tr, i). MAX_PORTS - i)") auto

declare recv_scan.simps [simp del]

definition recv_message ::
    "kstate \<Rightarrow> addr \<Rightarrow> int \<Rightarrow> int \<Rightarrow> buffer \<Rightarrow> (int \<times> message option \<times> buffer \<times> kstate) option" where
  "recv_message k tr dest_port bytes location = do {
     proc \<leftarrow> t_process (threads k tr);
     let port = (if port_range dest_port then dest_port else t_last_port_message (threads k tr));
     let k = upd_thread tr (\<lambda>t. t\<lparr>t_last_port_message := -1\<rparr>) k;
     (m, k) \<leftarrow> (if port_range port
                then if port_flags k proc port IPC_MASKED \<noteq> 0 then Some (None, k)
                     else message_next k proc (nat port)
                else recv_scan k proc tr 0);
     (case m of
        None \<Rightarrow> Some (-1, None, location, k)
      | Some m \<Rightarrow> do { (size, location) \<leftarrow> deliver m bytes location; Some (size, Some m, location, k) })
   }"

function peek_scan :: "kstate \<Rightarrow> addr \<Rightarrow> addr \<Rightarrow> nat \<Rightarrow> nat \<Rightarrow> ((int \<times> message) option \<times> kstate) option" where
  "peek_scan k proc tr upper i =
     (if i < upper \<and> t_ports (threads k tr) i \<noteq> -1 then
        let port = t_ports (threads k tr) i in
        if port_flags k proc port IPC_MASKED \<noteq> 0 then peek_scan k proc tr upper (Suc i)
        else do {
          (m, k) \<leftarrow> message_get k proc (nat port);
          (case m of None \<Rightarrow> peek_scan k proc tr upper (Suc i) | Some m \<Rightarrow> Some (Some (port, m), k))
        }
      else Some (None, k))"
  by pat_completeness auto
termination
  by (relation "measure (\<lambda>(k, proc, tr, upper, i). upper - i)") auto

declare peek_scan.simps [simp del]

definition peek_message :: "kstate \<Rightarrow> addr \<Rightarrow> int \<Rightarrow> (int \<times> message option \<times> kstate) option" where
  "peek_message k tr dest_port = do {
     proc \<leftarrow> t_process (threads k tr);
     (case look_range (threads k tr) dest_port of
        None \<Rightarrow> Some (-1, None, k)
      | Some (bottom, upper) \<Rightarrow> do {
          let k = upd_thread tr (\<lambda>t. t\<lparr>t_last_port_message := -1\<rparr>) k;
          (r, k) \<leftarrow> peek_scan k proc tr upper bottom;
          Some (case r of None \<Rightarrow> (-1, None, k)
                | Some (port, m) \<Rightarrow> (0, Some m, upd_thread tr (\<lambda>t. t\<lparr>t_last_port_message := port\<rparr>) k))
        })
   }"

function messages_waiting_loop :: "kstate \<Rightarrow> addr \<Rightarrow> addr \<Rightarrow> nat \<Rightarrow> u32 \<Rightarrow> (u32 \<times> kstate) option" where
  "messages_waiting_loop k proc tr i cnt =
     (if i < MAX_PORTS \<and> t_ports (threads k tr) i \<noteq> -1 then
        let port = t_ports (threads k tr) i in
        if port_flags k proc port IPC_MASKED \<noteq> 0 then messages_waiting_loop k proc tr (Suc i) cnt
        else do {
          q \<leftarrow> message_q (ipc k proc (nat port));
          q \<leftarrow> aqueue_lock q;
          messages_waiting_loop (upd_ipc proc (nat port) (\<lambda>b. b\<lparr>message_q := Some (aqueue_unlock q)\<rparr>) k)
            proc tr (Suc i) (cnt + aqueue_size q)
        }
      else Some (cnt, k))"
  by pat_completeness auto
termination
  by (relation "measure (\<lambda>(k, proc, tr, i, cnt). MAX_PORTS - i)") auto

declare messages_waiting_loop.simps [simp del]

definition messages_waiting :: "kstate \<Rightarrow> addr \<Rightarrow> (int \<times> kstate) option" where
  "messages_waiting k tr = do {
     proc \<leftarrow> t_process (threads k tr);
     (cnt, k) \<leftarrow> messages_waiting_loop k proc tr 0 0;
     Some (sint cnt, k)
   }"

definition drop_message :: "kstate \<Rightarrow> addr \<Rightarrow> (int \<times> kstate) option" where
  "drop_message k tr = do {
     proc \<leftarrow> t_process (threads k tr);
     let port = t_last_port_message (threads k tr);
     let k = upd_thread tr (\<lambda>t. t\<lparr>t_last_port_message := -1\<rparr>) k;
     if port_range port then
       if port_flags k proc port IPC_MASKED \<noteq> 0 then Some (-1, k)
       else do { (m, k) \<leftarrow> message_next k proc (nat port); Some (if m = None then -1 else 0, k) }
     else do {
       let i = first_unmasked k proc tr MAX_PORTS 0;
       if i = MAX_PORTS \<or> t_ports (threads k tr) i = -1 then Some (-1, k)
       else do {
         (m, k) \<leftarrow> message_next k proc (nat (t_ports (threads k tr) i));
         Some (if m = None then -1 else 0, k)
       }
     }
   }"

subsection \<open>The messages waiting at a port\<close>

definition messages :: "kstate \<Rightarrow> addr \<Rightarrow> nat \<Rightarrow> message list" where
  "messages k proc port = (case message_q (ipc k proc port) of None \<Rightarrow> [] | Some q \<Rightarrow> aq_contents q)"

definition message_room :: "nat \<Rightarrow> kstate \<Rightarrow> addr \<Rightarrow> nat \<Rightarrow> bool" where
  "message_room n k proc port \<longleftrightarrow> (case message_q (ipc k proc port) of None \<Rightarrow> False | Some q \<Rightarrow> aq_room n q)"

definition message_frame :: "addr \<Rightarrow> nat \<Rightarrow> kstate \<Rightarrow> kstate \<Rightarrow> bool" where
  "message_frame proc port k k' \<longleftrightarrow>
     (\<exists>q. aq_ready q \<and> k' = upd_ipc proc port (\<lambda>b. b\<lparr>message_q := Some q\<rparr>) k)"

lemma block_message_q:
  assumes "block_ok b" obtains q where "message_q b = Some q" "aq_ready q"
  using assms by (auto simp: block_ok_def)

lemma block_ok_message_q [simp]: "block_ok b \<Longrightarrow> aq_ready q \<Longrightarrow> block_ok (b\<lparr>message_q := Some q\<rparr>)"
  by (auto simp: block_ok_def)

lemma message_frameI: "aq_ready q \<Longrightarrow> message_frame proc port k (upd_ipc proc port (\<lambda>b. b\<lparr>message_q := Some q\<rparr>) k)"
  unfolding message_frame_def by blast

lemma message_frame_simps:
  assumes "message_frame proc port k k'"
  shows "threads k' = threads k" "cpu k' = cpu k" "same_table proc k k'"
    "ipc_tid (ipc k' proc p) = ipc_tid (ipc k proc p)" "ipc_flags (ipc k' proc p) = ipc_flags (ipc k proc p)"
    "pulse_q (ipc k' proc p) = pulse_q (ipc k proc p)"
    "p \<noteq> port \<Longrightarrow> ipc k' proc p = ipc k proc p"
    "block_ok (ipc k proc p) \<Longrightarrow> block_ok (ipc k' proc p)"
    "port_flags k' proc x f = port_flags k proc x f"
  using assms by (auto simp: message_frame_def same_table_def port_flags_def split: if_splits)

lemma message_frame_inv: "message_frame proc port k k' \<Longrightarrow> port_inv k proc \<Longrightarrow> port_inv k' proc"
  by (rule port_inv_keep) (auto simp: message_frame_simps)

lemma message_frame_awake: "port_awake proc tr port k \<Longrightarrow> message_frame proc p k k' \<Longrightarrow> port_awake proc tr port k'"
  by (rule port_awake_keep [of proc tr port k]) (auto simp: message_frame_simps message_frame_inv port_awake_def)

lemma message_next_ok:
  assumes "block_ok (ipc k proc port)"
  shows "\<exists>k'. message_next k proc port = Some (case messages k proc port of [] \<Rightarrow> None | x # _ \<Rightarrow> Some x, k') \<and>
    message_frame proc port k k' \<and> messages k' proc port = tl (messages k proc port) \<and>
    (message_room n k proc port \<longrightarrow> message_room n k' proc port)"
proof -
  obtain q where q: "message_q (ipc k proc port) = Some q" "aq_ready q" using assms by (rule block_message_q)
  show ?thesis
  proof (cases "aq_contents q")
    case Nil
    then show ?thesis using aq_pop_empty [OF q(2) Nil, of n] q
      by (auto simp: message_room_def message_next_def messages_def message_frame_def)
  next
    case (Cons x xs)
    then show ?thesis using aq_pop_ok [OF q(2) Cons, of n] q
      by (auto simp: message_room_def message_next_def messages_def message_frame_def)
  qed
qed

lemma message_frame_messages:
  "message_frame proc port k k' \<Longrightarrow> p \<noteq> port \<Longrightarrow> messages k' proc p = messages k proc p"
  by (simp add: messages_def message_frame_simps(7))

lemma send_message_ok:
  assumes "port_awake proc tr port k" "message_room (Suc n) k proc (nat port)" "0 \<le> bytes"
  shows "\<exists>k'. send_message True True junk k spid sport proc port bytes loc = Some (0, k') \<and>
    message_frame proc (nat port) k k' \<and> port_awake proc tr port k' \<and> message_room n k' proc (nat port) \<and>
    messages k' proc (nat port) = messages k proc (nat port) @
      [\<lparr>msg_source_pid = spid, msg_source_port = sport, msg_dest_port = port,
        msg_bytes = bytes, msg_data = memcpy junk loc (nat bytes)\<rparr>]"
proof -
  note a = port_awakeD [OF assms(1)]
  obtain q where q: "message_q (ipc k proc (nat port)) = Some q" "aq_ready q" using a(4) by (rule block_message_q)
  let ?m = "\<lparr>msg_source_pid = spid, msg_source_port = sport, msg_dest_port = port,
        msg_bytes = bytes, msg_data = memcpy junk loc (nat bytes)\<rparr>"
  obtain q' where q': "aq_put True ?m q = Some (True, q')" "aq_ready q'" "aq_contents q' = aq_contents q @ [?m]" "aq_room n q'"
    using aq_put_ok [OF q(2), of n ?m] assms(2) q(1) by (auto simp: message_room_def)
  define k' where "k' = upd_ipc proc (nat port) (\<lambda>b. b\<lparr>message_q := Some q'\<rparr>) k"
  have f: "message_frame proc (nat port) k k'" unfolding k'_def using q'(2) by (rule message_frameI)
  have "send_message True True junk k spid sport proc port bytes loc = Some (0, k')"
    using a q(1) q'(1) assms(3) message_frame_simps [OF f]
    by (simp add: send_message_def wake_receiver_def Let_def k'_def [symmetric])
  moreover have "message_room n k' proc (nat port)" "messages k' proc (nat port) = messages k proc (nat port) @ [?m]"
    using q(1) q'(3,4) by (simp_all add: k'_def message_room_def messages_def)
  ultimately show ?thesis using f message_frame_awake [OF assms(1) f] by blast
qed

lemma clear_message_hint_awake:
  "port_awake proc tr port k \<Longrightarrow> port_awake proc tr port (upd_thread tr (\<lambda>t. t\<lparr>t_last_port_message := h\<rparr>) k)"
proof -
  assume a: "port_awake proc tr port k"
  have "port_inv (upd_thread tr (\<lambda>t. t\<lparr>t_last_port_message := h\<rparr>) k) proc"
    by (rule port_inv_keep [OF port_awakeD(1) [OF a]]) (auto simp: same_table_def)
  with a show ?thesis by (rule port_awake_keep) (auto simp: same_table_def)
qed

lemma recv_message_ok:
  assumes "port_awake proc tr port k"
  shows "\<exists>k'. recv_message k tr port bytes loc = (case messages k proc (nat port) of
        [] \<Rightarrow> Some (-1, None, loc, k')
      | m # _ \<Rightarrow> do { (size, loc) \<leftarrow> deliver m bytes loc; Some (size, Some m, loc, k') }) \<and>
    message_frame proc (nat port) (upd_thread tr (\<lambda>t. t\<lparr>t_last_port_message := -1\<rparr>) k) k' \<and>
    port_awake proc tr port k' \<and> messages k' proc (nat port) = tl (messages k proc (nat port)) \<and>
    (message_room n k proc (nat port) \<longrightarrow> message_room n k' proc (nat port))"
proof -
  let ?k = "upd_thread tr (\<lambda>t. t\<lparr>t_last_port_message := -1\<rparr>) k"
  have aw: "port_awake proc tr port ?k" by (rule clear_message_hint_awake [OF assms])
  note a = port_awakeD [OF aw] and a0 = port_awakeD [OF assms]
  have eq: "messages ?k proc p = messages k proc p" "message_room n ?k proc p = message_room n k proc p" for p
    by (simp_all add: messages_def message_room_def)
  obtain k' where k': "message_next ?k proc (nat port) = Some (case messages k proc (nat port) of [] \<Rightarrow> None | x # _ \<Rightarrow> Some x, k')"
    "message_frame proc (nat port) ?k k'" "messages k' proc (nat port) = tl (messages k proc (nat port))"
    "message_room n k proc (nat port) \<longrightarrow> message_room n k' proc (nat port)"
    using message_next_ok [OF a(4), of n] by (auto simp: eq)
  then show ?thesis
    using a(3,6) a0(5) message_frame_awake [OF aw k'(2)]
    by (auto simp: recv_message_def Let_def split: list.splits)
qed

subsection \<open>First in, first out, through both copies\<close>

text \<open>
  A message as its bytes: sending copies them from the sender's buffer, receiving copies them
  to a receiver's buffer that is large enough.
\<close>

type_synonym message_body = "int \<times> int \<times> byte list"

definition message_body :: "message \<Rightarrow> message_body" where
  "message_body m = (msg_source_pid m, msg_source_port m, arr_list (msg_data m) (nat (msg_bytes m)))"

definition buffer_of :: "byte list \<Rightarrow> buffer" where
  "buffer_of bs = (\<lambda>i. if i < length bs then bs ! i else 0)"

definition message_send_to :: "buffer \<Rightarrow> addr \<Rightarrow> int \<Rightarrow> message_body \<Rightarrow> kstate \<Rightarrow> kstate option" where
  "message_send_to junk proc port x k =
     map_option snd (send_message True True junk k (fst x) (fst (snd x)) proc port
       (int (length (snd (snd x)))) (buffer_of (snd (snd x))))"

definition message_receive_at ::
    "buffer \<Rightarrow> addr \<Rightarrow> addr \<Rightarrow> int \<Rightarrow> kstate \<Rightarrow> (message_body option \<times> kstate) option" where
  "message_receive_at loc proc tr port k =
     (let enough = (case messages k proc (nat port) of [] \<Rightarrow> 0 | m # _ \<Rightarrow> msg_bytes m) in
      map_option (\<lambda>(size, m, loc', k'). (map_option (\<lambda>m. (msg_source_pid m, msg_source_port m, arr_list loc' (nat size))) m, k'))
        (recv_message k tr port enough loc))"

definition message_bodies :: "addr \<Rightarrow> int \<Rightarrow> kstate \<Rightarrow> message_body list" where
  "message_bodies proc port k = map message_body (messages k proc (nat port))"

definition message_awake :: "addr \<Rightarrow> addr \<Rightarrow> int \<Rightarrow> kstate \<Rightarrow> bool" where
  "message_awake proc tr port k \<longleftrightarrow> port_awake proc tr port k \<and> (\<forall>m\<in>set (messages k proc (nat port)). 0 \<le> msg_bytes m)"

lemma deliver_all:
  "0 \<le> msg_bytes m \<Longrightarrow> \<exists>loc'. deliver m (msg_bytes m) loc = Some (msg_bytes m, loc') \<and>
     arr_list loc' (nat (msg_bytes m)) = arr_list (msg_data m) (nat (msg_bytes m))"
  by (auto simp: deliver_def Let_def memcpy_at intro!: arr_list_cong)

lemma arr_list_buffer_of: "arr_list (buffer_of bs) (length bs) = bs"
  by (rule nth_equalityI) (auto simp: buffer_of_def)

interpretation ms: fifo "message_send_to junk proc port" "message_receive_at loc proc tr port" "message_bodies proc port"
  "message_awake proc tr port" "\<lambda>n k. message_room n k proc (nat port)"
  for junk loc proc tr port
proof (unfold_locales, goal_cases)
  case (1 k n x)
  then show ?case
    using send_message_ok [of proc tr port k n "int (length (snd (snd x)))" junk "fst x" "fst (snd x)" "buffer_of (snd (snd x))"]
    by (auto simp: message_send_to_def message_bodies_def message_body_def message_awake_def arr_list_buffer_of)
next
  case (2 k x xs n)
  then obtain m ms where m: "messages k proc (nat port) = m # ms" "x = message_body m" "xs = map message_body ms"
    by (auto simp: message_bodies_def)
  then obtain loc' where "deliver m (msg_bytes m) loc = Some (msg_bytes m, loc')"
    "arr_list loc' (nat (msg_bytes m)) = arr_list (msg_data m) (nat (msg_bytes m))"
    using 2(1) deliver_all [of m loc] by (auto simp: message_awake_def)
  moreover obtain k' where "recv_message k tr port (msg_bytes m) loc =
      do { (size, loc) \<leftarrow> deliver m (msg_bytes m) loc; Some (size, Some m, loc, k') }"
    "port_awake proc tr port k'" "messages k' proc (nat port) = ms"
    "message_room n k proc (nat port) \<longrightarrow> message_room n k' proc (nat port)"
    using recv_message_ok [of proc tr port k "msg_bytes m" loc n] 2(1) m(1) by (auto simp: message_awake_def)
  ultimately show ?case
    using 2(1) m by (auto simp: message_receive_at_def message_bodies_def message_body_def message_awake_def Let_def)
next
  case (3 k n)
  then have e: "messages k proc (nat port) = []" by (simp add: message_bodies_def)
  then show ?case using recv_message_ok [of proc tr port k 0 loc n] 3(1)
    by (auto simp: message_receive_at_def message_bodies_def message_awake_def Let_def)
qed

subsection \<open>Searching all ports\<close>

text \<open>The first unmasked port of a list at which a message waits.\<close>

fun first_message :: "kstate \<Rightarrow> addr \<Rightarrow> int list \<Rightarrow> message option" where
  "first_message k proc [] = None"
| "first_message k proc (p # ps) =
     (if port_flags k proc p IPC_MASKED = 0 \<and> messages k proc (nat p) \<noteq> [] then Some (hd (messages k proc (nat p)))
      else first_message k proc ps)"

lemma first_message_cong:
  assumes "\<And>p. p \<in> set ps \<Longrightarrow> port_flags k' proc p IPC_MASKED = port_flags k proc p IPC_MASKED \<and>
    messages k' proc (nat p) = messages k proc (nat p)"
  shows "first_message k' proc ps = first_message k proc ps"
  using assms by (induction ps) auto

lemma recv_scan_ok:
  assumes "port_inv k proc" "tr \<in> set (thread_addrs k proc)" "i \<le> port_count (threads k tr)"
  shows "\<exists>k'. recv_scan k proc tr i = Some (first_message k proc (drop i (port_list (threads k tr))), k') \<and>
    port_inv k' proc \<and> threads k' = threads k"
  using assms
proof (induction k proc tr i rule: recv_scan.induct)
  case (1 k proc tr i)
  let ?t = "threads k tr"
  show ?case
  proof (cases "i < port_count ?t")
    case True
    let ?p = "t_ports ?t i"
    have c: "i < MAX_PORTS \<and> ?p \<noteq> -1" using True port_count_le [of ?t] port_list_in [OF True] by auto
    have d: "drop i (port_list ?t) = ?p # drop (Suc i) (port_list ?t)"
      using True Cons_nth_drop_Suc [of i "port_list ?t"] by (simp add: port_list_def)
    show ?thesis
    proof (cases "port_flags k proc ?p IPC_MASKED = 0")
      case False
      then show ?thesis using 1(1) [OF c refl False 1(3,4)] True c
        by (subst recv_scan.simps) (simp add: d)
    next
      case unm: True
      have blk: "block_ok (ipc k proc (nat ?p))" by (rule port_inv_used [OF 1(3,4) port_list_nth [OF True]])
      obtain k1 where k1: "message_next k proc (nat ?p) =
          Some (case messages k proc (nat ?p) of [] \<Rightarrow> None | x # _ \<Rightarrow> Some x, k1)"
        and f: "message_frame proc (nat ?p) k k1" and m1: "messages k1 proc (nat ?p) = tl (messages k proc (nat ?p))"
        using message_next_ok [OF blk, of 0] by blast
      have i1: "port_inv k1 proc" by (rule message_frame_inv [OF f 1(3)])
      show ?thesis
      proof (cases "messages k proc (nat ?p)")
        case (Cons x xs)
        then show ?thesis using k1 c unm i1 message_frame_simps(1) [OF f]
          by (subst recv_scan.simps) (simp add: d)
      next
        case Nil
        have tr1: "tr \<in> set (thread_addrs k1 proc)" "Suc i \<le> port_count (threads k1 tr)"
          using 1(4) True same_table_ok(2) [OF message_frame_simps(3) [OF f]]
          by (simp_all add: message_frame_simps [OF f])
        have nm: "\<not> port_flags k proc ?p IPC_MASKED \<noteq> 0" using unm by simp
        have n1: "message_next k proc (nat ?p) = Some (None, k1)" using k1 Nil by simp
        have m: "messages k1 proc p = messages k proc p" for p
          using Nil m1 message_frame_messages [OF f, of p] by (cases "p = nat ?p") auto
        have "first_message k1 proc ps = first_message k proc ps" for ps
          by (rule first_message_cong) (simp add: m message_frame_simps [OF f])
        moreover have "recv_scan k proc tr i = recv_scan k1 proc tr (Suc i)"
          using c unm n1 by (subst recv_scan.simps) simp
        ultimately show ?thesis
          using 1(2) [OF c refl nm n1 refl refl i1 tr1] Nil by (simp add: d message_frame_simps [OF f])
      qed
    qed
  next
    case False
    then have i: "i = port_count ?t" using 1(5) by simp
    then have "\<not> (i < MAX_PORTS \<and> t_ports ?t i \<noteq> -1)" using port_list_end [of ?t] by auto
    then have "recv_scan k proc tr i = Some (None, k)" by (subst recv_scan.simps) (simp only: if_False)
    then show ?thesis using 1(3) by (simp add: i port_list_def)
  qed
qed

subsection \<open>Properties\<close>

text \<open>
  C6. Delivery of messages. The bytes sent to a listening port of a thread that is awake are
  received from it completely and in order, after those that were waiting, by a receiver
  with a large enough buffer: neither of the two copies changes or mixes them.
\<close>

theorem message_delivery:
  assumes "message_awake proc tr port k" "message_room (length xs) k proc (nat port)"
  shows "\<exists>k' k''. put_all (message_send_to junk proc port) xs k = Some k' \<and>
    pop_all (message_receive_at loc proc tr port) (length (message_bodies proc port k) + length xs) k' =
      Some (map Some (message_bodies proc port k @ xs), k'') \<and>
    message_awake proc tr port k'' \<and> message_bodies proc port k'' = []"
  using ms.fifo_order [OF assms] .

lemma k_awake_messages: "messages k_awake 0 5 = []" "message_room 3 k_awake 0 5" "message_awake 0 10 5 k_awake"
  using k_awake_ok(1)
  by (simp_all add: message_awake_def messages_def message_room_def k_awake_def k_port_eq aqueue_init_room MESSAGE_OBJECTS_def)

theorem message_delivery_witness:
  "\<exists>k' k''. put_all (message_send_to (\<lambda>_. 7) 0 5) [(1, 2, [3, 4, 5, 6, 7]), (4, 5, [])] k_awake = Some k' \<and>
    pop_all (message_receive_at (\<lambda>_. 0) 0 10 5) 2 k' = Some ([Some (1, 2, [3, 4, 5, 6, 7]), Some (4, 5, [])], k'')"
proof -
  have "message_room (length [(1, 2, [3, 4, 5, 6, 7]), (4, 5, [])]) k_awake 0 (nat 5)"
    using k_awake_messages(2) by (auto simp: message_room_def aq_room_def split: option.splits)
  from message_delivery [OF k_awake_messages(3) this, of "\<lambda>_. 7" "\<lambda>_. 0"] k_awake_messages(1) show ?thesis
    by (auto simp: message_bodies_def numeral_2_eq_2)
qed

text \<open>
  Receiving from any port. With no port named and no hint, \<open>recv_message\<close> takes the oldest
  message of the first unmasked port of the thread at which one waits, and returns -1 with
  the buffer untouched only when none waits at any unmasked port. Of a message longer than
  the buffer the first \<open>bytes\<close> bytes are stored and the rest is lost; no byte of the buffer
  beyond the returned size changes.
\<close>

theorem recv_message_any_port:
  assumes "port_inv k proc" "tr \<in> set (thread_addrs k proc)" "\<not> port_range dest"
    "\<not> port_range (t_last_port_message (threads k tr))" "0 \<le> bytes"
    and "\<forall>p. \<forall>m\<in>set (messages k proc p). 0 \<le> msg_bytes m"
  shows "case first_message k proc (port_list (threads k tr)) of
      None \<Rightarrow> \<exists>k'. recv_message k tr dest bytes loc = Some (-1, None, loc, k') \<and> port_inv k' proc
    | Some m \<Rightarrow> \<exists>loc' k'. recv_message k tr dest bytes loc = Some (min bytes (msg_bytes m), Some m, loc', k') \<and>
        port_inv k' proc \<and>
        (\<forall>i. loc' i = (if int i < min bytes (msg_bytes m) then msg_data m i else loc i))"
proof -
  let ?k = "upd_thread tr (\<lambda>t. t\<lparr>t_last_port_message := -1\<rparr>) k"
  have i: "port_inv ?k proc" by (rule port_inv_keep [OF assms(1)]) (auto simp: same_table_def)
  have t: "tr \<in> set (thread_addrs ?k proc)" using assms(2) by (simp add: thread_addrs_def)
  have l: "port_list (t\<lparr>t_last_port_message := h\<rparr>) = port_list t" for t h by (simp add: port_list_def port_count_def)
  have "first_message ?k proc ps = first_message k proc ps" for ps
    by (rule first_message_cong) (simp add: messages_def)
  with recv_scan_ok [OF i t, of 0] obtain k' where
    k': "recv_scan ?k proc tr 0 = Some (first_message k proc (port_list (threads k tr)), k')" "port_inv k' proc"
    by (auto simp: l)
  have pos: "0 \<le> msg_bytes m" if "first_message k proc ps = Some m" for m ps
    using that assms(6) hd_in_set by (induction ps) (fastforce split: if_splits)+
  show ?thesis
    using k' pos [of "port_list (threads k tr)"] assms(3-5) port_inv_process [OF assms(1,2)]
    by (auto simp: recv_message_def Let_def deliver_def memcpy_at min_def nat_less_iff split: option.splits)
qed

definition message_nine :: message where
  "message_nine = \<lparr>msg_source_pid = 1, msg_source_port = 1, msg_dest_port = 6, msg_bytes = 2, msg_data = (\<lambda>_. 9)\<rparr>"

definition k_mail :: kstate where
  "k_mail = upd_ipc 0 6 (\<lambda>b. b\<lparr>message_q := Some (the (aq_append message_nine
      (aqueue_init SIZEOF_MESSAGE MESSAGE_OBJECTS)))\<rparr>) k_hidden"

theorem recv_message_any_port_witness:
  "\<exists>loc' k'. recv_message k_mail 10 (-1) 1 (\<lambda>_. 0) = Some (1, Some message_nine, loc', k') \<and> loc' 0 = 9 \<and> loc' 1 = 0"
proof -
  have rr: "aq_ready (aqueue_init SIZEOF_MESSAGE MESSAGE_OBJECTS)" "aq_room (Suc 0) (aqueue_init SIZEOF_MESSAGE MESSAGE_OBJECTS)"
    by (simp_all add: aqueue_init_ready aqueue_init_room MESSAGE_OBJECTS_def)
  obtain q where q: "aq_append message_nine (aqueue_init SIZEOF_MESSAGE MESSAGE_OBJECTS) = Some q" "aq_ready q" "aq_contents q = [message_nine]"
    using aq.put_ok [OF rr, of message_nine] by auto
  have km: "k_mail = upd_ipc 0 6 (\<lambda>b. b\<lparr>message_q := Some q\<rparr>) k_hidden" by (simp add: k_mail_def q(1))
  have f: "message_frame 0 6 k_hidden k_mail" unfolding km using q(2) by (rule message_frameI)
  have m: "messages k_mail 0 p = (if p = 6 then [message_nine] else [])" for p
    using q(3) by (auto simp: km messages_def k_hidden_eq k_port_eq ipc_blank_def)
  have "first_message k_mail 0 (port_list (threads k_mail 10)) = Some message_nine"
    using k_hidden_ok(3,4,5) by (simp add: m message_frame_simps [OF f])
  moreover have "port_inv k_mail 0" by (rule message_frame_inv [OF f k_hidden_ok(1)])
  moreover have "10 \<in> set (thread_addrs k_mail 0)" "\<not> port_range (t_last_port_message (threads k_mail 10))"
    using k_hidden_ok(2) same_table_ok(2) [OF message_frame_simps(3) [OF f]]
    by (simp_all add: message_frame_simps [OF f] k_hidden_eq k_port_eq add_port_def Let_def thread_blank_def port_range_def)
  ultimately show ?thesis
    using recv_message_any_port [of k_mail 0 10 "-1" 1 "\<lambda>_. 0"]
    by (auto simp: port_range_def m message_nine_def min_def)
qed

text \<open>
  A send that fails changes nothing: a port outside the range or without an owner, and no
  memory for the copy, return -1 with the whole kernel state as it was. (With the tables of
  the process consistent, the owner of a port is always found.)
\<close>

theorem send_message_refused:
  assumes "port_inv k proc" "port2tid k proc port < 0 \<or> \<not> mem_data"
  shows "send_message mem_data mem_page junk k spid sport proc port bytes loc = Some (-1, k)"
proof (cases "port2tid k proc port < 0")
  case False
  then have r: "port_range port" "ipc_tid (ipc k proc (nat port)) \<noteq> -1" by (auto simp: port2tid_def split: if_splits)
  then have "nat port < MAX_PORTS" by (auto simp: port_range_def)
  with r assms(1) obtain a where "a \<in> set (thread_addrs k proc)" "ipc_tid (ipc k proc (nat port)) = t_tid (threads k a)"
    unfolding port_inv_def by (auto 4 4)
  then show ?thesis
    using False assms(2) thread_lookup [OF assms(1)] r(1) by (auto simp: send_message_def port2tid_def Let_def)
qed (simp add: send_message_def Let_def)

theorem send_message_refused_witness:
  "send_message True True (\<lambda>_. 0) k_awake 1 1 0 7 4 (\<lambda>_. 1) = Some (-1, k_awake)"
  by (rule send_message_refused) (use port_awakeD(1) [OF k_awake_ok(1)] in
    \<open>auto simp: port2tid_def k_awake_def k_port_eq ipc_blank_def\<close>)

end
