(* ===== verification/Port_Release.thy ===== *)
theory Port_Release
  imports Messages
begin

section \<open>Releasing ports (kernel/src/ports.c)\<close>

text \<open>
  \<open>release_port\<close> and \<open>release_thread_ports\<close>. The two loops that drop what waits are
  \<open>partial_function\<close>s: not returning would be \<open>None\<close>, and they are shown to return.

  Shown: a release returns, frees the port and takes it out of its thread's list, keeping
  the invariant; releasing all ports of a thread ends with none left and the right count;
  and what the loops really drop: the pulses of the thread's first port, not of the port
  released, since they set the message hint where the pulse hint is read.
\<close>

partial_function (option) drain_pulses :: "kstate \<Rightarrow> addr \<Rightarrow> int \<Rightarrow> kstate option" where
  "drain_pulses k target port = do {
     let k = upd_thread target (\<lambda>t. t\<lparr>t_last_port_message := port\<rparr>) k;
     (r, k) \<leftarrow> drop_pulse k target;
     if r \<ge> 0 then drain_pulses k target port else Some k
   }"

partial_function (option) drain_messages :: "kstate \<Rightarrow> addr \<Rightarrow> int \<Rightarrow> kstate option" where
  "drain_messages k target port = do {
     let k = upd_thread target (\<lambda>t. t\<lparr>t_last_port_message := port\<rparr>) k;
     (r, k) \<leftarrow> drop_message k target;
     if r \<ge> 0 then drain_messages k target port else Some k
   }"

text \<open>The loop that takes the port out of the array; \<open>found\<close> is 0 or 1.\<close>

function remove_port_loop :: "int \<Rightarrow> nat \<Rightarrow> nat \<Rightarrow> (nat \<Rightarrow> int) \<Rightarrow> (nat \<Rightarrow> int)" where
  "remove_port_loop port i found ports =
     (if i < MAX_PORTS \<and> ports i \<noteq> -1 then
        let (ports, found) = (if ports i = port then (ports(i := -1), 1) else (ports, found));
            ports = (if found = 1 \<and> i = MAX_PORTS - 1 then ports(i := -1) else ports(i := ports (i + found)))
        in remove_port_loop port (Suc i) found ports
      else ports)"
  by pat_completeness auto
termination
  by (relation "measure (\<lambda>(port, i, found, ports). MAX_PORTS - i)") auto

declare remove_port_loop.simps [simp del]

definition remove_port :: "int \<Rightarrow> thread \<Rightarrow> thread" where
  "remove_port port t = t\<lparr>t_ports := remove_port_loop port 0 0 (t_ports t)\<rparr>"

text \<open>The queues are reset, which frees their pages, and freed.\<close>

definition release_port :: "kstate \<Rightarrow> addr \<Rightarrow> int \<Rightarrow> (int \<times> kstate) option" where
  "release_port k tr port = do {
     proc \<leftarrow> t_process (threads k tr);
     if port < 0 then Some (-1, k)
     else if port \<ge> int MAX_PORTS then Some (-1, k)
     else if ipc_tid (ipc k proc (nat port)) = -1 then Some (-1, k)
     else do {
       let tid = ipc_tid (ipc k proc (nat port));
       target \<leftarrow> (if t_tid (threads k tr) = tid then Some (Some tr) else get_thread k proc tid);
       k \<leftarrow> (case target of None \<Rightarrow> Some k
             | Some t \<Rightarrow> do { k \<leftarrow> drain_pulses k t port; drain_messages k t port });
       pq \<leftarrow> map_option aqueue_reset (pulse_q (ipc k proc (nat port)));
       mq \<leftarrow> map_option aqueue_reset (message_q (ipc k proc (nat port)));
       let k = upd_ipc proc (nat port)
                 (\<lambda>b. b\<lparr>ipc_tid := -1, ipc_flags := 0, pulse_q := None, message_q := None\<rparr>) k;
       Some (0, case target of None \<Rightarrow> k | Some t \<Rightarrow> upd_thread t (remove_port port) k)
     }
   }"

partial_function (option) release_ports_loop :: "kstate \<Rightarrow> addr \<Rightarrow> int \<Rightarrow> (int \<times> kstate) option" where
  "release_ports_loop k tr cnt =
     (if t_ports (threads k tr) 0 \<noteq> -1
      then do { (_, k) \<leftarrow> release_port k tr (t_ports (threads k tr) 0); release_ports_loop k tr (cnt + 1) }
      else Some (cnt, k))"

definition release_thread_ports :: "kstate \<Rightarrow> addr \<Rightarrow> (int \<times> kstate) option" where
  "release_thread_ports k tr = release_ports_loop k tr 0"

subsection \<open>Taking a port out of the array\<close>

lemma remove_port_shift:
  assumes "\<And>m. i \<le> m \<Longrightarrow> m < n \<Longrightarrow> a m \<noteq> -1 \<and> a m \<noteq> port" "n \<le> MAX_PORTS" "n < MAX_PORTS \<Longrightarrow> a n = -1" "i \<le> n"
  shows "remove_port_loop port i 1 a =
    (\<lambda>m. if i \<le> m \<and> m < n then (if m = MAX_PORTS - 1 then -1 else a (Suc m)) else a m)"
  using assms
proof (induction "n - i" arbitrary: i a)
  case 0
  then have "i = n" by simp
  then show ?case using 0 by (subst remove_port_loop.simps) auto
next
  case (Suc d)
  then have i: "i < n" "a i \<noteq> -1" "a i \<noteq> port" "i < MAX_PORTS" by auto
  define b where "b = (if i = MAX_PORTS - 1 then a(i := -1) else a(i := a (Suc i)))"
  have "remove_port_loop port i 1 a = remove_port_loop port (Suc i) 1 b"
    using i by (subst remove_port_loop.simps) (simp add: b_def)
  also have "\<dots> = (\<lambda>m. if Suc i \<le> m \<and> m < n then (if m = MAX_PORTS - 1 then -1 else b (Suc m)) else b m)"
    by (rule Suc(1)) (use Suc(2-) i in \<open>auto simp: b_def\<close>)
  also have "\<dots> = (\<lambda>m. if i \<le> m \<and> m < n then (if m = MAX_PORTS - 1 then -1 else a (Suc m)) else a m)"
    using i by (auto simp: b_def fun_eq_iff)
  finally show ?case .
qed

lemma remove_port_at:
  assumes "j < n" "a j = port" "port \<noteq> -1" "\<And>m. m < n \<Longrightarrow> a m \<noteq> -1" "\<And>m. m < n \<Longrightarrow> m \<noteq> j \<Longrightarrow> a m \<noteq> port"
    "n \<le> MAX_PORTS" "n < MAX_PORTS \<Longrightarrow> a n = -1" "i \<le> j"
  shows "remove_port_loop port i 0 a =
    (\<lambda>m. if j \<le> m \<and> m < n then (if m = MAX_PORTS - 1 then -1 else a (Suc m)) else a m)"
  using assms(8)
proof (induction "j - i" arbitrary: i)
  case 0
  then have i: "i = j" by simp
  define b where "b = (if j = MAX_PORTS - 1 then a(j := -1) else a(j := a (Suc j)))"
  have "remove_port_loop port i 0 a = remove_port_loop port (Suc j) 1 b"
    using assms i by (subst remove_port_loop.simps) (simp add: b_def)
  also have "\<dots> = (\<lambda>m. if Suc j \<le> m \<and> m < n then (if m = MAX_PORTS - 1 then -1 else b (Suc m)) else b m)"
    by (rule remove_port_shift) (use assms in \<open>auto simp: b_def\<close>)
  also have "\<dots> = (\<lambda>m. if j \<le> m \<and> m < n then (if m = MAX_PORTS - 1 then -1 else a (Suc m)) else a m)"
    using assms(1) by (auto simp: b_def fun_eq_iff)
  finally show ?case .
next
  case (Suc d)
  then have "a i \<noteq> port" "a i \<noteq> -1" "i < MAX_PORTS" using assms by auto
  then have "remove_port_loop port i 0 a = remove_port_loop port (Suc i) 0 a"
    by (subst remove_port_loop.simps) simp
  then show ?case using Suc by simp
qed

lemma remove_port_ok:
  assumes "ports_array t" "port \<in> set (port_list t)"
  shows "ports_array (remove_port port t)" "port_list (remove_port port t) = remove1 port (port_list t)"
proof -
  let ?n = "port_count t" and ?a = "t_ports t"
  obtain j where j: "j < ?n" "?a j = port" using assms(2) by (auto simp: port_list_def in_arr_list)
  have p: "port \<noteq> -1" using port_list_in [OF j(1)] j(2) by simp
  have d: "distinct (arr_list ?a ?n)" using assms(1) by (simp add: ports_array_def port_list_def)
  have uniq: "?a m \<noteq> port" if "m < ?n" "m \<noteq> j" for m
    using nth_eq_iff_index_eq [OF d, of m j] that j by simp
  have free: "?a i = -1" if "?n \<le> i" "i < MAX_PORTS" for i using assms(1) that by (auto simp: ports_array_def)
  have a: "t_ports (remove_port port t) =
      (\<lambda>m. if j \<le> m \<and> m < ?n then (if m = MAX_PORTS - 1 then -1 else ?a (Suc m)) else ?a m)"
    unfolding remove_port_def using remove_port_at [OF j p _ uniq port_count_le port_list_end] port_list_in [of _ t]
    by simp
  have le: "?n \<le> MAX_PORTS" by (rule port_count_le)
  have c: "port_count (remove_port port t) = ?n - 1" "port_list (remove_port port t) = arr_list (t_ports (remove_port port t)) (?n - 1)"
    by (rule port_listI; use j le port_list_in [of _ t] free in \<open>auto simp: a\<close>)+
  have "arr_list (t_ports (remove_port port t)) (?n - 1) = take j (arr_list ?a ?n) @ drop (Suc j) (arr_list ?a ?n)"
    using j(1) le by (intro nth_equalityI) (auto simp: a nth_append)
  also have "\<dots> = remove1 port (arr_list ?a ?n)"
    by (rule remove1_arr_list) (use j uniq in \<open>auto intro!: arr_find_eqI\<close>)
  finally show l: "port_list (remove_port port t) = remove1 port (port_list t)" by (simp add: c port_list_def)
  show "ports_array (remove_port port t)"
    unfolding ports_array_def l c(1)
    using assms(1) free le j(1) by (auto simp: ports_array_def a dest: notin_set_remove1)
qed

subsection \<open>Dropping what waits\<close>

text \<open>Hints and waiting pulses and messages may have changed, nothing else of the process.\<close>

definition drained :: "addr \<Rightarrow> kstate \<Rightarrow> kstate \<Rightarrow> bool" where
  "drained proc k k' \<longleftrightarrow> port_inv k' proc \<and> same_table proc k k' \<and>
     (\<forall>a. t_ports (threads k' a) = t_ports (threads k a) \<and> t_state (threads k' a) = t_state (threads k a)) \<and>
     (\<forall>p. ipc_tid (ipc k' proc p) = ipc_tid (ipc k proc p) \<and> ipc_flags (ipc k' proc p) = ipc_flags (ipc k proc p))"

lemma drained_trans: "drained proc k k' \<Longrightarrow> drained proc k' k'' \<Longrightarrow> drained proc k k''"
  by (simp add: drained_def same_table_def)

lemma drained_refl: "port_inv k proc \<Longrightarrow> drained proc k k"
  by (simp add: drained_def same_table_def)

lemma drained_hint:
  assumes "port_inv k proc"
  shows "drained proc k (upd_thread t (\<lambda>t. t\<lparr>t_last_port_message := h\<rparr>) k)"
    "drained proc k (upd_thread t (\<lambda>t. t\<lparr>t_last_port_pulse := h\<rparr>) k)"
  by (simp_all add: drained_def same_table_def port_inv_keep [OF assms])

lemma drained_pulse: "port_inv k proc \<Longrightarrow> pulse_frame proc p k k' \<Longrightarrow> drained proc k k'"
  using pulse_frame_inv [of proc p k k'] pulse_frame_simps [of proc p k k'] by (simp add: drained_def)

lemma drained_message: "port_inv k proc \<Longrightarrow> message_frame proc p k k' \<Longrightarrow> drained proc k k'"
  using message_frame_inv [of proc p k k'] message_frame_simps [of proc p k k'] by (simp add: drained_def)

lemma drainedD:
  assumes "drained proc k k'"
  shows "port_inv k' proc" "thread_addrs k' proc = thread_addrs k proc"
    "port_list (threads k' a) = port_list (threads k a)" "t_process (threads k' a) = t_process (threads k a)"
    "t_tid (threads k' a) = t_tid (threads k a)"
    "port_flags k' proc q f = port_flags k proc q f"
  using assms same_table_ok(2) [of proc k k']
  by (auto simp: drained_def port_list_def port_count_def same_table_def port_flags_def)

lemma owned_block:
  assumes "port_inv k proc" "port_range p" "ipc_tid (ipc k proc (nat p)) \<noteq> -1"
  shows "block_ok (ipc k proc (nat p))"
proof -
  have "nat p < MAX_PORTS" using assms(2) by (auto simp: port_range_def)
  with assms show ?thesis by (auto simp: port_inv_def)
qed

lemma unmasked_owned: "port_flags k proc p f = 0 \<Longrightarrow> port_range p \<and> ipc_tid (ipc k proc (nat p)) \<noteq> -1"
  by (auto simp: port_flags_def split: if_splits)

definition pulse_total :: "kstate \<Rightarrow> addr \<Rightarrow> nat" where
  "pulse_total k proc = (\<Sum>p<MAX_PORTS. length (pulses k proc p))"

lemma pulse_frame_total:
  assumes "pulse_frame proc p k k'" "p < MAX_PORTS" "pulses k proc p = x # xs" "pulses k' proc p = xs"
  shows "pulse_total k' proc < pulse_total k proc"
proof -
  have "length (pulses k' proc q) \<le> length (pulses k proc q)" for q
    using assms(3,4) pulse_frame_simps(7) [OF assms(1), of q] by (cases "q = p") (auto simp: pulses_def)
  then show ?thesis
    unfolding pulse_total_def using assms(2-4) by (intro sum_strict_mono_ex1) (auto intro!: bexI [of _ p])
qed

lemma drop_pulse_at:
  assumes "port_inv k proc" "port_range p" "ipc_tid (ipc k proc (nat p)) \<noteq> -1"
  shows "\<exists>r k'. do { (x, k) \<leftarrow> pulse_next k proc (nat p); Some (if x = None then -1 else 0 :: int, k) } = Some (r, k') \<and>
    drained proc k k' \<and> (r \<ge> 0 \<longrightarrow> pulse_total k' proc < pulse_total k proc)"
proof -
  have lt: "nat p < MAX_PORTS" using assms(2) by (auto simp: port_range_def)
  obtain k' where k': "pulse_next k proc (nat p) = Some (case pulses k proc (nat p) of [] \<Rightarrow> None | x # _ \<Rightarrow> Some x, k')"
    and f: "pulse_frame proc (nat p) k k'" "pulses k' proc (nat p) = tl (pulses k proc (nat p))"
    using pulse_next_ok [OF owned_block [OF assms], of 0] by blast
  show ?thesis
    using k' f(2) drained_pulse [OF assms(1) f(1)] pulse_frame_total [OF f(1) lt]
    by (cases "pulses k proc (nat p)") auto
qed

lemma drop_pulse_ok:
  assumes "port_inv k proc" "t \<in> set (thread_addrs k proc)"
  shows "\<exists>r k'. drop_pulse k t = Some (r, k') \<and> drained proc k k' \<and> (r \<ge> 0 \<longrightarrow> pulse_total k' proc < pulse_total k proc)"
proof -
  let ?k = "upd_thread t (\<lambda>t. t\<lparr>t_last_port_pulse := -1\<rparr>) k" and ?h = "t_last_port_pulse (threads k t)"
  let ?p = "t_ports (threads k t) 0"
  have d: "drained proc k ?k" by (rule drained_hint [OF assms(1)])
  note i = drainedD(1) [OF d]
  have tot: "pulse_total ?k proc = pulse_total k proc" by (simp add: pulse_total_def pulses_def)
  have pr: "t_process (threads k t) = Some proc" by (rule port_inv_process [OF assms])
  consider "port_range ?h" "port_flags ?k proc ?h IPC_MASKED \<noteq> 0" | "port_range ?h" "port_flags ?k proc ?h IPC_MASKED = 0"
    | "\<not> port_range ?h" "?p = -1" | "\<not> port_range ?h" "?p \<noteq> -1" by blast
  then show ?thesis
  proof cases
    case 2
    have "ipc_tid (ipc ?k proc (nat ?h)) \<noteq> -1" using unmasked_owned [OF 2(2)] by simp
    from drop_pulse_at [OF i 2(1) this] show ?thesis
      using 2 pr tot by (auto simp: drop_pulse_def Let_def intro: drained_trans [OF d])
  next
    case 4
    have "0 < port_count (threads k t)"
      using 4(2) port_list_end [of "threads k t"] by (cases "port_count (threads k t) = 0") (auto simp: MAX_PORTS_def)
    from port_inv_used [OF assms port_list_nth [OF this]] have u: "port_range ?p" "ipc_tid (ipc ?k proc (nat ?p)) \<noteq> -1" by simp_all
    from drop_pulse_at [OF i u] show ?thesis
      using 4 pr tot u by (auto simp: drop_pulse_def Let_def intro: drained_trans [OF d])
  qed (use pr d in \<open>auto simp: drop_pulse_def Let_def\<close>)
qed

lemma drain_pulses_ok:
  assumes "port_inv k proc" "t \<in> set (thread_addrs k proc)"
  shows "\<exists>k'. drain_pulses k t port = Some k' \<and> drained proc k k'"
  using assms
proof (induction "pulse_total k proc" arbitrary: k rule: less_induct)
  case less
  let ?k = "upd_thread t (\<lambda>t. t\<lparr>t_last_port_message := port\<rparr>) k"
  have d: "drained proc k ?k" by (rule drained_hint [OF less(2)])
  have tot: "pulse_total ?k proc = pulse_total k proc" by (simp add: pulse_total_def pulses_def)
  obtain r k1 where k1: "drop_pulse ?k t = Some (r, k1)" "drained proc ?k k1" "r \<ge> 0 \<longrightarrow> pulse_total k1 proc < pulse_total k proc"
    using drop_pulse_ok [of ?k proc t] drainedD(1,2) [OF d] less(3) tot by auto
  note dk1 = drained_trans [OF d k1(2)]
  show ?case
  proof (cases "r \<ge> 0")
    case True
    then obtain k' where "drain_pulses k1 t port = Some k'" "drained proc k1 k'"
      using less(1) [of k1] k1(3) drainedD(1,2) [OF dk1] less(3) by auto
    then show ?thesis
      using k1(1) True drained_trans [OF dk1] by (subst drain_pulses.simps) (auto simp: Let_def)
  next
    case False
    then show ?thesis using k1(1) dk1 by (subst drain_pulses.simps) (auto simp: Let_def)
  qed
qed

definition message_total :: "kstate \<Rightarrow> addr \<Rightarrow> int \<Rightarrow> nat" where
  "message_total k proc port = length (messages k proc (nat port))"

text \<open>With the hint set, \<open>drop_message\<close> works on that port alone, and only when it is unmasked.\<close>

lemma drop_message_ok:
  assumes "port_inv k proc" "t \<in> set (thread_addrs k proc)" "port_range port" "t_last_port_message (threads k t) = port"
  shows "\<exists>r k'. drop_message k t = Some (r, k') \<and> drained proc k k' \<and> (\<forall>p. pulses k' proc p = pulses k proc p) \<and>
    (if port_flags k proc port IPC_MASKED = 0 \<and> messages k proc (nat port) \<noteq> [] then r = 0 else r = -1) \<and>
    messages k' proc (nat port) = (if port_flags k proc port IPC_MASKED = 0 then tl (messages k proc (nat port))
      else messages k proc (nat port))"
proof -
  let ?k = "upd_thread t (\<lambda>t. t\<lparr>t_last_port_message := -1\<rparr>) k"
  have d: "drained proc k ?k" by (rule drained_hint [OF assms(1)])
  have eq: "messages ?k proc p = messages k proc p" for p by (simp add: messages_def)
  have pr: "t_process (threads k t) = Some proc" by (rule port_inv_process [OF assms(1,2)])
  show ?thesis
  proof (cases "port_flags k proc port IPC_MASKED = 0")
    case True
    have b: "block_ok (ipc ?k proc (nat port))"
      using owned_block [OF assms(1,3)] unmasked_owned [OF True] by simp
    obtain k' where "message_next ?k proc (nat port) = Some (case messages k proc (nat port) of [] \<Rightarrow> None | x # _ \<Rightarrow> Some x, k')"
      and f: "message_frame proc (nat port) ?k k'" and "messages k' proc (nat port) = tl (messages k proc (nat port))"
      using message_next_ok [OF b, of 0] by (auto simp: eq)
    moreover have "pulses k' proc p = pulses k proc p" for p by (simp add: pulses_def message_frame_simps [OF f])
    ultimately show ?thesis
      using True assms(3,4) pr drained_trans [OF d drained_message [OF drainedD(1) [OF d] f]]
      by (auto simp: drop_message_def Let_def split: list.splits)
  qed (use pr d assms(3,4) eq in \<open>auto simp: drop_message_def Let_def pulses_def\<close>)
qed

lemma drain_messages_ok:
  assumes "port_inv k proc" "t \<in> set (thread_addrs k proc)" "port_range port"
  shows "\<exists>k'. drain_messages k t port = Some k' \<and> drained proc k k' \<and> (\<forall>p. pulses k' proc p = pulses k proc p)"
  using assms(1,2)
proof (induction "length (messages k proc (nat port))" arbitrary: k rule: less_induct)
  case less
  let ?k = "upd_thread t (\<lambda>t. t\<lparr>t_last_port_message := port\<rparr>) k"
  have d: "drained proc k ?k" by (rule drained_hint [OF less(2)])
  have eq: "messages ?k proc p = messages k proc p" for p by (simp add: messages_def)
  have eqp: "pulses ?k proc p = pulses k proc p" for p by (simp add: pulses_def)
  obtain r k1 where k1: "drop_message ?k t = Some (r, k1)" "drained proc ?k k1"
    "if port_flags k proc port IPC_MASKED = 0 \<and> messages k proc (nat port) \<noteq> [] then r = 0 else r = -1"
    "messages k1 proc (nat port) = (if port_flags k proc port IPC_MASKED = 0 then tl (messages k proc (nat port))
      else messages k proc (nat port))" "\<forall>p. pulses k1 proc p = pulses k proc p"
    using drop_message_ok [of ?k proc t port] drainedD(1,2) [OF d] less(3) assms(3) by (auto simp: eq eqp)
  note dk1 = drained_trans [OF d k1(2)]
  show ?case
  proof (cases "r \<ge> 0")
    case True
    then have "length (messages k1 proc (nat port)) < length (messages k proc (nat port))"
      using k1(3,4) by (auto split: if_splits simp: neq_Nil_conv)
    then obtain k' where "drain_messages k1 t port = Some k'" "drained proc k1 k'" "\<forall>p. pulses k' proc p = pulses k1 proc p"
      using less(1) [of k1] drainedD(1,2) [OF dk1] less(3) by auto
    then show ?thesis
      using k1(1,5) True drained_trans [OF dk1] by (subst drain_messages.simps) (auto simp: Let_def)
  next
    case False
    then show ?thesis using k1(1,5) dk1 by (subst drain_messages.simps) (auto simp: Let_def)
  qed
qed

text \<open>
  The pulses that are really dropped: without a pulse hint, those of the thread's first port.
\<close>

lemma drain_pulses_first:
  assumes "port_inv k proc" "t \<in> set (thread_addrs k proc)" "port_list (threads k t) = p # ps"
    "\<not> port_range (t_last_port_pulse (threads k t))"
  shows "\<exists>k'. drain_pulses k t port = Some k' \<and> pulses k' proc (nat p) = [] \<and>
    (\<forall>q. q \<noteq> nat p \<longrightarrow> pulses k' proc q = pulses k proc q)"
  using assms
proof (induction "length (pulses k proc (nat p))" arbitrary: k rule: less_induct)
  case less
  let ?k = "upd_thread t (\<lambda>t. t\<lparr>t_last_port_pulse := -1\<rparr>) (upd_thread t (\<lambda>t. t\<lparr>t_last_port_message := port\<rparr>) k)"
  have c: "0 < port_count (threads k t)" using arg_cong [OF less(4), of length] by (simp add: port_list_def)
  have p0: "t_ports (threads k t) 0 = p"
    using less(4) nth_arr_list [OF c, of "t_ports (threads k t)"] by (simp add: port_list_def)
  have d: "drained proc k ?k"
    using drained_hint(2) [OF drainedD(1) [OF drained_hint(1) [OF less(2)]]] drained_hint(1) [OF less(2)]
    by (rule drained_trans [rotated])
  have u: "port_range p" "block_ok (ipc ?k proc (nat p))" "p \<noteq> -1"
    using port_inv_used [OF less(2,3) port_list_nth [OF c]] port_list_in [OF c] p0 by simp_all
  have eq: "pulses ?k proc q = pulses k proc q" for q by (simp add: pulses_def)
  obtain k1 where k1: "pulse_next ?k proc (nat p) = Some (case pulses k proc (nat p) of [] \<Rightarrow> None | x # _ \<Rightarrow> Some x, k1)"
    and f: "pulse_frame proc (nat p) ?k k1" and tl: "pulses k1 proc (nat p) = tl (pulses k proc (nat p))"
    using pulse_next_ok [OF u(2), of 0] by (auto simp: eq)
  have dk1: "drained proc k k1" by (rule drained_trans [OF d drained_pulse [OF drainedD(1) [OF d] f]])
  have oth: "pulses k1 proc q = pulses k proc q" if "q \<noteq> nat p" for q
    using pulse_frame_simps(7) [OF f that] by (simp add: pulses_def)
  have dp: "drop_pulse (upd_thread t (\<lambda>t. t\<lparr>t_last_port_message := port\<rparr>) k) t =
      Some (if pulses k proc (nat p) = [] then -1 else 0, k1)"
    using k1 p0 u(1,3) less(5) port_inv_process [OF less(2,3)]
    by (simp add: drop_pulse_def Let_def split: list.splits)
  show ?case
  proof (cases "pulses k proc (nat p)")
    case Nil
    then show ?thesis using dp tl oth by (subst drain_pulses.simps) (auto simp: Let_def)
  next
    case (Cons x xs)
    have "t_last_port_pulse (threads k1 t) = -1" by (simp add: pulse_frame_simps [OF f])
    then obtain k' where "drain_pulses k1 t port = Some k'" "pulses k' proc (nat p) = []"
      "\<forall>q. q \<noteq> nat p \<longrightarrow> pulses k' proc q = pulses k1 proc q"
      using less(1) [of k1] drainedD(1,2,3) [OF dk1] less(3,4) tl Cons by (auto simp: port_range_def)
    then show ?thesis using dp oth Cons by (subst drain_pulses.simps) (auto simp: Let_def)
  qed
qed

subsection \<open>The release\<close>

lemma freed_port_inv:
  assumes inv: "port_inv k proc" and a: "a \<in> set (thread_addrs k proc)" and p: "port \<in> set (port_list (threads k a))"
  shows "port_inv (upd_thread a (remove_port port) (upd_ipc proc (nat port)
    (\<lambda>b. b\<lparr>ipc_tid := -1, ipc_flags := 0, pulse_q := None, message_q := None\<rparr>) k)) proc" (is "port_inv ?k proc")
proof -
  have st: "same_table proc k ?k" by (auto simp: same_table_def remove_port_def)
  note r = port_inv_used(1) [OF inv a p]
  note rm = remove_port_ok [OF port_inv_array [OF inv a] p]
  have dis: "distinct (port_list (threads k a))" using port_inv_array [OF inv a] by (simp add: ports_array_def)
  have arr: "ports_array (threads ?k c)" if "c \<in> set (thread_addrs k proc)" for c
    using port_inv_array [OF inv that] rm(1) by simp
  have own: "int q \<in> set (port_list (threads ?k c)) \<longleftrightarrow> ipc_tid (ipc ?k proc q) = t_tid (threads ?k c)"
    if c: "c \<in> set (thread_addrs k proc)" and q: "q < MAX_PORTS" for c q
  proof -
    have l: "set (port_list (threads ?k c)) = set (port_list (threads k c)) - (if c = a then {port} else {})"
      using rm(2) dis by (simp add: set_remove1_eq)
    have i: "ipc_tid (ipc ?k proc q) = (if int q = port then -1 else ipc_tid (ipc k proc q))"
      using r by (auto simp: port_range_def)
    have o: "int q \<in> set (port_list (threads k c)) \<longleftrightarrow> ipc_tid (ipc k proc q) = t_tid (threads k c)"
      using port_inv_owner [OF inv c, of "int q"] q by (simp add: port_range_def)
    have "ipc_tid (ipc k proc q) = t_tid (threads k c) \<longrightarrow> c = a" if "int q = port"
      using port_inv_used(2) [OF inv a p] tid_unique [OF inv c a] that by auto
    moreover have "t_tid (threads ?k c) = t_tid (threads k c)" using st by (simp add: same_table_def)
    ultimately show ?thesis
      unfolding l i using o not_sym [OF port_inv_tid [OF inv c]] by (simp split: if_splits)
  qed
  have blk: "ipc_tid (ipc ?k proc q) = -1 \<or> ipc_tid (ipc ?k proc q) \<in> (\<lambda>a. t_tid (threads k a)) ` set (thread_addrs k proc)
      \<and> block_ok (ipc ?k proc q)" if "q < MAX_PORTS" for q
  proof -
    have "ipc_tid (ipc k proc q) = -1 \<or> ipc_tid (ipc k proc q) \<in> (\<lambda>a. t_tid (threads k a)) ` set (thread_addrs k proc)
      \<and> block_ok (ipc k proc q)" using inv that unfolding port_inv_def by blast
    then show ?thesis by (cases "q = nat port") simp_all
  qed
  have im: "(\<lambda>a. t_tid (threads ?k a)) = (\<lambda>a. t_tid (threads k a))" using st by (simp add: same_table_def fun_eq_iff)
  show ?thesis
    unfolding port_inv_def same_table_ok [OF st] im
    by (intro conjI ballI allI impI port_inv_threads [OF inv] arr own blk)
qed

lemma release_port_ok:
  assumes "port_inv k proc" "tr \<in> set (thread_addrs k proc)" "a \<in> set (thread_addrs k proc)" "port \<in> set (port_list (threads k a))"
  shows "\<exists>k'. release_port k tr port = Some (0, k') \<and> port_inv k' proc \<and> same_table proc k k' \<and>
    ipc k' proc (nat port) = \<lparr>ipc_tid = -1, ipc_flags = 0, pulse_q = None, message_q = None\<rparr> \<and>
    port_list (threads k' a) = remove1 port (port_list (threads k a)) \<and>
    (\<forall>b. b \<noteq> a \<longrightarrow> port_list (threads k' b) = port_list (threads k b)) \<and>
    (\<forall>q. q \<noteq> nat port \<longrightarrow> ipc_tid (ipc k' proc q) = ipc_tid (ipc k proc q) \<and> ipc_flags (ipc k' proc q) = ipc_flags (ipc k proc q))"
proof -
  note u = port_inv_used [OF assms(1,3,4)]
  obtain k1 where k1: "drain_pulses k a port = Some k1" "drained proc k k1"
    using drain_pulses_ok [OF assms(1,3)] by blast
  obtain k2 where k2: "drain_messages k1 a port = Some k2" "drained proc k1 k2"
    using drain_messages_ok [of k1 proc a port] drainedD(1,2) [OF k1(2)] assms(3) u(1) by auto
  have d: "drained proc k k2" by (rule drained_trans [OF k1(2) k2(2)])
  note dd = drainedD [OF d]
  define k' where "k' = upd_thread a (remove_port port) (upd_ipc proc (nat port)
    (\<lambda>b. b\<lparr>ipc_tid := -1, ipc_flags := 0, pulse_q := None, message_q := None\<rparr>) k2)"
  have in2: "a \<in> set (thread_addrs k2 proc)" "port \<in> set (port_list (threads k2 a))" using assms(3,4) dd by simp_all
  have inv': "port_inv k' proc" unfolding k'_def by (rule freed_port_inv [OF dd(1) in2])
  obtain pq mq where q: "pulse_q (ipc k2 proc (nat port)) = Some pq" "message_q (ipc k2 proc (nat port)) = Some mq"
    using port_inv_used(3) [OF dd(1) in2] by (auto simp: block_ok_def)
  have tgt: "(if t_tid (threads k tr) = t_tid (threads k a) then Some (Some tr) else get_thread k proc (t_tid (threads k a))) = Some (Some a)"
    using thread_lookup [OF assms(1,3)] tid_unique [OF assms(1,2,3)] by auto
  have "release_port k tr port = Some (0, k')"
    using u tgt k1(1) k2(1) q port_inv_process [OF assms(1,2)]
    by (simp add: release_port_def Let_def port_range_def k'_def)
  moreover have "port_list (threads k' a) = remove1 port (port_list (threads k a))"
    using remove_port_ok(2) [OF port_inv_array [OF dd(1) in2(1)] in2(2)] dd(3) by (simp add: k'_def)
  moreover have "ipc k' proc (nat port) = \<lparr>ipc_tid = -1, ipc_flags = 0, pulse_q = None, message_q = None\<rparr>"
    by (simp add: k'_def)
  ultimately show ?thesis
    using inv' d dd(3) by (simp add: k'_def drained_def same_table_def remove_port_def)
qed

lemma release_ports_loop_ok:
  assumes "port_inv k proc" "tr \<in> set (thread_addrs k proc)"
  shows "\<exists>k'. release_ports_loop k tr cnt = Some (cnt + int (length (port_list (threads k tr))), k') \<and>
    port_inv k' proc \<and> same_table proc k k' \<and> port_list (threads k' tr) = [] \<and>
    (\<forall>b. b \<noteq> tr \<longrightarrow> port_list (threads k' b) = port_list (threads k b))"
  using assms
proof (induction "length (port_list (threads k tr))" arbitrary: k cnt)
  case 0
  then have "t_ports (threads k tr) 0 = -1"
    using port_list_end [of "threads k tr"] by (simp add: port_list_def MAX_PORTS_def)
  then show ?case using 0 by (subst release_ports_loop.simps) (auto simp: same_table_def)
next
  case (Suc n)
  let ?t = "threads k tr" and ?p = "t_ports (threads k tr) 0"
  have c: "0 < port_count ?t" using Suc(2) by (simp add: port_list_def)
  obtain k1 where k1: "release_port k tr ?p = Some (0, k1)" "port_inv k1 proc" "same_table proc k k1"
    "port_list (threads k1 tr) = remove1 ?p (port_list ?t)" "\<forall>b. b \<noteq> tr \<longrightarrow> port_list (threads k1 b) = port_list (threads k b)"
    using release_port_ok [OF Suc(3,4,4) port_list_nth [OF c]] by blast
  have n1: "n = length (port_list (threads k1 tr))"
    using Suc(2) port_list_nth [OF c] by (simp add: k1(4) length_remove1)
  have "tr \<in> set (thread_addrs k1 proc)" using Suc(4) same_table_ok(2) [OF k1(3)] by simp
  from Suc(1) [OF n1 k1(2) this, of "cnt + 1"] obtain k' where k': "release_ports_loop k1 tr (cnt + 1) = Some (cnt + 1 + int n, k')"
    "port_inv k' proc" "same_table proc k1 k'" "port_list (threads k' tr) = []"
    "\<forall>b. b \<noteq> tr \<longrightarrow> port_list (threads k' b) = port_list (threads k1 b)"
    by (auto simp: n1)
  have "release_ports_loop k tr cnt = release_ports_loop k1 tr (cnt + 1)"
    using k1(1) port_list_in [OF c] by (subst release_ports_loop.simps) simp
  moreover have "same_table proc k k'" using k1(3) k'(3) by (simp add: same_table_def)
  ultimately show ?case using k' k1(5) Suc(2) by (auto simp: algebra_simps)
qed

subsection \<open>Properties\<close>

text \<open>
  C8. Releasing a port. For a port that a thread of the process owns, whoever of the process
  asks, the release returns 0: the port is free, its queues are gone, it is out of its
  owner's list, which keeps the order of the others; all other ports keep their owner and
  flags, all other threads their lists, and the invariant of the process holds.
\<close>

theorem release_port_effect:
  assumes "port_inv k proc" "tr \<in> set (thread_addrs k proc)" "a \<in> set (thread_addrs k proc)" "port \<in> set (port_list (threads k a))"
  shows "\<exists>k'. release_port k tr port = Some (0, k') \<and> port_inv k' proc \<and> port2tid k' proc port = -1 \<and>
    pulse_q (ipc k' proc (nat port)) = None \<and> message_q (ipc k' proc (nat port)) = None \<and>
    port_list (threads k' a) = remove1 port (port_list (threads k a)) \<and>
    (\<forall>b. b \<noteq> a \<longrightarrow> port_list (threads k' b) = port_list (threads k b)) \<and>
    (\<forall>q. q \<noteq> nat port \<longrightarrow> ipc_tid (ipc k' proc q) = ipc_tid (ipc k proc q) \<and> ipc_flags (ipc k' proc q) = ipc_flags (ipc k proc q))"
proof -
  obtain k' where k': "release_port k tr port = Some (0, k')" "port_inv k' proc"
    "ipc k' proc (nat port) = \<lparr>ipc_tid = -1, ipc_flags = 0, pulse_q = None, message_q = None\<rparr>"
    "port_list (threads k' a) = remove1 port (port_list (threads k a))"
    "\<forall>b. b \<noteq> a \<longrightarrow> port_list (threads k' b) = port_list (threads k b)"
    "\<forall>q. q \<noteq> nat port \<longrightarrow> ipc_tid (ipc k' proc q) = ipc_tid (ipc k proc q) \<and> ipc_flags (ipc k' proc q) = ipc_flags (ipc k proc q)"
    using release_port_ok [OF assms] by blast
  then show ?thesis by (intro exI [of _ k'] conjI) (simp_all add: port2tid_def)
qed

theorem release_port_effect_witness:
  "\<exists>k'. release_port k_hidden 11 6 = Some (0, k') \<and> port_inv k' 0 \<and> port_list (threads k' 10) = [5]"
  using release_port_effect [OF k_hidden_ok(1), of 11 10 6] k_hidden_ok(2,3) by auto

text \<open>
  C9. Releasing all ports of a thread always ends: it returns the number of ports the thread
  had, the thread owns no port afterwards, and the ports of the other threads stay theirs.
\<close>

theorem release_thread_ports_all:
  assumes "port_inv k proc" "tr \<in> set (thread_addrs k proc)"
  shows "\<exists>k'. release_thread_ports k tr = Some (int (length (port_list (threads k tr))), k') \<and> port_inv k' proc \<and>
    port_list (threads k' tr) = [] \<and> (\<forall>p<MAX_PORTS. ipc_tid (ipc k' proc p) \<noteq> t_tid (threads k tr)) \<and>
    (\<forall>b. b \<noteq> tr \<longrightarrow> port_list (threads k' b) = port_list (threads k b))"
proof -
  obtain k' where k': "release_thread_ports k tr = Some (int (length (port_list (threads k tr))), k')" "port_inv k' proc"
    "same_table proc k k'" "port_list (threads k' tr) = []" "\<forall>b. b \<noteq> tr \<longrightarrow> port_list (threads k' b) = port_list (threads k b)"
    using release_ports_loop_ok [OF assms, of 0] by (auto simp: release_thread_ports_def)
  have "tr \<in> set (thread_addrs k' proc)" using assms(2) same_table_ok(2) [OF k'(3)] by simp
  moreover have "t_tid (threads k' tr) = t_tid (threads k tr)" using k'(3) by (simp add: same_table_def)
  ultimately have "ipc_tid (ipc k' proc p) \<noteq> t_tid (threads k tr)" if "p < MAX_PORTS" for p
    using port_inv_owner [OF k'(2), of tr "int p"] k'(4) that by (simp add: port_range_def)
  with k' show ?thesis by blast
qed

theorem release_thread_ports_all_witness:
  "\<exists>k'. release_thread_ports k_hidden 10 = Some (2, k') \<and> port_list (threads k' 10) = []"
  using release_thread_ports_all [OF k_hidden_ok(1), of 10] k_hidden_ok(2,3) by auto

text \<open>
  What a release really drops. The code means to drop what waits at the port released, but
  sets the message hint before \<open>drop_pulse\<close>, which reads the pulse hint. Without a pulse
  hint, releasing a port that is not the owner's first empties the owner's first port of all
  its pulses, although that port stays in use.
\<close>

theorem release_port_drops_first:
  assumes "port_inv k proc" "tr \<in> set (thread_addrs k proc)" "a \<in> set (thread_addrs k proc)"
    and "port_list (threads k a) = p # ps" "port \<in> set ps" "\<not> port_range (t_last_port_pulse (threads k a))"
  shows "\<exists>k'. release_port k tr port = Some (0, k') \<and> p \<in> set (port_list (threads k' a)) \<and> pulses k' proc (nat p) = []"
proof -
  have pin: "port \<in> set (port_list (threads k a))" by (simp add: assms(4,5))
  note u = port_inv_used [OF assms(1,3) pin]
  have ne: "p \<noteq> port" using port_inv_array [OF assms(1,3)] assms(4,5) by (auto simp: ports_array_def)
  have up: "port_range p" using port_inv_used(1) [OF assms(1,3), of p] assms(4) by simp
  obtain k1 where k1: "drain_pulses k a port = Some k1" "pulses k1 proc (nat p) = []"
    using drain_pulses_first [OF assms(1,3,4,6)] by blast
  have d1: "drained proc k k1" using drain_pulses_ok [OF assms(1,3), of port] k1(1) by auto
  obtain k2 where k2: "drain_messages k1 a port = Some k2" "\<forall>q. pulses k2 proc q = pulses k1 proc q"
    using drain_messages_ok [of k1 proc a port] drainedD(1,2) [OF d1] assms(3) u(1) by auto
  obtain k' where k': "release_port k tr port = Some (0, k')"
    "port_list (threads k' a) = remove1 port (port_list (threads k a))"
    using release_port_ok [OF assms(1-3) pin] by blast
  have tgt: "(if t_tid (threads k tr) = t_tid (threads k a) then Some (Some tr) else get_thread k proc (t_tid (threads k a))) = Some (Some a)"
    using thread_lookup [OF assms(1,3)] tid_unique [OF assms(1,2,3)] by auto
  have nn: "nat p \<noteq> nat port" using ne up u(1) by (auto simp: port_range_def)
  have "pulses k' proc (nat p) = pulses k2 proc (nat p)"
    using k'(1) u tgt k1(1) k2(1) port_inv_process [OF assms(1,2)] nn
    by (auto simp: release_port_def Let_def port_range_def pulses_def bind_eq_Some)
  then show ?thesis using k' k1(2) k2(2) ne assms(4) by auto
qed

definition k_loss :: kstate where
  "k_loss = upd_ipc 0 5 (\<lambda>b. b\<lparr>pulse_q := Some queue_nine\<rparr>) k_hidden"

theorem release_port_drops_first_witness:
  "pulses k_loss 0 5 = [pulse_nine] \<and>
   (\<exists>k'. release_port k_loss 10 6 = Some (0, k') \<and> 5 \<in> set (port_list (threads k' 10)) \<and> pulses k' 0 5 = [])"
proof -
  have f: "pulse_frame 0 5 k_hidden k_loss" unfolding k_loss_def using queue_nine_ok(1) by (rule pulse_frameI)
  have "port_inv k_loss 0" by (rule pulse_frame_inv [OF f k_hidden_ok(1)])
  moreover have "thread_addrs k_loss 0 = [10, 11]"
    using k_hidden_ok(2) same_table_ok(2) [OF pulse_frame_simps(3) [OF f]] by simp
  moreover have "pulses k_loss 0 5 = [pulse_nine]" using queue_nine_ok(2) by (simp add: k_loss_def pulses_def)
  ultimately show ?thesis
    using release_port_drops_first [of k_loss 0 10 10 5 "[6]" 6] k_hidden_ok(3,8)
    by (simp add: pulse_frame_simps [OF f] port_range_def)
qed

end
