(* ===== verification/Page_Out.thy ===== *)
theory Page_Out
  imports Ualloc
begin

unbundle bit_operations_syntax

section \<open>Unmapping with release of the frames (\<open>page_map_out\<close> of kernel/src/paging.c)\<close>

text \<open>
  \<open>page_map_out\<close> gives the frame of every mapped page of a run back to the physical memory; it is
  how the stack of a deleted thread goes. Shown: which frames it frees, and that it fails no assertion
  when they belong to the run alone.
\<close>

definition frame_at :: "pgmem \<Rightarrow> u32 \<Rightarrow> nat \<Rightarrow> nat option" where
  "frame_at st dir v = map_option (\<lambda>e. vpage (frame_of e)) (xlat st dir v)"

definition run_frames :: "pgmem \<Rightarrow> u32 \<Rightarrow> nat \<Rightarrow> nat \<Rightarrow> nat set" where
  "run_frames st dir v n = {f. \<exists>w. v \<le> w \<and> w < v + n \<and> frame_at st dir w = Some f}"

text \<open>Every mapped page of the run has a frame of its own, which is in use and holds no page table.\<close>

definition own_frames :: "pgmem \<Rightarrow> u32 \<Rightarrow> nat \<Rightarrow> nat \<Rightarrow> bool" where
  "own_frames st dir v n \<longleftrightarrow>
     (\<forall>w f. v \<le> w \<and> w < v + n \<and> frame_at st dir w = Some f \<longrightarrow> f < MAXMAP \<and> ISSET (pg_phys st) f \<and> f \<notin> base_frames st dir) \<and>
     (\<forall>w x f. v \<le> w \<and> w < x \<and> x < v + n \<and> frame_at st dir w = Some f \<longrightarrow> frame_at st dir x \<noteq> Some f)"

lemma xlat_pte: "xlat st dir (vpage a) = Some e \<Longrightarrow> pte st dir a = e \<and> present (pde st dir a)"
  by (auto simp: xlat_def Let_def pte_cell pde_cell tabs_def split: if_splits)

lemma own_framesD:
  assumes "own_frames st dir v n" "v \<le> w" "w < v + n" "frame_at st dir w = Some f"
  shows "f < MAXMAP \<and> ISSET (pg_phys st) f \<and> f \<notin> base_frames st dir"
  using assms unfolding own_frames_def by blast

lemma own_frames_other:
  assumes "own_frames st dir v n" "v \<le> w" "w < x" "x < v + n" "frame_at st dir w = Some f"
  shows "frame_at st dir x \<noteq> Some f"
  using assms unfolding own_frames_def by blast

lemma run_frames_Suc:
  "run_frames st dir v (Suc n) = set_option (frame_at st dir v) \<union> run_frames st dir (Suc v) n"
  unfolding run_frames_def by (auto simp: less_Suc_eq_le Suc_le_eq) (metis le_eq_less_or_eq)+

lemma page_out_one:
  assumes inv: "pt_inv st dir" and u: "user_page (vpage a)" and own: "own_frames st dir (vpage a) (Suc n)"
  shows "\<exists>st'. (if page_entry_present st dir a = 0 then
              let page = page_entry st dir a; st = set_pte dir a 0 st
              in do { ph \<leftarrow> memory_free (pg_phys st) 1 page; Some (st\<lparr>pg_phys := ph\<rparr>) }
            else Some st) = Some st' \<and> pt_inv st' dir \<and> base_frames st' dir = base_frames st dir \<and>
    (\<forall>v. user_page v \<longrightarrow> xlat st' dir v = (if v = vpage a then None else xlat st dir v)) \<and>
    (\<forall>p. ISSET (pg_phys st') p \<longleftrightarrow> ISSET (pg_phys st) p \<and> p \<notin> set_option (frame_at st dir (vpage a)))"
proof (cases "xlat st dir (vpage a)")
  case None
  then show ?thesis using xlat_entry [of st dir a] inv by (auto simp: frame_at_def)
next
  case (Some e)
  let ?f = "vpage (frame_of e)" and ?s = "set_pte dir a 0 st"
  have pe: "page_entry_present st dir a = 0" "page_entry st dir a = frame_of e" "present (pde st dir a)"
    using Some xlat_entry [of st dir a] xlat_pte [OF Some] by (auto simp: page_entry_def)
  have fa: "frame_at st dir (vpage a) = Some ?f" using Some by (simp add: frame_at_def)
  then have f: "?f < MAXMAP" "ISSET (pg_phys st) ?f" "?f \<notin> base_frames st dir" using own_framesD [OF own, of "vpage a"] by auto
  note sp = set_pte_ok [OF inv u pe(3), where w = 0]
  have al: "aligned (frame_of e)" by simp
  have "frame_of e = of_nat (?f * PAGE_SIZE)"
    using alignedE(1) [OF al] by (metis PAGE_SIZE_def of_nat_unat ucast_id)
  then obtain ph where ph: "memory_free (pg_phys st) 1 (frame_of e) = Some ph" "\<And>p. ISSET ph p \<longleftrightarrow> ISSET (pg_phys st) p \<and> p \<noteq> ?f"
    using memory_free_ok [of ?f 1 "pg_phys st"] f(1,2) by (auto simp: less_Suc_eq_le)
  have bf: "base_frames ?s dir = base_frames st dir"
    using tframes_same [of ?s dir st] sp(5) by (simp add: base_frames_def)
  have "pt_inv (?s\<lparr>pg_phys := ph\<rparr>) dir"
    by (rule pt_inv_keep [OF sp(1)]) (use bf f(3) ph(2) base_frames_ISSET [OF inv] in auto)
  moreover have "xlat (?s\<lparr>pg_phys := ph\<rparr>) dir v = xlat ?s dir v" for v by (simp add: xlat_def tabs_def)
  ultimately show ?thesis using pe ph sp(2,4) bf fa by (auto simp: Let_def)
qed

lemma page_map_out_loop_ok:
  assumes "pt_inv st dir" "user_run index n" "own_frames st dir (vpage index) n"
  shows "\<exists>st'. page_map_out_loop n dir index st = Some st' \<and> pt_inv st' dir \<and>
    (\<forall>v. user_page v \<longrightarrow> xlat st' dir v = (if vpage index \<le> v \<and> v < vpage index + n then None else xlat st dir v)) \<and>
    (\<forall>p. ISSET (pg_phys st') p \<longleftrightarrow> ISSET (pg_phys st) p \<and> p \<notin> run_frames st dir (vpage index) n)"
  using assms
proof (induction n arbitrary: st index)
  case 0
  then show ?case by (auto simp: run_frames_def)
next
  case (Suc n)
  note u = user_run_Suc [OF Suc(3)]
  obtain st1 where st1: "page_map_out_loop (Suc n) dir index st = page_map_out_loop n dir (index + of_nat PAGE_SIZE) st1"
    "pt_inv st1 dir" "base_frames st1 dir = base_frames st dir"
    "\<And>v. user_page v \<Longrightarrow> xlat st1 dir v = (if v = vpage index then None else xlat st dir v)"
    "\<And>p. ISSET (pg_phys st1) p \<longleftrightarrow> ISSET (pg_phys st) p \<and> p \<notin> set_option (frame_at st dir (vpage index))"
    using page_out_one [OF Suc(2) u(1) Suc(4)] by (auto simp del: not_None_eq)
  have up: "user_page w" if "vpage index \<le> w" "w < vpage index + Suc n" for w
    using Suc(3) that by (simp add: user_run_def user_page_def)
  have fr: "frame_at st1 dir w = frame_at st dir w" if "Suc (vpage index) \<le> w" "w < Suc (vpage index) + n" for w
    using st1(4) [OF up [of w]] that by (simp add: frame_at_def)
  have "run_frames st1 dir (Suc (vpage index)) n = run_frames st dir (Suc (vpage index)) n"
    unfolding run_frames_def using fr by metis
  moreover have "own_frames st1 dir (Suc (vpage index)) n"
    unfolding own_frames_def
  proof (intro conjI allI impI)
    fix w f assume w: "Suc (vpage index) \<le> w \<and> w < Suc (vpage index) + n \<and> frame_at st1 dir w = Some f"
    then have fw: "frame_at st dir w = Some f" using fr [of w] by simp
    have o: "f < MAXMAP \<and> ISSET (pg_phys st) f \<and> f \<notin> base_frames st dir"
      by (rule own_framesD [OF Suc(4) _ _ fw]) (use w in simp_all)
    then show "f < MAXMAP" "f \<notin> base_frames st1 dir" using st1(3) by simp_all
    have "frame_at st dir (vpage index) \<noteq> Some f" using own_frames_other [OF Suc(4), of "vpage index" w f] w fw by auto
    then show "ISSET (pg_phys st1) f" using st1(5) o by auto
  next
    fix w x f assume w: "Suc (vpage index) \<le> w \<and> w < x \<and> x < Suc (vpage index) + n \<and> frame_at st1 dir w = Some f"
    then show "frame_at st1 dir x \<noteq> Some f" using fr [of w] fr [of x] own_frames_other [OF Suc(4), of w x f] by simp
  qed
  ultimately show ?case
    using Suc(1) [OF st1(2) u(2)] st1 unfolding u(3) run_frames_Suc by auto
qed

text \<open>
  C23. \<open>page_map_out\<close> over a run of pages whose frames belong to nobody else returns 0; no page of the
  run is mapped afterwards, every other page is mapped as before, and exactly the frames that the
  run had are free again.
\<close>

theorem page_map_out_frees:
  assumes "pt_inv st dir" "user_run start n" "own_frames st dir (vpage start) n"
  shows "\<exists>st'. page_map_out st dir start (int n) = Some (0, st') \<and> pt_inv st' dir \<and>
    (\<forall>v. user_page v \<longrightarrow> xlat st' dir v = (if vpage start \<le> v \<and> v < vpage start + n then None else xlat st dir v)) \<and>
    (\<forall>p. ISSET (pg_phys st') p \<longleftrightarrow> ISSET (pg_phys st) p \<and> p \<notin> run_frames st dir (vpage start) n)"
  using page_map_out_loop_ok [OF assms] by (auto simp: page_map_out_def)

text \<open>A directory at \<open>0x14000\<close> with one table, in which two pages are mapped.\<close>

definition pg_two :: pgmem where
  "pg_two = pg_small\<lparr>pg_mem := (\<lambda>_. 0)(cell 0x14000 512 := 0x15003, cell 0x15000 0 := 0x16003, cell 0x15000 1 := 0x17003)\<rparr>"

lemma pg_two_cells: "aligned 0x15000" "aligned 0x14000" "frame_of 0x15003 = 0x15000" "frame_of 0x16003 = 0x16000" "frame_of 0x17003 = 0x17000"
  "vpage 0x16000 = 22" "vpage 0x17000 = 23" "vpage 0x15000 = 21" "vpage 0x14000 = 20" "present 0x15003" "present 0x16003" "present 0x17003" "\<not> present 0"
  by (simp_all add: aligned_def frame_of_def vpage_def present_def PAGE_PRESENT_def PAGE_SIZE_def)

lemma pg_two_tabs: "i < 1024 \<Longrightarrow> tabs pg_two 0x14000 i = (if i = 512 then 0x15003 else 0)"
  using cell_inj [of "0x14000" "0x14000" i 512] cell_inj [of "0x14000" "0x15000" i 0] cell_inj [of "0x14000" "0x15000" i 1]
  by (auto simp: tabs_def pg_two_def pg_two_cells)

lemma pg_two_xlat:
  "user_page v \<Longrightarrow> xlat pg_two 0x14000 v = (if v = 524288 then Some 0x16003 else if v = 524289 then Some 0x17003 else None)"
proof -
  assume "user_page v"
  then have i: "v div 1024 < 1024" by (auto simp: user_page_def)
  show ?thesis
  proof (cases "v div 1024 = 512")
    case True
    have e: "pg_mem pg_two (cell 0x15000 (v mod 1024)) = (if v mod 1024 = 0 then 0x16003 else if v mod 1024 = 1 then 0x17003 else 0)"
      using cell_inj [of "0x15000" "0x14000" "v mod 1024" 512] cell_inj [of "0x15000" "0x15000" "v mod 1024" 0] cell_inj [of "0x15000" "0x15000" "v mod 1024" 1]
      by (auto simp: pg_two_def pg_two_cells)
    have "v = 524288 + v mod 1024" using True div_mult_mod_eq [of v 1024] by simp
    then have "v mod 1024 = 0 \<longleftrightarrow> v = 524288" "v mod 1024 = 1 \<longleftrightarrow> v = 524289" by linarith+
    then show ?thesis using True e by (auto simp: xlat_def pg_two_tabs Let_def pg_two_cells)
  next
    case False
    then have "v \<noteq> 524288" "v \<noteq> 524289" by auto
    then show ?thesis using False i by (simp add: xlat_def pg_two_tabs Let_def pg_two_cells)
  qed
qed

lemma pg_two_inv: "pt_inv pg_two 0x14000" "base_frames pg_two 0x14000 = {0, 20, 21}"
proof -
  have p: "ISSET (pg_phys pg_two) f \<longleftrightarrow> \<not> (1 \<le> f \<and> f < 10)" for f by (simp add: pg_two_def pg_small_def mem_small_fields)
  have t: "user_index i \<Longrightarrow> tabs pg_two 0x14000 i = (if i = 512 then 0x15003 else 0)" for i
    using pg_two_tabs [of i] by (simp add: user_index_def)
  show "pt_inv pg_two 0x14000"
    unfolding pt_inv_def by (auto simp: t owned_def pg_two_cells p MAXMAP_def split: if_splits)
  have "user_index 512" by (simp add: user_index_def)
  then show "base_frames pg_two 0x14000 = {0, 20, 21}"
    by (auto simp: base_frames_def tframes_def t pg_two_cells split: if_splits intro!: exI [of _ 512])
qed

lemma pg_two_frames:
  "frame_at pg_two 0x14000 524288 = Some 22" "frame_at pg_two 0x14000 524289 = Some 23" "own_frames pg_two 0x14000 524288 2"
proof -
  have u: "user_page 524288" "user_page 524289" by (simp_all add: user_page_def)
  show f: "frame_at pg_two 0x14000 524288 = Some 22" "frame_at pg_two 0x14000 524289 = Some 23"
    using pg_two_xlat [OF u(1)] pg_two_xlat [OF u(2)] by (simp_all add: frame_at_def pg_two_cells)
  have w: "w = 524288 \<or> w = 524289" if "524288 \<le> w" "w < 524288 + 2" for w :: nat using that by auto
  have p: "ISSET (pg_phys pg_two) f \<longleftrightarrow> \<not> (1 \<le> f \<and> f < 10)" for f by (simp add: pg_two_def pg_small_def mem_small_fields)
  show "own_frames pg_two 0x14000 524288 2"
    unfolding own_frames_def
  proof (intro conjI allI impI)
    fix w g assume "524288 \<le> w \<and> w < 524288 + 2 \<and> frame_at pg_two 0x14000 w = Some g"
    then have "g = 22 \<or> g = 23" using w [of w] f by auto
    then show "g < MAXMAP" "ISSET (pg_phys pg_two) g" "g \<notin> base_frames pg_two 0x14000" by (auto simp: p pg_two_inv MAXMAP_def)
  next
    fix w x g assume a: "524288 \<le> w \<and> w < x \<and> x < 524288 + 2 \<and> frame_at pg_two 0x14000 w = Some g"
    then have wx: "w = 524288" "x = 524289" by auto
    show "frame_at pg_two 0x14000 x \<noteq> Some g" using a f unfolding wx by simp
  qed
qed

theorem page_map_out_frees_witness:
  "\<exists>st'. page_map_out pg_two 0x14000 0x80000000 2 = Some (0, st') \<and> \<not> ISSET (pg_phys st') 22 \<and> \<not> ISSET (pg_phys st') 23 \<and> ISSET (pg_phys st') 21"
proof -
  have r: "run_frames pg_two 0x14000 524288 2 = {22, 23}"
    by (simp add: numeral_2_eq_2 run_frames_Suc pg_two_frames) (auto simp: run_frames_def)
  have "ISSET (pg_phys pg_two) 21" by (simp add: pg_two_def pg_small_def mem_small_fields)
  then show ?thesis
    using page_map_out_frees [OF pg_two_inv(1) pg_small_run, of 2] pg_two_frames(3) unfolding pg_small_dir r by auto
qed

end
