(* ===== verification/Threads.thy ===== *)
theory Threads
  imports Port_Release Process Page_Out
begin

unbundle bit_operations_syntax

section \<open>Creation and deletion of threads (kernel/src/threads.c)\<close>

text \<open>
  A new thread gets a user stack in the address space of its process, a kernel stack, a page
  for local storage and one for the state of the FPU, and a first frame on its kernel stack from which the
  processor is loaded when it runs for the first time; then it is entered in the tree,
  list and table of its process. Deletion undoes this. The words on the kernel stack are in the
  memory of theory Paging.

  Shown: the words of the first frame, top to bottom; linking a new thread keeps table, list and
  ports of the process consistent; unlinking a thread that is not the first of the list leaves the others
  in order; and when the first thread is deleted, the process is left with a pointer into the
  middle of its list.
\<close>

definition sK_PAGES_THREAD :: u32 where "sK_PAGES_THREAD = 10"
definition sK_PAGES_KERNEL :: u32 where "sK_PAGES_KERNEL = 2"

definition PAGE_BYTES :: u32 where "PAGE_BYTES = of_nat PAGE_SIZE"

definition EFLAG_BASE :: u32 where "EFLAG_BASE = 0x2"
definition EFLAG_INTERRUPT :: u32 where "EFLAG_INTERRUPT = 0x200"

definition with_k :: "(kstate \<Rightarrow> kstate) \<Rightarrow> mstate \<Rightarrow> mstate" where
  "with_k f ms = ms\<lparr>m_k := f (m_k ms)\<rparr>"

text \<open>\<open>memory_alloc\<close>, whose result is not checked by the callers here.\<close>

definition alloc_pages :: "u32 \<Rightarrow> mstate \<Rightarrow> (u32 \<times> mstate) option" where
  "alloc_pages pages ms = do {
     (a, ph) \<leftarrow> memory_alloc (pg_phys (m_pg ms)) (sint pages);
     Some (a, ms\<lparr>m_pg := (m_pg ms)\<lparr>pg_phys := ph\<rparr>\<rparr>)
   }"

definition free_at :: "u32 \<Rightarrow> u32 \<Rightarrow> mstate \<Rightarrow> mstate option" where
  "free_at pages a ms = do {
     ph \<leftarrow> memory_free (pg_phys (m_pg ms)) (sint pages) a;
     Some (ms\<lparr>m_pg := (m_pg ms)\<lparr>pg_phys := ph\<rparr>\<rparr>)
   }"

definition pushl :: "addr \<Rightarrow> u32 \<Rightarrow> mstate \<Rightarrow> mstate" where
  "pushl tr v ms =
     (let sp = t_stack (threads (m_k ms) tr) - 4;
          ms = with_k (upd_thread tr (\<lambda>t. t\<lparr>t_stack := sp\<rparr>)) ms
      in ms\<lparr>m_pg := (m_pg ms)\<lparr>pg_mem := (pg_mem (m_pg ms))(sp := v)\<rparr>\<rparr>)"

definition GDT_SYSTEMCODE :: u32 where "GDT_SYSTEMCODE = 8"
definition GDT_SYSTEMDATA :: u32 where "GDT_SYSTEMDATA = 16"
definition GDT_USERCODE :: u32 where "GDT_USERCODE = 24"
definition GDT_USERDATA :: u32 where "GDT_USERDATA = 32"

text \<open>The words pushed for the first run, in the order in which they are pushed.\<close>

definition first_frame :: "int \<Rightarrow> u32 \<Rightarrow> u32 \<Rightarrow> u32 \<Rightarrow> u32 \<Rightarrow> u32 \<Rightarrow> u32 \<Rightarrow> u32 list" where
  "first_frame type stack_user entry data1 data2 data3 data4 =
     (if type = 1
      then [GDT_SYSTEMDATA, stack_user, EFLAG_BASE OR EFLAG_INTERRUPT, GDT_SYSTEMCODE]
      else [GDT_USERDATA OR 3, stack_user, EFLAG_BASE OR EFLAG_INTERRUPT, GDT_USERCODE OR 3]) @
     [entry] @ replicate 4 (GDT_USERDATA OR 3) @ [data1, data3, data4, data2] @ [0] @ [0, 0, 0]"

definition push_frame :: "addr \<Rightarrow> u32 list \<Rightarrow> mstate \<Rightarrow> mstate" where
  "push_frame tr ws ms = foldl (\<lambda>ms w. pushl tr w ms) ms ws"

text \<open>The end of \<open>new_thread\<close>: tree, list, table and count.\<close>

definition link_thread :: "bool \<Rightarrow> addr \<Rightarrow> addr option \<Rightarrow> addr \<Rightarrow> kstate \<Rightarrow> kstate option" where
  "link_thread mem proc parent tr k = do {
     let k = k\<lparr>tfam := family_init tr (tfam k)\<rparr>;
     let k = k\<lparr>tlist := list_init tr (tlist k)\<rparr>;
     let k = (case p_threads (procs k proc) of
                None \<Rightarrow> upd_proc proc (\<lambda>p. p\<lparr>p_threads := Some tr\<rparr>) k
              | Some first \<Rightarrow>
                  (let k = k\<lparr>tfam := (case parent of None \<Rightarrow> family_add_sibling first tr (tfam k)
                                      | Some pt \<Rightarrow> family_add_child pt tr (tfam k))\<rparr>
                   in k\<lparr>tlist := list_insertAfter first tr (tlist k)\<rparr>));
     (_, t) \<leftarrow> htable_insert mem (\<lambda>a. threads_key (t_tid (threads k a))) (p_threads_htable (procs k proc)) tr;
     let k = upd_proc proc (\<lambda>p. p\<lparr>p_threads_htable := t\<rparr>) k;
     Some (upd_proc proc (\<lambda>p. p\<lparr>p_thread_count := p_thread_count p + 1\<rparr>) k)
   }"

definition init_thread :: "int \<Rightarrow> addr \<Rightarrow> thread \<Rightarrow> thread" where
  "init_thread tid proc t = t\<lparr>t_tid := tid, t_state := THREAD_SUSPENDED, t_process := Some proc, t_irq := -1, t_duration := 0,
     t_ports := (\<lambda>i. if i < MAX_PORTS then -1 else t_ports t i), t_last_port_pulse := -1, t_last_port_message := -1\<rparr>"

definition new_thread :: "addr option \<Rightarrow> malloc \<Rightarrow> bool \<Rightarrow> mstate \<Rightarrow> int \<Rightarrow> addr \<Rightarrow> addr option \<Rightarrow> buffer \<Rightarrow> u32 \<Rightarrow>
    u32 \<Rightarrow> u32 \<Rightarrow> u32 \<Rightarrow> u32 \<Rightarrow> (int \<times> mstate) option" where
  "new_thread a mal mem ms type proc parent name entry data1 data2 data3 data4 =
     (case a of
        None \<Rightarrow> Some (-1, ms)
      | Some tr \<Rightarrow> do {
          let ms = with_k (upd_thread tr (\<lambda>t. t\<lparr>t_name := strncpy (t_name t) name NAME_LENGTH\<rparr>)) ms;
          (tid, k) \<leftarrow> next_tid (m_k ms) proc;
          let ms = ms\<lparr>m_k := upd_thread tr (init_thread tid proc) k\<rparr>;
          found \<leftarrow> page_find_free (m_pg ms) (m_map ms proc) sK_BASE sK_CEILING (sK_PAGES_THREAD + 1);
          let stack_user = found + (sK_PAGES_THREAD + 1) * PAGE_BYTES;
          let ms = with_k (upd_thread tr (\<lambda>t. t\<lparr>t_stack_user := stack_user\<rparr>)) ms;
          (_, us) \<leftarrow> user_ensure mal (uspace_of ms proc) (stack_user - sK_PAGES_THREAD * PAGE_BYTES) sK_PAGES_THREAD;
          let ms = put_uspace proc us ms;
          (kst, ms) \<leftarrow> alloc_pages sK_PAGES_KERNEL ms;
          let stack_kernel = kst + sK_PAGES_KERNEL * PAGE_BYTES;
          let ms = with_k (upd_thread tr (\<lambda>t. t\<lparr>t_stack_kernel := stack_kernel, t_cpu := -1, t_cpu_affinity := -1, t_fast_queued := 0,
            t_interrupts_disabled := 0, t_rc := 0\<rparr>)) ms;
          (tls, ms) \<leftarrow> alloc_pages 1 ms;
          let ms = ms\<lparr>m_tls := (m_tls ms)(tr := tls)\<rparr>;
          (math, ms) \<leftarrow> alloc_pages 1 ms;
          let ms = ms\<lparr>m_math := (m_math ms)(tr := math)\<rparr>;
          let ms = with_k (upd_thread tr (\<lambda>t. t\<lparr>t_math_state := -1, t_event_tid := -1, t_stack := stack_kernel\<rparr>)) ms;
          let ms = push_frame tr (first_frame type stack_user entry data1 data2 data3 data4) ms;
          k \<leftarrow> link_thread mem proc parent tr (m_k ms);
          Some (tid, ms\<lparr>m_k := k\<rparr>)
        })"

text \<open>The children of a thread without parent become its siblings.\<close>

partial_function (option) orphan_loop :: "addr \<Rightarrow> fam_store \<Rightarrow> fam_store option" where
  "orphan_loop tr f =
     (case fchild (f tr) of
        None \<Rightarrow> Some f
      | Some child \<Rightarrow> orphan_loop tr (family_add_sibling tr child (family_remove child f)))"

text \<open>The middle of \<open>delete_thread\<close>: the thread leaves tree and list.\<close>

definition unlink_thread :: "addr \<Rightarrow> addr \<Rightarrow> kstate \<Rightarrow> kstate option" where
  "unlink_thread proc tr k = do {
     f \<leftarrow> (case fparent (tfam k tr) of
             Some parent \<Rightarrow> family_adopt parent tr (tfam k)
           | None \<Rightarrow> orphan_loop tr (tfam k));
     let next = sibling_next (f tr);
     let k = k\<lparr>tfam := family_remove tr f\<rparr>;
     let k = k\<lparr>tlist := list_remove tr (tlist k)\<rparr>;
     if p_threads (procs k proc) = Some tr
     then do {
       assert (sibling_prev (tfam k tr) = None);
       Some (upd_proc proc (\<lambda>p. p\<lparr>p_threads := next\<rparr>) k)
     }
     else Some k
   }"

text \<open>Its end: the memory of the thread goes back.\<close>

definition free_thread_memory :: "addr \<Rightarrow> addr \<Rightarrow> mstate \<Rightarrow> mstate option" where
  "free_thread_memory proc tr ms = do {
     let ms = with_k (upd_thread tr (\<lambda>t. t\<lparr>t_stack_kernel := t_stack_kernel t - sK_PAGES_KERNEL * PAGE_BYTES\<rparr>)) ms;
     ms \<leftarrow> free_at sK_PAGES_KERNEL (t_stack_kernel (threads (m_k ms) tr)) ms;
     let ms = with_k (upd_thread tr (\<lambda>t. t\<lparr>t_stack_user := t_stack_user t - sK_PAGES_THREAD * PAGE_BYTES\<rparr>)) ms;
     (_, pg) \<leftarrow> page_map_out (m_pg ms) (m_map ms proc) (t_stack_user (threads (m_k ms) tr)) (sint sK_PAGES_THREAD);
     let ms = ms\<lparr>m_pg := pg\<rparr>;
     ms \<leftarrow> free_at 1 (m_math ms tr) ms;
     free_at 1 (m_tls ms tr) ms
   }"

definition delete_thread :: "bool \<Rightarrow> mstate \<Rightarrow> addr \<Rightarrow> (int \<times> mstate) option" where
  "delete_thread mem ms tr = do {
     proc \<leftarrow> t_process (threads (m_k ms) tr);
     let k = upd_proc proc (\<lambda>p. p\<lparr>p_thread_count := p_thread_count p - 1\<rparr>) (m_k ms);
     (rc, t) \<leftarrow> htable_remove mem (\<lambda>a. threads_key (t_tid (threads k a))) (p_threads_htable (procs k proc)) tr;
     assert (rc = 0);
     let k = upd_proc proc (\<lambda>p. p\<lparr>p_threads_htable := t\<rparr>) k;
     (rc, k) \<leftarrow> release_thread_ports k tr;
     assert (rc \<ge> 0);
     k \<leftarrow> unlink_thread proc tr k;
     ms \<leftarrow> free_thread_memory proc tr (ms\<lparr>m_k := k\<rparr>);
     Some (0, ms)
   }"

text \<open>
  \<open>go_dormant\<close>. What other threads and the timer do while the thread is off its processor is the
  argument \<open>yield\<close>.
\<close>

definition go_dormant :: "(kstate \<Rightarrow> kstate option) \<Rightarrow> kstate \<Rightarrow> int \<Rightarrow> u32 \<Rightarrow> (int \<times> kstate) option" where
  "go_dormant yield k current_pid timeout = do {
     (p, k) \<leftarrow> checkout_process k current_pid WRITER;
     proc \<leftarrow> p;
     tr \<leftarrow> current_thread k;
     assert (t_state (threads k tr) = THREAD_RUNNING);
     (np, k) \<leftarrow> pulses_waiting k tr;
     (nm, k) \<leftarrow> (if np > 0 then Some (0, k) else messages_waiting k tr);
     if np > 0 \<or> nm > 0 then Some (0, commit_process proc k)
     else if timeout \<noteq> 0 then do {
       let (_, k) = disable_interrupts k;
       (_, k) \<leftarrow> pause k tr (ucast timeout);
       let k = commit_process proc k;
       k \<leftarrow> yield k;
       let duration = t_duration (threads k tr);
       let k = upd_thread tr (\<lambda>t. t\<lparr>t_duration := 0\<rparr>) k;
       Some (wrap32 (uint duration), enable_interrupts k)
     }
     else do {
       let (_, k) = disable_interrupts k;
       let k = upd_thread tr (\<lambda>t. t\<lparr>t_duration := 0\<rparr>) k;
       k \<leftarrow> set_thread_state k tr THREAD_DORMANT;
       let k = commit_process proc k;
       let k = upd_proc proc (\<lambda>p. p\<lparr>p_kernel_threads := p_kernel_threads p - 1\<rparr>) k;
       k \<leftarrow> yield k;
       let k = upd_proc proc (\<lambda>p. p\<lparr>p_kernel_threads := p_kernel_threads p + 1\<rparr>) k;
       let duration = t_duration (threads k tr);
       let k = upd_thread tr (\<lambda>t. t\<lparr>t_duration := 0\<rparr>) k;
       Some (wrap32 (uint duration), enable_interrupts k)
     }
   }"

subsection \<open>The first frame\<close>

lemma pushl_fields [simp]:
  "t_stack (threads (m_k (pushl tr v ms)) tr) = t_stack (threads (m_k ms) tr) - 4"
  "pg_mem (m_pg (pushl tr v ms)) = (pg_mem (m_pg ms))(t_stack (threads (m_k ms) tr) - 4 := v)"
  by (simp_all add: pushl_def Let_def with_k_def)

lemma push_frame_Nil [simp]: "push_frame tr [] ms = ms"
  by (simp add: push_frame_def)

lemma push_frame_snoc [simp]: "push_frame tr (ws @ [w]) ms = pushl tr w (push_frame tr ws ms)"
  by (simp add: push_frame_def)

lemma slot_inj:
  assumes "i < 2 ^ 30" "j < 2 ^ 30" "sp - 4 * of_nat (Suc i) = (sp - 4 * of_nat (Suc j) :: u32)"
  shows "i = j"
proof -
  have "(4 * of_nat i :: u32) = 4 * of_nat j" using assms(3) by (simp add: algebra_simps)
  moreover have "unat (4 * of_nat n :: u32) = 4 * n" if "n < 2 ^ 30" for n
    using that by (simp add: unat_word_ariths unsigned_of_nat take_bit_nat_eq_self)
  ultimately have "4 * i = 4 * j" using assms(1,2) by (metis (full_types))
  then show ?thesis by simp
qed

lemma push_frame_words:
  assumes "length ws < 2 ^ 30" "t_stack (threads (m_k ms) tr) = sp"
  shows "t_stack (threads (m_k (push_frame tr ws ms)) tr) = sp - 4 * of_nat (length ws) \<and>
    (\<forall>i<length ws. pg_mem (m_pg (push_frame tr ws ms)) (sp - 4 * of_nat (Suc i)) = ws ! i) \<and>
    (\<forall>a. (\<forall>i<length ws. a \<noteq> sp - 4 * of_nat (Suc i)) \<longrightarrow> pg_mem (m_pg (push_frame tr ws ms)) a = pg_mem (m_pg ms) a)"
  using assms(1)
proof (induction ws rule: rev_induct)
  case (snoc w ws)
  let ?m = "push_frame tr ws ms" and ?n = "length ws"
  have ih: "t_stack (threads (m_k ?m) tr) = sp - 4 * of_nat ?n" "\<And>i. i < ?n \<Longrightarrow> pg_mem (m_pg ?m) (sp - 4 * of_nat (Suc i)) = ws ! i"
    "\<And>a. \<forall>i<?n. a \<noteq> sp - 4 * of_nat (Suc i) \<Longrightarrow> pg_mem (m_pg ?m) a = pg_mem (m_pg ms) a" using snoc by auto
  have sl: "sp - 4 * of_nat ?n - 4 = sp - 4 * of_nat (Suc ?n)" by (simp add: algebra_simps)
  have mem: "pg_mem (m_pg (push_frame tr (ws @ [w]) ms)) = (pg_mem (m_pg ?m))(sp - 4 * of_nat (Suc ?n) := w)"
    unfolding push_frame_snoc pushl_fields ih(1) sl ..
  have "pg_mem (m_pg (push_frame tr (ws @ [w]) ms)) (sp - 4 * of_nat (Suc i)) = (ws @ [w]) ! i" if "i < Suc ?n" for i
  proof (cases "i = ?n")
    case False
    then have "sp - 4 * of_nat (Suc i) \<noteq> sp - 4 * of_nat (Suc ?n)" using slot_inj [of i ?n sp] that snoc(2) by auto
    then show ?thesis using ih(2) [of i] that False unfolding mem by (simp add: nth_append)
  next
    case True
    then show ?thesis unfolding mem by (simp only: fun_upd_same nth_append_length)
  qed
  moreover have "pg_mem (m_pg (push_frame tr (ws @ [w]) ms)) a = pg_mem (m_pg ms) a" if "\<forall>i<Suc ?n. a \<noteq> sp - 4 * of_nat (Suc i)" for a
    using ih(3) [of a] that unfolding mem by (metis fun_upd_other lessI less_SucI)
  moreover have "t_stack (threads (m_k (push_frame tr (ws @ [w]) ms)) tr) = sp - 4 * of_nat (Suc ?n)"
    unfolding push_frame_snoc pushl_fields ih(1) sl ..
  ultimately show ?case by simp
qed (simp add: assms(2))

subsection \<open>Linking\<close>

text \<open>\<open>ts\<close>: the threads of the process in list order.\<close>

definition thread_inv :: "kstate \<Rightarrow> addr \<Rightarrow> addr list \<Rightarrow> bool" where
  "thread_inv k proc ts \<longleftrightarrow> port_inv k proc \<and> dlist (tlist k) ts \<and> p_threads (procs k proc) = fhead ts \<and>
     mset (thread_addrs k proc) = mset ts \<and> p_thread_count (procs k proc) = int (length ts)"

text \<open>A thread that has been filled in and has a fresh id, and a table with room for it.\<close>

definition can_link :: "kstate \<Rightarrow> addr \<Rightarrow> addr list \<Rightarrow> addr \<Rightarrow> bool" where
  "can_link k proc ts tr \<longleftrightarrow> tr \<notin> set ts \<and> t_process (threads k tr) = Some proc \<and> tid_small (t_tid (threads k tr)) \<and>
     t_tid (threads k tr) \<notin> tids k proc \<and> (\<forall>i<MAX_PORTS. t_ports (threads k tr) i = -1) \<and>
     ht_total (p_threads_htable (procs k proc)) < ht_size (p_threads_htable (procs k proc)) \<and> ht_size (p_threads_htable (procs k proc)) \<le> 2 ^ 22"

definition after_first :: "addr \<Rightarrow> addr list \<Rightarrow> addr list" where
  "after_first x ts = (case ts of [] \<Rightarrow> [x] | t # r \<Rightarrow> t # x # r)"

lemma mset_after_first: "mset (after_first x ts) = add_mset x (mset ts)" "length (after_first x ts) = Suc (length ts)"
  by (simp_all add: after_first_def split: list.splits)

lemma fhead_after_first: "fhead (after_first x ts) = (case fhead ts of None \<Rightarrow> Some x | Some t \<Rightarrow> Some t)"
  by (simp add: after_first_def fhead_def split: list.splits)

lemma dlist_after_first:
  assumes "dlist s ts" "x \<notin> set ts"
  shows "dlist (case fhead ts of None \<Rightarrow> list_init x s | Some t \<Rightarrow> list_insertAfter t x (list_init x s)) (after_first x ts)"
proof (cases ts)
  case Nil
  then show ?thesis by (simp add: dlist_def after_first_def fhead_def)
next
  case (Cons t r)
  have "dlist (list_init x s) ([] @ t # r)"
    using assms Cons unfolding dlist_def by (auto elim!: dseg_frame)
  from dlist_insertAfter [OF this, of x] show ?thesis using assms(2) Cons by (simp add: after_first_def fhead_def)
qed

lemma port_list_empty: "\<forall>i<MAX_PORTS. t_ports t i = -1 \<Longrightarrow> port_list t = [] \<and> ports_array t"
proof -
  assume a: "\<forall>i<MAX_PORTS. t_ports t i = -1"
  then have "port_count t = 0" unfolding port_count_def by (subst arr_find.simps) (simp add: MAX_PORTS_def)
  then show ?thesis using a by (simp add: port_list_def ports_array_def)
qed

lemma tkey_fun: "(\<lambda>a. threads_key (t_tid (threads k a))) = tkey k"
  by (simp add: tkey_def fun_eq_iff)

lemma tkey_frame [simp]: "tkey (upd_proc a f k) = tkey k" "tkey (k\<lparr>tfam := tf\<rparr>) = tkey k" "tkey (k\<lparr>tlist := lst\<rparr>) = tkey k"
  by (simp_all add: tkey_def fun_eq_iff)

lemma upd_proc_twice: "upd_proc a f (upd_proc a g k) = upd_proc a (\<lambda>p. f (g p)) k"
  by (simp add: upd_proc_def)

text \<open>A fresh thread without ports joins the table.\<close>

lemma port_inv_join:
  assumes "port_inv k proc" "t_process (threads k tr) = Some proc" "tid_small (t_tid (threads k tr))" "t_tid (threads k tr) \<notin> tids k proc"
    and "\<forall>i<MAX_PORTS. t_ports (threads k tr) i = -1"
    and "threads k' = threads k" "p_ipc (procs k' proc) = p_ipc (procs k proc)"
    and "ht_ready (tkey k) (p_threads_htable (procs k' proc))" "mset (thread_addrs k' proc) = add_mset tr (mset (thread_addrs k proc))"
  shows "port_inv k' proc"
proof -
  let ?tid = "\<lambda>a. t_tid (threads k a)"
  have tok: "threads_ok k proc" using assms(1) by (simp add: port_inv_def)
  have set: "set (thread_addrs k' proc) = insert tr (set (thread_addrs k proc))" using assms(9) by (metis set_mset_add_mset_insert set_mset_mset)
  have "mset (map ?tid (thread_addrs k' proc)) = mset (map ?tid (tr # thread_addrs k proc))" using assms(9) by simp
  moreover have "distinct (map ?tid (tr # thread_addrs k proc))" using tok assms(4) by (simp add: threads_ok_def tids_def)
  ultimately have "distinct (map ?tid (thread_addrs k' proc))" by (metis mset_eq_imp_distinct_iff)
  moreover have "tkey k' = tkey k" by (simp add: tkey_def fun_eq_iff assms(6))
  ultimately have "threads_ok k' proc"
    using tok assms(2,3,6,8) set by (auto simp: threads_ok_def)
  moreover have "ipc_tid (ipc k proc p) \<noteq> ?tid tr" if "p < MAX_PORTS" for p
  proof -
    have "ipc_tid (ipc k proc p) = -1 \<or> ipc_tid (ipc k proc p) \<in> tids k proc" using assms(1) that unfolding port_inv_def tids_def by blast
    then show ?thesis using assms(3,4) by (auto simp: tid_small_def)
  qed
  ultimately show ?thesis
    using assms(1) port_list_empty [OF assms(5)] unfolding port_inv_def set assms(6,7) by auto
qed

lemma link_thread_ok:
  assumes inv: "thread_inv k proc ts" and cl: "can_link k proc ts tr"
  shows "\<exists>k'. link_thread mem proc parent tr k = Some k' \<and> thread_inv k' proc (after_first tr ts) \<and>
    get_thread k' proc (t_tid (threads k tr)) = Some (Some tr) \<and> threads k' = threads k"
proof -
  have I: "port_inv k proc" "dlist (tlist k) ts" "p_threads (procs k proc) = fhead ts" "mset (thread_addrs k proc) = mset ts"
    "p_thread_count (procs k proc) = int (length ts)" using inv by (simp_all add: thread_inv_def)
  have L: "tr \<notin> set ts" "t_process (threads k tr) = Some proc" "tid_small (t_tid (threads k tr))" "t_tid (threads k tr) \<notin> tids k proc"
    "\<forall>i<MAX_PORTS. t_ports (threads k tr) i = -1" using cl by (simp_all add: can_link_def)
  have "ht_ready (tkey k) (p_threads_htable (procs k proc))" using I(1) by (simp add: port_inv_def threads_ok_def)
  moreover have "ht_can_put (tkey k) tr (p_threads_htable (procs k proc))"
    using cl threads_key_small [OF L(3), THEN conjunct2] by (simp add: ht_can_put_def can_link_def tkey_def)
  ultimately obtain rc t where t: "htable_insert mem (tkey k) (p_threads_htable (procs k proc)) tr = Some (rc, t)" "ht_ready (tkey k) t"
    "mset (ht_list t) = add_mset tr (mset (thread_addrs k proc))"
    using ht.put_ok [where mem = mem and key = "tkey k"] by (fastforce simp: thread_addrs_def)
  obtain k1 where k1: "link_thread mem proc parent tr k = Some (upd_proc proc (\<lambda>p. p\<lparr>p_threads_htable := t, p_thread_count := p_thread_count p + 1\<rparr>) k1)"
    "threads k1 = threads k" "p_threads (procs k1 proc) = fhead (after_first tr ts)" "p_ipc (procs k1 proc) = p_ipc (procs k proc)"
    "p_thread_count (procs k1 proc) = p_thread_count (procs k proc)"
    "tlist k1 = (case fhead ts of None \<Rightarrow> list_init tr (tlist k) | Some t \<Rightarrow> list_insertAfter t tr (list_init tr (tlist k)))"
  proof (cases "fhead ts")
    case None
    let ?k = "upd_proc proc (\<lambda>p. p\<lparr>p_threads := Some tr\<rparr>) (k\<lparr>tfam := family_init tr (tfam k), tlist := list_init tr (tlist k)\<rparr>)"
    show thesis
      by (rule that [of ?k]) (use None I(3) t(1) in \<open>simp_all add: link_thread_def tkey_fun fhead_after_first upd_proc_twice Let_def\<close>)
  next
    case (Some f)
    let ?k = "k\<lparr>tfam := (case parent of None \<Rightarrow> family_add_sibling f tr (family_init tr (tfam k))
        | Some pt \<Rightarrow> family_add_child pt tr (family_init tr (tfam k))), tlist := list_insertAfter f tr (list_init tr (tlist k))\<rparr>"
    show thesis
      by (rule that [of ?k]) (use Some I(3) t(1) in \<open>simp_all add: link_thread_def tkey_fun fhead_after_first upd_proc_twice Let_def cong: option.case_cong\<close>)
  qed
  let ?k = "upd_proc proc (\<lambda>p. p\<lparr>p_threads_htable := t, p_thread_count := p_thread_count p + 1\<rparr>) k1"
  have ta: "thread_addrs ?k proc = ht_list t" by (simp add: thread_addrs_def)
  have pi: "port_inv ?k proc" by (rule port_inv_join [OF I(1) L(2-5)]) (use k1 t ta in simp_all)
  have "thread_inv ?k proc (after_first tr ts)"
    using pi k1 dlist_after_first [OF I(2) L(1)] t(3) I(4,5) ta by (simp add: thread_inv_def mset_after_first)
  moreover have "tr \<in> set (thread_addrs ?k proc)" unfolding ta using t(3) by (metis insertI1 set_mset_add_mset_insert set_mset_mset)
  then have "get_thread ?k proc (t_tid (threads k tr)) = Some (Some tr)"
    using get_thread_some [of ?k proc tr] pi k1(2) by (simp add: port_inv_def)
  ultimately show ?thesis using k1(1,2) by auto
qed

subsection \<open>A new thread\<close>

text \<open>Only a thread that is not yet linked, and fields that the invariant does not read, differ.\<close>

lemma thread_inv_frame:
  assumes "thread_inv k proc ts" "tr \<notin> set ts" "\<And>a. a \<noteq> tr \<Longrightarrow> threads k' a = threads k a" "tlist k' = tlist k"
    and "p_ipc (procs k' proc) = p_ipc (procs k proc)" "p_threads (procs k' proc) = p_threads (procs k proc)"
    "p_threads_htable (procs k' proc) = p_threads_htable (procs k proc)" "p_thread_count (procs k' proc) = p_thread_count (procs k proc)"
  shows "thread_inv k' proc ts \<and> tids k' proc = tids k proc"
proof -
  have ta: "thread_addrs k' proc = thread_addrs k proc" using assms(7) by (simp add: thread_addrs_def)
  have set: "set (thread_addrs k proc) = set ts" using assms(1) unfolding thread_inv_def by (metis set_mset_mset)
  have th: "a \<in> set ts \<Longrightarrow> threads k' a = threads k a" for a using assms(2,3) by metis
  have "map (\<lambda>a. t_tid (threads k' a)) (thread_addrs k proc) = map (\<lambda>a. t_tid (threads k a)) (thread_addrs k proc)"
    by (rule map_cong) (simp_all add: th set)
  then have d: "distinct (map (\<lambda>a. t_tid (threads k' a)) (thread_addrs k proc)) = distinct (map (\<lambda>a. t_tid (threads k a)) (thread_addrs k proc))"
    by (rule arg_cong)
  have i: "(\<lambda>a. t_tid (threads k' a)) ` set ts = (\<lambda>a. t_tid (threads k a)) ` set ts" using th by auto
  have hs: "set (ht_list (p_threads_htable (procs k proc))) = set ts" using set by (simp add: thread_addrs_def)
  show ?thesis
    using assms(1,4-8) th unfolding thread_inv_def port_inv_def threads_ok_def ta tids_def ht_ready_def tkey_def d set assms(7) hs i by auto
qed

lemma thread_inv_same:
  assumes "thread_inv k proc ts" "threads k' = threads k" "tlist k' = tlist k"
    and "p_ipc (procs k' proc) = p_ipc (procs k proc)" "p_threads (procs k' proc) = p_threads (procs k proc)"
    "p_threads_htable (procs k' proc) = p_threads_htable (procs k proc)" "p_thread_count (procs k' proc) = p_thread_count (procs k proc)"
  shows "thread_inv k' proc ts \<and> tids k' proc = tids k proc"
proof -
  obtain tr where "tr \<notin> set ts" using ex_new_if_finite [OF infinite_UNIV_nat, of "set ts"] by auto
  then show ?thesis by (rule thread_inv_frame [OF assms(1)]) (simp_all add: assms(2-))
qed

lemma push_frame_keeps:
  "m_map (push_frame tr ws ms) = m_map ms" "procs (m_k (push_frame tr ws ms)) = procs (m_k ms)"
  "tlist (m_k (push_frame tr ws ms)) = tlist (m_k ms)" "a \<noteq> tr \<Longrightarrow> threads (m_k (push_frame tr ws ms)) a = threads (m_k ms) a"
  "\<exists>sp. threads (m_k (push_frame tr ws ms)) tr = (threads (m_k ms) tr)\<lparr>t_stack := sp\<rparr>"
proof (induction ws rule: rev_induct)
  case Nil
  show "\<exists>sp. threads (m_k (push_frame tr [] ms)) tr = (threads (m_k ms) tr)\<lparr>t_stack := sp\<rparr>"
    by (rule exI [of _ "t_stack (threads (m_k ms) tr)"]) simp
qed (auto simp: pushl_def Let_def with_k_def)

lemma alloc_pages_total: "0 < sint n \<Longrightarrow> \<exists>a ph. alloc_pages n ms = Some (a, ms\<lparr>m_pg := (m_pg ms)\<lparr>pg_phys := ph\<rparr>\<rparr>)"
proof -
  assume "0 < sint n"
  then obtain a ph where "memory_alloc (pg_phys (m_pg ms)) (sint n) = Some (a, ph)"
    by (cases "memory_alloc (pg_phys (m_pg ms)) (sint n)") (auto simp: memory_alloc_def)
  then show ?thesis by (auto simp: alloc_pages_def)
qed

lemma length_first_frame: "length (first_frame type stack_user entry data1 data2 data3 data4) = 17"
  by (simp add: first_frame_def)

text \<open>The stack of the thread: one page is left unmapped below it.\<close>

lemma thread_stack_run:
  assumes "aligned found" "vpage sK_BASE \<le> vpage found" "vpage found < vpage sK_CEILING"
  shows "found + (sK_PAGES_THREAD + 1) * PAGE_BYTES - sK_PAGES_THREAD * PAGE_BYTES = found + of_nat 1 * of_nat PAGE_SIZE"
    "vpage (found + of_nat 1 * of_nat PAGE_SIZE) = vpage found + 1" "user_run (found + of_nat 1 * of_nat PAGE_SIZE) 10"
proof -
  show "found + (sK_PAGES_THREAD + 1) * PAGE_BYTES - sK_PAGES_THREAD * PAGE_BYTES = found + of_nat 1 * of_nat PAGE_SIZE"
    by (simp add: sK_PAGES_THREAD_def PAGE_BYTES_def PAGE_SIZE_def)
  have "vpage found + 1 < 1048576" using assms(3) by (simp add: user_window)
  note r = run_page [OF assms(1) this]
  then show "vpage (found + of_nat 1 * of_nat PAGE_SIZE) = vpage found + 1" by blast
  then show "user_run (found + of_nat 1 * of_nat PAGE_SIZE) 10" using r assms(2,3) by (simp only: user_run_def user_window) simp
qed

lemma new_thread_stack:
  assumes "pt_inv (m_pg ms) (m_map ms proc)" "avail (pg_phys (m_pg ms)) 30"
    and "page_find_free (m_pg ms) (m_map ms proc) sK_BASE sK_CEILING (sK_PAGES_THREAD + 1) = Some found" "found \<noteq> 0"
  shows "\<exists>us. user_ensure mal (uspace_of ms proc) (found + (sK_PAGES_THREAD + 1) * PAGE_BYTES - sK_PAGES_THREAD * PAGE_BYTES) sK_PAGES_THREAD =
    Some (0, us) \<and> us_map us = m_map ms proc"
proof -
  have f: "aligned found \<and> vpage sK_BASE \<le> vpage found \<and> vpage found < vpage sK_CEILING \<and>
    (\<forall>v. vpage found \<le> v \<and> v < vpage found + unat (sK_PAGES_THREAD + 1) \<longrightarrow> xlat (m_pg ms) (m_map ms proc) v = None)"
    using page_find_free_ok [of sK_CEILING sK_BASE "sK_PAGES_THREAD + 1" "m_pg ms" "m_map ms proc"] assms(3,4)
    by (auto simp: user_window sK_PAGES_THREAD_def)
  then have al: "aligned found" "vpage sK_BASE \<le> vpage found" "vpage found < vpage sK_CEILING" by auto
  note r = thread_stack_run [OF al]
  have "xlat (m_pg ms) (m_map ms proc) v = None" if "vpage found + 1 \<le> v" "v < vpage found + 1 + 10" for v
    using f that by (simp add: sK_PAGES_THREAD_def)
  then show ?thesis
    unfolding r(1) using user_ensure_ok [of "uspace_of ms proc" sK_PAGES_THREAD 10, OF _ _ _ r(3), of mal] assms(1,2)
    unfolding r(2) by (auto simp: uspace_of_def sK_PAGES_THREAD_def)
qed

text \<open>
  There is room for one more thread: small ids, space in the table, thirty frames, and eleven free pages in
  the address space, at \<open>found\<close>.
\<close>

definition can_create :: "mstate \<Rightarrow> addr \<Rightarrow> nat \<Rightarrow> u32 \<Rightarrow> bool" where
  "can_create ms proc n found \<longleftrightarrow>
     0 < p_last_tid (procs (m_k ms) proc) \<and> p_last_tid (procs (m_k ms) proc) + int n \<le> 2 ^ 23 \<and>
     ht_total (p_threads_htable (procs (m_k ms) proc)) < ht_size (p_threads_htable (procs (m_k ms) proc)) \<and>
     ht_size (p_threads_htable (procs (m_k ms) proc)) \<le> 2 ^ 22 \<and>
     pt_inv (m_pg ms) (m_map ms proc) \<and> avail (pg_phys (m_pg ms)) 30 \<and>
     page_find_free (m_pg ms) (m_map ms proc) sK_BASE sK_CEILING (sK_PAGES_THREAD + 1) = Some found \<and> found \<noteq> 0"

text \<open>All of \<open>new_thread\<close> up to the linking: the thread is filled in, nothing else of the process has changed.\<close>

lemma new_thread_prepared:
  assumes inv: "thread_inv (m_k ms) proc ts" and tr: "tr \<notin> set ts" and can: "can_create ms proc (length ts) found"
  shows "\<exists>d ms8. new_thread (Some tr) mal mem ms type proc parent name entry data1 data2 data3 data4 =
      do { k \<leftarrow> link_thread mem proc parent tr (m_k ms8); Some (d, ms8\<lparr>m_k := k\<rparr>) } \<and>
    d \<notin> tids (m_k ms) proc \<and> thread_inv (m_k ms8) proc ts \<and> can_link (m_k ms8) proc ts tr \<and>
    t_tid (threads (m_k ms8) tr) = d \<and> t_state (threads (m_k ms8) tr) = THREAD_SUSPENDED \<and>
    t_stack (threads (m_k ms8) tr) = t_stack_kernel (threads (m_k ms8) tr) - 4 * 17 \<and>
    (\<forall>i<17. pg_mem (m_pg ms8) (t_stack_kernel (threads (m_k ms8) tr) - 4 * of_nat (Suc i)) =
       first_frame type (found + (sK_PAGES_THREAD + 1) * PAGE_BYTES) entry data1 data2 data3 data4 ! i)"
proof -
  have tid: "0 < p_last_tid (procs (m_k ms) proc)" "p_last_tid (procs (m_k ms) proc) + int (length ts) \<le> 2 ^ 23"
    and room: "ht_total (p_threads_htable (procs (m_k ms) proc)) < ht_size (p_threads_htable (procs (m_k ms) proc))"
      "ht_size (p_threads_htable (procs (m_k ms) proc)) \<le> 2 ^ 22"
    and pt: "pt_inv (m_pg ms) (m_map ms proc)" "avail (pg_phys (m_pg ms)) 30"
    and found: "page_find_free (m_pg ms) (m_map ms proc) sK_BASE sK_CEILING (sK_PAGES_THREAD + 1) = Some found" "found \<noteq> 0"
    using can by (simp_all add: can_create_def)
  define ms1 where "ms1 = with_k (upd_thread tr (\<lambda>t. t\<lparr>t_name := strncpy (t_name t) name NAME_LENGTH\<rparr>)) ms"
  have i1: "thread_inv (m_k ms1) proc ts \<and> tids (m_k ms1) proc = tids (m_k ms) proc"
    by (rule thread_inv_frame [OF inv tr]) (simp_all add: ms1_def with_k_def)
  have p1: "procs (m_k ms1) = procs (m_k ms)" "m_pg ms1 = m_pg ms" "m_map ms1 = m_map ms" by (simp_all add: ms1_def with_k_def)
  have len: "length (thread_addrs (m_k ms1) proc) = length ts" using i1 unfolding thread_inv_def by (metis size_mset)
  obtain d where d: "next_tid (m_k ms1) proc = Some (d, upd_proc proc (\<lambda>p. p\<lparr>p_last_tid := d + 1\<rparr>) (m_k ms1))"
    "0 < d" "d \<le> 2 ^ 23" "d \<notin> tids (m_k ms) proc"
    using next_tid_ok [of "m_k ms1" proc] i1 tid unfolding p1 len by (fastforce simp: thread_inv_def port_inv_def)
  define ms2 where "ms2 = ms1\<lparr>m_k := upd_thread tr (init_thread d proc) (upd_proc proc (\<lambda>p. p\<lparr>p_last_tid := d + 1\<rparr>) (m_k ms1))\<rparr>"
  define su where "su = found + (sK_PAGES_THREAD + 1) * PAGE_BYTES"
  define ms3 where "ms3 = with_k (upd_thread tr (\<lambda>t. t\<lparr>t_stack_user := su\<rparr>)) ms2"
  have p3: "m_pg ms3 = m_pg ms" "m_map ms3 = m_map ms" "m_pg ms2 = m_pg ms" "m_map ms2 = m_map ms"
    by (simp_all add: ms3_def ms2_def p1 with_k_def)
  obtain us where us: "user_ensure mal (uspace_of ms3 proc) (su - sK_PAGES_THREAD * PAGE_BYTES) sK_PAGES_THREAD = Some (0, us)"
    using new_thread_stack [of ms3 proc found mal] pt found unfolding p3 su_def by blast
  define ms4 where "ms4 = put_uspace proc us ms3"
  obtain kst ph5 where a5: "alloc_pages sK_PAGES_KERNEL ms4 = Some (kst, ms4\<lparr>m_pg := (m_pg ms4)\<lparr>pg_phys := ph5\<rparr>\<rparr>)"
    using alloc_pages_total [of sK_PAGES_KERNEL ms4] by (auto simp: sK_PAGES_KERNEL_def)
  define sk where "sk = kst + sK_PAGES_KERNEL * PAGE_BYTES"
  define ms5 where "ms5 = with_k (upd_thread tr (\<lambda>t. t\<lparr>t_stack_kernel := sk, t_cpu := -1, t_cpu_affinity := -1, t_fast_queued := 0,
    t_interrupts_disabled := 0, t_rc := 0\<rparr>)) (ms4\<lparr>m_pg := (m_pg ms4)\<lparr>pg_phys := ph5\<rparr>\<rparr>)"
  obtain tls ph6 where a6: "alloc_pages 1 ms5 = Some (tls, ms5\<lparr>m_pg := (m_pg ms5)\<lparr>pg_phys := ph6\<rparr>\<rparr>)"
    using alloc_pages_total [of 1 ms5] by auto
  define ms6 where "ms6 = ms5\<lparr>m_pg := (m_pg ms5)\<lparr>pg_phys := ph6\<rparr>, m_tls := (m_tls ms5)(tr := tls)\<rparr>"
  obtain math ph7 where a7: "alloc_pages 1 ms6 = Some (math, ms6\<lparr>m_pg := (m_pg ms6)\<lparr>pg_phys := ph7\<rparr>\<rparr>)"
    using alloc_pages_total [of 1 ms6] by auto
  define ms7 where "ms7 = with_k (upd_thread tr (\<lambda>t. t\<lparr>t_math_state := -1, t_event_tid := -1, t_stack := sk\<rparr>))
    (ms6\<lparr>m_pg := (m_pg ms6)\<lparr>pg_phys := ph7\<rparr>, m_math := (m_math ms6)(tr := math)\<rparr>)"
  define ws where "ws = first_frame type su entry data1 data2 data3 data4"
  define ms8 where "ms8 = push_frame tr ws ms7"
  have k7: "\<And>a. a \<noteq> tr \<Longrightarrow> threads (m_k ms7) a = threads (m_k ms) a" "tlist (m_k ms7) = tlist (m_k ms)"
    "procs (m_k ms7) = (procs (m_k ms))(proc := (procs (m_k ms) proc)\<lparr>p_last_tid := d + 1\<rparr>)"
    by (simp_all add: ms7_def ms6_def ms5_def ms4_def ms3_def ms2_def ms1_def with_k_def put_uspace_def)
  have t7: "t_tid (threads (m_k ms7) tr) = d" "t_process (threads (m_k ms7) tr) = Some proc" "t_state (threads (m_k ms7) tr) = THREAD_SUSPENDED"
    "t_stack_kernel (threads (m_k ms7) tr) = sk" "t_stack (threads (m_k ms7) tr) = sk" "\<forall>i<MAX_PORTS. t_ports (threads (m_k ms7) tr) i = -1"
    by (simp_all add: ms7_def ms6_def ms5_def ms4_def ms3_def ms2_def ms1_def with_k_def put_uspace_def init_thread_def)
  obtain sp where sp: "threads (m_k ms8) tr = (threads (m_k ms7) tr)\<lparr>t_stack := sp\<rparr>" unfolding ms8_def using push_frame_keeps(5) by blast
  have i8: "thread_inv (m_k ms8) proc ts \<and> tids (m_k ms8) proc = tids (m_k ms) proc"
    by (rule thread_inv_frame [OF inv tr]) (simp_all add: ms8_def push_frame_keeps k7)
  have "can_link (m_k ms8) proc ts tr"
    using tr room i8 d(2-4) t7 sp by (simp add: can_link_def tid_small_def ms8_def push_frame_keeps k7)
  moreover have "new_thread (Some tr) mal mem ms type proc parent name entry data1 data2 data3 data4 =
      do { k \<leftarrow> link_thread mem proc parent tr (m_k ms8); Some (d, ms8\<lparr>m_k := k\<rparr>) }"
    using d(1) us found(1) a5 a6 a7
    by (simp add: new_thread_def Let_def ms1_def [symmetric] ms2_def [symmetric] su_def [symmetric] ms3_def [symmetric] p1 p3 ms4_def [symmetric]
        sk_def [symmetric] ms5_def [symmetric] ms6_def [symmetric] ms7_def [symmetric] ws_def [symmetric] ms8_def [symmetric])
  moreover have "t_stack (threads (m_k ms8) tr) = sk - 4 * 17 \<and> (\<forall>i<17. pg_mem (m_pg ms8) (sk - 4 * of_nat (Suc i)) = ws ! i)"
    using push_frame_words [of ws ms7 tr sk] t7(5) unfolding ms8_def ws_def length_first_frame by simp
  ultimately show ?thesis
    by (intro exI [of _ d] exI [of _ ms8] conjI) (use i8 d(4) sp t7 in \<open>simp_all add: ws_def su_def\<close>)
qed

subsection \<open>Deletion\<close>

lemma unlink_inner:
  assumes "dlist (tlist k) (xs @ tr # ys)" "xs \<noteq> []" "p_threads (procs k proc) = fhead (xs @ tr # ys)"
    and "kids (tfam k) pt (as @ tr # bs)" "kids (tfam k) tr cs" "pt \<noteq> tr"
  shows "\<exists>f l. unlink_thread proc tr k = Some (k\<lparr>tfam := f, tlist := l\<rparr>) \<and> dlist l (xs @ ys) \<and> kids f pt (rev cs @ as @ bs) \<and> kids f tr []"
proof -
  have fp: "fparent (tfam k tr) = Some pt" using assms(4) by (simp add: kids_def)
  obtain f where f: "family_adopt pt tr (tfam k) = Some f" "kids f pt (rev cs @ as @ tr # bs)" "kids f tr []"
    using family_adopt_kids [OF assms(4,5,6)] by blast
  have k: "kids (family_remove tr f) pt (rev cs @ as @ bs)" "kids (family_remove tr f) tr []"
    using kids_remove [of f pt "rev cs @ as" tr bs] kids_remove_other [of f pt "rev cs @ as" tr bs tr "[]"] f(2,3) assms(6) by auto
  have "p_threads (procs k proc) \<noteq> Some tr" using assms(1-3) by (cases xs) (auto simp: fhead_def dlist_def)
  then have "unlink_thread proc tr k = Some (k\<lparr>tfam := family_remove tr f, tlist := list_remove tr (tlist k)\<rparr>)"
    using fp f(1) by (simp add: unlink_thread_def Let_def)
  then show ?thesis using k dlist_remove(1) [OF assms(1)] by blast
qed

lemma get_thread_none_iff:
  assumes "threads_ok k proc" "tid_small tid"
  shows "get_thread k proc tid = Some None \<longleftrightarrow> tid \<notin> tids k proc"
proof -
  obtain r where r: "get_thread k proc tid = Some r" "\<And>a. r = Some a \<longleftrightarrow> a \<in> set (thread_addrs k proc) \<and> t_tid (threads k a) = tid"
    using get_thread_iff [OF assms] by blast
  have "r = None \<longleftrightarrow> tid \<notin> tids k proc" using r(2) unfolding tids_def by (metis (no_types, lifting) image_iff not_Some_eq)
  then show ?thesis using r(1) by simp
qed

text \<open>A thread without ports leaves the table.\<close>

lemma port_inv_leave:
  assumes inv: "port_inv k proc" and tr: "tr \<in> set (thread_addrs k proc)" "port_list (threads k tr) = []"
    and "threads k' = threads k" "p_ipc (procs k' proc) = p_ipc (procs k proc)"
    and "ht_ready (tkey k) (p_threads_htable (procs k' proc))" "mset (thread_addrs k' proc) = mset (thread_addrs k proc) - {#tr#}"
  shows "port_inv k' proc \<and> t_tid (threads k tr) \<notin> tids k' proc"
proof -
  let ?tid = "\<lambda>a. t_tid (threads k a)"
  have tok: "threads_ok k proc" using inv by (simp add: port_inv_def)
  then have d: "distinct (map ?tid (thread_addrs k proc))" by (simp add: threads_ok_def)
  then have dt: "distinct (thread_addrs k proc)" by (simp add: distinct_map)
  then have m': "mset (thread_addrs k' proc) = mset (remove1 tr (thread_addrs k proc))" using assms(7) by simp
  then have set: "set (thread_addrs k' proc) = set (thread_addrs k proc) - {tr}" using dt by (metis set_mset_mset set_remove1_eq)
  have "mset (map ?tid (thread_addrs k' proc)) = mset (map ?tid (remove1 tr (thread_addrs k proc)))" using m' by simp
  moreover have "distinct (map ?tid (remove1 tr (thread_addrs k proc)))"
    using d dt by (auto simp: distinct_map intro: inj_on_subset dest: notin_set_remove1)
  ultimately have "distinct (map ?tid (thread_addrs k' proc))" by (metis mset_eq_imp_distinct_iff)
  moreover have "tkey k' = tkey k" by (simp add: tkey_def fun_eq_iff assms(4))
  ultimately have tok': "threads_ok k' proc" using tok set assms(4,6) by (simp add: threads_ok_def)
  have uniq: "a \<in> set (thread_addrs k proc) \<Longrightarrow> ?tid a = ?tid tr \<Longrightarrow> a = tr" for a
    using d tr(1) by (auto simp: distinct_map inj_on_def)
  have no: "ipc_tid (ipc k proc p) \<noteq> ?tid tr" if "p < MAX_PORTS" for p
    using inv tr that unfolding port_inv_def by (metis empty_iff empty_set)
  have "ipc_tid (ipc k proc p) = -1 \<or> ipc_tid (ipc k proc p) \<in> ?tid ` (set (thread_addrs k proc) - {tr}) \<and> block_ok (ipc k proc p)"
    if "p < MAX_PORTS" for p using inv no [OF that] that unfolding port_inv_def by blast
  then have "port_inv k' proc"
    using inv tok' unfolding port_inv_def set assms(4,5) by simp
  moreover have "?tid tr \<notin> tids k' proc" using uniq unfolding tids_def set assms(4) by auto
  ultimately show ?thesis by blast
qed

text \<open>
  The memory of a thread: two frames of kernel stack from \<open>b\<close> on, one for the FPU (\<open>m\<close>), one for local storage
  (\<open>l\<close>) and those of its user stack, none of which serves anything else.
\<close>

definition user_stack :: "mstate \<Rightarrow> addr \<Rightarrow> u32" where
  "user_stack ms tr = t_stack_user (threads (m_k ms) tr) - sK_PAGES_THREAD * PAGE_BYTES"

definition stack_frames :: "mstate \<Rightarrow> addr \<Rightarrow> addr \<Rightarrow> nat set" where
  "stack_frames ms proc tr = run_frames (m_pg ms) (m_map ms proc) (vpage (user_stack ms tr)) 10"

definition thread_mem :: "mstate \<Rightarrow> addr \<Rightarrow> addr \<Rightarrow> nat \<Rightarrow> nat \<Rightarrow> nat \<Rightarrow> bool" where
  "thread_mem ms proc tr b m l \<longleftrightarrow> pt_inv (m_pg ms) (m_map ms proc) \<and>
     t_stack_kernel (threads (m_k ms) tr) = of_nat (b * PAGE_SIZE) + sK_PAGES_KERNEL * PAGE_BYTES \<and>
     m_math ms tr = of_nat (m * PAGE_SIZE) \<and> m_tls ms tr = of_nat (l * PAGE_SIZE) \<and>
     b + 2 \<le> MAXMAP \<and> m < MAXMAP \<and> l < MAXMAP \<and> m \<notin> {b, Suc b} \<and> l \<notin> {b, Suc b, m} \<and>
     (\<forall>p\<in>{b, Suc b, m, l}. ISSET (pg_phys (m_pg ms)) p \<and> p \<notin> base_frames (m_pg ms) (m_map ms proc) \<and> p \<notin> stack_frames ms proc tr) \<and>
     user_run (user_stack ms tr) 10 \<and> own_frames (m_pg ms) (m_map ms proc) (vpage (user_stack ms tr)) 10"

lemma free_at_ok:
  assumes "b + n \<le> MAXMAP" "0 < n" "sint pages = int n" "\<And>p. b \<le> p \<Longrightarrow> p < b + n \<Longrightarrow> ISSET (pg_phys (m_pg ms)) p"
  shows "\<exists>ph. free_at pages (of_nat (b * PAGE_SIZE)) ms = Some (ms\<lparr>m_pg := (m_pg ms)\<lparr>pg_phys := ph\<rparr>\<rparr>) \<and>
    (\<forall>p. ISSET ph p \<longleftrightarrow> ISSET (pg_phys (m_pg ms)) p \<and> \<not> (b \<le> p \<and> p < b + n))"
  using memory_free_ok [OF assms(1,2,4)] assms(3) by (auto simp: free_at_def)

lemma own_frames_phys:
  assumes "own_frames st dir v n" "\<And>p. p \<in> run_frames st dir v n \<Longrightarrow> ISSET ph p"
  shows "own_frames (st\<lparr>pg_phys := ph\<rparr>) dir v n" "run_frames (st\<lparr>pg_phys := ph\<rparr>) dir v n = run_frames st dir v n"
proof -
  have f: "frame_at (st\<lparr>pg_phys := ph\<rparr>) dir w = frame_at st dir w" for w by (simp add: frame_at_def xlat_def tabs_def)
  show "run_frames (st\<lparr>pg_phys := ph\<rparr>) dir v n = run_frames st dir v n" by (simp add: run_frames_def f)
  show "own_frames (st\<lparr>pg_phys := ph\<rparr>) dir v n"
    using assms unfolding own_frames_def f run_frames_def by (simp) blast
qed

lemma thread_mem_freed:
  assumes "thread_mem ms proc tr b m l"
  shows "\<exists>ms'. free_thread_memory proc tr ms = Some ms' \<and>
    (\<exists>f. m_k ms' = upd_thread tr f (m_k ms) \<and> (\<forall>t. t_tid (f t) = t_tid t)) \<and>
    (\<forall>p. ISSET (pg_phys (m_pg ms')) p \<longleftrightarrow> ISSET (pg_phys (m_pg ms)) p \<and> p \<notin> {b, Suc b, m, l} \<union> stack_frames ms proc tr)"
proof -
  let ?dir = "m_map ms proc" and ?su = "user_stack ms tr"
  have M: "pt_inv (m_pg ms) ?dir" "t_stack_kernel (threads (m_k ms) tr) = of_nat (b * PAGE_SIZE) + sK_PAGES_KERNEL * PAGE_BYTES"
    "m_math ms tr = of_nat (m * PAGE_SIZE)" "m_tls ms tr = of_nat (l * PAGE_SIZE)" "b + 2 \<le> MAXMAP" "m < MAXMAP" "l < MAXMAP"
    "m \<notin> {b, Suc b}" "l \<notin> {b, Suc b, m}" "user_run ?su 10" "own_frames (m_pg ms) ?dir (vpage ?su) 10"
    and R: "\<And>p. p \<in> {b, Suc b, m, l} \<Longrightarrow> ISSET (pg_phys (m_pg ms)) p \<and> p \<notin> base_frames (m_pg ms) ?dir \<and> p \<notin> stack_frames ms proc tr"
    using assms unfolding thread_mem_def by blast+
  define ms1 where "ms1 = with_k (upd_thread tr (\<lambda>t. t\<lparr>t_stack_kernel := t_stack_kernel t - sK_PAGES_KERNEL * PAGE_BYTES\<rparr>)) ms"
  have m1: "m_pg ms1 = m_pg ms" "m_map ms1 = m_map ms" "m_math ms1 = m_math ms" "m_tls ms1 = m_tls ms"
    "t_stack_kernel (threads (m_k ms1) tr) = of_nat (b * PAGE_SIZE)" "t_stack_user (threads (m_k ms1) tr) = t_stack_user (threads (m_k ms) tr)"
    using M(2) by (simp_all add: ms1_def with_k_def)
  have b2: "p = b \<or> p = Suc b" if "b \<le> p" "p < b + 2" for p using that by auto
  have kb: "ISSET (pg_phys (m_pg ms1)) p" if "b \<le> p" "p < b + 2" for p using b2 [OF that] R [of p] unfolding m1 by auto
  obtain ph1 where ph1: "free_at sK_PAGES_KERNEL (of_nat (b * PAGE_SIZE)) ms1 = Some (ms1\<lparr>m_pg := (m_pg ms)\<lparr>pg_phys := ph1\<rparr>\<rparr>)"
    "\<And>p. ISSET ph1 p \<longleftrightarrow> ISSET (pg_phys (m_pg ms)) p \<and> \<not> (b \<le> p \<and> p < b + 2)"
    using free_at_ok [of b 2 sK_PAGES_KERNEL ms1, OF M(5) _ _ kb] unfolding m1 by (auto simp: sK_PAGES_KERNEL_def)
  define ms2 where "ms2 = with_k (upd_thread tr (\<lambda>t. t\<lparr>t_stack_user := t_stack_user t - sK_PAGES_THREAD * PAGE_BYTES\<rparr>)) (ms1\<lparr>m_pg := (m_pg ms)\<lparr>pg_phys := ph1\<rparr>\<rparr>)"
  have m2: "m_pg ms2 = (m_pg ms)\<lparr>pg_phys := ph1\<rparr>" "m_map ms2 = m_map ms" "m_math ms2 = m_math ms" "m_tls ms2 = m_tls ms"
    "t_stack_user (threads (m_k ms2) tr) = ?su" by (simp_all add: ms2_def m1 with_k_def user_stack_def)
  have pt1: "pt_inv ((m_pg ms)\<lparr>pg_phys := ph1\<rparr>) ?dir"
    by (rule pt_inv_keep [OF M(1)]) (use ph1(2) R [of b] R [of "Suc b"] b2 base_frames_ISSET [OF M(1)] in blast)
  have iss: "ISSET ph1 p" if "p \<in> run_frames (m_pg ms) ?dir (vpage ?su) 10" for p
  proof -
    have "ISSET (pg_phys (m_pg ms)) p" using that own_framesD [OF M(11)] unfolding run_frames_def by blast
    moreover have "p \<noteq> b" "p \<noteq> Suc b" using that R [of b] R [of "Suc b"] unfolding stack_frames_def by auto
    ultimately show ?thesis using b2 [of p] unfolding ph1(2) by blast
  qed
  note of1 = own_frames_phys [OF M(11) iss]
  obtain pg where pg: "page_map_out ((m_pg ms)\<lparr>pg_phys := ph1\<rparr>) ?dir ?su (int 10) = Some (0, pg)"
    "\<And>p. ISSET (pg_phys pg) p \<longleftrightarrow> ISSET ph1 p \<and> p \<notin> stack_frames ms proc tr"
    using page_map_out_loop_ok [OF pt1 M(10) of1(1)] of1(2) unfolding stack_frames_def page_map_out_def by auto
  have "ISSET (pg_phys pg) m" "ISSET (pg_phys pg) l" using pg(2) ph1(2) R [of m] R [of l] M(8,9) b2 by blast+
  then obtain ph2 where ph2: "free_at 1 (of_nat (m * PAGE_SIZE)) (ms2\<lparr>m_pg := pg\<rparr>) = Some (ms2\<lparr>m_pg := pg\<lparr>pg_phys := ph2\<rparr>\<rparr>)"
    "\<And>p. ISSET ph2 p \<longleftrightarrow> ISSET (pg_phys pg) p \<and> p \<noteq> m" "ISSET ph2 l"
    using free_at_ok [of m 1 1 "ms2\<lparr>m_pg := pg\<rparr>"] M(6,9) by (fastforce simp: less_Suc_eq_le)
  then obtain ph3 where ph3: "free_at 1 (of_nat (l * PAGE_SIZE)) (ms2\<lparr>m_pg := pg\<lparr>pg_phys := ph2\<rparr>\<rparr>) = Some (ms2\<lparr>m_pg := pg\<lparr>pg_phys := ph3\<rparr>\<rparr>)"
    "\<And>p. ISSET ph3 p \<longleftrightarrow> ISSET ph2 p \<and> p \<noteq> l"
    using free_at_ok [of l 1 1 "ms2\<lparr>m_pg := pg\<lparr>pg_phys := ph2\<rparr>\<rparr>"] M(7) by (fastforce simp: less_Suc_eq_le)
  show ?thesis
  proof (intro exI [of _ "ms2\<lparr>m_pg := pg\<lparr>pg_phys := ph3\<rparr>\<rparr>"] conjI)
    show "\<exists>f. m_k (ms2\<lparr>m_pg := pg\<lparr>pg_phys := ph3\<rparr>\<rparr>) = upd_thread tr f (m_k ms) \<and> (\<forall>t. t_tid (f t) = t_tid t)"
      by (rule exI [of _ "\<lambda>t. t\<lparr>t_stack_kernel := t_stack_kernel t - sK_PAGES_KERNEL * PAGE_BYTES, t_stack_user := t_stack_user t - sK_PAGES_THREAD * PAGE_BYTES\<rparr>"])
        (simp add: ms2_def ms1_def with_k_def upd_thread_def)
    show "\<forall>p. ISSET (pg_phys (m_pg (ms2\<lparr>m_pg := pg\<lparr>pg_phys := ph3\<rparr>\<rparr>))) p \<longleftrightarrow>
      ISSET (pg_phys (m_pg ms)) p \<and> p \<notin> {b, Suc b, m, l} \<union> stack_frames ms proc tr"
      using ph3(2) ph2(2) pg(2) ph1(2) b2 by (simp add: less_Suc_eq_le) fastforce
  qed (use ph1(1) pg(1) ph2(1) ph3(1) M(3,4) in \<open>simp add: free_thread_memory_def ms1_def [symmetric] m1 ms2_def [symmetric] m2 Let_def, simp add: sK_PAGES_THREAD_def m2\<close>)
qed

lemma thread_mem_frame:
  assumes "thread_mem ms proc tr b m l" "threads k' tr = threads (m_k ms) tr"
  shows "thread_mem (ms\<lparr>m_k := k'\<rparr>) proc tr b m l" "stack_frames (ms\<lparr>m_k := k'\<rparr>) proc tr = stack_frames ms proc tr"
  using assms by (simp_all add: thread_mem_def stack_frames_def user_stack_def)

lemma table_leave:
  assumes "ht_ready key t" "x \<in># mset (ht_list t)"
  shows "\<exists>t'. htable_remove flag key t x = Some (0, t') \<and> ht_ready key t' \<and> mset (ht_list t') = mset (ht_list t) - {#x#}"
proof -
  obtain t' where t': "map_option snd (htable_remove flag key t x) = Some t'" "ht_ready key t'" "mset (ht_list t') = mset (ht_list t) - {#x#}"
    using ht.del_ok [OF assms, of flag] by blast
  have "\<exists>t2. htable_remove flag key t x = Some (0, t2)"
    using htable_remove_ok [of t x key flag] assms key_small_fits by (fastforce simp: ht_ready_def ht_fits_def)
  then show ?thesis using t' by auto
qed

text \<open>The threads without parent, in sibling order.\<close>

definition roots :: "fam_store \<Rightarrow> addr list \<Rightarrow> bool" where
  "roots f rs \<longleftrightarrow> distinct rs \<and> dseg (\<lambda>a. sibling_next (f a)) (\<lambda>a. sibling_prev (f a)) None rs None \<and> (\<forall>x\<in>set rs. fparent (f x) = None)"

lemma roots_kids_disjoint: "roots f rs \<Longrightarrow> kids f p cs \<Longrightarrow> set rs \<inter> set cs = {}"
  by (auto simp: roots_def kids_def)

lemma orphan_one:
  assumes "kids f h (c # cs)" "roots f (h # rs)"
  shows "kids (family_add_sibling h c (family_remove c f)) h cs" "roots (family_add_sibling h c (family_remove c f)) (h # c # rs)"
proof -
  let ?g = "family_remove c f"
  have dj: "set (h # rs) \<inter> set (c # cs) = {}" by (rule roots_kids_disjoint [OF assms(2,1)])
  have k: "kids ?g h cs" "detached ?g c" using kids_remove [of f h "[]" c cs] assms(1) by simp_all
  note l = family_remove_links [of f h "[]" c cs, simplified, OF assms(1)]
  have same: "sibling_next (?g a) = sibling_next (f a) \<and> sibling_prev (?g a) = sibling_prev (f a) \<and> fparent (?g a) = fparent (f a)"
    if "a \<in> set (h # rs)" for a using that dj hd_in_set [of cs] by (auto simp: l)
  have sn: "sibling_next (?g h) = fhead rs" using same [of h] assms(2) by (simp add: roots_def fhead_def)
  have s: "sibling_next (family_add_sibling h c ?g a) = (if a = h then Some c else if a = c then fhead rs else sibling_next (?g a))"
    "sibling_prev (family_add_sibling h c ?g a) = (if a = c then Some h else if rs \<noteq> [] \<and> a = hd rs then Some c else sibling_prev (?g a))"
    "fparent (family_add_sibling h c ?g a) = (if a = c then fparent (?g h) else fparent (?g a))"
    "fchild (family_add_sibling h c ?g a) = fchild (?g a)" for a
    using sn dj by (cases rs; auto simp: family_add_sibling_def Let_def fhead_def)+
  have "c \<notin> set cs" using assms(1) by (simp add: kids_def)
  then have "a \<in> set cs \<Longrightarrow> a \<noteq> h \<and> a \<noteq> c \<and> (rs \<noteq> [] \<longrightarrow> a \<noteq> hd rs)" for a using dj hd_in_set [of rs] by (auto simp: disjoint_iff)
  then show "kids (family_add_sibling h c ?g) h cs" by (intro kids_frame [OF k(1)]) (auto simp: s)
  have ne: "c \<notin> set (h # rs)" using dj by auto
  show "roots (family_add_sibling h c ?g) (h # c # rs)"
    using assms(2) same ne by (cases rs) (auto simp: roots_def s fhead_def elim!: dseg_frame)
qed

lemma orphan_loop_ok:
  assumes "kids f h cs" "roots f (h # rs)"
  shows "\<exists>f'. orphan_loop h f = Some f' \<and> kids f' h [] \<and> roots f' (h # rev cs @ rs)"
  using assms
proof (induction cs arbitrary: f rs)
  case Nil
  then show ?case by (subst orphan_loop.simps) (simp add: kids_def fhead_def)
next
  case (Cons c cs)
  have "fchild (f h) = Some c" using Cons(2) by (simp add: kids_def fhead_def)
  then have "orphan_loop h f = orphan_loop h (family_add_sibling h c (family_remove c f))" by (subst orphan_loop.simps) simp
  then show ?case using Cons(1) [OF orphan_one [OF Cons(2,3)]] by simp
qed

lemma unlink_first:
  assumes "dlist (tlist k) (h # ts)" "p_threads (procs k proc) = Some h" "kids (tfam k) h cs" "roots (tfam k) (h # rs)"
  shows "\<exists>f. unlink_thread proc h k = Some (upd_proc proc (\<lambda>p. p\<lparr>p_threads := fhead (rev cs @ rs)\<rparr>)
      (k\<lparr>tfam := f, tlist := list_remove h (tlist k)\<rparr>)) \<and> dlist (list_remove h (tlist k)) ts"
proof -
  have fp: "fparent (tfam k h) = None" using assms(4) by (simp add: roots_def)
  obtain f where f: "orphan_loop h (tfam k) = Some f" "roots f (h # rev cs @ rs)" using orphan_loop_ok [OF assms(3,4)] by blast
  have n: "sibling_next (f h) = fhead (rev cs @ rs)" using f(2) by (simp add: roots_def fhead_def)
  have "sibling_prev (family_remove h f h) = None" by (simp add: family_remove_def Let_def)
  then have "unlink_thread proc h k = Some (upd_proc proc (\<lambda>p. p\<lparr>p_threads := fhead (rev cs @ rs)\<rparr>)
      (k\<lparr>tfam := family_remove h f, tlist := list_remove h (tlist k)\<rparr>))"
    using fp f(1) n assms(2) by (simp add: unlink_thread_def Let_def)
  then show ?thesis using dlist_remove(1) [of "tlist k" "[]" h ts] assms(1) by auto
qed

text \<open>The beginning of \<open>delete_thread\<close> for a thread without ports, and its end once the thread is unlinked.\<close>

lemma delete_thread_start:
  assumes inv: "port_inv (m_k ms) proc" and tin: "tr \<in> set (thread_addrs (m_k ms) proc)" and ports: "port_list (threads (m_k ms) tr) = []"
  shows "\<exists>t. delete_thread flag ms tr =
      do { k \<leftarrow> unlink_thread proc tr (upd_proc proc (\<lambda>p. p\<lparr>p_thread_count := p_thread_count p - 1, p_threads_htable := t\<rparr>) (m_k ms));
           ms \<leftarrow> free_thread_memory proc tr (ms\<lparr>m_k := k\<rparr>); Some (0, ms) } \<and>
    ht_ready (tkey (m_k ms)) t \<and> mset (ht_list t) = mset (thread_addrs (m_k ms) proc) - {#tr#}"
proof -
  let ?k = "m_k ms"
  have ht: "ht_ready (tkey ?k) (p_threads_htable (procs ?k proc))" "t_process (threads ?k tr) = Some proc"
    using inv tin by (auto simp: port_inv_def threads_ok_def)
  have "tr \<in># mset (ht_list (p_threads_htable (procs ?k proc)))" using tin by (simp add: thread_addrs_def)
  from table_leave [OF ht(1) this, of flag] obtain t where
    t: "htable_remove flag (tkey ?k) (p_threads_htable (procs ?k proc)) tr = Some (0, t)" "ht_ready (tkey ?k) t"
    "mset (ht_list t) = mset (thread_addrs ?k proc) - {#tr#}" unfolding thread_addrs_def by blast
  have "port_count (threads ?k tr) = 0" using ports by (metis length_arr_list list.size(3) port_list_def)
  then have z: "t_ports (threads ?k tr) 0 = -1" using port_list_end [of "threads ?k tr"] by (simp add: MAX_PORTS_def)
  have rel: "release_thread_ports (upd_proc proc g ?k) tr = Some (0, upd_proc proc g ?k)" for g
    unfolding release_thread_ports_def by (subst release_ports_loop.simps) (simp add: z)
  have "delete_thread flag ms tr =
      do { k \<leftarrow> unlink_thread proc tr (upd_proc proc (\<lambda>p. p\<lparr>p_thread_count := p_thread_count p - 1, p_threads_htable := t\<rparr>) (m_k ms));
           ms \<leftarrow> free_thread_memory proc tr (ms\<lparr>m_k := k\<rparr>); Some (0, ms) }"
    using ht(2) t(1) rel by (simp add: delete_thread_def tkey_fun upd_proc_twice Let_def)
  then show ?thesis using t by blast
qed

lemma delete_thread_end:
  assumes inv: "thread_inv (m_k ms) proc ts" and tin: "tr \<in> set ts" "port_list (threads (m_k ms) tr) = []"
    and k2: "threads k2 = threads (m_k ms)" "p_ipc (procs k2 proc) = p_ipc (procs (m_k ms) proc)" "p_threads_htable (procs k2 proc) = t"
      "p_thread_count (procs k2 proc) = p_thread_count (procs (m_k ms) proc) - 1" "dlist (tlist k2) ts'" "p_threads (procs k2 proc) = fhead ts'"
    and t: "ht_ready (tkey (m_k ms)) t" "mset (ht_list t) = mset (thread_addrs (m_k ms) proc) - {#tr#}" and ts': "mset ts' = mset ts - {#tr#}"
    and mem: "thread_mem ms proc tr b m l"
  shows "\<exists>ms' g. free_thread_memory proc tr (ms\<lparr>m_k := k2\<rparr>) = Some ms' \<and> m_k ms' = upd_thread tr g k2 \<and>
    thread_inv (m_k ms') proc ts' \<and> get_thread (m_k ms') proc (t_tid (threads (m_k ms) tr)) = Some None \<and>
    (\<forall>p. ISSET (pg_phys (m_pg ms')) p \<longleftrightarrow> ISSET (pg_phys (m_pg ms)) p \<and> p \<notin> {b, Suc b, m, l} \<union> stack_frames ms proc tr)"
proof -
  let ?k = "m_k ms"
  have I: "port_inv ?k proc" "mset (thread_addrs ?k proc) = mset ts" "p_thread_count (procs ?k proc) = int (length ts)" using inv by (simp_all add: thread_inv_def)
  have tin': "tr \<in> set (thread_addrs ?k proc)" using I(2) tin(1) by (metis set_mset_mset)
  have len: "int (length ts') = int (length ts) - 1"
    using arg_cong [OF ts', of size] tin(1) by (simp add: size_Diff_singleton) (cases ts; simp)
  have "mset ts' = mset (remove1 tr ts)" "distinct ts" using ts' inv by (simp_all add: thread_inv_def dlist_def)
  then have ntr: "tr \<notin> set ts'" by (metis DiffD2 mset_eq_setD set_remove1_eq singletonI)
  have "thread_mem (ms\<lparr>m_k := k2\<rparr>) proc tr b m l" by (rule thread_mem_frame [OF mem]) (simp add: k2)
  from thread_mem_freed [OF this] obtain ms' g where
    ms': "free_thread_memory proc tr (ms\<lparr>m_k := k2\<rparr>) = Some ms'" "m_k ms' = upd_thread tr g k2"
    "\<forall>p. ISSET (pg_phys (m_pg ms')) p \<longleftrightarrow> ISSET (pg_phys (m_pg ms)) p \<and> p \<notin> {b, Suc b, m, l} \<union> stack_frames ms proc tr"
    using thread_mem_frame(2) [OF mem, of k2] k2(1) by auto
  have ta: "mset (thread_addrs k2 proc) = mset (thread_addrs ?k proc) - {#tr#}" using t(2) k2(3) by (simp add: thread_addrs_def)
  have pi: "port_inv k2 proc \<and> t_tid (threads ?k tr) \<notin> tids k2 proc"
    by (rule port_inv_leave [OF I(1) tin' tin(2)]) (use ta k2 t(1) in simp_all)
  have "thread_inv k2 proc ts'" using pi k2(4-6) ta I(2,3) ts' len by (simp add: thread_inv_def)
  then have fin: "thread_inv (m_k ms') proc ts' \<and> tids (m_k ms') proc = tids k2 proc"
    by (rule thread_inv_frame [OF _ ntr]) (simp_all add: ms'(2))
  have "get_thread (m_k ms') proc (t_tid (threads ?k tr)) = Some None"
    using get_thread_none_iff [of "m_k ms'" proc "t_tid (threads ?k tr)"] fin pi I(1) tin'
    by (simp add: thread_inv_def port_inv_def threads_ok_def)
  then show ?thesis using ms' fin by blast
qed

text \<open>Table, tree, list and locks of the processes are not touched.\<close>

definition same_procs :: "kstate \<Rightarrow> kstate \<Rightarrow> bool" where
  "same_procs k k' \<longleftrightarrow> l_processTable k' = l_processTable k \<and> l_rootProcess k' = l_rootProcess k \<and> l_processLock k' = l_processLock k \<and>
     pfam k' = pfam k \<and> plist k' = plist k \<and> (\<forall>a. p_pid (procs k' a) = p_pid (procs k a) \<and> p_lock (procs k' a) = p_lock (procs k a))"

lemma delete_thread_ok:
  assumes inv: "thread_inv (m_k ms) proc (xs @ tr # ys)" "xs \<noteq> []" and ports: "port_list (threads (m_k ms) tr) = []"
    and tree: "kids (tfam (m_k ms)) pt (as @ tr # bs)" "kids (tfam (m_k ms)) tr cs" "pt \<noteq> tr" and mem: "thread_mem ms proc tr b m l"
  shows "\<exists>ms'. delete_thread flag ms tr = Some (0, ms') \<and> thread_inv (m_k ms') proc (xs @ ys) \<and>
    get_thread (m_k ms') proc (t_tid (threads (m_k ms) tr)) = Some None \<and> kids (tfam (m_k ms')) pt (rev cs @ as @ bs) \<and>
    same_procs (m_k ms) (m_k ms') \<and> (\<forall>p. ISSET (pg_phys (m_pg ms')) p \<longleftrightarrow> ISSET (pg_phys (m_pg ms)) p \<and> p \<notin> {b, Suc b, m, l} \<union> stack_frames ms proc tr)"
proof -
  let ?k = "m_k ms" and ?ts = "xs @ tr # ys"
  have I: "port_inv ?k proc" "dlist (tlist ?k) ?ts" "p_threads (procs ?k proc) = fhead ?ts" "mset (thread_addrs ?k proc) = mset ?ts"
    using inv(1) by (simp_all only: thread_inv_def)
  have tin: "tr \<in> set (thread_addrs ?k proc)" using I(4) by (metis in_set_conv_decomp set_mset_mset)
  obtain t where t: "delete_thread flag ms tr =
      do { k \<leftarrow> unlink_thread proc tr (upd_proc proc (\<lambda>p. p\<lparr>p_thread_count := p_thread_count p - 1, p_threads_htable := t\<rparr>) ?k);
           ms \<leftarrow> free_thread_memory proc tr (ms\<lparr>m_k := k\<rparr>); Some (0, ms) }"
    "ht_ready (tkey ?k) t" "mset (ht_list t) = mset (thread_addrs ?k proc) - {#tr#}"
    using delete_thread_start [OF I(1) tin ports, of flag] by blast
  let ?k1 = "upd_proc proc (\<lambda>p. p\<lparr>p_thread_count := p_thread_count p - 1, p_threads_htable := t\<rparr>) ?k"
  obtain f lst where ul: "unlink_thread proc tr ?k1 = Some (?k1\<lparr>tfam := f, tlist := lst\<rparr>)" "dlist lst (xs @ ys)" "kids f pt (rev cs @ as @ bs)"
    using unlink_inner [of ?k1 xs tr ys proc pt as bs cs] inv(2) I(2,3) tree by auto
  obtain ms' g where "free_thread_memory proc tr (ms\<lparr>m_k := ?k1\<lparr>tfam := f, tlist := lst\<rparr>\<rparr>) = Some ms'" "m_k ms' = upd_thread tr g (?k1\<lparr>tfam := f, tlist := lst\<rparr>)"
    "thread_inv (m_k ms') proc (xs @ ys)" "get_thread (m_k ms') proc (t_tid (threads ?k tr)) = Some None"
    "\<forall>p. ISSET (pg_phys (m_pg ms')) p \<longleftrightarrow> ISSET (pg_phys (m_pg ms)) p \<and> p \<notin> {b, Suc b, m, l} \<union> stack_frames ms proc tr"
    using delete_thread_end [OF inv(1) _ ports _ _ _ _ _ _ t(2,3) _ mem, of "?k1\<lparr>tfam := f, tlist := lst\<rparr>" "xs @ ys"] ul(2) inv(2) I(3)
    by (auto simp: fhead_def)
  then show ?thesis using t(1) ul(1,3) by (auto simp: same_procs_def)
qed

text \<open>The only thread of a process.\<close>

lemma delete_only_thread_ok:
  assumes inv: "thread_inv (m_k ms) proc [tr]" and ports: "port_list (threads (m_k ms) tr) = []"
    and tree: "kids (tfam (m_k ms)) tr []" "roots (tfam (m_k ms)) [tr]" and mem: "thread_mem ms proc tr b m l"
  shows "\<exists>ms'. delete_thread flag ms tr = Some (0, ms') \<and> thread_inv (m_k ms') proc [] \<and>
    (\<forall>p. ISSET (pg_phys (m_pg ms')) p \<longleftrightarrow> ISSET (pg_phys (m_pg ms)) p \<and> p \<notin> {b, Suc b, m, l} \<union> stack_frames ms proc tr)"
proof -
  let ?k = "m_k ms"
  have I: "port_inv ?k proc" "dlist (tlist ?k) [tr]" "p_threads (procs ?k proc) = Some tr" "mset (thread_addrs ?k proc) = {#tr#}"
    using inv by (simp_all add: thread_inv_def fhead_def)
  have tin: "tr \<in> set (thread_addrs ?k proc)" using I(4) by (metis set_mset_mset union_single_eq_member add_mset_add_single)
  obtain t where t: "delete_thread flag ms tr =
      do { k \<leftarrow> unlink_thread proc tr (upd_proc proc (\<lambda>p. p\<lparr>p_thread_count := p_thread_count p - 1, p_threads_htable := t\<rparr>) ?k);
           ms \<leftarrow> free_thread_memory proc tr (ms\<lparr>m_k := k\<rparr>); Some (0, ms) }"
    "ht_ready (tkey ?k) t" "mset (ht_list t) = mset (thread_addrs ?k proc) - {#tr#}"
    using delete_thread_start [OF I(1) tin ports, of flag] by blast
  let ?k1 = "upd_proc proc (\<lambda>p. p\<lparr>p_thread_count := p_thread_count p - 1, p_threads_htable := t\<rparr>) ?k"
  obtain f where ul: "unlink_thread proc tr ?k1 = Some (upd_proc proc (\<lambda>p. p\<lparr>p_threads := None\<rparr>) (?k1\<lparr>tfam := f, tlist := list_remove tr (tlist ?k)\<rparr>))"
    "dlist (list_remove tr (tlist ?k)) []"
    using unlink_first [of ?k1 tr "[]" proc "[]" "[]"] I(2,3) tree by (auto simp: fhead_def)
  let ?k2 = "upd_proc proc (\<lambda>p. p\<lparr>p_threads := None\<rparr>) (?k1\<lparr>tfam := f, tlist := list_remove tr (tlist ?k)\<rparr>)"
  obtain ms' where "free_thread_memory proc tr (ms\<lparr>m_k := ?k2\<rparr>) = Some ms'" "thread_inv (m_k ms') proc []"
    "\<forall>p. ISSET (pg_phys (m_pg ms')) p \<longleftrightarrow> ISSET (pg_phys (m_pg ms)) p \<and> p \<notin> {b, Suc b, m, l} \<union> stack_frames ms proc tr"
    using delete_thread_end [OF inv _ ports _ _ _ _ _ _ t(2,3) _ mem, of ?k2 "[]"] ul(2) by (auto simp: fhead_def)
  then show ?thesis using t(1) ul(1) by auto
qed

subsection \<open>Properties\<close>

text \<open>
  C19. \<open>new_thread\<close> with memory for the structure, on a process with room for one more thread, returns an id no other
  thread of the process has; table, list and count then include the new thread, placed second in the list, and it
  is found by its id. It is suspended, and its kernel stack holds exactly the first frame: seventeen words from which the
  processor is loaded when the thread is first scheduled, with the stack pointer just below the top page found in the address space.
\<close>

theorem new_thread_ready:
  assumes "thread_inv (m_k ms) proc ts" "tr \<notin> set ts" "can_create ms proc (length ts) found"
  shows "\<exists>tid ms'. new_thread (Some tr) mal mem ms type proc parent name entry data1 data2 data3 data4 = Some (tid, ms') \<and>
    tid \<notin> tids (m_k ms) proc \<and> thread_inv (m_k ms') proc (after_first tr ts) \<and> get_thread (m_k ms') proc tid = Some (Some tr) \<and>
    t_state (threads (m_k ms') tr) = THREAD_SUSPENDED \<and> t_stack (threads (m_k ms') tr) = t_stack_kernel (threads (m_k ms') tr) - 4 * 17 \<and>
    (\<forall>i<17. pg_mem (m_pg ms') (t_stack_kernel (threads (m_k ms') tr) - 4 * of_nat (Suc i)) =
       first_frame type (found + (sK_PAGES_THREAD + 1) * PAGE_BYTES) entry data1 data2 data3 data4 ! i)"
proof -
  obtain d ms8 where n: "new_thread (Some tr) mal mem ms type proc parent name entry data1 data2 data3 data4 =
      do { k \<leftarrow> link_thread mem proc parent tr (m_k ms8); Some (d, ms8\<lparr>m_k := k\<rparr>) }"
    "d \<notin> tids (m_k ms) proc" "thread_inv (m_k ms8) proc ts" "can_link (m_k ms8) proc ts tr" "t_tid (threads (m_k ms8) tr) = d"
    "t_state (threads (m_k ms8) tr) = THREAD_SUSPENDED" "t_stack (threads (m_k ms8) tr) = t_stack_kernel (threads (m_k ms8) tr) - 4 * 17"
    "\<forall>i<17. pg_mem (m_pg ms8) (t_stack_kernel (threads (m_k ms8) tr) - 4 * of_nat (Suc i)) =
       first_frame type (found + (sK_PAGES_THREAD + 1) * PAGE_BYTES) entry data1 data2 data3 data4 ! i"
    using new_thread_prepared [OF assms, of mal mem type parent name entry data1 data2 data3 data4] by blast
  obtain k where "link_thread mem proc parent tr (m_k ms8) = Some k" "thread_inv k proc (after_first tr ts)"
    "get_thread k proc d = Some (Some tr)" "threads k = threads (m_k ms8)"
    using link_thread_ok [OF n(3,4), of mem parent] n(5) by blast
  then show ?thesis
    by (intro exI [of _ d] exI [of _ "ms8\<lparr>m_k := k\<rparr>"] conjI) (use n in simp_all)
qed

text \<open>A process 0 with two threads: 10, the first, and 11, its child.\<close>

definition mem_fifty :: physmem where "mem_fifty = mark_pages False 50 30 mem_full"

definition ms_duo :: mstate where
  "ms_duo = \<lparr>m_k = k_duo\<lparr>tfam := family_add_child 10 11 fam_blank, tlist := list_insertAfter 10 11 (\<lambda>_. \<lparr>prev = None, nxt = None\<rparr>),
       procs := (procs k_duo)(0 := (procs k_duo 0)\<lparr>p_threads := Some 10, p_thread_count := 2, p_last_tid := 3\<rparr>),
       threads := (threads k_duo)(11 := (threads k_duo 11)\<lparr>t_stack_kernel := 0x7000, t_stack_user := 0x80010000\<rparr>)\<rparr>,
     m_pg = \<lparr>pg_phys = mem_fifty, pg_mem = (\<lambda>_. 0), pg_bytes = (\<lambda>_. 0), pg_cr3 = 0\<rparr>,
     m_map = (\<lambda>_. 0x14000), m_alloc = (\<lambda>_. []), m_mem = Map.empty, m_tls = (\<lambda>_. 0x8000), m_math = (\<lambda>_. 0x9000)\<rparr>"

lemma mem_fifty_fields: "ISSET mem_fifty p \<longleftrightarrow> \<not> (30 \<le> p \<and> p < 80)" "s_freePages mem_fifty = 50"
  by (simp add: mem_fifty_def mark_pages_ISSET mem_full_ISSET) (simp add: mem_fifty_def mark_pages_counts mem_full_def)

lemma ms_duo_mem: "pt_inv (m_pg ms_duo) 0x14000" "avail (pg_phys (m_pg ms_duo)) 30" "xlat (m_pg ms_duo) dir v = None"
proof -
  show "pt_inv (m_pg ms_duo) 0x14000"
    by (simp add: ms_duo_def pt_inv_def owned_def pg_small_dir mem_fifty_fields tabs_def MAXMAP_def)
  have "free_set mem_fifty = {30..<80}" by (auto simp: free_set_def mem_fifty_fields MAXMAP_def)
  then show "avail (pg_phys (m_pg ms_duo)) 30" by (simp add: avail_def ms_duo_def mem_fifty_fields)
  show "xlat (m_pg ms_duo) dir v = None" by (simp add: xlat_def tabs_def ms_duo_def)
qed

lemma ms_duo_inv: "thread_inv (m_k ms_duo) 0 [10, 11]"
proof -
  have "port_inv (m_k ms_duo) 0"
    by (rule port_inv_keep [OF k_duo_inv]) (auto simp: ms_duo_def k_duo_def same_table_def)
  moreover have "thread_addrs (m_k ms_duo) 0 = thread_addrs k_duo 0" by (simp add: thread_addrs_def ms_duo_def)
  ultimately show ?thesis
    by (simp add: thread_inv_def k_duo_threads) (simp add: ms_duo_def dlist_def list_insertAfter_def Let_def fhead_def)
qed

lemma ms_duo_create: "can_create ms_duo 0 2 0x80000000"
proof -
  have "page_entry_present (m_pg ms_duo) 0x14000 a \<noteq> 0" for a using xlat_entry [of "m_pg ms_duo" "0x14000" a] ms_duo_mem(3) by simp
  then have "window_block (m_pg ms_duo) 0x14000 0x80000000 11 = 11" unfolding window_block_def by (intro arr_find_noneI) simp_all
  then have "page_find_free (m_pg ms_duo) 0x14000 sK_BASE sK_CEILING (sK_PAGES_THREAD + 1) = Some 0x80000000"
    unfolding page_find_free_def sK_BASE_def sK_CEILING_def sK_PAGES_THREAD_def by (subst find_free_loop.simps) simp
  then show ?thesis using ms_duo_mem by (simp add: can_create_def) (simp add: ms_duo_def k_duo_def)
qed

theorem new_thread_ready_witness:
  "\<exists>tid ms'. new_thread (Some 12) (\<lambda>_. Some 1) True ms_duo 0 0 (Some 11) (\<lambda>_. 0) 0x80001000 1 2 3 4 = Some (tid, ms') \<and>
    tid \<notin> tids (m_k ms_duo) 0 \<and> thread_inv (m_k ms') 0 [10, 12, 11] \<and> get_thread (m_k ms') 0 tid = Some (Some 12)"
proof -
  have "can_create ms_duo 0 (length [10, 11 :: nat]) 0x80000000" using ms_duo_create by (simp add: numeral_2_eq_2)
  from new_thread_ready [OF ms_duo_inv _ this, of 12 "\<lambda>_. Some 1" True 0 "Some 11" "\<lambda>_. 0" "0x80001000" 1 2 3 4]
  show ?thesis by (simp add: after_first_def) blast
qed

text \<open>
  C20. \<open>delete_thread\<close> of a thread that is not the first of its process, has no ports left and whose memory is its own returns 0:
  the thread is gone from table and list, its children are the first children of its parent, and exactly
  its frames are free again (kernel stack, FPU page, local storage and the mapped pages of the user stack).
\<close>

theorem delete_thread_undoes:
  assumes inv: "thread_inv (m_k ms) proc (xs @ tr # ys)" "xs \<noteq> []" and ports: "port_list (threads (m_k ms) tr) = []"
    and tree: "kids (tfam (m_k ms)) pt (as @ tr # bs)" "kids (tfam (m_k ms)) tr cs" "pt \<noteq> tr" and mem: "thread_mem ms proc tr b m l"
  shows "\<exists>ms'. delete_thread flag ms tr = Some (0, ms') \<and> thread_inv (m_k ms') proc (xs @ ys) \<and>
    get_thread (m_k ms') proc (t_tid (threads (m_k ms) tr)) = Some None \<and> kids (tfam (m_k ms')) pt (rev cs @ as @ bs) \<and>
    (\<forall>p. ISSET (pg_phys (m_pg ms')) p \<longleftrightarrow> ISSET (pg_phys (m_pg ms)) p \<and> p \<notin> {b, Suc b, m, l} \<union> stack_frames ms proc tr)"
  using delete_thread_ok [OF assms, of flag] by blast

lemma ms_duo_thread_mem: "thread_mem ms_duo 0 11 5 9 8" "stack_frames ms_duo 0 11 = {}"
proof -
  have f: "frame_at (m_pg ms_duo) dir w = None" for dir w by (simp add: frame_at_def ms_duo_mem(3))
  then show s: "stack_frames ms_duo 0 11 = {}" by (simp add: stack_frames_def run_frames_def)
  have mp: "m_map ms_duo 0 = 0x14000" by (simp add: ms_duo_def)
  have "base_frames (m_pg ms_duo) 0x14000 = {0, 20}" by (auto simp: base_frames_def tframes_def tabs_def pg_small_dir ms_duo_def)
  moreover have "user_run (user_stack ms_duo 11) 10"
    by (simp add: user_stack_def ms_duo_def user_run_def sK_PAGES_THREAD_def PAGE_BYTES_def aligned_def vpage_def PAGE_SIZE_def)
  ultimately show "thread_mem ms_duo 0 11 5 9 8"
    unfolding thread_mem_def s mp using ms_duo_mem(1) f
    by (simp add: own_frames_def MAXMAP_def) (simp add: ms_duo_def mem_fifty_fields PAGE_SIZE_def PAGE_BYTES_def sK_PAGES_KERNEL_def)
qed

theorem delete_thread_undoes_witness:
  "\<exists>ms'. delete_thread True ms_duo 11 = Some (0, ms') \<and> thread_inv (m_k ms') 0 [10] \<and> get_thread (m_k ms') 0 2 = Some None \<and>
    \<not> ISSET (pg_phys (m_pg ms')) 5 \<and> \<not> ISSET (pg_phys (m_pg ms')) 9"
proof -
  have k: "kids (tfam (m_k ms_duo)) 10 ([] @ 11 # [])" "kids (tfam (m_k ms_duo)) 11 []"
    by (simp_all add: ms_duo_def kids_def fhead_def fam_blank_def family_add_child_def family_init_def Let_def)
  have p: "port_list (threads (m_k ms_duo) 11) = []" "t_tid (threads (m_k ms_duo) 11) = 2"
    using port_list_empty [of "threads (m_k ms_duo) 11"] by (simp_all add: ms_duo_def thread_blank_def)
  have i: "thread_inv (m_k ms_duo) 0 ([10] @ 11 # [])" using ms_duo_inv by simp
  show ?thesis using delete_thread_undoes [OF i _ p(1) k _ ms_duo_thread_mem(1), of True] p(2) by auto
qed

text \<open>
  When the first thread of a process is deleted while it has children, and they are all the other threads, the process is left
  pointing at the last thread of its list: a walk along the list from \<open>proc->threads\<close>, as the garbage collector does
  it to wake dormant threads, sees that one thread and none of the others. \<open>delete_thread\<close> follows the tree there, not the list.
\<close>

theorem delete_first_thread_loses_list:
  assumes "dlist (tlist k) (h # ts)" "p_threads (procs k proc) = Some h" "kids (tfam k) h ts" "roots (tfam k) [h]" "ts \<noteq> []"
  shows "\<exists>k'. unlink_thread proc h k = Some k' \<and> dlist (tlist k') ts \<and> p_threads (procs k' proc) = Some (last ts) \<and> nxt (tlist k' (last ts)) = None"
proof -
  obtain f where u: "unlink_thread proc h k = Some (upd_proc proc (\<lambda>p. p\<lparr>p_threads := fhead (rev ts @ [])\<rparr>)
      (k\<lparr>tfam := f, tlist := list_remove h (tlist k)\<rparr>))" "dlist (list_remove h (tlist k)) ts"
    using unlink_first [OF assms(1-4)] by blast
  have "dlist (list_remove h (tlist k)) (butlast ts @ [last ts])" using u(2) assms(5) by simp
  then have "nxt (list_remove h (tlist k) (last ts)) = None" by (simp add: dlist_def)
  then show ?thesis using u assms(5) by (simp add: fhead_def hd_rev)
qed

text \<open>Thread 10 with its children 12 and 11, linked as \<open>new_thread\<close> does.\<close>

definition k_trio :: kstate where
  "k_trio = (m_k ms_duo)\<lparr>tfam := family_add_child 10 12 (tfam (m_k ms_duo)), tlist := list_insertAfter 10 12 (tlist (m_k ms_duo))\<rparr>"

theorem delete_first_thread_loses_list_witness:
  "\<exists>k'. unlink_thread 0 10 k_trio = Some k' \<and> dlist (tlist k') [12, 11] \<and> p_threads (procs k' 0) = Some 11 \<and> nxt (tlist k' 11) = None"
proof -
  have "dlist (tlist k_trio) [10, 12, 11]" "p_threads (procs k_trio 0) = Some 10" "kids (tfam k_trio) 10 [12, 11]" "roots (tfam k_trio) [10]"
    by (simp_all add: k_trio_def ms_duo_def dlist_def kids_def roots_def fhead_def list_insertAfter_def Let_def family_add_child_def family_init_def fam_blank_def)
  then show ?thesis using delete_first_thread_loses_list [of k_trio 10 "[12, 11]" 0] by simp
qed

end
