(* ===== verification/Gc.thy ===== *)
theory Gc
  imports Threads
begin

section \<open>The garbage collector (kernel/src/gc.c)\<close>

text \<open>
  Threads and processes that have finished are queued per processor, in a ring of \<open>MAX_GC\<close> entries, and
  destroyed by a thread of their own. The state is the rings beside the state of theory Process. What other
  threads and processors do between two attempts to get hold of a process is the argument \<open>others\<close>, and
  \<open>sched_yield\<close> is an argument too.

  Shown: the ring is a first in, first out queue that refuses the thirty-third entry (an interpretation of
  \<open>fifo\<close>); a finished thread is destroyed and the locks are given back; a process
  with one thread is destroyed with it; and a thread that is already gone leaves the
  process list locked for ever.
\<close>

definition MAX_GC :: nat where "MAX_GC = 32"

record gc_info =
  gi_pid :: int
  gi_tid :: int

record gc_qdata =
  q_info :: "nat \<Rightarrow> gc_info"
  q_pos :: nat
  q_size :: nat

record gstate =
  g_ms :: mstate
  g_q :: "nat \<Rightarrow> gc_qdata"

text \<open>\<open>pos\<close> and \<open>size\<close> are never negative: both start at 0, and the decrement is guarded.\<close>

definition load_gc :: "nat \<Rightarrow> gstate \<Rightarrow> gstate" where
  "load_gc cpu_id g = g\<lparr>g_q := (g_q g)(cpu_id := (g_q g cpu_id)\<lparr>q_pos := 0, q_size := 0\<rparr>)\<rparr>"

definition with_ints_off :: "(gstate \<Rightarrow> ('r \<times> gstate) option) \<Rightarrow> gstate \<Rightarrow> ('r \<times> gstate) option" where
  "with_ints_off body g = do {
     let (ei, k) = disable_interrupts (m_k (g_ms g));
     (r, g) \<leftarrow> body (g\<lparr>g_ms := (g_ms g)\<lparr>m_k := k\<rparr>\<rparr>);
     Some (r, if ei then g\<lparr>g_ms := (g_ms g)\<lparr>m_k := enable_interrupts (m_k (g_ms g))\<rparr>\<rparr> else g)
   }"

definition gc_queue :: "gstate \<Rightarrow> int \<Rightarrow> int \<Rightarrow> (int \<times> gstate) option" where
  "gc_queue g pid tid =
     (let cpu_id = CPUID (m_k (g_ms g)) in with_ints_off (\<lambda>g.
       (let q = g_q g cpu_id in
        if q_size q \<noteq> MAX_GC then
          let new_pos = (q_pos q + q_size q) mod MAX_GC;
              q = q\<lparr>q_info := (q_info q)(new_pos := \<lparr>gi_pid = pid, gi_tid = tid\<rparr>)\<rparr>;
              q = q\<lparr>q_size := q_size q + 1\<rparr>
          in Some (0, g\<lparr>g_q := (g_q g)(cpu_id := q)\<rparr>)
        else Some (-1, g))) g)"

definition gc_has_work :: "gstate \<Rightarrow> nat \<Rightarrow> int option" where
  "gc_has_work g cpu_id = do {
     assert (\<not> ints (m_k (g_ms g)));
     Some (if q_size (g_q g cpu_id) = 0 then -1 else 0)
   }"

definition gc_peek :: "nat \<Rightarrow> gstate \<Rightarrow> (gc_info option \<times> gstate) option" where
  "gc_peek cpu_id = with_ints_off (\<lambda>g.
     (let q = g_q g cpu_id in Some (if q_size q \<noteq> 0 then Some (q_info q (q_pos q)) else None, g)))"

definition gc_next :: "nat \<Rightarrow> gstate \<Rightarrow> gstate option" where
  "gc_next cpu_id g = map_option snd (with_ints_off (\<lambda>g. do {
     let q = g_q g cpu_id;
     assert (q_size q > 0);
     Some ((), g\<lparr>g_q := (g_q g)(cpu_id := q\<lparr>q_pos := (q_pos q + 1) mod MAX_GC, q_size := q_size q - 1\<rparr>)\<rparr>)
   }) g)"

definition gc_do_thread :: "bool \<Rightarrow> mstate \<Rightarrow> int \<Rightarrow> int \<Rightarrow> (int \<times> mstate) option" where
  "gc_do_thread mem ms pid tid = do {
     (p, k) \<leftarrow> checkout_process (m_k ms) pid WRITER;
     (case p of
        None \<Rightarrow> Some (-1, ms\<lparr>m_k := k\<rparr>)
      | Some proc \<Rightarrow> do {
          t \<leftarrow> get_thread k proc tid;
          (case t of
             None \<Rightarrow> Some (-1, ms\<lparr>m_k := k\<rparr>)
           | Some tr \<Rightarrow> do {
               assert (t_state (threads k tr) = THREAD_FINISHED);
               assert (t_state (threads k tr) \<noteq> THREAD_IRQ);
               (rc, ms) \<leftarrow> delete_thread mem (ms\<lparr>m_k := k\<rparr>) tr;
               assert (rc = 0);
               Some (0, ms\<lparr>m_k := commit_process proc (m_k ms)\<rparr>)
             })
        })
   }"

text \<open>The walk along the list of threads that wakes the dormant ones.\<close>

partial_function (option) wake_dormant :: "addr option \<Rightarrow> kstate \<Rightarrow> kstate option" where
  "wake_dormant tr k =
     (case tr of
        None \<Rightarrow> Some k
      | Some t \<Rightarrow> do {
          assert (t_state (threads k t) \<noteq> THREAD_IRQ);
          k \<leftarrow> (if t_state (threads k t) = THREAD_DORMANT then set_thread_state k t THREAD_RUNNING else Some k);
          wake_dormant (nxt (tlist k t)) k
        })"

text \<open>The attempts to get hold of the process, until no thread of it is in the kernel.\<close>

partial_function (option) acquire_finishing :: "(mstate \<Rightarrow> mstate option) \<Rightarrow> int \<Rightarrow> mstate \<Rightarrow> (addr option \<times> mstate) option" where
  "acquire_finishing others pid ms = do {
     (p, k) \<leftarrow> checkout_process (m_k ms) pid WRITER;
     (case p of
        None \<Rightarrow> Some (None, ms\<lparr>m_k := k\<rparr>)
      | Some proc \<Rightarrow> do {
          assert (p_state (procs k proc) = PROCESS_FINISHING);
          if p_kernel_threads (procs k proc) \<noteq> 0 then do {
            k \<leftarrow> wake_dormant (p_threads (procs k proc)) k;
            ms \<leftarrow> others (ms\<lparr>m_k := commit_process proc k\<rparr>);
            acquire_finishing others pid ms
          }
          else Some (Some proc, ms\<lparr>m_k := k\<rparr>)
        })
   }"

partial_function (option) delete_threads :: "bool \<Rightarrow> addr \<Rightarrow> mstate \<Rightarrow> mstate option" where
  "delete_threads mem proc ms =
     (case p_threads (procs (m_k ms) proc) of
        None \<Rightarrow> Some ms
      | Some tr \<Rightarrow> do {
          k \<leftarrow> set_thread_state (m_k ms) tr THREAD_FINISHED;
          tr \<leftarrow> p_threads (procs k proc);
          (rc, ms) \<leftarrow> delete_thread mem (ms\<lparr>m_k := k\<rparr>) tr;
          assert (rc = 0);
          delete_threads mem proc ms
        })"

definition gc_do_process :: "(mstate \<Rightarrow> mstate option) \<Rightarrow> bool \<Rightarrow> mstate \<Rightarrow> int \<Rightarrow> (int \<times> mstate) option" where
  "gc_do_process others mem ms pid = do {
     (p, ms) \<leftarrow> acquire_finishing others pid ms;
     (case p of
        None \<Rightarrow> Some (-1, ms)
      | Some proc \<Rightarrow> do {
          ms \<leftarrow> delete_threads mem proc ms;
          let k = release_processes (m_k ms);
          k \<leftarrow> remove_process mem k proc;
          ms \<leftarrow> delete_process (ms\<lparr>m_k := k\<rparr>) proc;
          Some (0, ms)
        })
   }"

text \<open>One round of the endless loop of \<open>gc\<close> on the processor \<open>cpu_id\<close>.\<close>

definition gc_round :: "(gstate \<Rightarrow> gstate option) \<Rightarrow> (mstate \<Rightarrow> mstate option) \<Rightarrow> bool \<Rightarrow> nat \<Rightarrow> gstate \<Rightarrow> gstate option" where
  "gc_round sched_yield others mem cpu_id g = do {
     assert (ints (m_k (g_ms g)));
     (i, g) \<leftarrow> gc_peek cpu_id g;
     (case i of
        None \<Rightarrow> sched_yield g
      | Some i \<Rightarrow> do {
          (_, ms) \<leftarrow> (if gi_tid i < 0 then gc_do_process others mem (g_ms g) (gi_pid i) else gc_do_thread mem (g_ms g) (gi_pid i) (gi_tid i));
          gc_next cpu_id (g\<lparr>g_ms := ms\<rparr>)
        })
   }"

subsection \<open>The ring\<close>

definition gq_inv :: "nat \<Rightarrow> gstate \<Rightarrow> bool" where
  "gq_inv c g \<longleftrightarrow> q_pos (g_q g c) < MAX_GC \<and> q_size (g_q g c) \<le> MAX_GC"

definition gq_list :: "nat \<Rightarrow> gstate \<Rightarrow> gc_info list" where
  "gq_list c g = map (\<lambda>i. q_info (g_q g c) ((q_pos (g_q g c) + i) mod MAX_GC)) [0..<q_size (g_q g c)]"

lemma length_gq_list: "length (gq_list c g) = q_size (g_q g c)"
  by (simp add: gq_list_def)

lemma with_ints_off_some:
  assumes "\<And>g'. g_q g' = g_q g \<Longrightarrow> body g' = Some (r, g'\<lparr>g_q := Q\<rparr>)"
  shows "with_ints_off body g = Some (r, g\<lparr>g_q := Q\<rparr>)"
  using assms by (cases "ints (m_k (g_ms g))") (simp_all add: with_ints_off_def disable_interrupts_def enable_interrupts_def)

lemma ring_index:
  assumes "p < MAX_GC" "n < MAX_GC" "i < n"
  shows "(p + i) mod MAX_GC \<noteq> (p + n) mod MAX_GC"
proof
  assume "(p + i) mod MAX_GC = (p + n) mod MAX_GC"
  then have "MAX_GC dvd (p + n) - (p + i)" using assms(3) by (metis less_imp_le_nat mod_eq_dvd_iff_nat nat_add_left_cancel_le)
  then have "MAX_GC dvd n - i" by simp
  then show False using assms(2,3) by (metis diff_is_0_eq' dvd_imp_le leD less_imp_diff_less zero_less_diff)
qed

lemma gc_queue_eq:
  "gc_queue g pid tid =
     (let c = CPUID (m_k (g_ms g)); q = g_q g c in
      if q_size q \<noteq> MAX_GC
      then Some (0, g\<lparr>g_q := (g_q g)(c := q\<lparr>q_info := (q_info q)((q_pos q + q_size q) mod MAX_GC := \<lparr>gi_pid = pid, gi_tid = tid\<rparr>),
             q_size := q_size q + 1\<rparr>)\<rparr>)
      else Some (-1, g))"
proof -
  let ?c = "CPUID (m_k (g_ms g))"
  show ?thesis
  proof (cases "q_size (g_q g ?c) = MAX_GC")
    case True
    have "gc_queue g pid tid = Some (-1, g\<lparr>g_q := g_q g\<rparr>)"
      unfolding gc_queue_def Let_def by (rule with_ints_off_some) (use True in \<open>simp add: MAX_GC_def\<close>)
    then show ?thesis using True by simp
  next
    case False
    then show ?thesis
      unfolding gc_queue_def Let_def by (simp, intro with_ints_off_some) (simp add: Let_def)
  qed
qed

lemma gc_peek_eq: "gc_peek c g = Some (if q_size (g_q g c) \<noteq> 0 then Some (q_info (g_q g c) (q_pos (g_q g c))) else None, g)"
proof -
  have "gc_peek c g = Some (if q_size (g_q g c) \<noteq> 0 then Some (q_info (g_q g c) (q_pos (g_q g c))) else None, g\<lparr>g_q := g_q g\<rparr>)"
    unfolding gc_peek_def by (rule with_ints_off_some) (simp add: Let_def)
  then show ?thesis by simp
qed

lemma gc_next_eq:
  assumes "0 < q_size (g_q g c)"
  shows "gc_next c g = Some (g\<lparr>g_q := (g_q g)(c := (g_q g c)\<lparr>q_pos := (q_pos (g_q g c) + 1) mod MAX_GC, q_size := q_size (g_q g c) - 1\<rparr>)\<rparr>)"
proof -
  have "with_ints_off (\<lambda>g. do {
     let q = g_q g c;
     assert (q_size q > 0);
     Some ((), g\<lparr>g_q := (g_q g)(c := q\<lparr>q_pos := (q_pos q + 1) mod MAX_GC, q_size := q_size q - 1\<rparr>)\<rparr>)
   }) g = Some ((), g\<lparr>g_q := (g_q g)(c := (g_q g c)\<lparr>q_pos := (q_pos (g_q g c) + 1) mod MAX_GC, q_size := q_size (g_q g c) - 1\<rparr>)\<rparr>)"
    by (rule with_ints_off_some) (use assms in \<open>simp add: Let_def\<close>)
  then show ?thesis by (simp add: gc_next_def)
qed

text \<open>Queueing and taking on the processor \<open>c\<close>, as operations of the interface \<open>fifo\<close>.\<close>

definition gq_put :: "gc_info \<Rightarrow> gstate \<Rightarrow> gstate option" where
  "gq_put i g = do { (rc, g) \<leftarrow> gc_queue g (gi_pid i) (gi_tid i); assert (rc = 0); Some g }"

definition gq_pop :: "nat \<Rightarrow> gstate \<Rightarrow> (gc_info option \<times> gstate) option" where
  "gq_pop c g = do {
     (i, g) \<leftarrow> gc_peek c g;
     (case i of None \<Rightarrow> Some (None, g) | Some i \<Rightarrow> do { g \<leftarrow> gc_next c g; Some (Some i, g) })
   }"

definition gq_at :: "nat \<Rightarrow> gstate \<Rightarrow> bool" where
  "gq_at c g \<longleftrightarrow> gq_inv c g \<and> CPUID (m_k (g_ms g)) = c"

definition gq_room :: "nat \<Rightarrow> nat \<Rightarrow> gstate \<Rightarrow> bool" where
  "gq_room c n g \<longleftrightarrow> q_size (g_q g c) + n \<le> MAX_GC"

lemma gq_put_ok:
  assumes "gq_at c g" "gq_room c (Suc n) g"
  shows "\<exists>g'. gq_put i g = Some g' \<and> gq_at c g' \<and> gq_list c g' = gq_list c g @ [i] \<and> gq_room c n g'"
proof -
  let ?q = "g_q g c"
  let ?q' = "?q\<lparr>q_info := (q_info ?q)((q_pos ?q + q_size ?q) mod MAX_GC := i), q_size := q_size ?q + 1\<rparr>"
  have a: "q_pos ?q < MAX_GC" "q_size ?q < MAX_GC" "CPUID (m_k (g_ms g)) = c"
    using assms by (auto simp: gq_at_def gq_inv_def gq_room_def)
  have "gq_put i g = Some (g\<lparr>g_q := (g_q g)(c := ?q')\<rparr>)" using a by (cases i) (simp add: gq_put_def gc_queue_eq Let_def)
  moreover have "gq_list c (g\<lparr>g_q := (g_q g)(c := ?q')\<rparr>) = gq_list c g @ [i]"
    using ring_index [OF a(1,2)] by (auto simp: gq_list_def)
  ultimately show ?thesis using a assms by (simp add: gq_at_def gq_inv_def gq_room_def)
qed

lemma gq_pop_ok:
  assumes "gq_at c g" "gq_list c g = i # is'"
  shows "\<exists>g'. gq_pop c g = Some (Some i, g') \<and> gq_at c g' \<and> gq_list c g' = is' \<and> (gq_room c n g \<longrightarrow> gq_room c n g')"
proof -
  let ?q = "g_q g c"
  let ?q' = "?q\<lparr>q_pos := (q_pos ?q + 1) mod MAX_GC, q_size := q_size ?q - 1\<rparr>"
  have a: "q_pos ?q < MAX_GC" "q_size ?q \<le> MAX_GC" "0 < q_size ?q"
    using assms(1) length_gq_list [of c g] unfolding assms(2) by (simp_all add: gq_at_def gq_inv_def)
  then obtain m where m: "q_size ?q = Suc m" by (auto simp: gr0_conv_Suc)
  have l: "i = q_info ?q (q_pos ?q)" "is' = map (\<lambda>j. q_info ?q ((q_pos ?q + Suc j) mod MAX_GC)) [0..<m]"
    using assms(2) a(1) unfolding gq_list_def m by (auto simp: upt_conv_Cons map_Suc_upt [symmetric] simp del: upt_Suc)
  have "gq_list c (g\<lparr>g_q := (g_q g)(c := ?q')\<rparr>) = is'" by (simp add: gq_list_def l(2) m mod_simps)
  moreover have "gq_pop c g = Some (Some i, g\<lparr>g_q := (g_q g)(c := ?q')\<rparr>)"
    using a(3) l(1) by (simp add: gq_pop_def gc_peek_eq gc_next_eq)
  ultimately show ?thesis using a assms(1) by (auto simp: gq_at_def gq_inv_def gq_room_def MAX_GC_def)
qed

interpretation gq: fifo gq_put "gq_pop c" "gq_list c" "gq_at c" "gq_room c" for c
proof (unfold_locales, goal_cases)
  case (3 q k)
  then show ?case by (simp add: gq_pop_def gc_peek_eq gq_list_def)
qed (fact gq_put_ok gq_pop_ok)+

subsection \<open>Destroying a thread\<close>

text \<open>A process checked out for writing: only locks differ.\<close>

lemma checkout_writer:
  assumes "ptable_inv k ps" "a \<in> set ps" "rw_free (p_lock (procs k a))"
  shows "\<exists>pl l. checkout_process k (pid_of k a) WRITER = Some (Some a, upd_proc a (\<lambda>p. p\<lparr>p_lock := pl\<rparr>) (k\<lparr>l_processLock := l\<rparr>)) \<and>
    rwlock_release pl = p_lock (procs k a) \<and> rwlock_release l = l_processLock k \<and> num_readers l = 1 \<and> num_writers pl = 1"
proof -
  have sm: "pid_small (pid_of k a)" "rw_free (l_processLock k)" using assms(1,2) by (auto simp: ptable_inv_def)
  obtain l where l: "read_processes k = Some (k\<lparr>l_processLock := l\<rparr>)" "rwlock_release l = l_processLock k" "num_readers l = 1"
    using rw_read_release [OF sm(2)] by (auto simp: read_processes_def)
  have lk: "lookup_pid k (pid_of k a) = Some (Some a)" using lookup_pid_inv [OF assms(1) sm(1)] assms(2) by auto
  obtain pl where "rwlock_get_write_access (p_lock (procs k a)) = Some pl" "rwlock_release pl = p_lock (procs k a)" "num_writers pl = 1"
    using rw_write_release [OF assms(3)] by blast
  then show ?thesis using l lk by (auto simp: checkout_process_def)
qed

lemma get_thread_locks [simp]: "get_thread (upd_proc a (\<lambda>p. p\<lparr>p_lock := pl\<rparr>) (k\<lparr>l_processLock := l\<rparr>)) b tid = get_thread k b tid"
  by (rule get_thread_cong) simp_all

subsection \<open>Properties\<close>

text \<open>
  C22. The queue of the garbage collector is first in, first out on every processor: as many entries as there is room for
  are accepted, and taking entries out (\<open>gc_peek\<close> and \<open>gc_next\<close>) gives first those that waited and then the new ones in
  the order in which they were queued.
\<close>

theorem gc_queue_fifo:
  assumes "gq_at c g" "gq_room c (length xs) g"
  shows "\<exists>g' g''. put_all gq_put xs g = Some g' \<and>
    pop_all (gq_pop c) (length (gq_list c g) + length xs) g' = Some (map Some (gq_list c g @ xs), g'') \<and> gq_at c g'' \<and> gq_list c g'' = []"
  by (rule gq.fifo_order [OF assms])

definition gs_empty :: gstate where
  "gs_empty = \<lparr>g_ms = ms_duo, g_q = (\<lambda>_. \<lparr>q_info = (\<lambda>_. \<lparr>gi_pid = 0, gi_tid = 0\<rparr>), q_pos = 31, q_size = 0\<rparr>)\<rparr>"

lemma gs_empty_ok: "gq_at 0 gs_empty" "gq_list 0 gs_empty = []" "n \<le> 32 \<Longrightarrow> gq_room 0 n gs_empty"
  by (simp_all add: gs_empty_def gq_at_def gq_inv_def gq_list_def gq_room_def MAX_GC_def ms_duo_def k_duo_def k_blank_def)

theorem gc_queue_fifo_witness:
  "\<exists>g' g''. put_all gq_put [\<lparr>gi_pid = 2, gi_tid = 1\<rparr>, \<lparr>gi_pid = 3, gi_tid = -1\<rparr>] gs_empty = Some g' \<and>
    pop_all (gq_pop 0) 2 g' = Some ([Some \<lparr>gi_pid = 2, gi_tid = 1\<rparr>, Some \<lparr>gi_pid = 3, gi_tid = -1\<rparr>], g'')"
proof -
  have "gq_room 0 (length [\<lparr>gi_pid = 2, gi_tid = 1\<rparr>, \<lparr>gi_pid = 3, gi_tid = -1\<rparr>]) gs_empty" by (rule gs_empty_ok) simp
  from gc_queue_fifo [OF gs_empty_ok(1) this] show ?thesis by (auto simp: gs_empty_ok numeral_2_eq_2)
qed

text \<open>
  C21. The garbage collector destroys a finished thread (not the first of its process, its ports released, its memory
  its own): it returns 0, the thread is in neither table nor list, its frames are free, and both locks are free again.
\<close>

theorem gc_do_thread_destroys:
  assumes "ptable_inv (m_k ms) ps" "proc \<in> set ps" "rw_free (p_lock (procs (m_k ms) proc))"
    and "thread_inv (m_k ms) proc (xs @ tr # ys)" "xs \<noteq> []" "t_state (threads (m_k ms) tr) = THREAD_FINISHED" "port_list (threads (m_k ms) tr) = []"
    and "kids (tfam (m_k ms)) pt (as @ tr # bs)" "kids (tfam (m_k ms)) tr cs" "pt \<noteq> tr" "thread_mem ms proc tr b m l"
  shows "\<exists>ms'. gc_do_thread flag ms (pid_of (m_k ms) proc) (t_tid (threads (m_k ms) tr)) = Some (0, ms') \<and>
    thread_inv (m_k ms') proc (xs @ ys) \<and> get_thread (m_k ms') proc (t_tid (threads (m_k ms) tr)) = Some None \<and>
    rw_free (l_processLock (m_k ms')) \<and> rw_free (p_lock (procs (m_k ms') proc)) \<and>
    (\<forall>p. ISSET (pg_phys (m_pg ms')) p \<longleftrightarrow> ISSET (pg_phys (m_pg ms)) p \<and> p \<notin> {b, Suc b, m, l} \<union> stack_frames ms proc tr)"
proof -
  let ?k = "m_k ms" and ?tid = "t_tid (threads (m_k ms) tr)"
  obtain pl ll where c: "checkout_process ?k (pid_of ?k proc) WRITER =
      Some (Some proc, upd_proc proc (\<lambda>p. p\<lparr>p_lock := pl\<rparr>) (?k\<lparr>l_processLock := ll\<rparr>))"
    "rwlock_release pl = p_lock (procs ?k proc)" "rwlock_release ll = l_processLock ?k"
    using checkout_writer [OF assms(1-3)] by blast
  define k1 where "k1 = upd_proc proc (\<lambda>p. p\<lparr>p_lock := pl\<rparr>) (?k\<lparr>l_processLock := ll\<rparr>)"
  have k1: "threads k1 = threads ?k" "tfam k1 = tfam ?k" "l_processLock k1 = ll" "p_lock (procs k1 proc) = pl"
    by (simp_all add: k1_def)
  have i1: "thread_inv k1 proc (xs @ tr # ys) \<and> tids k1 proc = tids ?k proc"
    by (rule thread_inv_same [OF assms(4)]) (simp_all add: k1_def)
  have "tr \<in> set (thread_addrs ?k proc)" using assms(4) unfolding thread_inv_def by (metis in_set_conv_decomp set_mset_mset)
  then have gt: "get_thread k1 proc ?tid = Some (Some tr)"
    using get_thread_some [of ?k proc tr] assms(4) by (simp add: thread_inv_def port_inv_def k1_def)
  let ?m = "ms\<lparr>m_k := k1\<rparr>"
  have mem: "thread_mem ?m proc tr b m l" "stack_frames ?m proc tr = stack_frames ms proc tr"
    using thread_mem_frame [OF assms(11), of k1] k1(1) by simp_all
  obtain ms' where d: "delete_thread flag ?m tr = Some (0, ms')" "thread_inv (m_k ms') proc (xs @ ys)"
    "get_thread (m_k ms') proc ?tid = Some None" "same_procs k1 (m_k ms')"
    "\<forall>p. ISSET (pg_phys (m_pg ms')) p \<longleftrightarrow> ISSET (pg_phys (m_pg ms)) p \<and> p \<notin> {b, Suc b, m, l} \<union> stack_frames ms proc tr"
    using delete_thread_ok [of ?m proc xs tr ys pt as bs cs b m l flag] i1 assms(5,7-10) mem by (auto simp: k1)
  let ?k' = "commit_process proc (m_k ms')"
  have "gc_do_thread flag ms (pid_of ?k proc) ?tid = Some (0, ms'\<lparr>m_k := ?k'\<rparr>)"
    using c(1) gt d(1) assms(6) by (simp add: gc_do_thread_def k1_def [symmetric] k1)
  moreover have "thread_inv ?k' proc (xs @ ys) \<and> tids ?k' proc = tids (m_k ms') proc"
    by (rule thread_inv_same [OF d(2)]) (simp_all add: commit_process_def release_processes_def)
  moreover have "get_thread ?k' proc ?tid = get_thread (m_k ms') proc ?tid"
    by (rule get_thread_cong) (simp_all add: commit_process_def release_processes_def)
  moreover have "rw_free (l_processLock ?k')" "rw_free (p_lock (procs ?k' proc))"
    using d(4) c(2,3) assms(1,3) k1 by (simp_all add: commit_process_def release_processes_def same_procs_def ptable_inv_def)
  ultimately show ?thesis using d(3,5) by (intro exI [of _ "ms'\<lparr>m_k := ?k'\<rparr>"]) simp
qed

text \<open>The process of \<open>ms_duo\<close> with the id 1, entered in the table; its second thread has finished.\<close>

definition ms_dying :: mstate where
  "ms_dying = ms_duo\<lparr>m_k := upd_thread 11 (\<lambda>t. t\<lparr>t_state := THREAD_FINISHED\<rparr>) (upd_proc 0 (\<lambda>p. p\<lparr>p_pid := 1\<rparr>) ((m_k ms_duo)\<lparr>
     l_processTable := \<lparr>ht_total = 1, ht_size = 8, ht_percent = 75, ht_table = (\<lambda>_. None)(0 := Some 0)\<rparr>, l_rootProcess := Some 0\<rparr>))\<rparr>"

lemma ms_dying_process: "ptable_inv (m_k ms_dying) [0]" "pid_of (m_k ms_dying) 0 = 1" "rw_free (p_lock (procs (m_k ms_dying) 0))"
proof -
  have l: "ht_list (l_processTable (m_k ms_dying)) = [0]"
    by (simp add: ms_dying_def ht_list_def arr_list_def List.map_filter_simps upt_rec)
  show p: "pid_of (m_k ms_dying) 0 = 1" by (simp add: pid_of_def ms_dying_def)
  then have "ht_ready (pkey (m_k ms_dying)) (l_processTable (m_k ms_dying))"
    by (simp add: ht_ready_def ht_inv_def ht_fits_def l pkey_def pid_of_def ptable_key_def key_small_def ht_abs_key_def upid_def)
      (simp add: ms_dying_def)
  then show "ptable_inv (m_k ms_dying) [0]"
    using p by (simp add: ptable_inv_def l pid_small_def)
      (simp add: ms_dying_def ms_duo_def k_duo_def k_blank_def dlist_def rw_free_def init_rwlock_def)
  show "rw_free (p_lock (procs (m_k ms_dying) 0))"
    by (simp add: ms_dying_def ms_duo_def k_duo_def process_blank_def rw_free_def init_rwlock_def)
qed

lemma ms_dying_threads: "thread_inv (m_k ms_dying) 0 ([10] @ 11 # [])" "thread_mem ms_dying 0 11 5 9 8" "stack_frames ms_dying 0 11 = {}"
proof -
  have "port_inv (m_k ms_dying) 0"
    by (rule port_inv_keep [of "m_k ms_duo"]) (use ms_duo_inv in \<open>auto simp: thread_inv_def ms_dying_def same_table_def\<close>)
  moreover have "thread_addrs (m_k ms_dying) 0 = thread_addrs (m_k ms_duo) 0" by (simp add: thread_addrs_def ms_dying_def)
  ultimately show "thread_inv (m_k ms_dying) 0 ([10] @ 11 # [])"
    using ms_duo_inv by (simp add: thread_inv_def) (simp add: ms_dying_def)
  show "thread_mem ms_dying 0 11 5 9 8" "stack_frames ms_dying 0 11 = {}"
    using ms_duo_thread_mem by (simp_all add: thread_mem_def stack_frames_def user_stack_def ms_dying_def)
qed

lemma ms_dying_tree: "kids (tfam (m_k ms_dying)) 10 ([] @ 11 # [])" "kids (tfam (m_k ms_dying)) 11 []"
  by (simp_all add: ms_dying_def ms_duo_def kids_def fhead_def fam_blank_def family_add_child_def family_init_def Let_def)

lemma ms_dying_fields: "t_tid (threads (m_k ms_dying) 11) = 2" "t_state (threads (m_k ms_dying) 11) = THREAD_FINISHED" "port_list (threads (m_k ms_dying) 11) = []"
  using port_list_empty [of "threads (m_k ms_dying) 11"] by (simp_all add: ms_dying_def ms_duo_def thread_blank_def)

theorem gc_do_thread_destroys_witness:
  "\<exists>ms'. gc_do_thread True ms_dying 1 2 = Some (0, ms') \<and> thread_inv (m_k ms') 0 [10] \<and> rw_free (l_processLock (m_k ms')) \<and>
    \<not> ISSET (pg_phys (m_pg ms')) 8"
  using gc_do_thread_destroys [OF ms_dying_process(1) _ ms_dying_process(3) ms_dying_threads(1) _ ms_dying_fields(2,3) ms_dying_tree _ ms_dying_threads(2), of True]
  by (auto simp: ms_dying_process ms_dying_fields)

text \<open>
  When the thread to destroy is not in its process any more, \<open>gc_do_thread\<close> returns -1 without giving the process back:
  the process list stays locked for reading and the process for writing, so that nobody can write the list or check out the
  process again.
\<close>

theorem gc_do_thread_keeps_locks:
  assumes "ptable_inv (m_k ms) ps" "proc \<in> set ps" "rw_free (p_lock (procs (m_k ms) proc))" "get_thread (m_k ms) proc tid = Some None"
  shows "\<exists>ms'. gc_do_thread flag ms (pid_of (m_k ms) proc) tid = Some (-1, ms') \<and> write_processes (m_k ms') = None \<and>
    rwlock_get_read_access (p_lock (procs (m_k ms') proc)) = None \<and> rwlock_get_write_access (p_lock (procs (m_k ms') proc)) = None"
proof -
  obtain pl l where c: "checkout_process (m_k ms) (pid_of (m_k ms) proc) WRITER =
      Some (Some proc, upd_proc proc (\<lambda>p. p\<lparr>p_lock := pl\<rparr>) ((m_k ms)\<lparr>l_processLock := l\<rparr>))" "num_readers l = 1" "num_writers pl = 1"
    using checkout_writer [OF assms(1-3)] by blast
  have "rwlock_get_write_access l = None" "rwlock_get_read_access pl = None" "rwlock_get_write_access pl = None"
    using c(2,3) by (simp_all add: rwlock_get_write_access_def rwlock_get_read_access_def assert_def)
  then show ?thesis
    using c(1) assms(4) by (simp add: gc_do_thread_def write_processes_def)
qed

theorem gc_do_thread_keeps_locks_witness:
  "\<exists>ms'. gc_do_thread True ms_dying 1 7 = Some (-1, ms') \<and> write_processes (m_k ms') = None"
proof -
  have a: "thread_addrs (m_k ms_dying) 0 = [10, 11]"
    using k_duo_threads by (simp add: thread_addrs_def ms_dying_def ms_duo_def)
  have "threads_ok (m_k ms_dying) 0" using ms_dying_threads(1) by (simp add: thread_inv_def port_inv_def)
  moreover have "7 \<notin> tids (m_k ms_dying) 0"
    unfolding tids_def a by (simp add: ms_dying_def ms_duo_def thread_blank_def)
  ultimately have "get_thread (m_k ms_dying) 0 7 = Some None"
    using get_thread_none_iff [of "m_k ms_dying" 0 7] by (simp add: tid_small_def)
  from gc_do_thread_keeps_locks [OF ms_dying_process(1) _ ms_dying_process(3) this, of True]
  show ?thesis by (auto simp: ms_dying_process)
qed

text \<open>
  The thirty-third entry is refused: the result is -1 and nothing changes, the entries that wait included.
\<close>

theorem gc_queue_full:
  assumes "length (gq_list (CPUID (m_k (g_ms g))) g) = MAX_GC"
  shows "gc_queue g pid tid = Some (-1, g)"
  using assms by (simp add: gc_queue_eq Let_def length_gq_list)

definition gs_full :: gstate where
  "gs_full = gs_empty\<lparr>g_q := (\<lambda>_. \<lparr>q_info = (\<lambda>_. \<lparr>gi_pid = 1, gi_tid = 1\<rparr>), q_pos = 5, q_size = 32\<rparr>)\<rparr>"

theorem gc_queue_full_witness: "gc_queue gs_full 4 (-1) = Some (-1, gs_full)"
  by (rule gc_queue_full) (simp add: length_gq_list gs_full_def MAX_GC_def)

end
