(* ===== verification/Shmem.thy ===== *)
theory Shmem
  imports Process Scheduler
begin

unbundle bit_operations_syntax

section \<open>Shared memory (kernel/src/shmem.c)\<close>

text \<open>
  A shared region is a run of physical pages with an owner, a name and a list of the processes that may map it.
  Regions are found by id in a hash table; the table has a reader/writer lock and so has every region.
  The state is that of the kernel and its memory with the three globals and a store of \<open>struct shmem\<close>. The
  list of users is a list of records, the first one being \<open>sh->list\<close>; a search gives a position in it.
  The values of \<open>int\<close> fields are compared modulo \<open>2 ^ 32\<close> where one side is unsigned.

  What \<open>malloc\<close> finds is an argument: the address of a new region, whether there is room for a user record and
  whether the table can be resized. Memory of a region that was freed keeps its content.
\<close>

definition SHMEM_RDWR :: u32 where "SHMEM_RDWR = 1"
definition SHMEM_IMMORTAL :: u32 where "SHMEM_IMMORTAL = 2"
definition SHMEM_PROMISCUOUS :: u32 where "SHMEM_PROMISCUOUS = 4"
definition SHMEM_ORPHAN :: u32 where "SHMEM_ORPHAN = 32"
definition SHMEM_MASK :: u32 where "SHMEM_MASK = 1 OR 2 OR 4"

record shmem_info =
  si_pid :: int
  si_virtual_location :: u32
  si_virtual_pages :: int
  si_flags :: u32
  si_usage :: int
  si_tmp :: "addr option"
  si_tmp2 :: u32

record shmem =
  sh_id :: int
  sh_name :: buffer
  sh_lock :: rwlock
  sh_pid :: int
  sh_flags :: u32
  sh_internal :: u32
  sh_physical_location :: u32
  sh_physical_pages :: int
  sh_list :: "shmem_info list"

record shstate =
  shm_m :: mstate
  shmem_table :: "addr htable"
  shmem_id :: int
  shmem_lock :: rwlock
  shmems :: "addr \<Rightarrow> shmem"

definition upd_shmem :: "addr \<Rightarrow> (shmem \<Rightarrow> shmem) \<Rightarrow> shstate \<Rightarrow> shstate" where
  "upd_shmem a f st = st\<lparr>shmems := (shmems st)(a := f (shmems st a))\<rparr>"

definition upd_list :: "addr \<Rightarrow> shmem_info list \<Rightarrow> shstate \<Rightarrow> shstate" where
  "upd_list a xs = upd_shmem a (\<lambda>s. s\<lparr>sh_list := xs\<rparr>)"

definition in_pg :: "(pgmem \<Rightarrow> pgmem) \<Rightarrow> shstate \<Rightarrow> shstate" where
  "in_pg f st = st\<lparr>shm_m := (shm_m st)\<lparr>m_pg := f (m_pg (shm_m st))\<rparr>\<rparr>"

definition in_k :: "(kstate \<Rightarrow> kstate) \<Rightarrow> shstate \<Rightarrow> shstate" where
  "in_k f st = st\<lparr>shm_m := (shm_m st)\<lparr>m_k := f (m_k (shm_m st))\<rparr>\<rparr>"

abbreviation pg :: "shstate \<Rightarrow> pgmem" where "pg st \<equiv> m_pg (shm_m st)"
abbreviation ph :: "shstate \<Rightarrow> physmem" where "ph st \<equiv> pg_phys (m_pg (shm_m st))"

subsection \<open>The table\<close>

definition shmem_key :: "int \<Rightarrow> int" where "shmem_key i = wrap32 (i * 100)"

definition shmem_cmp :: "shmem \<Rightarrow> int \<Rightarrow> int" where
  "shmem_cmp sa i = (if sh_id sa = i then 0 else if sh_id sa < i then -1 else 1)"

text \<open>\<open>htable_retrieve( shmem_table, &sample )\<close>, where only the id of the sample is set.\<close>

definition lookup_shmem :: "shstate \<Rightarrow> int \<Rightarrow> addr option option" where
  "lookup_shmem st i = htable_retrieve shmem_key (\<lambda>a. shmem_cmp (shmems st a)) (shmem_table st) i"

definition shmem_init :: "bool \<Rightarrow> bool \<Rightarrow> shstate \<Rightarrow> (int \<times> shstate) option" where
  "shmem_init mem mem_array st = do {
     t \<leftarrow> init_htable mem mem_array 64 80;
     t \<leftarrow> t;
     Some (0, st\<lparr>shmem_table := t, shmem_id := 0, shmem_lock := init_rwlock\<rparr>)
   }"

definition shmem_shutdown :: "shstate \<Rightarrow> (int \<times> shstate) option" where
  "shmem_shutdown st = do { assert ((0 :: int) \<noteq> 0); Some (0, st) }"

text \<open>The locks of the table.\<close>

definition read_shmem :: "shstate \<Rightarrow> shstate option" where
  "read_shmem st = do { l \<leftarrow> rwlock_get_read_access (shmem_lock st); Some (st\<lparr>shmem_lock := l\<rparr>) }"

definition write_shmem :: "shstate \<Rightarrow> shstate option" where
  "write_shmem st = do { l \<leftarrow> rwlock_get_write_access (shmem_lock st); Some (st\<lparr>shmem_lock := l\<rparr>) }"

definition release_shmem :: "shstate \<Rightarrow> shstate" where
  "release_shmem st = st\<lparr>shmem_lock := rwlock_release (shmem_lock st)\<rparr>"

definition write_region :: "addr \<Rightarrow> shstate \<Rightarrow> shstate option" where
  "write_region a st = do { l \<leftarrow> rwlock_get_write_access (sh_lock (shmems st a)); Some (upd_shmem a (\<lambda>s. s\<lparr>sh_lock := l\<rparr>) st) }"

definition release_region :: "addr \<Rightarrow> shstate \<Rightarrow> shstate" where
  "release_region a = upd_shmem a (\<lambda>s. s\<lparr>sh_lock := rwlock_release (sh_lock s)\<rparr>)"

subsection \<open>Creation\<close>

text \<open>\<open>shmem_id++; if ( shmem_id < 0 ) shmem_id = 0;\<close>\<close>

definition after_id :: "int \<Rightarrow> int" where
  "after_id i = (let n = wrap32 (i + 1) in if n < 0 then 0 else n)"

partial_function (option) shmem_id_loop :: "shstate \<Rightarrow> int \<Rightarrow> int option" where
  "shmem_id_loop st i = do {
     r \<leftarrow> lookup_shmem st i;
     if r = None then Some i else shmem_id_loop st (after_id i)
   }"

definition shmem_create_direct ::
    "addr option \<Rightarrow> bool \<Rightarrow> shstate \<Rightarrow> buffer \<Rightarrow> int \<Rightarrow> int \<Rightarrow> u32 \<Rightarrow> u32 \<Rightarrow> u32 \<Rightarrow> (int \<times> shstate) option" where
  "shmem_create_direct new mem st name pid pages flags location internal =
     (if pages \<le> 0 then Some (-1, st)
      else do {
        len \<leftarrow> strlen name;
        if len \<le> 0 then Some (-1, st)
        else (case new of
          None \<Rightarrow> Some (-1, st)
        | Some sh \<Rightarrow> do {
            let st = upd_shmem sh (\<lambda>s. s\<lparr>sh_pid := pid, sh_physical_location := location, sh_physical_pages := pages,
              sh_flags := flags AND SHMEM_MASK, sh_internal := internal, sh_list := [], sh_lock := init_rwlock,
              sh_name := strncpy (sh_name s) name NAME_LENGTH\<rparr>) st;
            st \<leftarrow> write_shmem st;
            i \<leftarrow> shmem_id_loop st (shmem_id st);
            let st = upd_shmem sh (\<lambda>s. s\<lparr>sh_id := i\<rparr>) (st\<lparr>shmem_id := after_id i\<rparr>);
            (_, t) \<leftarrow> htable_insert mem (\<lambda>a. shmem_key (sh_id (shmems st a))) (shmem_table st) sh;
            Some (i, release_shmem (st\<lparr>shmem_table := t\<rparr>))
          })
      })"

definition shmem_create :: "addr option \<Rightarrow> bool \<Rightarrow> shstate \<Rightarrow> buffer \<Rightarrow> int \<Rightarrow> int \<Rightarrow> u32 \<Rightarrow> (int \<times> shstate) option" where
  "shmem_create new mem st name pid pages flags = do {
     (location, p) \<leftarrow> memory_alloc (ph st) pages;
     let st = in_pg (\<lambda>g. g\<lparr>pg_phys := p\<rparr>) st;
     if location = 0 then Some (-1, st)
     else do {
       (i, st) \<leftarrow> shmem_create_direct new mem st name pid pages flags location 1;
       if i < 0 then do {
         p \<leftarrow> memory_free (ph st) pages location;
         Some (i, in_pg (\<lambda>g. g\<lparr>pg_phys := p\<rparr>) st)
       }
       else Some (i, st)
     }
   }"

subsection \<open>Access\<close>

text \<open>
  What \<open>shmem_grant\<close>, \<open>shmem_revoke\<close>, \<open>shmem_request\<close> and \<open>shmem_release\<close> have in common: the region is looked up under the lock of
  the table, its lock is taken for writing, and both are released on every return.
\<close>

definition with_region :: "'r \<Rightarrow> shstate \<Rightarrow> int \<Rightarrow> (addr \<Rightarrow> shstate \<Rightarrow> ('r \<times> shstate) option) \<Rightarrow> ('r \<times> shstate) option" where
  "with_region missing st i body = do {
     st \<leftarrow> read_shmem st;
     r \<leftarrow> lookup_shmem st i;
     (case r of
        None \<Rightarrow> Some (missing, release_shmem st)
      | Some sh \<Rightarrow> do {
          st \<leftarrow> write_region sh st;
          (rc, st) \<leftarrow> body sh st;
          Some (rc, release_shmem (release_region sh st))
        })
   }"

text \<open>The walk along the users: the position of the first one with the given pid. \<open>proc->pid\<close> is unsigned.\<close>

fun find_info :: "int \<Rightarrow> shmem_info list \<Rightarrow> nat option" where
  "find_info pid [] = None"
| "find_info pid (x # xs) = (if upid (si_pid x) = upid pid then Some 0 else map_option Suc (find_info pid xs))"

definition new_info :: "int \<Rightarrow> u32 \<Rightarrow> shmem_info" where
  "new_info pid flags = \<lparr>si_pid = pid, si_virtual_location = 0, si_virtual_pages = -1, si_flags = flags AND SHMEM_MASK,
     si_usage = 0, si_tmp = None, si_tmp2 = 0\<rparr>"

text \<open>\<open>list_remove\<close> of the user at a position.\<close>

definition drop_info :: "nat \<Rightarrow> shmem_info list \<Rightarrow> shmem_info list" where
  "drop_info n xs = take n xs @ drop (Suc n) xs"

definition page_rights :: "u32 \<Rightarrow> u32" where
  "page_rights flags = (if flags AND SHMEM_RDWR = SHMEM_RDWR then USER_PAGE OR READ_WRITE else USER_PAGE OR READ_ONLY)"

definition grant_in :: "bool \<Rightarrow> int \<Rightarrow> int \<Rightarrow> u32 \<Rightarrow> addr \<Rightarrow> shstate \<Rightarrow> (int \<times> shstate) option" where
  "grant_in mem_info owner pid flags sh st =
     (let s = shmems st sh in
      Some (if owner \<noteq> sh_pid s then (-1, st)
            else if find_info pid (sh_list s) \<noteq> None then (-1, st)
            else if \<not> mem_info then (-1, st)
            else (0, upd_list sh (new_info pid flags # sh_list s) st)))"

definition shmem_grant :: "bool \<Rightarrow> shstate \<Rightarrow> int \<Rightarrow> int \<Rightarrow> int \<Rightarrow> u32 \<Rightarrow> (int \<times> shstate) option" where
  "shmem_grant mem_info st owner i pid flags = with_region (-1) st i (grant_in mem_info owner pid flags)"

text \<open>\<open>memcpy\<close> between two runs of physical memory, which the kernel sees at their own addresses; they are taken to be disjoint.\<close>

definition copy_phys :: "u32 \<Rightarrow> u32 \<Rightarrow> int \<Rightarrow> pgmem \<Rightarrow> pgmem" where
  "copy_phys dest src pages g = g\<lparr>pg_bytes := (\<lambda>a. memcpy (\<lambda>j. pg_bytes g (dest + of_nat j)) (\<lambda>j. pg_bytes g (src + of_nat j))
     (unat (of_int pages * of_nat PAGE_SIZE :: u32)) (unat (a - dest)))\<rparr>"

definition revoke_in :: "int \<Rightarrow> addr \<Rightarrow> addr \<Rightarrow> shstate \<Rightarrow> (int \<times> shstate) option" where
  "revoke_in owner proc sh st =
     (let s = shmems st sh in
      if owner \<noteq> sh_pid s then Some (-1, st)
      else (case find_info (p_pid (procs (m_k (shm_m st)) proc)) (sh_list s) of
        None \<Rightarrow> Some (-1, st)
      | Some n \<Rightarrow>
          (let info = sh_list s ! n;
               gone = upd_list sh (drop_info n (sh_list s)) in
           if si_usage info > 0 then do {
             let (enabled, k) = disable_interrupts (m_k (shm_m st));
             (data, p) \<leftarrow> memory_alloc (ph st) (sh_physical_pages s);
             let st = in_k (\<lambda>_. k) (in_pg (\<lambda>g. g\<lparr>pg_phys := p\<rparr>) st);
             if data = 0 then Some (-1, st)
             else do {
               (_, g) \<leftarrow> page_direct_map (pg st) (m_map (shm_m st) proc) data (si_virtual_location info)
                 (of_int (si_virtual_pages info)) (page_rights (si_flags info));
               let st = in_pg (\<lambda>_. copy_phys data (sh_physical_location s) (sh_physical_pages s) g) st;
               Some (0, gone (if enabled then in_k enable_interrupts st else st))
             }
           }
           else Some (0, gone st))))"

definition shmem_revoke :: "shstate \<Rightarrow> int \<Rightarrow> addr \<Rightarrow> int \<Rightarrow> (int \<times> shstate) option" where
  "shmem_revoke st owner proc i = with_region (-1) st i (revoke_in owner proc)"

text \<open>The three results of a request that succeeds are where the region is mapped, its pages and its flags.\<close>

type_synonym mapping = "u32 \<times> int \<times> u32"

definition use_info :: "addr \<Rightarrow> nat \<Rightarrow> shmem_info \<Rightarrow> shstate \<Rightarrow> (int \<times> mapping option) \<times> shstate" where
  "use_info sh n info st = ((0, Some (si_virtual_location info, si_virtual_pages info, si_flags info)),
     upd_list sh ((sh_list (shmems st sh))[n := info\<lparr>si_usage := wrap32 (si_usage info + 1)\<rparr>]) st)"

text \<open>A process that is not a user joins a promiscuous region.\<close>

definition joins :: "shstate \<Rightarrow> addr \<Rightarrow> addr \<Rightarrow> bool" where
  "joins st proc sh \<longleftrightarrow> find_info (p_pid (procs (m_k (shm_m st)) proc)) (sh_list (shmems st sh)) = None \<and>
     sh_flags (shmems st sh) AND SHMEM_PROMISCUOUS = SHMEM_PROMISCUOUS"

definition joined :: "shstate \<Rightarrow> addr \<Rightarrow> addr \<Rightarrow> shmem_info list" where
  "joined st proc sh = (let s = shmems st sh in
     if joins st proc sh then new_info (wrap32 (p_pid (procs (m_k (shm_m st)) proc))) (sh_flags s) # sh_list s else sh_list s)"

definition request_in :: "bool \<Rightarrow> addr \<Rightarrow> addr \<Rightarrow> shstate \<Rightarrow> ((int \<times> mapping option) \<times> shstate) option" where
  "request_in mem_info proc sh st =
     (let s = shmems st sh in
      if joins st proc sh \<and> \<not> mem_info then Some ((-1, None), st)
      else (let xs = joined st proc sh; st = upd_list sh xs st in
        (case find_info (p_pid (procs (m_k (shm_m st)) proc)) xs of
           None \<Rightarrow> Some ((-1, None), st)
         | Some n \<Rightarrow>
             (let info = xs ! n in
              if si_virtual_pages info < 0 then do {
                (a, g) \<leftarrow> page_provide (pg st) (m_map (shm_m st) proc) (sh_physical_location s) sK_BASE sK_CEILING
                  (of_int (sh_physical_pages s)) (page_rights (si_flags info));
                let st = in_pg (\<lambda>_. g) st;
                let info = info\<lparr>si_virtual_location := a\<rparr>;
                Some (if a = 0 then ((-1, None), upd_list sh (xs[n := info]) st)
                      else use_info sh n (info\<lparr>si_virtual_pages := sh_physical_pages s\<rparr>) st)
              }
              else Some (use_info sh n info st)))))"

definition shmem_request :: "bool \<Rightarrow> shstate \<Rightarrow> addr \<Rightarrow> int \<Rightarrow> ((int \<times> mapping option) \<times> shstate) option" where
  "shmem_request mem_info st proc i = with_region (-1, None) st i (request_in mem_info proc)"

definition release_in :: "addr \<Rightarrow> addr \<Rightarrow> shstate \<Rightarrow> (int \<times> shstate) option" where
  "release_in proc sh st =
     (let xs = sh_list (shmems st sh) in
      (case find_info (p_pid (procs (m_k (shm_m st)) proc)) xs of
         None \<Rightarrow> Some (-1, st)
       | Some n \<Rightarrow>
           (let info = (xs ! n)\<lparr>si_usage := wrap32 (si_usage (xs ! n) - 1)\<rparr> in
            if si_usage info = 0
            then Some (0, upd_list sh (xs[n := info\<lparr>si_virtual_location := 0, si_virtual_pages := -1\<rparr>])
              (in_pg (\<lambda>g. snd (page_release g (m_map (shm_m st) proc) (si_virtual_location info) (si_virtual_pages info))) st))
            else Some (0, upd_list sh (xs[n := info]) st))))"

definition shmem_release :: "shstate \<Rightarrow> addr \<Rightarrow> int \<Rightarrow> (int \<times> shstate) option" where
  "shmem_release st proc i = with_region (-1) st i (release_in proc)"

subsection \<open>Search\<close>

text \<open>The entries of the table are visited by number.\<close>

function shmem_find_loop :: "shstate \<Rightarrow> buffer \<Rightarrow> int \<Rightarrow> addr option" where
  "shmem_find_loop st name i =
     (case htable_get (shmem_table st) i of
        None \<Rightarrow> None
      | Some a \<Rightarrow> if strncmp name (sh_name (shmems st a)) NAME_LENGTH = 0 then Some a else shmem_find_loop st name (i + 1))"
  by pat_completeness auto
termination
  by (relation "measure (\<lambda>(st, name, i). nat (ht_total (shmem_table st) - i))") (auto simp: htable_get_def split: if_splits)

declare shmem_find_loop.simps [simp del]

text \<open>The second result is what is stored through \<open>pid\<close>.\<close>

definition shmem_find :: "shstate \<Rightarrow> buffer \<Rightarrow> (int \<times> int option \<times> shstate) option" where
  "shmem_find st name = do {
     st \<leftarrow> read_shmem st;
     Some (case shmem_find_loop st name 0 of
         None \<Rightarrow> (-1, None, release_shmem st)
       | Some a \<Rightarrow> (sh_id (shmems st a), Some (sh_pid (shmems st a)), release_shmem st))
   }"

function shmem_get_loop :: "shstate \<Rightarrow> int \<Rightarrow> int \<Rightarrow> addr option" where
  "shmem_get_loop st num i =
     (case htable_get (shmem_table st) i of
        None \<Rightarrow> None
      | Some a \<Rightarrow> if i + 1 > num then Some a else shmem_get_loop st num (i + 1))"
  by pat_completeness auto
termination
  by (relation "measure (\<lambda>(st, num, i). nat (ht_total (shmem_table st) - i))") (auto simp: htable_get_def split: if_splits)

declare shmem_get_loop.simps [simp del]

definition shmem_get :: "shstate \<Rightarrow> int \<Rightarrow> buffer \<Rightarrow> (int \<times> (buffer \<times> int \<times> int \<times> u32) option \<times> shstate) option" where
  "shmem_get st num name = do {
     st \<leftarrow> read_shmem st;
     Some (case shmem_get_loop st num 0 of
         None \<Rightarrow> (-1, None, release_shmem st)
       | Some a \<Rightarrow> (let s = shmems st a in
           (0, Some (strncpy name (sh_name s) NAME_LENGTH, sh_pid s, sh_physical_pages s, sh_flags s), release_shmem st)))
   }"

subsection \<open>Deletion\<close>

text \<open>
  The three walks along the users: check out the processes that still use the region and find scratch memory for each; copy the region and map the copies;
  release the processes. The number of users found is the second result of the first walk.
\<close>

fun checkout_users :: "int \<Rightarrow> shmem_info list \<Rightarrow> mstate \<Rightarrow> ((shmem_info list \<times> int) \<times> mstate) option" where
  "checkout_users pages [] ms = Some (([], 0), ms)"
| "checkout_users pages (x # xs) ms = do {
     ((x, c), ms) \<leftarrow>
       (if si_usage x > 0 then do {
          (p, k) \<leftarrow> checkout_process (m_k ms) (si_pid x) WRITER;
          (case p of
             None \<Rightarrow> Some ((x\<lparr>si_tmp := None\<rparr>, 0), ms\<lparr>m_k := k\<rparr>)
           | Some a \<Rightarrow> do {
               (scratch, q) \<leftarrow> memory_alloc (pg_phys (m_pg ms)) pages;
               Some ((x\<lparr>si_tmp := Some a, si_tmp2 := scratch\<rparr>, 1), ms\<lparr>m_k := k, m_pg := (m_pg ms)\<lparr>pg_phys := q\<rparr>\<rparr>)
             })
        }
        else Some ((x, 0), ms));
     ((xs, n), ms) \<leftarrow> checkout_users pages xs ms;
     Some ((x # xs, c + n), ms)
   }"

fun map_scratch :: "u32 \<Rightarrow> int \<Rightarrow> shmem_info list \<Rightarrow> mstate \<Rightarrow> mstate option" where
  "map_scratch location pages [] ms = Some ms"
| "map_scratch location pages (x # xs) ms = do {
     ms \<leftarrow>
       (case si_tmp x of
          None \<Rightarrow> Some ms
        | Some proc \<Rightarrow>
            if si_tmp2 x \<noteq> 0 then do {
              (_, g) \<leftarrow> page_direct_map (copy_phys (si_tmp2 x) location pages (m_pg ms)) (m_map ms proc) (si_tmp2 x)
                (si_virtual_location x) (of_int pages) (page_rights (si_flags x));
              Some (ms\<lparr>m_pg := g\<rparr>)
            }
            else Some ms);
     map_scratch location pages xs ms
   }"

fun commit_users :: "shmem_info list \<Rightarrow> kstate \<Rightarrow> kstate" where
  "commit_users [] k = k"
| "commit_users (x # xs) k = commit_users xs (case si_tmp x of None \<Rightarrow> k | Some a \<Rightarrow> commit_process a k)"

text \<open>What follows when the region is out of the table.\<close>

definition dismantle :: "shmem \<Rightarrow> mstate \<Rightarrow> mstate option" where
  "dismantle s ms = do {
     ((xs, users), ms) \<leftarrow> checkout_users (sh_physical_pages s) (sh_list s) ms;
     ms \<leftarrow> (if users > 0 then do {
              let (enabled, k) = disable_interrupts (m_k ms);
              ms \<leftarrow> map_scratch (sh_physical_location s) (sh_physical_pages s) xs (ms\<lparr>m_k := k\<rparr>);
              Some (if enabled then ms\<lparr>m_k := enable_interrupts (m_k ms)\<rparr> else ms)
            }
            else Some ms);
     let ms = ms\<lparr>m_k := commit_users xs (m_k ms)\<rparr>;
     if sh_internal s \<noteq> 0 then do {
       p \<leftarrow> memory_free (pg_phys (m_pg ms)) (sh_physical_pages s) (sh_physical_location s);
       Some (ms\<lparr>m_pg := (m_pg ms)\<lparr>pg_phys := p\<rparr>\<rparr>)
     }
     else Some ms
   }"

definition shmem_delete :: "bool \<Rightarrow> shstate \<Rightarrow> int \<Rightarrow> int \<Rightarrow> (int \<times> shstate) option" where
  "shmem_delete mem st owner i = do {
     st \<leftarrow> write_shmem st;
     r \<leftarrow> lookup_shmem st i;
     (case r of
        None \<Rightarrow> Some (-1, release_shmem st)
      | Some sh \<Rightarrow>
          if owner \<noteq> sh_pid (shmems st sh) then Some (-1, release_shmem st)
          else do {
            (rc, t) \<leftarrow> htable_remove mem (\<lambda>a. shmem_key (sh_id (shmems st a))) (shmem_table st) sh;
            assert (rc = 0);
            let st = release_shmem (st\<lparr>shmem_table := t\<rparr>);
            ms \<leftarrow> dismantle (shmems st sh) (shm_m st);
            Some (0, st\<lparr>shm_m := ms\<rparr>)
          })
   }"

text \<open>\<open>shmem_clean\<close>, from entry \<open>i\<close> of the table on; after a deletion it begins again.\<close>

partial_function (option) shmem_clean_loop :: "bool \<Rightarrow> int \<Rightarrow> int \<Rightarrow> shstate \<Rightarrow> (int \<times> shstate) option" where
  "shmem_clean_loop mem pid i st =
     (case htable_get (shmem_table st) i of
        None \<Rightarrow> Some (0, release_shmem st)
      | Some a \<Rightarrow>
          if sh_pid (shmems st a) \<noteq> pid then shmem_clean_loop mem pid (i + 1) st
          else if sh_flags (shmems st a) AND SHMEM_IMMORTAL = SHMEM_IMMORTAL then do {
            st \<leftarrow> write_region a st;
            shmem_clean_loop mem pid (i + 1) (release_region a (upd_shmem a (\<lambda>s. s\<lparr>sh_flags := sh_flags s OR SHMEM_ORPHAN\<rparr>) st))
          }
          else do {
            (rc, st) \<leftarrow> shmem_delete mem (release_shmem st) pid (sh_id (shmems st a));
            if rc \<noteq> 0 then Some (-1, st)
            else do { st \<leftarrow> read_shmem st; shmem_clean_loop mem pid 0 st }
          })"

definition shmem_clean :: "bool \<Rightarrow> shstate \<Rightarrow> int \<Rightarrow> (int \<times> shstate) option" where
  "shmem_clean mem st pid = do { st \<leftarrow> read_shmem st; shmem_clean_loop mem pid 0 st }"

subsection \<open>The invariant\<close>

text \<open>
  Ids are small and different, and the record of a process is in a list only once. What holds of each record is a parameter: whatever calls are made, it says that the
  whole region is mapped or nothing of it (\<open>info_whole\<close>); and if processes release only what they have requested, the region is mapped exactly while the counter is
  positive (\<open>info_inv\<close>).
\<close>

definition regions :: "shstate \<Rightarrow> addr set" where "regions st = set (ht_list (shmem_table st))"

definition sid :: "shstate \<Rightarrow> addr \<Rightarrow> int" where "sid st a = sh_id (shmems st a)"

definition skey :: "shstate \<Rightarrow> addr \<Rightarrow> int" where "skey st a = shmem_key (sid st a)"

definition sid_small :: "int \<Rightarrow> bool" where "sid_small i \<longleftrightarrow> 0 \<le> i \<and> i \<le> 2 ^ 23"

definition info_inv :: "int \<Rightarrow> shmem_info \<Rightarrow> bool" where
  "info_inv pages x \<longleftrightarrow> si_tmp x = None \<and> 0 \<le> si_usage x \<and> si_usage x < 2 ^ 31 \<and>
     (if si_usage x = 0 then si_virtual_pages x = -1 \<and> si_virtual_location x = 0 else si_virtual_pages x = pages)"

definition info_whole :: "int \<Rightarrow> shmem_info \<Rightarrow> bool" where
  "info_whole pages x \<longleftrightarrow> si_tmp x = None \<and> (si_virtual_pages x = -1 \<and> si_virtual_location x = 0 \<or> si_virtual_pages x = pages)"

definition region_ok :: "(int \<Rightarrow> shmem_info \<Rightarrow> bool) \<Rightarrow> shmem \<Rightarrow> bool" where
  "region_ok P s \<longleftrightarrow> rw_free (sh_lock s) \<and> 0 < sh_physical_pages s \<and> distinct (map (upid \<circ> si_pid) (sh_list s)) \<and>
     (\<forall>x\<in>set (sh_list s). P (sh_physical_pages s) x)"

definition shtable_inv :: "shstate \<Rightarrow> bool" where
  "shtable_inv st \<longleftrightarrow> ht_ready (skey st) (shmem_table st) \<and> distinct (ht_list (shmem_table st)) \<and>
     inj_on (sid st) (regions st) \<and> (\<forall>a\<in>regions st. sid_small (sid st a))"

definition shmem_ok :: "(int \<Rightarrow> shmem_info \<Rightarrow> bool) \<Rightarrow> shstate \<Rightarrow> bool" where
  "shmem_ok P st \<longleftrightarrow> shtable_inv st \<and> (\<forall>a\<in>regions st. region_ok P (shmems st a)) \<and> rw_free (shmem_lock st) \<and> 0 \<le> shmem_id st"

abbreviation region_inv :: "shmem \<Rightarrow> bool" where "region_inv \<equiv> region_ok info_inv"
abbreviation shmem_inv :: "shstate \<Rightarrow> bool" where "shmem_inv \<equiv> shmem_ok info_inv"

lemmas region_inv_def = region_ok_def
lemmas shmem_inv_def = shmem_ok_def

lemma shmem_key_small: "sid_small i \<Longrightarrow> shmem_key i = i * 100 \<and> key_small (shmem_key i)"
  by (simp add: shmem_key_def key_small_def ht_abs_key_def sid_small_def)

lemma skey_fun: "(\<lambda>a. shmem_key (sh_id (shmems st a))) = skey st"
  by (simp add: skey_def sid_def fun_eq_iff)

lemma shmem_cmp_zero [simp]: "shmem_cmp s i = 0 \<longleftrightarrow> sh_id s = i"
  by (simp add: shmem_cmp_def)

lemma lookup_shmem_iff:
  assumes "shtable_inv st" "sid_small i"
  shows "\<exists>r. lookup_shmem st i = Some r \<and> (\<forall>a. r = Some a \<longleftrightarrow> a \<in> regions st \<and> sid st a = i)"
proof -
  have r: "ht_ready (skey st) (shmem_table st)" and inj: "inj_on (sid st) (regions st)"
    using assms(1) by (simp_all add: shtable_inv_def)
  have "key_small (shmem_key i)" using shmem_key_small [OF assms(2)] ..
  from ht.look_cases [where skey = shmem_key and s = i and cmp = "\<lambda>a. shmem_cmp (shmems st a)", OF r this]
  consider a where "lookup_shmem st i = Some (Some a)" "a \<in> regions st" "sid st a = i"
    | "lookup_shmem st i = Some None" "\<And>a. a \<in> regions st \<Longrightarrow> sid st a \<noteq> i"
    by (auto simp: lookup_shmem_def regions_def sid_def)
  then show ?thesis by cases (use inj in \<open>auto dest: inj_onD\<close>)
qed

lemma lookup_shmem_some: "shtable_inv st \<Longrightarrow> a \<in> regions st \<Longrightarrow> lookup_shmem st (sid st a) = Some (Some a)"
  using lookup_shmem_iff [of st "sid st a"] by (auto simp: shtable_inv_def)

lemma lookup_shmem_none: "shtable_inv st \<Longrightarrow> sid_small i \<Longrightarrow> i \<notin> sid st ` regions st \<Longrightarrow> lookup_shmem st i = Some None"
  using lookup_shmem_iff [of st i] by (metis image_eqI not_Some_eq)

text \<open>What the locks are laid around.\<close>

definition locked :: "rwlock \<Rightarrow> rwlock \<Rightarrow> addr \<Rightarrow> shstate \<Rightarrow> shstate" where
  "locked l w a st = upd_shmem a (\<lambda>s. s\<lparr>sh_lock := w\<rparr>) (st\<lparr>shmem_lock := l\<rparr>)"

lemma locked_fields [simp]:
  "shm_m (locked l w a st) = shm_m st" "shmem_table (locked l w a st) = shmem_table st"
  "shmems (locked l w a st) a = (shmems st a)\<lparr>sh_lock := w\<rparr>"
  by (simp_all add: locked_def upd_shmem_def)

lemma locked_frame [simp]:
  "upd_list a xs (locked l w a st) = locked l w a (upd_list a xs st)"
  "in_pg f (locked l w a st) = locked l w a (in_pg f st)" "in_k h (locked l w a st) = locked l w a (in_k h st)"
  by (simp_all add: locked_def upd_shmem_def upd_list_def in_pg_def in_k_def fun_eq_iff)

lemma upd_list_fields [simp]:
  "shm_m (upd_list a xs st) = shm_m st" "shmem_table (upd_list a xs st) = shmem_table st" "shmem_lock (upd_list a xs st) = shmem_lock st"
  "shmem_id (upd_list a xs st) = shmem_id st"
  "shmems (upd_list a xs st) = (shmems st)(a := (shmems st a)\<lparr>sh_list := xs\<rparr>)"
  "upd_list a xs (upd_list a ys st) = upd_list a xs st" "upd_list a (sh_list (shmems st a)) st = st"
  by (simp_all add: upd_list_def upd_shmem_def)

lemma in_pg_fields [simp]:
  "shm_m (in_pg f st) = (shm_m st)\<lparr>m_pg := f (pg st)\<rparr>" "shmem_table (in_pg f st) = shmem_table st" "shmem_lock (in_pg f st) = shmem_lock st"
  "shmem_id (in_pg f st) = shmem_id st" "shmems (in_pg f st) = shmems st"
  by (simp_all add: in_pg_def)

lemma in_k_fields [simp]:
  "shm_m (in_k f st) = (shm_m st)\<lparr>m_k := f (m_k (shm_m st))\<rparr>" "shmem_table (in_k f st) = shmem_table st" "shmem_lock (in_k f st) = shmem_lock st"
  "shmem_id (in_k f st) = shmem_id st" "shmems (in_k f st) = shmems st"
  by (simp_all add: in_k_def)

lemma unlock:
  assumes "rwlock_release l = shmem_lock st" "rwlock_release w = sh_lock (shmems st a)"
  shows "release_shmem (release_region a (locked l w a st)) = st"
  using assms by (simp add: release_shmem_def release_region_def locked_def upd_shmem_def)

text \<open>What the invariant of the table depends on.\<close>

lemma table_frame:
  assumes "shmem_table st' = shmem_table st" "\<And>a. sh_id (shmems st' a) = sh_id (shmems st a)"
  shows "regions st' = regions st" "sid st' = sid st" "skey st' = skey st" "shtable_inv st' = shtable_inv st" "lookup_shmem st' i = lookup_shmem st i"
proof -
  show e: "regions st' = regions st" "sid st' = sid st" "skey st' = skey st"
    using assms by (simp_all add: regions_def sid_def skey_def fun_eq_iff)
  show "shtable_inv st' = shtable_inv st" unfolding shtable_inv_def e assms(1) ..
  have "shmem_cmp (shmems st' a) = shmem_cmp (shmems st a)" for a
    using assms(2) by (simp add: shmem_cmp_def fun_eq_iff)
  then show "lookup_shmem st' i = lookup_shmem st i" by (simp add: lookup_shmem_def assms(1))
qed

lemma table_lock [simp]:
  "regions (st\<lparr>shmem_lock := l\<rparr>) = regions st" "sid (st\<lparr>shmem_lock := l\<rparr>) = sid st" "skey (st\<lparr>shmem_lock := l\<rparr>) = skey st"
  "shtable_inv (st\<lparr>shmem_lock := l\<rparr>) = shtable_inv st" "lookup_shmem (st\<lparr>shmem_lock := l\<rparr>) i = lookup_shmem st i"
  by (rule table_frame; simp)+

lemma table_list [simp]:
  "regions (upd_list a xs st) = regions st" "sid (upd_list a xs st) = sid st" "skey (upd_list a xs st) = skey st"
  "shtable_inv (upd_list a xs st) = shtable_inv st" "lookup_shmem (upd_list a xs st) i = lookup_shmem st i"
  by (rule table_frame; simp)+

lemma table_pg [simp]:
  "regions (in_pg f st) = regions st" "sid (in_pg f st) = sid st" "skey (in_pg f st) = skey st"
  "shtable_inv (in_pg f st) = shtable_inv st" "lookup_shmem (in_pg f st) i = lookup_shmem st i"
  by (rule table_frame; simp)+

lemma table_k [simp]:
  "regions (in_k f st) = regions st" "sid (in_k f st) = sid st" "skey (in_k f st) = skey st"
  "shtable_inv (in_k f st) = shtable_inv st" "lookup_shmem (in_k f st) i = lookup_shmem st i"
  by (rule table_frame; simp)+

lemma read_shmem_ok:
  assumes "rw_free (shmem_lock st)"
  obtains l where "read_shmem st = Some (st\<lparr>shmem_lock := l\<rparr>)" "rwlock_release l = shmem_lock st"
  using rw_read_release [OF assms] by (auto simp: read_shmem_def)

lemma write_shmem_ok:
  assumes "rw_free (shmem_lock st)"
  obtains l where "write_shmem st = Some (st\<lparr>shmem_lock := l\<rparr>)" "rwlock_release l = shmem_lock st"
  using rw_write_release [OF assms] by (auto simp: write_shmem_def)

text \<open>A region of the table whose locks are free.\<close>

definition access_ok :: "shstate \<Rightarrow> addr \<Rightarrow> bool" where
  "access_ok st a \<longleftrightarrow> shtable_inv st \<and> a \<in> regions st \<and> rw_free (shmem_lock st) \<and> rw_free (sh_lock (shmems st a))"

lemma inv_access: "shmem_ok P st \<Longrightarrow> a \<in> regions st \<Longrightarrow> access_ok st a"
  by (simp add: access_ok_def shmem_inv_def region_inv_def)

lemma with_region_some:
  assumes "access_ok st a"
  obtains l w where "with_region m st (sid st a) body =
      do { (rc, st1) \<leftarrow> body a (locked l w a st); Some (rc, release_shmem (release_region a st1)) }"
    "rwlock_release l = shmem_lock st" "rwlock_release w = sh_lock (shmems st a)"
proof -
  obtain l where l: "read_shmem st = Some (st\<lparr>shmem_lock := l\<rparr>)" "rwlock_release l = shmem_lock st"
    using assms by (auto simp: access_ok_def intro: read_shmem_ok)
  have "rw_free (sh_lock (shmems st a))" using assms by (simp add: access_ok_def)
  from rw_write_release [OF this] obtain w where
    w: "rwlock_get_write_access (sh_lock (shmems st a)) = Some w" "rwlock_release w = sh_lock (shmems st a)" by blast
  have "lookup_shmem st (sid st a) = Some (Some a)" using assms by (simp add: access_ok_def lookup_shmem_some)
  then show thesis
    using l w by (intro that [of l w]) (simp_all add: with_region_def write_region_def locked_def)
qed

lemma with_region_none:
  assumes "shmem_ok P st" "sid_small i" "i \<notin> sid st ` regions st"
  shows "with_region m st i body = Some (m, st)"
proof -
  obtain l where l: "read_shmem st = Some (st\<lparr>shmem_lock := l\<rparr>)" "rwlock_release l = shmem_lock st"
    using assms(1) by (auto simp: shmem_inv_def intro: read_shmem_ok)
  moreover have "lookup_shmem st i = Some None" using assms by (simp add: shmem_inv_def lookup_shmem_none)
  ultimately show ?thesis by (simp add: with_region_def release_shmem_def)
qed

text \<open>Where nobody else holds the locks, they make no difference.\<close>

definition lock_free :: "(addr \<Rightarrow> shstate \<Rightarrow> ('r \<times> shstate) option) \<Rightarrow> bool" where
  "lock_free body \<longleftrightarrow> (\<forall>a st l w. body a (locked l w a st) = map_option (apsnd (locked l w a)) (body a st)) \<and>
     (\<forall>a st r st'. body a st = Some (r, st') \<longrightarrow> shmem_lock st' = shmem_lock st \<and> sh_lock (shmems st' a) = sh_lock (shmems st a))"

lemma with_region_access:
  assumes "access_ok st a" "lock_free body"
  shows "with_region m st (sid st a) body = body a st"
proof -
  obtain l w where lw: "with_region m st (sid st a) body =
      do { (rc, st1) \<leftarrow> body a (locked l w a st); Some (rc, release_shmem (release_region a st1)) }"
    "rwlock_release l = shmem_lock st" "rwlock_release w = sh_lock (shmems st a)"
    by (rule with_region_some [OF assms(1)])
  have b: "body a (locked l w a st) = map_option (apsnd (locked l w a)) (body a st)"
    "\<And>r st'. body a st = Some (r, st') \<Longrightarrow> shmem_lock st' = shmem_lock st \<and> sh_lock (shmems st' a) = sh_lock (shmems st a)"
    using assms(2) unfolding lock_free_def by blast+
  show ?thesis
  proof (cases "body a st")
    case (Some x)
    with b(2) [of "fst x" "snd x"] lw show ?thesis unfolding b(1) by (cases x) (simp add: unlock)
  qed (use lw(1) b(1) in simp)
qed

lemmas with_region_eq = with_region_access [OF inv_access]

lemma grant_lock_free: "lock_free (grant_in mem owner pid flags)"
  by (auto simp: lock_free_def grant_in_def Let_def split: if_splits)

lemma release_lock_free: "lock_free (release_in proc)"
  by (auto simp: lock_free_def release_in_def Let_def split: if_splits option.splits)

lemma use_info_locked: "use_info a n info (locked l w a st) = apsnd (locked l w a) (use_info a n info st)"
  by (simp add: use_info_def)

lemma use_info_locks: "use_info a n info st = (r, st') \<Longrightarrow> shmem_lock st' = shmem_lock st \<and> sh_lock (shmems st' a) = sh_lock (shmems st a)"
  by (auto simp: use_info_def)

lemma joined_locked [simp]: "joins (locked l w a st) proc a = joins st proc a" "joined (locked l w a st) proc a = joined st proc a"
  by (simp_all add: joins_def joined_def Let_def)

lemma request_lock_free: "lock_free (request_in mem proc)"
  unfolding lock_free_def request_in_def Let_def
  by (auto simp: use_info_locked dest: use_info_locks split: if_splits option.splits bind_splits)

lemma revoke_lock_free: "lock_free (revoke_in owner proc)"
  unfolding lock_free_def revoke_in_def Let_def disable_interrupts_def
  by (auto split: if_splits option.splits bind_splits)

lemmas shmem_access_eqs =
  with_region_access [OF _ grant_lock_free, of _ _ "-1", folded shmem_grant_def]
  with_region_access [OF _ release_lock_free, of _ _ "-1", folded shmem_release_def]
  with_region_access [OF _ request_lock_free, of _ _ "(-1, None)", folded shmem_request_def]
  with_region_access [OF _ revoke_lock_free, of _ _ "-1", folded shmem_revoke_def]

lemmas shmem_region_eqs = shmem_access_eqs [OF inv_access]

subsection \<open>Lists of users\<close>

lemma find_info_some: "find_info pid xs = Some n \<Longrightarrow> n < length xs \<and> upid (si_pid (xs ! n)) = upid pid"
  by (induction xs arbitrary: n) (auto split: if_splits)

lemma find_info_none: "find_info pid xs = None \<longleftrightarrow> upid pid \<notin> set (map (upid \<circ> si_pid) xs)"
  by (induction xs) auto

lemma find_info_update: "n < length xs \<Longrightarrow> si_pid y = si_pid (xs ! n) \<Longrightarrow> find_info pid (xs[n := y]) = find_info pid xs"
  by (induction xs arbitrary: n) (auto split: nat.splits)

text \<open>The lists that the invariant allows.\<close>

definition users_ok :: "(int \<Rightarrow> shmem_info \<Rightarrow> bool) \<Rightarrow> int \<Rightarrow> shmem_info list \<Rightarrow> bool" where
  "users_ok P pages xs \<longleftrightarrow> distinct (map (upid \<circ> si_pid) xs) \<and> (\<forall>x\<in>set xs. P pages x)"

abbreviation infos_ok :: "int \<Rightarrow> shmem_info list \<Rightarrow> bool" where "infos_ok \<equiv> users_ok info_inv"

lemmas infos_ok_def = users_ok_def

lemma infos_ok_Cons: "users_ok P pages xs \<Longrightarrow> find_info (si_pid x) xs = None \<Longrightarrow> P pages x \<Longrightarrow> users_ok P pages (x # xs)"
  by (simp add: infos_ok_def find_info_none)

lemma infos_ok_drop: "users_ok P pages xs \<Longrightarrow> users_ok P pages (drop_info n xs)"
proof -
  assume ok: "users_ok P pages xs"
  let ?ys = "map (upid \<circ> si_pid) xs"
  have "distinct (take n ?ys @ drop (Suc n) ?ys)"
    using ok set_take_disj_set_drop_if_distinct [of ?ys n "Suc n"] unfolding infos_ok_def by (simp del: set_map)
  moreover have "map (upid \<circ> si_pid) (drop_info n xs) = take n ?ys @ drop (Suc n) ?ys"
    by (simp add: drop_info_def take_map drop_map)
  moreover have "set (drop_info n xs) \<subseteq> set xs"
    by (auto simp: drop_info_def dest: in_set_takeD in_set_dropD)
  ultimately show ?thesis using ok unfolding infos_ok_def by auto
qed

lemma infos_ok_update:
  assumes "users_ok P pages xs" "n < length xs" "si_pid y = si_pid (xs ! n)" "P pages y"
  shows "users_ok P pages (xs[n := y])"
proof -
  have "map (upid \<circ> si_pid) (xs[n := y]) = map (upid \<circ> si_pid) xs"
    using assms(2,3) by (simp add: map_update list_update_same_conv)
  then show ?thesis using assms(1,4) set_update_subset_insert [of xs n y] unfolding infos_ok_def by auto
qed

definition fresh_ok :: "(int \<Rightarrow> shmem_info \<Rightarrow> bool) \<Rightarrow> bool" where
  "fresh_ok P \<longleftrightarrow> (\<forall>pages pid flags. P pages (new_info pid flags))"

lemma fresh_info [simp]: "fresh_ok info_inv" "fresh_ok info_whole" "fresh_ok P \<Longrightarrow> P pages (new_info pid flags)"
  by (simp_all add: fresh_ok_def info_inv_def info_whole_def new_info_def)

lemma new_info_pid [simp]: "si_pid (new_info pid flags) = pid" "si_usage (new_info pid flags) = 0" "si_virtual_pages (new_info pid flags) = -1"
  "si_flags (new_info pid flags) = flags AND SHMEM_MASK"
  by (simp_all add: new_info_def)

lemma upid_wrap [simp]: "upid (wrap32 p) = upid p"
  by (simp add: upid_def wrap32_def mod_simps)

lemma region_infos: "region_ok P s \<longleftrightarrow> rw_free (sh_lock s) \<and> 0 < sh_physical_pages s \<and> users_ok P (sh_physical_pages s) (sh_list s)"
  by (simp add: region_inv_def infos_ok_def)

lemma shmem_inv_infos:
  "shmem_ok P st \<Longrightarrow> a \<in> regions st \<Longrightarrow> users_ok P (sh_physical_pages (shmems st a)) (sh_list (shmems st a)) \<and> 0 < sh_physical_pages (shmems st a)"
  by (simp add: shmem_inv_def region_infos)

lemma shmem_inv_list:
  "shmem_ok P st \<Longrightarrow> users_ok P (sh_physical_pages (shmems st a)) xs \<Longrightarrow> shmem_ok P (upd_list a xs st)"
  by (simp add: shmem_inv_def region_infos)

lemma shmem_inv_mem [simp]: "shmem_ok P (in_pg f st) = shmem_ok P st" "shmem_ok P (in_k h st) = shmem_ok P st"
  by (simp_all add: shmem_inv_def)

lemma shmem_inv_m [simp]: "shmem_ok P (st\<lparr>shm_m := ms\<rparr>) = shmem_ok P st"
  using table_frame [of "st\<lparr>shm_m := ms\<rparr>" st] by (simp add: shmem_inv_def)

subsection \<open>The operations keep the invariant\<close>

lemma grant_in_inv:
  assumes "shmem_ok P st" "a \<in> regions st" and [simp]: "fresh_ok P" and "grant_in mem owner pid flags a st = Some (rc, st')"
  shows "shmem_ok P st'"
  using assms(1,2,4) shmem_inv_infos [OF assms(1,2)]
  by (auto simp: grant_in_def Let_def split: if_splits intro!: shmem_inv_list infos_ok_Cons)

lemma revoke_in_inv:
  assumes "shmem_ok P st" "a \<in> regions st" "revoke_in owner proc a st = Some (rc, st')"
  shows "shmem_ok P st'"
  using assms shmem_inv_infos [OF assms(1,2)]
  by (auto simp: revoke_in_def Let_def disable_interrupts_def split: if_splits option.splits bind_splits intro!: shmem_inv_list infos_ok_drop)

text \<open>The record of a process that calls, if it has one.\<close>

definition info_of :: "shstate \<Rightarrow> addr \<Rightarrow> addr \<Rightarrow> shmem_info option" where
  "info_of st proc a = map_option (\<lambda>n. sh_list (shmems st a) ! n) (find_info (p_pid (procs (m_k (shm_m st)) proc)) (sh_list (shmems st a)))"

lemma infos_ok_nth: "users_ok P pages xs \<Longrightarrow> n < length xs \<Longrightarrow> P pages (xs ! n)"
  by (simp add: infos_ok_def)

text \<open>What a release and a request make of the record of the process.\<close>

definition released :: "shmem_info \<Rightarrow> shmem_info" where
  "released x = (let y = x\<lparr>si_usage := wrap32 (si_usage x - 1)\<rparr> in
     if si_usage y = 0 then y\<lparr>si_virtual_location := 0, si_virtual_pages := -1\<rparr> else y)"

definition requested :: "int \<Rightarrow> shmem_info \<Rightarrow> shmem_info set" where
  "requested pages x = (let n = wrap32 (si_usage x + 1) in
     if si_virtual_pages x < 0
     then insert (x\<lparr>si_virtual_location := 0\<rparr>) {x\<lparr>si_virtual_location := v, si_virtual_pages := pages, si_usage := n\<rparr> | v. v \<noteq> 0}
     else {x\<lparr>si_usage := n\<rparr>})"

lemma record_whole:
  "info_whole pages x \<Longrightarrow> info_whole pages (released x)" "0 < pages \<Longrightarrow> info_whole pages x \<Longrightarrow> y \<in> requested pages x \<Longrightarrow> info_whole pages y"
  by (auto simp: info_whole_def released_def requested_def Let_def split: if_splits)

lemma record_inv:
  "0 < pages \<Longrightarrow> info_inv pages x \<Longrightarrow> 0 < si_usage x \<Longrightarrow> info_inv pages (released x)"
  "0 < pages \<Longrightarrow> info_inv pages x \<Longrightarrow> si_usage x < 2 ^ 31 - 1 \<Longrightarrow> y \<in> requested pages x \<Longrightarrow> info_inv pages y"
  by (auto simp: info_inv_def released_def requested_def Let_def split: if_splits)

lemma release_in_keeps:
  assumes "shmem_ok P st" "a \<in> regions st" "release_in proc a st = Some (rc, st')"
    and keep: "\<And>x. info_of st proc a = Some x \<Longrightarrow> P (sh_physical_pages (shmems st a)) x \<Longrightarrow> P (sh_physical_pages (shmems st a)) (released x)"
  shows "shmem_ok P st'"
proof (cases "find_info (p_pid (procs (m_k (shm_m st)) proc)) (sh_list (shmems st a))")
  case None
  then show ?thesis using assms(1,3) by (simp add: release_in_def)
next
  case (Some n)
  let ?xs = "sh_list (shmems st a)"
  have ok: "users_ok P (sh_physical_pages (shmems st a)) ?xs" using shmem_inv_infos [OF assms(1,2)] ..
  have n: "n < length ?xs" "P (sh_physical_pages (shmems st a)) (released (?xs ! n))"
    using find_info_some [OF Some] infos_ok_nth [OF ok] keep Some by (auto simp: info_of_def)
  have "si_pid (released x) = si_pid x" for x by (simp add: released_def Let_def)
  with n have "users_ok P (sh_physical_pages (shmems st a)) (?xs[n := released (?xs ! n)])" by (intro infos_ok_update [OF ok])
  then have "shmem_ok P (upd_list a (?xs[n := released (?xs ! n)]) (in_pg f st))" for f
    by (intro shmem_inv_list) (simp_all add: assms(1))
  from this [of "\<lambda>g. g"] this show ?thesis
    using assms(3) Some by (auto simp: release_in_def Let_def released_def in_pg_def split: if_splits)
qed

lemma joined_ok:
  assumes "shmem_ok P st" "a \<in> regions st" and [simp]: "fresh_ok P"
  shows "users_ok P (sh_physical_pages (shmems st a)) (joined st proc a)"
proof -
  let ?pid = "p_pid (procs (m_k (shm_m st)) proc)"
  have "find_info (wrap32 ?pid) xs = find_info ?pid xs" for xs by (induction xs) simp_all
  then show ?thesis using shmem_inv_infos [OF assms(1,2)] by (auto simp: joined_def joins_def Let_def intro!: infos_ok_Cons)
qed

lemma request_in_found:
  assumes "joins st proc a \<longrightarrow> mem" "find_info (p_pid (procs (m_k (shm_m st)) proc)) (joined st proc a) = Some n"
  shows "request_in mem proc a st =
    (let xs = joined st proc a; info = xs ! n; st1 = upd_list a xs st in
     if si_virtual_pages info < 0 then do {
       (v, g) \<leftarrow> page_provide (pg st) (m_map (shm_m st) proc) (sh_physical_location (shmems st a)) sK_BASE sK_CEILING
         (of_int (sh_physical_pages (shmems st a))) (page_rights (si_flags info));
       Some (if v = 0 then ((-1, None), upd_list a (xs[n := info\<lparr>si_virtual_location := 0\<rparr>]) (in_pg (\<lambda>_. g) st1))
             else use_info a n (info\<lparr>si_virtual_location := v, si_virtual_pages := sh_physical_pages (shmems st a)\<rparr>) (in_pg (\<lambda>_. g) st1))
     }
     else Some (use_info a n info st1))"
proof -
  have "(joins st proc a \<and> \<not> mem) = False" using assms(1) by blast
  then show ?thesis
    unfolding request_in_def Let_def by (simp only: if_False) (simp add: assms(2) cong: if_cong)
qed

lemma use_info_keeps:
  assumes "shmem_ok P st" "users_ok P (sh_physical_pages (shmems st a)) (sh_list (shmems st a))" "n < length (sh_list (shmems st a))"
    "si_pid x = si_pid (sh_list (shmems st a) ! n)" "P (sh_physical_pages (shmems st a)) (x\<lparr>si_usage := wrap32 (si_usage x + 1)\<rparr>)" "use_info a n x st = (rc, st')"
  shows "shmem_ok P st'"
  using assms(6) shmem_inv_list [OF assms(1) infos_ok_update [OF assms(2,3) _ assms(5)]] assms(4) by (auto simp: use_info_def)

lemma request_in_keeps:
  assumes "shmem_ok P st" "a \<in> regions st" "request_in mem proc a st = Some (rc, st')" "fresh_ok P"
    and keep: "\<And>x y. info_of st proc a = Some x \<or> (\<exists>pid flags. x = new_info pid flags) \<Longrightarrow> P (sh_physical_pages (shmems st a)) x \<Longrightarrow>
      y \<in> requested (sh_physical_pages (shmems st a)) x \<Longrightarrow> P (sh_physical_pages (shmems st a)) y"
  shows "shmem_ok P st'"
proof (cases "joins st proc a \<and> \<not> mem")
  case True
  then show ?thesis using assms(1,3) unfolding request_in_def Let_def by simp
next
  case F: False
  let ?pid = "p_pid (procs (m_k (shm_m st)) proc)" and ?xs = "joined st proc a" and ?p = "sh_physical_pages (shmems st a)"
  have ok: "users_ok P ?p ?xs" by (rule joined_ok [OF assms(1,2,4)])
  have inv: "shmem_ok P (upd_list a ?xs st)" by (rule shmem_inv_list [OF assms(1) ok])
  show ?thesis
  proof (cases "find_info ?pid ?xs")
    case None
    then show ?thesis using F inv assms(3) unfolding request_in_def Let_def by (auto split: if_splits)
  next
    case (Some n)
    let ?x = "?xs ! n"
    have n: "n < length ?xs" using find_info_some [OF Some] ..
    have "info_of st proc a = Some ?x \<or> (\<exists>pid flags. ?x = new_info pid flags)"
      using Some by (auto simp: joined_def Let_def info_of_def split: if_splits)
    then have y: "P ?p y" if "y \<in> requested ?p ?x" for y using keep infos_ok_nth [OF ok n] that by blast
    have inv1: "shmem_ok P (in_pg f (upd_list a ?xs st))" for f using inv by simp
    show ?thesis
    proof (cases "si_virtual_pages ?x < 0")
      case True
      then obtain v g where g: "(rc, st') = (if v = 0 then ((-1, None), upd_list a (?xs[n := ?x\<lparr>si_virtual_location := 0\<rparr>]) (in_pg (\<lambda>_. g) (upd_list a ?xs st)))
          else use_info a n (?x\<lparr>si_virtual_location := v, si_virtual_pages := ?p\<rparr>) (in_pg (\<lambda>_. g) (upd_list a ?xs st)))"
        using assms(3) F request_in_found [OF _ Some, of mem] by (auto simp: Let_def split: bind_splits)
      show ?thesis
      proof (cases "v = 0")
        case v0: True
        have "P ?p (?x\<lparr>si_virtual_location := 0\<rparr>)" by (rule y) (simp add: requested_def Let_def True)
        then have "users_ok P ?p (?xs[n := ?x\<lparr>si_virtual_location := 0\<rparr>])" by (intro infos_ok_update [OF ok n]) simp
        then show ?thesis using g v0 shmem_inv_list [OF inv1, where a = a] by auto
      next
        case False
        then have u: "use_info a n (?x\<lparr>si_virtual_location := v, si_virtual_pages := ?p\<rparr>) (in_pg (\<lambda>_. g) (upd_list a ?xs st)) = (rc, st')" using g by simp
        have "P ?p (?x\<lparr>si_virtual_location := v, si_virtual_pages := ?p, si_usage := wrap32 (si_usage ?x + 1)\<rparr>)"
          by (rule y) (use True False in \<open>auto simp: requested_def Let_def\<close>)
        then show ?thesis by (intro use_info_keeps [OF inv1 _ _ _ _ u]) (use ok n in simp_all)
      qed
    next
      case False
      then have u: "use_info a n ?x (upd_list a ?xs st) = (rc, st')"
        using assms(3) F request_in_found [OF _ Some, of mem] by (auto simp: Let_def split: if_splits)
      have "P ?p (?x\<lparr>si_usage := wrap32 (si_usage ?x + 1)\<rparr>)" by (rule y) (simp add: requested_def Let_def False)
      then show ?thesis by (intro use_info_keeps [OF inv _ _ _ _ u]) (use ok n in simp_all)
    qed
  qed
qed

text \<open>The full invariant, for a process that releases what it has requested.\<close>

lemma release_in_inv:
  assumes "shmem_inv st" "a \<in> regions st" "release_in proc a st = Some (rc, st')"
    and used: "\<And>x. info_of st proc a = Some x \<Longrightarrow> 0 < si_usage x"
  shows "shmem_inv st'"
  by (rule release_in_keeps [OF assms(1-3)]) (use shmem_inv_infos [OF assms(1,2)] used record_inv(1) in blast)

lemma request_in_inv:
  assumes "shmem_inv st" "a \<in> regions st" "request_in mem proc a st = Some (rc, st')"
    and used: "\<And>x. info_of st proc a = Some x \<Longrightarrow> si_usage x < 2 ^ 31 - 1"
  shows "shmem_inv st'"
proof (rule request_in_keeps [OF assms(1-3)])
  fix x y assume "info_of st proc a = Some x \<or> (\<exists>pid flags. x = new_info pid flags)"
  then have "si_usage x < 2 ^ 31 - 1" using used by auto
  then show "info_inv (sh_physical_pages (shmems st a)) x \<Longrightarrow> y \<in> requested (sh_physical_pages (shmems st a)) x \<Longrightarrow> info_inv (sh_physical_pages (shmems st a)) y"
    using shmem_inv_infos [OF assms(1,2)] record_inv(2) by blast
qed simp

subsection \<open>Creation and deletion\<close>

lemma table_agree:
  assumes "shmem_table st' = shmem_table st" "\<And>a. a \<in> regions st \<Longrightarrow> sh_id (shmems st' a) = sh_id (shmems st a)" "shtable_inv st"
  shows "regions st' = regions st" "sid st' ` regions st' = sid st ` regions st" "shtable_inv st'"
proof -
  show r: "regions st' = regions st" using assms(1) by (simp add: regions_def)
  have e: "sid st' a = sid st a" "skey st' a = skey st a" if "a \<in> regions st" for a
    using assms(2) [OF that] by (simp_all add: sid_def skey_def)
  show "sid st' ` regions st' = sid st ` regions st" unfolding r using e(1) by (rule image_cong [OF refl])
  have "ht_ready (skey st') (shmem_table st)"
    using assms(3) e(2) unfolding shtable_inv_def ht_ready_def regions_def by simp
  moreover have "inj_on (sid st') (regions st)" using assms(3) inj_on_cong [of "regions st" "sid st'" "sid st"] e(1) by (simp add: shtable_inv_def)
  ultimately show "shtable_inv st'"
    using assms(3) e(1) unfolding shtable_inv_def r assms(1) by simp
qed

interpretation shid: id_counter lookup_shmem "\<lambda>st first i. shmem_id_loop st (if first then i else after_id i)"
  "\<lambda>st. sid st ` regions st" shtable_inv 0
proof (unfold_locales, goal_cases)
  case 1
  then show ?case by simp
next
  case (2 st q)
  then have "sid_small q" by (simp add: sid_small_def)
  from lookup_shmem_iff [OF 2(1) this] show ?case by (metis image_iff not_Some_eq)
next
  case (3 st)
  then show ?case by (simp add: regions_def)
next
  case (4 st q r)
  then show ?case by (subst shmem_id_loop.simps) simp
next
  case (5 q st)
  then show ?case by (simp add: after_id_def Let_def)
qed

text \<open>There is room in the table, the ids last, and the address of the new region is not that of another.\<close>

definition can_create_region :: "shstate \<Rightarrow> addr \<Rightarrow> bool" where
  "can_create_region st a \<longleftrightarrow> a \<notin> regions st \<and> ht_total (shmem_table st) < ht_size (shmem_table st) \<and> ht_size (shmem_table st) \<le> 2 ^ 22 \<and>
     shmem_id st + int (card (regions st)) \<le> 2 ^ 23"

definition blank_region :: "shmem \<Rightarrow> buffer \<Rightarrow> int \<Rightarrow> int \<Rightarrow> u32 \<Rightarrow> u32 \<Rightarrow> u32 \<Rightarrow> shmem" where
  "blank_region s name pid pages flags location internal =
     s\<lparr>sh_pid := pid, sh_physical_location := location, sh_physical_pages := pages,
       sh_flags := flags AND SHMEM_MASK, sh_internal := internal, sh_list := [], sh_lock := init_rwlock,
       sh_name := strncpy (sh_name s) name NAME_LENGTH\<rparr>"

lemma ht_list_add: "mset (ht_list t') = add_mset x (mset (ht_list t)) \<Longrightarrow> x \<notin> set (ht_list t) \<Longrightarrow> distinct (ht_list t) \<Longrightarrow>
    set (ht_list t') = insert x (set (ht_list t)) \<and> distinct (ht_list t')"
  by (metis distinct.simps(2) list.simps(15) mset.simps(2) mset_eq_imp_distinct_iff mset_eq_setD)

lemma enter_region:
  assumes "shtable_inv st" "a \<notin> regions st" "ht_total (shmem_table st) < ht_size (shmem_table st)" "ht_size (shmem_table st) \<le> 2 ^ 22"
    and i: "sid_small i" "i \<notin> sid st ` regions st" "sh_id s = i"
  obtains rc t where "htable_insert mem (skey (st\<lparr>shmems := (shmems st)(a := s)\<rparr>)) (shmem_table st) a = Some (rc, t)"
    "set (ht_list t) = insert a (regions st)" "shtable_inv (st\<lparr>shmems := (shmems st)(a := s), shmem_table := t\<rparr>)"
proof -
  let ?st = "st\<lparr>shmems := (shmems st)(a := s)\<rparr>"
  have "shtable_inv ?st" by (rule table_agree [OF _ _ assms(1)]) (use assms(2) in auto)
  then have "ht_ready (skey ?st) (shmem_table st)" "ht_can_put (skey ?st) a (shmem_table st)"
    using assms(3,4) conjunct2 [OF shmem_key_small [OF i(1)]] i(3) by (simp_all add: shtable_inv_def ht_can_put_def skey_def sid_def)
  from ht.put_ok [OF this, where mem = mem] obtain rc t where
    t: "htable_insert mem (skey ?st) (shmem_table st) a = Some (rc, t)" "ht_ready (skey ?st) t"
    "mset (ht_list t) = add_mset a (mset (ht_list (shmem_table st)))" by auto
  have R: "set (ht_list t) = insert a (regions st)" "distinct (ht_list t)"
    using ht_list_add [OF t(3)] assms(1,2) by (simp_all add: regions_def shtable_inv_def)
  let ?st' = "?st\<lparr>shmem_table := t\<rparr>"
  have sid: "sid ?st' b = (if b = a then i else sid st b)" for b using i(3) by (simp add: sid_def)
  have "skey ?st' = skey ?st" by (simp add: skey_def sid_def fun_eq_iff)
  moreover have "inj_on (sid ?st') (insert a (regions st))"
    using assms(1,2) i(2) by (auto simp: inj_on_def sid shtable_inv_def)
  moreover have "\<forall>b\<in>insert a (regions st). sid_small (sid ?st' b)" using assms(1) i(1) by (simp add: sid shtable_inv_def)
  ultimately have "shtable_inv ?st'" using t(2) R by (simp add: shtable_inv_def regions_def)
  then show thesis by (intro that [OF t(1) R(1)])
qed

lemma shmem_create_direct_ok:
  assumes inv: "shmem_ok P st" and can: "can_create_region st a" and pages: "0 < pages" and name: "strlen name = Some len" "0 < len"
  obtains i t where "shmem_create_direct (Some a) mem st name pid pages flags location internal =
      Some (i, st\<lparr>shmem_id := i + 1, shmems := (shmems st)(a := (blank_region (shmems st a) name pid pages flags location internal)\<lparr>sh_id := i\<rparr>),
        shmem_table := t\<rparr>)"
    "sid_small i" "i \<notin> sid st ` regions st" "shmem_id st \<le> i" "set (ht_list t) = insert a (regions st)"
    "shmem_ok P (st\<lparr>shmem_id := i + 1, shmems := (shmems st)(a := (blank_region (shmems st a) name pid pages flags location internal)\<lparr>sh_id := i\<rparr>),
        shmem_table := t\<rparr>)"
proof -
  let ?s = "blank_region (shmems st a) name pid pages flags location internal"
  define st1 where "st1 = st\<lparr>shmems := (shmems st)(a := ?s)\<rparr>"
  have I: "shtable_inv st" "rw_free (shmem_lock st)" "0 \<le> shmem_id st" "\<And>b. b \<in> regions st \<Longrightarrow> region_ok P (shmems st b)"
    using inv by (simp_all add: shmem_inv_def)
  have C: "a \<notin> regions st" "ht_total (shmem_table st) < ht_size (shmem_table st)" "ht_size (shmem_table st) \<le> 2 ^ 22"
    "shmem_id st + int (card (regions st)) \<le> 2 ^ 23" using can by (simp_all add: can_create_region_def)
  obtain l where l: "write_shmem st1 = Some (st1\<lparr>shmem_lock := l\<rparr>)" "rwlock_release l = shmem_lock st"
    using I(2) write_shmem_ok [of st1] by (auto simp: st1_def)
  define st2 where "st2 = st1\<lparr>shmem_lock := l\<rparr>"
  have T: "sid st2 ` regions st2 = sid st ` regions st" "shtable_inv st2"
    by (rule table_agree [OF _ _ I(1)]; use C(1) in \<open>auto simp: st2_def st1_def\<close>)+
  have "card (sid st ` regions st) \<le> card (regions st)" by (rule card_image_le) (simp add: regions_def)
  then obtain i where i: "shmem_id_loop st2 (shmem_id st) = Some i" "shmem_id st \<le> i" "i \<le> 2 ^ 23" "i \<notin> sid st ` regions st"
    using shid.loop_fresh [OF T(2) I(3)] C(4) T(1) by fastforce
  have sm: "sid_small i" using i(2,3) I(3) by (simp add: sid_small_def)
  then have ai: "after_id i = i + 1" by (simp add: after_id_def sid_small_def Let_def)
  obtain rc t where t: "htable_insert mem (skey (st\<lparr>shmems := (shmems st)(a := ?s\<lparr>sh_id := i\<rparr>)\<rparr>)) (shmem_table st) a = Some (rc, t)"
    "set (ht_list t) = insert a (regions st)" "shtable_inv (st\<lparr>shmems := (shmems st)(a := ?s\<lparr>sh_id := i\<rparr>), shmem_table := t\<rparr>)"
    by (rule enter_region [OF I(1) C(1-3) sm i(4), of "?s\<lparr>sh_id := i\<rparr>" mem]) simp
  let ?st = "st\<lparr>shmem_id := i + 1, shmems := (shmems st)(a := ?s\<lparr>sh_id := i\<rparr>), shmem_table := t\<rparr>"
  have "skey (st\<lparr>shmems := (shmems st)(a := ?s\<lparr>sh_id := i\<rparr>)\<rparr>) = (\<lambda>b. shmem_key (sh_id (((shmems st)(a := ?s\<lparr>sh_id := i\<rparr>)) b)))"
    by (simp add: skey_def sid_def fun_eq_iff)
  then have e: "shmem_create_direct (Some a) mem st name pid pages flags location internal = Some (i, ?st)"
    using pages name l i(1) t(1)
    by (simp add: shmem_create_direct_def upd_shmem_def blank_region_def [symmetric] st2_def st1_def ai Let_def release_shmem_def cong: if_cong)
  have "shtable_inv ?st" using table_frame(4) [of ?st "st\<lparr>shmems := (shmems st)(a := ?s\<lparr>sh_id := i\<rparr>), shmem_table := t\<rparr>"] t(3) by simp
  moreover have "region_ok P (?s\<lparr>sh_id := i\<rparr>)" using pages by (simp add: region_inv_def blank_region_def rw_free_def init_rwlock_def)
  ultimately have "shmem_ok P ?st" using I t(2) i(2) unfolding shmem_inv_def by (simp add: regions_def)
  then show thesis using that [OF e sm i(4,2) t(2)] by blast
qed

lemma ht_list_del: "mset (ht_list t') = mset (ht_list t) - {#x#} \<Longrightarrow> distinct (ht_list t) \<Longrightarrow>
    set (ht_list t') = set (ht_list t) - {x} \<and> distinct (ht_list t')"
  by (metis distinct_remove1 mset_eq_imp_distinct_iff mset_eq_setD mset_remove1 set_remove1_eq)

text \<open>A region that its owner deletes is out of the table; what remains to be done is the memory.\<close>

lemma shmem_delete_eq:
  assumes "access_ok st a"
  obtains t where "shmem_delete mem st (sh_pid (shmems st a)) (sid st a) =
      do { ms \<leftarrow> dismantle (shmems st a) (shm_m st); Some (0, st\<lparr>shmem_table := t, shm_m := ms\<rparr>) }"
    "set (ht_list t) = regions st - {a}" "\<And>ms. shtable_inv (st\<lparr>shmem_table := t, shm_m := ms\<rparr>)"
proof -
  have I: "shtable_inv st" "rw_free (shmem_lock st)" "a \<in> regions st" using assms by (simp_all add: access_ok_def)
  obtain l where l: "write_shmem st = Some (st\<lparr>shmem_lock := l\<rparr>)" "rwlock_release l = shmem_lock st"
    by (rule write_shmem_ok [OF I(2)])
  have r: "ht_ready (skey st) (shmem_table st)" "a \<in># mset (ht_list (shmem_table st))" "distinct (ht_list (shmem_table st))"
    using I(1,3) by (simp_all add: shtable_inv_def regions_def)
  then have "\<And>y. y \<in> set (ht_list (shmem_table st)) \<Longrightarrow> key_fits (skey st y) (ht_size (shmem_table st))" "ht_inv (shmem_table st)" "ht_fits (shmem_table st)"
    by (auto simp: ht_ready_def ht_fits_def intro: key_small_fits)
  then obtain t where t: "htable_remove mem (skey st) (shmem_table st) a = Some (0, t)"
    using htable_remove_ok [of "shmem_table st" a "skey st" mem] r(2) by auto
  with ht.del_ok [OF r(1,2), where mem = mem] have t': "ht_ready (skey st) t" "mset (ht_list t) = mset (ht_list (shmem_table st)) - {#a#}" by auto
  have R: "set (ht_list t) = regions st - {a}" "distinct (ht_list t)"
    using ht_list_del [OF t'(2) r(3)] by (simp_all add: regions_def)
  have e: "shmem_delete mem st (sh_pid (shmems st a)) (sid st a) =
      do { ms \<leftarrow> dismantle (shmems st a) (shm_m st); Some (0, st\<lparr>shmem_table := t, shm_m := ms\<rparr>) }"
    using l lookup_shmem_some [OF I(1,3)] t by (simp add: shmem_delete_def skey_fun release_shmem_def)
  have "shtable_inv (st\<lparr>shmem_table := t, shm_m := ms\<rparr>)" for ms
  proof -
    have s: "sid (st\<lparr>shmem_table := t, shm_m := ms\<rparr>) = sid st" "skey (st\<lparr>shmem_table := t, shm_m := ms\<rparr>) = skey st"
      by (simp_all add: sid_def skey_def fun_eq_iff)
    then show ?thesis using I(1) t'(1) R by (auto simp: shtable_inv_def regions_def s intro: inj_on_subset)
  qed
  then show thesis using that [OF e R(1)] by blast
qed

lemma shmem_delete_ok:
  assumes "shmem_ok P st" "a \<in> regions st"
  obtains t where "shmem_delete mem st (sh_pid (shmems st a)) (sid st a) =
      do { ms \<leftarrow> dismantle (shmems st a) (shm_m st); Some (0, st\<lparr>shmem_table := t, shm_m := ms\<rparr>) }"
    "set (ht_list t) = regions st - {a}" "\<And>ms. shmem_ok P (st\<lparr>shmem_table := t, shm_m := ms\<rparr>)"
proof -
  obtain t where t: "shmem_delete mem st (sh_pid (shmems st a)) (sid st a) =
      do { ms \<leftarrow> dismantle (shmems st a) (shm_m st); Some (0, st\<lparr>shmem_table := t, shm_m := ms\<rparr>) }"
    "set (ht_list t) = regions st - {a}" "\<And>ms. shtable_inv (st\<lparr>shmem_table := t, shm_m := ms\<rparr>)"
    using shmem_delete_eq [OF inv_access [OF assms], of mem] by blast
  show thesis
    by (rule that [OF t(1,2)]) (use assms(1) t(2,3) in \<open>simp add: shmem_inv_def regions_def\<close>)
qed

text \<open>
  The calls that change regions, in any order and by any process. A step says whether there was room, which matters for the creation of a region only, and whether it is
  balanced: a release is of a region that the process has requested, and a request does not overflow the counter.
\<close>

definition has_room :: "shstate \<Rightarrow> addr option \<Rightarrow> bool" where "has_room st new \<longleftrightarrow> (\<forall>a. new = Some a \<longrightarrow> can_create_region st a)"

definition own_usage :: "(int \<Rightarrow> bool) \<Rightarrow> shstate \<Rightarrow> addr \<Rightarrow> int \<Rightarrow> bool" where
  "own_usage Q st proc i \<longleftrightarrow> (\<forall>a\<in>regions st. sid st a = i \<longrightarrow> pred_option (\<lambda>x. Q (si_usage x)) (info_of st proc a))"

inductive shmem_step :: "shstate \<Rightarrow> bool \<Rightarrow> bool \<Rightarrow> shstate \<Rightarrow> bool" where
  Create: "shmem_create new mem st name pid pages flags = Some (rc, st') \<Longrightarrow> shmem_step st (has_room st new) True st'"
| Create_direct: "shmem_create_direct new mem st name pid pages flags location internal = Some (rc, st') \<Longrightarrow> shmem_step st (has_room st new) True st'"
| Grant: "shmem_grant mem st owner i pid flags = Some (rc, st') \<Longrightarrow> shmem_step st True True st'"
| Revoke: "shmem_revoke st owner proc i = Some (rc, st') \<Longrightarrow> shmem_step st True True st'"
| Request: "shmem_request mem st proc i = Some (rc', st') \<Longrightarrow> shmem_step st True (own_usage (\<lambda>n. n < 2 ^ 31 - 1) st proc i) st'"
| Release: "shmem_release st proc i = Some (rc, st') \<Longrightarrow> shmem_step st True (own_usage (\<lambda>n. 0 < n) st proc i) st'"
| Delete: "shmem_delete mem st owner i = Some (rc, st') \<Longrightarrow> shmem_step st True True st'"

text \<open>A run, whether there was room at all its steps, and whether all of them are balanced.\<close>

inductive shmem_runs :: "shstate \<Rightarrow> bool \<Rightarrow> bool \<Rightarrow> shstate \<Rightarrow> bool" for st where
  start: "shmem_runs st True True st"
| step: "shmem_runs st r b st1 \<Longrightarrow> shmem_step st1 q c st2 \<Longrightarrow> shmem_runs st (r \<and> q) (b \<and> c) st2"

lemma lookup_sound: "lookup_shmem st i = Some (Some a) \<Longrightarrow> a \<in> regions st \<and> sid st a = i"
  using htable_retrieve_sound [of shmem_key "\<lambda>a. shmem_cmp (shmems st a)"] by (auto simp: lookup_shmem_def regions_def sid_def)

lemma with_region_inv:
  assumes "shmem_ok P st" "with_region m st i body = Some (r, st')" "lock_free body"
    and "\<And>a. a \<in> regions st \<Longrightarrow> sid st a = i \<Longrightarrow> body a st = Some (r, st') \<Longrightarrow> shmem_ok P st'"
  shows "shmem_ok P st'"
proof (cases "\<exists>a. a \<in> regions st \<and> sid st a = i")
  case True
  then obtain a where "a \<in> regions st" "i = sid st a" by blast
  then show ?thesis using assms with_region_eq [OF assms(1) _ assms(3)] by metis
next
  case False
  obtain l where "read_shmem st = Some (st\<lparr>shmem_lock := l\<rparr>)" "rwlock_release l = shmem_lock st"
    using assms(1) by (auto simp: shmem_inv_def intro: read_shmem_ok)
  then have "st' = st"
    using assms(2) False lookup_sound [of st i] by (auto simp: with_region_def release_shmem_def split: bind_splits option.splits)
  then show ?thesis using assms(1) by simp
qed

lemma create_direct_inv:
  assumes "shmem_ok P st" "\<forall>a. new = Some a \<longrightarrow> can_create_region st a"
    "shmem_create_direct new mem st name pid pages flags location internal = Some (rc, st')"
  shows "shmem_ok P st' \<and> (0 < pages \<longrightarrow> (rc < 0 \<longrightarrow> st' = st)) \<and> shm_m st' = shm_m st"
proof -
  have "st' = st \<or> (\<exists>a len. new = Some a \<and> 0 < pages \<and> strlen name = Some len \<and> 0 < len)"
    using assms(3) by (auto simp: shmem_create_direct_def split: if_splits bind_splits option.splits)
  then show ?thesis
  proof
    assume "\<exists>a len. new = Some a \<and> 0 < pages \<and> strlen name = Some len \<and> 0 < len"
    then obtain a len where a: "new = Some a" "0 < pages" "strlen name = Some len" "0 < len" by blast
    then have "can_create_region st a" using assms(2) by blast
    then show ?thesis
      by (rule shmem_create_direct_ok [OF assms(1) _ a(2-4), of a mem pid flags location internal])
        (use assms(3) a(1) in \<open>auto simp: sid_small_def\<close>)
  qed (use assms(1) in auto)
qed

lemma shmem_step_ok:
  assumes "shmem_step st r b st'" "r" "shmem_ok P st" and P: "P = info_whole \<or> P = info_inv \<and> b"
  shows "shmem_ok P st'"
  using assms
proof (induction rule: shmem_step.induct)
  case (Create new mem st name pid pages flags rc st')
  have c: "\<forall>a. new = Some a \<longrightarrow> can_create_region (in_pg f st) a" "shmem_ok P (in_pg f st)" for f
    using Create(2,3) by (simp_all add: has_room_def can_create_region_def)
  have d: "shmem_ok P st1" if "shmem_create_direct new mem (in_pg f st) name pid pages flags location 1 = Some (i, st1)" for f location i st1
    using create_direct_inv [OF c(2,1) that] by blast
  show ?case
    using Create(1) c(2) by (auto simp: shmem_create_def Let_def split: if_splits bind_splits) (erule d)+
next
  case (Create_direct new mem st name pid pages flags location internal rc st')
  then show ?case using create_direct_inv unfolding has_room_def by blast
next
  case (Grant mem st owner i pid flags rc st')
  then have "fresh_ok P" by auto
  then show ?case using Grant with_region_inv [OF _ _ grant_lock_free] grant_in_inv unfolding shmem_grant_def by blast
next
  case (Revoke st owner proc i rc st')
  then show ?case using with_region_inv [OF _ _ revoke_lock_free] revoke_in_inv unfolding shmem_revoke_def by blast
next
  case (Request mem st proc i rc' st')
  show ?case
  proof (rule with_region_inv [OF Request(3) Request(1) [unfolded shmem_request_def] request_lock_free])
    fix a assume a: "a \<in> regions st" "sid st a = i" "request_in mem proc a st = Some (rc', st')"
    have n: "0 < sh_physical_pages (shmems st a)" using shmem_inv_infos [OF Request(3) a(1)] ..
    from Request(4) show "shmem_ok P st'"
    proof
      assume "P = info_whole"
      then show ?thesis by (intro request_in_keeps [OF Request(3) a(1,3)]) (use n record_whole(2) in auto)
    next
      assume "P = info_inv \<and> own_usage (\<lambda>n. n < 2 ^ 31 - 1) st proc i"
      then show ?thesis using Request(3) a by (auto simp: own_usage_def option.pred_set intro!: request_in_inv [of st a mem proc rc' st'])
    qed
  qed
next
  case (Release st proc i rc st')
  show ?case
  proof (rule with_region_inv [OF Release(3) Release(1) [unfolded shmem_release_def] release_lock_free])
    fix a assume a: "a \<in> regions st" "sid st a = i" "release_in proc a st = Some (rc, st')"
    from Release(4) show "shmem_ok P st'"
    proof
      assume "P = info_whole"
      then show ?thesis by (intro release_in_keeps [OF Release(3) a(1,3)]) (use record_whole(1) in auto)
    next
      assume "P = info_inv \<and> own_usage (\<lambda>n. 0 < n) st proc i"
      then show ?thesis using Release(3) a by (auto simp: own_usage_def option.pred_set intro!: release_in_inv [of st a proc rc st'])
    qed
  qed
next
  case (Delete mem st owner i rc st')
  obtain l where l: "write_shmem st = Some (st\<lparr>shmem_lock := l\<rparr>)" "rwlock_release l = shmem_lock st"
    using Delete(3) by (auto simp: shmem_inv_def intro: write_shmem_ok)
  show ?case
  proof (cases "\<exists>a. lookup_shmem st i = Some (Some a) \<and> owner = sh_pid (shmems st a)")
    case True
    then obtain a where a: "a \<in> regions st" "sid st a = i" "owner = sh_pid (shmems st a)" using lookup_sound by blast
    obtain t where t: "shmem_delete mem st owner i = do { ms \<leftarrow> dismantle (shmems st a) (shm_m st); Some (0, st\<lparr>shmem_table := t, shm_m := ms\<rparr>) }"
      "\<And>ms. shmem_ok P (st\<lparr>shmem_table := t, shm_m := ms\<rparr>)"
      unfolding a(2) [symmetric] a(3) using shmem_delete_ok [OF Delete(3) a(1)] by blast
    from Delete(1) obtain ms where "st' = st\<lparr>shmem_table := t, shm_m := ms\<rparr>" unfolding t(1) by (cases "dismantle (shmems st a) (shm_m st)") auto
    then show ?thesis using t(2) by simp
  next
    case False
    then have "st' = st" using Delete(1) l by (auto simp: shmem_delete_def release_shmem_def split: bind_splits option.splits if_splits)
    then show ?thesis using Delete(3) by simp
  qed
qed

lemma shmem_runs_ok: "shmem_runs st r b st' \<Longrightarrow> r \<Longrightarrow> shmem_ok P st \<Longrightarrow> P = info_whole \<or> P = info_inv \<and> b \<Longrightarrow> shmem_ok P st'"
  by (induction rule: shmem_runs.induct) (auto intro: shmem_step_ok)

end
