(* ===== verification/Sharing.thy ===== *)
theory Sharing
  imports Shmem
begin

unbundle bit_operations_syntax

section \<open>Properties of shared memory\<close>

text \<open>
  Shown here: the invariant of regions under any sequence of calls; a request maps the region and the release takes the mapping back; a region is
  found by its name; who may not, gets nothing; a revoked user keeps the content; the cleaning up after a process. Then the places
  where the code does not keep what it promises.
\<close>

subsection \<open>Requests\<close>

abbreviation pdir :: "shstate \<Rightarrow> addr \<Rightarrow> u32" where "pdir st proc \<equiv> m_map (shm_m st) proc"

abbreviation space :: "shstate \<Rightarrow> addr \<Rightarrow> nat \<rightharpoonup> u32" where "space st proc \<equiv> user_map (pg st) (pdir st proc)"

text \<open>The directory of the process is sound and there are frames for its page tables.\<close>

definition can_map :: "shstate \<Rightarrow> addr \<Rightarrow> int \<Rightarrow> bool" where
  "can_map st proc pages \<longleftrightarrow> pt_inv (pg st) (pdir st proc) \<and> avail (ph st) (nat pages) \<and> 0 < pages \<and> pages \<le> 16384"

lemma ceiling: "aligned sK_CEILING" "vpage sK_CEILING = 1024000" "vpage sK_BASE = 524288"
  by (simp_all add: aligned_def vpage_def sK_CEILING_def sK_BASE_def PAGE_SIZE_def)

lemma unat_pages: "0 < pages \<Longrightarrow> pages \<le> 16384 \<Longrightarrow> unat (of_int pages :: u32) = nat pages"
  by (simp add: unat_eq_nat_uint uint_word_of_int)

lemma provide_region:
  assumes "can_map st proc pages"
  obtains v g where "page_provide (pg st) (pdir st proc) location sK_BASE sK_CEILING (of_int pages) type = Some (v, g)" "v = 0 \<longrightarrow> g = pg st"
    "v \<noteq> 0 \<longrightarrow> user_run v (nat pages) \<and> pt_inv g (pdir st proc) \<and> (\<forall>p\<in>page_run (vpage v) (nat pages). space st proc p = None) \<and>
      user_map g (pdir st proc) = space st proc ++ run_map (vpage v) (nat pages) location (convert_paging_types type)"
proof -
  have n: "unat (of_int pages :: u32) = nat pages" "0 < (of_int pages :: u32)"
    using assms unat_pages [of pages] by (auto simp: can_map_def word_less_nat_alt)
  have p: "pt_inv (pg st) (pdir st proc)" "avail (ph st) (unat (of_int pages :: u32))" "vpage sK_CEILING + unat (of_int pages :: u32) \<le> 1016 * 1024"
    using assms n(1) by (auto simp: can_map_def ceiling)
  show thesis
    by (rule page_provide_ok [OF p(1,2) n(2) ceiling(1) _ _ p(3), of sK_BASE location type]) (use n(1) that in \<open>auto simp: ceiling\<close>)
qed

lemma request_found:
  assumes "info_of st proc a = Some x"
  obtains n where "find_info (p_pid (procs (m_k (shm_m st)) proc)) (sh_list (shmems st a)) = Some n" "n < length (sh_list (shmems st a))"
    "x = sh_list (shmems st a) ! n" "joined st proc a = sh_list (shmems st a)" "\<not> joins st proc a"
  using assms by (auto simp: info_of_def joined_def joins_def dest: find_info_some)

text \<open>A request by a process that does not have the region mapped.\<close>

lemma request_maps:
  assumes inv: "shmem_inv st" "a \<in> regions st" and x: "info_of st proc a = Some x" "si_usage x = 0"
    and can: "can_map st proc (sh_physical_pages (shmems st a))"
  obtains "shmem_request mem st proc (sid st a) = Some ((-1, None), st)"
  | v g n where "shmem_request mem st proc (sid st a) =
      Some ((0, Some (v, sh_physical_pages (shmems st a), si_flags x)), in_pg (\<lambda>_. g) (upd_list a ((sh_list (shmems st a))[n :=
        x\<lparr>si_virtual_location := v, si_virtual_pages := sh_physical_pages (shmems st a), si_usage := 1\<rparr>]) st))"
    "find_info (p_pid (procs (m_k (shm_m st)) proc)) (sh_list (shmems st a)) = Some n" "n < length (sh_list (shmems st a))" "x = sh_list (shmems st a) ! n"
    "user_run v (nat (sh_physical_pages (shmems st a)))" "pt_inv g (pdir st proc)"
    "\<forall>p\<in>page_run (vpage v) (nat (sh_physical_pages (shmems st a))). space st proc p = None"
    "user_map g (pdir st proc) = space st proc ++ run_map (vpage v) (nat (sh_physical_pages (shmems st a))) (sh_physical_location (shmems st a))
      (convert_paging_types (page_rights (si_flags x)))"
proof -
  let ?s = "shmems st a"
  obtain n where n: "find_info (p_pid (procs (m_k (shm_m st)) proc)) (sh_list ?s) = Some n" "n < length (sh_list ?s)" "x = sh_list ?s ! n"
    "joined st proc a = sh_list ?s" "\<not> joins st proc a" by (rule request_found [OF x(1)])
  have i: "info_inv (sh_physical_pages ?s) x" using shmem_inv_infos [OF inv] infos_ok_nth n(2,3) by blast
  obtain v g where g: "page_provide (pg st) (pdir st proc) (sh_physical_location ?s) sK_BASE sK_CEILING (of_int (sh_physical_pages ?s))
        (page_rights (si_flags x)) = Some (v, g)" "v = 0 \<longrightarrow> g = pg st"
    "v \<noteq> 0 \<longrightarrow> user_run v (nat (sh_physical_pages ?s)) \<and> pt_inv g (pdir st proc) \<and> (\<forall>p\<in>page_run (vpage v) (nat (sh_physical_pages ?s)). space st proc p = None) \<and>
      user_map g (pdir st proc) = space st proc ++ run_map (vpage v) (nat (sh_physical_pages ?s)) (sh_physical_location ?s) (convert_paging_types (page_rights (si_flags x)))"
    by (rule provide_region [OF can, of "sh_physical_location ?s" "page_rights (si_flags x)"])
  have r: "shmem_request mem st proc (sid st a) =
      Some (if v = 0 then ((-1, None), upd_list a ((sh_list ?s)[n := x\<lparr>si_virtual_location := 0\<rparr>]) (in_pg (\<lambda>_. g) st))
            else use_info a n (x\<lparr>si_virtual_location := v, si_virtual_pages := sh_physical_pages ?s\<rparr>) (in_pg (\<lambda>_. g) st))"
    using shmem_region_eqs(3) [OF inv, of mem proc] request_in_found [of st proc a mem n] n i x(2) g(1)
    by (simp add: info_inv_def Let_def)
  have "x\<lparr>si_virtual_location := 0\<rparr> = x" using i x(2) by (simp add: info_inv_def)
  then have z: "upd_list a ((sh_list ?s)[n := x\<lparr>si_virtual_location := 0\<rparr>]) (in_pg (\<lambda>_. pg st) st) = st"
    using n(3) upd_list_fields(7) [of a st] by (simp add: in_pg_def)
  show thesis
  proof (cases "v = 0")
    case True
    then show ?thesis using that(1) r z g(2) by simp
  next
    case False
    then have e: "shmem_request mem st proc (sid st a) =
      Some ((0, Some (v, sh_physical_pages ?s, si_flags x)), in_pg (\<lambda>_. g) (upd_list a ((sh_list ?s)[n :=
        x\<lparr>si_virtual_location := v, si_virtual_pages := sh_physical_pages ?s, si_usage := 1\<rparr>]) st))"
      using r x(2) by (simp add: use_info_def upd_list_def upd_shmem_def in_pg_def)
    show ?thesis by (rule that(2) [OF e n(1-3)]) (use g(3) False in blast)+
  qed
qed

text \<open>
  C25. A process that was granted access and has not mapped the region requests it. Either there is no room in its address space and nothing changes, or it
  is told a run of pages that were all unmapped before, as long as the region; exactly these pages are now mapped to the frames of the
  region, with the rights of the grant.
\<close>

theorem shmem_request_maps:
  assumes "shmem_inv st" "a \<in> regions st" "info_of st proc a = Some x" "si_usage x = 0"
    and "can_map st proc (sh_physical_pages (shmems st a))"
  shows "shmem_request mem st proc (sid st a) = Some ((-1, None), st) \<or>
    (\<exists>v st1. shmem_request mem st proc (sid st a) = Some ((0, Some (v, sh_physical_pages (shmems st a), si_flags x)), st1) \<and>
      (\<forall>p\<in>page_run (vpage v) (nat (sh_physical_pages (shmems st a))). space st proc p = None) \<and>
      space st1 proc = space st proc ++ run_map (vpage v) (nat (sh_physical_pages (shmems st a))) (sh_physical_location (shmems st a))
        (convert_paging_types (page_rights (si_flags x))))"
  by (rule request_maps [OF assms, of mem]) auto

lemma info_of_update:
  assumes "find_info (p_pid (procs (m_k (shm_m st)) proc)) (sh_list (shmems st a)) = Some n" "si_pid y = si_pid (sh_list (shmems st a) ! n)"
  shows "find_info (p_pid (procs (m_k (shm_m st)) proc)) ((sh_list (shmems st a))[n := y]) = Some n"
  using find_info_update [of n "sh_list (shmems st a)" y] find_info_some [OF assms(1)] assms by simp

text \<open>What a release does to a state in which the process has a record that is in use.\<close>

lemma release_used:
  assumes "shmem_inv st" "a \<in> regions st" "find_info (p_pid (procs (m_k (shm_m st)) proc)) (sh_list (shmems st a)) = Some n"
    and "x = sh_list (shmems st a) ! n" "0 < si_usage x"
  shows "shmem_release st proc (sid st a) = Some (0,
    if si_usage x = 1 then upd_list a ((sh_list (shmems st a))[n := x\<lparr>si_usage := 0, si_virtual_location := 0, si_virtual_pages := -1\<rparr>])
        (in_pg (\<lambda>g. snd (page_release g (pdir st proc) (si_virtual_location x) (si_virtual_pages x))) st)
    else upd_list a ((sh_list (shmems st a))[n := x\<lparr>si_usage := si_usage x - 1\<rparr>]) st)"
proof -
  have "info_inv (sh_physical_pages (shmems st a)) x"
    using shmem_inv_infos [OF assms(1,2)] infos_ok_nth find_info_some [OF assms(3)] assms(4) by blast
  then have "wrap32 (si_usage x - 1) = si_usage x - 1" using assms(5) by (simp add: info_inv_def)
  then show ?thesis
    using shmem_region_eqs(2) [OF assms(1,2), of proc] assms(3-5) by (simp add: release_in_def Let_def)
qed

text \<open>
  C26. Round trip. When a request succeeds, the release that follows it succeeds and restores the address space of the process and the records
  of the region, whether the region was mapped already or not; only the last release unmaps.
\<close>

theorem shmem_request_release:
  assumes inv: "shmem_inv st" "a \<in> regions st" and x: "info_of st proc a = Some x" "si_usage x < 2 ^ 31 - 1"
    and can: "can_map st proc (sh_physical_pages (shmems st a))"
  shows "\<exists>r st1. shmem_request mem st proc (sid st a) = Some (r, st1) \<and>
    (if fst r = 0 then \<exists>st2. shmem_release st1 proc (sid st a) = Some (0, st2) \<and> shmems st2 = shmems st \<and> space st2 proc = space st proc \<and>
        (0 < si_usage x \<longrightarrow> shm_m st1 = shm_m st \<and> shm_m st2 = shm_m st)
     else st1 = st)"
proof (cases "si_usage x = 0")
  case True
  show ?thesis
  proof (rule request_maps [OF inv x(1) True can, of mem], goal_cases)
    case (2 v g n)
    let ?s = "shmems st a" and ?N = "nat (sh_physical_pages (shmems st a))"
    let ?y = "x\<lparr>si_virtual_location := v, si_virtual_pages := sh_physical_pages ?s, si_usage := 1\<rparr>"
    let ?st1 = "in_pg (\<lambda>_. g) (upd_list a ((sh_list ?s)[n := ?y]) st)"
    have i: "info_inv (sh_physical_pages ?s) x" "0 < sh_physical_pages ?s"
      using shmem_inv_infos [OF inv] infos_ok_nth 2(3,4) by blast+
    have "shmem_inv ?st1"
      by (rule request_in_inv [OF inv, of mem proc]) (use 2(1) shmem_region_eqs(3) [OF inv] x in auto)
    moreover have "find_info (p_pid (procs (m_k (shm_m st)) proc)) ((sh_list ?s)[n := ?y]) = Some n"
      by (rule info_of_update [OF 2(2)]) (simp add: 2(4))
    ultimately have r: "shmem_release ?st1 proc (sid ?st1 a) = Some (0, upd_list a ((sh_list ?s)[n := x\<lparr>si_usage := 0, si_virtual_location := 0, si_virtual_pages := -1\<rparr>])
        (in_pg (\<lambda>g. snd (page_release g (pdir st proc) v (sh_physical_pages ?s))) ?st1))"
      using release_used [of ?st1 a proc n ?y] inv(2) 2(3) by simp
    have "x\<lparr>si_usage := 0, si_virtual_location := 0, si_virtual_pages := -1\<rparr> = x" using i True by (simp add: info_inv_def)
    then have z: "(shmems st)(a := ?s\<lparr>sh_list := (sh_list ?s)[n := x\<lparr>si_usage := 0, si_virtual_location := 0, si_virtual_pages := -1\<rparr>]\<rparr>) = shmems st"
      using 2(4) by simp
    have "user_map (snd (page_release g (pdir st proc) v (sh_physical_pages ?s))) (pdir st proc) = user_map g (pdir st proc) |` (- page_run (vpage v) ?N)"
      using page_release_ok(4) [OF 2(6,5)] i(2) by simp
    also have "\<dots> = space st proc"
      unfolding 2(8) using 2(7) by (auto simp: fun_eq_iff restrict_map_def map_add_def run_map_def page_run_def)
    finally show ?case using 2(1) r z True by simp
  qed (use True in auto)
next
  case False
  let ?s = "shmems st a"
  obtain n where n: "find_info (p_pid (procs (m_k (shm_m st)) proc)) (sh_list ?s) = Some n" "n < length (sh_list ?s)" "x = sh_list ?s ! n"
    "joined st proc a = sh_list ?s" "\<not> joins st proc a" by (rule request_found [OF x(1)])
  have i: "info_inv (sh_physical_pages ?s) x" "0 < sh_physical_pages ?s" using shmem_inv_infos [OF inv] infos_ok_nth n(2,3) by blast+
  let ?y = "x\<lparr>si_usage := si_usage x + 1\<rparr>"
  let ?st1 = "upd_list a ((sh_list ?s)[n := ?y]) st"
  have q: "shmem_request mem st proc (sid st a) = Some ((0, Some (si_virtual_location x, si_virtual_pages x, si_flags x)), ?st1)"
    using shmem_region_eqs(3) [OF inv, of mem proc] request_in_found [of st proc a mem n] n i False x(2)
    by (simp add: info_inv_def Let_def use_info_def)
  have "shmem_inv ?st1"
    by (rule request_in_inv [OF inv, of mem proc]) (use q shmem_region_eqs(3) [OF inv] x in auto)
  moreover have "find_info (p_pid (procs (m_k (shm_m st)) proc)) ((sh_list ?s)[n := ?y]) = Some n"
    by (rule info_of_update [OF n(1)]) (simp add: n(3))
  ultimately have "shmem_release ?st1 proc (sid ?st1 a) = Some (0, st)"
    using release_used [of ?st1 a proc n ?y] inv(2) n(2) i(1) False n(3) by (simp add: info_inv_def)
  then show ?thesis using q by simp
qed

subsection \<open>Names\<close>

lemma shmem_find_loop_eq:
  assumes "ht_inv (shmem_table st)"
  shows "shmem_find_loop st name (int i) = List.find (\<lambda>a. strncmp name (sh_name (shmems st a)) NAME_LENGTH = 0) (drop i (ht_list (shmem_table st)))"
proof (induction "length (ht_list (shmem_table st)) - i" arbitrary: i)
  case 0
  then have "htable_get (shmem_table st) (int i) = None" using assms by (simp add: htable_get_eq) (simp add: ht_inv_def)
  then show ?case using 0 by (subst shmem_find_loop.simps) simp
next
  case (Suc k)
  let ?xs = "ht_list (shmem_table st)"
  have i: "i < length ?xs" using Suc(2) by simp
  then have g: "htable_get (shmem_table st) (int i) = Some (?xs ! i)" using assms by (simp add: htable_get_eq) (simp add: ht_inv_def)
  have "shmem_find_loop st name (int (Suc i)) = List.find (\<lambda>a. strncmp name (sh_name (shmems st a)) NAME_LENGTH = 0) (drop (Suc i) ?xs)"
    by (rule Suc(1)) (use Suc(2) in simp)
  moreover have "drop i ?xs = ?xs ! i # drop (Suc i) ?xs" using i by (rule Cons_nth_drop_Suc [symmetric])
  ultimately show ?case using g by (subst shmem_find_loop.simps) (simp add: add.commute)
qed

lemma shmem_find_eq:
  assumes "shmem_inv st"
  shows "shmem_find st name = Some (case List.find (\<lambda>a. strncmp name (sh_name (shmems st a)) NAME_LENGTH = 0) (ht_list (shmem_table st)) of
     None \<Rightarrow> (-1, None, st) | Some a \<Rightarrow> (sid st a, Some (sh_pid (shmems st a)), st))"
proof -
  obtain l where l: "read_shmem st = Some (st\<lparr>shmem_lock := l\<rparr>)" "rwlock_release l = shmem_lock st"
    using assms by (auto simp: shmem_inv_def intro: read_shmem_ok)
  have "ht_inv (shmem_table (st\<lparr>shmem_lock := l\<rparr>))" using assms by (simp add: shmem_inv_def shtable_inv_def ht_ready_def)
  from shmem_find_loop_eq [OF this, of name 0]
  have f: "shmem_find_loop (st\<lparr>shmem_lock := l\<rparr>) name 0 = List.find (\<lambda>a. strncmp name (sh_name (shmems st a)) NAME_LENGTH = 0) (ht_list (shmem_table st))"
    by simp
  have "release_shmem (st\<lparr>shmem_lock := l\<rparr>) = st" using l(2) by (simp add: release_shmem_def)
  then show ?thesis unfolding shmem_find_def l(1) by (simp add: f sid_def split: option.split)
qed

lemma find_unique: "x \<in> set xs \<Longrightarrow> (\<And>y. y \<in> set xs \<Longrightarrow> P y \<longleftrightarrow> y = x) \<Longrightarrow> List.find P xs = Some x"
  by (induction xs) auto

lemma strlen_some: "name k = 0 \<Longrightarrow> \<exists>len. strlen name = Some len \<and> 0 < len"
proof -
  assume "name k = 0"
  then have "\<exists>k. name k = 0 \<and> (\<forall>j<k. name j \<noteq> 0)" using exists_least_iff [of "\<lambda>k. name k = 0"] by blast
  then obtain m where "name m = 0" "\<forall>j<m. name j \<noteq> 0" by blast
  then show ?thesis using strlen_loop_spec [of 0 m name] by (simp add: strlen_def)
qed

text \<open>
  Round trip. A region that is created under a name of at most 63 characters which no region has is found under that name: the search
  returns the id that the creation returned, and the owner. The id was not in use.
\<close>

theorem shmem_create_find:
  assumes inv: "shmem_inv st" and can: "can_create_region st a" and pages: "0 < pages"
    and name: "\<exists>k<unat NAME_LENGTH. name k = 0"
    and new: "\<forall>b\<in>regions st. cstr (sh_name (shmems st b)) (unat NAME_LENGTH) \<noteq> cstr name (unat NAME_LENGTH)"
  shows "\<exists>i st'. shmem_create_direct (Some a) mem st name pid pages flags location internal = Some (i, st') \<and>
    i \<notin> sid st ` regions st \<and> shmem_find st' name = Some (i, Some pid, st')"
proof -
  obtain len where len: "strlen name = Some len" "0 < len" using name strlen_some by blast
  let ?s = "\<lambda>i. (blank_region (shmems st a) name pid pages flags location internal)\<lparr>sh_id := i\<rparr>"
  obtain i t where c: "shmem_create_direct (Some a) mem st name pid pages flags location internal =
      Some (i, st\<lparr>shmem_id := i + 1, shmems := (shmems st)(a := ?s i), shmem_table := t\<rparr>)"
    "sid_small i" "i \<notin> sid st ` regions st" "shmem_id st \<le> i" "set (ht_list t) = insert a (regions st)"
    "shmem_inv (st\<lparr>shmem_id := i + 1, shmems := (shmems st)(a := ?s i), shmem_table := t\<rparr>)"
    by (rule shmem_create_direct_ok [OF inv can pages len, of mem pid flags location internal])
  let ?st = "st\<lparr>shmem_id := i + 1, shmems := (shmems st)(a := ?s i), shmem_table := t\<rparr>"
  have n: "NAME_LENGTH \<noteq> 0" "2 \<le> unat NAME_LENGTH" by (simp_all add: NAME_LENGTH_def)
  have nm: "cstr (sh_name (?s i)) (unat NAME_LENGTH) = cstr name (unat NAME_LENGTH)"
    using strncpy_result [OF n(2), of "sh_name (shmems st a)" name] name by (simp add: blank_region_def)
  have cmp: "strncmp name (sh_name (shmems ?st b)) NAME_LENGTH = 0 \<longleftrightarrow> b = a" if b: "b \<in> insert a (regions st)" for b
  proof (cases "b = a")
    case True
    have "shmems ?st b = ?s i" by (simp add: True)
    then show ?thesis using nm [symmetric] True by (simp only: strncmp_zero_iff [OF n(1)] refl)
  next
    case False
    then have "shmems ?st b = shmems st b" by simp
    moreover have "cstr name (unat NAME_LENGTH) \<noteq> cstr (sh_name (shmems st b)) (unat NAME_LENGTH)" using new b False by force
    ultimately show ?thesis using False by (simp only: strncmp_zero_iff [OF n(1)])
  qed
  have "List.find (\<lambda>b. strncmp name (sh_name (shmems ?st b)) NAME_LENGTH = 0) (ht_list t) = Some a"
    by (rule find_unique) (simp_all only: c(5) cmp insertI1)
  then have "shmem_find ?st name = Some (i, Some pid, ?st)"
    using shmem_find_eq [OF c(6), of name] by (simp add: sid_def blank_region_def)
  then show ?thesis using c(1,3) by blast
qed

subsection \<open>Who may not\<close>

text \<open>
  C27. Only the owner grants, revokes and deletes; and a process without a grant gets nothing from a region that is not promiscuous. In all of
  these cases the call returns -1 and the state is as before.
\<close>

theorem shmem_access_control:
  assumes "shmem_inv st" "a \<in> regions st"
  shows "(owner \<noteq> sh_pid (shmems st a) \<longrightarrow>
      shmem_grant mem st owner (sid st a) pid flags = Some (-1, st) \<and> shmem_revoke st owner proc (sid st a) = Some (-1, st) \<and>
      shmem_delete mem st owner (sid st a) = Some (-1, st)) \<and>
    (info_of st proc a = None \<and> sh_flags (shmems st a) AND SHMEM_PROMISCUOUS \<noteq> SHMEM_PROMISCUOUS \<longrightarrow>
      shmem_request mem st proc (sid st a) = Some ((-1, None), st) \<and> shmem_release st proc (sid st a) = Some (-1, st))"
proof (intro conjI impI)
  assume o: "owner \<noteq> sh_pid (shmems st a)"
  show "shmem_grant mem st owner (sid st a) pid flags = Some (-1, st)" "shmem_revoke st owner proc (sid st a) = Some (-1, st)"
    using o by (simp_all add: shmem_region_eqs [OF assms] grant_in_def revoke_in_def Let_def)
  obtain l where "write_shmem st = Some (st\<lparr>shmem_lock := l\<rparr>)" "rwlock_release l = shmem_lock st"
    using assms(1) by (auto simp: shmem_inv_def intro: write_shmem_ok)
  then show "shmem_delete mem st owner (sid st a) = Some (-1, st)"
    using lookup_shmem_some [of st a] assms o by (simp add: shmem_delete_def release_shmem_def shmem_inv_def)
next
  assume i: "info_of st proc a = None \<and> sh_flags (shmems st a) AND SHMEM_PROMISCUOUS \<noteq> SHMEM_PROMISCUOUS"
  then have "joined st proc a = sh_list (shmems st a)" "\<not> joins st proc a" by (simp_all add: joined_def joins_def)
  then show "shmem_request mem st proc (sid st a) = Some ((-1, None), st)" "shmem_release st proc (sid st a) = Some (-1, st)"
    using i by (simp_all add: shmem_region_eqs [OF assms] request_in_def release_in_def info_of_def Let_def)
qed

subsection \<open>Revocation\<close>

lemma direct_map_bytes: "direct_map_loop n dir phys index f st = Some st' \<Longrightarrow> pg_bytes st' = pg_bytes st"
proof (induction n arbitrary: phys index st)
  case (Suc n)
  then obtain st1 where st1: "ensure_table dir index f st = Some st1"
    "direct_map_loop n dir (phys + of_nat PAGE_SIZE) (index + of_nat PAGE_SIZE) f (set_pte dir index (phys OR f OR PAGE_PRESENT) st1) = Some st'"
    by (auto split: bind_splits)
  have "pg_bytes st1 = pg_bytes st" using st1(1) by (auto simp: ensure_table_def Let_def split: if_splits bind_splits)
  then show ?case using Suc(1) [OF st1(2)] by (simp add: set_pte_def)
qed simp

lemma page_direct_map_bytes: "page_direct_map st dir physical start pages type = Some (rc, st') \<Longrightarrow> pg_bytes st' = pg_bytes st"
  using direct_map_bytes by (auto simp: page_direct_map_def split: bind_splits)

lemma copy_phys_at: "j < unat (of_int pages * of_nat PAGE_SIZE :: u32) \<Longrightarrow> pg_bytes (copy_phys dest src pages g) (dest + of_nat j) = pg_bytes g (src + of_nat j)"
proof -
  assume j: "j < unat (of_int pages * of_nat PAGE_SIZE :: u32)"
  then have "j < 2 ^ 32" using u32_lt [of "of_int pages * of_nat PAGE_SIZE"] by simp
  then have "unat (dest + of_nat j - dest) = j" by (simp add: unat_of_nat)
  then show ?thesis using j by (simp add: copy_phys_def memcpy_at)
qed

lemma copy_phys_fields [simp]: "pg_phys (copy_phys d s n g) = pg_phys g" "pg_mem (copy_phys d s n g) = pg_mem g"
  "user_map (copy_phys d s n g) = user_map g"
  by (simp_all add: copy_phys_def user_map_def xlat_def tabs_def fun_eq_iff)

lemma user_map_phys: "user_map (g\<lparr>pg_phys := p\<rparr>) = user_map g"
  by (simp add: user_map_def xlat_def tabs_def fun_eq_iff)

lemma find_dropped:
  assumes "infos_ok pages xs" "find_info pid xs = Some n"
  shows "find_info pid (drop_info n xs) = None"
proof -
  have n: "n < length xs" "upid (si_pid (xs ! n)) = upid pid" using find_info_some [OF assms(2)] by simp_all
  have "xs = take n xs @ xs ! n # drop (Suc n) xs" using n(1) by (rule id_take_nth_drop)
  then have "distinct (map (upid \<circ> si_pid) (take n xs @ xs ! n # drop (Suc n) xs))" using assms(1) by (simp add: infos_ok_def del: map_append)
  then show ?thesis unfolding find_info_none drop_info_def using n(2) by auto
qed

text \<open>
  C28. A process that uses the region is not disturbed when its access is revoked: where memory is found, its pages are mapped with the rights it had
  to frames that nobody used, these hold what the region holds, the other pages and the interrupts are as before, and the process has no record any more.
\<close>

theorem shmem_revoke_copies:
  assumes inv: "shmem_inv st" "a \<in> regions st" and x: "info_of st proc a = Some x" "0 < si_usage x"
    and run: "user_run (si_virtual_location x) (nat (sh_physical_pages (shmems st a)))" "pt_inv (pg st) (pdir st proc)"
    and mem: "memory_alloc (ph st) (sh_physical_pages (shmems st a)) = Some (data, p)" "data \<noteq> 0" "avail p (nat (sh_physical_pages (shmems st a)))"
  shows "\<exists>st'. shmem_revoke st (sh_pid (shmems st a)) proc (sid st a) = Some (0, st') \<and> shmem_inv st' \<and> info_of st' proc a = None \<and>
    ints (m_k (shm_m st')) = ints (m_k (shm_m st)) \<and>
    space st' proc = space st proc ++ run_map (vpage (si_virtual_location x)) (nat (sh_physical_pages (shmems st a))) data
      (convert_paging_types (page_rights (si_flags x))) \<and>
    (\<forall>j<nat (sh_physical_pages (shmems st a)) * PAGE_SIZE. pg_bytes (pg st') (data + of_nat j) = pg_bytes (pg st) (sh_physical_location (shmems st a) + of_nat j)) \<and>
    (\<forall>q\<in>page_run (vpage data) (nat (sh_physical_pages (shmems st a))). \<not> ISSET (ph st) q)"
proof -
  let ?s = "shmems st a" and ?N = "nat (sh_physical_pages (shmems st a))" and ?dir = "pdir st proc"
  obtain n where n: "find_info (p_pid (procs (m_k (shm_m st)) proc)) (sh_list ?s) = Some n" "n < length (sh_list ?s)" "x = sh_list ?s ! n"
    by (rule request_found [OF x(1)])
  have i: "infos_ok (sh_physical_pages ?s) (sh_list ?s)" "0 < sh_physical_pages ?s" using shmem_inv_infos [OF inv] by simp_all
  then have v: "si_virtual_pages x = sh_physical_pages ?s" using infos_ok_nth [OF i(1) n(2)] x(2) n(3) by (simp add: info_inv_def)
  obtain block where b: "data = of_nat (block * PAGE_SIZE)" "unat data = block * PAGE_SIZE" "took (ph st) block ?N p"
    by (rule memory_alloc_cases [OF i(2) mem(1)]) (use mem(2) in auto)
  have N: "?N \<le> MAXMAP" "0 < ?N" using b(3) i(2) by (simp_all add: took_def)
  then have Nu: "unat (of_int (sh_physical_pages ?s) :: u32) = ?N" "unat (of_int (sh_physical_pages ?s) * of_nat PAGE_SIZE :: u32) = ?N * PAGE_SIZE"
    using i(2) by (auto simp: MAXMAP_def PAGE_SIZE_def unat_eq_nat_uint uint_word_of_int uint_word_ariths nat_mult_distrib)
  let ?g = "(pg st)\<lparr>pg_phys := p\<rparr>"
  have "pt_inv ?g ?dir" by (rule pt_inv_same [OF run(2)]) (use b(3) in \<open>auto simp: tabs_def took_def\<close>)
  then obtain g where g: "page_direct_map ?g ?dir data (si_virtual_location x) (of_int (sh_physical_pages ?s)) (page_rights (si_flags x)) = Some (0, g)"
    "user_map g ?dir = space st proc ++ run_map (vpage (si_virtual_location x)) ?N data (convert_paging_types (page_rights (si_flags x)))"
    using page_direct_map_ok [of ?g ?dir "si_virtual_location x" "of_int (sh_physical_pages ?s)" data "page_rights (si_flags x)"]
      run(1) mem(3) Nu(1) by (auto simp: user_map_phys)
  let ?h = "copy_phys data (sh_physical_location ?s) (sh_physical_pages ?s) g"
  let ?st = "upd_list a (drop_info n (sh_list ?s)) (in_pg (\<lambda>_. ?h) st)"
  have "in_k enable_interrupts (in_pg f (in_k (\<lambda>_. k\<lparr>ints := False\<rparr>) st1)) = in_pg f (in_k (\<lambda>_. k\<lparr>ints := True\<rparr>) st1)" for f k st1
    by (simp add: in_k_def in_pg_def enable_interrupts_def)
  then have r: "shmem_revoke st (sh_pid ?s) proc (sid st a) = Some (0, ?st)"
    using shmem_region_eqs(4) [OF inv, of "sh_pid ?s" proc] n x(2) v mem(1,2) g(1)
    by (cases "ints (m_k (shm_m st))")
      (simp_all add: revoke_in_def Let_def disable_interrupts_def in_k_def in_pg_def upd_list_def upd_shmem_def enable_interrupts_def)
  have "shmem_inv ?st" by (rule revoke_in_inv [OF inv]) (use r shmem_region_eqs(4) [OF inv] in auto)
  moreover have "info_of ?st proc a = None" using find_dropped [OF i(1) n(1)] by (simp add: info_of_def)
  moreover have "pg_bytes ?h (data + of_nat j) = pg_bytes (pg st) (sh_physical_location ?s + of_nat j)" if "j < ?N * PAGE_SIZE" for j
    using copy_phys_at [of j "sh_physical_pages ?s"] that page_direct_map_bytes [OF g(1)] unfolding Nu(2) by simp
  moreover have "\<not> ISSET (ph st) q" if "q \<in> page_run (vpage data) ?N" for q
    using that b by (simp add: took_def page_run_def vpage_def PAGE_SIZE_def)
  ultimately show ?thesis using r g(2) by (intro exI [of _ ?st]) simp
qed

subsection \<open>What goes wrong\<close>

text \<open>
  Without memory for the copy a revocation fails after it has disabled the interrupts and does not enable them again.
\<close>

theorem shmem_revoke_no_memory:
  assumes inv: "shmem_inv st" "a \<in> regions st" and x: "info_of st proc a = Some x" "0 < si_usage x"
    and mem: "s_freePages (ph st) \<le> sh_physical_pages (shmems st a)"
  shows "\<exists>st'. shmem_revoke st (sh_pid (shmems st a)) proc (sid st a) = Some (-1, st') \<and> shmems st' = shmems st \<and> \<not> ints (m_k (shm_m st'))"
proof -
  obtain n where n: "find_info (p_pid (procs (m_k (shm_m st)) proc)) (sh_list (shmems st a)) = Some n" "x = sh_list (shmems st a) ! n"
    by (rule request_found [OF x(1)])
  have "memory_alloc (ph st) (sh_physical_pages (shmems st a)) = Some (0, ph st)"
    using mem shmem_inv_infos [OF inv] by (simp add: memory_alloc_def)
  then show ?thesis
    using shmem_region_eqs(4) [OF inv, of "sh_pid (shmems st a)" proc] n x(2)
    by (simp add: revoke_in_def Let_def disable_interrupts_def)
qed

lemma in_pg_list: "upd_list a xs (in_pg f st) = in_pg f (upd_list a xs st)"
  by (simp add: in_pg_def upd_list_def upd_shmem_def)

lemma checkout_idle: "\<forall>x\<in>set xs. si_usage x \<le> 0 \<Longrightarrow> checkout_users pages xs ms = Some ((xs, 0), ms)"
  by (induction xs) auto

lemma commit_idle: "\<forall>x\<in>set xs. si_tmp x = None \<Longrightarrow> commit_users xs k = k"
  by (induction xs) auto

lemma dismantle_idle:
  assumes "\<forall>x\<in>set (sh_list s). si_usage x \<le> 0 \<and> si_tmp x = None"
  shows "dismantle s ms = (if sh_internal s \<noteq> 0 then do {
       p \<leftarrow> memory_free (pg_phys (m_pg ms)) (sh_physical_pages s) (sh_physical_location s);
       Some (ms\<lparr>m_pg := (m_pg ms)\<lparr>pg_phys := p\<rparr>\<rparr>) }
     else Some ms)"
  using assms checkout_idle [of "sh_list s" "sh_physical_pages s" ms] commit_idle [of "sh_list s" "m_k ms"] by (simp add: dismantle_def)

text \<open>The frames of a region are in use.\<close>

definition backed_region :: "shstate \<Rightarrow> shmem \<Rightarrow> bool" where
  "backed_region st s \<longleftrightarrow> aligned (sh_physical_location s) \<and> vpage (sh_physical_location s) + nat (sh_physical_pages s) \<le> MAXMAP \<and>
     (\<forall>q\<in>page_run (vpage (sh_physical_location s)) (nat (sh_physical_pages s)). ISSET (ph st) q)"

lemma aligned_page: "aligned a \<Longrightarrow> a = of_nat (vpage a * PAGE_SIZE)"
proof -
  assume "aligned a"
  then have "of_nat (unat a) = (of_nat (vpage a * PAGE_SIZE) :: u32)" using alignedE(1) by (simp add: PAGE_SIZE_def)
  then show ?thesis by simp
qed

lemma free_region:
  assumes "backed_region st s" "0 < sh_physical_pages s"
  obtains p where "memory_free (ph st) (sh_physical_pages s) (sh_physical_location s) = Some p"
    "\<And>q. ISSET p q \<longleftrightarrow> ISSET (ph st) q \<and> q \<notin> page_run (vpage (sh_physical_location s)) (nat (sh_physical_pages s))"
proof -
  let ?b = "vpage (sh_physical_location s)" and ?N = "nat (sh_physical_pages s)"
  have "?b + ?N \<le> MAXMAP" "0 < ?N" "\<And>p. ?b \<le> p \<Longrightarrow> p < ?b + ?N \<Longrightarrow> ISSET (ph st) p" using assms by (auto simp: backed_region_def page_run_def)
  from memory_free_ok [OF this] obtain p where
    p: "memory_free (ph st) (int ?N) (of_nat (?b * PAGE_SIZE)) = Some p" "\<And>q. ISSET p q \<longleftrightarrow> ISSET (ph st) q \<and> \<not> (?b \<le> q \<and> q < ?b + ?N)" by blast
  moreover have "of_nat (?b * PAGE_SIZE) = sh_physical_location s" using assms(1) aligned_page by (simp add: backed_region_def)
  ultimately show thesis using assms(2) by (intro that [of p]) (auto simp: page_run_def)
qed

lemma provide_free:
  assumes "can_map st proc pages" "\<forall>v\<in>page_run (vpage sK_BASE) (nat pages). xlat (pg st) (pdir st proc) v = None"
  obtains g where "page_provide (pg st) (pdir st proc) location sK_BASE sK_CEILING (of_int pages) type = Some (sK_BASE, g)"
    "user_map g (pdir st proc) = space st proc ++ run_map (vpage sK_BASE) (nat pages) location (convert_paging_types type)"
    "\<And>q. ISSET (ph st) q \<Longrightarrow> ISSET (pg_phys g) q"
proof -
  have n: "unat (of_int pages :: u32) = nat pages" "nat pages \<le> 16384" using assms(1) unat_pages [of pages] by (auto simp: can_map_def)
  have "page_entry_present (pg st) (pdir st proc) (sK_BASE + of_nat c * of_nat PAGE_SIZE) \<noteq> 0" if "c < nat pages" for c
  proof -
    have "unat (sK_BASE + of_nat c * of_nat PAGE_SIZE) = (524288 + c) * 4096"
      using that n(2) by (simp add: sK_BASE_def PAGE_SIZE_def unat_word_ariths unat_of_nat)
    then have "vpage (sK_BASE + of_nat c * of_nat PAGE_SIZE) = vpage sK_BASE + c" unfolding ceiling(3) by (simp add: vpage_def PAGE_SIZE_def)
    then show ?thesis using assms(2) that by (simp add: xlat_entry page_run_def)
  qed
  then have "window_block (pg st) (pdir st proc) sK_BASE (nat pages) = nat pages" unfolding window_block_def by (intro arr_find_noneI) simp_all
  moreover have "sK_BASE AND NOT 0xFFF = sK_BASE" "sK_BASE < sK_CEILING" "sK_BASE \<noteq> 0" by (simp_all add: sK_BASE_def sK_CEILING_def)
  ultimately have f: "page_find_free (pg st) (pdir st proc) sK_BASE sK_CEILING (of_int pages) = Some sK_BASE"
    unfolding page_find_free_def n(1) by (subst find_free_loop.simps) simp
  have "user_run sK_BASE (unat (of_int pages :: u32))" using n ceiling(3) by (simp add: user_run_def aligned_def sK_BASE_def PAGE_SIZE_def)
  then obtain g where g: "page_direct_map (pg st) (pdir st proc) location sK_BASE (of_int pages) type = Some (0, g)" "grow (pdir st proc) (pg st) g"
    "user_map g (pdir st proc) = space st proc ++ run_map (vpage sK_BASE) (nat pages) location (convert_paging_types type)"
    using page_direct_map_ok [of "pg st" "pdir st proc" sK_BASE "of_int pages" location type] assms(1) n(1) by (auto simp: can_map_def)
  show thesis
    by (rule that [of g]) (use f g \<open>sK_BASE \<noteq> 0\<close> in \<open>auto simp: page_provide_def grow_def\<close>)
qed

text \<open>
  A release without a request makes the counter negative, and the request after it leaves it at zero with the region mapped.
\<close>

lemma release_then_request:
  assumes inv: "shmem_inv st" "a \<in> regions st" and x: "info_of st proc a = Some x" "si_usage x = 0"
    and can: "can_map st proc (sh_physical_pages (shmems st a))"
    "\<forall>v\<in>page_run (vpage sK_BASE) (nat (sh_physical_pages (shmems st a))). xlat (pg st) (pdir st proc) v = None"
  obtains n g st1 where "shmem_release st proc (sid st a) = Some (0, st1)"
    "shmem_request mem st1 proc (sid st a) = Some ((0, Some (sK_BASE, sh_physical_pages (shmems st a), si_flags x)),
      in_pg (\<lambda>_. g) (upd_list a ((sh_list (shmems st a))[n := x\<lparr>si_virtual_location := sK_BASE, si_virtual_pages := sh_physical_pages (shmems st a)\<rparr>]) st))"
    "user_map g (pdir st proc) = space st proc ++ run_map (vpage sK_BASE) (nat (sh_physical_pages (shmems st a))) (sh_physical_location (shmems st a))
      (convert_paging_types (page_rights (si_flags x)))"
    "\<forall>q. ISSET (ph st) q \<longrightarrow> ISSET (pg_phys g) q"
proof -
  let ?s = "shmems st a"
  obtain n where n: "find_info (p_pid (procs (m_k (shm_m st)) proc)) (sh_list ?s) = Some n" "n < length (sh_list ?s)" "x = sh_list ?s ! n"
    by (rule request_found [OF x(1)])
  have i: "info_inv (sh_physical_pages ?s) x" using shmem_inv_infos [OF inv] infos_ok_nth n(2,3) by blast
  let ?y = "x\<lparr>si_usage := -1\<rparr>"
  let ?st1 = "upd_list a ((sh_list ?s)[n := ?y]) st"
  have y: "x\<lparr>si_virtual_location := sK_BASE, si_virtual_pages := sh_physical_pages ?s, si_usage := 0\<rparr> =
      x\<lparr>si_virtual_location := sK_BASE, si_virtual_pages := sh_physical_pages ?s\<rparr>" using x(2) by (cases x) simp
  have r: "shmem_release st proc (sid st a) = Some (0, ?st1)"
    using shmem_region_eqs(2) [OF inv, of proc] n x(2) by (simp add: release_in_def Let_def)
  obtain g where g: "page_provide (pg st) (pdir st proc) (sh_physical_location ?s) sK_BASE sK_CEILING (of_int (sh_physical_pages ?s))
        (page_rights (si_flags x)) = Some (sK_BASE, g)"
    "user_map g (pdir st proc) = space st proc ++ run_map (vpage sK_BASE) (nat (sh_physical_pages ?s)) (sh_physical_location ?s) (convert_paging_types (page_rights (si_flags x)))"
    "\<And>q. ISSET (ph st) q \<Longrightarrow> ISSET (pg_phys g) q"
    using provide_free [OF can, of "sh_physical_location ?s" "page_rights (si_flags x)"] by blast
  have f: "find_info (p_pid (procs (m_k (shm_m ?st1)) proc)) (sh_list (shmems ?st1 a)) = Some n"
    using info_of_update [OF n(1), of ?y] n(3) by simp
  then have j: "joined ?st1 proc a = (sh_list ?s)[n := ?y]" "\<not> joins ?st1 proc a" by (simp_all add: joined_def joins_def)
  have "access_ok ?st1 a" using inv_access [OF inv] by (simp add: access_ok_def)
  from shmem_access_eqs(3) [OF this, of mem proc] have "shmem_request mem ?st1 proc (sid st a) = request_in mem proc a ?st1" by simp
  also have "\<dots> = Some (use_info a n (?y\<lparr>si_virtual_location := sK_BASE, si_virtual_pages := sh_physical_pages ?s\<rparr>) (in_pg (\<lambda>_. g) ?st1))"
    using request_in_found [of ?st1 proc a mem n] f j i g(1) x(2) n(2) by (simp add: info_inv_def Let_def sK_BASE_def)
  also have "use_info a n (?y\<lparr>si_virtual_location := sK_BASE, si_virtual_pages := sh_physical_pages ?s\<rparr>) (in_pg (\<lambda>_. g) ?st1) =
      ((0, Some (sK_BASE, sh_physical_pages ?s, si_flags x)),
       in_pg (\<lambda>_. g) (upd_list a ((sh_list ?s)[n := x\<lparr>si_virtual_location := sK_BASE, si_virtual_pages := sh_physical_pages ?s\<rparr>]) st))"
    using y by (simp add: use_info_def in_pg_list)
  finally show thesis using that [OF r _ g(2)] g(3) by blast
qed

text \<open>
  A process that releases a region before it requests it keeps the frames of the region mapped when the owner deletes it, although they are
  given back and may be handed to anyone: its counter is zero while it has the region mapped, so that no copy is made for it.
\<close>

theorem shmem_release_underflow:
  assumes inv: "shmem_inv st" "a \<in> regions st" and x: "info_of st proc a = Some x"
    and idle: "\<forall>y\<in>set (sh_list (shmems st a)). si_usage y = 0"
    and can: "can_map st proc (sh_physical_pages (shmems st a))"
    "\<forall>v\<in>page_run (vpage sK_BASE) (nat (sh_physical_pages (shmems st a))). xlat (pg st) (pdir st proc) v = None"
    and own: "sh_internal (shmems st a) \<noteq> 0" "backed_region st (shmems st a)"
  shows "\<exists>st1 r st2 st3. shmem_release st proc (sid st a) = Some (0, st1) \<and> shmem_request mem st1 proc (sid st a) = Some (r, st2) \<and>
    shmem_delete mem st2 (sh_pid (shmems st a)) (sid st a) = Some (0, st3) \<and>
    (\<forall>j<nat (sh_physical_pages (shmems st a)).
      space st3 proc (vpage sK_BASE + j) = Some ((sh_physical_location (shmems st a) + of_nat j * of_nat PAGE_SIZE) OR
        convert_paging_types (page_rights (si_flags x)) OR PAGE_PRESENT) \<and>
      \<not> ISSET (ph st3) (vpage (sh_physical_location (shmems st a)) + j))"
proof -
  let ?s = "shmems st a"
  have xin: "x \<in> set (sh_list ?s)" using request_found [OF x] by (metis nth_mem)
  have u: "si_usage x = 0" using xin idle by blast
  obtain n g st1 where s: "shmem_release st proc (sid st a) = Some (0, st1)"
    "shmem_request mem st1 proc (sid st a) = Some ((0, Some (sK_BASE, sh_physical_pages ?s, si_flags x)),
      in_pg (\<lambda>_. g) (upd_list a ((sh_list ?s)[n := x\<lparr>si_virtual_location := sK_BASE, si_virtual_pages := sh_physical_pages ?s\<rparr>]) st))"
    "user_map g (pdir st proc) = space st proc ++ run_map (vpage sK_BASE) (nat (sh_physical_pages ?s)) (sh_physical_location ?s)
      (convert_paging_types (page_rights (si_flags x)))"
    "\<forall>q. ISSET (ph st) q \<longrightarrow> ISSET (pg_phys g) q"
    by (rule release_then_request [OF inv x u can, of mem])
  let ?st2 = "in_pg (\<lambda>_. g) (upd_list a ((sh_list ?s)[n := x\<lparr>si_virtual_location := sK_BASE, si_virtual_pages := sh_physical_pages ?s\<rparr>]) st)"
  have t: "si_tmp y = None" if "y \<in> set (sh_list ?s)" for y
    using that shmem_inv_infos [OF inv] by (simp add: infos_ok_def info_inv_def)
  have "backed_region ?st2 (shmems ?st2 a)" "0 < sh_physical_pages (shmems ?st2 a)"
    using own(2) s(4) can(1) by (auto simp: backed_region_def can_map_def)
  from free_region [OF this] obtain p where p: "memory_free (pg_phys g) (sh_physical_pages ?s) (sh_physical_location ?s) = Some p"
    "\<And>q. ISSET p q \<longleftrightarrow> ISSET (pg_phys g) q \<and> q \<notin> page_run (vpage (sh_physical_location ?s)) (nat (sh_physical_pages ?s))" by auto
  have "\<forall>y\<in>set ((sh_list ?s)[n := x\<lparr>si_virtual_location := sK_BASE, si_virtual_pages := sh_physical_pages ?s\<rparr>]). si_usage y \<le> 0 \<and> si_tmp y = None"
    using u idle t [OF xin] t by (auto dest!: subsetD [OF set_update_subset_insert])
  then have d: "dismantle (shmems ?st2 a) (shm_m ?st2) = Some ((shm_m ?st2)\<lparr>m_pg := g\<lparr>pg_phys := p\<rparr>\<rparr>)"
    using own(1) p(1) by (subst dismantle_idle) simp_all
  have "access_ok ?st2 a" using inv_access [OF inv] by (simp add: access_ok_def)
  from shmem_delete_eq [OF this] obtain t where "shmem_delete mem ?st2 (sh_pid (shmems ?st2 a)) (sid ?st2 a) =
      do { ms \<leftarrow> dismantle (shmems ?st2 a) (shm_m ?st2); Some (0, ?st2\<lparr>shmem_table := t, shm_m := ms\<rparr>) }" by metis
  then have e: "shmem_delete mem ?st2 (sh_pid ?s) (sid st a) = Some (0, ?st2\<lparr>shmem_table := t, shm_m := (shm_m ?st2)\<lparr>m_pg := g\<lparr>pg_phys := p\<rparr>\<rparr>\<rparr>)"
    unfolding d by simp
  let ?st3 = "?st2\<lparr>shmem_table := t, shm_m := (shm_m ?st2)\<lparr>m_pg := g\<lparr>pg_phys := p\<rparr>\<rparr>\<rparr>"
  have "space ?st3 proc (vpage sK_BASE + j) = Some ((sh_physical_location ?s + of_nat j * of_nat PAGE_SIZE) OR
        convert_paging_types (page_rights (si_flags x)) OR PAGE_PRESENT)" "\<not> ISSET (ph ?st3) (vpage (sh_physical_location ?s) + j)"
    if "j < nat (sh_physical_pages ?s)" for j
    using that s(3) p(2) by (simp_all add: user_map_phys run_map_def page_run_def)
  then show ?thesis using s(1,2) e by blast
qed

subsection \<open>Cleaning up after a process\<close>

definition mortal :: "int \<Rightarrow> shmem \<Rightarrow> bool" where
  "mortal pid s \<longleftrightarrow> sh_pid s = pid \<and> sh_flags s AND SHMEM_IMMORTAL \<noteq> SHMEM_IMMORTAL"

definition doomed :: "int \<Rightarrow> shstate \<Rightarrow> addr set" where
  "doomed pid st = {a \<in> regions st. mortal pid (shmems st a)}"

definition orphan :: "shmem \<Rightarrow> shmem" where
  "orphan s = s\<lparr>sh_flags := sh_flags s OR SHMEM_ORPHAN\<rparr>"

definition idle :: "shmem \<Rightarrow> bool" where
  "idle s \<longleftrightarrow> (\<forall>x\<in>set (sh_list s). si_usage x = 0)"

text \<open>The frames that a region has to give back, and that regions do not share any.\<close>

definition sframes :: "shmem \<Rightarrow> nat set" where
  "sframes s = (if sh_internal s = 0 then {} else page_run (vpage (sh_physical_location s)) (nat (sh_physical_pages s)))"

definition frames_inv :: "shstate \<Rightarrow> bool" where
  "frames_inv st \<longleftrightarrow> (\<forall>a\<in>regions st. sh_internal (shmems st a) \<noteq> 0 \<longrightarrow> backed_region st (shmems st a)) \<and>
     (\<forall>a\<in>regions st. \<forall>b\<in>regions st. a \<noteq> b \<longrightarrow> sframes (shmems st a) \<inter> sframes (shmems st b) = {})"

text \<open>What is left: the regions of other processes as they were, the immortal ones of this process as orphans, and the frames of the others free.\<close>

definition cleaned :: "int \<Rightarrow> shstate \<Rightarrow> shstate \<Rightarrow> bool" where
  "cleaned pid st st' \<longleftrightarrow> shmem_inv st' \<and> frames_inv st' \<and> regions st' = regions st - doomed pid st \<and>
     (\<forall>a\<in>regions st'. shmems st' a = (if sh_pid (shmems st a) = pid then orphan (shmems st a) else shmems st a)) \<and>
     (\<forall>q. ISSET (ph st') q \<longleftrightarrow> ISSET (ph st) q \<and> q \<notin> (\<Union>a\<in>doomed pid st. sframes (shmems st a)))"

lemma orphan_fields [simp]:
  "sh_pid (orphan s) = sh_pid s" "sh_id (orphan s) = sh_id s" "sh_list (orphan s) = sh_list s" "sh_lock (orphan s) = sh_lock s"
  "sh_physical_pages (orphan s) = sh_physical_pages s" "sh_physical_location (orphan s) = sh_physical_location s" "sh_internal (orphan s) = sh_internal s"
  "orphan (orphan s) = orphan s" "mortal pid (orphan s) = mortal pid s" "region_inv (orphan s) = region_inv s" "idle (orphan s) = idle s"
  "sframes (orphan s) = sframes s" "backed_region st (orphan s) = backed_region st s"
proof -
  have "(f OR SHMEM_ORPHAN) AND SHMEM_IMMORTAL = f AND SHMEM_IMMORTAL" for f :: u32
    by (simp add: SHMEM_ORPHAN_def SHMEM_IMMORTAL_def bit.conj_disj_distrib2)
  then show "mortal pid (orphan s) = mortal pid s" by (simp add: mortal_def orphan_def)
qed (simp_all add: orphan_def region_inv_def idle_def sframes_def backed_region_def or.assoc)

lemma orphan_step:
  fixes st :: shstate and a :: addr
  defines "st1 \<equiv> st\<lparr>shmems := (shmems st)(a := orphan (shmems st a))\<rparr>"
  assumes "shmem_inv st" "frames_inv st"
  shows "shmem_inv st1" "frames_inv st1" "doomed pid st1 = doomed pid st" "regions st1 = regions st" "shmem_table st1 = shmem_table st"
    "sh_pid (shmems st a) = pid \<Longrightarrow> cleaned pid st1 st' \<Longrightarrow> cleaned pid st st'"
proof -
  have f: "regions st1 = regions st" "shtable_inv st1 = shtable_inv st" by (rule table_frame; simp add: st1_def)+
  then show r: "regions st1 = regions st" "shmem_table st1 = shmem_table st" by (simp_all add: st1_def)
  show "shmem_inv st1" using assms(2) f by (simp add: shmem_inv_def) (simp add: st1_def)
  have e: "sframes (shmems st1 b) = sframes (shmems st b)" "mortal pid (shmems st1 b) = mortal pid (shmems st b)"
    "sh_internal (shmems st1 b) = sh_internal (shmems st b)" "backed_region st1 (shmems st1 b) = backed_region st (shmems st b)" for b
    by (simp_all add: st1_def backed_region_def)
  show "frames_inv st1" using assms(3) unfolding frames_inv_def r e .
  show d: "doomed pid st1 = doomed pid st" by (simp add: doomed_def r e)
  have p: "ph st1 = ph st" by (simp add: st1_def)
  assume pid: "sh_pid (shmems st a) = pid" and c: "cleaned pid st1 st'"
  have "(if sh_pid (shmems st1 b) = pid then orphan (shmems st1 b) else shmems st1 b) =
      (if sh_pid (shmems st b) = pid then orphan (shmems st b) else shmems st b)" for b using pid by (simp add: st1_def)
  then show "cleaned pid st st'" using c unfolding cleaned_def r d e p by simp
qed

lemma delete_step:
  assumes inv: "shmem_inv st" "frames_inv st" and a: "a \<in> doomed pid st" "idle (shmems st a)"
  obtains st1 where "shmem_delete mem st pid (sid st a) = Some (0, st1)" "shmem_inv st1" "frames_inv st1" "doomed pid st1 = doomed pid st - {a}"
    "shmems st1 = shmems st" "shmem_lock st1 = shmem_lock st" "\<forall>st'. cleaned pid st1 st' \<longrightarrow> cleaned pid st st'"
proof -
  let ?s = "shmems st a"
  have r: "a \<in> regions st" "sh_pid ?s = pid" "mortal pid ?s" using a(1) by (simp_all add: doomed_def mortal_def)
  have ok: "\<forall>x\<in>set (sh_list ?s). si_usage x \<le> 0 \<and> si_tmp x = None" "0 < sh_physical_pages ?s"
    using shmem_inv_infos [OF inv(1) r(1)] a(2) by (auto simp: infos_ok_def info_inv_def idle_def)
  obtain p where p: "dismantle ?s (shm_m st) = Some ((shm_m st)\<lparr>m_pg := (pg st)\<lparr>pg_phys := p\<rparr>\<rparr>)"
    "\<And>q. ISSET p q \<longleftrightarrow> ISSET (ph st) q \<and> q \<notin> sframes ?s"
  proof (cases "sh_internal ?s = 0")
    case True
    then show ?thesis using that [of "ph st"] dismantle_idle [OF ok(1)] by (simp add: sframes_def)
  next
    case False
    then have "backed_region st ?s" using inv(2) r(1) by (simp add: frames_inv_def)
    from free_region [OF this ok(2)] obtain p where "memory_free (ph st) (sh_physical_pages ?s) (sh_physical_location ?s) = Some p"
      "\<And>q. ISSET p q \<longleftrightarrow> ISSET (ph st) q \<and> q \<notin> sframes ?s" using False by (auto simp: sframes_def)
    then show ?thesis using that [of p] dismantle_idle [OF ok(1)] False by simp
  qed
  let ?ms = "(shm_m st)\<lparr>m_pg := (pg st)\<lparr>pg_phys := p\<rparr>\<rparr>"
  obtain t where t: "shmem_delete mem st (sh_pid ?s) (sid st a) =
      do { ms \<leftarrow> dismantle ?s (shm_m st); Some (0, st\<lparr>shmem_table := t, shm_m := ms\<rparr>) }"
    "set (ht_list t) = regions st - {a}" "\<And>ms. shmem_inv (st\<lparr>shmem_table := t, shm_m := ms\<rparr>)"
    using shmem_delete_ok [OF inv(1) r(1), of mem] by blast
  let ?st1 = "st\<lparr>shmem_table := t, shm_m := ?ms\<rparr>"
  have R: "regions ?st1 = regions st - {a}" using t(2) by (simp add: regions_def)
  have D: "doomed pid ?st1 = doomed pid st - {a}" by (auto simp: doomed_def R)
  have F: "frames_inv ?st1"
    unfolding frames_inv_def R
  proof (intro conjI ballI impI)
    fix b assume b: "b \<in> regions st - {a}" "sh_internal (shmems ?st1 b) \<noteq> 0"
    then have "backed_region st (shmems st b)" "sframes (shmems st b) \<inter> sframes ?s = {}" using inv(2) r(1) by (auto simp: frames_inv_def)
    then show "backed_region ?st1 (shmems ?st1 b)" using b(2) p(2) by (auto simp: backed_region_def sframes_def)
  qed (use inv(2) in \<open>auto simp: frames_inv_def\<close>)
  have "cleaned pid st st'" if "cleaned pid ?st1 st'" for st'
  proof -
    have "(\<Union>b\<in>doomed pid st. sframes (shmems st b)) = sframes ?s \<union> (\<Union>b\<in>doomed pid st - {a}. sframes (shmems st b))" using a(1) by blast
    then show ?thesis using that a(1) p(2) unfolding cleaned_def R D by auto
  qed
  then show thesis using that [of ?st1] t(1,3) p(1) r(2) D F by simp
qed

lemma clean_end:
  assumes "shmem_inv st" "frames_inv st" "doomed pid st = {}" "\<forall>a\<in>regions st. sh_pid (shmems st a) = pid \<longrightarrow> orphan (shmems st a) = shmems st a"
  shows "cleaned pid st st"
  using assms by (auto simp: cleaned_def)

lemma shmem_get_entry: "shmem_inv st \<Longrightarrow> htable_get (shmem_table st) (int i) =
    (if i < length (ht_list (shmem_table st)) then Some (ht_list (shmem_table st) ! i) else None)"
  using htable_get_eq [of "shmem_table st" "int i"] by (auto simp: shmem_inv_def shtable_inv_def ht_ready_def ht_inv_def)

text \<open>One pass over the table up to the next deletion, and after it the passes that follow.\<close>

lemma clean_loop:
  assumes "shmem_inv st" "frames_inv st" "\<forall>a\<in>doomed pid st. idle (shmems st a)"
    and "rwlock_get_read_access (shmem_lock st) = Some l" "rwlock_release l = shmem_lock st"
    and "\<forall>j<i. j < length (ht_list (shmem_table st)) \<longrightarrow> ht_list (shmem_table st) ! j \<notin> doomed pid st \<and>
      (sh_pid (shmems st (ht_list (shmem_table st) ! j)) = pid \<longrightarrow> orphan (shmems st (ht_list (shmem_table st) ! j)) = shmems st (ht_list (shmem_table st) ! j))"
  shows "\<exists>st'. shmem_clean_loop mem pid (int i) (st\<lparr>shmem_lock := l\<rparr>) = Some (0, st') \<and> cleaned pid st st'"
  using assms
proof (induction "(card (doomed pid st), length (ht_list (shmem_table st)) - i)" arbitrary: st i rule: wf_induct_rule [OF wf_lex_prod [OF wf_less_than wf_less_than]])
  case (1 st i)
  let ?L = "ht_list (shmem_table st)"
  have rel: "release_shmem (st\<lparr>shmem_lock := l\<rparr>) = st" using 1(6) by (simp add: release_shmem_def)
  have fin: "finite (doomed pid st)" by (simp add: doomed_def regions_def)
  show ?case
  proof (cases "i < length ?L")
    case False
    have all: "a \<notin> doomed pid st \<and> (sh_pid (shmems st a) = pid \<longrightarrow> orphan (shmems st a) = shmems st a)" if a: "a \<in> regions st" for a
    proof -
      obtain j where "j < length ?L" "a = ?L ! j" using a by (auto simp: regions_def in_set_conv_nth)
      then show ?thesis using 1(7) [rule_format, of j] False by simp
    qed
    then have "doomed pid st = {}" "\<forall>a\<in>regions st. sh_pid (shmems st a) = pid \<longrightarrow> orphan (shmems st a) = shmems st a"
      unfolding doomed_def by blast+
    then have "cleaned pid st st" by (rule clean_end [OF 1(2,3)])
    then show ?thesis using False shmem_get_entry [OF 1(2), of i] rel by (subst shmem_clean_loop.simps) simp
  next
    case True
    let ?a = "?L ! i"
    have a: "?a \<in> regions st" using True by (simp add: regions_def)
    have g: "htable_get (shmem_table st) (int i) = Some ?a" using shmem_get_entry [OF 1(2), of i] True by simp
    consider "sh_pid (shmems st ?a) \<noteq> pid" | "sh_pid (shmems st ?a) = pid" "\<not> mortal pid (shmems st ?a)" | "?a \<in> doomed pid st"
      using a by (auto simp: doomed_def)
    then show ?thesis
    proof cases
      assume o: "sh_pid (shmems st ?a) \<noteq> pid"
      then have "\<exists>st'. shmem_clean_loop mem pid (int (Suc i)) (st\<lparr>shmem_lock := l\<rparr>) = Some (0, st') \<and> cleaned pid st st'"
        by (intro 1(1)) (use 1(2-7) True in \<open>auto simp: less_Suc_eq doomed_def mortal_def\<close>)
      then show ?thesis using g o by (subst shmem_clean_loop.simps) (simp add: add.commute)
    next
      assume o: "sh_pid (shmems st ?a) = pid" "\<not> mortal pid (shmems st ?a)"
      let ?st = "st\<lparr>shmems := (shmems st)(?a := orphan (shmems st ?a))\<rparr>"
      note S = orphan_step [OF 1(2,3), where a = ?a]
      have "\<exists>st'. shmem_clean_loop mem pid (int (Suc i)) (?st\<lparr>shmem_lock := l\<rparr>) = Some (0, st') \<and> cleaned pid ?st st'"
      proof (rule 1(1) [OF _ S(1,2)])
        show "((card (doomed pid ?st), length (ht_list (shmem_table ?st)) - Suc i), card (doomed pid st), length ?L - i) \<in> less_than <*lex*> less_than"
          using True S(3) by simp
        show "rwlock_get_read_access (shmem_lock ?st) = Some l" using 1(5) by simp
      qed (use 1(4,6,7) S(3) o a in \<open>auto simp: less_Suc_eq doomed_def\<close>)
      then obtain st' where st': "shmem_clean_loop mem pid (int (Suc i)) (?st\<lparr>shmem_lock := l\<rparr>) = Some (0, st')" "cleaned pid st st'"
        using S(6) [OF o(1)] by blast
      have "rw_free (sh_lock (shmems st ?a))" using 1(2) a by (simp add: shmem_inv_def region_inv_def)
      from rw_write_release [OF this] obtain w where w: "rwlock_get_write_access (sh_lock (shmems st ?a)) = Some w" "rwlock_release w = sh_lock (shmems st ?a)" by blast
      have "(shmems st ?a)\<lparr>sh_lock := w, sh_flags := sh_flags (shmems st ?a) OR SHMEM_ORPHAN, sh_lock := sh_lock (shmems st ?a)\<rparr> = orphan (shmems st ?a)"
        by (cases "shmems st ?a") (simp add: orphan_def)
      moreover have c: "?st\<lparr>shmem_lock := l\<rparr> = st\<lparr>shmem_lock := l, shmems := (shmems st)(?a := orphan (shmems st ?a))\<rparr>" by (cases st) simp
      ultimately show ?thesis
        using g o st'(1) [unfolded c] st'(2) w by (subst shmem_clean_loop.simps)
          (simp add: mortal_def write_region_def release_region_def upd_shmem_def add.commute)
    next
      assume d: "?a \<in> doomed pid st"
      then have p: "sh_pid (shmems st ?a) = pid" "sh_flags (shmems st ?a) AND SHMEM_IMMORTAL \<noteq> SHMEM_IMMORTAL" by (simp_all add: doomed_def mortal_def)
      obtain st1 where s: "shmem_delete mem st pid (sid st ?a) = Some (0, st1)" "shmem_inv st1" "frames_inv st1" "doomed pid st1 = doomed pid st - {?a}"
        "shmems st1 = shmems st" "shmem_lock st1 = shmem_lock st" "\<forall>st'. cleaned pid st1 st' \<longrightarrow> cleaned pid st st'"
        by (rule delete_step [OF 1(2,3) d, of mem]) (use 1(4) d in auto)
      have rd: "rwlock_get_read_access (shmem_lock st1) = Some l" "read_shmem st1 = Some (st1\<lparr>shmem_lock := l\<rparr>)" using 1(5) s(6) by (simp_all add: read_shmem_def)
      have "card (doomed pid st1) < card (doomed pid st)" unfolding s(4) using d fin by (intro card_Diff1_less)
      then have "\<exists>st'. shmem_clean_loop mem pid (int 0) (st1\<lparr>shmem_lock := l\<rparr>) = Some (0, st') \<and> cleaned pid st1 st'"
        by (intro 1(1) [OF _ s(2,3) _ rd(1)]) (use 1(4,6) s(4-6) in auto)
      then show ?thesis using g p s(1,7) rel rd(2) by (subst shmem_clean_loop.simps) (auto simp: sid_def)
    qed
  qed
qed

text \<open>
  C29. Where the regions of a process are idle, \<open>shmem_clean\<close> returns 0: exactly the regions of the process that are not immortal are gone and
  their frames are free, the immortal ones are marked as orphans, and all others are as before.
\<close>

theorem shmem_clean_removes:
  assumes "shmem_inv st" "frames_inv st" "\<forall>a\<in>doomed pid st. idle (shmems st a)"
  shows "\<exists>st'. shmem_clean mem st pid = Some (0, st') \<and> cleaned pid st st'"
proof -
  obtain l where l: "rwlock_get_read_access (shmem_lock st) = Some l" "rwlock_release l = shmem_lock st"
    using assms(1) rw_read_release by (auto simp: shmem_inv_def)
  from clean_loop [OF assms l, of 0 mem] show ?thesis by (simp add: shmem_clean_def read_shmem_def l(1))
qed

subsection \<open>Every sequence of calls\<close>

lemma shmem_init_inv:
  assumes "shmem_init mem mem_array st0 = Some (rc, st)"
  shows "shmem_ok P st \<and> regions st = {}"
proof -
  have st: "st = st0\<lparr>shmem_table := \<lparr>ht_total = 0, ht_size = 64, ht_percent = 80, ht_table = (\<lambda>_. None)\<rparr>, shmem_id := 0, shmem_lock := init_rwlock\<rparr>"
    using assms by (auto simp: shmem_init_def init_htable_def Let_def split: if_splits)
  have "ht_list (\<lparr>ht_total = 0, ht_size = 64, ht_percent = 80, ht_table = (\<lambda>_. None)\<rparr> :: addr htable) = []"
    using set_ht_list [of _ "\<lparr>ht_total = 0, ht_size = 64, ht_percent = 80, ht_table = (\<lambda>_. None)\<rparr> :: addr htable"] by (simp add: set_eq_iff flip: set_empty)
  then show ?thesis
    by (simp add: st shmem_inv_def shtable_inv_def regions_def ht_ready_def ht_inv_def ht_fits_def rw_free_def init_rwlock_def)
qed

text \<open>
  C24. Invariant. From the initialisation on, whatever calls are made in whatever order by whatever processes, with or without memory: the regions in the table
  have different ids and are found by them, no lock stays taken, every process has at most one record per region, and a record says that the whole
  region is mapped or that nothing of it is. If moreover every release was of a region that the process had requested, and no counter overflowed, then the
  region is mapped exactly while the counter of the record is positive. The runs are those in which there is room whenever a region is created: the table is not full
  and has at most \<open>2 ^ 22\<close> places, and the ids in question are at most \<open>2 ^ 23\<close>, so that the keys, which are a hundred times as large, do not overflow.
\<close>

theorem shmem_invariant:
  assumes "shmem_init True True st0 = Some (0, st)" "shmem_runs st True balanced st'"
  shows "shmem_ok info_whole st' \<and> (\<forall>a\<in>regions st'. lookup_shmem st' (sid st' a) = Some (Some a)) \<and> (balanced \<longrightarrow> shmem_ok info_inv st')"
proof -
  have "shmem_ok info_whole st'" "balanced \<longrightarrow> shmem_ok info_inv st'"
    using shmem_runs_ok [OF assms(2) TrueI] shmem_init_inv [OF assms(1)] by blast+
  then show ?thesis by (auto simp: shmem_inv_def intro: lookup_shmem_some)
qed

subsection \<open>An example\<close>

text \<open>A region of one page that process 2 owns and process 1 has been granted and requested \<open>u\<close> times.\<close>

definition sh_memory :: "pgmem \<Rightarrow> mstate" where
  "sh_memory g = \<lparr>m_k = k_blank 1, m_pg = g, m_map = (\<lambda>_. 0x14000), m_alloc = (\<lambda>_. []), m_mem = Map.empty, m_tls = (\<lambda>_. 0), m_math = (\<lambda>_. 0)\<rparr>"

definition sh_user :: "int \<Rightarrow> shmem_info" where
  "sh_user u = \<lparr>si_pid = 1, si_virtual_location = if u = 0 then 0 else 0x80000000, si_virtual_pages = if u = 0 then -1 else 1, si_flags = 1,
     si_usage = u, si_tmp = None, si_tmp2 = 0\<rparr>"

definition sh_region :: "int \<Rightarrow> shmem" where
  "sh_region u = \<lparr>sh_id = 0, sh_name = (\<lambda>_. 0)(0 := 65), sh_lock = init_rwlock, sh_pid = 2, sh_flags = 1, sh_internal = 1,
     sh_physical_location = 0x1E000, sh_physical_pages = 1, sh_list = [sh_user u]\<rparr>"

definition sh_state :: "pgmem \<Rightarrow> int \<Rightarrow> shstate" where
  "sh_state g u = \<lparr>shm_m = sh_memory g, shmem_table = \<lparr>ht_total = 1, ht_size = 2, ht_percent = 80, ht_table = (\<lambda>_. None)(0 := Some 9)\<rparr>,
     shmem_id = 1, shmem_lock = init_rwlock, shmems = (\<lambda>_. sh_region u)\<rparr>"

lemma sh_state_fields [simp]:
  "shm_m (sh_state g u) = sh_memory g" "shmems (sh_state g u) a = sh_region u" "regions (sh_state g u) = {9}" "sid (sh_state g u) a = 0"
  by (simp_all add: sh_state_def regions_def sid_def sh_region_def ht_list_def arr_list_def List.map_filter_def upt_rec)

lemma sh_region_fields [simp]: "sh_list (sh_region u) = [sh_user u]" "sh_physical_pages (sh_region u) = 1" "sh_physical_location (sh_region u) = 0x1E000"
  "sh_pid (sh_region u) = 2" "sh_internal (sh_region u) = 1" "sh_flags (sh_region u) = 1"
  by (simp_all add: sh_region_def)

lemma sh_memory_fields [simp]: "m_pg (sh_memory g) = g" "m_map (sh_memory g) p = 0x14000" "m_k (sh_memory g) = k_blank 1"
  by (simp_all add: sh_memory_def)

lemma sh_state_inv: "0 \<le> u \<Longrightarrow> u < 2 ^ 31 \<Longrightarrow> shmem_inv (sh_state g u)"
proof -
  assume u: "0 \<le> u" "u < 2 ^ 31"
  have "ht_list (shmem_table (sh_state g u)) = [9]" by (simp add: sh_state_def ht_list_def arr_list_def List.map_filter_def upt_rec)
  moreover have "shmem_key 0 = 0" by (simp add: shmem_key_def wrap32_def)
  ultimately have "shtable_inv (sh_state g u)"
    by (simp add: shtable_inv_def sid_small_def ht_ready_def skey_def key_small_def ht_abs_key_def) (simp add: sh_state_def ht_inv_def ht_fits_def)
  moreover have "region_inv (sh_region u)" using u by (simp add: region_inv_def info_inv_def sh_user_def) (simp add: sh_region_def rw_free_def init_rwlock_def)
  ultimately show ?thesis by (simp add: shmem_inv_def) (simp add: sh_state_def rw_free_def init_rwlock_def)
qed

lemma sh_state_info: "info_of (sh_state g u) p 9 = Some (sh_user u)"
  by (simp add: info_of_def k_blank_def process_blank_def sh_user_def)

lemma sh_state_map: "can_map (sh_state pg_small u) p 1"
  using pg_small_inv pg_small_avail [of 1] by (simp add: can_map_def)

theorem shmem_request_maps_witness:
  "shmem_request True (sh_state pg_small 0) 1 0 = Some ((-1, None), sh_state pg_small 0) \<or>
   (\<exists>v st1. shmem_request True (sh_state pg_small 0) 1 0 = Some ((0, Some (v, 1, 1)), st1) \<and> space st1 1 (vpage v) = Some 0x1E007)"
proof -
  have "run_map b 1 0x1E000 (convert_paging_types (page_rights 1)) b = Some 0x1E007" for b
    by (simp add: run_map_def convert_paging_types_def page_rights_def SHMEM_RDWR_def READ_WRITE_def READ_ONLY_def USER_PAGE_def SYSTEM_PAGE_def
      PAGE_RDWR_def PAGE_USER_def PAGE_PRESENT_def PAGE_SIZE_def)
  moreover have "si_flags (sh_user 0) = 1" "si_usage (sh_user 0) = 0" by (simp_all add: sh_user_def)
  ultimately show ?thesis
    using shmem_request_maps [OF sh_state_inv, of 0 9 pg_small 1 "sh_user 0" True] sh_state_info [of pg_small 0 1] sh_state_map [of 0 1]
    by (auto simp: map_add_Some_iff)
qed

theorem shmem_request_release_witness:
  "\<exists>r st1. shmem_request True (sh_state pg_small 1) 1 0 = Some (r, st1) \<and>
    (fst r = 0 \<longrightarrow> (\<exists>st2. shmem_release st1 1 0 = Some (0, st2) \<and> shm_m st2 = sh_memory pg_small))"
  using shmem_request_release [OF sh_state_inv, of 1 9 pg_small 1 "sh_user 1" True] sh_state_info [of pg_small 1 1] sh_state_map [of 1 1]
  by (force simp: sh_user_def)

theorem shmem_create_find_witness:
  "\<exists>i st'. shmem_create_direct (Some 5) True (sh_state pg_small 0) ((\<lambda>_. 0)(0 := 66)) 7 2 1 0x20000 0 = Some (i, st') \<and> i \<noteq> 0 \<and>
    shmem_find st' ((\<lambda>_. 0)(0 := 66)) = Some (i, Some 7, st')"
proof -
  have c: "cstr ((\<lambda>_. 0)(0 := w)) (unat NAME_LENGTH) = [w]" if "w \<noteq> 0" for w
    using that cstr_until [of 1 "unat NAME_LENGTH" "(\<lambda>_. 0)(0 := w)"] by (simp add: NAME_LENGTH_def arr_list_def)
  have "can_create_region (sh_state pg_small 0) 5" by (simp add: can_create_region_def) (simp add: sh_state_def)
  moreover have "\<exists>k<unat NAME_LENGTH. ((\<lambda>_. 0)(0 := 66 :: byte)) k = 0" by (rule exI [of _ 1]) (simp add: NAME_LENGTH_def)
  moreover have "\<forall>b\<in>regions (sh_state pg_small 0). cstr (sh_name (shmems (sh_state pg_small 0) b)) (unat NAME_LENGTH) \<noteq> cstr ((\<lambda>_. 0)(0 := 66)) (unat NAME_LENGTH)"
    using c [of 65] c [of 66] by (simp add: sh_region_def)
  moreover have "(0 :: int) < 2" by simp
  ultimately show ?thesis
    using shmem_create_find [of "sh_state pg_small 0" 5 2 "(\<lambda>_. 0)(0 := 66)" True 7 1 "0x20000" 0] sh_state_inv [of 0 pg_small] by auto
qed

theorem shmem_access_control_witness:
  "shmem_grant True (sh_state pg_small 0) 3 0 3 1 = Some (-1, sh_state pg_small 0) \<and> shmem_delete True (sh_state pg_small 0) 3 0 = Some (-1, sh_state pg_small 0)"
  using shmem_access_control [where st = "sh_state pg_small 0" and a = 9 and owner = 3 and mem = True and pid = 3 and flags = 1] sh_state_inv [of 0 pg_small] by simp

theorem shmem_revoke_copies_witness:
  "\<exists>st'. shmem_revoke (sh_state pg_small 1) 2 1 0 = Some (0, st') \<and> shmem_inv st' \<and> info_of st' 1 9 = None"
proof -
  obtain a p where a: "memory_alloc (pg_phys pg_small) 1 = Some (a, p)" "a \<noteq> 0" "avail p 1"
    by (rule memory_alloc_one [OF pg_small_avail pt_invD(3) [OF pg_small_inv], of 1]) auto
  have "user_run (si_virtual_location (sh_user 1)) (nat 1)" "0 < si_usage (sh_user 1)" using pg_small_run [of 1] by (simp_all add: sh_user_def)
  then show ?thesis
    using shmem_revoke_copies [OF sh_state_inv, of 1 9 pg_small 1 "sh_user 1" a p] sh_state_info [of pg_small 1 1] pg_small_inv a by auto
qed

theorem shmem_revoke_no_memory_witness:
  "\<exists>st'. shmem_revoke (sh_state (pg_small\<lparr>pg_phys := mem_full\<rparr>) 1) 2 1 0 = Some (-1, st') \<and> \<not> ints (m_k (shm_m st'))"
proof -
  have "0 < si_usage (sh_user 1)" "s_freePages mem_full \<le> 1" by (simp_all add: sh_user_def mem_full_def)
  then show ?thesis
    using shmem_revoke_no_memory [OF sh_state_inv, of 1 9 "pg_small\<lparr>pg_phys := mem_full\<rparr>" 1 "sh_user 1"] sh_state_info [of "pg_small\<lparr>pg_phys := mem_full\<rparr>" 1 1] by auto
qed

lemma sh_state_backed: "backed_region (sh_state pg_small u) (sh_region v)"
proof -
  have "vpage 0x1E000 = 30" "aligned 0x1E000" by (simp_all add: vpage_def aligned_def PAGE_SIZE_def)
  then show ?thesis by (simp add: backed_region_def MAXMAP_def page_run_def pg_small_def mem_small_fields)
qed

theorem shmem_release_underflow_witness:
  "\<exists>st1 r st2 st3. shmem_release (sh_state pg_small 0) 1 0 = Some (0, st1) \<and> shmem_request True st1 1 0 = Some (r, st2) \<and>
    shmem_delete True st2 2 0 = Some (0, st3) \<and> space st3 1 524288 \<noteq> None \<and> \<not> ISSET (ph st3) 30"
proof -
  have "vpage 0x1E000 = 30" by (simp add: vpage_def PAGE_SIZE_def)
  moreover have "\<forall>y\<in>set (sh_list (sh_region 0)). si_usage y = 0" by (simp add: sh_user_def)
  ultimately show ?thesis
    using shmem_release_underflow [OF sh_state_inv, of 0 9 pg_small 1 "sh_user 0" True] sh_state_info [of pg_small 0 1] sh_state_map [of 0 1]
      sh_state_backed [of 0 0] pg_small_empty(2) [of "0x14000"] by (force simp: ceiling)
qed

theorem shmem_clean_removes_witness:
  "\<exists>st'. shmem_clean True (sh_state pg_small 0) 2 = Some (0, st') \<and> regions st' = {} \<and> \<not> ISSET (ph st') 30"
proof -
  let ?st = "sh_state pg_small 0"
  have d: "doomed 2 ?st = {9}" by (auto simp: doomed_def mortal_def SHMEM_IMMORTAL_def)
  have "frames_inv ?st" using sh_state_backed [of 0 0] by (simp add: frames_inv_def)
  moreover have "\<forall>a\<in>doomed 2 ?st. idle (shmems ?st a)" by (simp add: idle_def sh_user_def)
  ultimately obtain st' where st': "shmem_clean True ?st 2 = Some (0, st')" "cleaned 2 ?st st'"
    using shmem_clean_removes [OF sh_state_inv] by fastforce
  have "30 \<in> sframes (sh_region 0)" by (simp add: sframes_def page_run_def vpage_def PAGE_SIZE_def)
  then show ?thesis using st' by (auto simp: cleaned_def d)
qed

theorem shmem_invariant_witness:
  "\<exists>st st'. shmem_init True True (sh_state pg_small 0) = Some (0, st) \<and> shmem_runs st True True st' \<and> regions st' = {5} \<and>
    lookup_shmem st' (sid st' 5) = Some (Some 5) \<and> shmem_inv st'"
proof -
  obtain st where st: "shmem_init True True (sh_state pg_small 0) = Some (0, st)" "ht_size (shmem_table st) = 64" "ht_total (shmem_table st) = 0" "shmem_id st = 0"
    by (simp add: shmem_init_def init_htable_def Let_def)
  have i: "shmem_inv st" "regions st = {}" using shmem_init_inv [OF st(1)] by simp_all
  have c: "can_create_region st 5" using st(2-4) i(2) by (simp add: can_create_region_def)
  obtain len where len: "strlen (\<lambda>_. 0) = Some len" "0 < len" using strlen_some [of "\<lambda>_. 0" 0] by auto
  obtain rc st' where st': "shmem_create_direct (Some 5) True st (\<lambda>_. 0) 1 1 0 0 0 = Some (rc, st')" "regions st' = {5}"
    by (rule shmem_create_direct_ok [OF i(1) c _ len, of 1 True 1 0 0 0]) (use i(2) in \<open>auto simp: regions_def\<close>)
  have "has_room st (Some 5)" using c by (simp add: has_room_def)
  then have "shmem_step st True True st'" using shmem_step.Create_direct [OF st'(1)] by simp
  from shmem_runs.step [OF shmem_runs.start this] have "shmem_runs st True True st'" by simp
  then show ?thesis using shmem_invariant [OF st(1)] st(1) st'(2) by blast
qed

end
