(* ===== verification/Syscalls.thy ===== *)
theory Syscalls
  imports Irq Events Gc Sharing
begin

unbundle bit_operations_syntax

section \<open>System calls (kernel/src/syscalls.c, ioperms.c)\<close>

text \<open>
  The functions to which \<open>syscall\<close> dispatches, each over the state of its component, and the entry that calls them. What a call reads through a pointer of the
  user is an argument (a buffer, the words of a pulse, the wanted port); a call is made by a current thread. What it writes through one is part of its result;
  numbers are the registers, read as signed where the code casts. \<open>with_process\<close> is the frame of nearly all of them: the process is checked out, the
  operation done and the process committed.

  \<open>syscall\<close> itself runs over a state that holds those of all components. The loading of a program, the search for PCI devices, the reboot and the
  frame buffer are arguments; the copying of the registers is left out.

  Shown: under the frame an operation does what it does without it, and all locks are given back; the same for the entry and its count of threads; and what
  the privilege for input and output protects.
\<close>

definition SYS_ONE :: u32 where "SYS_ONE = 1"
definition SYS_TWO :: u32 where "SYS_TWO = 2"
definition SYS_THREE :: u32 where "SYS_THREE = 4"
definition SYS_FOUR :: u32 where "SYS_FOUR = 8"
definition SYS_FIVE :: u32 where "SYS_FIVE = 16"
definition SYS_SIX :: u32 where "SYS_SIX = 32"
definition SYS_MEMORY :: u32 where "SYS_MEMORY = push_bit 8 0x1"
definition SYS_SYSTEM :: u32 where "SYS_SYSTEM = push_bit 8 0x3"
definition SYS_PROCESS :: u32 where "SYS_PROCESS = push_bit 8 0x4"
definition SYS_THREAD :: u32 where "SYS_THREAD = push_bit 8 0x5"
definition SYS_PULSE :: u32 where "SYS_PULSE = push_bit 8 0x7"
definition SYS_MESSAGE :: u32 where "SYS_MESSAGE = push_bit 8 0x8"
definition SYS_PORT :: u32 where "SYS_PORT = push_bit 8 0x9"
definition SYS_EXEC :: u32 where "SYS_EXEC = push_bit 8 0xA"
definition SYS_PCI :: u32 where "SYS_PCI = push_bit 8 0xB"
definition SYS_TIME :: u32 where "SYS_TIME = push_bit 8 0xC"
definition SYS_IRQ :: u32 where "SYS_IRQ = push_bit 8 0xD"
definition SYS_IO :: u32 where "SYS_IO = push_bit 8 0xE"
definition SYS_INFO :: u32 where "SYS_INFO = push_bit 8 0x11"
definition SYS_MISC :: u32 where "SYS_MISC = push_bit 8 0x12"
definition SYS_SHMEM :: u32 where "SYS_SHMEM = push_bit 8 0x13"
definition SYS_EVENTS :: u32 where "SYS_EVENTS = push_bit 8 0x14"
definition SMK_UNKNOWN_SYSCALL :: int where "SMK_UNKNOWN_SYSCALL = -10"
definition IOPRIV :: u32 where "IOPRIV = 1"

definition current_pid :: "kstate \<Rightarrow> int option" where
  "current_pid k = do { tr \<leftarrow> current_thread k; p \<leftarrow> t_process (threads k tr); Some (p_pid (procs k p)) }"

text \<open>
  The state \<open>'s\<close> has a kernel state in it. \<open>missing\<close> is the result when there is no such process; None is the failed assertion.
\<close>

definition with_process ::
    "('s \<Rightarrow> kstate) \<Rightarrow> ((kstate \<Rightarrow> kstate) \<Rightarrow> 's \<Rightarrow> 's) \<Rightarrow> int \<Rightarrow> access \<Rightarrow> 'r option \<Rightarrow> (addr \<Rightarrow> 's \<Rightarrow> ('r \<times> 's) option) \<Rightarrow> 's \<Rightarrow> ('r \<times> 's) option" where
  "with_process get put pid flags missing body s = do {
     (p, k) \<leftarrow> checkout_process (get s) pid flags;
     let s = put (\<lambda>_. k) s;
     (case p of
        None \<Rightarrow> map_option (\<lambda>m. (m, s)) missing
      | Some proc \<Rightarrow> do {
          (r, s) \<leftarrow> body proc s;
          Some (r, put (commit_process proc) s)
        })
   }"

text \<open>The calls on the calling process, over the kernel state alone.\<close>

definition own :: "access \<Rightarrow> (addr \<Rightarrow> kstate \<Rightarrow> ('r \<times> kstate) option) \<Rightarrow> kstate \<Rightarrow> ('r \<times> kstate) option" where
  "own flags body k = do { pid \<leftarrow> current_pid k; with_process (\<lambda>k. k) (\<lambda>f. f) pid flags None body k }"

definition own_m :: "access \<Rightarrow> (addr \<Rightarrow> mstate \<Rightarrow> ('r \<times> mstate) option) \<Rightarrow> mstate \<Rightarrow> ('r \<times> mstate) option" where
  "own_m flags body ms = do { pid \<leftarrow> current_pid (m_k ms); with_process m_k m_k_update pid flags None body ms }"

definition syscall_memory :: "malloc \<Rightarrow> mstate \<Rightarrow> u32 \<Rightarrow> u32 \<Rightarrow> u32 \<Rightarrow> (int \<times> mstate) option" where
  "syscall_memory mal ms r3 r2 r1 =
     (let f = r1 AND 0xFF in
      if f = SYS_ONE then
        if r2 = 0 then own_m WRITER (\<lambda>proc ms. do { (a, us) \<leftarrow> user_alloc mal (uspace_of ms proc) r3; Some (sint a, put_uspace proc us ms) }) ms
        else if r2 = 1 then own_m WRITER (\<lambda>proc ms. do { (_, us) \<leftarrow> user_free (uspace_of ms proc) r3; Some (0, put_uspace proc us ms) }) ms
        else Some (-1, ms)
      else if f = SYS_TWO then own_m WRITER (\<lambda>proc ms. do { (a, us) \<leftarrow> user_map_in mal (uspace_of ms proc) r2 r3; Some (sint a, put_uspace proc us ms) }) ms
      else if f = SYS_THREE then own_m READER (\<lambda>proc ms. do { n \<leftarrow> user_size (uspace_of ms proc) r2; Some (n, ms) }) ms
      else if f = SYS_FOUR then own_m READER (\<lambda>proc ms. do { a \<leftarrow> user_location (uspace_of ms proc) r2; Some (sint a, ms) }) ms
      else Some (-1, ms))"

text \<open>The second result is the name that is copied out.\<close>

definition syscall_system :: "kstate \<Rightarrow> buffer \<Rightarrow> u32 \<Rightarrow> u32 \<Rightarrow> (int \<times> buffer \<times> kstate) option" where
  "syscall_system k at_r3 r2 r1 =
     (let f = r1 AND 0xFF in
      if f = SYS_ONE then do { (i, k) \<leftarrow> find_process k at_r3; Some (i, at_r3, k) }
      else if f = SYS_TWO then do {
        ((a, b), k) \<leftarrow> with_process (\<lambda>k. k) (\<lambda>f. f) (sint r2) READER (Some (-1, at_r3))
          (\<lambda>proc k. Some ((p_pid (procs k proc), memcpy at_r3 (p_name (procs k proc)) (unat NAME_LENGTH)), k)) k;
        Some (a, b, k)
      }
      else if f = SYS_THREE then do {
        (a, k) \<leftarrow> with_process (\<lambda>k. k) (\<lambda>f. f) (sint r2) READER (Some (-1)) (\<lambda>proc k. Some (sint r2, k)) k;
        Some (a, at_r3, k)
      }
      else Some (-1, at_r3, k))"

text \<open>The environment calls of \<open>syscall_process\<close>: what \<open>r4\<close> and \<open>r5\<close> point to is in the result.\<close>

datatype env_out = No_out | Data_out buffer | Size_out "u32 option" | Info_out "(buffer \<times> u32) option"

definition set_env :: "addr \<Rightarrow> env_block \<Rightarrow> kstate \<Rightarrow> kstate" where
  "set_env proc e = upd_proc proc (\<lambda>p. p\<lparr>p_env := e\<rparr>)"

definition syscall_environment ::
    "bool \<Rightarrow> bool \<Rightarrow> (nat \<Rightarrow> environ_info) \<Rightarrow> kstate \<Rightarrow> u32 \<Rightarrow> buffer option \<Rightarrow> u32 \<Rightarrow> buffer option \<Rightarrow> u32 \<Rightarrow> ((int \<times> env_out) \<times> kstate) option" where
  "syscall_environment ok1 ok2 junk k r5 at_r4 r3 at_r3 r2 =
     own (if r2 = 0 \<or> r2 = 4 then WRITER else READER) (\<lambda>proc k.
       let e = p_env (procs k proc) in
       if r2 = 0 then (let (a, e) = set_environment ok1 ok2 junk e at_r3 at_r4 r5 in Some ((a, No_out), set_env proc e k))
       else if r2 = 1 then do { name \<leftarrow> at_r3; d \<leftarrow> at_r4; let (a, d) = get_environment e name d r5; Some ((a, Data_out d), k) }
       else if r2 = 2 then do { name \<leftarrow> at_r3; let (a, n) = get_environment_size e name; Some ((a, Size_out n), k) }
       else if r2 = 3 then do { d \<leftarrow> at_r4; let (a, i) = get_environment_information e (sint r3) d; Some ((a, Info_out i), k) }
       else if r2 = 4 then do { name \<leftarrow> at_r3; let (a, e) = remove_environment e name; Some ((a, No_out), set_env proc e k) }
       else Some ((-1, No_out), k)) k"

text \<open>The ids of the caller, and the start of a process that is still in its initial state.\<close>

definition PROCESS_RUNNING :: int where "PROCESS_RUNNING = 2"

definition syscall_ids :: "kstate \<Rightarrow> (int \<times> int) option" where
  "syscall_ids k = do { tr \<leftarrow> current_thread k; pid \<leftarrow> current_pid k; Some (pid, t_tid (threads k tr)) }"

definition syscall_start :: "kstate \<Rightarrow> u32 \<Rightarrow> (int \<times> kstate) option" where
  "syscall_start k r2 = with_process (\<lambda>k. k) (\<lambda>f. f) (sint r2) WRITER (Some (-1)) (\<lambda>proc k.
     if p_state (procs k proc) \<noteq> PROCESS_INIT then Some (-1, k)
     else do {
       let k = upd_proc proc (\<lambda>p. p\<lparr>p_state := PROCESS_RUNNING\<rparr>) k;
       tr \<leftarrow> p_threads (procs k proc);
       k \<leftarrow> set_thread_state k tr THREAD_RUNNING;
       Some (0, k)
     }) k"

text \<open>
  The end of a process. Until the queue of the collector has room the thread lets others run, which is the argument \<open>yield\<close>; the value is the state in which it gives up
  the processor for good.
\<close>

partial_function (option) queue_for_gc :: "(gstate \<Rightarrow> gstate option) \<Rightarrow> int \<Rightarrow> int \<Rightarrow> gstate \<Rightarrow> gstate option" where
  "queue_for_gc yield pid tid g = do {
     (rc, g) \<leftarrow> gc_queue g pid tid;
     if rc \<noteq> 0 then do { g \<leftarrow> yield g; queue_for_gc yield pid tid g } else Some g
   }"

definition in_gk :: "(kstate \<Rightarrow> kstate) \<Rightarrow> gstate \<Rightarrow> gstate" where
  "in_gk f g = g\<lparr>g_ms := (g_ms g)\<lparr>m_k := f (m_k (g_ms g))\<rparr>\<rparr>"

definition leave_kernel :: "addr \<Rightarrow> addr \<Rightarrow> (process \<Rightarrow> process) \<Rightarrow> gstate \<Rightarrow> gstate option" where
  "leave_kernel proc tr upd g = do {
     let k = snd (disable_interrupts (m_k (g_ms g)));
     let k = upd_proc proc (\<lambda>p. upd (p\<lparr>p_kernel_threads := p_kernel_threads p - 1\<rparr>)) k;
     k \<leftarrow> set_thread_state k tr THREAD_FINISHED;
     Some (in_gk (\<lambda>_. enable_interrupts (commit_process proc k)) g)
   }"

definition syscall_exit :: "(gstate \<Rightarrow> gstate option) \<Rightarrow> gstate \<Rightarrow> u32 \<Rightarrow> gstate option" where
  "syscall_exit yield g r2 = do {
     pid \<leftarrow> current_pid (m_k (g_ms g));
     (p, k) \<leftarrow> checkout_process (m_k (g_ms g)) pid WRITER;
     proc \<leftarrow> p;
     let k = upd_proc proc (\<lambda>p. p\<lparr>p_rc := sint r2\<rparr>) k;
     g \<leftarrow> queue_for_gc yield (p_pid (procs k proc)) (-1) (in_gk (\<lambda>_. k) g);
     tr \<leftarrow> current_thread (m_k (g_ms g));
     leave_kernel proc tr (\<lambda>p. p\<lparr>p_state := PROCESS_FINISHING\<rparr>) g
   }"

definition syscall_thread_exit :: "(gstate \<Rightarrow> gstate option) \<Rightarrow> gstate \<Rightarrow> u32 \<Rightarrow> gstate option" where
  "syscall_thread_exit yield g r2 = do {
     pid \<leftarrow> current_pid (m_k (g_ms g));
     (p, k) \<leftarrow> checkout_process (m_k (g_ms g)) pid WRITER;
     proc \<leftarrow> p;
     tr \<leftarrow> current_thread k;
     let k = upd_thread tr (\<lambda>t. t\<lparr>t_rc := sint r2\<rparr>) k;
     g \<leftarrow> queue_for_gc yield (p_pid (procs k proc)) (t_tid (threads k tr)) (in_gk (\<lambda>_. k) g);
     leave_kernel proc tr (\<lambda>p. p) g
   }"

text \<open>\<open>syscall_misc\<close>, abort: the end of a process with a message on the console.\<close>

definition syscall_abort :: "(gstate \<Rightarrow> gstate option) \<Rightarrow> gstate \<Rightarrow> u32 \<Rightarrow> gstate option" where
  "syscall_abort yield g r2 = syscall_exit yield g r2"

text \<open>
  The other calls on threads. The state that is asked for is any number; \<open>yield\<close> is what others do while the thread is off its processor.
\<close>

definition syscall_new_thread :: "addr option \<Rightarrow> malloc \<Rightarrow> bool \<Rightarrow> mstate \<Rightarrow> u32 \<Rightarrow> u32 list \<Rightarrow> buffer \<Rightarrow> (int \<times> mstate) option" where
  "syscall_new_thread new mal mem ms r6 data at_r3 = own_m WRITER (\<lambda>proc ms. do {
     tr \<leftarrow> current_thread (m_k ms);
     new_thread new mal mem ms 0 proc (Some tr) at_r3 r6 (data ! 0) (data ! 1) (data ! 2) (data ! 3)
   }) ms"

definition syscall_set_state :: "(kstate \<Rightarrow> kstate option) \<Rightarrow> kstate \<Rightarrow> u32 \<Rightarrow> u32 \<Rightarrow> (int \<times> kstate) option" where
  "syscall_set_state yield k r3 r2 = own WRITER (\<lambda>proc k. do {
     t \<leftarrow> get_thread k proc (sint r2);
     (case t of
        None \<Rightarrow> Some (-1, k)
      | Some tr \<Rightarrow> do {
          let k = snd (disable_interrupts k);
          k \<leftarrow> set_thread_state k tr (state_of r3);
          cur \<leftarrow> current_thread k;
          k \<leftarrow> (if sint r2 = t_tid (threads k cur) then yield k else Some k);
          Some (0, enable_interrupts k)
        })
   }) k"

definition syscall_dormant :: "(kstate \<Rightarrow> kstate option) \<Rightarrow> kstate \<Rightarrow> u32 \<Rightarrow> (int \<times> kstate) option" where
  "syscall_dormant yield k r2 = do { pid \<leftarrow> current_pid k; go_dormant yield k pid r2 }"

text \<open>Pulses and messages. \<open>want\<close> is the port that is wanted, \<open>*dest_port\<close>.\<close>

definition syscall_pulse ::
    "bool \<Rightarrow> kstate \<Rightarrow> u32 list \<Rightarrow> int \<Rightarrow> u32 \<Rightarrow> u32 \<Rightarrow> u32 \<Rightarrow> u32 \<Rightarrow> ((int \<times> pulse option) \<times> kstate) option" where
  "syscall_pulse mem k data want r4 r3 r2 r1 =
     (let f = r1 AND 0xFF in
      if f = SYS_ONE then with_process (\<lambda>k. k) (\<lambda>f. f) (sint r3) WRITER (Some (-1, None)) (\<lambda>target k. do {
          pid \<leftarrow> current_pid k;
          (a, k) \<leftarrow> send_pulse mem k pid (sint r2) target (sint r4) data;
          Some ((a, None), k)
        }) k
      else if f = SYS_TWO then own WRITER (\<lambda>_ k. do { tr \<leftarrow> current_thread k; (a, p, k) \<leftarrow> receive_pulse k tr want; Some ((a, p), k) }) k
      else if f = SYS_THREE then own READER (\<lambda>_ k. do { tr \<leftarrow> current_thread k; (a, p, k) \<leftarrow> preview_pulse k tr want; Some ((a, p), k) }) k
      else if f = SYS_FOUR then own READER (\<lambda>_ k. do { tr \<leftarrow> current_thread k; (a, k) \<leftarrow> pulses_waiting k tr; Some ((a, None), k) }) k
      else if f = SYS_FIVE then own WRITER (\<lambda>_ k. do { tr \<leftarrow> current_thread k; (a, k) \<leftarrow> drop_pulse k tr; Some ((a, None), k) }) k
      else Some ((-1, None), k))"

definition syscall_message ::
    "bool \<Rightarrow> bool \<Rightarrow> buffer \<Rightarrow> kstate \<Rightarrow> buffer \<Rightarrow> int \<Rightarrow> u32 \<Rightarrow> u32 \<Rightarrow> u32 \<Rightarrow> u32 \<Rightarrow> u32 \<Rightarrow> ((int \<times> message option \<times> buffer) \<times> kstate) option" where
  "syscall_message mem1 mem2 junk k at_r6 want r5 r4 r3 r2 r1 =
     (let f = r1 AND 0xFF in
      if f = SYS_ONE then with_process (\<lambda>k. k) (\<lambda>f. f) (sint r3) WRITER (Some (-1, None, at_r6)) (\<lambda>target k. do {
          pid \<leftarrow> current_pid k;
          (a, k) \<leftarrow> send_message mem1 mem2 junk k pid (sint r2) target (sint r4) (sint r5) at_r6;
          Some ((a, None, at_r6), k)
        }) k
      else if f = SYS_TWO then own WRITER (\<lambda>_ k. do { tr \<leftarrow> current_thread k; (a, m, b, k) \<leftarrow> recv_message k tr want (sint r5) at_r6; Some ((a, m, b), k) }) k
      else if f = SYS_THREE then own READER (\<lambda>_ k. do { tr \<leftarrow> current_thread k; (a, m, k) \<leftarrow> peek_message k tr want; Some ((a, m, at_r6), k) }) k
      else if f = SYS_FOUR then own WRITER (\<lambda>_ k. do { tr \<leftarrow> current_thread k; (a, k) \<leftarrow> drop_message k tr; Some ((a, None, at_r6), k) }) k
      else Some ((-1, None, at_r6), k))"

definition syscall_port :: "bool \<Rightarrow> bool \<Rightarrow> kstate \<Rightarrow> port_pairs \<Rightarrow> u32 \<Rightarrow> u32 \<Rightarrow> u32 \<Rightarrow> ((int \<times> port_pairs) \<times> kstate) option" where
  "syscall_port mem1 mem2 k at_r3 r3 r2 r1 =
     (let f = r1 AND 0xFF; plain = (\<lambda>a k. Some ((a, at_r3), k)) in
      if f = SYS_ONE then own WRITER (\<lambda>_ k. do { tr \<leftarrow> current_thread k; (a, k) \<leftarrow> create_port mem1 mem2 k tr (sint r2) (sint r3); plain a k }) k
      else if f = SYS_TWO then own READER (\<lambda>proc k. plain (port2tid k proc (sint r2)) k) k
      else if f = SYS_THREE then own READER (\<lambda>proc k. plain (tid2port k proc (sint r2)) k) k
      else if f = SYS_FOUR then own WRITER (\<lambda>_ k. do { tr \<leftarrow> current_thread k; (a, k) \<leftarrow> release_port k tr (sint r2); plain a k }) k
      else if f = SYS_FIVE then own WRITER (\<lambda>_ k. do { tr \<leftarrow> current_thread k;
          (a, k) \<leftarrow> set_port_flags k tr (sint r2) (if r3 = 0 then 0 else IPC_MASKED); plain a k }) k
      else if f = SYS_SIX then own WRITER (\<lambda>_ k. do { tr \<leftarrow> current_thread k;
          if r2 = 0 then do { ps \<leftarrow> bulk_get_ports k tr at_r3; Some ((0, ps), k) }
          else if r2 = 1 then do { k \<leftarrow> bulk_set_ports k tr at_r3; plain 0 k }
          else plain (-1) k }) k
      else plain (-1) k)"

text \<open>The time since the start, in seconds and milliseconds.\<close>

definition syscall_time :: "kstate \<Rightarrow> u32 \<Rightarrow> (int \<times> (u32 \<times> u32) option \<times> kstate)" where
  "syscall_time k r1 =
     (if r1 AND 0xFF = SYS_TWO then
        let (ei, k) = disable_interrupts k;
            usage = ucast (st_systemTime (cpu k (CPUID k))) :: u32
        in (0, Some (usage div 1000, usage mod 1000), if ei then enable_interrupts k else k)
      else (-1, None, k))"

definition own_i :: "(addr \<Rightarrow> istate \<Rightarrow> (int \<times> istate) option) \<Rightarrow> istate \<Rightarrow> (int \<times> istate) option" where
  "own_i body st = do { pid \<leftarrow> current_pid (ik st); with_process ik ik_update pid WRITER None body st }"

definition syscall_irq :: "bool \<Rightarrow> bool \<Rightarrow> istate \<Rightarrow> u32 \<Rightarrow> u32 \<Rightarrow> u32 \<Rightarrow> (int \<times> istate) option" where
  "syscall_irq mem1 mem2 st r3 r2 r1 =
     (let f = r1 AND 0xFF in
      if f = SYS_ONE then own_i (\<lambda>proc st. do {
          t \<leftarrow> get_thread (ik st) proc (sint r3);
          (case t of None \<Rightarrow> Some (-1, st) | Some tr \<Rightarrow> request_irq mem1 mem2 st tr (sint r2))
        }) st
      else if f = SYS_TWO then own_i (\<lambda>_ st. do { tr \<leftarrow> current_thread (ik st); release_irq mem1 mem2 st tr (sint r2) }) st
      else if f = SYS_THREE then irq_complete st (sint r2)
      else if f = SYS_FOUR then irq_ack st (sint r2)
      else Some (-1, st))"

definition io_grant_priv :: "addr \<Rightarrow> kstate \<Rightarrow> kstate" where
  "io_grant_priv proc = upd_proc proc (\<lambda>p. p\<lparr>p_flags := p_flags p OR IOPRIV\<rparr>)"

definition io_revoke_priv :: "addr \<Rightarrow> kstate \<Rightarrow> kstate" where
  "io_revoke_priv proc = upd_proc proc (\<lambda>p. p\<lparr>p_flags := p_flags p AND NOT IOPRIV\<rparr>)"

definition syscall_io :: "kstate \<Rightarrow> u32 \<Rightarrow> u32 \<Rightarrow> (int \<times> kstate) option" where
  "syscall_io k r2 r1 =
     (let f = r1 AND 0xFF in
      own WRITER (\<lambda>proc k.
        if f = SYS_ONE then
          if r2 = 0 then Some (0, io_grant_priv proc k) else if r2 = 1 then Some (0, io_revoke_priv proc k) else Some (-1, k)
        else if f = SYS_TWO then
          if p_flags (procs k proc) AND IOPRIV = 0 then Some (-1, k)
          else do {
            tr \<leftarrow> current_thread k;
            if r2 = 0 then Some (0, enable_interrupts (upd_thread tr (\<lambda>t. t\<lparr>t_interrupts_disabled := 0\<rparr>) k))
            else if r2 = 1 then Some (0, snd (disable_interrupts (upd_thread tr (\<lambda>t. t\<lparr>t_interrupts_disabled := 1\<rparr>) k)))
            else Some (-1, k)
          }
        else Some (-1, k)) k)"

definition syscall_info :: "kstate \<Rightarrow> (int \<Rightarrow> process_information) \<Rightarrow> u32 \<Rightarrow> u32 \<Rightarrow> (int \<times> (int \<Rightarrow> process_information) \<times> kstate) option" where
  "syscall_info k at_r3 r2 r1 = (if r1 AND 0xFF = SYS_ONE then process_get_list k (sint r2) at_r3 else Some (-1, at_r3, k))"

definition syscall_events :: "kstate \<Rightarrow> u32 \<Rightarrow> u32 \<Rightarrow> u32 \<Rightarrow> u32 \<Rightarrow> (int \<times> kstate) option" where
  "syscall_events k r4 r3 r2 r1 =
     (if r1 AND 0xFF = SYS_ONE then do { pid \<leftarrow> current_pid k; set_event_handler k pid (sint r2) (sint r3) (sint r4) }
      else Some (SMK_UNKNOWN_SYSCALL, k))"

text \<open>Shared memory: the results are those of the three kinds of calls.\<close>

datatype shmem_out = No_result | Mapped mapping | Owner int | Region "buffer \<times> int \<times> int \<times> u32"

definition on_process :: "shstate \<Rightarrow> int \<Rightarrow> access \<Rightarrow> (addr \<Rightarrow> shstate \<Rightarrow> ((int \<times> shmem_out) \<times> shstate) option) \<Rightarrow> ((int \<times> shmem_out) \<times> shstate) option" where
  "on_process st pid flags body = with_process (\<lambda>st. m_k (shm_m st)) in_k pid flags (Some (-1, No_result)) body st"

definition plain_result :: "(int \<times> shstate) option \<Rightarrow> ((int \<times> shmem_out) \<times> shstate) option" where
  "plain_result = map_option (\<lambda>(a, st). ((a, No_result), st))"

definition syscall_shmem ::
    "addr option \<Rightarrow> bool \<Rightarrow> shstate \<Rightarrow> buffer \<Rightarrow> u32 \<Rightarrow> u32 \<Rightarrow> u32 \<Rightarrow> u32 \<Rightarrow> u32 \<Rightarrow> u32 \<Rightarrow> ((int \<times> shmem_out) \<times> shstate) option" where
  "syscall_shmem new mem st name r6 r5 r4 r3 r2 r1 = do {
     let f = r1 AND 0xFF;
     pid \<leftarrow> current_pid (m_k (shm_m st));
     if f = SYS_ONE then
       if r5 = 0 then plain_result (shmem_create new mem st name pid (sint r3) r4)
       else do {
         ((a, out), st) \<leftarrow> on_process st pid READER (\<lambda>proc st. Some ((if p_flags (procs (m_k (shm_m st)) proc) AND IOPRIV = 0 then -1 else 0, No_result), st));
         if a < 0 then Some ((-1, No_result), st)
         else plain_result (shmem_create_direct new mem st name pid (sint r3) r4 r6 0)
       }
     else if f = SYS_TWO then plain_result (shmem_delete mem st pid (sint r2))
     else if f = SYS_THREE then
       if r2 = 0 then plain_result (shmem_grant mem st pid (sint r3) (sint r4) r5)
       else if r2 = 1 then on_process st (sint r4) WRITER (\<lambda>proc st. plain_result (shmem_revoke st pid proc (sint r3)))
       else Some ((-1, No_result), st)
     else if f = SYS_FOUR then on_process st pid WRITER (\<lambda>proc st.
       if r2 = 0 then map_option (\<lambda>((a, m), st). ((a, case m of None \<Rightarrow> No_result | Some x \<Rightarrow> Mapped x), st)) (shmem_request mem st proc (sint r3))
       else if r2 = 1 then plain_result (shmem_release st proc (sint r3))
       else Some ((-1, No_result), st))
     else if f = SYS_FIVE then do { (a, p, st) \<leftarrow> shmem_find st name; Some ((a, case p of None \<Rightarrow> No_result | Some x \<Rightarrow> Owner x), st) }
     else if f = SYS_SIX then do { (a, r, st) \<leftarrow> shmem_get st (sint r2) name; Some ((a, case r of None \<Rightarrow> No_result | Some x \<Rightarrow> Region x), st) }
     else Some ((SMK_UNKNOWN_SYSCALL, No_result), st)
   }"

text \<open>Which calls may be made while interrupts are disabled.\<close>

definition syscall_intsafe :: "u32 \<Rightarrow> int" where
  "syscall_intsafe sysc = (if sysc = SYS_IO OR SYS_TWO then 0 else if sysc = SYS_TIME OR SYS_TWO then 0 else -1)"

subsection \<open>The entry\<close>

text \<open>
  The whole state: the memory and kernel state that all components share is in the state of the collector; in the states of interrupts and shared memory the
  places for them are filled in before a call and read back after it.
\<close>

record world =
  w_g :: gstate
  w_i :: istate
  w_s :: shstate

definition ks :: "world \<Rightarrow> kstate" where "ks w = m_k (g_ms (w_g w))"

definition in_ks :: "(kstate \<Rightarrow> kstate) \<Rightarrow> world \<Rightarrow> world" where "in_ks f w = w\<lparr>w_g := in_gk f (w_g w)\<rparr>"

definition put_ms :: "mstate \<Rightarrow> world \<Rightarrow> world" where "put_ms ms w = w\<lparr>w_g := (w_g w)\<lparr>g_ms := ms\<rparr>\<rparr>"

definition on_k :: "(kstate \<Rightarrow> ('r \<times> kstate) option) \<Rightarrow> world \<Rightarrow> ('r \<times> world) option" where
  "on_k f w = map_option (\<lambda>(r, k). (r, in_ks (\<lambda>_. k) w)) (f (ks w))"

definition on_m :: "(mstate \<Rightarrow> ('r \<times> mstate) option) \<Rightarrow> world \<Rightarrow> ('r \<times> world) option" where
  "on_m f w = map_option (\<lambda>(r, ms). (r, put_ms ms w)) (f (g_ms (w_g w)))"

definition on_i :: "(istate \<Rightarrow> ('r \<times> istate) option) \<Rightarrow> world \<Rightarrow> ('r \<times> world) option" where
  "on_i f w = map_option (\<lambda>(r, st). (r, (in_ks (\<lambda>_. ik st) w)\<lparr>w_i := st\<rparr>)) (f ((w_i w)\<lparr>ik := ks w\<rparr>))"

definition on_s :: "(shstate \<Rightarrow> ('r \<times> shstate) option) \<Rightarrow> world \<Rightarrow> ('r \<times> world) option" where
  "on_s f w = map_option (\<lambda>(r, st). (r, (put_ms (shm_m st) w)\<lparr>w_s := st\<rparr>)) (f ((w_s w)\<lparr>shm_m := g_ms (w_g w)\<rparr>))"

text \<open>The registers; and what the pointers in them lead to, as the functions above take it.\<close>

record regs =
  rg6 :: u32
  rg5 :: u32
  rg4 :: u32
  rg3 :: u32
  rg2 :: u32
  rg1 :: u32

record user_data =
  u_name :: buffer \<comment> \<open>a name, for processes, threads and regions\<close>
  u_at_r3 :: "buffer option"
  u_at_r4 :: "buffer option"
  u_bytes :: buffer \<comment> \<open>of a message\<close>
  u_words :: "u32 list" \<comment> \<open>of a pulse, or of a new thread\<close>
  u_want :: int
  u_pairs :: port_pairs
  u_infos :: "int \<Rightarrow> process_information"

text \<open>What the memory allocator finds, what others do while the thread is off its processor, and the code that is left out.\<close>

record outside =
  o_malloc :: malloc
  o_mem1 :: bool
  o_mem2 :: bool
  o_new :: "addr option"
  o_junk :: buffer
  o_env_junk :: "nat \<Rightarrow> environ_info"
  o_yield_k :: "kstate \<Rightarrow> kstate option"
  o_yield_g :: "gstate \<Rightarrow> gstate option"
  o_exec_memory_region :: "int \<Rightarrow> regs \<Rightarrow> world \<Rightarrow> (int \<times> world) option"
  o_pci_find :: "bool \<Rightarrow> regs \<Rightarrow> int \<times> buffer"
  o_reboot :: "kstate \<Rightarrow> kstate option"
  o_lfb :: "u32 \<times> u32 \<times> u32"

text \<open>What is written through the pointers of the user.\<close>

datatype call_out =
    Nothing
  | Name_out buffer
  | Ids_out int int
  | Env_out env_out
  | Pulse_out "pulse option"
  | Message_out "message option" buffer
  | Pairs_out port_pairs
  | Pci_out buffer
  | Time_out "(u32 \<times> u32) option"
  | Infos_out "int \<Rightarrow> process_information"
  | Lfb_out u32 u32 u32
  | Shmem_out shmem_out

text \<open>A call returns, or its thread has given up the processor for good.\<close>

datatype outcome = Returned int call_out | Gone

definition plain :: "(int \<times> 's) option \<Rightarrow> (outcome \<times> 's) option" where
  "plain = map_option (\<lambda>(a, s). (Returned a Nothing, s))"

definition with_out :: "('o \<Rightarrow> call_out) \<Rightarrow> ((int \<times> 'o) \<times> 's) option \<Rightarrow> (outcome \<times> 's) option" where
  "with_out f = map_option (\<lambda>((a, x), s). (Returned a (f x), s))"

definition gone :: "(gstate \<Rightarrow> gstate option) \<Rightarrow> world \<Rightarrow> (outcome \<times> world) option" where
  "gone f w = map_option (\<lambda>g. (Gone, w\<lparr>w_g := g\<rparr>)) (f (w_g w))"

definition syscall_process :: "outside \<Rightarrow> user_data \<Rightarrow> regs \<Rightarrow> world \<Rightarrow> (outcome \<times> world) option" where
  "syscall_process ou u g w =
     (let f = rg1 g AND 0xFF in
      if f = SYS_ONE then do { (pid, tid) \<leftarrow> syscall_ids (ks w); Some (Returned 0 (Ids_out pid tid), w) }
      else if f = SYS_TWO then plain (on_k (\<lambda>k. syscall_start k (rg2 g)) w)
      else if f = SYS_THREE then gone (\<lambda>gs. syscall_exit (o_yield_g ou) gs (rg2 g)) w
      else if f = SYS_FIVE then with_out Env_out
        (on_k (\<lambda>k. syscall_environment (o_mem1 ou) (o_mem2 ou) (o_env_junk ou) k (rg5 g) (u_at_r4 u) (rg3 g) (u_at_r3 u) (rg2 g)) w)
      else Some (Returned (-1) Nothing, w))"

definition syscall_thread :: "outside \<Rightarrow> user_data \<Rightarrow> regs \<Rightarrow> world \<Rightarrow> (outcome \<times> world) option" where
  "syscall_thread ou u g w =
     (let f = rg1 g AND 0xFF in
      if f = SYS_ONE then plain (on_m (\<lambda>ms. syscall_new_thread (o_new ou) (o_malloc ou) (o_mem1 ou) ms (rg6 g) (u_words u) (u_name u)) w)
      else if f = SYS_TWO then plain (on_k (\<lambda>k. syscall_set_state (o_yield_k ou) k (rg3 g) (rg2 g)) w)
      else if f = SYS_FOUR then plain (on_k (\<lambda>k. syscall_dormant (o_yield_k ou) k (rg2 g)) w)
      else if f = SYS_FIVE then gone (\<lambda>gs. syscall_thread_exit (o_yield_g ou) gs (rg2 g)) w
      else Some (Returned (-1) Nothing, w))"

definition syscall_exec :: "outside \<Rightarrow> regs \<Rightarrow> world \<Rightarrow> (outcome \<times> world) option" where
  "syscall_exec ou g w =
     (if rg1 g AND 0xFF = SYS_ONE then plain (do { pid \<leftarrow> current_pid (ks w); o_exec_memory_region ou pid g w })
      else Some (Returned (-1) Nothing, w))"

definition syscall_pci :: "outside \<Rightarrow> regs \<Rightarrow> world \<Rightarrow> (outcome \<times> world) option" where
  "syscall_pci ou g w =
     (let f = rg1 g AND 0xFF; found = (\<lambda>probe. case o_pci_find ou probe g of (a, cfg) \<Rightarrow> Some (Returned a (Pci_out cfg), w)) in
      if f = SYS_ONE then found False else if f = SYS_TWO then found True else Some (Returned (-1) Nothing, w))"

definition syscall_misc :: "outside \<Rightarrow> regs \<Rightarrow> world \<Rightarrow> (outcome \<times> world) option" where
  "syscall_misc ou g w =
     (let f = rg1 g AND 0xFF in
      if f = SYS_ONE then plain (on_k (\<lambda>k. do { k \<leftarrow> sched_lock_all k; k \<leftarrow> o_reboot ou k; k \<leftarrow> sched_unlock_all k; Some (0, k) }) w)
      else if f = SYS_TWO then gone (\<lambda>gs. syscall_abort (o_yield_g ou) gs (rg2 g)) w
      else if f = SYS_THREE then (case o_lfb ou of (ptr, width, height) \<Rightarrow> Some (Returned SMK_UNKNOWN_SYSCALL (Lfb_out ptr width height), w))
      else Some (Returned SMK_UNKNOWN_SYSCALL Nothing, w))"

text \<open>The \<open>switch\<close> of \<open>syscall\<close>.\<close>

definition dispatch :: "outside \<Rightarrow> user_data \<Rightarrow> regs \<Rightarrow> world \<Rightarrow> (outcome \<times> world) option" where
  "dispatch ou u g w =
     (let system_call = rg1 g AND 0xFF00 in
      if system_call = SYS_MEMORY then plain (on_m (\<lambda>ms. syscall_memory (o_malloc ou) ms (rg3 g) (rg2 g) (rg1 g)) w)
      else if system_call = SYS_SYSTEM then with_out Name_out
        (on_k (\<lambda>k. do { (a, b, k) \<leftarrow> syscall_system k (u_name u) (rg2 g) (rg1 g); Some ((a, b), k) }) w)
      else if system_call = SYS_PROCESS then syscall_process ou u g w
      else if system_call = SYS_THREAD then syscall_thread ou u g w
      else if system_call = SYS_PULSE then with_out Pulse_out
        (on_k (\<lambda>k. syscall_pulse (o_mem1 ou) k (u_words u) (u_want u) (rg4 g) (rg3 g) (rg2 g) (rg1 g)) w)
      else if system_call = SYS_MESSAGE then with_out (\<lambda>(m, b). Message_out m b)
        (on_k (\<lambda>k. syscall_message (o_mem1 ou) (o_mem2 ou) (o_junk ou) k (u_bytes u) (u_want u) (rg5 g) (rg4 g) (rg3 g) (rg2 g) (rg1 g)) w)
      else if system_call = SYS_PORT then with_out Pairs_out
        (on_k (\<lambda>k. syscall_port (o_mem1 ou) (o_mem2 ou) k (u_pairs u) (rg3 g) (rg2 g) (rg1 g)) w)
      else if system_call = SYS_EXEC then syscall_exec ou g w
      else if system_call = SYS_PCI then syscall_pci ou g w
      else if system_call = SYS_TIME then with_out Time_out (on_k (\<lambda>k. case syscall_time k (rg1 g) of (a, t, k) \<Rightarrow> Some ((a, t), k)) w)
      else if system_call = SYS_IRQ then plain (on_i (\<lambda>st. syscall_irq (o_mem1 ou) (o_mem2 ou) st (rg3 g) (rg2 g) (rg1 g)) w)
      else if system_call = SYS_IO then plain (on_k (\<lambda>k. syscall_io k (rg2 g) (rg1 g)) w)
      else if system_call = SYS_INFO then with_out Infos_out
        (on_k (\<lambda>k. do { (a, x, k) \<leftarrow> syscall_info k (u_infos u) (rg2 g) (rg1 g); Some ((a, x), k) }) w)
      else if system_call = SYS_MISC then syscall_misc ou g w
      else if system_call = SYS_SHMEM then with_out Shmem_out
        (on_s (\<lambda>st. syscall_shmem (o_new ou) (o_mem1 ou) st (u_name u) (rg6 g) (rg5 g) (rg4 g) (rg3 g) (rg2 g) (rg1 g)) w)
      else if system_call = SYS_EVENTS then plain (on_k (\<lambda>k. syscall_events k (rg4 g) (rg3 g) (rg2 g) (rg1 g)) w)
      else Some (Returned SMK_UNKNOWN_SYSCALL Nothing, w))"

text \<open>
  The threads of a process in the kernel are counted; a process that ends lets no thread in any more: the thread yields forever, which is None. A thread
  that ends has left the count itself.
\<close>

definition PROCESS_CRASHING :: int where "PROCESS_CRASHING = 6"

definition current_process :: "kstate \<Rightarrow> addr option" where
  "current_process k = do { tr \<leftarrow> current_thread k; t_process (threads k tr) }"

definition thread_count :: "(u32 \<Rightarrow> u32) \<Rightarrow> addr \<Rightarrow> kstate \<Rightarrow> kstate" where
  "thread_count f proc = upd_proc proc (\<lambda>p. p\<lparr>p_kernel_threads := f (p_kernel_threads p)\<rparr>)"

definition syscall :: "outside \<Rightarrow> user_data \<Rightarrow> regs \<Rightarrow> world \<Rightarrow> (outcome \<times> world) option" where
  "syscall ou u g w = do {
     p \<leftarrow> current_process (ks w);
     assert (p_state (procs (ks w) p) \<noteq> PROCESS_CRASHING \<and> p_state (procs (ks w) p) \<noteq> PROCESS_FINISHING);
     (rc, w) \<leftarrow> dispatch ou u g (in_ks (thread_count (\<lambda>n. n + 1) p) w);
     (case rc of
        Gone \<Rightarrow> Some (Gone, w)
      | Returned a out \<Rightarrow> do { p \<leftarrow> current_process (ks w); Some (Returned a out, in_ks (thread_count (\<lambda>n. n - 1) p) w) })
   }"

text \<open>
  \<open>sysenter\<close> has disabled interrupts: they are enabled again unless the thread asked for the contrary. The result is what is written to \<open>stack[0]\<close>; \<open>r1\<close> is \<open>stack[6]\<close>. The
  warning of an unsafe call is output only.
\<close>

definition syscall_prepare :: "outside \<Rightarrow> user_data \<Rightarrow> regs \<Rightarrow> world \<Rightarrow> (outcome \<times> world) option" where
  "syscall_prepare ou u g w = do {
     tr \<leftarrow> current_thread (ks w);
     syscall ou u g (if t_interrupts_disabled (threads (ks w) tr) = 0 then in_ks enable_interrupts w else w)
   }"

subsection \<open>The frame\<close>

text \<open>
  States that have a kernel state in them. What holds of the frame of a call is shown once for all of them.
\<close>

definition relock :: "addr \<Rightarrow> rwlock \<Rightarrow> rwlock \<Rightarrow> kstate \<Rightarrow> kstate" where
  "relock proc pl l k = upd_proc proc (\<lambda>p. p\<lparr>p_lock := pl\<rparr>) (k\<lparr>l_processLock := l\<rparr>)"

text \<open>An operation on a process that neither looks at its lock and that of the process list nor changes them.\<close>

definition lock_blind ::
    "('s \<Rightarrow> kstate) \<Rightarrow> ((kstate \<Rightarrow> kstate) \<Rightarrow> 's \<Rightarrow> 's) \<Rightarrow> addr \<Rightarrow> ('s \<Rightarrow> ('r \<times> 's) option) \<Rightarrow> bool" where
  "lock_blind get put proc body \<longleftrightarrow>
     (\<forall>s pl l. body (put (relock proc pl l) s) = map_option (apsnd (put (relock proc pl l))) (body s)) \<and>
     (\<forall>s r s'. body s = Some (r, s') \<longrightarrow> p_lock (procs (get s') proc) = p_lock (procs (get s) proc) \<and> l_processLock (get s') = l_processLock (get s))"

text \<open>The process is in the table and free.\<close>

definition at_rest :: "kstate \<Rightarrow> addr \<Rightarrow> bool" where
  "at_rest k proc \<longleftrightarrow> (\<exists>ps. ptable_inv k ps \<and> proc \<in> set ps) \<and> rw_free (p_lock (procs k proc))"

lemma checkout_relock:
  assumes "at_rest k a"
  obtains pl l where "checkout_process k (pid_of k a) flags = Some (Some a, relock a pl l k)"
    "rwlock_release pl = p_lock (procs k a)" "rwlock_release l = l_processLock k"
proof -
  obtain ps where ps: "ptable_inv k ps" "a \<in> set ps" "rw_free (p_lock (procs k a))" using assms by (auto simp: at_rest_def)
  then have sm: "pid_small (pid_of k a)" "rw_free (l_processLock k)" by (auto simp: ptable_inv_def)
  obtain l where l: "read_processes k = Some (k\<lparr>l_processLock := l\<rparr>)" "rwlock_release l = l_processLock k"
    by (rule read_processes_ok [OF sm(2)])
  have lk: "lookup_pid k (pid_of k a) = Some (Some a)" using lookup_pid_inv [OF ps(1) sm(1)] ps(2) by auto
  obtain pl where "(if flags = READER then rwlock_get_read_access (p_lock (procs k a)) else rwlock_get_write_access (p_lock (procs k a))) = Some pl"
    "rwlock_release pl = p_lock (procs k a)"
    using rw_read_release [OF ps(3)] rw_write_release [OF ps(3)] by (cases "flags = READER") auto
  then show thesis using l lk by (intro that [of pl l]) (auto simp: checkout_process_def relock_def)
qed

lemma commit_relock:
  "rwlock_release pl = p_lock (procs k a) \<Longrightarrow> rwlock_release l = l_processLock k \<Longrightarrow> commit_process a (relock a pl l k) = k"
  by (simp add: commit_process_def relock_def release_processes_def upd_proc_def)



locale kernel_holder =
  fixes get :: "'s \<Rightarrow> kstate"
    and put :: "(kstate \<Rightarrow> kstate) \<Rightarrow> 's \<Rightarrow> 's"
  assumes get_put: "get (put f s) = f (get s)"
    and put_put: "put f (put g s) = put (\<lambda>k. f (g k)) s"
    and put_same: "f (get s) = g (get s) \<Longrightarrow> put f s = put g s"
    and put_id: "put (\<lambda>k. k) s = s"
begin

lemma with_process_eq:
  fixes body :: "addr \<Rightarrow> 's \<Rightarrow> ('r \<times> 's) option"
  assumes "at_rest (get s) proc" "lock_blind get put proc (body proc)"
  shows "with_process get put (pid_of (get s) proc) flags missing body s = body proc s"
proof -
  obtain pl l where c: "checkout_process (get s) (pid_of (get s) proc) flags = Some (Some proc, relock proc pl l (get s))"
    "rwlock_release pl = p_lock (procs (get s) proc)" "rwlock_release l = l_processLock (get s)"
    by (rule checkout_relock [OF assms(1)])
  have p: "put (\<lambda>_. relock proc pl l (get s)) s = put (relock proc pl l) s" by (rule put_same) simp
  have b: "body proc (put (relock proc pl l) s) = map_option (apsnd (put (relock proc pl l))) (body proc s)"
    using assms(2) by (simp add: lock_blind_def)
  have "put (commit_process proc) (put (relock proc pl l) s') = s'" if "body proc s = Some (r, s')" for r s'
  proof -
    have "p_lock (procs (get s') proc) = p_lock (procs (get s) proc)" "l_processLock (get s') = l_processLock (get s)"
      using assms(2) that unfolding lock_blind_def by blast+
    then have "commit_process proc (relock proc pl l (get s')) = get s'" using c(2,3) by (intro commit_relock) simp_all
    then show ?thesis using put_same [of "\<lambda>k. commit_process proc (relock proc pl l k)" s' "\<lambda>k. k"] by (simp add: put_put put_id)
  qed
  then show ?thesis by (cases "body proc s") (auto simp: with_process_def c(1) p b split_beta)
qed

end

interpretation holds_k: kernel_holder "\<lambda>k. k" "\<lambda>f. f"
  by unfold_locales auto


interpretation holds_i: kernel_holder ik ik_update
  by unfold_locales (auto simp: comp_def)

interpretation holds_s: kernel_holder "\<lambda>st. m_k (shm_m st)" in_k
  by unfold_locales (auto simp: in_k_def)


lemma relock_fields [simp]:
  "p_pid (procs (relock proc pl l k) q) = p_pid (procs k q)" "p_flags (procs (relock proc pl l k) q) = p_flags (procs k q)"
  "current_thread (relock proc pl l k) = current_thread k" "threads (relock proc pl l k) = threads k" "ints (relock proc pl l k) = ints k"
  by (simp_all add: relock_def upd_proc_def current_thread_def)

text \<open>The calling thread and its process.\<close>

definition caller :: "kstate \<Rightarrow> addr \<Rightarrow> bool" where
  "caller k proc \<longleftrightarrow> (\<exists>tr. current_thread k = Some tr \<and> t_process (threads k tr) = Some proc) \<and> at_rest k proc"

lemma current_pid_caller: "caller k proc \<Longrightarrow> current_pid k = Some (pid_of k proc)"
  by (auto simp: caller_def current_pid_def pid_of_def)

lemma own_eq: "caller k proc \<Longrightarrow> lock_blind (\<lambda>k. k) (\<lambda>f. f) proc (body proc) \<Longrightarrow> own flags body k = body proc k"
  using holds_k.with_process_eq [of k proc body flags None] by (simp add: own_def current_pid_caller) (simp add: caller_def)


lemma on_process_eq:
  "at_rest (m_k (shm_m st)) proc \<Longrightarrow> lock_blind (\<lambda>st. m_k (shm_m st)) in_k proc (body proc) \<Longrightarrow>
    on_process st (pid_of (m_k (shm_m st)) proc) flags body = body proc st"
  unfolding on_process_def by (rule holds_s.with_process_eq)



subsection \<open>Memory\<close>

lemma uspace_relock [simp]: "uspace_of (m_k_update h ms) p = uspace_of ms p" "put_uspace p us (m_k_update h ms) = m_k_update h (put_uspace p us ms)"
  "m_k (put_uspace p us ms) = m_k ms"
  by (simp_all add: uspace_of_def put_uspace_def)










definition put_memory :: "addr \<Rightarrow> uspace \<Rightarrow> world \<Rightarrow> world" where
  "put_memory proc us w = put_ms (put_uspace proc us (g_ms (w_g w))) w"

lemma on_m_memory:
  "on_m (\<lambda>ms. map_option (\<lambda>(a, us). (f a, put_uspace proc us ms)) (x ms)) w = map_option (\<lambda>(a, us). (f a, put_memory proc us w)) (x (g_ms (w_g w)))"
  "on_m (\<lambda>ms. map_option (\<lambda>a. (h a, ms)) (y ms)) w = map_option (\<lambda>a. (h a, w)) (y (g_ms (w_g w)))" "on_m (\<lambda>ms. Some (n, ms)) w = Some (n, w)"
  by (simp_all add: on_m_def put_memory_def put_ms_def option.map_comp comp_def case_prod_unfold)


subsection \<open>Shared memory\<close>

lemma in_k_out:
  "upd_list a xs (in_k h st) = in_k h (upd_list a xs st)" "in_pg f (in_k h st) = in_k h (in_pg f st)" "upd_shmem a g (in_k h st) = in_k h (upd_shmem a g st)"
  "(in_k h st)\<lparr>shmem_lock := l\<rparr> = in_k h (st\<lparr>shmem_lock := l\<rparr>)"
  by (simp_all add: in_k_def in_pg_def upd_list_def upd_shmem_def)

lemma with_region_k:
  assumes "\<And>a st. body a (in_k h st) = map_option (apsnd (in_k h)) (body a st)"
  shows "with_region m (in_k h st) i body = map_option (apsnd (in_k h)) (with_region m st i body)"
proof -
  have "read_shmem (in_k h st) = map_option (in_k h) (read_shmem st)"
    by (cases "rwlock_get_read_access (shmem_lock st)") (simp_all add: read_shmem_def in_k_out)
  moreover have "write_region a (in_k h st1) = map_option (in_k h) (write_region a st1)" for a st1
    by (cases "rwlock_get_write_access (sh_lock (shmems st1 a))") (simp_all add: write_region_def in_k_out)
  moreover have "release_shmem (in_k h st1) = in_k h (release_shmem st1)" "release_region a (in_k h st1) = in_k h (release_region a st1)" for a st1
    by (simp_all add: release_shmem_def release_region_def in_k_out)
  ultimately show ?thesis
    unfolding with_region_def by (auto simp: assms lookup_shmem_def split: option.splits bind_splits)
qed

text \<open>A change of the kernel state that keeps the pids.\<close>

definition keeps_pids :: "(kstate \<Rightarrow> kstate) \<Rightarrow> bool" where
  "keeps_pids h \<longleftrightarrow> (\<forall>k q. p_pid (procs (h k) q) = p_pid (procs k q))"

lemma request_in_k:
  assumes "keeps_pids h"
  shows "request_in mem proc a (in_k h st) = map_option (apsnd (in_k h)) (request_in mem proc a st)"
proof -
  have p: "p_pid (procs (h k) proc) = p_pid (procs k proc)" for k using assms by (simp add: keeps_pids_def)
  have j: "joins (in_k h st) proc a = joins st proc a" "joined (in_k h st) proc a = joined st proc a"
    by (simp_all add: joins_def joined_def p Let_def)
  have u: "use_info a n x (in_k h st1) = apsnd (in_k h) (use_info a n x st1)" for n x st1 by (simp add: use_info_def in_k_out)
  show ?thesis
    unfolding request_in_def Let_def j
    by (auto simp: p in_k_out u split: option.splits bind_splits if_splits)
qed

lemma release_in_k:
  assumes "keeps_pids h"
  shows "release_in proc a (in_k h st) = map_option (apsnd (in_k h)) (release_in proc a st)"
proof -
  have p: "p_pid (procs (h k) proc) = p_pid (procs k proc)" for k using assms by (simp add: keeps_pids_def)
  show ?thesis unfolding release_in_def Let_def by (auto simp: p in_k_out split: option.split)
qed

lemma relock_keeps_pids: "keeps_pids (relock proc pl l)"
  by (simp add: keeps_pids_def)

lemma region_keeps_k:
  assumes "\<And>a st r st'. body a st = Some (r, st') \<Longrightarrow> m_k (shm_m st') = m_k (shm_m st)" "with_region m st i body = Some (r, st')"
  shows "m_k (shm_m st') = m_k (shm_m st)"
  using assms(2) by (auto simp: with_region_def read_shmem_def write_region_def release_shmem_def release_region_def upd_shmem_def
    split: option.splits bind_splits dest!: assms(1))

lemma request_keeps_k: "request_in mem proc a st = Some (r, st') \<Longrightarrow> m_k (shm_m st') = m_k (shm_m st)"
  unfolding request_in_def Let_def by (auto simp: use_info_def split: if_splits option.splits bind_splits)

lemma release_keeps_k: "release_in proc a st = Some (r, st') \<Longrightarrow> m_k (shm_m st') = m_k (shm_m st)"
  unfolding release_in_def Let_def by (auto split: if_splits option.splits bind_splits)

lemma request_blind: "lock_blind (\<lambda>st. m_k (shm_m st)) in_k proc (\<lambda>st. shmem_request mem st proc i)"
  unfolding lock_blind_def shmem_request_def
proof (intro conjI allI impI)
  show "with_region m (in_k (relock proc pl l) st) i (request_in mem proc) = map_option (apsnd (in_k (relock proc pl l))) (with_region m st i (request_in mem proc))" for m pl l st
    by (rule with_region_k, rule request_in_k, rule relock_keeps_pids)
  fix st r st' assume "with_region (-1, None) st i (request_in mem proc) = Some (r, st')"
  then have "m_k (shm_m st') = m_k (shm_m st)" by (rule region_keeps_k [rotated]) (rule request_keeps_k)
  then show "p_lock (procs (m_k (shm_m st')) proc) = p_lock (procs (m_k (shm_m st)) proc)" "l_processLock (m_k (shm_m st')) = l_processLock (m_k (shm_m st))" by simp_all
qed

lemma release_blind: "lock_blind (\<lambda>st. m_k (shm_m st)) in_k proc (\<lambda>st. shmem_release st proc i)"
  unfolding lock_blind_def shmem_release_def
proof (intro conjI allI impI)
  show "with_region m (in_k (relock proc pl l) st) i (release_in proc) = map_option (apsnd (in_k (relock proc pl l))) (with_region m st i (release_in proc))" for m pl l st
    by (rule with_region_k, rule release_in_k, rule relock_keeps_pids)
  fix st r st' assume "with_region (-1) st i (release_in proc) = Some (r, st')"
  then have "m_k (shm_m st') = m_k (shm_m st)" by (rule region_keeps_k [rotated]) (rule release_keeps_k)
  then show "p_lock (procs (m_k (shm_m st')) proc) = p_lock (procs (m_k (shm_m st)) proc)" "l_processLock (m_k (shm_m st')) = l_processLock (m_k (shm_m st))" by simp_all
qed

lemma blind_map:
  assumes "lock_blind get put proc body"
  shows "lock_blind get put proc (\<lambda>s. map_option (\<lambda>(r, s). (f r, s)) (body s))"
  using assms unfolding lock_blind_def by (fastforce simp: option.map_comp comp_def split_beta apsnd_def map_prod_def)

text \<open>What a request returns to the user.\<close>

definition request_out :: "int \<times> mapping option \<Rightarrow> int \<times> shmem_out" where
  "request_out r = (fst r, case snd r of None \<Rightarrow> No_result | Some x \<Rightarrow> Mapped x)"

text \<open>The calls that request and release a region do what the operations do for the calling process.\<close>

lemma syscall_shmem_own:
  assumes "caller (m_k (shm_m st)) proc"
  shows "syscall_shmem new mem st name r6 r5 r4 r3 0 SYS_FOUR = map_option (\<lambda>(r, st). (request_out r, st)) (shmem_request mem st proc (sint r3)) \<and>
    syscall_shmem new mem st name r6 r5 r4 r3 1 SYS_FOUR = map_option (\<lambda>(a, st). ((a, No_result), st)) (shmem_release st proc (sint r3))"
proof -
  have c: "current_pid (m_k (shm_m st)) = Some (pid_of (m_k (shm_m st)) proc)" "at_rest (m_k (shm_m st)) proc"
    using current_pid_caller [OF assms] assms by (simp_all add: caller_def)
  have q: "(\<lambda>((a, m), st). ((a, case m of None \<Rightarrow> No_result | Some x \<Rightarrow> Mapped x), st)) = (\<lambda>(r, st). (request_out r, st))"
    by (auto simp: request_out_def fun_eq_iff)
  have "on_process st (pid_of (m_k (shm_m st)) proc) WRITER (\<lambda>proc st. map_option (\<lambda>(r, st). (request_out r, st)) (shmem_request mem st proc (sint r3))) =
      map_option (\<lambda>(r, st). (request_out r, st)) (shmem_request mem st proc (sint r3))"
    by (rule on_process_eq [OF c(2)]) (rule blind_map [OF request_blind])
  moreover have "on_process st (pid_of (m_k (shm_m st)) proc) WRITER (\<lambda>proc st. map_option (\<lambda>(a, st). ((a, No_result), st)) (shmem_release st proc (sint r3))) =
      map_option (\<lambda>(a, st). ((a, No_result), st)) (shmem_release st proc (sint r3))"
    by (rule on_process_eq [OF c(2)]) (rule blind_map [OF release_blind])
  ultimately show ?thesis
    by (simp add: syscall_shmem_def c(1) q plain_result_def SYS_ONE_def SYS_TWO_def SYS_THREE_def SYS_FOUR_def)
qed

subsection \<open>The privilege for input and output\<close>

lemma priv_fields [simp]:
  "p_pid (procs (io_grant_priv p k) q) = p_pid (procs k q)" "p_lock (procs (io_grant_priv p k) q) = p_lock (procs k q)"
  "p_flags (procs (io_grant_priv p k) p) = p_flags (procs k p) OR IOPRIV"
  "threads (io_grant_priv p k) = threads k" "current_thread (io_grant_priv p k) = current_thread k" "l_processLock (io_grant_priv p k) = l_processLock k"
  "pkey (io_grant_priv p k) = pkey k" "pid_of (io_grant_priv p k) = pid_of k" "l_processTable (io_grant_priv p k) = l_processTable k"
  "l_rootProcess (io_grant_priv p k) = l_rootProcess k" "plist (io_grant_priv p k) = plist k"
  by (simp_all add: io_grant_priv_def upd_proc_def current_thread_def pkey_def pid_of_def fun_eq_iff)

lemma priv_caller: "caller k proc \<Longrightarrow> caller (io_grant_priv p k) proc"
  by (simp add: caller_def at_rest_def ptable_inv_def)

lemma priv_relock: "io_grant_priv proc (relock proc pl l k) = relock proc pl l (io_grant_priv proc k)"
  by (simp add: io_grant_priv_def relock_def upd_proc_def fun_eq_iff)

lemma syscall_io_grant:
  assumes "caller k proc"
  shows "syscall_io k 0 SYS_ONE = Some (0, io_grant_priv proc k)"
proof -
  have "lock_blind (\<lambda>k. k) (\<lambda>f. f) proc (\<lambda>k. Some (0, io_grant_priv proc k))"
    by (auto simp: lock_blind_def priv_relock)
  from own_eq [OF assms, of "\<lambda>proc k. Some (0, io_grant_priv proc k)", OF this] show ?thesis
    by (simp add: syscall_io_def SYS_ONE_def)
qed

text \<open>Without the privilege nobody creates a region over memory of his choice; with it, this is what the call does.\<close>

lemma syscall_create_direct:
  assumes "caller (m_k (shm_m st)) proc" "r5 \<noteq> 0"
  shows "syscall_shmem new mem st name r6 r5 r4 r3 r2 SYS_ONE =
    (if p_flags (procs (m_k (shm_m st)) proc) AND IOPRIV = 0 then Some ((-1, No_result), st)
     else plain_result (shmem_create_direct new mem st name (pid_of (m_k (shm_m st)) proc) (sint r3) r4 r6 0))"
proof -
  let ?b = "\<lambda>proc st. Some ((if p_flags (procs (m_k (shm_m st)) proc) AND IOPRIV = 0 then -1 else 0 :: int, No_result), st)"
  have "lock_blind (\<lambda>st. m_k (shm_m st)) in_k proc (?b proc)" by (simp add: lock_blind_def)
  then have "on_process st (pid_of (m_k (shm_m st)) proc) READER ?b = ?b proc st"
    using on_process_eq [of st proc ?b READER] assms(1) by (simp add: caller_def)
  then show ?thesis using assms(2) by (simp add: syscall_shmem_def current_pid_caller [OF assms(1)] SYS_ONE_def)
qed

lemma request_joins:
  assumes inv: "shmem_inv st" "a \<in> regions st" and s: "sh_list (shmems st a) = []" "sh_flags (shmems st a) = 5"
    and can: "can_map st proc (sh_physical_pages (shmems st a))"
    "\<forall>v\<in>page_run (vpage sK_BASE) (nat (sh_physical_pages (shmems st a))). xlat (pg st) (pdir st proc) v = None"
  obtains g st1 where "shmem_request True st proc (sid st a) = Some ((0, Some (sK_BASE, sh_physical_pages (shmems st a), 5)), st1)"
    "space st1 proc = space st proc ++ run_map (vpage sK_BASE) (nat (sh_physical_pages (shmems st a))) (sh_physical_location (shmems st a))
      (convert_paging_types (USER_PAGE OR READ_WRITE))"
proof -
  let ?s = "shmems st a" and ?pid = "p_pid (procs (m_k (shm_m st)) proc)"
  let ?x = "new_info (wrap32 ?pid) 5"
  have f: "si_flags ?x = 5" "(5 :: u32) AND SHMEM_MASK = 5" "page_rights 5 = USER_PAGE OR READ_WRITE" "(5 :: u32) AND SHMEM_PROMISCUOUS = SHMEM_PROMISCUOUS"
    by (simp_all add: SHMEM_MASK_def page_rights_def SHMEM_RDWR_def SHMEM_PROMISCUOUS_def)
  have nz: "sK_BASE \<noteq> 0" by (simp add: sK_BASE_def)
  have j: "joined st proc a = [?x]" using s f by (simp add: joined_def joins_def)
  have n: "find_info ?pid (joined st proc a) = Some 0" by (simp add: j)
  obtain g where g: "page_provide (pg st) (pdir st proc) (sh_physical_location ?s) sK_BASE sK_CEILING (of_int (sh_physical_pages ?s))
        (USER_PAGE OR READ_WRITE) = Some (sK_BASE, g)"
    "user_map g (pdir st proc) = space st proc ++ run_map (vpage sK_BASE) (nat (sh_physical_pages ?s)) (sh_physical_location ?s) (convert_paging_types (USER_PAGE OR READ_WRITE))"
    using provide_free [OF can, of "sh_physical_location ?s" "USER_PAGE OR READ_WRITE"] by blast
  have "shmem_request True st proc (sid st a) = Some (use_info a 0 (?x\<lparr>si_virtual_location := sK_BASE, si_virtual_pages := sh_physical_pages ?s\<rparr>)
      (in_pg (\<lambda>_. g) (upd_list a [?x] st)))"
    using shmem_region_eqs(3) [OF inv, of True proc] request_in_found [OF _ n, of True] g(1) nz by (simp add: j f Let_def)
  then show thesis
    by (intro that) (auto simp: use_info_def f g(2))
qed

text \<open>
  C31. What the privilege protects. Every process may give itself the privilege for input and output; with it, three calls map any run of physical memory, that of the kernel
  or of another process included, into its address space for reading and writing.
\<close>

theorem any_process_maps_memory:
  assumes inv: "shmem_inv st" and me: "caller (m_k (shm_m st)) proc" and can: "can_create_region st a" "name z = 0"
    and map: "can_map st proc n" "\<forall>v\<in>page_run (vpage sK_BASE) (nat n). xlat (pg st) (pdir st proc) v = None"
  shows "\<exists>k1 i st2 m st3. syscall_io (m_k (shm_m st)) 0 SYS_ONE = Some (0, k1) \<and>
    syscall_shmem (Some a) mem (in_k (\<lambda>_. k1) st) name location 1 5 (of_int n) 0 SYS_ONE = Some ((i, No_result), st2) \<and>
    syscall_shmem None True st2 name 0 0 0 (of_int i) 0 SYS_FOUR = Some ((0, Mapped m), st3) \<and>
    (\<forall>j<nat n. space st3 proc (vpage sK_BASE + j) = Some ((location + of_nat j * of_nat PAGE_SIZE) OR convert_paging_types (USER_PAGE OR READ_WRITE) OR PAGE_PRESENT))"
proof -
  let ?k = "io_grant_priv proc (m_k (shm_m st))"
  let ?st1 = "in_k (\<lambda>_. ?k) st"
  have n: "0 < n" "n \<le> 16384" using map(1) by (simp_all add: can_map_def)
  then have sn: "sint (of_int n :: u32) = n" by (simp add: sint_sbintrunc' signed_take_bit_int_eq_self)
  have c1: "caller (m_k (shm_m ?st1)) proc" using priv_caller [OF me] by simp
  have "(p_flags (procs ?k proc) AND IOPRIV) \<noteq> 0"
    by (simp add: IOPRIV_def bit.conj_disj_distrib2)
  then have d: "syscall_shmem (Some a) mem ?st1 name location 1 5 (of_int n) 0 SYS_ONE =
      plain_result (shmem_create_direct (Some a) mem ?st1 name (pid_of ?k proc) n 5 location 0)"
    using syscall_create_direct [OF c1, of 1 "Some a" mem name location 5 "of_int n" 0] sn by simp
  obtain len where len: "strlen name = Some len" "0 < len" using strlen_some [of name z] can(2) by blast
  have "shmem_inv ?st1" "can_create_region ?st1 a" using inv can(1) by (simp_all add: can_create_region_def)
  then obtain i t where c: "shmem_create_direct (Some a) mem ?st1 name (pid_of ?k proc) n 5 location 0 =
      Some (i, ?st1\<lparr>shmem_id := i + 1, shmems := (shmems ?st1)(a := (blank_region (shmems ?st1 a) name (pid_of ?k proc) n 5 location 0)\<lparr>sh_id := i\<rparr>), shmem_table := t\<rparr>)"
    "sid_small i" "i \<notin> sid ?st1 ` regions ?st1" "shmem_id ?st1 \<le> i" "set (ht_list t) = insert a (regions ?st1)"
    "shmem_inv (?st1\<lparr>shmem_id := i + 1, shmems := (shmems ?st1)(a := (blank_region (shmems ?st1 a) name (pid_of ?k proc) n 5 location 0)\<lparr>sh_id := i\<rparr>), shmem_table := t\<rparr>)"
    using shmem_create_direct_ok [of info_inv ?st1 a n name len mem "pid_of ?k proc" 5 location 0] n len by blast
  let ?st2 = "?st1\<lparr>shmem_id := i + 1, shmems := (shmems ?st1)(a := (blank_region (shmems ?st1 a) name (pid_of ?k proc) n 5 location 0)\<lparr>sh_id := i\<rparr>), shmem_table := t\<rparr>"
  have r: "a \<in> regions ?st2" "sid ?st2 a = i" using c(5) by (simp_all add: regions_def sid_def)
  have s: "sh_list (shmems ?st2 a) = []" "sh_flags (shmems ?st2 a) = 5" "sh_physical_pages (shmems ?st2 a) = n" "sh_physical_location (shmems ?st2 a) = location"
    by (simp_all add: blank_region_def SHMEM_MASK_def)
  obtain st3 where q: "shmem_request True ?st2 proc i = Some ((0, Some (sK_BASE, n, 5)), st3)"
    "space st3 proc = space st proc ++ run_map (vpage sK_BASE) (nat n) location (convert_paging_types (USER_PAGE OR READ_WRITE))"
    using request_joins [OF c(6) r(1) s(1,2), of proc] r(2) s(3,4) map by (auto simp: can_map_def)
  have si: "sint (of_int i :: u32) = i" using c(2) by (simp add: sid_small_def sint_sbintrunc' signed_take_bit_int_eq_self)
  have "syscall_shmem None True ?st2 name 0 0 0 (of_int i) 0 SYS_FOUR = Some ((0, Mapped (sK_BASE, n, 5)), st3)"
    using conjunct1 [OF syscall_shmem_own [of ?st2 proc None True name 0 0 0 "of_int i"]] c1 q(1) si by (simp add: request_out_def)
  then show ?thesis
    using syscall_io_grant [OF me] d c(1) q(2) by (auto simp: plain_result_def run_map_def)
qed

subsection \<open>The state of threads\<close>

text \<open>
  Error. A program may ask for any state of any thread of its own. For a thread that sleeps with a timeout, every state but running
  fails the assertion of \<open>set_thread_state\<close>: the call stops the kernel.
\<close>

theorem set_state_halts:
  assumes "caller k proc" "get_thread k proc (sint r2) = Some (Some tr)" "current_thread k \<noteq> Some tr"
    and "t_state (threads k tr) = THREAD_DORMANT" "t_duration (threads k tr) \<noteq> 0" "state_of r3 \<noteq> THREAD_RUNNING" "state_of r3 \<noteq> THREAD_DORMANT"
  shows "syscall_set_state yield k r3 r2 = None"
proof -
  obtain pl l where c: "checkout_process k (pid_of k proc) WRITER = Some (Some proc, relock proc pl l k)"
    using assms(1) by (auto simp: caller_def intro: checkout_relock)
  have "get_thread (relock proc pl l k) proc (sint r2) = Some (Some tr)"
    using assms(2) get_thread_cong [of "relock proc pl l k" proc k] by (simp add: relock_def upd_proc_def)
  then show ?thesis
    using assms(3-) current_pid_caller [OF assms(1)] c
    by (simp add: syscall_set_state_def own_def with_process_def set_thread_state_def disable_interrupts_def current_thread_def Let_def
      relock_def upd_proc_def)
qed

subsection \<open>Examples\<close>

text \<open>Process 0 with pid 1: thread 10 calls, thread 11 sleeps.\<close>

definition k_sys :: kstate where
  "k_sys = upd_thread 11 (\<lambda>t. t\<lparr>t_state := THREAD_DORMANT, t_duration := 5\<rparr>) (upd_thread 10 (\<lambda>t. t\<lparr>t_process := Some 0\<rparr>)
     (upd_sched 0 (\<lambda>s. s\<lparr>si_current_thread := Some 10\<rparr>) (m_k ms_dying)))"

lemma k_sys_fields:
  "current_thread k_sys = Some 10" "t_process (threads k_sys 10) = Some 0" "t_state (threads k_sys 11) = THREAD_DORMANT" "t_duration (threads k_sys 11) = 5"
  "procs k_sys = procs (m_k ms_dying)" "p_state (procs (m_k ms_dying) 0) = 0"
  by (simp_all add: k_sys_def current_thread_def upd_sched_def upd_thread_def ms_dying_def ms_duo_def k_duo_def k_blank_def process_blank_def upd_proc_def)

lemma k_sys_caller: "caller k_sys 0"
proof -
  have "ptable_inv k_sys [0]"
  proof -
    have "pkey k_sys = pkey (m_k ms_dying)" by (auto simp: pkey_def k_sys_fields)
    then show ?thesis
      using ms_dying_process(1) by (simp add: ptable_inv_def pid_of_def k_sys_fields) (simp add: k_sys_def upd_sched_def upd_thread_def)
  qed
  then show ?thesis
    using ms_dying_process(3) by (auto simp: caller_def at_rest_def k_sys_fields)
qed

lemma k_sys_thread: "get_thread k_sys 0 2 = Some (Some 11)"
proof -
  have "get_thread k_sys 0 2 = get_thread (m_k ms_dying) 0 2"
    by (rule get_thread_cong) (simp_all add: k_sys_def upd_sched_def upd_thread_def)
  moreover have "threads_ok (m_k ms_dying) 0" using ms_dying_threads(1) by (simp add: thread_inv_def port_inv_def)
  moreover have "11 \<in> set (thread_addrs (m_k ms_dying) 0)" using ms_dying_threads(1) mset_eq_setD [of "thread_addrs (m_k ms_dying) 0" "[10, 11]"] by (simp add: thread_inv_def)
  moreover have "t_tid (threads (m_k ms_dying) 11) = 2" by (simp add: ms_dying_def ms_duo_def k_duo_def upd_thread_def thread_blank_def)
  ultimately show ?thesis using get_thread_some [of "m_k ms_dying" 0 11] by simp
qed

theorem set_state_halts_witness: "syscall_set_state Some k_sys 77 2 = None"
  using set_state_halts [OF k_sys_caller, of 2 11 77 Some] k_sys_thread by (simp add: k_sys_fields state_of_def thread_states_def)






theorem any_process_maps_memory_witness:
  "\<exists>k1 i st2 m st3. syscall_io k_sys 0 SYS_ONE = Some (0, k1) \<and>
    syscall_shmem (Some 5) True (in_k (\<lambda>_. k1) (sh_state pg_small 0)) ((\<lambda>_. 0)(0 := 66)) 0x1000 1 5 1 0 SYS_ONE = Some ((i, No_result), st2) \<and>
    syscall_shmem None True st2 ((\<lambda>_. 0)(0 := 66)) 0 0 0 (of_int i) 0 SYS_FOUR = Some ((0, Mapped m), st3) \<and>
    space st3 0 (vpage sK_BASE) = Some 0x1007"
proof -
  let ?st = "in_k (\<lambda>_. k_sys) (sh_state pg_small 0)"
  have "shmem_inv ?st" "can_map ?st 0 1" "can_create_region ?st 5"
    using sh_state_inv [of 0 pg_small] sh_state_map [of 0 0] by (simp_all add: can_map_def can_create_region_def) (simp add: sh_state_def)
  moreover have "\<forall>v\<in>page_run (vpage sK_BASE) (nat 1). xlat (pg ?st) (pdir ?st 0) v = None"
    using pg_small_empty(2) [of "0x14000"] by (force simp: ceiling)
  moreover have "((\<lambda>_. 0)(0 := 66 :: byte)) (1 :: nat) = 0" by simp
  ultimately show ?thesis
    using any_process_maps_memory [of ?st 0 5 "(\<lambda>_. 0)(0 := 66)" 1 1 True "0x1000"] k_sys_caller
    by (auto simp: convert_paging_types_def READ_WRITE_def USER_PAGE_def PAGE_RDWR_def PAGE_USER_def PAGE_PRESENT_def PAGE_SIZE_def
      READ_ONLY_def SYSTEM_PAGE_def in_k_def Let_def)
qed

end
