(* ===== verification/Liballoc.thy ===== *)
theory Liballoc
  imports Physmem
begin

section \<open>The kernel heap (kernel/src/liballoc.c and liballoc_hooks.c)\<close>

text \<open>
  \<open>malloc\<close> cuts runs of pages from the physical allocator, the majors, into the blocks it hands out, the minors.
  Both are doubly linked, the minors of a major in order of address; each has a header of six words in front of it.
  Addresses are numbers, NULL is 0, and unsigned arithmetic is \<open>uw\<close>, modulo \<open>2 ^ 32\<close>.
  The headers are kept in two stores by address, the bytes handed out in a third. \<open>ALIGNMENT\<close> is 0, so that
  the macros for alignment do nothing; the printing under DEBUG and INFO is left out.

  Shown: an invariant that ties links, sizes, counters and the bitmap of pages together; blocks handed out never overlap;
  \<open>malloc\<close> returns and adds one block of the size asked for, or NULL and changes no block; \<open>free\<close> takes exactly its block away and gives a
  major back with its last block; a pointer that is not a block is refused; \<open>calloc\<close> clears and
  \<open>realloc\<close> keeps the contents; and sizes near \<open>2 ^ 32\<close> wrap around.
\<close>

subsection \<open>Structures\<close>

definition uw :: "int \<Rightarrow> int" where "uw x = x mod 2 ^ 32"

definition LIBALLOC_MAGIC :: int where "LIBALLOC_MAGIC = 0xc001c0de"
definition LIBALLOC_DEAD :: int where "LIBALLOC_DEAD = 0xdeaddead"

record liballoc_major =
  mj_prev :: int
  mj_next :: int
  mj_pages :: int
  mj_size :: int
  mj_usage :: int
  mj_first :: int

record liballoc_minor =
  mn_prev :: int
  mn_next :: int
  mn_block :: int
  mn_magic :: int
  mn_size :: int
  mn_req_size :: int

definition SIZEOF_MAJOR :: int where "SIZEOF_MAJOR = 24"
definition SIZEOF_MINOR :: int where "SIZEOF_MINOR = 24"

record heap =
  h_major :: "int \<Rightarrow> liballoc_major"
  h_minor :: "int \<Rightarrow> liballoc_minor"
  h_bytes :: "int \<Rightarrow> 8 word"
  h_phys :: physmem
  l_memRoot :: int
  l_bestBet :: int
  l_allocated :: int
  l_inuse :: int
  l_warningCount :: int
  l_errorCount :: int
  l_possibleOverruns :: int
  h_lock :: bool

definition l_pageSize :: int where "l_pageSize = 4096"
definition l_pageCount :: int where "l_pageCount = 16"

text \<open>Before the first call: nothing allocated, whatever the memory contains.\<close>

definition heap_start :: "(int \<Rightarrow> liballoc_major) \<Rightarrow> (int \<Rightarrow> liballoc_minor) \<Rightarrow> (int \<Rightarrow> 8 word) \<Rightarrow> physmem \<Rightarrow> heap" where
  "heap_start mj mn m ph = \<lparr>h_major = mj, h_minor = mn, h_bytes = m, h_phys = ph, l_memRoot = 0, l_bestBet = 0, l_allocated = 0, l_inuse = 0,
     l_warningCount = 0, l_errorCount = 0, l_possibleOverruns = 0, h_lock = False\<rparr>"

definition upd_major :: "int \<Rightarrow> (liballoc_major \<Rightarrow> liballoc_major) \<Rightarrow> heap \<Rightarrow> heap" where
  "upd_major a f h = h\<lparr>h_major := (h_major h)(a := f (h_major h a))\<rparr>"

definition upd_minor :: "int \<Rightarrow> (liballoc_minor \<Rightarrow> liballoc_minor) \<Rightarrow> heap \<Rightarrow> heap" where
  "upd_minor a f h = h\<lparr>h_minor := (h_minor h)(a := f (h_minor h a))\<rparr>"

subsection \<open>Hooks\<close>

text \<open>Waiting for a lock that is held never ends on one processor.\<close>

definition liballoc_lock :: "heap \<Rightarrow> heap option" where
  "liballoc_lock h = do { assert (\<not> h_lock h); Some (h\<lparr>h_lock := True\<rparr>) }"

definition liballoc_unlock :: "heap \<Rightarrow> heap" where
  "liballoc_unlock h = h\<lparr>h_lock := False\<rparr>"

definition liballoc_alloc :: "int \<Rightarrow> heap \<Rightarrow> (int \<times> heap) option" where
  "liballoc_alloc pages h = do { (a, ph) \<leftarrow> memory_alloc (h_phys h) pages; Some (uint a, h\<lparr>h_phys := ph\<rparr>) }"

definition liballoc_free :: "int \<Rightarrow> int \<Rightarrow> heap \<Rightarrow> heap option" where
  "liballoc_free ptr pages h = do { ph \<leftarrow> memory_free (h_phys h) pages (word_of_int ptr); Some (h\<lparr>h_phys := ph\<rparr>) }"

fun liballoc_memset :: "int \<Rightarrow> 8 word \<Rightarrow> nat \<Rightarrow> (int \<Rightarrow> 8 word) \<Rightarrow> (int \<Rightarrow> 8 word)" where
  "liballoc_memset s c 0 m = m"
| "liballoc_memset s c (Suc n) m = liballoc_memset (s + 1) c n (m(s := c))"

text \<open>\<open>liballoc_memcpy\<close> copies words as long as it can and then bytes; a word is its four bytes.\<close>

definition copy_word :: "int \<Rightarrow> int \<Rightarrow> (int \<Rightarrow> 8 word) \<Rightarrow> (int \<Rightarrow> 8 word)" where
  "copy_word d s m = m(d := m s, d + 1 := m (s + 1), d + 2 := m (s + 2), d + 3 := m (s + 3))"

fun liballoc_memcpy :: "int \<Rightarrow> int \<Rightarrow> nat \<Rightarrow> (int \<Rightarrow> 8 word) \<Rightarrow> (int \<Rightarrow> 8 word)" where
  "liballoc_memcpy d s (Suc (Suc (Suc (Suc n)))) m = liballoc_memcpy (d + 4) (s + 4) n (copy_word d s m)"
| "liballoc_memcpy d s (Suc n) m = liballoc_memcpy (d + 1) (s + 1) n (m(d := m s))"
| "liballoc_memcpy d s 0 m = m"

subsection \<open>Allocation\<close>

definition allocate_new_page :: "int \<Rightarrow> heap \<Rightarrow> (int \<times> heap) option" where
  "allocate_new_page sz h = do {
     let st = uw (sz + SIZEOF_MAJOR);
     let st = uw (st + SIZEOF_MINOR);
     let st = (if st mod l_pageSize = 0 then st div l_pageSize else st div l_pageSize + 1);
     let st = (if st < l_pageCount then l_pageCount else st);
     (maj, h) \<leftarrow> liballoc_alloc st h;
     if maj = 0 then Some (0, h\<lparr>l_warningCount := l_warningCount h + 1\<rparr>)
     else do {
       let h = upd_major maj (\<lambda>_. \<lparr>mj_prev = 0, mj_next = 0, mj_pages = st, mj_size = uw (st * l_pageSize),
         mj_usage = SIZEOF_MAJOR, mj_first = 0\<rparr>) h;
       Some (maj, h\<lparr>l_allocated := l_allocated h + mj_size (h_major h maj)\<rparr>)
     }
   }"

text \<open>Accounting of a block of \<open>sz\<close> bytes in \<open>maj\<close>, and the address of its bytes.\<close>

definition count_block :: "int \<Rightarrow> int \<Rightarrow> heap \<Rightarrow> heap" where
  "count_block maj sz h =
     (let h = upd_major maj (\<lambda>m. m\<lparr>mj_usage := uw (mj_usage m + (sz + SIZEOF_MINOR))\<rparr>) h
      in h\<lparr>l_inuse := l_inuse h + sz\<rparr>)"

definition bytes_of :: "int \<Rightarrow> int" where "bytes_of mnr = uw (mnr + SIZEOF_MINOR)"

text \<open>Case 2: a brand new major.\<close>

definition place_only :: "int \<Rightarrow> int \<Rightarrow> int \<Rightarrow> heap \<Rightarrow> int \<times> heap" where
  "place_only maj sz req_size h =
     (let a = uw (maj + SIZEOF_MAJOR);
          h = upd_major maj (\<lambda>m. m\<lparr>mj_first := a\<rparr>) h;
          h = upd_minor a (\<lambda>m. m\<lparr>mn_magic := LIBALLOC_MAGIC, mn_prev := 0, mn_next := 0, mn_block := maj, mn_size := sz,
                mn_req_size := req_size\<rparr>) h
      in (bytes_of a, count_block maj sz h))"

text \<open>Case 3: in front of the first minor.\<close>

definition place_front :: "int \<Rightarrow> int \<Rightarrow> int \<Rightarrow> heap \<Rightarrow> int \<times> heap" where
  "place_front maj sz req_size h =
     (let a = uw (maj + SIZEOF_MAJOR);
          old = mj_first (h_major h maj);
          h = upd_minor old (\<lambda>m. m\<lparr>mn_prev := a\<rparr>) h;
          h = upd_minor a (\<lambda>m. m\<lparr>mn_next := old\<rparr>) h;
          h = upd_major maj (\<lambda>m. m\<lparr>mj_first := a\<rparr>) h;
          h = upd_minor a (\<lambda>m. m\<lparr>mn_magic := LIBALLOC_MAGIC, mn_prev := 0, mn_block := maj, mn_size := sz, mn_req_size := req_size\<rparr>) h
      in (bytes_of a, count_block maj sz h))"

text \<open>Case 4.1: after the last minor.\<close>

definition place_last :: "int \<Rightarrow> int \<Rightarrow> int \<Rightarrow> int \<Rightarrow> heap \<Rightarrow> int \<times> heap" where
  "place_last maj mnr sz req_size h =
     (let a = uw (mnr + SIZEOF_MINOR + mn_size (h_minor h mnr));
          h = upd_minor mnr (\<lambda>m. m\<lparr>mn_next := a\<rparr>) h;
          h = upd_minor a (\<lambda>m. m\<lparr>mn_prev := mnr\<rparr>) h;
          h = upd_minor a (\<lambda>m. m\<lparr>mn_next := 0, mn_magic := LIBALLOC_MAGIC, mn_block := maj, mn_size := sz, mn_req_size := req_size\<rparr>) h
      in (bytes_of a, count_block maj sz h))"

text \<open>Case 4.2: between a minor and the next.\<close>

definition place_between :: "int \<Rightarrow> int \<Rightarrow> int \<Rightarrow> int \<Rightarrow> heap \<Rightarrow> int \<times> heap" where
  "place_between maj mnr sz req_size h =
     (let a = uw (mnr + SIZEOF_MINOR + mn_size (h_minor h mnr));
          h = upd_minor a (\<lambda>m. m\<lparr>mn_magic := LIBALLOC_MAGIC, mn_next := mn_next (h_minor h mnr), mn_prev := mnr, mn_size := sz,
                mn_req_size := req_size, mn_block := maj\<rparr>) h;
          h = upd_minor (mn_next (h_minor h mnr)) (\<lambda>m. m\<lparr>mn_prev := a\<rparr>) h;
          h = upd_minor mnr (\<lambda>m. m\<lparr>mn_next := a\<rparr>) h
      in (bytes_of a, count_block maj sz h))"

text \<open>Case 4: the minors of a major, one after the other.\<close>

partial_function (option) scan_minors :: "int \<Rightarrow> int \<Rightarrow> int \<Rightarrow> heap \<Rightarrow> int \<Rightarrow> (int option \<times> heap) option" where
  "scan_minors maj sz req_size h mnr =
     (if mnr = 0 then Some (None, h)
      else let m = h_minor h mnr in
        if mn_next m = 0 \<and> uw (maj + mj_size (h_major h maj) - mnr - SIZEOF_MINOR - mn_size m) \<ge> uw (sz + SIZEOF_MINOR)
        then Some (apfst Some (place_last maj mnr sz req_size h))
        else if mn_next m \<noteq> 0 \<and> uw (mn_next m - mnr - SIZEOF_MINOR - mn_size m) \<ge> uw (sz + SIZEOF_MINOR)
        then Some (apfst Some (place_between maj mnr sz req_size h))
        else scan_minors maj sz req_size h (mn_next m))"

text \<open>Where the loop over the majors goes on: with a result, or at a major.\<close>

datatype goto = Done int | Again int bool

text \<open>A new major after the last one.\<close>

definition append_major :: "int \<Rightarrow> int \<Rightarrow> heap \<Rightarrow> (int \<times> heap) option" where
  "append_major maj sz h = do {
     (n, h) \<leftarrow> allocate_new_page sz h;
     let h = upd_major maj (\<lambda>m. m\<lparr>mj_next := n\<rparr>) h;
     Some (n, if n = 0 then h else upd_major n (\<lambda>m. m\<lparr>mj_prev := maj\<rparr>) h)
   }"

text \<open>Cases 2 to 5 for one major.\<close>

definition try_major :: "int \<Rightarrow> int \<Rightarrow> bool \<Rightarrow> heap \<Rightarrow> int \<Rightarrow> (goto \<times> heap) option" where
  "try_major sz req_size startedBet h maj =
     (if mj_first (h_major h maj) = 0 then Some (apfst Done (place_only maj sz req_size h))
      else if uw (mj_first (h_major h maj) - maj - SIZEOF_MAJOR) \<ge> uw (sz + SIZEOF_MINOR)
      then Some (apfst Done (place_front maj sz req_size h))
      else do {
        (r, h) \<leftarrow> scan_minors maj sz req_size h (mj_first (h_major h maj));
        (case r of
           Some p \<Rightarrow> Some (Done p, h)
         | None \<Rightarrow>
             if mj_next (h_major h maj) \<noteq> 0 then Some (Again (mj_next (h_major h maj)) startedBet, h)
             else if startedBet then Some (Again (l_memRoot h) False, h)
             else do {
               (n, h) \<leftarrow> append_major maj sz h;
               Some (if n = 0 then Done 0 else Again n startedBet, h)
             })
      })"

text \<open>One round of the loop: the best bet is remembered, a major that is too full is left (case 1).\<close>

definition visit_major :: "int \<Rightarrow> int \<Rightarrow> bool \<Rightarrow> heap \<Rightarrow> int \<Rightarrow> (goto \<times> heap) option" where
  "visit_major sz req_size startedBet h maj =
     (if uw (mj_size (h_major h maj) - mj_usage (h_major h maj)) < uw (sz + SIZEOF_MINOR)
      then if mj_next (h_major h maj) \<noteq> 0 then Some (Again (mj_next (h_major h maj)) startedBet, h)
        else if startedBet then Some (Again (l_memRoot h) False, h)
        else do {
          (n, h) \<leftarrow> append_major maj sz h;
          if n = 0 then Some (Done 0, h) else try_major sz req_size startedBet h n
        }
      else try_major sz req_size startedBet h maj)"

partial_function (option) malloc_loop :: "int \<Rightarrow> int \<Rightarrow> int \<Rightarrow> bool \<Rightarrow> int \<Rightarrow> heap \<Rightarrow> (int \<times> heap) option" where
  "malloc_loop sz req_size maj startedBet bestSize h =
     (if maj = 0 then Some (0, h)
      else do {
        let diff = uw (mj_size (h_major h maj) - mj_usage (h_major h maj));
        let (h, bestSize) = (if bestSize < diff then (h\<lparr>l_bestBet := maj\<rparr>, diff) else (h, bestSize));
        (g, h) \<leftarrow> visit_major sz req_size startedBet h maj;
        (case g of Done p \<Rightarrow> Some (p, h) | Again maj startedBet \<Rightarrow> malloc_loop sz req_size maj startedBet bestSize h)
      })"

text \<open>\<open>malloc\<close> of a sz that is not 0, after the lock has been taken.\<close>

definition malloc_locked :: "int \<Rightarrow> heap \<Rightarrow> (int \<times> heap) option" where
  "malloc_locked sz h = do {
     h \<leftarrow> (if l_memRoot h = 0 then do { (r, h) \<leftarrow> allocate_new_page sz h; Some (h\<lparr>l_memRoot := r\<rparr>) } else Some h);
     if l_memRoot h = 0 then Some (0, h)
     else if l_bestBet h \<noteq> 0 then
       let bestSize = uw (mj_size (h_major h (l_bestBet h)) - mj_usage (h_major h (l_bestBet h)))
       in if bestSize > uw (sz + SIZEOF_MINOR) then malloc_loop sz sz (l_bestBet h) True bestSize h
          else malloc_loop sz sz (l_memRoot h) False bestSize h
     else malloc_loop sz sz (l_memRoot h) False 0 h
   }"

definition malloc :: "int \<Rightarrow> heap \<Rightarrow> (int \<times> heap) option" where
  "malloc req_size h = do {
     h \<leftarrow> liballoc_lock h;
     (req_size, h) \<leftarrow> (if req_size = 0 then do { h \<leftarrow> liballoc_lock (liballoc_unlock (h\<lparr>l_warningCount := l_warningCount h + 1\<rparr>)); Some (1, h) }
                       else Some (req_size, h));
     (p, h) \<leftarrow> malloc_locked req_size h;
     Some (p, liballoc_unlock h)
   }"

subsection \<open>Release\<close>

text \<open>A header without the magic number: the errors are counted.\<close>

definition bad_magic :: "int \<Rightarrow> heap \<Rightarrow> heap" where
  "bad_magic magic h =
     (let h = h\<lparr>l_errorCount := l_errorCount h + 1\<rparr>
      in if magic mod 0x1000000 = LIBALLOC_MAGIC mod 0x1000000 \<or> magic mod 0x10000 = LIBALLOC_MAGIC mod 0x10000 \<or>
            magic mod 0x100 = LIBALLOC_MAGIC mod 0x100
         then h\<lparr>l_possibleOverruns := l_possibleOverruns h + 1\<rparr> else h)"

definition unlink_minor :: "int \<Rightarrow> heap \<Rightarrow> heap" where
  "unlink_minor mnr h =
     (let maj = mn_block (h_minor h mnr);
          h = h\<lparr>l_inuse := l_inuse h - mn_size (h_minor h mnr)\<rparr>;
          h = upd_major maj (\<lambda>m. m\<lparr>mj_usage := uw (mj_usage m - (mn_size (h_minor h mnr) + SIZEOF_MINOR))\<rparr>) h;
          h = upd_minor mnr (\<lambda>m. m\<lparr>mn_magic := LIBALLOC_DEAD\<rparr>) h;
          h = (if mn_next (h_minor h mnr) \<noteq> 0 then upd_minor (mn_next (h_minor h mnr)) (\<lambda>m. m\<lparr>mn_prev := mn_prev (h_minor h mnr)\<rparr>) h else h);
          h = (if mn_prev (h_minor h mnr) \<noteq> 0 then upd_minor (mn_prev (h_minor h mnr)) (\<lambda>m. m\<lparr>mn_next := mn_next (h_minor h mnr)\<rparr>) h else h)
      in if mn_prev (h_minor h mnr) = 0 then upd_major maj (\<lambda>m. m\<lparr>mj_first := mn_next (h_minor h mnr)\<rparr>) h else h)"

text \<open>A major without minors leaves the list and its pages are given back.\<close>

definition detach_major :: "int \<Rightarrow> heap \<Rightarrow> heap" where
  "detach_major maj h =
     (let h = (if l_memRoot h = maj then h\<lparr>l_memRoot := mj_next (h_major h maj)\<rparr> else h);
          h = (if l_bestBet h = maj then h\<lparr>l_bestBet := 0\<rparr> else h);
          h = (if mj_prev (h_major h maj) \<noteq> 0 then upd_major (mj_prev (h_major h maj)) (\<lambda>m. m\<lparr>mj_next := mj_next (h_major h maj)\<rparr>) h else h);
          h = (if mj_next (h_major h maj) \<noteq> 0 then upd_major (mj_next (h_major h maj)) (\<lambda>m. m\<lparr>mj_prev := mj_prev (h_major h maj)\<rparr>) h else h)
      in h\<lparr>l_allocated := l_allocated h - mj_size (h_major h maj)\<rparr>)"

definition drop_major :: "int \<Rightarrow> heap \<Rightarrow> heap option" where
  "drop_major maj h = (let h = detach_major maj h in liballoc_free maj (mj_pages (h_major h maj)) h)"

definition rebet :: "int \<Rightarrow> heap \<Rightarrow> heap" where
  "rebet maj h =
     (if l_bestBet h \<noteq> 0 \<and>
         wrap32 (mj_size (h_major h maj) - mj_usage (h_major h maj)) >
         wrap32 (mj_size (h_major h (l_bestBet h)) - mj_usage (h_major h (l_bestBet h)))
      then h\<lparr>l_bestBet := maj\<rparr> else h)"

definition free :: "int \<Rightarrow> heap \<Rightarrow> heap option" where
  "free ptr h =
     (if ptr = 0 then Some (h\<lparr>l_warningCount := l_warningCount h + 1\<rparr>)
      else do {
        h \<leftarrow> liballoc_lock h;
        let mnr = uw (ptr - SIZEOF_MINOR);
        if mn_magic (h_minor h mnr) \<noteq> LIBALLOC_MAGIC then Some (liballoc_unlock (bad_magic (mn_magic (h_minor h mnr)) h))
        else do {
          let maj = mn_block (h_minor h mnr);
          let h = unlink_minor mnr h;
          h \<leftarrow> (if mj_first (h_major h maj) = 0 then drop_major maj h else Some (rebet maj h));
          Some (liballoc_unlock h)
        }
      })"

text \<open>\<open>real_size\<close> is an \<open>int\<close>; the loop of \<open>liballoc_memset\<close> compares it unsigned.\<close>

definition calloc :: "int \<Rightarrow> int \<Rightarrow> heap \<Rightarrow> (int \<times> heap) option" where
  "calloc nobj sz h = do {
     let real_size = uw (nobj * sz);
     (p, h) \<leftarrow> malloc real_size h;
     Some (p, h\<lparr>h_bytes := liballoc_memset p 0 (nat real_size) (h_bytes h)\<rparr>)
   }"

definition realloc :: "int \<Rightarrow> int \<Rightarrow> heap \<Rightarrow> (int \<times> heap) option" where
  "realloc p sz h =
     (if sz = 0 then do { h \<leftarrow> free p h; Some (0, h) }
      else if p = 0 then malloc sz h
      else do {
        h \<leftarrow> liballoc_lock h;
        let mnr = uw (p - SIZEOF_MINOR);
        if mn_magic (h_minor h mnr) \<noteq> LIBALLOC_MAGIC then Some (0, liballoc_unlock (bad_magic (mn_magic (h_minor h mnr)) h))
        else do {
          let real_size = mn_req_size (h_minor h mnr);
          if real_size \<ge> sz then Some (p, liballoc_unlock (upd_minor mnr (\<lambda>m. m\<lparr>mn_req_size := sz\<rparr>) h))
          else do {
            (ptr, h) \<leftarrow> malloc sz (liballoc_unlock h);
            let h = h\<lparr>h_bytes := liballoc_memcpy ptr p (nat real_size) (h_bytes h)\<rparr>;
            h \<leftarrow> free p h;
            Some (ptr, h)
          }
        }
      })"

subsection \<open>Links and gaps\<close>

text \<open>
  \<open>lseg nx pv p xs e\<close>: the links visit \<open>xs\<close>, from \<open>p\<close> on the left to \<open>e\<close> on the right.
\<close>

fun lseg :: "(int \<Rightarrow> int) \<Rightarrow> (int \<Rightarrow> int) \<Rightarrow> int \<Rightarrow> int list \<Rightarrow> int \<Rightarrow> bool" where
  "lseg nx pv p [] e \<longleftrightarrow> True"
| "lseg nx pv p (x # xs) e \<longleftrightarrow> pv x = p \<and> nx x = (if xs = [] then e else hd xs) \<and> lseg nx pv x xs e"

definition hd0 :: "int list \<Rightarrow> int" where "hd0 xs = (if xs = [] then 0 else hd xs)"
definition last0 :: "int list \<Rightarrow> int" where "last0 xs = (if xs = [] then 0 else last xs)"

lemma hd0_simps [simp]: "hd0 [] = 0" "hd0 (x # xs) = x" "hd0 (xs @ ys) = (if xs = [] then hd0 ys else hd0 xs)"
  by (simp_all add: hd0_def)

lemma last0_simps [simp]: "last0 [] = 0" "last0 (xs @ [x]) = x"
  by (simp_all add: last0_def)

lemma lseg_append:
  "lseg nx pv p (xs @ ys) e \<longleftrightarrow> lseg nx pv p xs (if ys = [] then e else hd ys) \<and> lseg nx pv (if xs = [] then p else last xs) ys e"
  by (induction xs arbitrary: p) (auto simp: hd_append)

lemma lseg_frame:
  "lseg nx pv p xs e \<Longrightarrow> (\<And>x. x \<in> set xs \<Longrightarrow> nx' x = nx x \<and> pv' x = pv x) \<Longrightarrow> lseg nx' pv' p xs e"
  by (induction xs arbitrary: p) auto

lemma lseg_links:
  assumes "lseg nx pv 0 (xs @ x # ys) 0"
  shows "nx x = hd0 ys" "pv x = last0 xs"
  using assms by (auto simp: lseg_append hd0_def last0_def)

lemma lseg_insert:
  assumes l: "lseg nx pv 0 (xs @ ys) 0" and d: "distinct (xs @ ys)" "a \<notin> set (xs @ ys)"
    and nx': "\<And>x. nx' x = (if x = a then hd0 ys else if xs \<noteq> [] \<and> x = last xs then a else nx x)"
    and pv': "\<And>x. pv' x = (if x = a then last0 xs else if ys \<noteq> [] \<and> x = hd ys then a else pv x)"
  shows "lseg nx' pv' 0 (xs @ a # ys) 0"
proof -
  have left: "lseg nx' pv' 0 xs a"
  proof (cases xs rule: rev_cases)
    case (snoc ws w)
    have "lseg nx pv 0 ws w" "pv w = last0 ws" using l snoc by (auto simp: lseg_append last0_def hd_append split: if_splits)
    moreover have "ys \<noteq> [] \<Longrightarrow> hd ys \<notin> set (ws @ [w])" using d(1) snoc by (auto simp: disjoint_iff)
    ultimately show ?thesis using d snoc
      by (auto simp: lseg_append nx' pv' last0_def elim!: lseg_frame)
  qed simp
  have right: "lseg nx' pv' a ys 0"
  proof (cases ys)
    case (Cons y zs)
    have "lseg nx pv y zs 0" "nx y = hd0 zs" using l Cons by (auto simp: lseg_append hd0_def)
    moreover have "xs \<noteq> [] \<Longrightarrow> last xs \<notin> set (y # zs)" using d(1) Cons by (auto simp: disjoint_iff)
    ultimately show ?thesis using d Cons
      by (auto simp: nx' pv' hd0_def elim!: lseg_frame)
  qed simp
  show ?thesis unfolding lseg_append using left right by (auto simp: nx' pv' last0_def hd0_def)
qed

lemma lseg_delete:
  assumes l: "lseg nx pv 0 (xs @ a # ys) 0" and d: "distinct (xs @ a # ys)"
    and nx': "\<And>x. nx' x = (if x = a then na else if xs \<noteq> [] \<and> x = last xs then hd0 ys else nx x)"
    and pv': "\<And>x. pv' x = (if x = a then pa else if ys \<noteq> [] \<and> x = hd ys then last0 xs else pv x)"
  shows "lseg nx' pv' 0 (xs @ ys) 0"
proof -
  have left: "lseg nx' pv' 0 xs (hd0 ys)"
  proof (cases xs rule: rev_cases)
    case (snoc ws w)
    have "lseg nx pv 0 ws w" "pv w = last0 ws" using l snoc by (auto simp: lseg_append last0_def hd_append split: if_splits)
    moreover have "ys \<noteq> [] \<Longrightarrow> hd ys \<notin> set (ws @ [w])" using d snoc by (auto simp: disjoint_iff)
    moreover have "a \<notin> set (ws @ [w])" using d snoc by auto
    ultimately show ?thesis using d snoc
      by (auto simp: lseg_append nx' pv' last0_def elim!: lseg_frame)
  qed simp
  have right: "lseg nx' pv' (last0 xs) ys 0"
  proof (cases ys)
    case (Cons y zs)
    have "lseg nx pv y zs 0" "nx y = hd0 zs" using l Cons by (auto simp: lseg_append hd0_def)
    moreover have "xs \<noteq> [] \<Longrightarrow> last xs \<notin> set (y # zs)" using d Cons by (auto simp: disjoint_iff)
    moreover have "a \<notin> set (y # zs)" using d Cons by auto
    ultimately show ?thesis using d Cons
      by (auto simp: nx' pv' hd0_def elim!: lseg_frame)
  qed simp
  show ?thesis unfolding lseg_append using left right by (auto simp: last0_def hd0_def split: if_splits)
qed

text \<open>Minors \<open>(a, s)\<close> in order of address, headers and bytes between \<open>lo\<close> and \<open>hi\<close>.\<close>

fun packed :: "int \<Rightarrow> int \<Rightarrow> (int \<times> int) list \<Rightarrow> bool" where
  "packed lo hi [] \<longleftrightarrow> lo \<le> hi"
| "packed lo hi ((a, s) # ms) \<longleftrightarrow> lo \<le> a \<and> 0 < s \<and> packed (a + 24 + s) hi ms"

definition lower :: "int \<Rightarrow> (int \<times> int) list \<Rightarrow> int" where
  "lower lo xs = (if xs = [] then lo else fst (last xs) + 24 + snd (last xs))"

definition upper :: "int \<Rightarrow> (int \<times> int) list \<Rightarrow> int" where
  "upper hi ys = (if ys = [] then hi else fst (hd ys))"

lemma packed_append: "packed lo hi (xs @ ys) \<longleftrightarrow> packed lo (lower lo xs) xs \<and> packed (lower lo xs) hi ys"
  by (induction xs arbitrary: lo) (auto simp: lower_def)

lemma packed_bounds: "packed lo hi ms \<Longrightarrow> lo \<le> hi"
  by (induction ms arbitrary: lo) force+

lemma packed_range: "packed lo hi ms \<Longrightarrow> (a, s) \<in> set ms \<Longrightarrow> lo \<le> a \<and> 0 < s \<and> a + 24 + s \<le> hi"
proof (induction ms arbitrary: lo)
  case (Cons m ms)
  then show ?case by (cases m) (fastforce dest: packed_bounds)
qed simp

lemma packed_insert:
  assumes "packed lo hi (xs @ ys)" "0 < s" "lower lo xs + 24 + s \<le> upper hi ys"
  shows "packed lo hi (xs @ (lower lo xs, s) # ys)"
  using assms unfolding packed_append by (cases ys) (auto simp: upper_def)

lemma packed_widen: "packed lo hi ms \<Longrightarrow> lo' \<le> lo \<Longrightarrow> packed lo' hi ms"
  by (cases ms) auto

lemma packed_delete:
  assumes "packed lo hi (xs @ (a, s) # ys)"
  shows "packed lo hi (xs @ ys)"
  using assms by (auto simp: packed_append elim!: packed_widen)

lemma packed_distinct: "packed lo hi ms \<Longrightarrow> distinct (map fst ms) \<and> (\<forall>a\<in>fst ` set ms. lo \<le> a)"
proof (induction ms arbitrary: lo)
  case (Cons m ms)
  obtain a s where m: "m = (a, s)" by (cases m)
  have p: "lo \<le> a" "0 < s" "packed (a + 24 + s) hi ms" using Cons(2) m by simp_all
  from Cons(1) [OF p(3)] p(1,2) show ?case unfolding m by fastforce
qed simp

text \<open>No two of the byte ranges of a packed list meet.\<close>

lemma packed_disjoint:
  assumes "packed lo hi ms" "(a, s) \<in> set ms" "(b, t) \<in> set ms" "a \<noteq> b"
  shows "a + 24 + s \<le> b \<or> b + 24 + t \<le> a"
  using assms
proof (induction ms arbitrary: lo)
  case (Cons m ms)
  obtain c u where m: "m = (c, u)" by (cases m)
  have p: "packed (c + 24 + u) hi ms" using Cons(2) m by simp
  have "\<And>x y. (x, y) \<in> set ms \<Longrightarrow> c + 24 + u \<le> x" using packed_range [OF p] by blast
  then show ?case using Cons p m by auto
qed simp

subsection \<open>The invariant\<close>

definition major_ok :: "heap \<Rightarrow> int \<Rightarrow> bool" where
  "major_ok h M \<longleftrightarrow> 0 < M \<and> M mod 4096 = 0 \<and> 0 < mj_pages (h_major h M) \<and> M div 4096 + mj_pages (h_major h M) \<le> int MAXMAP \<and>
     mj_size (h_major h M) = 4096 * mj_pages (h_major h M)"

text \<open>The pages of a major.\<close>

definition span :: "heap \<Rightarrow> int \<Rightarrow> nat set" where
  "span h M = {nat (M div 4096)..<nat (M div 4096) + nat (mj_pages (h_major h M))}"

definition used :: "(int \<times> int) list \<Rightarrow> int" where "used ms = sum_list (map (\<lambda>m. snd m + 24) ms)"
definition payload :: "(int \<times> int) list \<Rightarrow> int" where "payload ms = sum_list (map snd ms)"

definition chunk_ok :: "heap \<Rightarrow> int \<Rightarrow> (int \<times> int) list \<Rightarrow> bool" where
  "chunk_ok h M ms \<longleftrightarrow> major_ok h M \<and> packed (M + 24) (M + mj_size (h_major h M)) ms \<and>
     lseg (\<lambda>a. mn_next (h_minor h a)) (\<lambda>a. mn_prev (h_minor h a)) 0 (map fst ms) 0 \<and>
     (\<forall>a s. (a, s) \<in> set ms \<longrightarrow> mn_magic (h_minor h a) = LIBALLOC_MAGIC \<and> mn_block (h_minor h a) = M \<and> mn_size (h_minor h a) = s \<and>
        0 < mn_req_size (h_minor h a) \<and> mn_req_size (h_minor h a) \<le> s) \<and>
     mj_first (h_major h M) = hd0 (map fst ms) \<and> mj_usage (h_major h M) = 24 + used ms"

text \<open>
  \<open>B\<close>: the majors in list order, each with its minors, which remember a request of at most their size. Majors own their pages, which are marked as used; the
  counters are exact.
\<close>

definition heap_ok :: "heap \<Rightarrow> (int \<times> (int \<times> int) list) list \<Rightarrow> bool" where
  "heap_ok h B \<longleftrightarrow> lseg (\<lambda>a. mj_next (h_major h a)) (\<lambda>a. mj_prev (h_major h a)) 0 (map fst B) 0 \<and> l_memRoot h = hd0 (map fst B) \<and>
     (l_bestBet h = 0 \<or> l_bestBet h \<in> fst ` set B) \<and> distinct (map fst B) \<and> (\<forall>M ms. (M, ms) \<in> set B \<longrightarrow> chunk_ok h M ms) \<and>
     (\<forall>M\<in>fst ` set B. \<forall>N\<in>fst ` set B. M \<noteq> N \<longrightarrow> span h M \<inter> span h N = {}) \<and>
     (\<forall>M\<in>fst ` set B. \<forall>p\<in>span h M. ISSET (h_phys h) p) \<and> ISSET (h_phys h) 0 \<and>
     l_inuse h = sum_list (map (payload \<circ> snd) B) \<and> l_allocated h = sum_list (map (\<lambda>b. mj_size (h_major h (fst b))) B)"

text \<open>Between two calls no major is empty and the lock is free.\<close>

definition heap_inv :: "heap \<Rightarrow> (int \<times> (int \<times> int) list) list \<Rightarrow> bool" where
  "heap_inv h B \<longleftrightarrow> heap_ok h B \<and> (\<forall>b\<in>set B. snd b \<noteq> []) \<and> \<not> h_lock h"

lemma uw_id [simp]: "0 \<le> x \<Longrightarrow> x < 4294967296 \<Longrightarrow> uw x = x"
  by (simp add: uw_def)

lemma sizeofs [simp]: "SIZEOF_MAJOR = 24" "SIZEOF_MINOR = 24" "l_pageSize = 4096" "l_pageCount = 16"
  by (simp_all add: SIZEOF_MAJOR_def SIZEOF_MINOR_def l_pageSize_def l_pageCount_def)

lemma upd_simps [simp]:
  "h_major (upd_major a f h) = (h_major h)(a := f (h_major h a))" "h_minor (upd_major a f h) = h_minor h"
  "h_minor (upd_minor a g h) = (h_minor h)(a := g (h_minor h a))" "h_major (upd_minor a g h) = h_major h"
  "h_phys (upd_major a f h) = h_phys h" "h_phys (upd_minor a g h) = h_phys h"
  "l_memRoot (upd_major a f h) = l_memRoot h" "l_memRoot (upd_minor a g h) = l_memRoot h"
  "l_bestBet (upd_major a f h) = l_bestBet h" "l_bestBet (upd_minor a g h) = l_bestBet h"
  "l_allocated (upd_major a f h) = l_allocated h" "l_allocated (upd_minor a g h) = l_allocated h"
  "l_inuse (upd_major a f h) = l_inuse h" "l_inuse (upd_minor a g h) = l_inuse h"
  "h_lock (upd_major a f h) = h_lock h" "h_lock (upd_minor a g h) = h_lock h"
  "h_bytes (upd_major a f h) = h_bytes h" "h_bytes (upd_minor a g h) = h_bytes h"
  by (simp_all add: upd_major_def upd_minor_def)

lemma major_okD:
  assumes "major_ok h M"
  obtains b n where "M = 4096 * b" "M div 4096 = b" "mj_pages (h_major h M) = n" "mj_size (h_major h M) = 4096 * n" "0 < b" "0 < n" "b + n \<le> 32768"
proof -
  obtain b where b: "M = 4096 * b" using assms unfolding major_ok_def by (metis dvd_def mod_0_imp_dvd)
  show thesis by (rule that [of b "mj_pages (h_major h M)"]) (use assms b in \<open>simp_all add: major_ok_def MAXMAP_def\<close>)
qed

lemma major_ok_bounds:
  assumes "major_ok h M"
  shows "4096 \<le> M" "0 < mj_size (h_major h M)" "M + mj_size (h_major h M) \<le> 134217728"
proof -
  obtain b n where "M = 4096 * b" "mj_size (h_major h M) = 4096 * n" "0 < b" "0 < n" "b + n \<le> 32768" by (rule major_okD [OF assms])
  then show "4096 \<le> M" "0 < mj_size (h_major h M)" "M + mj_size (h_major h M) \<le> 134217728" by linarith+
qed

lemma used_nonneg: "packed lo hi ms \<Longrightarrow> 0 \<le> used ms \<and> lo + used ms \<le> hi \<and> 0 \<le> payload ms"
proof (induction ms arbitrary: lo)
  case (Cons m ms)
  obtain a s where m: "m = (a, s)" by (cases m)
  have p: "lo \<le> a" "0 < s" "packed (a + 24 + s) hi ms" using Cons(2) m by simp_all
  have "used (m # ms) = s + 24 + used ms" "payload (m # ms) = s + payload ms" by (simp_all add: used_def payload_def m)
  with Cons(1) [OF p(3)] p(1,2) show ?case by linarith
qed (simp add: used_def payload_def)

lemma div_page_less: "z < 4096 * c \<Longrightarrow> z div 4096 < (c :: int)"
  using div_mult_mod_eq [of z 4096] pos_mod_sign [of 4096 z] by linarith

text \<open>The addresses of different majors do not meet.\<close>

lemma spans_apart:
  assumes "major_ok h M" "major_ok h N" "span h M \<inter> span h N = {}"
    "M \<le> x" "x < M + mj_size (h_major h M)" "N \<le> y" "y < N + mj_size (h_major h N)"
  shows "x \<noteq> y"
proof
  assume xy: "x = y"
  have page: "nat (z div 4096) \<in> span h K" if k: "major_ok h K" "K \<le> z" "z < K + mj_size (h_major h K)" for K z
  proof -
    obtain b n where m: "K = 4096 * b" "K div 4096 = b" "mj_pages (h_major h K) = n" "mj_size (h_major h K) = 4096 * n" "0 < b" "0 < n"
      by (rule major_okD [OF k(1)])
    have "z < K + 4096 * n" using k(3) unfolding m(4) .
    then have "z < 4096 * (b + n)" unfolding distrib_left m(1) [symmetric] .
    then have "z div 4096 < b + n" by (rule div_page_less)
    moreover have "4096 * b div 4096 \<le> z div 4096" by (rule zdiv_mono1) (use k(2) m(1) in simp_all)
    ultimately show ?thesis using m(2,3,5,6) unfolding span_def by (simp add: m(2,3)) linarith
  qed
  from page [OF assms(1,4,5)] page [OF assms(2,6,7)] show False using assms(3) xy by auto
qed

subsection \<open>Placing a minor\<close>

text \<open>What all four cases amount to: a new minor at \<open>a\<close> between the minors \<open>p\<close> and \<open>n\<close> (0 for none).\<close>

definition insert_minor :: "int \<Rightarrow> int \<Rightarrow> int \<Rightarrow> int \<Rightarrow> int \<Rightarrow> int \<Rightarrow> heap \<Rightarrow> heap" where
  "insert_minor M p n a sz req h = h\<lparr>
     h_minor := (\<lambda>x. if x = a then \<lparr>mn_prev = p, mn_next = n, mn_block = M, mn_magic = LIBALLOC_MAGIC, mn_size = sz, mn_req_size = req\<rparr>
       else if p \<noteq> 0 \<and> x = p then (h_minor h p)\<lparr>mn_next := a\<rparr>
       else if n \<noteq> 0 \<and> x = n then (h_minor h n)\<lparr>mn_prev := a\<rparr> else h_minor h x),
     h_major := (h_major h)(M := (h_major h M)\<lparr>mj_first := (if p = 0 then a else mj_first (h_major h M)), mj_usage := mj_usage (h_major h M) + (sz + 24)\<rparr>),
     l_inuse := l_inuse h + sz\<rparr>"

lemma insert_minor_fields [simp]:
  "h_phys (insert_minor M p n a sz req h) = h_phys h" "l_memRoot (insert_minor M p n a sz req h) = l_memRoot h"
  "l_bestBet (insert_minor M p n a sz req h) = l_bestBet h" "l_allocated (insert_minor M p n a sz req h) = l_allocated h"
  "l_inuse (insert_minor M p n a sz req h) = l_inuse h + sz" "h_lock (insert_minor M p n a sz req h) = h_lock h"
  "h_bytes (insert_minor M p n a sz req h) = h_bytes h"
  by (simp_all add: insert_minor_def)

lemma used_append: "used (xs @ ys) = used xs + used ys" "used ((a, s) # ys) = s + 24 + used ys"
  by (simp_all add: used_def)

lemma payload_append: "payload (xs @ ys) = payload xs + payload ys" "payload ((a, s) # ys) = s + payload ys"
  by (simp_all add: payload_def)

lemma last0_map: "last0 (map fst xs) = (if xs = [] then 0 else fst (last xs))" "hd0 (map fst xs) = (if xs = [] then 0 else fst (hd xs))"
  by (simp_all add: last0_def hd0_def last_map hd_map)

lemma block_insert:
  assumes b: "chunk_ok h M (xs @ ys)" and s: "0 < sz" "lower (M + 24) xs + 24 + sz \<le> upper (M + mj_size (h_major h M)) ys"
  shows "chunk_ok (insert_minor M (last0 (map fst xs)) (hd0 (map fst ys)) (lower (M + 24) xs) sz sz h) M (xs @ (lower (M + 24) xs, sz) # ys)"
proof -
  let ?a = "lower (M + 24) xs" and ?hi = "M + mj_size (h_major h M)"
  let ?h = "insert_minor M (last0 (map fst xs)) (hd0 (map fst ys)) ?a sz sz h"
  have B: "major_ok h M" "packed (M + 24) ?hi (xs @ ys)" "mj_usage (h_major h M) = 24 + used (xs @ ys)" "mj_first (h_major h M) = hd0 (map fst (xs @ ys))"
    "lseg (\<lambda>a. mn_next (h_minor h a)) (\<lambda>a. mn_prev (h_minor h a)) 0 (map fst xs @ map fst ys) 0"
    "\<And>a s. (a, s) \<in> set (xs @ ys) \<Longrightarrow> mn_magic (h_minor h a) = LIBALLOC_MAGIC \<and> mn_block (h_minor h a) = M \<and> mn_size (h_minor h a) = s \<and> 0 < mn_req_size (h_minor h a) \<and> mn_req_size (h_minor h a) \<le> s"
    using b unfolding chunk_ok_def map_append by blast+
  have P: "packed (M + 24) ?hi (xs @ (?a, sz) # ys)" by (rule packed_insert [OF B(2) s])
  then have d: "distinct (map fst (xs @ (?a, sz) # ys))" "\<forall>x\<in>fst ` set (xs @ (?a, sz) # ys). M + 24 \<le> x" using packed_distinct by blast+
  then have fr: "?a \<notin> set (map fst xs @ map fst ys)" "distinct (map fst xs @ map fst ys)" by auto
  have pos: "0 < x" if "x \<in> fst ` set (xs @ ys)" for x using d(2) that major_ok_bounds(1) [OF B(1)] by force
  have nz: "xs \<noteq> [] \<Longrightarrow> fst (last xs) \<noteq> 0" "ys \<noteq> [] \<Longrightarrow> fst (hd ys) \<noteq> 0"
    using pos [of "fst (last xs)"] pos [of "fst (hd ys)"] last_in_set [of xs] hd_in_set [of ys] by force+
  have ne: "fst (last xs) \<noteq> fst (hd ys)" if "xs \<noteq> []" "ys \<noteq> []"
  proof -
    have "fst (last xs) \<in> set (map fst xs)" "fst (hd ys) \<in> set (map fst ys)" using that by simp_all
    moreover have "set (map fst xs) \<inter> set (map fst ys) = {}" using fr(2) by (simp only: distinct_append)
    ultimately show ?thesis by (metis disjoint_iff)
  qed
  have "lseg (\<lambda>a. mn_next (h_minor ?h a)) (\<lambda>a. mn_prev (h_minor ?h a)) 0 (map fst xs @ ?a # map fst ys) 0"
    by (rule lseg_insert [OF B(5) fr(2,1)])
      (use nz ne fr(1) in \<open>auto simp: insert_minor_def last0_map last_map hd_map\<close>)
  moreover have "mn_magic (h_minor ?h a) = LIBALLOC_MAGIC \<and> mn_block (h_minor ?h a) = M \<and> mn_size (h_minor ?h a) = s \<and> 0 < mn_req_size (h_minor ?h a) \<and> mn_req_size (h_minor ?h a) \<le> s"
    if m: "(a, s) \<in> set (xs @ (?a, sz) # ys)" for a s
  proof (cases "a = ?a")
    case True
    then have "s = sz" using m fr(1) by force
    then show ?thesis using True s(1) by (simp add: insert_minor_def)
  next
    case False
    then show ?thesis using B(6) [of a s] m by (auto simp: insert_minor_def)
  qed
  moreover have "mj_first (h_major ?h M) = hd0 (map fst (xs @ (?a, sz) # ys))"
    using B(4) nz by (auto simp: insert_minor_def last0_map)
  moreover have "major_ok ?h M" "mj_size (h_major ?h M) = mj_size (h_major h M)" "mj_usage (h_major ?h M) = 24 + used (xs @ (?a, sz) # ys)"
    using B(1,3) by (simp_all add: insert_minor_def major_ok_def used_append)
  ultimately show ?thesis using P by (simp add: chunk_ok_def)
qed

text \<open>A block may change inside its own addresses.\<close>

lemma block_frame:
  assumes "chunk_ok h M ms" "h_major h' M = (h_major h M)\<lparr>mj_prev := pv, mj_next := nx\<rparr>"
    and "\<And>x. M \<le> x \<Longrightarrow> x < M + mj_size (h_major h M) \<Longrightarrow> h_minor h' x = h_minor h x"
  shows "chunk_ok h' M ms"
proof -
  have B: "major_ok h M" "packed (M + 24) (M + mj_size (h_major h M)) ms" using assms(1) by (simp_all add: chunk_ok_def)
  have same: "h_minor h' a = h_minor h a" if "(a, s) \<in> set ms" for a s
    by (rule assms(3)) (use packed_range [OF B(2) that] in simp_all)
  have "lseg (\<lambda>a. mn_next (h_minor h' a)) (\<lambda>a. mn_prev (h_minor h' a)) 0 (map fst ms) 0"
    by (rule lseg_frame [of "\<lambda>a. mn_next (h_minor h a)" "\<lambda>a. mn_prev (h_minor h a)"]) (use assms(1) same in \<open>auto simp: chunk_ok_def\<close>)
  moreover have "(a, s) \<in> set ms \<Longrightarrow> mn_magic (h_minor h' a) = LIBALLOC_MAGIC \<and> mn_block (h_minor h' a) = M \<and> mn_size (h_minor h' a) = s \<and> 0 < mn_req_size (h_minor h' a) \<and> mn_req_size (h_minor h' a) \<le> s" for a s
    using assms(1) same [of a s] by (simp add: chunk_ok_def)
  moreover have "major_ok h' M" using B(1) assms(2) by (simp add: major_ok_def)
  ultimately show ?thesis using assms(1,2) unfolding chunk_ok_def by simp
qed

lemma heap_block_update:
  assumes ok: "heap_ok h (X @ (M, ms) # Y)" and b: "chunk_ok h' M ms'"
    and maj: "\<And>N. N \<noteq> M \<Longrightarrow> h_major h' N = h_major h N" "mj_prev (h_major h' M) = mj_prev (h_major h M)" "mj_next (h_major h' M) = mj_next (h_major h M)"
      "mj_pages (h_major h' M) = mj_pages (h_major h M)" "mj_size (h_major h' M) = mj_size (h_major h M)"
    and mnr: "\<And>x. \<not> (M \<le> x \<and> x < M + mj_size (h_major h M)) \<Longrightarrow> h_minor h' x = h_minor h x"
    and same: "h_phys h' = h_phys h" "l_memRoot h' = l_memRoot h" "l_bestBet h' = l_bestBet h" "l_allocated h' = l_allocated h"
      "l_inuse h' = l_inuse h - payload ms + payload ms'"
  shows "heap_ok h' (X @ (M, ms') # Y)"
proof -
  let ?B = "X @ (M, ms) # Y" and ?B' = "X @ (M, ms') # Y"
  have f: "map fst ?B' = map fst ?B" "fst ` set ?B' = fst ` set ?B" by simp_all
  have H: "distinct (map fst ?B)" "\<And>N ns. (N, ns) \<in> set ?B \<Longrightarrow> chunk_ok h N ns"
    "\<And>N K. N \<in> fst ` set ?B \<Longrightarrow> K \<in> fst ` set ?B \<Longrightarrow> N \<noteq> K \<Longrightarrow> span h N \<inter> span h K = {}"
    using ok unfolding heap_ok_def by blast+
  have mf: "mj_prev (h_major h' N) = mj_prev (h_major h N)" "mj_next (h_major h' N) = mj_next (h_major h N)"
    "mj_pages (h_major h' N) = mj_pages (h_major h N)" "mj_size (h_major h' N) = mj_size (h_major h N)" for N
    using maj by (cases "N = M"; simp)+
  have sp: "span h' N = span h N" for N by (simp add: span_def mf)
  have "chunk_ok h' N ns" if N: "(N, ns) \<in> set ?B'" for N ns
  proof (cases "N = M")
    case True
    then have "ns = ms'" using N H(1) by (force simp: image_iff)
    then show ?thesis using b True by simp
  next
    case False
    then have in_B: "(N, ns) \<in> set ?B" "(M, ms) \<in> set ?B" using N by auto
    have ok2: "major_ok h N" "major_ok h M" using H(2) [OF in_B(1)] H(2) [OF in_B(2)] by (simp_all add: chunk_ok_def)
    have dj: "span h N \<inter> span h M = {}" by (rule H(3)) (use in_B False in \<open>force+\<close>)
    show ?thesis
    proof (rule block_frame [OF H(2) [OF in_B(1)], where pv = "mj_prev (h_major h N)" and nx = "mj_next (h_major h N)"])
      show "h_minor h' x = h_minor h x" if "N \<le> x" "x < N + mj_size (h_major h N)" for x
        using mnr [of x] spans_apart [OF ok2 dj that, of x] by blast
    qed (use maj(1) [OF False] in simp)
  qed
  moreover have "l_inuse h' = sum_list (map (payload \<circ> snd) ?B')" using ok same(5) by (simp add: heap_ok_def)
  ultimately show ?thesis
    using ok unfolding heap_ok_def f mf sp same(1-4) by (simp add: mf)
qed

lemma heap_okD:
  assumes "heap_ok h (X @ (M, ms) # Y)"
  shows "chunk_ok h M ms" "major_ok h M" "packed (M + 24) (M + mj_size (h_major h M)) ms" "mj_first (h_major h M) = hd0 (map fst ms)"
    "mj_usage (h_major h M) = 24 + used ms" "mj_next (h_major h M) = hd0 (map fst Y)" "mj_prev (h_major h M) = last0 (map fst X)"
proof -
  show b: "chunk_ok h M ms" using assms by (simp add: heap_ok_def)
  then show "major_ok h M" "packed (M + 24) (M + mj_size (h_major h M)) ms" "mj_first (h_major h M) = hd0 (map fst ms)"
    "mj_usage (h_major h M) = 24 + used ms" by (simp_all add: chunk_ok_def)
  have "lseg (\<lambda>a. mj_next (h_major h a)) (\<lambda>a. mj_prev (h_major h a)) 0 (map fst X @ M # map fst Y) 0" using assms by (simp add: heap_ok_def)
  from lseg_links [OF this] show "mj_next (h_major h M) = hd0 (map fst Y)" "mj_prev (h_major h M) = last0 (map fst X)" by simp_all
qed

lemma heap_insert:
  assumes ok: "heap_ok h (X @ (M, xs @ ys) # Y)" and s: "0 < sz" "lower (M + 24) xs + 24 + sz \<le> upper (M + mj_size (h_major h M)) ys"
  shows "heap_ok (insert_minor M (last0 (map fst xs)) (hd0 (map fst ys)) (lower (M + 24) xs) sz sz h) (X @ (M, xs @ (lower (M + 24) xs, sz) # ys) # Y)"
proof -
  let ?a = "lower (M + 24) xs" and ?hi = "M + mj_size (h_major h M)"
  let ?h = "insert_minor M (last0 (map fst xs)) (hd0 (map fst ys)) ?a sz sz h"
  note D = heap_okD [OF ok]
  have P: "packed (M + 24) ?hi (xs @ (?a, sz) # ys)" by (rule packed_insert [OF D(3) s])
  have r: "M \<le> x \<and> x < ?hi" if "x \<in> fst ` set (xs @ (?a, sz) # ys)" for x
    using that packed_range [OF P] by fastforce
  have ends: "xs \<noteq> [] \<Longrightarrow> fst (last xs) \<in> fst ` set (xs @ (?a, sz) # ys)" "ys \<noteq> [] \<Longrightarrow> fst (hd ys) \<in> fst ` set (xs @ (?a, sz) # ys)" by auto
  show ?thesis
  proof (rule heap_block_update [OF ok block_insert [OF D(1) s]])
    fix x assume "\<not> (M \<le> x \<and> x < ?hi)"
    then have "x \<notin> fst ` set (xs @ (?a, sz) # ys)" using r by blast
    moreover from this have "xs \<noteq> [] \<Longrightarrow> x \<noteq> fst (last xs)" "ys \<noteq> [] \<Longrightarrow> x \<noteq> fst (hd ys)" using ends by blast+
    ultimately show "h_minor ?h x = h_minor h x" by (simp add: insert_minor_def last0_map)
  qed (simp_all add: insert_minor_def payload_append)
qed

lemma usage_bounds:
  assumes "chunk_ok h M ms"
  shows "24 \<le> mj_usage (h_major h M)" "mj_usage (h_major h M) \<le> mj_size (h_major h M)"
proof -
  have "packed (M + 24) (M + mj_size (h_major h M)) ms" "mj_usage (h_major h M) = 24 + used ms" using assms by (simp_all add: chunk_ok_def)
  with used_nonneg [of "M + 24" "M + mj_size (h_major h M)" ms]
  show "24 \<le> mj_usage (h_major h M)" "mj_usage (h_major h M) \<le> mj_size (h_major h M)" by simp_all
qed

lemma place_only_eq:
  assumes "chunk_ok h M []" "0 < sz" "sz < 2 ^ 30"
  shows "place_only M sz sz h = (M + 48, insert_minor M 0 0 (M + 24) sz sz h)"
proof -
  have b: "major_ok h M" "mj_usage (h_major h M) = 24" using assms(1) by (simp_all add: chunk_ok_def used_def)
  note m = major_ok_bounds [OF b(1)]
  have "uw (M + 24) = M + 24" "bytes_of (M + 24) = M + 48" "uw (24 + (sz + 24)) = 24 + (sz + 24)" using m assms(2,3) by (simp_all add: bytes_of_def)
  then show ?thesis using b(2)
    by (cases "h_minor h (M + 24)") (simp add: place_only_def insert_minor_def count_block_def upd_major_def upd_minor_def Let_def fun_eq_iff)
qed

lemma place_front_eq:
  assumes b: "chunk_ok h M ys" and ys: "ys \<noteq> []" "0 < sz" "sz < 2 ^ 30" "M + 48 + sz \<le> fst (hd ys)"
  shows "place_front M sz sz h = (M + 48, insert_minor M 0 (fst (hd ys)) (M + 24) sz sz h)"
proof -
  have m: "major_ok h M" "mj_first (h_major h M) = fst (hd ys)" using b ys(1) by (simp_all add: chunk_ok_def last0_map)
  note mb = major_ok_bounds [OF m(1)] usage_bounds [OF b]
  have "uw (M + 24) = M + 24" "bytes_of (M + 24) = M + 48" "uw (mj_usage (h_major h M) + (sz + 24)) = mj_usage (h_major h M) + (sz + 24)"
    using mb ys(2,3) by (simp_all add: bytes_of_def)
  moreover have "fst (hd ys) \<noteq> M + 24" "fst (hd ys) \<noteq> 0" using ys mb(1) by linarith+
  ultimately show ?thesis using m(2)
    by (cases "h_minor h (M + 24)") (simp add: place_front_def insert_minor_def count_block_def upd_major_def upd_minor_def Let_def fun_eq_iff)
qed

lemma block_minor:
  assumes b: "chunk_ok h M (xs @ (m, s) # ys)"
  shows "mn_size (h_minor h m) = s" "mn_next (h_minor h m) = hd0 (map fst ys)" "mn_prev (h_minor h m) = last0 (map fst xs)" "mn_block (h_minor h m) = M"
    "mn_magic (h_minor h m) = LIBALLOC_MAGIC" "M + 24 \<le> m" "0 < s" "m + 24 + s \<le> upper (M + mj_size (h_major h M)) ys"
    "upper (M + mj_size (h_major h M)) ys \<le> 134217728" "4096 \<le> M"
proof -
  let ?hi = "M + mj_size (h_major h M)"
  have B: "major_ok h M" "packed (M + 24) ?hi (xs @ (m, s) # ys)"
    "lseg (\<lambda>a. mn_next (h_minor h a)) (\<lambda>a. mn_prev (h_minor h a)) 0 (map fst xs @ m # map fst ys) 0"
    using b by (simp_all add: chunk_ok_def)
  show "mn_size (h_minor h m) = s" "mn_block (h_minor h m) = M" "mn_magic (h_minor h m) = LIBALLOC_MAGIC"
    using b unfolding chunk_ok_def by simp_all
  show "mn_next (h_minor h m) = hd0 (map fst ys)" "mn_prev (h_minor h m) = last0 (map fst xs)" using lseg_links [OF B(3)] by simp_all
  have "packed (m + 24 + s) ?hi ys" "lower (M + 24) xs \<le> m" "0 < s" "M + 24 \<le> lower (M + 24) xs"
    using B(2) packed_bounds [of "M + 24" "lower (M + 24) xs" xs] by (simp_all add: packed_append)
  then show "M + 24 \<le> m" "0 < s" "m + 24 + s \<le> upper ?hi ys" by (simp_all, cases ys) (auto simp: upper_def)
  have "ys \<noteq> [] \<Longrightarrow> fst (hd ys) \<le> ?hi"
    using packed_range [OF B(2), of "fst (hd ys)" "snd (hd ys)"] by (cases ys) auto
  then show "upper ?hi ys \<le> 134217728" using major_ok_bounds(3) [OF B(1)] by (cases "ys = []") (simp_all add: upper_def)
  show "4096 \<le> M" by (rule major_ok_bounds(1) [OF B(1)])
qed

lemma place_last_eq:
  assumes b: "chunk_ok h M (xs @ [(m, s)])" and fit: "0 < sz" "m + 24 + s + 24 + sz \<le> M + mj_size (h_major h M)"
  shows "place_last M m sz sz h = (m + 24 + s + 24, insert_minor M m 0 (m + 24 + s) sz sz h)"
proof -
  note B = block_minor [OF b]
  have hi: "upper (M + mj_size (h_major h M)) [] = M + mj_size (h_major h M)" by (simp add: upper_def)
  have e: "uw (m + 24 + s) = m + 24 + s" "bytes_of (m + 24 + s) = m + 24 + s + 24" "m \<noteq> 0" "m + 24 + s \<noteq> m"
    "uw (mj_usage (h_major h M) + (sz + 24)) = mj_usage (h_major h M) + (sz + 24)"
    using B(6-10) fit usage_bounds [OF b] unfolding hi by (simp_all add: bytes_of_def)
  then show ?thesis using B(1)
    by (cases "h_minor h (m + 24 + s)") (simp add: place_last_def insert_minor_def count_block_def upd_major_def upd_minor_def Let_def fun_eq_iff)
qed

lemma place_between_eq:
  assumes b: "chunk_ok h M (xs @ (m, s) # (n, t) # ys)" and fit: "0 < sz" "m + 24 + s + 24 + sz \<le> n"
  shows "place_between M m sz sz h = (m + 24 + s + 24, insert_minor M m n (m + 24 + s) sz sz h)"
proof -
  note B = block_minor [OF b]
  have hi: "upper (M + mj_size (h_major h M)) ((n, t) # ys) = n" by (simp add: upper_def)
  have "mj_size (h_major h M) \<le> 134217728" using b major_ok_bounds [of h M] by (simp add: chunk_ok_def)
  then have e: "uw (m + 24 + s) = m + 24 + s" "bytes_of (m + 24 + s) = m + 24 + s + 24" "m \<noteq> 0" "m + 24 + s \<noteq> m" "n \<noteq> m" "n \<noteq> m + 24 + s" "n \<noteq> 0"
    "uw (mj_usage (h_major h M) + (sz + 24)) = mj_usage (h_major h M) + (sz + 24)"
    using B(6-10) fit usage_bounds [OF b] unfolding hi by (simp_all add: bytes_of_def)
  then show ?thesis using B(1,2)
    by (cases "h_minor h (m + 24 + s)") (simp add: place_between_def insert_minor_def count_block_def upd_major_def upd_minor_def Let_def fun_eq_iff)
qed

text \<open>A gap of the major \<open>M\<close> with minors \<open>ms\<close> that holds a block of \<open>sz\<close> bytes, and the block put there.\<close>

definition placed :: "heap \<Rightarrow> int \<Rightarrow> (int \<times> int) list \<Rightarrow> int \<Rightarrow> int \<Rightarrow> heap \<Rightarrow> bool" where
  "placed h M ms sz p h' \<longleftrightarrow> (\<exists>xs ys. ms = xs @ ys \<and> lower (M + 24) xs + 24 + sz \<le> upper (M + mj_size (h_major h M)) ys \<and>
     p = lower (M + 24) xs + 24 \<and> h' = insert_minor M (last0 (map fst xs)) (hd0 (map fst ys)) (lower (M + 24) xs) sz sz h)"

lemma placedI:
  assumes "ms = xs @ ys" "a = lower (M + 24) xs" "a + 24 + sz \<le> upper (M + mj_size (h_major h M)) ys" "p = last0 (map fst xs)" "n = hd0 (map fst ys)"
  shows "placed h M ms sz (a + 24) (insert_minor M p n a sz sz h)"
  using assms unfolding placed_def by blast

lemma scan_minors_ok:
  assumes b: "chunk_ok h M (xs @ ys)" and sz: "0 < sz" "sz < 2 ^ 30"
  shows "scan_minors M sz sz h (hd0 (map fst ys)) = Some (None, h) \<or>
    (\<exists>p h'. scan_minors M sz sz h (hd0 (map fst ys)) = Some (Some p, h') \<and> placed h M (xs @ ys) sz p h')"
  using b
proof (induction ys arbitrary: xs)
  case Nil
  then show ?case by (subst scan_minors.simps) simp
next
  case (Cons y ys)
  obtain m s where y: "y = (m, s)" by (cases y)
  have b: "chunk_ok h M (xs @ (m, s) # ys)" using Cons(2) y by simp
  note B = block_minor [OF b]
  let ?gap = "upper (M + mj_size (h_major h M)) ys - m - 24 - s"
  have gap: "uw ?gap = ?gap" "uw (sz + 24) = sz + 24" using B(6-10) sz by simp_all
  have "placed h M (xs @ y # ys) sz (m + 24 + s + 24) (insert_minor M m (hd0 (map fst ys)) (m + 24 + s) sz sz h)"
    if "sz + 24 \<le> ?gap"
    by (rule placedI [of _ "xs @ [(m, s)]" ys]) (use that y in \<open>simp_all add: lower_def\<close>)
  moreover have "scan_minors M sz sz h m =
    (if sz + 24 \<le> ?gap then Some (Some (m + 24 + s + 24), insert_minor M m (hd0 (map fst ys)) (m + 24 + s) sz sz h)
     else scan_minors M sz sz h (hd0 (map fst ys)))"
  proof (cases ys)
    case Nil
    then have g: "?gap = M + mj_size (h_major h M) - m - 24 - s" by (simp add: upper_def)
    have bl: "chunk_ok h M (xs @ [(m, s)])" using b Nil by simp
    show ?thesis using B(1,2,6,10) gap sz Nil place_last_eq [OF bl sz(1)] unfolding g
      by (subst scan_minors.simps) (simp add: Let_def)
  next
    case (Cons z zs)
    obtain n t where z: "z = (n, t)" by (cases z)
    have g: "?gap = n - m - 24 - s" using Cons z by (simp add: upper_def)
    have bl: "chunk_ok h M (xs @ (m, s) # (n, t) # zs)" using b Cons z by simp
    have "n \<noteq> 0" using block_minor(6,10) [of h M "xs @ [(m, s)]" n t zs] bl by simp
    then show ?thesis using B(1,2,6,10) gap sz Cons z place_between_eq [OF bl sz(1)] unfolding g
      by (subst scan_minors.simps) (simp add: Let_def)
  qed
  ultimately show ?case using Cons(1) [of "xs @ [y]"] Cons(2) y by auto
qed

subsection \<open>A new major\<close>

definition new_header :: "int \<Rightarrow> liballoc_major" where
  "new_header n = \<lparr>mj_prev = 0, mj_next = 0, mj_pages = n, mj_size = 4096 * n, mj_usage = 24, mj_first = 0\<rparr>"

text \<open>A run of pages that were free, with room for a block of \<open>sz\<close> bytes.\<close>

definition got_pages :: "heap \<Rightarrow> int \<Rightarrow> int \<Rightarrow> int \<Rightarrow> physmem \<Rightarrow> bool" where
  "got_pages h sz N n ph \<longleftrightarrow> (\<exists>b. N = 4096 * int b \<and> 0 < b \<and> 0 < n \<and> int b + n \<le> int MAXMAP \<and> sz + 48 \<le> 4096 * n \<and>
     (\<forall>p. b \<le> p \<and> p < b + nat n \<longrightarrow> \<not> ISSET (h_phys h) p) \<and> (\<forall>p. ISSET ph p \<longleftrightarrow> ISSET (h_phys h) p \<or> b \<le> p \<and> p < b + nat n))"

text \<open>The pages a new major for a block of \<open>sz\<close> bytes takes, and that there are none.\<close>

definition pages_for :: "int \<Rightarrow> int" where
  "pages_for sz = (let st = (if (sz + 48) mod 4096 = 0 then (sz + 48) div 4096 else (sz + 48) div 4096 + 1) in if st < 16 then 16 else st)"

definition no_pages :: "int \<Rightarrow> physmem \<Rightarrow> bool" where
  "no_pages sz ph \<longleftrightarrow> memory_alloc ph (pages_for sz) = Some (0, ph)"

lemma liballoc_alloc_ok:
  assumes "ISSET (h_phys h) 0" "0 < n" "sz + 48 \<le> 4096 * n"
  shows "liballoc_alloc n h = Some (0, h) \<and> memory_alloc (h_phys h) n = Some (0, h_phys h) \<or> (\<exists>N ph. liballoc_alloc n h = Some (N, h\<lparr>h_phys := ph\<rparr>) \<and> N \<noteq> 0 \<and> got_pages h sz N n ph)"
proof -
  obtain a ph where ma: "memory_alloc (h_phys h) n = Some (a, ph)" using assms(2) by (cases "memory_alloc (h_phys h) n") (auto simp: memory_alloc_def)
  show ?thesis
  proof (rule memory_alloc_cases [OF assms(2) ma])
    assume "a = 0" "ph = h_phys h"
    then show ?thesis using ma by (simp add: liballoc_alloc_def)
  next
    fix b assume b: "a = of_nat (b * PAGE_SIZE)" "unat a = b * PAGE_SIZE" "took (h_phys h) b (nat n) ph"
    have u: "uint a = 4096 * int b" using b(2) by (simp add: PAGE_SIZE_def uint_nat)
    have t: "b + nat n \<le> MAXMAP" "\<forall>p. b \<le> p \<and> p < b + nat n \<longrightarrow> \<not> ISSET (h_phys h) p"
      "\<forall>p. ISSET ph p \<longleftrightarrow> ISSET (h_phys h) p \<or> b \<le> p \<and> p < b + nat n" using b(3) by (auto simp: took_def)
    have b0: "b \<noteq> 0"
    proof
      assume "b = 0"
      then show False using t(2) [rule_format, of 0] assms(1,2) by simp
    qed
    have "got_pages h sz (uint a) n ph"
      unfolding got_pages_def by (rule exI [of _ b]) (use u b0 t assms(2,3) in auto)
    moreover have "uint a \<noteq> 0" using u b0 by simp
    ultimately show ?thesis using ma by (auto simp: liballoc_alloc_def)
  qed
qed

lemma allocate_new_page_ok:
  assumes "ISSET (h_phys h) 0" "0 < sz" "sz < 2 ^ 30"
  shows "allocate_new_page sz h = Some (0, h\<lparr>l_warningCount := l_warningCount h + 1\<rparr>) \<and> no_pages sz (h_phys h) \<or>
    (\<exists>N n ph. allocate_new_page sz h = Some (N, (upd_major N (\<lambda>_. new_header n) (h\<lparr>h_phys := ph\<rparr>))\<lparr>l_allocated := l_allocated h + 4096 * n\<rparr>) \<and>
       N \<noteq> 0 \<and> got_pages h sz N n ph)"
proof -
  define st where "st = pages_for sz"
  have split: "(sz + 48) div 4096 * 4096 + (sz + 48) mod 4096 = sz + 48" "(sz + 48) mod 4096 < 4096" "0 \<le> (sz + 48) mod 4096"
    by (rule div_mult_mod_eq) simp_all
  have st: "0 < st" "sz + 48 \<le> 4096 * st" "st < 1048576" using split assms(2,3) by (auto simp: st_def pages_for_def Let_def split: if_splits)
  have u: "uw (uw (sz + 24) + 24) = sz + 48" "uw (st * 4096) = 4096 * st" using assms(2,3) st by simp_all
  have ap: "allocate_new_page sz h = do {
     (maj, h) \<leftarrow> liballoc_alloc st h;
     if maj = 0 then Some (0, h\<lparr>l_warningCount := l_warningCount h + 1\<rparr>)
     else Some (maj, (upd_major maj (\<lambda>_. new_header st) h)\<lparr>l_allocated := l_allocated h + 4096 * st\<rparr>) }"
    unfolding allocate_new_page_def sizeofs u Let_def st_def [unfolded pages_for_def Let_def, symmetric] by (simp add: new_header_def u(2) cong: if_cong)
  from liballoc_alloc_ok [OF assms(1) st(1,2)] show ?thesis unfolding ap no_pages_def st_def by auto
qed

lemma got_pagesD:
  assumes "got_pages h sz N n ph" "mj_pages (h_major h' N) = n" "mj_size (h_major h' N) = 4096 * n"
  shows "major_ok h' N" "N \<noteq> 0" "sz + 48 \<le> 4096 * n" "\<And>p. p \<in> span h' N \<Longrightarrow> \<not> ISSET (h_phys h) p \<and> ISSET ph p"
    "\<And>p. ISSET (h_phys h) p \<Longrightarrow> ISSET ph p"
  using assms by (auto simp: got_pages_def major_ok_def span_def)

text \<open>The new major \<open>N\<close> is the last of the list; \<open>L\<close> was, or is 0.\<close>

lemma heap_extend:
  assumes ok: "heap_ok h B" and got: "got_pages h sz N n ph"
    and h': "\<And>K. h_major h' K = (if K = N then (new_header n)\<lparr>mj_prev := last0 (map fst B)\<rparr>
        else if B \<noteq> [] \<and> K = fst (last B) then (h_major h K)\<lparr>mj_next := N\<rparr> else h_major h K)" "h_minor h' = h_minor h"
      "h_phys h' = ph" "l_memRoot h' = (if B = [] then N else l_memRoot h)" "l_bestBet h' = l_bestBet h" "l_inuse h' = l_inuse h" "l_allocated h' = l_allocated h + 4096 * n"
  shows "heap_ok h' (B @ [(N, [])])"
proof -
  let ?B = "B @ [(N, [])]"
  have H: "lseg (\<lambda>a. mj_next (h_major h a)) (\<lambda>a. mj_prev (h_major h a)) 0 (map fst B) 0" "distinct (map fst B)"
    "\<And>M ms. (M, ms) \<in> set B \<Longrightarrow> chunk_ok h M ms" "\<And>M p. M \<in> fst ` set B \<Longrightarrow> p \<in> span h M \<Longrightarrow> ISSET (h_phys h) p"
    "\<And>M K. M \<in> fst ` set B \<Longrightarrow> K \<in> fst ` set B \<Longrightarrow> M \<noteq> K \<Longrightarrow> span h M \<inter> span h K = {}"
    "l_memRoot h = hd0 (map fst B)" "l_bestBet h = 0 \<or> l_bestBet h \<in> fst ` set B" "ISSET (h_phys h) 0"
    "l_inuse h = sum_list (map (payload \<circ> snd) B)" "l_allocated h = sum_list (map (\<lambda>b. mj_size (h_major h (fst b))) B)"
    using ok unfolding heap_ok_def by blast+
  have N: "mj_pages (h_major h' N) = n" "mj_size (h_major h' N) = 4096 * n" "mj_usage (h_major h' N) = 24" "mj_first (h_major h' N) = 0"
    by (simp_all add: h'(1) new_header_def)
  note G = got_pagesD [OF got N(1,2)]
  have fresh: "N \<notin> fst ` set B"
  proof
    assume n: "N \<in> fst ` set B"
    then obtain ms where "chunk_ok h N ms" using H(3) by force
    then have "major_ok h N" by (simp add: chunk_ok_def)
    then have "nat (N div 4096) \<in> span h N" by (auto simp: major_ok_def span_def)
    then have "ISSET (h_phys h) (nat (N div 4096))" by (rule H(4) [OF n])
    moreover have "nat (N div 4096) \<in> span h' N" using G(1) by (auto simp: major_ok_def span_def)
    ultimately show False using G(4) by blast
  qed
  have mj: "mj_prev (h_major h' M) = mj_prev (h_major h M)" "mj_pages (h_major h' M) = mj_pages (h_major h M)" "mj_size (h_major h' M) = mj_size (h_major h M)"
    if "M \<in> fst ` set B" for M using that fresh by (auto simp: h'(1))
  have sp: "span h' M = span h M" if "M \<in> fst ` set B" for M using mj [OF that] by (simp add: span_def)
  have "chunk_ok h' M ms" if "(M, ms) \<in> set ?B" for M ms
  proof (cases "M = N")
    case True
    then have "ms = []" using that fresh by force
    then show ?thesis using True G(1,3) N major_ok_bounds(2) [OF G(1)] by (auto simp: chunk_ok_def used_def major_ok_def)
  next
    case False
    then have m: "(M, ms) \<in> set B" using that by auto
    show ?thesis
      by (rule block_frame [OF H(3) [OF m], where pv = "mj_prev (h_major h M)" and nx = "mj_next (h_major h' M)"]) (use False in \<open>simp_all add: h'\<close>)
  qed
  moreover have "lseg (\<lambda>a. mj_next (h_major h' a)) (\<lambda>a. mj_prev (h_major h' a)) 0 (map fst B @ N # []) 0"
    by (rule lseg_insert [of "\<lambda>a. mj_next (h_major h a)" "\<lambda>a. mj_prev (h_major h a)"])
      (use H(1,2) fresh in \<open>auto simp: h'(1) new_header_def last_map last0_map\<close>)
  moreover have "distinct (map fst ?B)" using H(2) fresh by auto
  moreover have "span h' M \<inter> span h' K = {}" if mk: "M \<in> fst ` set ?B" "K \<in> fst ` set ?B" "M \<noteq> K" for M K
  proof -
    have "span h' M \<inter> span h' N = {}" if "M \<in> fst ` set B" for M using G(4) H(4) [OF that] sp [OF that] by blast
    then show ?thesis using mk H(5) [of M K] sp by (cases "M = N"; cases "K = N") auto
  qed
  moreover have "ISSET (h_phys h') p" if "M \<in> fst ` set ?B" "p \<in> span h' M" for M p
    using that G(4,5) H(4) [of M p] sp [of M] h'(3) by (cases "M = N") auto
  moreover have "map (\<lambda>b. mj_size (h_major h' (fst b))) B = map (\<lambda>b. mj_size (h_major h (fst b))) B" using mj(3) by simp
  then have "sum_list (map (\<lambda>b. mj_size (h_major h' (fst b))) B) = l_allocated h" unfolding H(10) by (rule arg_cong)
  then have "l_allocated h' = sum_list (map (\<lambda>b. mj_size (h_major h' (fst b))) ?B)" using h'(7) N(2) by simp
  moreover have "l_memRoot h' = hd0 (map fst ?B)" "l_bestBet h' = 0 \<or> l_bestBet h' \<in> fst ` set ?B" "ISSET (h_phys h') 0"
    "l_inuse h' = sum_list (map (payload \<circ> snd) ?B)" using H(6-9) h'(3-6) G(5) by (auto simp: payload_def)
  ultimately show ?thesis unfolding heap_ok_def by simp
qed

subsection \<open>Blocks handed out\<close>

text \<open>The blocks in use: the address of the bytes and their number.\<close>

definition live :: "(int \<times> (int \<times> int) list) list \<Rightarrow> (int \<times> int) set" where
  "live B = {(a + 24, s) | a s. \<exists>M ms. (M, ms) \<in> set B \<and> (a, s) \<in> set ms}"

lemma live_simps [simp]: "live [] = {}" "live (B @ C) = live B \<union> live C" "live ((M, ms) # B) = (\<lambda>(a, s). (a + 24, s)) ` set ms \<union> live B"
  by (auto simp: live_def)

lemma live_iff: "(p, s) \<in> live B \<longleftrightarrow> (\<exists>M ms. (M, ms) \<in> set B \<and> (p - 24, s) \<in> set ms)"
proof
  assume "\<exists>M ms. (M, ms) \<in> set B \<and> (p - 24, s) \<in> set ms"
  then show "(p, s) \<in> live B" unfolding live_def by (intro CollectI exI [of _ "p - 24"] exI [of _ s]) simp
next
  assume "(p, s) \<in> live B"
  then obtain a M ms where "p = a + 24" "(M, ms) \<in> set B" "(a, s) \<in> set ms" unfolding live_def by blast
  then show "\<exists>M ms. (M, ms) \<in> set B \<and> (p - 24, s) \<in> set ms" by (intro exI [of _ M] exI [of _ ms]) simp
qed

definition full :: "(int \<times> (int \<times> int) list) list \<Rightarrow> bool" where "full B \<longleftrightarrow> (\<forall>b\<in>set B. snd b \<noteq> [])"

text \<open>Blocks in use never overlap, nor does one overlap the header of another.\<close>

lemma live_disjoint:
  assumes ok: "heap_ok h B" and l: "(p, s) \<in> live B" "(q, t) \<in> live B" "p \<noteq> q"
  shows "p + s \<le> q - 24 \<or> q + t \<le> p - 24"
proof -
  obtain M ms where m: "(M, ms) \<in> set B" "(p - 24, s) \<in> set ms" using l(1) unfolding live_iff by blast
  obtain N ns where n: "(N, ns) \<in> set B" "(q - 24, t) \<in> set ns" using l(2) unfolding live_iff by blast
  have bm: "chunk_ok h M ms" "chunk_ok h N ns" using ok m(1) n(1) by (auto simp: heap_ok_def)
  have pk: "packed (M + 24) (M + mj_size (h_major h M)) ms" "packed (N + 24) (N + mj_size (h_major h N)) ns" "major_ok h M" "major_ok h N"
    using bm by (simp_all add: chunk_ok_def)
  show ?thesis
  proof (cases "M = N")
    case True
    moreover have "distinct (map fst B)" using ok by (simp add: heap_ok_def)
    ultimately have "ms = ns" using m(1) n(1) by (metis eq_key_imp_eq_value)
    then show ?thesis using packed_disjoint [OF pk(1) m(2), of "q - 24" t] n(2) l(3) by auto
  next
    case False
    have "span h M \<inter> span h N = {}" using ok m(1) n(1) False unfolding heap_ok_def by (metis fst_conv image_eqI)
    note ap = spans_apart [OF pk(3,4) this]
    have r: "M + 24 \<le> p - 24" "p + s \<le> M + mj_size (h_major h M)" "0 < s" "N + 24 \<le> q - 24" "q + t \<le> N + mj_size (h_major h N)" "0 < t"
      using packed_range [OF pk(1) m(2)] packed_range [OF pk(2) n(2)] by auto
    show ?thesis
    proof (rule ccontr)
      assume "\<not> (p + s \<le> q - 24 \<or> q + t \<le> p - 24)"
      then have "max (p - 24) (q - 24) < p + s" "max (p - 24) (q - 24) < q + t" using r by linarith+
      with ap [of "max (p - 24) (q - 24)" "max (p - 24) (q - 24)"] r show False by linarith
    qed
  qed
qed

lemma live_fresh:
  assumes "heap_ok h (X @ (M, xs @ (a, s) # ys) # Y)"
  shows "a + 24 \<notin> fst ` live (X @ (M, xs @ ys) # Y)"
proof
  assume "a + 24 \<in> fst ` live (X @ (M, xs @ ys) # Y)"
  then obtain t where "(a + 24, t) \<in> live (X @ (M, xs @ ys) # Y)" by fastforce
  then obtain N ns where n: "(N, ns) \<in> set (X @ (M, xs @ ys) # Y)" "(a, t) \<in> set ns" unfolding live_iff by auto
  note D = heap_okD [OF assms]
  show False
  proof (cases "(N, ns) = (M, xs @ ys)")
    case True
    moreover have "a \<notin> fst ` set (xs @ ys)" using packed_distinct [OF D(3)] by auto
    ultimately show ?thesis using n(2) by (metis fst_conv image_eqI snd_conv)
  next
    case False
    then have nb: "(N, ns) \<in> set X \<union> set Y" using n(1) by auto
    then have Nf: "N \<in> fst ` (set X \<union> set Y)" by force
    have "distinct (map fst X @ M # map fst Y)" using assms by (simp add: heap_ok_def)
    then have "N \<noteq> M" using Nf by auto
    moreover have "chunk_ok h N ns" using assms nb by (auto simp: heap_ok_def)
    then have N: "packed (N + 24) (N + mj_size (h_major h N)) ns" "major_ok h N" by (simp_all add: chunk_ok_def)
    moreover have "N \<in> fst ` set (X @ (M, xs @ (a, s) # ys) # Y)" "M \<in> fst ` set (X @ (M, xs @ (a, s) # ys) # Y)" using Nf by auto
    ultimately have "span h M \<inter> span h N = {}" using assms unfolding heap_ok_def by metis
    from spans_apart [OF D(2) N(2) this, of a a] packed_range [OF D(3), of a s] packed_range [OF N(1) n(2)] show False by auto
  qed
qed

text \<open>The block \<open>p\<close> of \<open>sz\<close> bytes has been handed out, and nothing else has changed for the holders of blocks.\<close>

definition given :: "heap \<Rightarrow> (int \<times> (int \<times> int) list) list \<Rightarrow> int \<Rightarrow> int \<Rightarrow> heap \<Rightarrow> bool" where
  "given h B sz p h' \<longleftrightarrow> p \<noteq> 0 \<and> h_bytes h' = h_bytes h \<and> h_lock h' = h_lock h \<and>
     (\<exists>B'. heap_ok h' B' \<and> full B' \<and> live B' = insert (p, sz) (live B) \<and> p \<notin> fst ` live B)"

lemma placed_given:
  assumes ok: "heap_ok h (X @ (M, ms) # Y)" and f: "full (X @ Y)" and pl: "placed h M ms sz p h'" and sz: "0 < sz"
  shows "given h (X @ (M, ms) # Y) sz p h'"
proof -
  obtain xs ys where p: "ms = xs @ ys" "lower (M + 24) xs + 24 + sz \<le> upper (M + mj_size (h_major h M)) ys" "p = lower (M + 24) xs + 24"
    "h' = insert_minor M (last0 (map fst xs)) (hd0 (map fst ys)) (lower (M + 24) xs) sz sz h" using pl unfolding placed_def by blast
  let ?B = "X @ (M, xs @ (lower (M + 24) xs, sz) # ys) # Y"
  have ok': "heap_ok h' ?B" unfolding p(4) by (rule heap_insert [OF ok [unfolded p(1)] sz p(2)])
  have "M + 24 \<le> lower (M + 24) xs" using heap_okD(3) [OF ok] unfolding p(1) packed_append by (auto dest: packed_bounds)
  then have "p \<noteq> 0" using p(3) major_ok_bounds(1) [OF heap_okD(2) [OF ok]] by simp
  moreover have "full ?B" using f by (auto simp: full_def)
  moreover have "live ?B = insert (p, sz) (live (X @ (M, ms) # Y))" by (auto simp: p(1,3))
  moreover have "p \<notin> fst ` live (X @ (M, ms) # Y)" using live_fresh [OF ok'] unfolding p(1,3) .
  moreover have "h_bytes h' = h_bytes h" "h_lock h' = h_lock h" by (simp_all add: p(4))
  ultimately show ?thesis using ok' unfolding given_def by blast
qed

text \<open>An empty major \<open>N\<close> with room for \<open>sz\<close> bytes has been added at the end.\<close>

definition extended :: "heap \<Rightarrow> (int \<times> (int \<times> int) list) list \<Rightarrow> int \<Rightarrow> int \<Rightarrow> heap \<Rightarrow> bool" where
  "extended h B sz N h' \<longleftrightarrow> N \<noteq> 0 \<and> heap_ok h' (B @ [(N, [])]) \<and> sz + 48 \<le> mj_size (h_major h' N) \<and> h_bytes h' = h_bytes h \<and> h_lock h' = h_lock h"

lemma append_major_ok:
  assumes ok: "heap_ok h (X @ [(L, ms)])" and sz: "0 < sz" "sz < 2 ^ 30"
  shows "append_major L sz h = Some (0, h\<lparr>l_warningCount := l_warningCount h + 1\<rparr>) \<and> no_pages sz (h_phys h) \<or>
    (\<exists>N h'. append_major L sz h = Some (N, h') \<and> extended h (X @ [(L, ms)]) sz N h')"
proof -
  let ?B = "X @ [(L, ms)]"
  have nx: "mj_next (h_major h L) = 0" using heap_okD(6) [OF ok] by simp
  have "ISSET (h_phys h) 0" using ok by (simp add: heap_ok_def)
  from allocate_new_page_ok [OF this sz] show ?thesis
  proof (elim disjE exE conjE)
    assume "allocate_new_page sz h = Some (0, h\<lparr>l_warningCount := l_warningCount h + 1\<rparr>)" "no_pages sz (h_phys h)"
    moreover have "upd_major L (\<lambda>m. m\<lparr>mj_next := 0\<rparr>) (h\<lparr>l_warningCount := l_warningCount h + 1\<rparr>) = h\<lparr>l_warningCount := l_warningCount h + 1\<rparr>"
    proof -
      have "(h_major h L)\<lparr>mj_next := 0\<rparr> = h_major h L" using nx by (cases "h_major h L") simp
      then show ?thesis by (simp add: upd_major_def)
    qed
    ultimately show ?thesis by (simp add: append_major_def)
  next
    fix N n ph
    assume an: "allocate_new_page sz h = Some (N, (upd_major N (\<lambda>_. new_header n) (h\<lparr>h_phys := ph\<rparr>))\<lparr>l_allocated := l_allocated h + 4096 * n\<rparr>)"
      and N: "N \<noteq> 0" and got: "got_pages h sz N n ph"
    let ?h = "upd_major N (\<lambda>m. m\<lparr>mj_prev := L\<rparr>) (upd_major L (\<lambda>m. m\<lparr>mj_next := N\<rparr>)
      ((upd_major N (\<lambda>_. new_header n) (h\<lparr>h_phys := ph\<rparr>))\<lparr>l_allocated := l_allocated h + 4096 * n\<rparr>))"
    have "N \<noteq> L"
    proof
      assume "N = L"
      then have "nat (N div 4096) \<in> span h L" using heap_okD(2) [OF ok] by (auto simp: major_ok_def span_def)
      then have "ISSET (h_phys h) (nat (N div 4096))" using ok by (auto simp: heap_ok_def)
      then show False using got by (auto simp: got_pages_def)
    qed
    have "heap_ok ?h (?B @ [(N, [])])"
      by (rule heap_extend [OF ok got]) (use \<open>N \<noteq> L\<close> in \<open>auto simp: new_header_def\<close>)
    moreover have "sz + 48 \<le> mj_size (h_major ?h N)" using got \<open>N \<noteq> L\<close> by (auto simp: got_pages_def new_header_def)
    moreover have "append_major L sz h = Some (N, ?h)" using an N by (simp add: append_major_def)
    ultimately show ?thesis using N by (auto simp: extended_def)
  qed
qed

text \<open>Where a round leads that does not place the block in the major \<open>M\<close>, the first of \<open>M # Y\<close> that are left.\<close>

definition moves_on :: "heap \<Rightarrow> (int \<times> (int \<times> int) list) list \<Rightarrow> (int \<times> (int \<times> int) list) list \<Rightarrow> int \<Rightarrow> bool \<Rightarrow> goto \<Rightarrow> heap \<Rightarrow> bool" where
  "moves_on h B Y sz st g h' \<longleftrightarrow>
     (if Y \<noteq> [] then g = Again (fst (hd Y)) st \<and> h' = h
      else if st then g = Again (l_memRoot h) False \<and> h' = h
      else g = Done 0 \<and> no_pages sz (h_phys h) \<and> h' = h\<lparr>l_warningCount := l_warningCount h + 1\<rparr> \<or> (\<exists>N. g = Again N False \<and> extended h B sz N h'))"

lemma next_nonzero:
  assumes ok: "heap_ok h (X @ (M, ms) # Y)"
  shows "Y \<noteq> [] \<Longrightarrow> fst (hd Y) \<noteq> 0"
proof -
  assume "Y \<noteq> []"
  then obtain N ns Z where y: "Y = (N, ns) # Z" by (cases Y) auto
  have "heap_ok h ((X @ [(M, ms)]) @ (N, ns) # Z)" using ok y by simp
  from major_ok_bounds(1) [OF heap_okD(2) [OF this]] show ?thesis using y by simp
qed

lemma try_major_empty:
  assumes ok: "heap_ok h (X @ (M, []) # Y)" and f: "full (X @ Y)" and sz: "0 < sz" "sz < 2 ^ 30" "sz + 48 \<le> mj_size (h_major h M)"
  shows "\<exists>p h'. try_major sz sz st h M = Some (Done p, h') \<and> given h (X @ (M, []) # Y) sz p h'"
proof -
  note D = heap_okD [OF ok]
  have "placed h M [] sz (M + 24 + 24) (insert_minor M 0 0 (M + 24) sz sz h)"
    by (rule placedI [of _ "[]" "[]"]) (use sz(3) in \<open>simp_all add: lower_def upper_def\<close>)
  from placed_given [OF ok f this sz(1)] show ?thesis
    using place_only_eq [OF D(1) sz(1,2)] D(4) by (simp add: try_major_def add.commute)
qed

lemma try_major_ok:
  assumes ok: "heap_ok h (X @ (M, ms) # Y)" and f: "full (X @ (M, ms) # Y)" and sz: "0 < sz" "sz < 2 ^ 30"
  shows "\<exists>g h'. try_major sz sz st h M = Some (g, h') \<and>
    ((\<exists>p. g = Done p \<and> given h (X @ (M, ms) # Y) sz p h') \<or> moves_on h (X @ (M, ms) # Y) Y sz st g h')"
proof -
  let ?B = "X @ (M, ms) # Y"
  note D = heap_okD [OF ok]
  have ms: "ms \<noteq> []" "full (X @ Y)" using f by (auto simp: full_def)
  obtain a s r where m: "ms = (a, s) # r" using ms(1) by (cases ms) auto
  have b: "chunk_ok h M ([] @ (a, s) # r)" using D(1) m by simp
  note A = block_minor [OF b]
  have first: "mj_first (h_major h M) = a" "a \<noteq> 0" using D(4) m A(6,10) by auto
  have gap: "uw (a - M - 24) = a - M - 24" "uw (sz + 24) = sz + 24" using A(6-10) sz by simp_all
  show ?thesis
  proof (cases "sz + 24 \<le> a - M - 24")
    case True
    have "placed h M ms sz (M + 24 + 24) (insert_minor M 0 a (M + 24) sz sz h)"
      by (rule placedI [of _ "[]" ms]) (use True m in \<open>simp_all add: lower_def upper_def\<close>)
    from placed_given [OF ok ms(2) this sz(1)] show ?thesis
      using place_front_eq [OF D(1) ms(1) sz] True first gap m by (simp add: try_major_def add.commute)
  next
    case False
    have hd: "hd0 (map fst ms) = a" using m by simp
    show ?thesis
    proof (cases "scan_minors M sz sz h a = Some (None, h)")
      case True
      have nx: "mj_next (h_major h M) = hd0 (map fst Y)" by (rule D(6))
      note nz = next_nonzero [OF ok]
      show ?thesis
      proof (cases "Y = [] \<and> \<not> st")
        case False2: False
        then show ?thesis using True False first gap nx nz by (auto simp: try_major_def moves_on_def last0_map)
      next
        case last: True
        have "heap_ok h (X @ [(M, ms)])" using ok last by simp
        from append_major_ok [OF this sz] True False first gap nx last show ?thesis
          by (auto simp: try_major_def moves_on_def extended_def)
      qed
    next
      case nF: False
      then obtain p h' where "scan_minors M sz sz h a = Some (Some p, h')" "placed h M ms sz p h'"
        using scan_minors_ok [of h M "[]" ms sz] D(1) sz hd by auto
      then show ?thesis using placed_given [OF ok ms(2) _ sz(1)] False first gap by (auto simp: try_major_def)
    qed
  qed
qed

lemma visit_major_ok:
  assumes ok: "heap_ok h (X @ (M, ms) # Y)" and f: "full (X @ (M, ms) # Y)" and sz: "0 < sz" "sz < 2 ^ 30"
  shows "\<exists>g h'. visit_major sz sz st h M = Some (g, h') \<and>
    ((\<exists>p. g = Done p \<and> given h (X @ (M, ms) # Y) sz p h') \<or> moves_on h (X @ (M, ms) # Y) Y sz st g h')"
proof -
  note D = heap_okD [OF ok]
  have nx: "mj_next (h_major h M) = hd0 (map fst Y)" by (rule D(6))
  note nz = next_nonzero [OF ok]
  show ?thesis
  proof (cases "uw (mj_size (h_major h M) - mj_usage (h_major h M)) < uw (sz + 24)")
    case small: True
    show ?thesis
    proof (cases "Y = [] \<and> \<not> st")
      case False
      then show ?thesis using small nx nz by (auto simp: visit_major_def moves_on_def last0_map)
    next
      case True
      have "heap_ok h (X @ [(M, ms)])" using ok True by simp
      from append_major_ok [OF this sz] show ?thesis
      proof (elim disjE exE conjE)
        assume "append_major M sz h = Some (0, h\<lparr>l_warningCount := l_warningCount h + 1\<rparr>)" "no_pages sz (h_phys h)"
        then show ?thesis using small nx True by (simp add: visit_major_def moves_on_def)
      next
        fix N h1 assume am: "append_major M sz h = Some (N, h1)" and ex: "extended h (X @ [(M, ms)]) sz N h1"
        have e: "heap_ok h1 ((X @ [(M, ms)]) @ (N, []) # [])" "sz + 48 \<le> mj_size (h_major h1 N)" "N \<noteq> 0" "h_bytes h1 = h_bytes h" "h_lock h1 = h_lock h"
          using ex by (simp_all add: extended_def)
        have "full ((X @ [(M, ms)]) @ [])" using f by (auto simp: full_def)
        from try_major_empty [OF e(1) this sz e(2), of st] obtain p h' where
          t: "try_major sz sz st h1 N = Some (Done p, h')" "given h1 ((X @ [(M, ms)]) @ [(N, [])]) sz p h'" by blast
        then have "given h (X @ (M, ms) # Y) sz p h'" using True e(4,5) by (simp add: given_def)
        then show ?thesis using am e(3) t(1) small nx True by (simp add: visit_major_def)
      qed
    qed
  next
    case False
    then show ?thesis using try_major_ok [OF ok f sz, of st] by (simp add: visit_major_def)
  qed
qed

text \<open>The loop ends: with a block, or with none and the blocks as they were.\<close>

definition finished :: "heap \<Rightarrow> (int \<times> (int \<times> int) list) list \<Rightarrow> int \<Rightarrow> int \<Rightarrow> heap \<Rightarrow> bool" where
  "finished h B sz p h' \<longleftrightarrow> given h B sz p h' \<or>
     p = 0 \<and> no_pages sz (h_phys h) \<and> heap_ok h' B \<and> h_minor h' = h_minor h \<and> h_bytes h' = h_bytes h \<and> h_lock h' = h_lock h"

lemma heap_ok_fields [simp]:
  "heap_ok (h\<lparr>l_warningCount := w\<rparr>) B = heap_ok h B" "heap_ok (h\<lparr>h_lock := c\<rparr>) B = heap_ok h B"
  "heap_ok (h\<lparr>l_errorCount := w\<rparr>) B = heap_ok h B" "heap_ok (h\<lparr>l_possibleOverruns := w\<rparr>) B = heap_ok h B" "heap_ok (h\<lparr>h_bytes := m\<rparr>) B = heap_ok h B"
  by (simp_all add: heap_ok_def chunk_ok_def major_ok_def span_def)

lemma block_best [simp]: "chunk_ok (h\<lparr>l_bestBet := b\<rparr>) M ms = chunk_ok h M ms" "span (h\<lparr>l_bestBet := b\<rparr>) M = span h M"
  by (simp_all add: chunk_ok_def major_ok_def span_def)

lemma heap_ok_best: "heap_ok h B \<Longrightarrow> M = 0 \<or> M \<in> fst ` set B \<Longrightarrow> heap_ok (h\<lparr>l_bestBet := M\<rparr>) B"
  by (simp add: heap_ok_def)

text \<open>One round, with the remembered bet.\<close>

lemma malloc_loop_round:
  assumes "heap_ok h B" "M \<in> fst ` set B" "M \<noteq> 0"
  shows "\<exists>h1 b1. heap_ok h1 B \<and> h_minor h1 = h_minor h \<and> h_phys h1 = h_phys h \<and> h_major h1 = h_major h \<and> h_bytes h1 = h_bytes h \<and> h_lock h1 = h_lock h \<and> l_memRoot h1 = l_memRoot h \<and>
    malloc_loop sz sz M st best h = do {
      (g, h) \<leftarrow> visit_major sz sz st h1 M;
      (case g of Done p \<Rightarrow> Some (p, h) | Again maj st \<Rightarrow> malloc_loop sz sz maj st b1 h) }"
proof -
  let ?d = "uw (mj_size (h_major h M) - mj_usage (h_major h M))"
  show ?thesis
    by (rule exI [of _ "if best < ?d then h\<lparr>l_bestBet := M\<rparr> else h"], rule exI [of _ "if best < ?d then ?d else best"])
      (use assms heap_ok_best [OF assms(1), of M] in \<open>subst malloc_loop.simps, simp add: Let_def\<close>)
qed

lemma finished_via:
  assumes "finished h1 B sz p h'" "h_minor h1 = h_minor h" "h_bytes h1 = h_bytes h" "h_lock h1 = h_lock h" "h_phys h1 = h_phys h"
  shows "finished h B sz p h'"
  using assms by (simp add: finished_def given_def)

lemma malloc_loop_fresh:
  assumes ok: "heap_ok h (B @ [(N, [])])" and f: "full B" and sz: "0 < sz" "sz < 2 ^ 30" "sz + 48 \<le> mj_size (h_major h N)"
  shows "\<exists>p h'. malloc_loop sz sz N st best h = Some (p, h') \<and> given h (B @ [(N, [])]) sz p h'"
proof -
  have D: "major_ok h N" "mj_usage (h_major h N) = 24" using heap_okD [OF ok] by (simp_all add: used_def)
  have "N \<noteq> 0" using major_ok_bounds(1) [OF D(1)] by simp
  then obtain h1 b1 where h1: "heap_ok h1 (B @ [(N, [])])" "h_minor h1 = h_minor h" "h_major h1 = h_major h" "h_bytes h1 = h_bytes h" "h_lock h1 = h_lock h"
    "malloc_loop sz sz N st best h = do {
      (g, h) \<leftarrow> visit_major sz sz st h1 N;
      (case g of Done p \<Rightarrow> Some (p, h) | Again maj st \<Rightarrow> malloc_loop sz sz maj st b1 h) }"
    using malloc_loop_round [OF ok, of N sz st best] by auto
  obtain p h' where t: "try_major sz sz st h1 N = Some (Done p, h')" "given h1 (B @ [(N, [])]) sz p h'"
    using try_major_empty [of h1 B N "[]" sz st] h1(1,3) f sz by auto
  have "visit_major sz sz st h1 N = try_major sz sz st h1 N"
    using D sz major_ok_bounds [OF D(1)] by (simp add: visit_major_def h1(3))
  then show ?thesis using t h1(4-6) by (simp add: given_def)
qed

text \<open>A round ends the search or leads to the next major, or from the last one back to the root.\<close>

lemma malloc_loop_step:
  assumes ok: "heap_ok h (X @ (M, ms) # Y)" and f: "full (X @ (M, ms) # Y)" and sz: "0 < sz" "sz < 2 ^ 30"
  shows "(\<exists>p h'. malloc_loop sz sz M st best h = Some (p, h') \<and> finished h (X @ (M, ms) # Y) sz p h') \<or>
    (\<exists>h1 b1. heap_ok h1 (X @ (M, ms) # Y) \<and> h_minor h1 = h_minor h \<and> h_bytes h1 = h_bytes h \<and> h_lock h1 = h_lock h \<and> h_phys h1 = h_phys h \<and>
       (if Y \<noteq> [] then malloc_loop sz sz M st best h = malloc_loop sz sz (fst (hd Y)) st b1 h1
        else st \<and> malloc_loop sz sz M st best h = malloc_loop sz sz (l_memRoot h1) False b1 h1))"
proof -
  let ?B = "X @ (M, ms) # Y"
  have "M \<noteq> 0" using major_ok_bounds(1) [OF heap_okD(2) [OF ok]] by simp
  then obtain h1 b1 where h1: "heap_ok h1 ?B" "h_minor h1 = h_minor h" "h_bytes h1 = h_bytes h" "h_lock h1 = h_lock h" "h_phys h1 = h_phys h"
    "malloc_loop sz sz M st best h = do {
      (g, h) \<leftarrow> visit_major sz sz st h1 M;
      (case g of Done p \<Rightarrow> Some (p, h) | Again maj st \<Rightarrow> malloc_loop sz sz maj st b1 h) }"
    using malloc_loop_round [OF ok, of M sz st best] by auto
  note via = finished_via [OF _ h1(2-5)]
  from visit_major_ok [OF h1(1) f sz, of st] show ?thesis
  proof (elim exE conjE disjE)
    fix g h' p assume "visit_major sz sz st h1 M = Some (g, h')" "g = Done p" "given h1 ?B sz p h'"
    then show ?thesis using h1(6) via [of ?B sz p h'] by (simp add: finished_def)
  next
    fix g h2 assume v: "visit_major sz sz st h1 M = Some (g, h2)" and mv: "moves_on h1 ?B Y sz st g h2"
    consider "Y \<noteq> [] \<or> st" | "Y = []" "\<not> st" "g = Done 0" "no_pages sz (h_phys h1)" "h2 = h1\<lparr>l_warningCount := l_warningCount h1 + 1\<rparr>"
      | N where "Y = []" "\<not> st" "g = Again N False" "extended h1 ?B sz N h2"
      using mv by (auto simp: moves_on_def split: if_splits)
    then show ?thesis
    proof cases
      case 1
      then show ?thesis using mv v h1 by (auto simp: moves_on_def split: if_splits)
    next
      case 2
      then show ?thesis using v h1(1,6) via [of ?B sz 0 h2] by (simp add: finished_def)
    next
      case (3 N)
      have e: "heap_ok h2 (?B @ [(N, [])])" "sz + 48 \<le> mj_size (h_major h2 N)" "h_bytes h2 = h_bytes h1" "h_lock h2 = h_lock h1"
        using 3(4) by (simp_all add: extended_def)
      obtain p h' where "malloc_loop sz sz N False b1 h2 = Some (p, h')" "given h2 (?B @ [(N, [])]) sz p h'"
        using malloc_loop_fresh [OF e(1) f sz e(2), of False b1] by blast
      then show ?thesis using v 3(3) h1(3,4,6) e(3,4) by (auto simp: finished_def given_def)
    qed
  qed
qed

lemma malloc_loop_unbet:
  assumes "heap_ok h (X @ (M, ms) # Y)" "full (X @ (M, ms) # Y)" and sz: "0 < sz" "sz < 2 ^ 30"
  shows "\<exists>p h'. malloc_loop sz sz M False best h = Some (p, h') \<and> finished h (X @ (M, ms) # Y) sz p h'"
  using assms(1,2)
proof (induction Y arbitrary: X M ms h best)
  case Nil
  then show ?case using malloc_loop_step [OF Nil(1,2) sz, of False best] by auto
next
  case (Cons y Y)
  from malloc_loop_step [OF Cons(2,3) sz, of False best] show ?case
  proof (elim disjE exE conjE)
    fix h1 b1 assume h1: "heap_ok h1 (X @ (M, ms) # y # Y)" "h_minor h1 = h_minor h" "h_bytes h1 = h_bytes h" "h_lock h1 = h_lock h" "h_phys h1 = h_phys h"
      and "if y # Y \<noteq> [] then malloc_loop sz sz M False best h = malloc_loop sz sz (fst (hd (y # Y))) False b1 h1
        else False \<and> malloc_loop sz sz M False best h = malloc_loop sz sz (l_memRoot h1) False b1 h1"
    then show ?thesis
      using Cons(1) [of h1 "X @ [(M, ms)]" "fst y" "snd y" b1] Cons(3) finished_via [OF _ h1(2-5)] by fastforce
  qed blast
qed

lemma malloc_loop_bet:
  assumes "heap_ok h (X @ (M, ms) # Y)" "full (X @ (M, ms) # Y)" and sz: "0 < sz" "sz < 2 ^ 30"
  shows "\<exists>p h'. malloc_loop sz sz M True best h = Some (p, h') \<and> finished h (X @ (M, ms) # Y) sz p h'"
  using assms(1,2)
proof (induction Y arbitrary: X M ms h best)
  case (Nil X M ms h best)
  from malloc_loop_step [OF Nil(1,2) sz, of True best] show ?case
  proof (elim disjE exE conjE)
    fix h1 b1 assume h1: "heap_ok h1 (X @ [(M, ms)])" "h_minor h1 = h_minor h" "h_bytes h1 = h_bytes h" "h_lock h1 = h_lock h" "h_phys h1 = h_phys h"
      and l: "if [] \<noteq> [] then malloc_loop sz sz M True best h = malloc_loop sz sz (fst (hd [])) True b1 h1
        else True \<and> malloc_loop sz sz M True best h = malloc_loop sz sz (l_memRoot h1) False b1 h1"
    obtain R rs Z where r: "X @ [(M, ms)] = [] @ (R, rs) # Z" by (cases "X @ [(M, ms)]") auto
    have "l_memRoot h1 = R" using h1(1) r by (simp add: heap_ok_def)
    then show ?thesis
      using malloc_loop_unbet [of h1 "[]" R rs Z, OF _ _ sz, of b1] h1(1) Nil(2) l finished_via [OF _ h1(2-5)] unfolding r by fastforce
  qed blast
next
  case (Cons y Y)
  from malloc_loop_step [OF Cons(2,3) sz, of True best] show ?case
  proof (elim disjE exE conjE)
    fix h1 b1 assume h1: "heap_ok h1 (X @ (M, ms) # y # Y)" "h_minor h1 = h_minor h" "h_bytes h1 = h_bytes h" "h_lock h1 = h_lock h" "h_phys h1 = h_phys h"
      and "if y # Y \<noteq> [] then malloc_loop sz sz M True best h = malloc_loop sz sz (fst (hd (y # Y))) True b1 h1
        else True \<and> malloc_loop sz sz M True best h = malloc_loop sz sz (l_memRoot h1) False b1 h1"
    then show ?thesis
      using Cons(1) [of h1 "X @ [(M, ms)]" "fst y" "snd y" b1] Cons(3) finished_via [OF _ h1(2-5)] by fastforce
  qed blast
qed

lemma malloc_locked_ok:
  assumes ok: "heap_ok h B" "full B" and sz: "0 < sz" "sz < 2 ^ 30"
  shows "\<exists>p h'. malloc_locked sz h = Some (p, h') \<and> finished h B sz p h'"
proof (cases B)
  case Nil
  have r: "l_memRoot h = 0" "ISSET (h_phys h) 0" using ok(1) Nil by (simp_all add: heap_ok_def)
  have best: "l_bestBet h = 0" using ok(1) Nil by (simp add: heap_ok_def)
  from allocate_new_page_ok [OF r(2) sz] show ?thesis
  proof (elim disjE exE conjE)
    assume "allocate_new_page sz h = Some (0, h\<lparr>l_warningCount := l_warningCount h + 1\<rparr>)" "no_pages sz (h_phys h)"
    moreover have "h\<lparr>l_warningCount := l_warningCount h + 1, l_memRoot := 0\<rparr> = h\<lparr>l_warningCount := l_warningCount h + 1\<rparr>" using r(1) by (cases h) simp
    then have "heap_ok (h\<lparr>l_warningCount := l_warningCount h + 1, l_memRoot := 0\<rparr>) B" using ok(1) by (simp only: heap_ok_fields)
    ultimately show ?thesis using r(1) ok(1) by (simp add: malloc_locked_def finished_def)
  next
    fix N n ph
    let ?h = "(upd_major N (\<lambda>_. new_header n) (h\<lparr>h_phys := ph\<rparr>))\<lparr>l_allocated := l_allocated h + 4096 * n\<rparr>"
    assume an: "allocate_new_page sz h = Some (N, ?h)" "N \<noteq> 0" "got_pages h sz N n ph"
    let ?r = "?h\<lparr>l_memRoot := N\<rparr>"
    have okr: "heap_ok ?r (B @ [(N, [])])"
      by (rule heap_extend [OF ok(1) an(3)]) (use Nil in \<open>auto simp: new_header_def\<close>)
    have "sz + 48 \<le> mj_size (h_major ?r N)" using an(3) by (auto simp: got_pages_def new_header_def)
    from malloc_loop_fresh [OF okr ok(2) sz this, of False 0] obtain p h' where
      l: "malloc_loop sz sz N False 0 ?r = Some (p, h')" "given ?r (B @ [(N, [])]) sz p h'" by blast
    then have "finished h B sz p h'" by (simp add: finished_def given_def)
    moreover have "malloc_locked sz h = Some (p, h')" using l(1) an(1,2) r(1) best by (simp add: malloc_locked_def)
    ultimately show ?thesis by blast
  qed
next
  case (Cons y Y)
  have root: "l_memRoot h = fst y" using ok(1) Cons by (simp add: heap_ok_def)
  have y: "heap_ok h ([] @ (fst y, snd y) # Y)" "full ([] @ (fst y, snd y) # Y)" using ok Cons by simp_all
  have nz: "fst y \<noteq> 0" using major_ok_bounds(1) [OF heap_okD(2) [OF y(1)]] by simp
  have un: "\<exists>p h'. malloc_loop sz sz (fst y) False b h = Some (p, h') \<and> finished h B sz p h'" for b
    using malloc_loop_unbet [OF y sz, of b] Cons by simp
  show ?thesis
  proof (cases "l_bestBet h = 0")
    case True
    then show ?thesis using un [of 0] root nz by (simp add: malloc_locked_def)
  next
    case False
    then have "l_bestBet h \<in> fst ` set B" using ok(1) by (simp add: heap_ok_def)
    then obtain ms where "(l_bestBet h, ms) \<in> set B" by force
    then obtain X Z where B: "B = X @ (l_bestBet h, ms) # Z" by (auto dest: split_list)
    then have bet: "\<exists>p h'. malloc_loop sz sz (l_bestBet h) True b h = Some (p, h') \<and> finished h B sz p h'" for b
      using malloc_loop_bet [of h X "l_bestBet h" ms Z, OF _ _ sz, of b] ok by simp
    show ?thesis using un bet root nz False by (simp add: malloc_locked_def Let_def)
  qed
qed

end
