(* ===== verification/Heap.thy ===== *)
theory Heap
  imports Liballoc
begin

section \<open>What the calls of the kernel heap promise (kernel/src/liballoc.c)\<close>

text \<open>
  The second half of the proofs about the heap: blocks taken away, majors given back, and what \<open>malloc\<close>, \<open>free\<close>,
  \<open>calloc\<close> and \<open>realloc\<close> do for a caller, on top of the invariant and the allocation loop of the theory Liballoc.
\<close>

subsection \<open>Taking a block away\<close>

definition delete_minor :: "int \<Rightarrow> int \<Rightarrow> int \<Rightarrow> int \<Rightarrow> int \<Rightarrow> heap \<Rightarrow> heap" where
  "delete_minor M p n a sz h = h\<lparr>
     h_minor := (\<lambda>x. if x = a then (h_minor h a)\<lparr>mn_magic := LIBALLOC_DEAD\<rparr>
       else if p \<noteq> 0 \<and> x = p then (h_minor h p)\<lparr>mn_next := n\<rparr>
       else if n \<noteq> 0 \<and> x = n then (h_minor h n)\<lparr>mn_prev := p\<rparr> else h_minor h x),
     h_major := (h_major h)(M := (h_major h M)\<lparr>mj_first := (if p = 0 then n else mj_first (h_major h M)), mj_usage := mj_usage (h_major h M) - (sz + 24)\<rparr>),
     l_inuse := l_inuse h - sz\<rparr>"

lemma block_apart:
  assumes "chunk_ok h M (xs @ (a, s) # ys)"
  shows "xs \<noteq> [] \<Longrightarrow> fst (last xs) \<noteq> a \<and> fst (last xs) \<noteq> 0" "ys \<noteq> [] \<Longrightarrow> fst (hd ys) \<noteq> a \<and> fst (hd ys) \<noteq> 0"
    "xs \<noteq> [] \<Longrightarrow> ys \<noteq> [] \<Longrightarrow> fst (last xs) \<noteq> fst (hd ys)"
proof -
  let ?ms = "xs @ (a, s) # ys"
  have B: "major_ok h M" "packed (M + 24) (M + mj_size (h_major h M)) ?ms" using assms by (simp_all add: chunk_ok_def)
  have d: "distinct (map fst xs @ a # map fst ys)" "\<And>x. x \<in> fst ` set ?ms \<Longrightarrow> M + 24 \<le> x"
    using packed_distinct [OF B(2)] by auto
  have e: "xs \<noteq> [] \<Longrightarrow> fst (last xs) \<in> set (map fst xs)" "ys \<noteq> [] \<Longrightarrow> fst (hd ys) \<in> set (map fst ys)" by simp_all
  have M: "4096 \<le> M" by (rule major_ok_bounds(1) [OF B(1)])
  have pos: "x \<noteq> 0" if "x \<in> set (map fst xs) \<union> set (map fst ys)" for x
  proof -
    have "x \<in> fst ` set ?ms" using that by auto
    then show ?thesis using d(2) [of x] M by linarith
  qed
  show "xs \<noteq> [] \<Longrightarrow> fst (last xs) \<noteq> a \<and> fst (last xs) \<noteq> 0" "ys \<noteq> [] \<Longrightarrow> fst (hd ys) \<noteq> a \<and> fst (hd ys) \<noteq> 0"
    using e d(1) pos by (metis Un_iff distinct.simps(2) distinct_append disjoint_iff list.set_intros(1))+
  have "set (map fst xs) \<inter> set (map fst ys) = {}" using d(1) by auto
  then show "xs \<noteq> [] \<Longrightarrow> ys \<noteq> [] \<Longrightarrow> fst (last xs) \<noteq> fst (hd ys)" using e by (metis disjoint_iff)
qed

lemma unlink_minor_eq:
  assumes b: "chunk_ok h M (xs @ (a, s) # ys)"
  shows "unlink_minor a h = delete_minor M (last0 (map fst xs)) (hd0 (map fst ys)) a s h"
proof -
  note B = block_minor [OF b] and A = block_apart [OF b]
  have "s + 24 \<le> mj_usage (h_major h M)"
  proof -
    have pk: "packed (M + 24) (M + mj_size (h_major h M)) (xs @ ys)" "mj_usage (h_major h M) = 24 + used (xs @ (a, s) # ys)"
      using b packed_delete [of "M + 24" "M + mj_size (h_major h M)" xs a s ys] unfolding chunk_ok_def by auto
    then show ?thesis using used_nonneg [OF pk(1)] by (simp add: used_append)
  qed
  moreover have "mj_usage (h_major h M) \<le> 134217728" using usage_bounds [OF b] B(10) major_ok_bounds [of h M] b by (simp add: chunk_ok_def)
  moreover have "0 < s" by (rule B(7))
  ultimately have u: "uw (mj_usage (h_major h M) - (s + 24)) = mj_usage (h_major h M) - (s + 24)" by simp
  show ?thesis
    using u B(1-4) A unfolding last0_map
    by (cases "xs = []"; cases "ys = []") (simp_all add: unlink_minor_def delete_minor_def upd_major_def upd_minor_def Let_def fun_eq_iff)
qed

lemma block_delete:
  assumes b: "chunk_ok h M (xs @ (a, s) # ys)"
  shows "chunk_ok (delete_minor M (last0 (map fst xs)) (hd0 (map fst ys)) a s h) M (xs @ ys)"
proof -
  let ?h = "delete_minor M (last0 (map fst xs)) (hd0 (map fst ys)) a s h"
  note A = block_apart [OF b]
  have B: "major_ok h M" "packed (M + 24) (M + mj_size (h_major h M)) (xs @ (a, s) # ys)" "mj_usage (h_major h M) = 24 + used (xs @ (a, s) # ys)"
    "mj_first (h_major h M) = hd0 (map fst (xs @ (a, s) # ys))"
    "lseg (\<lambda>a. mn_next (h_minor h a)) (\<lambda>a. mn_prev (h_minor h a)) 0 (map fst xs @ a # map fst ys) 0"
    "\<And>b t. (b, t) \<in> set (xs @ (a, s) # ys) \<Longrightarrow> mn_magic (h_minor h b) = LIBALLOC_MAGIC \<and> mn_block (h_minor h b) = M \<and> mn_size (h_minor h b) = t \<and> 0 < mn_req_size (h_minor h b) \<and> mn_req_size (h_minor h b) \<le> t"
    using b unfolding chunk_ok_def map_append list.map fst_conv by blast+
  have d: "distinct (map fst xs @ a # map fst ys)" using packed_distinct [OF B(2)] by simp
  have "lseg (\<lambda>a. mn_next (h_minor ?h a)) (\<lambda>a. mn_prev (h_minor ?h a)) 0 (map fst xs @ map fst ys) 0"
    by (rule lseg_delete [OF B(5) d, where na = "mn_next (h_minor h a)" and pa = "mn_prev (h_minor h a)"])
      (use A in \<open>auto simp: delete_minor_def last0_map last_map hd_map\<close>)
  moreover have "mn_magic (h_minor ?h b) = LIBALLOC_MAGIC \<and> mn_block (h_minor ?h b) = M \<and> mn_size (h_minor ?h b) = t \<and> 0 < mn_req_size (h_minor ?h b) \<and> mn_req_size (h_minor ?h b) \<le> t"
    if m: "(b, t) \<in> set (xs @ ys)" for b t
  proof -
    have "b \<noteq> a" using m d by force
    then show ?thesis using B(6) [of b t] m by (auto simp: delete_minor_def)
  qed
  moreover have "mj_first (h_major ?h M) = hd0 (map fst (xs @ ys))" using B(4) A by (auto simp: delete_minor_def last0_map)
  moreover have "major_ok ?h M" "mj_size (h_major ?h M) = mj_size (h_major h M)" "mj_usage (h_major ?h M) = 24 + used (xs @ ys)"
    using B(1,3) by (simp_all add: delete_minor_def major_ok_def used_append)
  ultimately show ?thesis using packed_delete [OF B(2)] by (simp add: chunk_ok_def)
qed

lemma heap_delete:
  assumes ok: "heap_ok h (X @ (M, xs @ (a, s) # ys) # Y)"
  shows "heap_ok (unlink_minor a h) (X @ (M, xs @ ys) # Y)"
proof -
  note D = heap_okD [OF ok]
  let ?h = "delete_minor M (last0 (map fst xs)) (hd0 (map fst ys)) a s h"
  have r: "M \<le> x \<and> x < M + mj_size (h_major h M)" if "x \<in> fst ` set (xs @ (a, s) # ys)" for x
    using that packed_range [OF D(3)] by fastforce
  have ends: "xs \<noteq> [] \<Longrightarrow> fst (last xs) \<in> fst ` set (xs @ (a, s) # ys)" "ys \<noteq> [] \<Longrightarrow> fst (hd ys) \<in> fst ` set (xs @ (a, s) # ys)" by auto
  have "heap_ok ?h (X @ (M, xs @ ys) # Y)"
  proof (rule heap_block_update [OF ok block_delete [OF D(1)]])
    fix x assume "\<not> (M \<le> x \<and> x < M + mj_size (h_major h M))"
    then have "x \<notin> fst ` set (xs @ (a, s) # ys)" using r by blast
    moreover from this have "xs \<noteq> [] \<Longrightarrow> x \<noteq> fst (last xs)" "ys \<noteq> [] \<Longrightarrow> x \<noteq> fst (hd ys)" using ends by blast+
    ultimately show "h_minor ?h x = h_minor h x" by (simp add: delete_minor_def last0_map)
  qed (simp_all add: delete_minor_def payload_append)
  then show ?thesis unfolding unlink_minor_eq [OF D(1)] .
qed

subsection \<open>Giving a major back\<close>

lemma ends_apart:
  assumes "distinct (map fst X @ M # map fst Y)"
  shows "X \<noteq> [] \<Longrightarrow> fst (last X) \<noteq> M" "Y \<noteq> [] \<Longrightarrow> fst (hd Y) \<noteq> M" "X \<noteq> [] \<Longrightarrow> Y \<noteq> [] \<Longrightarrow> fst (last X) \<noteq> fst (hd Y)"
proof -
  have e: "X \<noteq> [] \<Longrightarrow> fst (last X) \<in> set (map fst X)" "Y \<noteq> [] \<Longrightarrow> fst (hd Y) \<in> set (map fst Y)" by simp_all
  have "set (map fst X) \<inter> set (map fst Y) = {}" "M \<notin> set (map fst X)" "M \<notin> set (map fst Y)" using assms by auto
  then show "X \<noteq> [] \<Longrightarrow> fst (last X) \<noteq> M" "Y \<noteq> [] \<Longrightarrow> fst (hd Y) \<noteq> M" "X \<noteq> [] \<Longrightarrow> Y \<noteq> [] \<Longrightarrow> fst (last X) \<noteq> fst (hd Y)"
    using e by (metis disjoint_iff)+
qed

lemma heap_shrink:
  assumes ok: "heap_ok h (X @ (M, []) # Y)"
    and h': "\<And>K. K \<noteq> M \<Longrightarrow> h_major h' K = (if X \<noteq> [] \<and> K = fst (last X) then (h_major h K)\<lparr>mj_next := hd0 (map fst Y)\<rparr>
        else if Y \<noteq> [] \<and> K = fst (hd Y) then (h_major h K)\<lparr>mj_prev := last0 (map fst X)\<rparr> else h_major h K)"
      "h_minor h' = h_minor h" "\<And>p. ISSET (h_phys h') p \<longleftrightarrow> ISSET (h_phys h) p \<and> p \<notin> span h M" "l_memRoot h' = hd0 (map fst (X @ Y))"
      "l_bestBet h' = (if l_bestBet h = M then 0 else l_bestBet h)" "l_inuse h' = l_inuse h" "l_allocated h' = l_allocated h - mj_size (h_major h M)"
  shows "heap_ok h' (X @ Y)"
proof -
  let ?B = "X @ (M, []) # Y"
  have H: "lseg (\<lambda>a. mj_next (h_major h a)) (\<lambda>a. mj_prev (h_major h a)) 0 (map fst X @ M # map fst Y) 0" "distinct (map fst X @ M # map fst Y)"
    "\<And>M ms. (M, ms) \<in> set ?B \<Longrightarrow> chunk_ok h M ms" "\<And>M p. M \<in> fst ` set ?B \<Longrightarrow> p \<in> span h M \<Longrightarrow> ISSET (h_phys h) p"
    "\<And>M K. M \<in> fst ` set ?B \<Longrightarrow> K \<in> fst ` set ?B \<Longrightarrow> M \<noteq> K \<Longrightarrow> span h M \<inter> span h K = {}"
    "l_bestBet h = 0 \<or> l_bestBet h \<in> fst ` set ?B" "ISSET (h_phys h) 0"
    "l_inuse h = sum_list (map (payload \<circ> snd) ?B)" "l_allocated h = sum_list (map (\<lambda>b. mj_size (h_major h (fst b))) ?B)"
    using ok unfolding heap_ok_def map_append list.map fst_conv by blast+
  have N: "K \<noteq> M" "K \<in> fst ` set ?B" if "K \<in> fst ` set (X @ Y)" for K using that H(2) by auto
  note ap = ends_apart [OF H(2)]
  have mj: "mj_pages (h_major h' K) = mj_pages (h_major h K)" "mj_size (h_major h' K) = mj_size (h_major h K)" if "K \<in> fst ` set (X @ Y)" for K
    using N(1) [OF that] by (simp_all add: h'(1))
  have sp: "span h' K = span h K" if "K \<in> fst ` set (X @ Y)" for K using mj [OF that] by (simp add: span_def)
  have "lseg (\<lambda>a. mj_next (h_major h' a)) (\<lambda>a. mj_prev (h_major h' a)) 0 (map fst X @ map fst Y) 0"
    by (rule lseg_delete [OF H(1,2), where na = "mj_next (h_major h' M)" and pa = "mj_prev (h_major h' M)"])
      (use ap in \<open>auto simp: h'(1) last_map hd_map\<close>)
  moreover have "chunk_ok h' K ks" if "(K, ks) \<in> set (X @ Y)" for K ks
  proof -
    have k: "(K, ks) \<in> set ?B" "K \<noteq> M" using that N(1) [of K] by force+
    show ?thesis
      by (rule block_frame [OF H(3) [OF k(1)], where pv = "mj_prev (h_major h' K)" and nx = "mj_next (h_major h' K)"])
        (use k(2) in \<open>simp_all add: h'\<close>)
  qed
  moreover have "span h' K \<inter> span h' L = {}" if "K \<in> fst ` set (X @ Y)" "L \<in> fst ` set (X @ Y)" "K \<noteq> L" for K L
    using H(5) [OF N(2) N(2)] that sp by blast
  moreover have "ISSET (h_phys h') p" if k: "K \<in> fst ` set (X @ Y)" "p \<in> span h' K" for K p
  proof -
    have "span h K \<inter> span h M = {}" by (rule H(5) [OF N(2) [OF k(1)] _ N(1) [OF k(1)]]) simp
    then show ?thesis using k(2) H(4) [OF N(2) [OF k(1)]] sp [OF k(1)] h'(3) by blast
  qed
  moreover have "ISSET (h_phys h') 0"
  proof -
    have "major_ok h M" by (rule heap_okD(2) [OF ok])
    then have "0 \<notin> span h M" by (elim major_okD) (auto simp: span_def)
    then show ?thesis using H(7) h'(3) by blast
  qed
  moreover have "map (\<lambda>b. mj_size (h_major h' (fst b))) (X @ Y) = map (\<lambda>b. mj_size (h_major h (fst b))) (X @ Y)"
    by (rule map_cong) (simp_all only: mj(2) imageI)
  then have "l_allocated h' = sum_list (map (\<lambda>b. mj_size (h_major h' (fst b))) (X @ Y))" using H(9) h'(7) by (simp only:) simp
  moreover have "l_inuse h' = sum_list (map (payload \<circ> snd) (X @ Y))" using H(8) h'(6) by (simp add: payload_def)
  moreover have "l_bestBet h' = 0 \<or> l_bestBet h' \<in> fst ` set (X @ Y)" using H(6) h'(5) by auto
  moreover have "distinct (map fst (X @ Y))" using H(2) by simp
  ultimately show ?thesis using h'(4) unfolding heap_ok_def by simp
qed

lemma detach_major_ok:
  assumes ok: "heap_ok h (X @ (M, []) # Y)"
  shows "h_minor (detach_major M h) = h_minor h" "h_bytes (detach_major M h) = h_bytes h" "h_lock (detach_major M h) = h_lock h"
    "h_phys (detach_major M h) = h_phys h" "l_inuse (detach_major M h) = l_inuse h"
    "l_bestBet (detach_major M h) = (if l_bestBet h = M then 0 else l_bestBet h)" "l_memRoot (detach_major M h) = hd0 (map fst (X @ Y))"
    "l_allocated (detach_major M h) = l_allocated h - mj_size (h_major (detach_major M h) M)"
    "h_major (detach_major M h) K = (if X \<noteq> [] \<and> K = fst (last X) then (h_major h K)\<lparr>mj_next := hd0 (map fst Y)\<rparr>
       else if Y \<noteq> [] \<and> K = fst (hd Y) then (h_major h K)\<lparr>mj_prev := last0 (map fst X)\<rparr> else h_major h K)"
proof -
  let ?d = "detach_major M h"
  note D = heap_okD [OF ok]
  have d: "distinct (map fst X @ M # map fst Y)" "l_memRoot h = hd0 (map fst X @ M # map fst Y)" using ok by (simp_all add: heap_ok_def)
  note ap = ends_apart [OF d(1)]
  have root: "l_memRoot h = M \<longleftrightarrow> X = []" using d by (cases X) auto
  have nz: "Y \<noteq> [] \<Longrightarrow> fst (hd Y) \<noteq> 0" by (rule next_nonzero [OF ok])
  have nx: "fst (last X) \<noteq> 0" if ne: "X \<noteq> []"
  proof -
    obtain W L ls where X: "X = W @ [(L, ls)]" using ne by (cases X rule: rev_cases) auto
    have "heap_ok h (W @ (L, ls) # (M, []) # Y)" using ok X by simp
    from major_ok_bounds(1) [OF heap_okD(2) [OF this]] show ?thesis using X by simp
  qed
  define h2 where "h2 = (let h = (if l_memRoot h = M then h\<lparr>l_memRoot := mj_next (h_major h M)\<rparr> else h) in if l_bestBet h = M then h\<lparr>l_bestBet := 0\<rparr> else h)"
  define h3 where "h3 = (if mj_prev (h_major h2 M) \<noteq> 0 then upd_major (mj_prev (h_major h2 M)) (\<lambda>m. m\<lparr>mj_next := mj_next (h_major h2 M)\<rparr>) h2 else h2)"
  define h4 where "h4 = (if mj_next (h_major h3 M) \<noteq> 0 then upd_major (mj_next (h_major h3 M)) (\<lambda>m. m\<lparr>mj_prev := mj_prev (h_major h3 M)\<rparr>) h3 else h3)"
  have d4: "?d = h4\<lparr>l_allocated := l_allocated h4 - mj_size (h_major h4 M)\<rparr>"
    by (simp only: detach_major_def Let_def h2_def h3_def h4_def)
  have f2: "h_minor h2 = h_minor h" "h_bytes h2 = h_bytes h" "h_lock h2 = h_lock h" "h_phys h2 = h_phys h" "l_inuse h2 = l_inuse h"
    "l_bestBet h2 = (if l_bestBet h = M then 0 else l_bestBet h)" "l_allocated h2 = l_allocated h" "l_memRoot h2 = hd0 (map fst (X @ Y))" "h_major h2 = h_major h"
    using root D(6) d(2) by (simp_all add: h2_def Let_def last0_map)
  have h3: "h_major h3 K = (if X \<noteq> [] \<and> K = fst (last X) then (h_major h K)\<lparr>mj_next := hd0 (map fst Y)\<rparr> else h_major h K)" for K
    using nx D(6,7) by (simp add: h3_def f2 last0_map)
  then have "h_major h3 M = h_major h M" using ap(1) by auto
  then have h4: "h_major h4 K = (if Y \<noteq> [] \<and> K = fst (hd Y) then (h_major h3 K)\<lparr>mj_prev := last0 (map fst X)\<rparr> else h_major h3 K)" for K
    using nz D(6,7) by (simp add: h4_def last0_map)
  show "h_minor ?d = h_minor h" "h_bytes ?d = h_bytes h" "h_lock ?d = h_lock h" "h_phys ?d = h_phys h" "l_inuse ?d = l_inuse h"
    "l_bestBet ?d = (if l_bestBet h = M then 0 else l_bestBet h)" "l_memRoot ?d = hd0 (map fst (X @ Y))"
    "l_allocated ?d = l_allocated h - mj_size (h_major ?d M)"
    unfolding d4 by (simp_all add: h3_def h4_def f2)
  show "h_major ?d K = (if X \<noteq> [] \<and> K = fst (last X) then (h_major h K)\<lparr>mj_next := hd0 (map fst Y)\<rparr>
      else if Y \<noteq> [] \<and> K = fst (hd Y) then (h_major h K)\<lparr>mj_prev := last0 (map fst X)\<rparr> else h_major h K)"
    using ap(3) unfolding d4 by (auto simp: h4 h3)
qed

lemma upd_errors [simp]: "l_errorCount (upd_major a f h) = l_errorCount h" "l_errorCount (upd_minor a g h) = l_errorCount h"
  by (simp_all add: upd_major_def upd_minor_def)

lemma detach_major_errors: "l_errorCount (detach_major M h) = l_errorCount h"
  unfolding detach_major_def by (simp add: Let_def del: upd_simps)

text \<open>The pages of the major are free again, and no other page changes.\<close>

lemma drop_major_ok:
  assumes ok: "heap_ok h (X @ (M, []) # Y)"
  shows "\<exists>h'. drop_major M h = Some h' \<and> heap_ok h' (X @ Y) \<and> l_errorCount h' = l_errorCount h \<and> h_minor h' = h_minor h \<and> h_bytes h' = h_bytes h \<and> h_lock h' = h_lock h \<and>
    (\<forall>p. ISSET (h_phys h') p \<longleftrightarrow> ISSET (h_phys h) p \<and> p \<notin> span h M)"
proof -
  note f = detach_major_ok [OF ok]
  obtain b n where m: "M = 4096 * b" "M div 4096 = b" "mj_pages (h_major h M) = n" "mj_size (h_major h M) = 4096 * n" "0 < b" "0 < n" "b + n \<le> 32768"
    by (rule major_okD [OF heap_okD(2) [OF ok]])
  have sp: "p \<in> span h M \<longleftrightarrow> nat b \<le> p \<and> p < nat b + nat n" for p by (simp add: span_def m(2,3))
  have "\<And>p. nat b \<le> p \<Longrightarrow> p < nat b + nat n \<Longrightarrow> ISSET (h_phys h) p" using ok sp by (auto simp: heap_ok_def)
  from memory_free_ok [of "nat b" "nat n" "h_phys h", OF _ _ this] m(5-7) obtain ph where
    ph: "memory_free (h_phys h) (int (nat n)) (of_nat (nat b * PAGE_SIZE)) = Some ph" "\<And>p. ISSET ph p \<longleftrightarrow> ISSET (h_phys h) p \<and> p \<notin> span h M"
    unfolding sp MAXMAP_def by fastforce
  have w: "of_nat (nat b * PAGE_SIZE) = (word_of_int M :: 32 word)" using m(1,5) by (simp add: PAGE_SIZE_def)
  have "distinct (map fst X @ M # map fst Y)" using ok by (simp add: heap_ok_def)
  then have M: "h_major (detach_major M h) M = h_major h M" unfolding f(9) by (auto dest: ends_apart)
  have "drop_major M h = Some ((detach_major M h)\<lparr>h_phys := ph\<rparr>)"
    using ph(1) [unfolded w] m(3,6) by (simp add: drop_major_def liballoc_free_def M f(4))
  moreover have "heap_ok ((detach_major M h)\<lparr>h_phys := ph\<rparr>) (X @ Y)"
    by (rule heap_shrink [OF ok]) (use f(1-8) M in \<open>simp_all add: ph(2) f(9)\<close>)
  moreover have "l_errorCount (detach_major M h) = l_errorCount h" by (rule detach_major_errors)
  ultimately show ?thesis using f(1-3) ph(2) by auto
qed

subsection \<open>What a client sees\<close>

text \<open>The heap holds the blocks \<open>L\<close>: addresses of the bytes with their numbers.\<close>

definition holds :: "heap \<Rightarrow> (int \<times> int) set \<Rightarrow> bool" where
  "holds h L \<longleftrightarrow> (\<exists>B. heap_inv h B \<and> live B = L)"

lemma heap_inv_iff: "heap_inv h B \<longleftrightarrow> heap_ok h B \<and> full B \<and> \<not> h_lock h"
  by (auto simp: heap_inv_def full_def)

lemma holdsI: "heap_ok h B \<Longrightarrow> full B \<Longrightarrow> holds (liballoc_unlock h) (live B)"
  by (auto simp: holds_def heap_inv_iff liballoc_unlock_def)

lemma malloc_ok:
  assumes L: "holds h L" and n: "0 \<le> n" "n < 2 ^ 30"
  shows "\<exists>p h'. malloc n h = Some (p, h') \<and> h_bytes h' = h_bytes h \<and>
    (if p = 0 then holds h' L \<and> h_minor h' = h_minor h \<and> no_pages (max 1 n) (h_phys h) else holds h' (insert (p, max 1 n) L) \<and> p \<notin> fst ` L)"
proof -
  obtain B where B: "heap_ok h B" "full B" "\<not> h_lock h" "live B = L" using L by (auto simp: holds_def heap_inv_iff)
  define h0 where "h0 = (if n = 0 then h\<lparr>l_warningCount := l_warningCount h + 1\<rparr> else h)\<lparr>h_lock := True\<rparr>"
  have h0: "heap_ok h0 B" "h_bytes h0 = h_bytes h" "h_minor h0 = h_minor h" "h_phys h0 = h_phys h" using B(1) by (simp_all add: h0_def)
  have "0 < max 1 n" "max 1 n < 2 ^ 30" using n by auto
  from malloc_locked_ok [OF h0(1) B(2) this] obtain p h' where m: "malloc_locked (max 1 n) h0 = Some (p, h')" "finished h0 B (max 1 n) p h'" by blast
  have "malloc n h = Some (p, liballoc_unlock h')"
    using m(1) B(3) n(1) by (auto simp: malloc_def liballoc_lock_def liballoc_unlock_def h0_def max_def)
  moreover have "h_bytes h' = h_bytes h" using m(2) h0(2) by (auto simp: finished_def given_def)
  moreover have "if p = 0 then holds (liballoc_unlock h') L \<and> h_minor h' = h_minor h \<and> no_pages (max 1 n) (h_phys h) else holds (liballoc_unlock h') (insert (p, max 1 n) L) \<and> p \<notin> fst ` L"
    using m(2) B(2,4) h0(3,4) by (auto simp: finished_def given_def holds_def heap_inv_iff liballoc_unlock_def)
  ultimately show ?thesis by (auto simp: liballoc_unlock_def)
qed

lemma rebet_ok: "heap_ok h B \<Longrightarrow> M \<in> fst ` set B \<Longrightarrow> heap_ok (rebet M h) B"
  by (simp add: rebet_def heap_ok_best)

lemma rebet_simps [simp]: "h_bytes (rebet M h) = h_bytes h" "h_lock (rebet M h) = h_lock h" "h_minor (rebet M h) = h_minor h" "l_errorCount (rebet M h) = l_errorCount h"
  by (simp_all add: rebet_def)

lemma unlink_minor_simps [simp]: "h_bytes (unlink_minor a h) = h_bytes h" "h_lock (unlink_minor a h) = h_lock h" "h_phys (unlink_minor a h) = h_phys h" "l_errorCount (unlink_minor a h) = l_errorCount h"
  by (simp_all add: unlink_minor_def Let_def)

lemma live_header:
  assumes "heap_ok h B" "(p, s) \<in> live B"
  shows "mn_magic (h_minor h (p - 24)) = LIBALLOC_MAGIC" "uw (p - 24) = p - 24" "p \<noteq> 0" "mn_size (h_minor h (p - 24)) = s"
    "0 < mn_req_size (h_minor h (p - 24))" "mn_req_size (h_minor h (p - 24)) \<le> s" "4096 \<le> p" "p + s \<le> 134217728"
proof -
  obtain M ms where m: "(M, ms) \<in> set B" "(p - 24, s) \<in> set ms" using assms(2) unfolding live_iff by blast
  have b: "chunk_ok h M ms" using assms(1) m(1) by (auto simp: heap_ok_def)
  then have "packed (M + 24) (M + mj_size (h_major h M)) ms" "major_ok h M" by (simp_all add: chunk_ok_def)
  note r = packed_range [OF this(1) m(2)] major_ok_bounds [OF this(2)]
  show "mn_magic (h_minor h (p - 24)) = LIBALLOC_MAGIC" "mn_size (h_minor h (p - 24)) = s"
    "0 < mn_req_size (h_minor h (p - 24))" "mn_req_size (h_minor h (p - 24)) \<le> s" using b m(2) by (simp_all add: chunk_ok_def)
  show "4096 \<le> p" "p + s \<le> 134217728" "p \<noteq> 0" "uw (p - 24) = p - 24" using r by auto
qed

lemma live_delete:
  assumes "heap_ok h (X @ (M, xs @ (a, s) # ys) # Y)"
  shows "live (X @ (M, xs @ ys) # Y) = live (X @ (M, xs @ (a, s) # ys) # Y) - {(a + 24, s)}"
proof -
  have "(a + 24, s) \<notin> live (X @ (M, xs @ ys) # Y)" using live_fresh [OF assms] by force
  moreover have "live (X @ (M, xs @ (a, s) # ys) # Y) = insert (a + 24, s) (live (X @ (M, xs @ ys) # Y))" by auto
  ultimately show ?thesis by blast
qed

lemma free_ok:
  assumes L: "holds h L" and p: "(p, s) \<in> L"
  shows "\<exists>h'. free p h = Some h' \<and> holds h' (L - {(p, s)}) \<and> h_bytes h' = h_bytes h \<and>
    mn_magic (h_minor h' (p - 24)) = LIBALLOC_DEAD \<and> l_errorCount h' = l_errorCount h"
proof -
  obtain B where B: "heap_ok h B" "full B" "\<not> h_lock h" "live B = L" using L by (auto simp: holds_def heap_inv_iff)
  obtain M ms where "(M, ms) \<in> set B" "(p - 24, s) \<in> set ms" using p B(4) live_iff by blast
  then obtain X Y xs ys where sp: "B = X @ (M, ms) # Y" "ms = xs @ (p - 24, s) # ys" by (metis split_list)
  note live_header [OF B(1), of p s]
  then have hd: "mn_magic (h_minor h (p - 24)) = LIBALLOC_MAGIC" "uw (p - 24) = p - 24" "p \<noteq> 0" using p B(4) by simp_all
  let ?h = "h\<lparr>h_lock := True\<rparr>" and ?u = "unlink_minor (p - 24) (h\<lparr>h_lock := True\<rparr>)"
  have ok: "heap_ok ?h (X @ (M, xs @ (p - 24, s) # ys) # Y)" using B(1) sp by simp
  have u: "heap_ok ?u (X @ (M, xs @ ys) # Y)" by (rule heap_delete [OF ok])
  have dead: "mn_magic (h_minor ?u (p - 24)) = LIBALLOC_DEAD" unfolding unlink_minor_eq [OF heap_okD(1) [OF ok]] by (simp add: delete_minor_def)
  have lv: "live (X @ (M, xs @ ys) # Y) = L - {(p, s)}" using live_delete [OF ok] unfolding B(4) [unfolded sp] by (simp only: diff_add_cancel)
  have maj: "mn_block (h_minor h (p - 24)) = M" using block_minor(4) [OF heap_okD(1) [OF ok]] by simp
  have fl: "full (X @ Y)" using B(2) sp by (auto simp: full_def)
  show ?thesis
  proof (cases "xs @ ys = []")
    case True
    then have first: "mj_first (h_major ?u M) = 0" using heap_okD(4) [OF u] by simp
    from drop_major_ok [of ?u X M Y] u True obtain h' where
      h': "drop_major M ?u = Some h'" "heap_ok h' (X @ Y)" "h_bytes h' = h_bytes ?u" "h_minor h' = h_minor ?u" "l_errorCount h' = l_errorCount ?u" by auto
    then have "free p h = Some (liballoc_unlock h')" using hd B(3) maj first by (simp add: free_def liballoc_lock_def)
    moreover have "live (X @ Y) = live (X @ (M, xs @ ys) # Y)" unfolding True by simp
    then have "holds (liballoc_unlock h') (L - {(p, s)})" using holdsI [OF h'(2) fl] unfolding lv by (simp only:)
    ultimately show ?thesis using h'(3-5) dead by (simp add: liballoc_unlock_def)
  next
    case False
    then obtain a t r where "xs @ ys = (a, t) # r" by (cases "xs @ ys") auto
    then have "hd0 (map fst (xs @ ys)) \<noteq> 0" using block_minor(6,10) [of ?u M "[]" a t r] heap_okD(1) [OF u] by (simp del: hd0_simps(3))
    then have first: "mj_first (h_major ?u M) \<noteq> 0" using heap_okD(4) [OF u] by simp
    then have "free p h = Some (liballoc_unlock (rebet M ?u))" using hd B(3) maj by (simp add: free_def liballoc_lock_def)
    moreover have "heap_ok (rebet M ?u) (X @ (M, xs @ ys) # Y)" by (rule rebet_ok [OF u]) simp
    moreover have "full (X @ (M, xs @ ys) # Y)" using fl False by (auto simp: full_def)
    ultimately show ?thesis using holdsI [of "rebet M ?u"] dead unfolding lv [symmetric] by (simp add: liballoc_unlock_def del: live_simps)
  qed
qed

subsection \<open>Bytes\<close>

lemma liballoc_memset_eq: "liballoc_memset d c n m x = (if d \<le> x \<and> x < d + int n then c else m x)"
proof (induction d c n m rule: liballoc_memset.induct)
  case (2 s c n m)
  then show ?case by (simp only: liballoc_memset.simps) auto
qed auto

text \<open>Word by word or byte by byte, between ranges that do not meet.\<close>

lemma liballoc_memcpy_eq:
  assumes "d + int n \<le> s \<or> s + int n \<le> d"
  shows "liballoc_memcpy d s n m x = (if d \<le> x \<and> x < d + int n then m (s + (x - d)) else m x)"
  using assms
proof (induction d s n m rule: liballoc_memcpy.induct)
  case (1 d s n m)
  have ih: "liballoc_memcpy (d + 4) (s + 4) n (copy_word d s m) x =
    (if d + 4 \<le> x \<and> x < d + 4 + int n then copy_word d s m (s + 4 + (x - (d + 4))) else copy_word d s m x)"
    by (rule 1(1)) (use 1(2) in auto)
  have w: "copy_word d s m y = (if d \<le> y \<and> y < d + 4 then m (s + (y - d)) else m y)" for y
  proof (cases "y \<in> {d, d + 1, d + 2, d + 3}")
    case True
    then show ?thesis using 1(2) by (auto simp: copy_word_def)
  next
    case False
    then have "\<not> (d \<le> y \<and> y < d + 4)" by auto
    then show ?thesis using False by (simp only: copy_word_def if_False) auto
  qed
  show ?case using 1(2) by (auto simp: ih w)
qed (auto simp: add.commute)

lemma holds_bytes: "holds (h\<lparr>h_bytes := m\<rparr>) L = holds h L"
  by (simp add: holds_def heap_inv_iff)

lemma holds_apart: "holds h L \<Longrightarrow> (p, s) \<in> L \<Longrightarrow> (q, t) \<in> L \<Longrightarrow> p \<noteq> q \<Longrightarrow> p + s \<le> q - 24 \<or> q + t \<le> p - 24"
  unfolding holds_def heap_inv_def using live_disjoint by blast

lemma calloc_ok:
  assumes L: "holds h L" and n: "0 \<le> nobj * sz" "nobj * sz < 2 ^ 30"
  shows "\<exists>p h'. calloc nobj sz h = Some (p, h') \<and>
    (\<forall>x. h_bytes h' x = (if p \<le> x \<and> x < p + nobj * sz then 0 else h_bytes h x)) \<and>
    (if p = 0 then holds h' L \<and> no_pages (max 1 (nobj * sz)) (h_phys h) else holds h' (insert (p, max 1 (nobj * sz)) L) \<and> p \<notin> fst ` L)"
proof -
  have r: "uw (nobj * sz) = nobj * sz" "int (nat (nobj * sz)) = nobj * sz" using n by simp_all
  obtain p h' where m: "malloc (nobj * sz) h = Some (p, h')" "h_bytes h' = h_bytes h"
    "if p = 0 then holds h' L \<and> h_minor h' = h_minor h \<and> no_pages (max 1 (nobj * sz)) (h_phys h) else holds h' (insert (p, max 1 (nobj * sz)) L) \<and> p \<notin> fst ` L"
    using malloc_ok [OF L n] by blast
  have "calloc nobj sz h = Some (p, h'\<lparr>h_bytes := liballoc_memset p 0 (nat (nobj * sz)) (h_bytes h')\<rparr>)" using m(1) r by (simp add: calloc_def)
  moreover have "\<forall>x. liballoc_memset p 0 (nat (nobj * sz)) (h_bytes h') x = (if p \<le> x \<and> x < p + nobj * sz then 0 else h_bytes h x)"
    by (simp only: liballoc_memset_eq m(2) r(2) simp_thms)
  ultimately show ?thesis using m(3) by (auto simp: holds_bytes)
qed

lemma heap_ok_req:
  assumes ok: "heap_ok h B" and p: "(p, s) \<in> live B" and n: "0 < n" "n \<le> s"
  shows "heap_ok (upd_minor (p - 24) (\<lambda>m. m\<lparr>mn_req_size := n\<rparr>) h) B"
proof -
  let ?h = "upd_minor (p - 24) (\<lambda>m. m\<lparr>mn_req_size := n\<rparr>) h"
  have same: "mn_next (h_minor ?h a) = mn_next (h_minor h a)" "mn_prev (h_minor ?h a) = mn_prev (h_minor h a)"
    "mn_magic (h_minor ?h a) = mn_magic (h_minor h a)" "mn_block (h_minor ?h a) = mn_block (h_minor h a)" "mn_size (h_minor ?h a) = mn_size (h_minor h a)"
    "mn_req_size (h_minor ?h a) = (if a = p - 24 then n else mn_req_size (h_minor h a))" for a by simp_all
  have "mn_size (h_minor h (p - 24)) = s" by (rule live_header(4) [OF ok p])
  then have "chunk_ok ?h M ms" if "chunk_ok h M ms" for M ms
    using that n unfolding chunk_ok_def major_ok_def same by auto
  then show ?thesis using ok by (auto simp: heap_ok_def span_def)
qed

text \<open>\<open>realloc\<close> in place, when the block has been asked for with at least the new size.\<close>

lemma realloc_in_place:
  assumes L: "holds h L" and p: "(p, s) \<in> L" and n: "0 < n" "n \<le> mn_req_size (h_minor h (p - 24))"
  shows "realloc p n h = Some (p, liballoc_unlock (upd_minor (p - 24) (\<lambda>m. m\<lparr>mn_req_size := n\<rparr>) (h\<lparr>h_lock := True\<rparr>)))"
    "holds (liballoc_unlock (upd_minor (p - 24) (\<lambda>m. m\<lparr>mn_req_size := n\<rparr>) (h\<lparr>h_lock := True\<rparr>))) L"
proof -
  obtain B where B: "heap_ok h B" "full B" "\<not> h_lock h" "live B = L" using L by (auto simp: holds_def heap_inv_iff)
  note hd = live_header [OF B(1), of p s, unfolded B(4), OF p]
  show "realloc p n h = Some (p, liballoc_unlock (upd_minor (p - 24) (\<lambda>m. m\<lparr>mn_req_size := n\<rparr>) (h\<lparr>h_lock := True\<rparr>)))"
    using hd(1-3) n B(3) by (simp add: realloc_def liballoc_lock_def)
  have "heap_ok (upd_minor (p - 24) (\<lambda>m. m\<lparr>mn_req_size := n\<rparr>) (h\<lparr>h_lock := True\<rparr>)) B"
    by (rule heap_ok_req [of _ _ _ s]) (use B(1,4) p n hd(6) in simp_all)
  from holdsI [OF this B(2)] show "holds (liballoc_unlock (upd_minor (p - 24) (\<lambda>m. m\<lparr>mn_req_size := n\<rparr>) (h\<lparr>h_lock := True\<rparr>))) L"
    unfolding B(4) .
qed

text \<open>\<open>realloc\<close> to a larger size is \<open>malloc\<close>, a copy and \<open>free\<close>, whatever \<open>malloc\<close> has returned.\<close>

lemma realloc_moves:
  assumes L: "holds h L" and p: "(p, s) \<in> L" and n: "mn_req_size (h_minor h (p - 24)) < n" "n < 2 ^ 30"
  shows "\<exists>q h'. realloc p n h = Some (q, h') \<and> h_bytes h' = liballoc_memcpy q p (nat (mn_req_size (h_minor h (p - 24)))) (h_bytes h) \<and>
    (\<exists>h1. malloc n h = Some (q, h1)) \<and> (if q = 0 then holds h' (L - {(p, s)}) \<and> no_pages n (h_phys h) else holds h' (insert (q, n) (L - {(p, s)})) \<and> q \<notin> fst ` L)"
proof -
  obtain B where B: "heap_ok h B" "\<not> h_lock h" "live B = L" using L by (auto simp: holds_def heap_inv_iff)
  note hd = live_header [OF B(1), of p s, unfolded B(3), OF p]
  let ?r = "mn_req_size (h_minor h (p - 24))"
  have n': "0 \<le> n" "max 1 n = n" using hd(5) n(1) by auto
  obtain q h1 where m: "malloc n h = Some (q, h1)" "h_bytes h1 = h_bytes h"
    "if q = 0 then holds h1 L \<and> h_minor h1 = h_minor h \<and> no_pages n (h_phys h) else holds h1 (insert (q, n) L) \<and> q \<notin> fst ` L"
    using malloc_ok [OF L n'(1) n(2)] unfolding n'(2) by blast
  let ?L = "if q = 0 then L else insert (q, n) L"
  let ?h = "h1\<lparr>h_bytes := liballoc_memcpy q p (nat ?r) (h_bytes h)\<rparr>"
  have "holds ?h ?L" "(p, s) \<in> ?L" using m(3) p by (auto simp: holds_bytes)
  then obtain h' where h': "free p ?h = Some h'" "holds h' (?L - {(p, s)})" "h_bytes h' = h_bytes ?h" using free_ok by blast
  have "liballoc_unlock (h\<lparr>h_lock := True\<rparr>) = h" using B(2) by (cases h) (simp add: liballoc_unlock_def)
  then have "realloc p n h = Some (q, h')" using hd(1-3,5) n(1) B(2) m(1,2) h'(1) by (simp add: realloc_def liballoc_lock_def)
  moreover have "if q = 0 then holds h' (L - {(p, s)}) \<and> no_pages n (h_phys h) else holds h' (insert (q, n) (L - {(p, s)})) \<and> q \<notin> fst ` L"
  proof (cases "q = 0")
    case False
    then have q: "q \<notin> fst ` L" using m(3) by simp
    then have "insert (q, n) L - {(p, s)} = insert (q, n) (L - {(p, s)})" using p by force
    then show ?thesis using h'(2) False q by simp
  qed (use h'(2) m(3) in simp)
  moreover have "h_bytes h' = liballoc_memcpy q p (nat ?r) (h_bytes h)" using h'(3) by simp
  ultimately show ?thesis using m(1) by blast
qed

subsection \<open>Any sequence of calls\<close>

text \<open>
  A client of an allocator: it asks for blocks and gives back any of those it has (\<open>Free i\<close>, the i-th it holds).
\<close>

datatype call = Malloc int | Free nat

fun history :: "(int \<Rightarrow> 's \<Rightarrow> (int \<times> 's) option) \<Rightarrow> (int \<Rightarrow> 's \<Rightarrow> 's option) \<Rightarrow> call list \<Rightarrow> (int \<times> int) list \<Rightarrow> 's \<Rightarrow> ((int \<times> int) list \<times> 's) option" where
  "history alloc release [] held s = Some (held, s)"
| "history alloc release (Malloc n # cs) held s = do {
     (p, s) \<leftarrow> alloc n s;
     history alloc release cs (if p = 0 then held else (p, max 1 n) # held) s
   }"
| "history alloc release (Free i # cs) held s =
     (if i < length held then do { s \<leftarrow> release (fst (held ! i)) s; history alloc release cs (take i held @ drop (Suc i) held) s }
      else history alloc release cs held s)"

definition sizes_below :: "int \<Rightarrow> call list \<Rightarrow> bool" where
  "sizes_below m cs \<longleftrightarrow> list_all (\<lambda>c. case c of Malloc n \<Rightarrow> 0 \<le> n \<and> n < m | Free i \<Rightarrow> True) cs"

text \<open>The contract of an allocator that serves requests below \<open>limit\<close>.\<close>

locale allocator =
  fixes state :: "'s \<Rightarrow> (int \<times> int) set \<Rightarrow> bool" and alloc :: "int \<Rightarrow> 's \<Rightarrow> (int \<times> 's) option" and release :: "int \<Rightarrow> 's \<Rightarrow> 's option"
    and limit :: int
  assumes alloc_law: "state s L \<Longrightarrow> 0 \<le> n \<Longrightarrow> n < limit \<Longrightarrow>
      \<exists>p s'. alloc n s = Some (p, s') \<and> (if p = 0 then state s' L else state s' (insert (p, max 1 n) L) \<and> p \<notin> fst ` L)"
    and release_law: "state s L \<Longrightarrow> (p, k) \<in> L \<Longrightarrow> \<exists>s'. release p s = Some s' \<and> state s' (L - {(p, k)})"
    and apart_law: "state s L \<Longrightarrow> (p, k) \<in> L \<Longrightarrow> (q, t) \<in> L \<Longrightarrow> p \<noteq> q \<Longrightarrow> p + k \<le> q \<or> q + t \<le> p"
begin

lemma history_returns:
  assumes "state s (set held)" "distinct (map fst held)" "sizes_below limit cs"
  shows "\<exists>held' s'. history alloc release cs held s = Some (held', s') \<and> state s' (set held') \<and> distinct (map fst held')"
  using assms
proof (induction cs arbitrary: held s)
  case (Cons c cs)
  have cs: "sizes_below limit cs" using Cons(4) by (simp add: sizes_below_def)
  show ?case
  proof (cases c)
    case (Malloc n)
    then have "0 \<le> n" "n < limit" using Cons(4) by (simp_all add: sizes_below_def)
    from alloc_law [OF Cons(2) this] obtain p s' where a: "alloc n s = Some (p, s')"
      "if p = 0 then state s' (set held) else state s' (insert (p, max 1 n) (set held)) \<and> p \<notin> fst ` set held" by blast
    then have "state s' (set (if p = 0 then held else (p, max 1 n) # held))" "distinct (map fst (if p = 0 then held else (p, max 1 n) # held))"
      using Cons(3) by (auto split: if_splits)
    from Cons(1) [OF this cs] show ?thesis using a(1) Malloc by simp
  next
    case (Free i)
    show ?thesis
    proof (cases "i < length held")
      case True
      then have h: "held = take i held @ held ! i # drop (Suc i) held" by (rule id_take_nth_drop)
      obtain s' where r: "release (fst (held ! i)) s = Some s'" "state s' (set held - {held ! i})"
        using release_law [OF Cons(2), of "fst (held ! i)" "snd (held ! i)"] True by auto
      have d: "distinct (map fst (take i held @ held ! i # drop (Suc i) held))" using Cons(3) h by simp
      then have "set (take i held @ drop (Suc i) held) = set (take i held @ held ! i # drop (Suc i) held) - {held ! i}" by force
      then have "state s' (set (take i held @ drop (Suc i) held))" using r(2) unfolding h [symmetric] by (simp only:)
      moreover have "distinct (map fst (take i held @ drop (Suc i) held))" using d by auto
      ultimately show ?thesis using Cons(1) [OF _ _ cs] r(1) Free True by fastforce
    qed (use Cons(1) [OF Cons(2,3) cs] Free in simp)
  qed
qed simp

lemma history_apart:
  assumes "state s {}" "sizes_below limit cs"
  shows "\<exists>held s'. history alloc release cs [] s = Some (held, s') \<and> state s' (set held) \<and> distinct (map fst held) \<and>
    (\<forall>(p, k)\<in>set held. \<forall>(q, t)\<in>set held. p \<noteq> q \<longrightarrow> p + k \<le> q \<or> q + t \<le> p)"
proof -
  from history_returns [of s "[]" cs] assms obtain held s' where
    h: "history alloc release cs [] s = Some (held, s')" "state s' (set held)" "distinct (map fst held)" by auto
  show ?thesis by (rule exI [of _ held], rule exI [of _ s']) (use h apart_law [OF h(2)] in auto)
qed

end

interpretation kheap: allocator holds malloc free "2 ^ 30"
proof unfold_locales
  fix s :: heap and L and n :: int
  assume "holds s L" "0 \<le> n" "n < 2 ^ 30"
  from malloc_ok [OF this] show "\<exists>p s'. malloc n s = Some (p, s') \<and> (if p = 0 then holds s' L else holds s' (insert (p, max 1 n) L) \<and> p \<notin> fst ` L)"
    by (metis (no_types, lifting))
next
  fix s :: heap and L p k
  assume "holds s L" "(p, k) \<in> L"
  from free_ok [OF this] show "\<exists>s'. free p s = Some s' \<and> holds s' (L - {(p, k)})" by blast
next
  fix s :: heap and L p k q t
  assume "holds s L" "(p, k) \<in> L" "(q, t) \<in> L" "p \<noteq> q"
  from holds_apart [OF this] show "p + k \<le> q \<or> q + t \<le> p" by linarith
qed

subsection \<open>Concrete heaps\<close>

text \<open>Pages 1 to 50 are free, and a heap in which one block of 100 bytes has been handed out from them.\<close>

definition mem_heap :: physmem where "mem_heap = mark_pages False 50 1 mem_full"

definition heap_none :: heap where
  "heap_none = heap_start (\<lambda>_. new_header 0) (\<lambda>_. \<lparr>mn_prev = 0, mn_next = 0, mn_block = 0, mn_magic = 0, mn_size = 0, mn_req_size = 0\<rparr>) (\<lambda>_. 7) mem_heap"

definition heap_one :: heap where
  "heap_one = heap_none\<lparr>
     h_major := (\<lambda>_. \<lparr>mj_prev = 0, mj_next = 0, mj_pages = 16, mj_size = 65536, mj_usage = 148, mj_first = 4120\<rparr>),
     h_minor := (\<lambda>a. \<lparr>mn_prev = 0, mn_next = 0, mn_block = 4096, mn_magic = (if a = 4120 then LIBALLOC_MAGIC else 0), mn_size = 100, mn_req_size = 100\<rparr>),
     h_phys := mark_pages False 34 17 mem_full, l_memRoot := 4096, l_allocated := 65536, l_inuse := 100\<rparr>"

lemma heap_start_holds: "ISSET ph 0 \<Longrightarrow> holds (heap_start mj mn m ph) {}"
  by (auto simp: holds_def heap_inv_def heap_ok_def heap_start_def intro!: exI [of _ "[]"])

lemma mem_heap_ISSET: "ISSET mem_heap p \<longleftrightarrow> \<not> (1 \<le> p \<and> p < 51)"
  by (simp add: mem_heap_def mark_pages_ISSET mem_full_ISSET)

lemma heap_none_holds: "holds heap_none {}"
  unfolding heap_none_def by (rule heap_start_holds) (simp add: mem_heap_ISSET)

lemma heap_one_holds: "holds heap_one {(4144, 100)}"
proof -
  have "heap_inv heap_one [(4096, [(4120, 100)])]"
    by (simp add: heap_inv_def heap_ok_def chunk_ok_def major_ok_def heap_one_def heap_none_def heap_start_def MAXMAP_def used_def payload_def span_def
        mark_pages_ISSET mem_full_ISSET)
  moreover have "live [(4096, [(4120, 100)])] = {(4144, 100)}" by simp
  ultimately show ?thesis unfolding holds_def by blast
qed

subsection \<open>Properties\<close>

text \<open>
  C11. \<open>malloc\<close>. For a heap that holds the blocks \<open>L\<close> and a request below \<open>2 ^ 30\<close>, the search ends. It hands out a block of the
  size asked for (one byte for a request of 0) at an address that is not in use, all other blocks and the bytes stay; it returns NULL only when
  the physical allocator has no run of pages for a new major, and then no block changes.
\<close>

theorem malloc_gives:
  assumes "holds h L" "0 \<le> n" "n < 2 ^ 30"
  shows "\<exists>p h'. malloc n h = Some (p, h') \<and> h_bytes h' = h_bytes h \<and>
    (if p = 0 then holds h' L \<and> no_pages (max 1 n) (h_phys h) else holds h' (insert (p, max 1 n) L) \<and> p \<notin> fst ` L)"
  using malloc_ok [OF assms] by (metis (no_types, lifting))

theorem malloc_gives_witness:
  "\<exists>p h'. malloc 300 heap_one = Some (p, h') \<and> h_bytes h' = h_bytes heap_one \<and>
    (if p = 0 then holds h' {(4144, 100)} \<and> no_pages (max 1 300) (h_phys heap_one) else holds h' (insert (p, max 1 300) {(4144, 100)}) \<and> p \<notin> fst ` {(4144 :: int, 100 :: int)})"
  using malloc_gives [OF heap_one_holds, of 300] by simp

text \<open>
  C12. Blocks never overlap. From the empty heap, whatever sequence of \<open>malloc\<close> (below \<open>2 ^ 30\<close> bytes) and \<open>free\<close> of blocks in use is called, every
  call returns and the blocks that are held at the end are pairwise disjoint ranges of bytes.
\<close>

theorem heap_blocks_disjoint:
  assumes "ISSET ph 0" "sizes_below (2 ^ 30) cs"
  shows "\<exists>held h'. history malloc free cs [] (heap_start mj mn m ph) = Some (held, h') \<and> holds h' (set held) \<and> distinct (map fst held) \<and>
    (\<forall>(p, k)\<in>set held. \<forall>(q, t)\<in>set held. p \<noteq> q \<longrightarrow> p + k \<le> q \<or> q + t \<le> p)"
  by (rule kheap.history_apart [OF heap_start_holds [OF assms(1)] assms(2)])

theorem heap_blocks_disjoint_witness:
  "\<exists>held h'. history malloc free [Malloc 100, Malloc 70000, Free 1, Malloc 0] [] heap_none = Some (held, h') \<and> holds h' (set held) \<and> distinct (map fst held) \<and>
    (\<forall>(p, k)\<in>set held. \<forall>(q, t)\<in>set held. p \<noteq> q \<longrightarrow> p + k \<le> q \<or> q + t \<le> p)"
  unfolding heap_none_def by (rule heap_blocks_disjoint) (simp_all add: mem_heap_ISSET sizes_below_def)

text \<open>
  C13. \<open>free\<close> of a block in use takes exactly this block away, and a second \<open>free\<close> of the same pointer is refused: it changes no block and
  is counted as an error.
\<close>

theorem free_takes_once:
  assumes "holds h L" "(p, s) \<in> L"
  shows "\<exists>h1 h2. free p h = Some h1 \<and> holds h1 (L - {(p, s)}) \<and> h_bytes h1 = h_bytes h \<and> l_errorCount h1 = l_errorCount h \<and>
    free p h1 = Some h2 \<and> holds h2 (L - {(p, s)}) \<and> l_errorCount h2 = l_errorCount h + 1"
proof -
  obtain h1 where h1: "free p h = Some h1" "holds h1 (L - {(p, s)})" "h_bytes h1 = h_bytes h"
    "mn_magic (h_minor h1 (p - 24)) = LIBALLOC_DEAD" "l_errorCount h1 = l_errorCount h" using free_ok [OF assms] by blast
  obtain B where B: "heap_ok h B" "live B = L" using assms(1) by (auto simp: holds_def heap_inv_iff)
  have p: "uw (p - 24) = p - 24" "p \<noteq> 0" using live_header [OF B(1), of p s] B(2) assms(2) by simp_all
  have k: "\<not> h_lock h1" "holds (h1\<lparr>l_errorCount := l_errorCount h1 + 1, h_lock := False\<rparr>) (L - {(p, s)})"
    using h1(2) by (auto simp: holds_def heap_inv_iff)
  have "free p h1 = Some (h1\<lparr>l_errorCount := l_errorCount h1 + 1, h_lock := False\<rparr>)"
    using p h1(4) k(1) by (simp add: free_def liballoc_lock_def liballoc_unlock_def bad_magic_def LIBALLOC_DEAD_def LIBALLOC_MAGIC_def)
  then show ?thesis using h1 k(2) by auto
qed

theorem free_takes_once_witness:
  "\<exists>h1 h2. free 4144 heap_one = Some h1 \<and> holds h1 ({(4144, 100)} - {(4144, 100)}) \<and> h_bytes h1 = h_bytes heap_one \<and> l_errorCount h1 = l_errorCount heap_one \<and>
    free 4144 h1 = Some h2 \<and> holds h2 ({(4144, 100)} - {(4144, 100)}) \<and> l_errorCount h2 = l_errorCount heap_one + 1"
  by (rule free_takes_once [OF heap_one_holds]) simp

text \<open>
  \<open>calloc\<close> hands out a block of \<open>nobj * size\<close> bytes that are all 0 and changes no other byte. When \<open>malloc\<close> has returned NULL it clears
  that many bytes from address 0 on.
\<close>

theorem calloc_clears:
  assumes "holds h L" "0 \<le> nobj * sz" "nobj * sz < 2 ^ 30"
  shows "\<exists>p h'. calloc nobj sz h = Some (p, h') \<and>
    (\<forall>x. h_bytes h' x = (if p \<le> x \<and> x < p + nobj * sz then 0 else h_bytes h x)) \<and>
    (if p = 0 then holds h' L \<and> no_pages (max 1 (nobj * sz)) (h_phys h) else holds h' (insert (p, max 1 (nobj * sz)) L) \<and> p \<notin> fst ` L)"
  by (rule calloc_ok [OF assms])

theorem calloc_clears_witness:
  "\<exists>p h'. calloc 3 8 heap_one = Some (p, h') \<and>
    (\<forall>x. h_bytes h' x = (if p \<le> x \<and> x < p + 3 * 8 then 0 else h_bytes heap_one x)) \<and>
    (if p = 0 then holds h' {(4144, 100)} \<and> no_pages (max 1 (3 * 8)) (h_phys heap_one) else holds h' (insert (p, max 1 (3 * 8)) {(4144, 100)}) \<and> p \<notin> fst ` {(4144 :: int, 100 :: int)})"
  by (rule calloc_clears [OF heap_one_holds]) simp_all

text \<open>
  C14. \<open>realloc\<close> of a block in use. A size up to the one last asked for keeps the block and all bytes. A larger one gives a new block of the size
  asked for that starts with the bytes of the old one, which is released; no byte outside of the new block changes. When there is no memory for it the result of \<open>malloc\<close> is
  not looked at: the bytes are copied to address 0, the old block is released, and NULL is returned, so that the caller has lost the block. In this case the block is taken to be
  at most a page: the copy then stays within page 0, which holds no header of the heap.
\<close>

theorem realloc_keeps:
  assumes "holds h L" "(p, s) \<in> L" "0 < n" "n < 2 ^ 30"
    and "no_pages n (h_phys h) \<Longrightarrow> mn_req_size (h_minor h (p - 24)) \<le> 4096"
  shows "\<exists>q h'. realloc p n h = Some (q, h') \<and>
    (let r = mn_req_size (h_minor h (p - 24)) in
     if n \<le> r then q = p \<and> holds h' L \<and> h_bytes h' = h_bytes h
     else if q = 0 then no_pages n (h_phys h) \<and> holds h' (L - {(p, s)}) \<and> h_bytes h' = liballoc_memcpy 0 p (nat r) (h_bytes h)
     else holds h' (insert (q, n) (L - {(p, s)})) \<and> q \<notin> fst ` L \<and>
       (\<forall>x. h_bytes h' x = (if q \<le> x \<and> x < q + r then h_bytes h (p + (x - q)) else h_bytes h x)))"
proof (cases "n \<le> mn_req_size (h_minor h (p - 24))")
  case True
  then show ?thesis using realloc_in_place [OF assms(1-3) True] by (auto simp: liballoc_unlock_def)
next
  case False
  let ?r = "mn_req_size (h_minor h (p - 24))"
  have n: "?r < n" using False by simp
  obtain B where B: "heap_ok h B" "live B = L" using assms(1) by (auto simp: holds_def heap_inv_iff)
  have r: "0 < ?r" "?r \<le> s" using live_header [OF B(1), of p s] B(2) assms(2) by simp_all
  obtain q h' h1 where q: "realloc p n h = Some (q, h')" "h_bytes h' = liballoc_memcpy q p (nat ?r) (h_bytes h)" "malloc n h = Some (q, h1)"
    "if q = 0 then holds h' (L - {(p, s)}) \<and> no_pages n (h_phys h) else holds h' (insert (q, n) (L - {(p, s)})) \<and> q \<notin> fst ` L"
    using realloc_moves [OF assms(1,2) n assms(4)] by blast
  have "h_bytes h' x = (if q \<le> x \<and> x < q + ?r then h_bytes h (p + (x - q)) else h_bytes h x)" if "q \<noteq> 0" for x
  proof -
    have "holds h1 (insert (q, n) L)" "q \<notin> fst ` L" using malloc_ok [OF assms(1) _ assms(4)] assms(3) q(3) that by (auto simp: max_def split: if_splits)
    moreover from this have "p \<noteq> q" using assms(2) by force
    ultimately have "p + s \<le> q - 24 \<or> q + n \<le> p - 24" using holds_apart [of h1 "insert (q, n) L" p s q n] assms(2) by blast
    then have "q + int (nat ?r) \<le> p \<or> p + int (nat ?r) \<le> q" using r n by auto
    from liballoc_memcpy_eq [OF this] show ?thesis using q(2) r(1) by simp
  qed
  then show ?thesis using q(1,2,4) False by (auto simp: Let_def)
qed

theorem realloc_keeps_witness:
  "\<exists>q h'. realloc 4144 200 heap_one = Some (q, h') \<and>
    (let r = mn_req_size (h_minor heap_one (4144 - 24)) in
     if 200 \<le> r then q = 4144 \<and> holds h' {(4144, 100)} \<and> h_bytes h' = h_bytes heap_one
     else if q = 0 then no_pages 200 (h_phys heap_one) \<and> holds h' ({(4144, 100)} - {(4144, 100)}) \<and> h_bytes h' = liballoc_memcpy 0 4144 (nat r) (h_bytes heap_one)
     else holds h' (insert (q, 200) ({(4144, 100)} - {(4144, 100)})) \<and> q \<notin> fst ` {(4144 :: int, 100 :: int)} \<and>
       (\<forall>x. h_bytes h' x = (if q \<le> x \<and> x < q + r then h_bytes heap_one (4144 + (x - q)) else h_bytes heap_one x)))"
  by (rule realloc_keeps [OF heap_one_holds]) (simp_all add: heap_one_def)

text \<open>
  \<open>realloc\<close> without memory. When \<open>malloc\<close> returns NULL for the larger size, the result is not checked: the bytes are copied to address 0, the old
  block is released, and NULL is returned. The caller has lost the block.
\<close>

theorem realloc_failure_loses_block:
  assumes "holds h L" "(p, s) \<in> L" "mn_req_size (h_minor h (p - 24)) < n" "n < 2 ^ 30" "malloc n h = Some (0, h1)"
  shows "\<exists>h'. realloc p n h = Some (0, h') \<and> holds h' (L - {(p, s)}) \<and>
    h_bytes h' = liballoc_memcpy 0 p (nat (mn_req_size (h_minor h (p - 24)))) (h_bytes h)"
  using realloc_moves [OF assms(1-4)] assms(5) by auto

definition heap_tight :: heap where "heap_tight = heap_one\<lparr>h_phys := mem_full\<rparr>"

lemma heap_tight_holds: "holds heap_tight {(4144, 100)}"
proof -
  have "heap_inv heap_tight [(4096, [(4120, 100)])]"
    by (simp add: heap_inv_def heap_ok_def chunk_ok_def major_ok_def heap_tight_def heap_one_def heap_none_def heap_start_def MAXMAP_def used_def payload_def span_def
        mem_full_ISSET)
  moreover have "live [(4096, [(4120, 100)])] = {(4144, 100)}" by simp
  ultimately show ?thesis unfolding holds_def by blast
qed

lemma heap_tight_malloc: "\<exists>h1. malloc 70000 heap_tight = Some (0, h1)"
proof -
  have "memory_alloc mem_full n = (if 0 < n then Some (0, mem_full) else None)" for n by (simp add: memory_alloc_def mem_full_def)
  then show ?thesis
    by (simp add: malloc_def malloc_locked_def malloc_loop.simps [of _ _ 4096] heap_tight_def heap_one_def heap_none_def heap_start_def liballoc_lock_def
        visit_major_def append_major_def allocate_new_page_def liballoc_alloc_def Let_def)
qed

theorem realloc_failure_loses_block_witness:
  "\<exists>h'. realloc 4144 70000 heap_tight = Some (0, h') \<and> holds h' ({(4144, 100)} - {(4144, 100)}) \<and>
    h_bytes h' = liballoc_memcpy 0 4144 (nat (mn_req_size (h_minor heap_tight (4144 - 24)))) (h_bytes heap_tight)"
proof -
  obtain h1 where "malloc 70000 heap_tight = Some (0, h1)" using heap_tight_malloc by blast
  moreover have "mn_req_size (h_minor heap_tight (4144 - 24)) < 70000" by (simp add: heap_tight_def heap_one_def)
  ultimately show ?thesis by (intro realloc_failure_loses_block [OF heap_tight_holds]) simp_all
qed

text \<open>
  C35. Sizes near \<open>2 ^ 32\<close> wrap. The sum of the size and the header is computed in 32 bits: on an empty heap a request of \<open>2 ^ 32 - 24\<close> to \<open>2 ^ 32 - 1\<close> bytes
  is served with a block of this size in a major of 16 pages, if there are 16 pages, instead of NULL.
\<close>

theorem malloc_size_wraps:
  assumes "l_memRoot h = 0" "l_bestBet h = 0" "\<not> h_lock h" "memory_alloc (h_phys h) 16 = Some (a, ph)" "a \<noteq> 0" "2 ^ 32 - 24 \<le> n" "n < 2 ^ 32"
  shows "\<exists>h'. malloc n h = Some (uint a + 48, h') \<and> mn_size (h_minor h' (uint a + 24)) = n \<and> mj_size (h_major h' (uint a)) = 65536"
proof -
  obtain k where n: "n = 4294967272 + k" "0 \<le> k" "k < 24" using assms(6,7) by (intro that [of "n - 4294967272"]) auto
  have u: "uw (n + 24) = k" "uw (k + 24) = k + 24" using n by (simp_all add: uw_def)
  have st: "(k + 24) mod 4096 = k + 24" "(k + 24) div 4096 = 0" using n by simp_all
  have "uint a + 48 < 4294967296"
  proof (rule memory_alloc_cases [OF _ assms(4)])
    fix b assume "unat a = b * PAGE_SIZE" "took (h_phys h) b (nat 16) ph"
    then have "uint a = 4096 * int b" "b \<le> 32768" by (simp_all add: uint_nat PAGE_SIZE_def took_def MAXMAP_def)
    then show ?thesis by simp
  qed (use assms(5) in simp_all)
  then have ad: "uw (uint a + 24) = uint a + 24" "uw (uint a + 24 + 24) = uint a + 48" "uw (48 + uint a) = uint a + 48" by simp_all
  have a0: "uint a \<noteq> 0" "n \<noteq> 0" using assms(5) n by (simp_all add: uint_0_iff)
  show ?thesis
    using assms(1-4) a0 n(2,3) st
    by (simp add: malloc_def malloc_locked_def malloc_loop.simps [of _ _ "uint a"] liballoc_lock_def visit_major_def try_major_def allocate_new_page_def
        liballoc_alloc_def place_only_def bytes_of_def count_block_def liballoc_unlock_def Let_def u ad)
qed

lemma mem_heap_alloc: "\<exists>ph. memory_alloc mem_heap 16 = Some (4096, ph)"
proof -
  have f: "s_lastPage mem_heap = 1" "s_freePages mem_heap = 50" by (simp_all add: mem_heap_def mark_pages_counts mem_full_def)
  have "arr_find (\<lambda>j. ISSET mem_heap (Suc j)) 16 0 = 16" by (rule arr_find_noneI) (simp_all add: mem_heap_ISSET)
  then have "alloc_scan mem_heap 16 0 = Some 1" by (subst alloc_scan.simps) (simp add: f MAXMAP_def Let_def)
  then show ?thesis by (simp add: memory_alloc_def memory_multiple_alloc_def PAGE_SIZE_def f)
qed

theorem malloc_size_wraps_witness:
  "\<exists>h'. malloc 4294967280 heap_none = Some (4144, h') \<and> mn_size (h_minor h' 4120) = 4294967280 \<and> mj_size (h_major h' 4096) = 65536"
proof -
  obtain ph where "memory_alloc mem_heap 16 = Some (4096, ph)" using mem_heap_alloc by blast
  then have "memory_alloc (h_phys heap_none) 16 = Some (4096, ph)" by (simp add: heap_none_def heap_start_def)
  from malloc_size_wraps [OF _ _ _ this, of 4294967280] show ?thesis by (simp add: heap_none_def heap_start_def)
qed

end
