(* ===== verification/Spec2Isabelle.thy ===== *)
theory Spec2Isabelle
  imports Syscalls Heap
begin

text \<open>
  The spoon microkernel (src/kernel/src; src/spoon/kernel is a second copy of it): a kernel for several
  i386 processors that gives user programs processes, threads, memory and two kinds of
  inter-process communication, pulses (three words) and messages (bytes), which arrive at ports. File
  systems, drivers and all else are user programs.

  \<^bold>\<open>The parts and how they work together.\<close> Threads are run by a scheduler per processor (scheduler.c), which
  keeps a run queue, a sorted queue of sleepers and a ring of threads that an interrupt made urgent.
  \<open>set_thread_state\<close> (threads.c) is the door to it: whoever wakes or stops a thread goes through it, also
  the senders of pulses and messages (pulse.c, messages.c), who wake a dormant receiver. A receiver owns ports
  (ports.c); each port is a pair of queues (ds/aqueue.c) in the process. Processes (process.c) are found by id in a
  hash table (ds/htable.c), are linked in a list and in a family tree (include/ds/list.h, family.h), and are
  guarded by reader/writer locks (rwlock.c); threads of a process are kept in the same three ways (threads.c).
  A process has an address space (paging.c) and a list of regions (ualloc.c) over the bitmap of physical pages
  (physmem.c), from which the heap of the kernel (liballoc.c) takes its pages too, an environment (env.c) and handlers for events of other processes (events.c). What has finished is queued for
  the garbage collector (gc.c), which destroys threads and processes. Processes share memory by regions with owners and grants (shmem.c), and threads
  that handle interrupts of devices are asked in turn (irq.c). User programs reach all this by system calls (syscalls.c), which check their process out, call the operation and
  commit the process again.

  \<^bold>\<open>State.\<close> Objects on the heap are named by addresses; \<open>kstate\<close> (theory Kernel) has stores from addresses to threads
  and processes, records with the fields of the structs, the stores of list and tree nodes, the processors and the globals.
  \<open>pgmem\<close> (Paging) is physical memory with its allocator, \<open>uspace\<close> (Ualloc) the memory of one process, \<open>mstate\<close>
  (Process) the kernel state with the memory of all, \<open>gstate\<close> (Gc) that with the rings of the collector, \<open>shstate\<close> (Shmem) that with the shared regions.
  An operation is a function from the state to its result and the next state. A failed assertion, a NULL pointer that is
  followed and a loop that does not end are all \<open>None\<close>; error codes are results. C \<open>int\<close> is \<open>int\<close> with \<open>wrap32\<close> where it may
  overflow, \<open>unsigned\<close> and addresses of memory are \<open>32 word\<close>, times \<open>64 word\<close>, bytes \<open>8 word\<close>. The components that call
  \<open>malloc\<close> have whether it finds memory as an argument; the heap itself is a component of its own.

  \<^bold>\<open>Theories.\<close>
  \<^item> Prelude: \<open>assert\<close> in the option monad, arrays as functions, searches \<open>arr_find\<close>, wrap-around; the lemmas on them that the
    components share.
  \<^item> Aqueue (ds/aqueue.c): queue of fixed-size objects in pages, as the concatenation of its pages; the interface \<open>fifo\<close> is
    stated here, with the lemma that objects come out in the order they went in.
  \<^item> Htable (ds/htable.c): open addressing with growth and shrinking; interface \<open>lookup_table\<close> over the multiset of entries.
  \<^item> Rwlock (rwlock.c): the operations on one processor, and a machine in which agents interleave access by access; exclusion
    by rule induction on runs that count how often read access was granted, because the counters of 32 bits wrap around; the lost decrement, and what it does after
    \<open>2 ^ 32\<close> rounds.
  \<^item> Family (include/ds/list.h, family.h): list and tree operations on stores of links.
  \<^item> Cstring (misc.c), Env (env.c): string functions; the environment as a refinement of a finite map.
  \<^item> Kernel (include/*.h, lookup of threads.c): the structs, and the interface \<open>id_counter\<close> for the choice of fresh ids.
  \<^item> Scheduler, Scheduling (scheduler.c, interrupts.c, parts of threads.c): the operations; the step relation of all processors, in which any CPU may set any
    thread to any state, with its invariant on the runs that leave threads alone between their pausing and their leaving the CPU, and a run in which that is not kept; round
    robin, sleeping and waking.
  \<^item> Ports, Pulse, Messages, Port_Release (ports.c, pulse.c, messages.c): the invariant that ties port blocks to the ports of threads,
    delivery in order, reception without a port, release.
  \<^item> Physmem (physmem.c): the bitmap; live runs are disjoint under any sequence of calls.
  \<^item> Liballoc, Heap (liballoc.c, liballoc_hooks.c): majors and minors with their links, sizes, counters and pages as one invariant;
    the search returns; \<open>holds\<close> abstracts a heap to the set of its blocks, and the calls are operations on that set.
  \<^item> Paging, Page_Out (paging.c): directories and tables as words in memory, their invariant, and the map from pages to entries
    that mapping and unmapping refine.
  \<^item> Ualloc (ualloc.c): regions, disjoint in addresses and frames; round trips.
  \<^item> Process (process.c): table, list and tree in step.
  \<^item> Events (events.c): the count of hooks.
  \<^item> Threads (threads.c): creation with the first frame, deletion.
  \<^item> Gc (gc.c): the ring, destruction of threads and processes.
  \<^item> Shmem, Sharing (shmem.c): regions, their users and the table; the invariant under any sequence of calls, with what holds beyond it when every release follows its request; requests and releases as a round trip
    of the address space, access control, revocation by copy, the cleaning up after a process.
  \<^item> Irq (irq.c, masks of ioapic.c): the handlers of a line, who is asked when it is raised, and the masks.
  \<^item> Syscalls (syscalls.c, ioperms.c): the calls over the states of their components; the entry and the switch over the numbers, over the state \<open>world\<close> that holds all of them; a memory call is
    the operation of ualloc.c, from the entry over the switch to the return, with all locks given back; and what the privilege for input and output protects.

  \<^bold>\<open>Interfaces and who provides them.\<close> \<open>fifo\<close> is interpreted for the page queue (\<open>aq\<close>), for pulses and messages from send to receive
  over the whole kernel state (\<open>pl\<close>, \<open>ms\<close>) and for the ring of the collector (\<open>gq\<close>); \<open>lookup_table\<close> for the hash table (\<open>ht\<close>), on which
  thread and process tables rest; \<open>id_counter\<close> for thread ids (\<open>tid\<close>), process ids (\<open>pid\<close>) and ids of shared regions (\<open>shid\<close>); \<open>allocator\<close> for the kernel heap (\<open>kheap\<close>);
  \<open>kernel_holder\<close>, a state with a kernel state in it, for the states over which system calls run (\<open>holds_k\<close>, \<open>holds_m\<close>, \<open>holds_i\<close>, \<open>holds_s\<close>, \<open>holds_w\<close>).

  \<^bold>\<open>Bounds.\<close> The mutual recursion of insertion and growth of the hash table has fuel 2: the table that is refilled is never over its limit,
  so that the second level does not grow (\<open>htable_insert_grows\<close>). Ids are at most \<open>2 ^ 23\<close> and tables at most \<open>2 ^ 23\<close> wide in the
  theorems, below which keys and indices do not wrap around. Loops over links and searches are \<open>partial_function\<close>s, and the theorems
  show that they return. Requests to the heap are below \<open>2 ^ 30\<close> bytes, below which no sum wraps around. Three are not shown to return: \<open>acquire_finishing\<close> and \<open>queue_for_gc\<close> wait for other processors, and \<open>delete_threads\<close> depends on
  the memory of all threads of a process.

  \<^bold>\<open>What is an argument.\<close> What other processors do while a thread sleeps or the collector waits (\<open>yield\<close>, \<open>others\<close>); the interleaving of
  processors is explicit in the step relations of Rwlock and Scheduling. Of the system calls (record \<open>outside\<close>): what \<open>malloc\<close> finds, the loading of a program
  (\<open>exec_memory_region\<close>), the search for PCI devices, the reboot and the frame buffer; what the pointers of the user lead to is in the record \<open>user_data\<close>.

  \<^bold>\<open>Not modelled.\<close> The copying of registers to and from the stack of a system call; the loading of programs and boot modules (exec.c, modules.c); the set-up of processor, buses and devices; text output. The assembler
  (switch.S, jump.S) and the user programs, libraries and drivers outside the kernel are left aside.
\<close>

end
